(* ===== verification/Conn_State.thy ===== *)
theory Conn_State
  imports Main
begin

text \<open>
  The states of an \<^verbatim>\<open>AsyncConnection\<close> (\<^verbatim>\<open>src/src/async/AsyncConnection.h\<close>) in the order of their declaration.
  The code compares states with \<^verbatim>\<open><\<close>, so the type is made a linear order by their numbers.
\<close>

datatype conn_state =
    STATE_NONE
  | STATE_OPEN
  | STATE_OPEN_KEEPALIVE2
  | STATE_OPEN_KEEPALIVE2_ACK
  | STATE_OPEN_TAG_ACK
  | STATE_OPEN_MESSAGE_HEADER
  | STATE_OPEN_MESSAGE_THROTTLE_MESSAGE
  | STATE_OPEN_MESSAGE_THROTTLE_BYTES
  | STATE_OPEN_MESSAGE_READ_FRONT
  | STATE_OPEN_MESSAGE_READ_MIDDLE
  | STATE_OPEN_MESSAGE_READ_DATA_PREPARE
  | STATE_OPEN_MESSAGE_READ_DATA
  | STATE_OPEN_MESSAGE_READ_FOOTER
  | STATE_OPEN_MESSAGE_THROTTLE_DISPATCH_SIZE
  | STATE_OPEN_MESSAGE_DISPATCH
  | STATE_OPEN_TAG_CLOSE
  | STATE_WAIT_SEND
  | STATE_CONNECTING
  | STATE_CONNECTING_WAIT_BANNER
  | STATE_CONNECTING_WAIT_IDENTIFY_PEER
  | STATE_CONNECTING_SEND_CONNECT_MSG
  | STATE_CONNECTING_WAIT_CONNECT_REPLY
  | STATE_CONNECTING_WAIT_CONNECT_REPLY_AUTH
  | STATE_CONNECTING_WAIT_ACK_SEQ
  | STATE_CONNECTING_READY
  | STATE_ACCEPTING
  | STATE_ACCEPTING_WAIT_BANNER_ADDR
  | STATE_ACCEPTING_WAIT_CONNECT_MSG
  | STATE_ACCEPTING_WAIT_CONNECT_MSG_AUTH
  | STATE_ACCEPTING_WAIT_SEQ
  | STATE_ACCEPTING_READY
  | STATE_STANDBY
  | STATE_CLOSED
  | STATE_WAIT

primrec state_num :: "conn_state \<Rightarrow> nat" where
  "state_num STATE_NONE = 0"
| "state_num STATE_OPEN = 1"
| "state_num STATE_OPEN_KEEPALIVE2 = 2"
| "state_num STATE_OPEN_KEEPALIVE2_ACK = 3"
| "state_num STATE_OPEN_TAG_ACK = 4"
| "state_num STATE_OPEN_MESSAGE_HEADER = 5"
| "state_num STATE_OPEN_MESSAGE_THROTTLE_MESSAGE = 6"
| "state_num STATE_OPEN_MESSAGE_THROTTLE_BYTES = 7"
| "state_num STATE_OPEN_MESSAGE_READ_FRONT = 8"
| "state_num STATE_OPEN_MESSAGE_READ_MIDDLE = 9"
| "state_num STATE_OPEN_MESSAGE_READ_DATA_PREPARE = 10"
| "state_num STATE_OPEN_MESSAGE_READ_DATA = 11"
| "state_num STATE_OPEN_MESSAGE_READ_FOOTER = 12"
| "state_num STATE_OPEN_MESSAGE_THROTTLE_DISPATCH_SIZE = 13"
| "state_num STATE_OPEN_MESSAGE_DISPATCH = 14"
| "state_num STATE_OPEN_TAG_CLOSE = 15"
| "state_num STATE_WAIT_SEND = 16"
| "state_num STATE_CONNECTING = 17"
| "state_num STATE_CONNECTING_WAIT_BANNER = 18"
| "state_num STATE_CONNECTING_WAIT_IDENTIFY_PEER = 19"
| "state_num STATE_CONNECTING_SEND_CONNECT_MSG = 20"
| "state_num STATE_CONNECTING_WAIT_CONNECT_REPLY = 21"
| "state_num STATE_CONNECTING_WAIT_CONNECT_REPLY_AUTH = 22"
| "state_num STATE_CONNECTING_WAIT_ACK_SEQ = 23"
| "state_num STATE_CONNECTING_READY = 24"
| "state_num STATE_ACCEPTING = 25"
| "state_num STATE_ACCEPTING_WAIT_BANNER_ADDR = 26"
| "state_num STATE_ACCEPTING_WAIT_CONNECT_MSG = 27"
| "state_num STATE_ACCEPTING_WAIT_CONNECT_MSG_AUTH = 28"
| "state_num STATE_ACCEPTING_WAIT_SEQ = 29"
| "state_num STATE_ACCEPTING_READY = 30"
| "state_num STATE_STANDBY = 31"
| "state_num STATE_CLOSED = 32"
| "state_num STATE_WAIT = 33"

definition all_states :: "conn_state list" where
  "all_states =
    [STATE_NONE, STATE_OPEN, STATE_OPEN_KEEPALIVE2, STATE_OPEN_KEEPALIVE2_ACK, STATE_OPEN_TAG_ACK,
     STATE_OPEN_MESSAGE_HEADER, STATE_OPEN_MESSAGE_THROTTLE_MESSAGE, STATE_OPEN_MESSAGE_THROTTLE_BYTES,
     STATE_OPEN_MESSAGE_READ_FRONT, STATE_OPEN_MESSAGE_READ_MIDDLE, STATE_OPEN_MESSAGE_READ_DATA_PREPARE,
     STATE_OPEN_MESSAGE_READ_DATA, STATE_OPEN_MESSAGE_READ_FOOTER,
     STATE_OPEN_MESSAGE_THROTTLE_DISPATCH_SIZE, STATE_OPEN_MESSAGE_DISPATCH, STATE_OPEN_TAG_CLOSE,
     STATE_WAIT_SEND, STATE_CONNECTING, STATE_CONNECTING_WAIT_BANNER,
     STATE_CONNECTING_WAIT_IDENTIFY_PEER, STATE_CONNECTING_SEND_CONNECT_MSG,
     STATE_CONNECTING_WAIT_CONNECT_REPLY, STATE_CONNECTING_WAIT_CONNECT_REPLY_AUTH,
     STATE_CONNECTING_WAIT_ACK_SEQ, STATE_CONNECTING_READY, STATE_ACCEPTING,
     STATE_ACCEPTING_WAIT_BANNER_ADDR, STATE_ACCEPTING_WAIT_CONNECT_MSG,
     STATE_ACCEPTING_WAIT_CONNECT_MSG_AUTH, STATE_ACCEPTING_WAIT_SEQ, STATE_ACCEPTING_READY,
     STATE_STANDBY, STATE_CLOSED, STATE_WAIT]"

lemma all_states_nth: "all_states ! state_num s = s"
  by (cases s) (simp_all add: all_states_def)

instantiation conn_state :: linorder
begin

definition less_eq_conn_state :: "conn_state \<Rightarrow> conn_state \<Rightarrow> bool" where
  "s \<le> t \<longleftrightarrow> state_num s \<le> state_num t"

definition less_conn_state :: "conn_state \<Rightarrow> conn_state \<Rightarrow> bool" where
  "s < t \<longleftrightarrow> state_num s < state_num t"

instance
proof
  fix s t u :: conn_state
  show "s < t \<longleftrightarrow> s \<le> t \<and> \<not> t \<le> s" by (auto simp: less_eq_conn_state_def less_conn_state_def)
  show "s \<le> s" by (simp add: less_eq_conn_state_def)
  show "s \<le> t \<Longrightarrow> t \<le> u \<Longrightarrow> s \<le> u" by (simp add: less_eq_conn_state_def)
  show "s \<le> t \<Longrightarrow> t \<le> s \<Longrightarrow> s = t" by (metis all_states_nth less_eq_conn_state_def le_antisym)
  show "s \<le> t \<or> t \<le> s" by (simp add: less_eq_conn_state_def linear)
qed

end

lemmas state_order = less_eq_conn_state_def less_conn_state_def

end
