(* ===== verification/Msgr_Prelude.thy ===== *)
theory Msgr_Prelude
  imports Main "HOL-Library.Word"
begin

unbundle bit_operations_syntax

text \<open>
  Shared vocabulary of the development.  It names the machine integers of the C++ code,
  holds the collections of rewrite rules the components fill, and proves the generic facts
  about lists, words and little-endian byte strings that the component theories use.
\<close>

section \<open>Machine integers\<close>

text \<open>
  \<open>unsigned char\<close>, \<open>uint16_t\<close>, \<open>uint32_t\<close> (and \<open>unsigned\<close>), \<open>uint64_t\<close>.  Where the code keeps a
  length or an offset in an \<open>unsigned\<close>, the model uses a natural number and writes the
  wrap-around out with \<open>w32\<close>.
\<close>

type_synonym byte = "8 word"
type_synonym u16 = "16 word"
type_synonym u32 = "32 word"
type_synonym u64 = "64 word"

definition w32 :: "nat \<Rightarrow> nat" where
  "w32 n = n mod 2 ^ 32"

lemma w32_id [simp]: "n < 2 ^ 32 \<Longrightarrow> w32 n = n"
  by (simp add: w32_def)

lemma w32_less [simp]: "w32 n < 4294967296"
  by (simp add: w32_def)

section \<open>Collections of rewrite rules\<close>

named_theorems le_simps \<open>length and round-trip equations of little-endian byte strings\<close>
named_theorems xor_linear \<open>functions on words that distribute over exclusive or\<close>

section \<open>Exclusive or\<close>

lemma xor_double [simp]:
  fixes x y :: "'a::len word"
  shows "x XOR (x XOR y) = y"
  by (simp flip: xor.assoc)

lemma xor_bit_cancel:
  fixes x y :: "'a::len word"
  shows "(x XOR y) XOR y = x"
  by (simp add: xor.assoc)

lemma xor_eq_0_word:
  fixes x y :: "'a::len word"
  shows "x XOR y = 0 \<longleftrightarrow> x = y"
  by (metis xor_bit_cancel xor.left_neutral xor_self_eq)

lemma xor_cancel_word:
  fixes x y z :: "'a::len word"
  shows "x XOR y = x XOR z \<longleftrightarrow> y = z" and "y XOR x = z XOR x \<longleftrightarrow> y = z"
  by (metis xor_double) (metis xor_bit_cancel)

lemma ucast_byte_u32_inj: "ucast (b :: byte) = (ucast b' :: u32) \<longleftrightarrow> b = b'"
proof
  have id: "ucast (ucast x :: u32) = x" for x :: byte
    by (rule bit_word_eqI) (simp add: bit_simps)
  assume "ucast b = (ucast b' :: u32)"
  then have "ucast (ucast b :: u32) = (ucast (ucast b' :: u32) :: byte)" by simp
  then show "b = b'" by (simp only: id)
qed simp

lemma drop_bit_xor_word [xor_linear]:
  fixes x y :: "'a::len word"
  shows "drop_bit n (x XOR y) = drop_bit n x XOR drop_bit n y"
  by (simp add: drop_bit_xor)

lemma push_bit_xor_word [xor_linear]:
  fixes x y :: "'a::len word"
  shows "push_bit n (x XOR y) = push_bit n x XOR push_bit n y"
  by (simp add: push_bit_xor)

lemma and_xor_distrib_word [xor_linear]:
  fixes x y m :: "'a::len word"
  shows "(x XOR y) AND m = (x AND m) XOR (y AND m)"
  by (rule bit_word_eqI) (auto simp: bit_simps)

end
