(* ===== verification/Buffer.thy ===== *)
theory Buffer
  imports Msgr_Prelude
begin

text \<open>
  The buffers of \<^verbatim>\<open>src/include/msgr/buffer.h\<close> and \<^verbatim>\<open>src/src/buffer.cc\<close>.  A \<^verbatim>\<open>raw\<close> is a block of
  memory, a \<^verbatim>\<open>ptr\<close> a window into one, a \<^verbatim>\<open>list\<close> a rope of windows with a private append buffer.
  Windows share blocks, so the blocks live in an explicit heap and every operation that
  writes returns the new heap; blocks are never reused, so reference counts do not affect
  contents and are left out.  Memory that the code leaves uninitialised has the bytes of an
  arbitrary function \<open>junk\<close>.  Errors are values; \<open>unsigned\<close> sums wrap through \<open>w32\<close>.
\<close>

section \<open>Blocks and windows\<close>

text \<open>\<open>Stuck\<close> stands for a loop that makes no progress and so never returns.\<close>

datatype buf_error = End_of_buffer | Malformed_input | Assertion_failed | Stuck

datatype raw_kind = Raw_char | Raw_malloc | Raw_posix_aligned nat | Raw_static | Raw_unshareable

record raw =
  rdata :: "byte list"
  rkind :: raw_kind

record heap =
  raws :: "raw list"
  junk :: "nat \<Rightarrow> byte"

text \<open>A window: \<^verbatim>\<open>_raw\<close> (null is \<open>None\<close>), \<^verbatim>\<open>_off\<close>, \<^verbatim>\<open>_len\<close>.\<close>

record bptr =
  praw :: "nat option"
  poff :: nat
  plen :: nat

definition MSGR_PAGE_SIZE :: nat where "MSGR_PAGE_SIZE = 4096"

definition null_ptr :: bptr where
  "null_ptr = \<lparr>praw = None, poff = 0, plen = 0\<rparr>"

definition raw_len :: "heap \<Rightarrow> nat \<Rightarrow> nat" where
  "raw_len h a = length (rdata (raws h ! a))"

definition new_raw :: "raw_kind \<Rightarrow> byte list \<Rightarrow> heap \<Rightarrow> nat \<times> heap" where
  "new_raw k d h = (length (raws h), h\<lparr>raws := raws h @ [\<lparr>rdata = d, rkind = k\<rparr>]\<rparr>)"

definition copy_raw :: "byte list \<Rightarrow> heap \<Rightarrow> nat \<times> heap" where
  "copy_raw d h = new_raw Raw_char d h"

definition create :: "nat \<Rightarrow> heap \<Rightarrow> nat \<times> heap" where
  "create len h = new_raw Raw_char (map (junk h) [0..<len]) h"

definition create_malloc :: "nat \<Rightarrow> heap \<Rightarrow> nat \<times> heap" where
  "create_malloc len h = new_raw Raw_malloc (map (junk h) [0..<len]) h"

definition create_static :: "byte list \<Rightarrow> heap \<Rightarrow> nat \<times> heap" where
  "create_static d h = new_raw Raw_static d h"

text \<open>The alignment has to be a power of two of at least the size of a pointer.\<close>

definition create_aligned :: "nat \<Rightarrow> nat \<Rightarrow> heap \<Rightarrow> buf_error + nat \<times> heap" where
  "create_aligned len al h =
     (if al \<ge> 8 \<and> (of_nat al :: u32) AND (of_nat al - 1) = 0
      then Inr (new_raw (Raw_posix_aligned al) (map (junk h) [0..<len]) h)
      else Inl Assertion_failed)"

definition create_page_aligned :: "nat \<Rightarrow> heap \<Rightarrow> buf_error + nat \<times> heap" where
  "create_page_aligned len h = create_aligned len MSGR_PAGE_SIZE h"

definition create_unshareable :: "nat \<Rightarrow> heap \<Rightarrow> nat \<times> heap" where
  "create_unshareable len h = new_raw Raw_unshareable (map (junk h) [0..<len]) h"

definition is_shareable :: "heap \<Rightarrow> nat \<Rightarrow> bool" where
  "is_shareable h a \<longleftrightarrow> rkind (raws h ! a) \<noteq> Raw_unshareable"

text \<open>\<^verbatim>\<open>clone_empty()\<close> keeps the kind except for static and unshareable blocks, then the bytes are copied.\<close>

definition raw_clone :: "nat \<Rightarrow> heap \<Rightarrow> nat \<times> heap" where
  "raw_clone a h =
     (let r = raws h ! a
      in new_raw (case rkind r of Raw_static \<Rightarrow> Raw_char | Raw_unshareable \<Rightarrow> Raw_char | k \<Rightarrow> k) (rdata r) h)"

definition ptr_of_raw :: "nat \<Rightarrow> heap \<Rightarrow> bptr" where
  "ptr_of_raw a h = \<lparr>praw = Some a, poff = 0, plen = raw_len h a\<rparr>"

definition ptr_sub :: "bptr \<Rightarrow> nat \<Rightarrow> nat \<Rightarrow> buf_error + bptr" where
  "ptr_sub p o' l =
     (if w32 (o' + l) \<le> plen p \<and> praw p \<noteq> None
      then Inr \<lparr>praw = praw p, poff = w32 (poff p + o'), plen = l\<rparr>
      else Inl Assertion_failed)"

definition ptr_make_shareable :: "bptr \<Rightarrow> heap \<Rightarrow> bptr \<times> heap" where
  "ptr_make_shareable p h =
     (case praw p of
        None \<Rightarrow> (p, h)
      | Some a \<Rightarrow>
          (if is_shareable h a then (p, h)
           else (let (a', h') = raw_clone a h in (p\<lparr>praw := Some a'\<rparr>, h'))))"

definition ptr_end :: "bptr \<Rightarrow> nat" where
  "ptr_end p = w32 (poff p + plen p)"

definition at_buffer_tail :: "heap \<Rightarrow> bptr \<Rightarrow> bool" where
  "at_buffer_tail h p \<longleftrightarrow> ptr_end p = raw_len h (the (praw p))"

definition unused_tail_length :: "heap \<Rightarrow> bptr \<Rightarrow> nat" where
  "unused_tail_length h p =
     (case praw p of None \<Rightarrow> 0 | Some a \<Rightarrow> raw_len h a - (poff p + plen p))"

text \<open>\<open>c_str\<close> is the block from the window's offset on; the contents are its first \<^verbatim>\<open>_len\<close> bytes.\<close>

definition ptr_c_str :: "heap \<Rightarrow> bptr \<Rightarrow> byte list" where
  "ptr_c_str h p = (case praw p of None \<Rightarrow> [] | Some a \<Rightarrow> drop (poff p) (rdata (raws h ! a)))"

definition bytes :: "heap \<Rightarrow> bptr \<Rightarrow> byte list" where
  "bytes h p = take (plen p) (ptr_c_str h p)"

definition ptr_nth :: "heap \<Rightarrow> bptr \<Rightarrow> nat \<Rightarrow> buf_error + byte" where
  "ptr_nth h p n =
     (if praw p \<noteq> None \<and> n < plen p then Inr (ptr_c_str h p ! n) else Inl Assertion_failed)"

definition ptr_copy_out :: "heap \<Rightarrow> bptr \<Rightarrow> nat \<Rightarrow> nat \<Rightarrow> buf_error + byte list" where
  "ptr_copy_out h p o' l =
     (if praw p = None then Inl Assertion_failed
      else if \<not> (o' \<le> plen p \<and> w32 (o' + l) \<le> plen p) then Inl End_of_buffer
      else Inr (take l (drop o' (ptr_c_str h p))))"

fun memcmp :: "byte list \<Rightarrow> byte list \<Rightarrow> int" where
  "memcmp (x # xs) (y # ys) = (if x = y then memcmp xs ys else if x < y then -1 else 1)"
| "memcmp _ _ = 0"

definition ptr_cmp :: "heap \<Rightarrow> bptr \<Rightarrow> bptr \<Rightarrow> int" where
  "ptr_cmp h p q =
     (let l = min (plen p) (plen q);
          r = (if l \<noteq> 0 then memcmp (take l (ptr_c_str h p)) (take l (ptr_c_str h q)) else 0)
      in if r \<noteq> 0 then r else if plen p < plen q then -1 else if plen p > plen q then 1 else 0)"

definition ptr_is_zero :: "heap \<Rightarrow> bptr \<Rightarrow> bool" where
  "ptr_is_zero h p = list_all (\<lambda>b. b = 0) (bytes h p)"

text \<open>\<^verbatim>\<open>memcpy\<close> into a block at an offset.\<close>

definition poke :: "nat \<Rightarrow> nat \<Rightarrow> byte list \<Rightarrow> heap \<Rightarrow> heap" where
  "poke a off bs h =
     (let r = raws h ! a; d = rdata r
      in h\<lparr>raws := (raws h)[a := r\<lparr>rdata := take off d @ bs @ drop (off + length bs) d\<rparr>]\<rparr>)"

definition ptr_append :: "bptr \<Rightarrow> byte list \<Rightarrow> heap \<Rightarrow> buf_error + bptr \<times> heap" where
  "ptr_append p bs h =
     (case praw p of
        None \<Rightarrow> Inl Assertion_failed
      | Some a \<Rightarrow>
          (if length bs \<le> unused_tail_length h p
           then Inr (p\<lparr>plen := plen p + length bs\<rparr>, poke a (poff p + plen p) bs h)
           else Inl Assertion_failed))"

definition ptr_copy_in :: "bptr \<Rightarrow> nat \<Rightarrow> byte list \<Rightarrow> heap \<Rightarrow> buf_error + heap" where
  "ptr_copy_in p o' src h =
     (case praw p of
        None \<Rightarrow> Inl Assertion_failed
      | Some a \<Rightarrow>
          (if o' \<le> plen p \<and> w32 (o' + length src) \<le> plen p
           then Inr (poke a (poff p + o') src h)
           else Inl Assertion_failed))"

definition ptr_zero :: "bptr \<Rightarrow> nat \<Rightarrow> nat \<Rightarrow> heap \<Rightarrow> buf_error + heap" where
  "ptr_zero p o' l h =
     (if w32 (o' + l) \<le> plen p
      then (case praw p of None \<Rightarrow> Inl Assertion_failed
                         | Some a \<Rightarrow> Inr (poke a (poff p + o') (replicate l 0) h))
      else Inl Assertion_failed)"

subsection \<open>Well-formed windows\<close>

definition heap_ok :: "heap \<Rightarrow> bool" where
  "heap_ok h \<longleftrightarrow> (\<forall>r \<in> set (raws h). length (rdata r) < 2 ^ 32)"

definition ptr_ok :: "heap \<Rightarrow> bptr \<Rightarrow> bool" where
  "ptr_ok h p = (case praw p of
       None \<Rightarrow> poff p = 0 \<and> plen p = 0
     | Some a \<Rightarrow> a < length (raws h) \<and> poff p + plen p \<le> raw_len h a)"

lemma raw_len_bound: "heap_ok h \<Longrightarrow> a < length (raws h) \<Longrightarrow> raw_len h a < 2 ^ 32"
  by (simp add: heap_ok_def raw_len_def)

lemma ptr_ok_bound:
  assumes "heap_ok h" and "ptr_ok h p"
  shows "poff p + plen p < 2 ^ 32"
  using assms raw_len_bound [of h] by (fastforce simp: ptr_ok_def split: option.splits)

lemma length_bytes: "ptr_ok h p \<Longrightarrow> length (bytes h p) = plen p"
  by (auto simp: ptr_ok_def bytes_def ptr_c_str_def raw_len_def split: option.splits)

text \<open>The two ways a heap grows: a new block at the end, and bytes overwritten in place.\<close>

lemma new_raw_facts:
  assumes "new_raw k d h = (a, h')"
  shows "a = length (raws h)" and "raws h' = raws h @ [\<lparr>rdata = d, rkind = k\<rparr>]" and "junk h' = junk h"
  using assms by (auto simp: new_raw_def)

lemma new_raw_ok:
  assumes "new_raw k d h = (a, h')" and "heap_ok h" and "length d < 2 ^ 32"
  shows "heap_ok h'" and "raw_len h' a = length d" and "a < length (raws h')"
  using assms new_raw_facts [OF assms(1)] by (auto simp: heap_ok_def raw_len_def)

lemma new_raw_keeps:
  assumes "new_raw k d h = (a, h')" and "ptr_ok h p"
  shows "ptr_ok h' p" and "bytes h' p = bytes h p" and "praw p \<noteq> Some a"
  using assms(2) new_raw_facts [OF assms(1)]
  by (auto simp: ptr_ok_def bytes_def ptr_c_str_def raw_len_def nth_append split: option.splits)

lemma poke_simps [simp]:
  "length (raws (poke a off bs h)) = length (raws h)" "junk (poke a off bs h) = junk h"
  by (simp_all add: poke_def Let_def)

lemma raw_len_poke:
  assumes "off + length bs \<le> raw_len h a" and "a < length (raws h)"
  shows "raw_len (poke a off bs h) b = raw_len h b"
  using assms by (cases "a = b") (auto simp: raw_len_def poke_def Let_def nth_list_update)

lemma poke_ok:
  assumes "off + length bs \<le> raw_len h a" and "a < length (raws h)"
  shows "heap_ok h \<Longrightarrow> heap_ok (poke a off bs h)" and "ptr_ok h p \<Longrightarrow> ptr_ok (poke a off bs h) p"
proof -
  assume "heap_ok h"
  then have "\<forall>b < length (raws h). raw_len h b < 2 ^ 32" using raw_len_bound by blast
  then have "\<forall>b < length (raws (poke a off bs h)). raw_len (poke a off bs h) b < 2 ^ 32"
    by (simp add: raw_len_poke [OF assms])
  then show "heap_ok (poke a off bs h)" by (auto simp: heap_ok_def raw_len_def in_set_conv_nth)
qed (auto simp: ptr_ok_def raw_len_poke [OF assms] split: option.splits)

lemma rdata_poke:
  "a < length (raws h) \<Longrightarrow> rdata (raws (poke a off bs h) ! b) =
    (if b = a then take off (rdata (raws h ! a)) @ bs @ drop (off + length bs) (rdata (raws h ! a))
     else rdata (raws h ! b))"
  by (simp add: poke_def Let_def nth_list_update)

text \<open>Overwriting part of a list, seen through a window on it.\<close>

lemma overwrite_before:
  assumes "a + n \<le> off" and "off + length bs \<le> length d"
  shows "take n (drop a (take off d @ bs @ drop (off + length bs) d)) = take n (drop a d)"
proof -
  have "drop a (take off d @ bs @ drop (off + length bs) d)
      = take (off - a) (drop a d) @ bs @ drop (off + length bs) d"
    using assms by (simp add: drop_take)
  then show ?thesis using assms by (auto simp: min_def)
qed

lemma overwrite_after:
  assumes "off + length bs \<le> a" and "off + length bs \<le> length d"
  shows "take n (drop a (take off d @ bs @ drop (off + length bs) d)) = take n (drop a d)"
  using assms by (simp add: min_def)

lemma overwrite_inside:
  assumes "i + length bs \<le> n" and "a + n \<le> length d"
  shows "take n (drop a (take (a + i) d @ bs @ drop (a + i + length bs) d))
    = take i (take n (drop a d)) @ bs @ drop (i + length bs) (take n (drop a d))"
proof -
  have "drop a (take (a + i) d @ bs @ drop (a + i + length bs) d)
      = take i (drop a d) @ bs @ drop (a + i + length bs) d"
    using assms by (simp add: drop_take min_def)
  moreover have "take (n - i) (bs @ drop (a + i + length bs) d) = bs @ drop (i + length bs) (take n (drop a d))"
    using assms by (simp add: drop_take add.commute add.left_commute)
  ultimately show ?thesis using assms by (cases "n = i") (auto simp: min_def)
qed

text \<open>A write that misses a window leaves its contents; a write inside replaces them.\<close>

lemma bytes_poke_disjoint:
  assumes "off + length bs \<le> raw_len h a" and "a < length (raws h)" and "ptr_ok h p"
    and "praw p = Some a \<longrightarrow> poff p + plen p \<le> off \<or> off + length bs \<le> poff p"
  shows "bytes (poke a off bs h) p = bytes h p"
proof (cases "praw p = Some a")
  case True
  let ?d = "rdata (raws h ! a)"
  have len: "poff p + plen p \<le> length ?d" "off + length bs \<le> length ?d"
    using assms True by (auto simp: ptr_ok_def raw_len_def)
  have "take (plen p) (drop (poff p) (take off ?d @ bs @ drop (off + length bs) ?d))
      = take (plen p) (drop (poff p) ?d)"
    using assms(4) True len overwrite_before overwrite_after by metis
  then show ?thesis
    using True assms(2) by (simp add: bytes_def ptr_c_str_def rdata_poke)
next
  case False
  then show ?thesis
    using assms(2) by (auto simp: bytes_def ptr_c_str_def rdata_poke split: option.splits)
qed

lemma bytes_poke_inside:
  assumes "praw p = Some a" and "ptr_ok h p" and "i + length bs \<le> plen p"
  shows "bytes (poke a (poff p + i) bs h) p =
    take i (bytes h p) @ bs @ drop (i + length bs) (bytes h p)"
proof -
  let ?d = "rdata (raws h ! a)"
  have a: "a < length (raws h)" and len: "poff p + plen p \<le> length ?d"
    using assms(1,2) by (auto simp: ptr_ok_def raw_len_def)
  have "take (plen p) (drop (poff p) (take (poff p + i) ?d @ bs @ drop (poff p + i + length bs) ?d))
      = take i (take (plen p) (drop (poff p) ?d)) @ bs
        @ drop (i + length bs) (take (plen p) (drop (poff p) ?d))"
    using overwrite_inside len assms(3) by blast
  then show ?thesis using assms(1) a by (simp add: bytes_def ptr_c_str_def rdata_poke)
qed

end
