(* ===== verification/Buffer_List.thy ===== *)
theory Buffer_List
  imports Buffer
begin

text \<open>
  \<^verbatim>\<open>buffer::list\<close> (\<^verbatim>\<open>src/include/msgr/buffer.h\<close>, \<^verbatim>\<open>src/src/buffer.cc\<close>): the rope of windows.  Its
  specification is the byte string it denotes, \<open>contents\<close>; each operation is shown to compute
  the corresponding function on byte strings, to keep the representation invariant
  \<open>list_ok\<close> and to leave every other window alone.  The cached iterator \<^verbatim>\<open>last_p\<close> only saves a
  \<^verbatim>\<open>seek\<close> and is not part of the state.
\<close>

section \<open>State and operations\<close>

record blist =
  buffers :: "bptr list"
  blen :: nat
  memcopy_count :: nat
  append_buffer :: bptr

definition bl_new :: blist where
  "bl_new = \<lparr>buffers = [], blen = 0, memcopy_count = 0, append_buffer = null_ptr\<rparr>"

definition bl_prealloc :: "nat \<Rightarrow> heap \<Rightarrow> blist \<times> heap" where
  "bl_prealloc n h =
     (let (a, h) = create n h
      in (bl_new\<lparr>append_buffer := (ptr_of_raw a h)\<lparr>plen := 0\<rparr>\<rparr>, h))"

definition bl_clear :: "blist \<Rightarrow> blist" where
  "bl_clear bl = bl\<lparr>buffers := [], blen := 0, memcopy_count := 0\<rparr>"

definition push_front :: "bptr \<Rightarrow> blist \<Rightarrow> blist" where
  "push_front bp bl =
     (if plen bp = 0 then bl else bl\<lparr>buffers := bp # buffers bl, blen := w32 (blen bl + plen bp)\<rparr>)"

definition push_back :: "bptr \<Rightarrow> blist \<Rightarrow> blist" where
  "push_back bp bl =
     (if plen bp = 0 then bl else bl\<lparr>buffers := buffers bl @ [bp], blen := w32 (blen bl + plen bp)\<rparr>)"

fun make_shareable_ptrs :: "bptr list \<Rightarrow> heap \<Rightarrow> bptr list \<times> heap" where
  "make_shareable_ptrs [] h = ([], h)"
| "make_shareable_ptrs (p # ps) h =
     (let (p, h) = ptr_make_shareable p h; (ps, h) = make_shareable_ptrs ps h in (p # ps, h))"

definition bl_make_shareable :: "blist \<Rightarrow> heap \<Rightarrow> blist \<times> heap" where
  "bl_make_shareable bl h =
     (let (ps, h) = make_shareable_ptrs (buffers bl) h in (bl\<lparr>buffers := ps\<rparr>, h))"

text \<open>The copy constructor starts with an empty append buffer, the assignment keeps its own.\<close>

definition bl_copy :: "blist \<Rightarrow> heap \<Rightarrow> blist \<times> heap" where
  "bl_copy other h = bl_make_shareable (other\<lparr>append_buffer := null_ptr\<rparr>) h"

definition bl_assign :: "blist \<Rightarrow> blist \<Rightarrow> heap \<Rightarrow> blist \<times> heap" where
  "bl_assign bl other h = bl_make_shareable (bl\<lparr>buffers := buffers other, blen := blen other\<rparr>) h"

definition bl_share :: "blist \<Rightarrow> blist \<Rightarrow> blist" where
  "bl_share bl other = fold push_back (buffers other) (bl_clear bl)"

text \<open>\<open>nonshareable\<close> is the flag \<^verbatim>\<open>CLAIM_ALLOW_NONSHAREABLE\<close>; the results are the claimer, the emptied
  other list and the heap.\<close>

definition claim_append :: "bool \<Rightarrow> blist \<Rightarrow> blist \<Rightarrow> heap \<Rightarrow> blist \<times> blist \<times> heap" where
  "claim_append nonshareable bl other h =
     (let bl = bl\<lparr>blen := w32 (blen bl + blen other)\<rparr>;
          (other, h) = (if nonshareable then (other, h) else bl_make_shareable other h)
      in (bl\<lparr>buffers := buffers bl @ buffers other\<rparr>, other\<lparr>buffers := [], blen := 0\<rparr>, h))"

definition claim_prepend :: "bool \<Rightarrow> blist \<Rightarrow> blist \<Rightarrow> heap \<Rightarrow> blist \<times> blist \<times> heap" where
  "claim_prepend nonshareable bl other h =
     (let bl = bl\<lparr>blen := w32 (blen bl + blen other)\<rparr>;
          (other, h) = (if nonshareable then (other, h) else bl_make_shareable other h)
      in (bl\<lparr>buffers := buffers other @ buffers bl\<rparr>, other\<lparr>buffers := [], blen := 0\<rparr>, h))"

definition claim :: "bool \<Rightarrow> blist \<Rightarrow> blist \<Rightarrow> heap \<Rightarrow> blist \<times> blist \<times> heap" where
  "claim nonshareable bl other h = claim_append nonshareable (bl_clear bl) other h"

definition append_ptr :: "bptr \<Rightarrow> blist \<Rightarrow> blist" where
  "append_ptr bp bl = (if plen bp \<noteq> 0 then push_back bp bl else bl)"

text \<open>Appending part of a window: an adjacent last window is extended instead.\<close>

definition append_range :: "bptr \<Rightarrow> nat \<Rightarrow> nat \<Rightarrow> blist \<Rightarrow> buf_error + blist" where
  "append_range bp off len bl =
     (if \<not> w32 (len + off) \<le> plen bp then Inl Assertion_failed
      else if buffers bl \<noteq> [] \<and> praw (last (buffers bl)) = praw bp
              \<and> ptr_end (last (buffers bl)) = w32 (poff bp + off)
      then (let l = last (buffers bl)
            in Inr (bl\<lparr>buffers := butlast (buffers bl) @ [l\<lparr>plen := w32 (plen l + len)\<rparr>],
                      blen := w32 (blen bl + len)\<rparr>))
      else (case ptr_sub bp off len of
              Inl e \<Rightarrow> Inl e
            | Inr tempbp \<Rightarrow> Inr (push_back tempbp bl)))"

definition append_list :: "blist \<Rightarrow> blist \<Rightarrow> blist" where
  "append_list other bl =
     bl\<lparr>blen := w32 (blen bl + blen other), buffers := buffers bl @ buffers other\<rparr>"

text \<open>Put as much as fits into the append buffer and add the segment to the list.\<close>

definition append_gap :: "byte list \<Rightarrow> blist \<Rightarrow> heap \<Rightarrow> buf_error + blist \<times> heap" where
  "append_gap bs bl h =
     (case ptr_append (append_buffer bl) bs h of
        Inl e \<Rightarrow> Inl e
      | Inr (ab, h) \<Rightarrow>
          (case append_range ab (ptr_end ab - length bs) (length bs) (bl\<lparr>append_buffer := ab\<rparr>) of
             Inl e \<Rightarrow> Inl e
           | Inr bl \<Rightarrow> Inr (bl, h)))"

definition new_append_buffer :: "nat \<Rightarrow> blist \<Rightarrow> heap \<Rightarrow> buf_error + blist \<times> heap" where
  "new_append_buffer alen bl h =
     (case create_page_aligned alen h of
        Inl e \<Rightarrow> Inl e
      | Inr (a, h) \<Rightarrow> Inr (bl\<lparr>append_buffer := (ptr_of_raw a h)\<lparr>plen := 0\<rparr>\<rparr>, h))"

text \<open>
  The loop of \<^verbatim>\<open>append(data, len)\<close>, with a bound on its rounds; \<open>None\<close> when the bound is not
  enough.  A new append buffer is big enough for all that is left, so that three rounds do
  for every length whose page-rounded size is representable (\<open>append_data_contents\<close> below).
\<close>

fun append_loop :: "nat \<Rightarrow> byte list \<Rightarrow> blist \<Rightarrow> heap \<Rightarrow> (buf_error + blist \<times> heap) option" where
  "append_loop 0 data bl h = None"
| "append_loop (Suc n) data bl h =
     (if data = [] then Some (Inr (bl, h))
      else
        (let gap = min (unused_tail_length h (append_buffer bl)) (length data)
         in case (if gap > 0 then append_gap (take gap data) bl h else Inr (bl, h)) of
              Inl e \<Rightarrow> Some (Inl e)
            | Inr (bl, h) \<Rightarrow>
                (let data = drop gap data
                 in if data = [] then Some (Inr (bl, h))
                    else (case new_append_buffer
                                 (w32 (MSGR_PAGE_SIZE * ((length data - 1) div MSGR_PAGE_SIZE + 1))) bl h of
                            Inl e \<Rightarrow> Some (Inl e)
                          | Inr (bl, h) \<Rightarrow> append_loop n data bl h))))"

definition append_data :: "byte list \<Rightarrow> blist \<Rightarrow> heap \<Rightarrow> (buf_error + blist \<times> heap) option" where
  "append_data data bl h = append_loop 3 data bl h"

definition append_char :: "byte \<Rightarrow> blist \<Rightarrow> heap \<Rightarrow> buf_error + blist \<times> heap" where
  "append_char c bl h =
     (case (if unused_tail_length h (append_buffer bl) = 0
            then new_append_buffer MSGR_PAGE_SIZE bl h else Inr (bl, h)) of
        Inl e \<Rightarrow> Inl e
      | Inr (bl, h) \<Rightarrow> append_gap [c] bl h)"

definition append_zero :: "nat \<Rightarrow> blist \<Rightarrow> heap \<Rightarrow> buf_error + blist \<times> heap" where
  "append_zero n bl h =
     (let (a, h) = create n h; bp = ptr_of_raw a h
      in case ptr_zero bp 0 n h of
           Inl e \<Rightarrow> Inl e
         | Inr h \<Rightarrow> Inr (append_ptr bp bl, h))"

text \<open>\<^verbatim>\<open>off > 0 && off >= curbuf->length()\<close>: skip whole windows.\<close>

fun skip_segs :: "nat \<Rightarrow> bptr list \<Rightarrow> nat \<times> bptr list" where
  "skip_segs off [] = (off, [])"
| "skip_segs off (p # ps) = (if off > 0 \<and> off \<ge> plen p then skip_segs (off - plen p) ps else (off, p # ps))"

text \<open>The second loop of \<^verbatim>\<open>substr_of\<close>; running off the end of the list would be an invalid access.\<close>

fun take_segs :: "nat \<Rightarrow> nat \<Rightarrow> bptr list \<Rightarrow> buf_error + bptr list" where
  "take_segs off len [] = (if len = 0 then Inr [] else Inl Assertion_failed)"
| "take_segs off len (p # ps) =
     (if len = 0 then Inr []
      else if off + len < plen p then map_sum (\<lambda>e. e) (\<lambda>q. [q]) (ptr_sub p off len)
      else (case ptr_sub p off (plen p - off) of
              Inl e \<Rightarrow> Inl e
            | Inr q \<Rightarrow> map_sum (\<lambda>e. e) (\<lambda>qs. q # qs) (take_segs 0 (len - (plen p - off)) ps)))"

definition substr_of :: "blist \<Rightarrow> blist \<Rightarrow> nat \<Rightarrow> nat \<Rightarrow> buf_error + blist" where
  "substr_of bl other off len =
     (if w32 (off + len) > blen other then Inl End_of_buffer
      else (let (off, cur) = skip_segs off (buffers other)
            in case take_segs off len cur of
                 Inl e \<Rightarrow> Inl e
               | Inr qs \<Rightarrow> Inr ((bl_clear bl)\<lparr>buffers := qs, blen := w32 (sum_list (map plen qs))\<rparr>)))"

text \<open>
  The removal loop of \<^verbatim>\<open>splice\<close> on the windows from \<open>curbuf\<close> on: what stays, and \<^verbatim>\<open>claim_by\<close> with the
  removed parts appended (\<open>None\<close> is the null pointer).
\<close>

fun splice_loop :: "nat \<Rightarrow> nat \<Rightarrow> bptr list \<Rightarrow> blist option \<Rightarrow> buf_error + bptr list \<times> blist option" where
  "splice_loop off len [] cb = Inr ([], cb)"
| "splice_loop off len (p # ps) cb =
     (if len = 0 then Inr (p # ps, cb)
      else
        (let partial = (off + len < plen p);
             howmuch = (if partial then len else plen p - off)
         in case (case cb of None \<Rightarrow> Inr None | Some b \<Rightarrow> map_sum (\<lambda>e. e) Some (append_range p off howmuch b)) of
              Inl e \<Rightarrow> Inl e
            | Inr cb \<Rightarrow>
                (if partial
                 then Inr (p\<lparr>poff := off + len + poff p, plen := plen p - (len + off)\<rparr> # ps, cb)
                 else splice_loop 0 (len - howmuch) ps cb)))"

definition splice :: "nat \<Rightarrow> nat \<Rightarrow> blist option \<Rightarrow> blist \<Rightarrow> buf_error + blist \<times> blist option" where
  "splice off len cb bl =
     (if len = 0 then Inr (bl, cb)
      else if off \<ge> blen bl then Inl End_of_buffer
      else
        (let (off', cur) = skip_segs off (buffers bl);
             skipped = take (length (buffers bl) - length cur) (buffers bl)
         in case (if off' > 0 then map_sum (\<lambda>e. e) (\<lambda>q. [q]) (ptr_sub (hd cur) 0 off') else Inr []) of
              Inl e \<Rightarrow> Inl e
            | Inr front \<Rightarrow>
                (case splice_loop off' len cur cb of
                   Inl e \<Rightarrow> Inl e
                 | Inr (rest, cb) \<Rightarrow>
                     Inr (bl\<lparr>buffers := skipped @ front @ rest,
                             blen := w32 (blen bl + sum_list (map plen front)
                                      + sum_list (map plen rest) - sum_list (map plen cur))\<rparr>, cb))))"

section \<open>The byte string a list denotes\<close>

definition contents :: "heap \<Rightarrow> blist \<Rightarrow> byte list" where
  "contents h bl = concat (map (bytes h) (buffers bl))"

definition total_len :: "bptr list \<Rightarrow> nat" where
  "total_len ps = sum_list (map plen ps)"

definition segs_ok :: "heap \<Rightarrow> bptr list \<Rightarrow> bool" where
  "segs_ok h ps \<longleftrightarrow> (\<forall>p \<in> set ps. ptr_ok h p \<and> 0 < plen p)"

text \<open>The append buffer starts its block, and the rest of that block belongs to this list alone.\<close>

definition tail_ok :: "heap \<Rightarrow> blist \<Rightarrow> bool" where
  "tail_ok h bl \<longleftrightarrow> ptr_ok h (append_buffer bl) \<and> poff (append_buffer bl) = 0 \<and>
     (praw (append_buffer bl) \<noteq> None \<longrightarrow>
       (\<forall>p \<in> set (buffers bl). praw p = praw (append_buffer bl) \<longrightarrow>
          poff p + plen p \<le> plen (append_buffer bl)))"

definition list_ok :: "heap \<Rightarrow> blist \<Rightarrow> bool" where
  "list_ok h bl \<longleftrightarrow> heap_ok h \<and> segs_ok h (buffers bl) \<and> tail_ok h bl \<and>
     blen bl = total_len (buffers bl) \<and> total_len (buffers bl) < 2 ^ 32"

lemma segs_ok_simps [simp]:
  "segs_ok h []" "segs_ok h (p # ps) \<longleftrightarrow> ptr_ok h p \<and> 0 < plen p \<and> segs_ok h ps"
  "segs_ok h (ps @ qs) \<longleftrightarrow> segs_ok h ps \<and> segs_ok h qs"
  by (auto simp: segs_ok_def)

lemma total_len_simps [simp]:
  "total_len [] = 0" "total_len (p # ps) = plen p + total_len ps"
  "total_len (ps @ qs) = total_len ps + total_len qs"
  by (simp_all add: total_len_def)

lemma length_concat_bytes: "segs_ok h ps \<Longrightarrow> length (concat (map (bytes h) ps)) = total_len ps"
  by (induction ps) (simp_all add: length_bytes)

lemma length_contents: "list_ok h bl \<Longrightarrow> length (contents h bl) = blen bl"
  by (simp add: list_ok_def contents_def length_concat_bytes)

text \<open>What a list's own append does to the windows of others: nothing.\<close>

definition spares :: "bptr \<Rightarrow> heap \<Rightarrow> heap \<Rightarrow> bool" where
  "spares ab h h' \<longleftrightarrow> (\<forall>q. ptr_ok h q \<longrightarrow>
     (praw ab \<noteq> None \<longrightarrow> praw q = praw ab \<longrightarrow> poff q + plen q \<le> plen ab) \<longrightarrow>
     ptr_ok h' q \<and> bytes h' q = bytes h q)"

lemma concat_bytes_cong:
  "(\<And>p. p \<in> set ps \<Longrightarrow> bytes h' p = bytes h p) \<Longrightarrow> concat (map (bytes h') ps) = concat (map (bytes h) ps)"
  by (metis map_cong)

lemma spares_contents:
  assumes "spares (append_buffer bl) h h'" and "segs_ok h (buffers bl)" and "tail_ok h bl"
  shows "segs_ok h' (buffers bl)" and "concat (map (bytes h') (buffers bl)) = contents h bl"
proof -
  have "ptr_ok h' p \<and> bytes h' p = bytes h p" if "p \<in> set (buffers bl)" for p
    using assms that unfolding spares_def segs_ok_def tail_ok_def by blast
  then show "segs_ok h' (buffers bl)" "concat (map (bytes h') (buffers bl)) = contents h bl"
    using assms(2) concat_bytes_cong [of "buffers bl" h' h] by (auto simp: segs_ok_def contents_def)
qed

lemma spares_new_raw:
  assumes "new_raw k d h = (a, h')"
  shows "spares ab h h'"
  using new_raw_keeps [OF assms] by (simp add: spares_def)

subsection \<open>Appending\<close>

lemma bytes_poke_extend:
  assumes "praw p = Some a" and "a < length (raws h)"
    and "poff p + plen p + length bs \<le> raw_len h a"
  shows "bytes (poke a (poff p + plen p) bs h) (p\<lparr>plen := plen p + length bs\<rparr>) = bytes h p @ bs"
proof -
  let ?p = "p\<lparr>plen := plen p + length bs\<rparr>"
  have "ptr_ok h ?p" using assms by (simp add: ptr_ok_def)
  then have "length (bytes h ?p) = plen p + length bs" using length_bytes by force
  moreover have "take (plen p) (bytes h ?p) = bytes h p"
    using assms(1) by (simp add: bytes_def ptr_c_str_def min_def)
  moreover have "bytes (poke a (poff ?p + plen p) bs h) ?p =
      take (plen p) (bytes h ?p) @ bs @ drop (plen p + length bs) (bytes h ?p)"
    using assms(1) \<open>ptr_ok h ?p\<close> by (intro bytes_poke_inside) simp_all
  ultimately show ?thesis by simp
qed

lemma append_gap_ok:
  assumes ok: "list_ok h bl" and a: "praw (append_buffer bl) = Some a"
    and n: "length bs \<le> unused_tail_length h (append_buffer bl)" "0 < length bs"
    and fits: "blen bl + length bs < 2 ^ 32"
  shows "\<exists>bl' h'. append_gap bs bl h = Inr (bl', h') \<and> list_ok h' bl' \<and>
    contents h' bl' = contents h bl @ bs \<and> spares (append_buffer bl) h h' \<and>
    unused_tail_length h' (append_buffer bl') = unused_tail_length h (append_buffer bl) - length bs \<and>
    junk h' = junk h"
proof -
  let ?ab = "append_buffer bl" and ?n = "length bs"
  let ?ab' = "?ab\<lparr>plen := plen ?ab + ?n\<rparr>"
  have hok: "heap_ok h" and segs: "segs_ok h (buffers bl)" and tail: "tail_ok h bl"
    using ok by (simp_all add: list_ok_def)
  have al: "a < length (raws h)" and off0: "poff ?ab = 0" and room: "plen ?ab + ?n \<le> raw_len h a"
    using tail n a by (auto simp: tail_ok_def ptr_ok_def unused_tail_length_def)
  have small: "plen ?ab + ?n < 2 ^ 32" using raw_len_bound [OF hok al] room by linarith
  define h' where "h' = poke a (plen ?ab) bs h"
  have h'ok: "heap_ok h'" "\<And>q. ptr_ok h q \<Longrightarrow> ptr_ok h' q" and rl: "\<And>b. raw_len h' b = raw_len h b"
    using poke_ok [OF room al] hok raw_len_poke [OF room al] by (simp_all add: h'_def)
  have spare: "spares ?ab h h'"
    using bytes_poke_disjoint [OF room al] h'ok(2) a by (auto simp: spares_def h'_def)
  note kept = spares_contents [OF spare segs tail]
  have app: "ptr_append ?ab bs h = Inr (?ab', h')"
    using a n(1) off0 by (simp add: ptr_append_def h'_def)
  have ab'ok: "ptr_ok h' ?ab'" using a al room rl off0 by (simp add: ptr_ok_def h'_def)
  have unused: "unused_tail_length h' ?ab' = unused_tail_length h ?ab - ?n"
    using a rl off0 by (simp add: unused_tail_length_def)
  have off: "ptr_end ?ab' - ?n = plen ?ab" using off0 small by (simp add: ptr_end_def)
  show ?thesis
  proof (cases "buffers bl \<noteq> [] \<and> praw (last (buffers bl)) = Some a \<and> ptr_end (last (buffers bl)) = plen ?ab")
    case True
    then obtain ps l where ps: "buffers bl = ps @ [l]" and l: "praw l = Some a" "ptr_end l = plen ?ab"
      by (cases "buffers bl" rule: rev_cases) auto
    have lok: "ptr_ok h l" using segs ps by simp
    have lend: "poff l + plen l = plen ?ab"
      using l(2) ptr_ok_bound [OF hok lok] by (simp add: ptr_end_def)
    let ?l' = "l\<lparr>plen := plen l + ?n\<rparr>"
    let ?bl' = "bl\<lparr>append_buffer := ?ab', buffers := ps @ [?l'], blen := blen bl + ?n\<rparr>"
    have "plen l + ?n < 2 ^ 32" using lend small by linarith
    then have run: "append_gap bs bl h = Inr (?bl', h')"
      using app a l lend off off0 ps small fits
      by (simp add: append_gap_def append_range_def ptr_end_def Let_def add.commute)
    have bl: "bytes h' ?l' = bytes h l @ bs"
      using bytes_poke_extend [OF l(1) al] lend room by (simp add: h'_def)
    have "contents h' ?bl' = contents h bl @ bs"
      using kept(2) bl ps concat_bytes_cong [of ps h' h] kept spare segs tail
      by (auto simp: contents_def spares_def tail_ok_def segs_ok_def)
    moreover have "list_ok h' ?bl'"
      using ok fits h'ok(1) kept(1) ps ab'ok a al l lend room rl off0 tail
      by (auto simp: list_ok_def tail_ok_def ptr_ok_def h'_def)
    ultimately show ?thesis using run spare unused by (auto simp: h'_def)
  next
    case False
    let ?t = "\<lparr>praw = Some a, poff = plen ?ab, plen = ?n\<rparr>"
    let ?bl' = "bl\<lparr>append_buffer := ?ab', buffers := buffers bl @ [?t], blen := blen bl + ?n\<rparr>"
    have w: "w32 (?n + plen ?ab) = plen ?ab + ?n" "w32 (plen ?ab + ?n) = plen ?ab + ?n"
      "w32 (blen bl + ?n) = blen bl + ?n" "w32 (plen ?ab) = plen ?ab" "bs \<noteq> []"
      using small fits n(2) by (simp_all add: add.commute)
    have "append_range ?ab' (plen ?ab) ?n (bl\<lparr>append_buffer := ?ab'\<rparr>) = Inr ?bl'"
      unfolding append_range_def using False a off0
      by (simp add: w ptr_sub_def push_back_def del: w32_id) blast
    then have run: "append_gap bs bl h = Inr (?bl', h')"
      unfolding append_gap_def using app off by simp
    have "bytes h' ?t = bs"
      using bytes_poke_extend [of "?t\<lparr>plen := 0\<rparr>" a h bs] al room by (simp add: h'_def bytes_def)
    then have "contents h' ?bl' = contents h bl @ bs" using kept(2) by (simp add: contents_def)
    moreover have "list_ok h' ?bl'"
      using ok fits h'ok(1) kept(1) ab'ok a al room rl off0 tail n(2)
      by (auto simp: list_ok_def tail_ok_def ptr_ok_def h'_def)
    ultimately show ?thesis using run spare unused by (auto simp: h'_def)
  qed
qed

lemma page_align_mask: "(of_nat MSGR_PAGE_SIZE :: u32) AND (of_nat MSGR_PAGE_SIZE - 1) = 0"
  by (simp add: MSGR_PAGE_SIZE_def)

lemma new_append_buffer_ok:
  assumes ok: "list_ok h bl" and n: "n < 2 ^ 32"
  shows "\<exists>bl' h' a. new_append_buffer n bl h = Inr (bl', h') \<and> list_ok h' bl' \<and>
    contents h' bl' = contents h bl \<and> buffers bl' = buffers bl \<and> blen bl' = blen bl \<and>
    praw (append_buffer bl') = Some a \<and> unused_tail_length h' (append_buffer bl') = n \<and>
    a = length (raws h) \<and> plen (append_buffer bl') = 0 \<and> (\<forall>ab. spares ab h h') \<and> junk h' = junk h"
proof -
  obtain a h' where new: "new_raw (Raw_posix_aligned MSGR_PAGE_SIZE) (map (junk h) [0..<n]) h = (a, h')"
    by (metis surj_pair)
  let ?bl' = "bl\<lparr>append_buffer := \<lparr>praw = Some a, poff = 0, plen = 0\<rparr>\<rparr>"
  have run: "new_append_buffer n bl h = Inr (?bl', h')"
    using new page_align_mask
    by (simp add: new_append_buffer_def create_page_aligned_def create_aligned_def ptr_of_raw_def MSGR_PAGE_SIZE_def)
  have hok: "heap_ok h'" "raw_len h' a = n" "a < length (raws h')"
    using new_raw_ok [OF new] ok n by (simp_all add: list_ok_def)
  have sp: "spares ab h h'" for ab using new by (rule spares_new_raw)
  have keep: "ptr_ok h' p \<and> bytes h' p = bytes h p \<and> praw p \<noteq> Some a" if "p \<in> set (buffers bl)" for p
    using new_raw_keeps [OF new] ok that by (simp add: list_ok_def segs_ok_def)
  then have "contents h' ?bl' = contents h bl"
    using concat_bytes_cong [of "buffers bl" h' h] by (simp add: contents_def)
  moreover have "list_ok h' ?bl'"
    using ok hok keep by (simp add: list_ok_def segs_ok_def tail_ok_def ptr_ok_def)
  ultimately show ?thesis
    using run sp hok(2) new_raw_facts [OF new] by (simp add: unused_tail_length_def)
qed

lemma page_round:
  assumes "0 < n" and "n \<le> 2 ^ 32 - MSGR_PAGE_SIZE"
  shows "n \<le> MSGR_PAGE_SIZE * ((n - 1) div MSGR_PAGE_SIZE + 1)"
    and "MSGR_PAGE_SIZE * ((n - 1) div MSGR_PAGE_SIZE + 1) < 2 ^ 32"
proof -
  have "(n - 1) mod MSGR_PAGE_SIZE < MSGR_PAGE_SIZE" by (simp add: MSGR_PAGE_SIZE_def)
  moreover have "MSGR_PAGE_SIZE * ((n - 1) div MSGR_PAGE_SIZE) + (n - 1) mod MSGR_PAGE_SIZE = n - 1"
    by simp
  ultimately show "n \<le> MSGR_PAGE_SIZE * ((n - 1) div MSGR_PAGE_SIZE + 1)"
    and "MSGR_PAGE_SIZE * ((n - 1) div MSGR_PAGE_SIZE + 1) < 2 ^ 32"
    using assms by (auto simp: algebra_simps MSGR_PAGE_SIZE_def)
qed

text \<open>One round when everything fits into the append buffer.\<close>

lemma append_loop_fits:
  assumes "list_ok h bl" and "length data \<le> unused_tail_length h (append_buffer bl)"
    and "blen bl + length data < 2 ^ 32"
  shows "\<exists>bl' h'. append_loop (Suc n) data bl h = Some (Inr (bl', h')) \<and> list_ok h' bl' \<and>
    contents h' bl' = contents h bl @ data \<and> spares (append_buffer bl) h h'"
proof (cases "data = []")
  case False
  then obtain a where a: "praw (append_buffer bl) = Some a"
    using assms(2) by (cases "praw (append_buffer bl)") (auto simp: unused_tail_length_def)
  obtain bl' h' where g: "append_gap data bl h = Inr (bl', h')" "list_ok h' bl'"
    "contents h' bl' = contents h bl @ data" "spares (append_buffer bl) h h'"
    using append_gap_ok [OF assms(1) a assms(2) _ assms(3)] False by auto
  have "min (unused_tail_length h (append_buffer bl)) (length data) = length data" using assms(2) by simp
  then show ?thesis using g False by (simp add: Let_def)
qed (use assms in \<open>simp add: spares_def\<close>)

lemma append_data_ok:
  assumes ok: "list_ok h bl" and fits: "blen bl + length data < 2 ^ 32"
    and page: "length data \<le> 2 ^ 32 - MSGR_PAGE_SIZE"
  shows "\<exists>bl' h'. append_data data bl h = Some (Inr (bl', h')) \<and> list_ok h' bl' \<and>
    contents h' bl' = contents h bl @ data \<and> spares (append_buffer bl) h h'"
proof (cases "length data \<le> unused_tail_length h (append_buffer bl)")
  case True
  then show ?thesis
    using append_loop_fits [OF ok True fits] by (simp add: append_data_def numeral_3_eq_3 del: append_loop.simps)
next
  case False
  let ?gap = "unused_tail_length h (append_buffer bl)"
  let ?rest = "drop ?gap data"
  let ?alen = "MSGR_PAGE_SIZE * ((length ?rest - 1) div MSGR_PAGE_SIZE + 1)"
  have rest: "0 < length ?rest" "length ?rest \<le> 2 ^ 32 - MSGR_PAGE_SIZE" using False page by auto
  note alen = page_round [OF rest]
  obtain bl1 h1 where s1:
    "(if ?gap > 0 then append_gap (take ?gap data) bl h else Inr (bl, h)) = Inr (bl1, h1)"
    "list_ok h1 bl1" "contents h1 bl1 = contents h bl @ take ?gap data" "spares (append_buffer bl) h h1"
  proof (cases "?gap > 0")
    case True
    then obtain a where a: "praw (append_buffer bl) = Some a"
      by (cases "praw (append_buffer bl)") (auto simp: unused_tail_length_def)
    have "length (take ?gap data) = ?gap" using False by simp
    then show thesis
      using append_gap_ok [OF ok a, of "take ?gap data"] True False fits that by auto
  next
    case gap0: False
    then show thesis using that [of bl h] ok by (simp add: spares_def)
  qed
  have len1: "blen bl1 + length ?rest < 2 ^ 32"
    using length_contents [OF s1(2)] s1(3) length_contents [OF ok] False fits by simp
  obtain bl2 h2 a2 where s2: "new_append_buffer ?alen bl1 h1 = Inr (bl2, h2)" "list_ok h2 bl2"
    "contents h2 bl2 = contents h1 bl1" "blen bl2 = blen bl1" "praw (append_buffer bl2) = Some a2"
    "unused_tail_length h2 (append_buffer bl2) = ?alen" "a2 = length (raws h1)"
    "\<forall>ab. spares ab h1 h2"
    using new_append_buffer_ok [OF s1(2) alen(2)] by blast
  obtain bl3 h3 where s3: "append_loop (Suc 1) ?rest bl2 h2 = Some (Inr (bl3, h3))" "list_ok h3 bl3"
    "contents h3 bl3 = contents h2 bl2 @ ?rest" "spares (append_buffer bl2) h2 h3"
    using append_loop_fits [OF s2(2), of ?rest 1] alen(1) s2(4,6) len1 by auto
  have "append_loop (Suc (Suc 1)) data bl h = Some (Inr (bl3, h3))"
    using False s1(1) s2(1) s3(1) rest(1) alen(2)
    by (subst append_loop.simps) (auto simp: Let_def min_def simp del: append_loop.simps)
  moreover have "spares (append_buffer bl) h h3"
  proof -
    have "ptr_ok h1 q" if "ptr_ok h q" "praw (append_buffer bl) \<noteq> None \<longrightarrow>
        praw q = praw (append_buffer bl) \<longrightarrow> poff q + plen q \<le> plen (append_buffer bl)" for q
      using s1(4) that unfolding spares_def by blast
    then have "praw q \<noteq> Some a2" if "ptr_ok h q" "praw (append_buffer bl) \<noteq> None \<longrightarrow>
        praw q = praw (append_buffer bl) \<longrightarrow> poff q + plen q \<le> plen (append_buffer bl)" for q
      using that s2(7) by (fastforce simp: ptr_ok_def)
    then show ?thesis using s1(4) s2(5,8) s3(4) unfolding spares_def by metis
  qed
  ultimately show ?thesis
    using s3 s2(3) s1(3) by (simp add: append_data_def numeral_3_eq_3 del: append_loop.simps)
qed

subsection \<open>Cutting\<close>

lemma ptr_sub_ok:
  assumes "heap_ok h" and "ptr_ok h p" and "praw p \<noteq> None" and "o' + l \<le> plen p"
  shows "\<exists>q. ptr_sub p o' l = Inr q \<and> ptr_ok h q \<and> plen q = l \<and> praw q = praw p \<and> poff q = poff p + o' \<and>
    bytes h q = take l (drop o' (bytes h p))"
proof -
  have "poff p + plen p < 2 ^ 32" using assms(1,2) by (rule ptr_ok_bound)
  then have w: "w32 (o' + l) = o' + l" "w32 (poff p + o') = poff p + o'" using assms(4) by simp_all
  have "take l (drop (o' + poff p) d) = take l (drop o' (take (plen p) (drop (poff p) d)))" for d :: "byte list"
    using assms(4) by (simp add: drop_take min_def)
  then show ?thesis
    using assms w by (auto simp: ptr_sub_def ptr_ok_def bytes_def ptr_c_str_def add.commute split: option.splits)
qed

lemma segs_raw: "ptr_ok h p \<Longrightarrow> 0 < plen p \<Longrightarrow> praw p \<noteq> None"
  by (auto simp: ptr_ok_def split: option.splits)

lemma skip_segs_ok:
  assumes "segs_ok h ps" and "off \<le> total_len ps" and "skip_segs off ps = (off', cur)"
  shows "\<exists>pre. ps = pre @ cur \<and> off = total_len pre + off' \<and> (cur \<noteq> [] \<longrightarrow> off' < plen (hd cur)) \<and>
    (cur = [] \<longrightarrow> off' = 0)"
  using assms
proof (induction ps arbitrary: off)
  case (Cons p ps)
  show ?case
  proof (cases "off > 0 \<and> off \<ge> plen p")
    case True
    have "off - plen p \<le> total_len ps" using Cons.prems(2) by simp
    moreover have "skip_segs (off - plen p) ps = (off', cur)" using True Cons.prems(3) by simp
    ultimately obtain pre where "ps = pre @ cur" "off - plen p = total_len pre + off'"
      "cur \<noteq> [] \<longrightarrow> off' < plen (hd cur)" "cur = [] \<longrightarrow> off' = 0"
      using Cons.IH [of "off - plen p"] Cons.prems(1) by auto
    then show ?thesis using True by (intro exI [of _ "p # pre"]) auto
  next
    case False
    then show ?thesis using Cons.prems by (intro exI [of _ "[]"]) auto
  qed
qed auto

lemma take_segs_ok:
  assumes "heap_ok h" and "segs_ok h ps" and "off + len \<le> total_len ps"
    and "ps \<noteq> [] \<longrightarrow> off < plen (hd ps)" and "ps = [] \<longrightarrow> off = 0"
  shows "\<exists>qs. take_segs off len ps = Inr qs \<and> segs_ok h qs \<and> total_len qs = len \<and>
    concat (map (bytes h) qs) = take len (drop off (concat (map (bytes h) ps)))"
  using assms(2-)
proof (induction ps arbitrary: off len)
  case (Cons p ps)
  have p: "ptr_ok h p" "0 < plen p" "praw p \<noteq> None" "off < plen p"
    using Cons.prems segs_raw by auto
  have lp: "length (bytes h p) = plen p" using p(1) by (rule length_bytes)
  consider "len = 0" | "0 < len" "off + len < plen p" | "0 < len" "plen p \<le> off + len" by linarith
  then show ?case
  proof cases
    case 2
    obtain q where q: "ptr_sub p off len = Inr q" "ptr_ok h q" "plen q = len"
      "bytes h q = take len (drop off (bytes h p))"
      using ptr_sub_ok [OF assms(1) p(1,3), of off len] 2 by auto
    then show ?thesis using 2 p(4) lp by (simp add: min_def)
  next
    case 3
    let ?n = "plen p - off"
    obtain q where q: "ptr_sub p off ?n = Inr q" "ptr_ok h q" "plen q = ?n"
      "bytes h q = take ?n (drop off (bytes h p))"
      using ptr_sub_ok [OF assms(1) p(1,3), of off ?n] p(4) by auto
    have "segs_ok h ps" "0 + (len - ?n) \<le> total_len ps" using Cons.prems p(4) 3 by auto
    moreover have "ps \<noteq> [] \<longrightarrow> 0 < plen (hd ps)" using Cons.prems(1) by (cases ps) auto
    ultimately obtain qs where qs: "take_segs 0 (len - ?n) ps = Inr qs" "segs_ok h qs"
      "total_len qs = len - ?n" "concat (map (bytes h) qs) = take (len - ?n) (concat (map (bytes h) ps))"
      using Cons.IH [of 0 "len - ?n"] by auto
    show ?thesis using 3 q qs p(4) lp by auto
  qed simp
qed simp

lemma substr_of_ok:
  assumes other: "list_ok h other" and fits: "off + len \<le> blen other"
    and tail: "tail_ok h (bl_clear bl)"
  shows "\<exists>bl'. substr_of bl other off len = Inr bl' \<and>
    contents h bl' = take len (drop off (contents h other)) \<and> blen bl' = len \<and> segs_ok h (buffers bl')"
proof -
  have ok: "heap_ok h" "segs_ok h (buffers other)" "blen other = total_len (buffers other)" "blen other < 2 ^ 32"
    using other by (auto simp: list_ok_def)
  obtain off' cur where sk: "skip_segs off (buffers other) = (off', cur)" by (metis surj_pair)
  obtain pre where pre: "buffers other = pre @ cur" "off = total_len pre + off'"
    "cur \<noteq> [] \<longrightarrow> off' < plen (hd cur)" "cur = [] \<longrightarrow> off' = 0"
    using skip_segs_ok [OF ok(2) _ sk] fits ok(3) by auto
  have segs: "segs_ok h pre" "segs_ok h cur" using ok(2) pre(1) by simp_all
  obtain qs where qs: "take_segs off' len cur = Inr qs" "segs_ok h qs" "total_len qs = len"
    "concat (map (bytes h) qs) = take len (drop off' (concat (map (bytes h) cur)))"
    using take_segs_ok [OF ok(1) segs(2)] pre fits ok(3) by auto
  have "drop off (contents h other) = drop off' (concat (map (bytes h) cur))"
    using pre length_concat_bytes [OF segs(1)] by (simp add: contents_def)
  then show ?thesis
    using sk qs fits ok(4) by (simp add: substr_of_def contents_def total_len_def)
qed

lemma substr_of_error:
  "w32 (off + len) > blen other \<Longrightarrow> substr_of bl other off len = Inl End_of_buffer"
  by (simp add: substr_of_def)

subsection \<open>Appending part of a window, and removal\<close>

text \<open>A window that a list may take up: it keeps out of the free part of the list's append buffer.\<close>

definition clear_of :: "blist \<Rightarrow> bptr \<Rightarrow> bool" where
  "clear_of bl p \<longleftrightarrow> (praw (append_buffer bl) \<noteq> None \<longrightarrow> praw p = praw (append_buffer bl) \<longrightarrow>
     poff p + plen p \<le> plen (append_buffer bl))"

lemma bytes_join:
  assumes "praw p = praw q" and "poff q = poff p + plen p" and "ptr_ok h q" and "praw q \<noteq> None"
  shows "bytes h (p\<lparr>plen := plen p + plen q\<rparr>) = bytes h p @ bytes h q"
proof -
  have "take (n + k) d = take n d @ take k (drop n d)" for n k and d :: "byte list"
    by (simp add: take_add)
  then show ?thesis using assms by (auto simp: bytes_def ptr_c_str_def add.commute)
qed

lemma append_range_ok:
  assumes ok: "list_ok h bl" and p: "ptr_ok h p" "praw p \<noteq> None" "off + len \<le> plen p"
    and fits: "blen bl + len < 2 ^ 32" and cl: "clear_of bl p"
  shows "\<exists>bl'. append_range p off len bl = Inr bl' \<and> list_ok h bl' \<and>
    contents h bl' = contents h bl @ take len (drop off (bytes h p)) \<and> append_buffer bl' = append_buffer bl"
proof -
  have hok: "heap_ok h" and segs: "segs_ok h (buffers bl)" and tail: "tail_ok h bl"
    and bl: "blen bl = total_len (buffers bl)"
    using ok by (simp_all add: list_ok_def)
  obtain q where q: "ptr_sub p off len = Inr q" "ptr_ok h q" "plen q = len" "praw q = praw p"
    "poff q = poff p + off" "bytes h q = take len (drop off (bytes h p))"
    using ptr_sub_ok [OF hok p] by blast
  have small: "poff p + plen p < 2 ^ 32" using ptr_ok_bound [OF hok p(1)] .
  have w: "w32 (len + off) = len + off" "w32 (poff p + off) = poff p + off" "w32 (blen bl + len) = blen bl + len"
    using p(3) small fits by simp_all
  have clq: "praw (append_buffer bl) \<noteq> None \<Longrightarrow> praw p = praw (append_buffer bl) \<Longrightarrow>
      poff q + plen q \<le> plen (append_buffer bl)"
    using cl q p(3) by (simp add: clear_of_def)
  show ?thesis
  proof (cases "buffers bl \<noteq> [] \<and> praw (last (buffers bl)) = praw p \<and> ptr_end (last (buffers bl)) = poff p + off")
    case True
    then obtain ps l where ps: "buffers bl = ps @ [l]" and l: "praw l = praw p" "ptr_end l = poff p + off"
      by (cases "buffers bl" rule: rev_cases) auto
    have lok: "ptr_ok h l" "0 < plen l" using segs ps by simp_all
    have lend: "poff l + plen l = poff p + off"
      using l(2) ptr_ok_bound [OF hok lok(1)] by (simp add: ptr_end_def)
    let ?l' = "l\<lparr>plen := plen l + len\<rparr>"
    let ?bl' = "bl\<lparr>buffers := ps @ [?l'], blen := blen bl + len\<rparr>"
    have "w32 (plen l + len) = plen l + len" using lend p(3) small by simp
    then have run: "append_range p off len bl = Inr ?bl'"
      using True ps p(3) w by (simp add: append_range_def Let_def del: w32_id)
    have "bytes h ?l' = bytes h l @ bytes h q"
      using bytes_join [of l q h] l(1) q lend p(2) by simp
    then have "contents h ?bl' = contents h bl @ take len (drop off (bytes h p))"
      using ps q(6) by (simp add: contents_def)
    moreover have "ptr_ok h ?l'"
      using q(2-5) l(1) lend p(2) by (auto simp: ptr_ok_def split: option.splits)
    moreover have "praw (append_buffer bl) \<noteq> None \<longrightarrow> praw l = praw (append_buffer bl) \<longrightarrow>
        poff l + (plen l + len) \<le> plen (append_buffer bl)"
      using clq l(1) lend q(3,5) by auto
    ultimately show ?thesis
      using run ok ps fits bl tail lok(2) by (auto simp: list_ok_def tail_ok_def)
  next
    case False
    then have run: "append_range p off len bl = Inr (push_back q bl)"
      using q(1) p(3) w by (auto simp: append_range_def add.commute)
    have "contents h (push_back q bl) = contents h bl @ bytes h q"
      using q(2,3) length_bytes [OF q(2)] by (auto simp: push_back_def contents_def)
    moreover have "list_ok h (push_back q bl)"
      using ok q(2-4) fits bl tail clq w(3) by (auto simp: push_back_def list_ok_def tail_ok_def)
    moreover have "append_buffer (push_back q bl) = append_buffer bl" by (simp add: push_back_def)
    ultimately show ?thesis using run q(6) by metis
  qed
qed

text \<open>What the caller's list must satisfy, and how it grows.\<close>

definition claim_ready :: "heap \<Rightarrow> bptr list \<Rightarrow> nat \<Rightarrow> blist option \<Rightarrow> bool" where
  "claim_ready h ps len cb =
     (case cb of None \<Rightarrow> True
               | Some b \<Rightarrow> list_ok h b \<and> blen b + len < 2 ^ 32 \<and> (\<forall>p \<in> set ps. clear_of b p))"

definition claim_grows :: "heap \<Rightarrow> byte list \<Rightarrow> blist option \<Rightarrow> blist option \<Rightarrow> bool" where
  "claim_grows h bs cb cb' =
     (case cb of None \<Rightarrow> cb' = None
               | Some b \<Rightarrow> (\<exists>b'. cb' = Some b' \<and> list_ok h b' \<and> contents h b' = contents h b @ bs \<and>
                                 append_buffer b' = append_buffer b))"

lemma claim_one:
  assumes "claim_ready h (p # ps) len cb" and "ptr_ok h p" and "0 < plen p" and "off + n \<le> plen p" and "n \<le> len"
  shows "\<exists>cb'. (case cb of None \<Rightarrow> Inr None | Some b \<Rightarrow> map_sum (\<lambda>e. e) Some (append_range p off n b)) = Inr cb' \<and>
    claim_ready h ps (len - n) cb' \<and> claim_grows h (take n (drop off (bytes h p))) cb cb'"
proof (cases cb)
  case (Some b)
  have b: "list_ok h b" "blen b + n < 2 ^ 32" "clear_of b p" "\<forall>p \<in> set ps. clear_of b p" "blen b + len < 2 ^ 32"
    using assms(1,5) Some by (auto simp: claim_ready_def)
  obtain b' where b': "append_range p off n b = Inr b'" "list_ok h b'"
    "contents h b' = contents h b @ take n (drop off (bytes h p))" "append_buffer b' = append_buffer b"
    using append_range_ok [OF b(1) assms(2) segs_raw [OF assms(2,3)] assms(4) b(2,3)] by blast
  have "length (take n (drop off (bytes h p))) = n" using length_bytes [OF assms(2)] assms(4) by simp
  then have "blen b' = blen b + n"
    using length_contents [OF b(1)] length_contents [OF b'(2)] b'(3) by simp
  then show ?thesis
    using Some b b' assms(5) by (simp add: claim_ready_def claim_grows_def clear_of_def)
qed (simp add: claim_ready_def claim_grows_def)

lemma claim_grows_trans:
  "claim_grows h bs cb cb1 \<Longrightarrow> claim_grows h bs' cb1 cb2 \<Longrightarrow> claim_grows h (bs @ bs') cb cb2"
  by (auto simp: claim_grows_def split: option.splits)

lemma claim_grows_nil: "claim_ready h ps len cb \<Longrightarrow> claim_grows h [] cb cb"
  by (auto simp: claim_grows_def claim_ready_def split: option.splits)

lemma splice_loop_ok:
  assumes "heap_ok h" and "segs_ok h ps" and "ps \<noteq> [] \<longrightarrow> off < plen (hd ps)" and "claim_ready h ps len cb"
    and "0 < len \<or> off = 0"
  shows "\<exists>rest cb'. splice_loop off len ps cb = Inr (rest, cb') \<and> segs_ok h rest \<and>
    total_len rest = total_len ps - (off + len) \<and>
    concat (map (bytes h) rest) = drop (off + len) (concat (map (bytes h) ps)) \<and>
    (\<forall>q \<in> set rest. \<exists>p \<in> set ps. praw q = praw p \<and> poff q + plen q = poff p + plen p) \<and>
    claim_grows h (take len (drop off (concat (map (bytes h) ps)))) cb cb'"
  using assms(2-)
proof (induction ps arbitrary: off len cb)
  case Nil
  then show ?case using claim_grows_nil by fastforce
next
  case (Cons p ps)
  have p: "ptr_ok h p" "0 < plen p" "off < plen p" and ps: "segs_ok h ps"
    using Cons.prems by auto
  have lp: "length (bytes h p) = plen p" using p(1) by (rule length_bytes)
  consider "len = 0" | "0 < len" "off + len < plen p" | "0 < len" "plen p \<le> off + len" by linarith
  then show ?case
  proof cases
    case 1
    then show ?thesis using Cons.prems claim_grows_nil by fastforce
  next
    case 2
    obtain cb1 where cb1:
      "(case cb of None \<Rightarrow> Inr None | Some b \<Rightarrow> map_sum (\<lambda>e. e) Some (append_range p off len b)) = Inr cb1"
      "claim_grows h (take len (drop off (bytes h p))) cb cb1"
      using claim_one [OF Cons.prems(3) p(1,2), of off len] 2 by auto
    let ?q = "p\<lparr>poff := off + len + poff p, plen := plen p - (len + off)\<rparr>"
    have "ptr_ok h ?q" using p(1) 2 by (auto simp: ptr_ok_def split: option.splits)
    moreover have "bytes h ?q = drop (off + len) (bytes h p)"
      by (auto simp: bytes_def ptr_c_str_def drop_take add.commute split: option.splits)
    ultimately show ?thesis using 2 cb1 ps lp by (auto simp: Let_def)
  next
    case 3
    let ?n = "plen p - off"
    have n: "off + ?n \<le> plen p" "?n \<le> len" using 3 p(3) by auto
    obtain cb1 where cb1:
      "(case cb of None \<Rightarrow> Inr None | Some b \<Rightarrow> map_sum (\<lambda>e. e) Some (append_range p off ?n b)) = Inr cb1"
      "claim_ready h ps (len - ?n) cb1" "claim_grows h (take ?n (drop off (bytes h p))) cb cb1"
      using claim_one [OF Cons.prems(3) p(1,2), of off ?n] n by blast
    have "ps \<noteq> [] \<longrightarrow> 0 < plen (hd ps)" using ps by (cases ps) auto
    then obtain rest cb' where r: "splice_loop 0 (len - ?n) ps cb1 = Inr (rest, cb')" "segs_ok h rest"
      "total_len rest = total_len ps - (len - ?n)"
      "concat (map (bytes h) rest) = drop (len - ?n) (concat (map (bytes h) ps))"
      "\<forall>q \<in> set rest. \<exists>p \<in> set ps. praw q = praw p \<and> poff q + plen q = poff p + plen p"
      "claim_grows h (take (len - ?n) (concat (map (bytes h) ps))) cb1 cb'"
      using Cons.IH [of 0 "len - ?n" cb1] ps cb1(2) by auto
    have "claim_grows h (take len (drop off (concat (map (bytes h) (p # ps))))) cb cb'"
      using claim_grows_trans [OF cb1(3) r(6)] 3 p(3) lp by (simp add: min_def)
    moreover have "splice_loop off len (p # ps) cb = Inr (rest, cb')" using 3 cb1(1) r(1) by simp
    moreover have "len - ?n = off + len - plen p" using 3 p(3) by simp
    ultimately show ?thesis using r 3 p(3) lp
      by (intro exI [of _ rest] exI [of _ cb']) (auto simp del: splice_loop.simps)
  qed
qed

lemma splice_ok:
  assumes ok: "list_ok h bl" and off: "off < blen bl" and len: "0 < len"
    and ready: "claim_ready h (buffers bl) len cb"
  shows "\<exists>bl' cb'. splice off len cb bl = Inr (bl', cb') \<and> list_ok h bl' \<and>
    contents h bl' = take off (contents h bl) @ drop (off + len) (contents h bl) \<and>
    claim_grows h (take len (drop off (contents h bl))) cb cb'"
proof -
  have hok: "heap_ok h" and segs: "segs_ok h (buffers bl)" and tail: "tail_ok h bl"
    and bl: "blen bl = total_len (buffers bl)" "blen bl < 2 ^ 32"
    using ok by (simp_all add: list_ok_def)
  obtain off' cur where sk: "skip_segs off (buffers bl) = (off', cur)" by (metis surj_pair)
  obtain pre where pre: "buffers bl = pre @ cur" "off = total_len pre + off'" "cur \<noteq> [] \<longrightarrow> off' < plen (hd cur)"
    using skip_segs_ok [OF segs _ sk] off bl(1) by auto
  have cur: "cur \<noteq> []" using off bl(1) pre(1,2) by auto
  have sp: "segs_ok h pre" "segs_ok h cur" using segs pre(1) by simp_all
  obtain p ps where pps: "cur = p # ps" using cur by (cases cur) auto
  have p: "ptr_ok h p" "0 < plen p" "off' < plen p" using sp(2) pre(3) pps by auto
  obtain rest cb' where r: "splice_loop off' len cur cb = Inr (rest, cb')" "segs_ok h rest"
    "total_len rest = total_len cur - (off' + len)"
    "concat (map (bytes h) rest) = drop (off' + len) (concat (map (bytes h) cur))"
    "\<forall>q \<in> set rest. \<exists>p \<in> set cur. praw q = praw p \<and> poff q + plen q = poff p + plen p"
    "claim_grows h (take len (drop off' (concat (map (bytes h) cur)))) cb cb'"
    using splice_loop_ok [OF hok sp(2) pre(3), of len cb] ready pre(1) len
    by (auto simp: claim_ready_def split: option.splits)
  obtain front where f: "(if off' > 0 then map_sum (\<lambda>e. e) (\<lambda>q. [q]) (ptr_sub p 0 off') else Inr []) = Inr front"
    "segs_ok h front" "total_len front = off'" "concat (map (bytes h) front) = take off' (bytes h p)"
    "\<forall>q \<in> set front. praw q = praw p \<and> poff q + plen q \<le> poff p + plen p"
  proof (cases "off' > 0")
    case True
    obtain q where "ptr_sub p 0 off' = Inr q" "ptr_ok h q" "plen q = off'" "praw q = praw p" "poff q = poff p"
      "bytes h q = take off' (bytes h p)"
      using ptr_sub_ok [OF hok p(1) segs_raw [OF p(1,2)], of 0 off'] p(3) by auto
    then show thesis using that [of "[q]"] True p(3) by simp
  qed (use that in simp)
  let ?bl' = "bl\<lparr>buffers := pre @ front @ rest, blen := total_len (pre @ front @ rest)\<rparr>"
  have le: "total_len rest \<le> total_len cur" "total_len (pre @ front @ rest) \<le> blen bl"
    using r(3) f(3) pre(1,2) bl(1) pps p(3) by simp_all
  then have bound: "total_len (pre @ front @ rest) < 2 ^ 32" using bl(2) by simp
  have "blen bl + total_len front + total_len rest - total_len cur = total_len (pre @ front @ rest)"
    using bl(1) pre(1) by simp
  moreover have "(if off' > 0 then map_sum (\<lambda>e. e) (\<lambda>q. [q]) (ptr_sub (hd cur) 0 off') else Inr []) = Inr front"
    unfolding pps list.sel(1) by (rule f(1))
  moreover have "take (length (buffers bl) - length cur) (buffers bl) = pre" using pre(1) by simp
  ultimately have run: "splice off len cb bl = Inr (?bl', cb')"
    unfolding splice_def using sk r(1) off len bound
    by (simp add: total_len_def [symmetric] del: total_len_simps)
  have "list_ok h ?bl'"
    using hok sp(1) f(2,5) r(2,5) tail pre(1) pps bound
    by (fastforce simp: list_ok_def tail_ok_def)
  moreover have "contents h ?bl' = take off (contents h bl) @ drop (off + len) (contents h bl)"
    using pre(1,2) pps f(4) r(4) p(3) length_concat_bytes [OF sp(1)] length_bytes [OF p(1)]
    by (simp add: contents_def)
  moreover have "claim_grows h (take len (drop off (contents h bl))) cb cb'"
    using r(6) pre(1,2) length_concat_bytes [OF sp(1)] by (simp add: contents_def)
  ultimately show ?thesis using run by blast
qed

end
