(* ===== verification/Buffer_Iter.thy ===== *)
theory Buffer_Iter
  imports Buffer_List
begin

text \<open>
  \<^verbatim>\<open>buffer::list::iterator\<close> (\<^verbatim>\<open>src/include/msgr/buffer.h\<close>, \<^verbatim>\<open>src/src/buffer.cc\<close>): positions in a
  buffer list, moving them and copying bytes out.  The interface that decoders rely on is the
  locale \<open>byte_source\<close>: a copy of \<open>n\<close> bytes returns the next \<open>n\<close> bytes that remain, or fails
  when fewer remain.
\<close>

section \<open>State and operations\<close>

text \<open>
  \<^verbatim>\<open>buffer::list::iterator\<close>: \<open>ioff\<close> is the position in the whole list, \<open>ip\<close> the index of the current
  window (their number at the end) and \<open>ip_off\<close> the position in it.  The operations work on
  the windows of the list; an exception is \<open>Inl\<close>.
\<close>

record iter =
  ioff :: nat
  ip :: nat
  ip_off :: nat

definition iter_begin :: iter where
  "iter_begin = \<lparr>ioff = 0, ip = 0, ip_off = 0\<rparr>"

definition iter_end :: "bptr list \<Rightarrow> iter \<Rightarrow> bool" where
  "iter_end ps it \<longleftrightarrow> ip it = length ps"

text \<open>\<^verbatim>\<open>advance(o)\<close>: forward over whole windows, or backward window by window.\<close>

function advance_fwd :: "bptr list \<Rightarrow> nat \<Rightarrow> nat \<Rightarrow> buf_error + nat \<times> nat" where
  "advance_fwd ps p off =
     (if off = 0 then Inr (p, off)
      else if p \<ge> length ps then Inl End_of_buffer
      else if off \<ge> plen (ps ! p) then advance_fwd ps (Suc p) (off - plen (ps ! p))
      else Inr (p, off))"
  by pat_completeness auto
termination by (relation "measure (\<lambda>(ps, p, off). length ps - p)") auto

function advance_back :: "bptr list \<Rightarrow> nat \<Rightarrow> iter \<Rightarrow> buf_error + iter" where
  "advance_back ps d it =
     (if d = 0 then Inr it
      else if ip_off it > 0 then
        (let k = min d (ip_off it)
         in advance_back ps (d - k) (it\<lparr>ip_off := ip_off it - k, ioff := ioff it - k\<rparr>))
      else if ioff it > 0 then
        (if ip it = 0 then Inl Assertion_failed
         else advance_back ps d (it\<lparr>ip := ip it - 1, ip_off := plen (ps ! (ip it - 1))\<rparr>))
      else Inl End_of_buffer)"
  by pat_completeness auto
termination
  by (relation "measures [\<lambda>(ps, d, it). d, \<lambda>(ps, d, it). ip it]") auto

definition advance :: "bptr list \<Rightarrow> int \<Rightarrow> iter \<Rightarrow> buf_error + iter" where
  "advance ps n it =
     (if n > 0 then
        (case advance_fwd ps (ip it) (ip_off it + nat n) of
           Inl e \<Rightarrow> Inl e
         | Inr (p, off) \<Rightarrow> Inr \<lparr>ioff = ioff it + nat n, ip = p, ip_off = off\<rparr>)
      else advance_back ps (nat (- n)) it)"

definition seek :: "bptr list \<Rightarrow> nat \<Rightarrow> buf_error + iter" where
  "seek ps n = advance ps (int n) iter_begin"

definition iter_get :: "heap \<Rightarrow> bptr list \<Rightarrow> iter \<Rightarrow> buf_error + byte" where
  "iter_get h ps it =
     (if iter_end ps it then Inl End_of_buffer else ptr_nth h (ps ! ip it) (ip_off it))"

definition iter_next :: "bptr list \<Rightarrow> iter \<Rightarrow> buf_error + iter" where
  "iter_next ps it = (if iter_end ps it then Inl End_of_buffer else advance ps 1 it)"

definition get_current_ptr :: "bptr list \<Rightarrow> iter \<Rightarrow> buf_error + bptr" where
  "get_current_ptr ps it =
     (if iter_end ps it then Inl End_of_buffer
      else ptr_sub (ps ! ip it) (ip_off it) (plen (ps ! ip it) - ip_off it))"

text \<open>The loop of \<^verbatim>\<open>copy(len, dest)\<close>.\<close>

function copy_loop :: "heap \<Rightarrow> bptr list \<Rightarrow> nat \<Rightarrow> iter \<Rightarrow> buf_error + byte list \<times> iter" where
  "copy_loop h ps len it =
     (if len = 0 then Inr ([], it)
      else if iter_end ps it then Inl End_of_buffer
      else if plen (ps ! ip it) = 0 then Inl Assertion_failed
      else
        (let howmuch = min len (plen (ps ! ip it) - ip_off it)
         in if howmuch = 0 then Inl Stuck
            else
              (case ptr_copy_out h (ps ! ip it) (ip_off it) howmuch of
                 Inl e \<Rightarrow> Inl e
               | Inr bs \<Rightarrow>
                   (case advance ps (int howmuch) it of
                      Inl e \<Rightarrow> Inl e
                    | Inr it \<Rightarrow>
                        (case copy_loop h ps (len - howmuch) it of
                           Inl e \<Rightarrow> Inl e
                         | Inr (bs', it) \<Rightarrow> Inr (bs @ bs', it))))))"
  by pat_completeness auto
termination by (relation "measure (\<lambda>(h, ps, len, it). len)") auto

declare copy_loop.simps [simp del] advance_fwd.simps [simp del] advance_back.simps [simp del]

definition iter_copy :: "heap \<Rightarrow> bptr list \<Rightarrow> nat \<Rightarrow> iter \<Rightarrow> buf_error + byte list \<times> iter" where
  "iter_copy h ps len it =
     (case (if iter_end ps it then seek ps (ioff it) else Inr it) of
        Inl e \<Rightarrow> Inl e
      | Inr it \<Rightarrow> copy_loop h ps len it)"

text \<open>\<^verbatim>\<open>list::copy(off, len, dest)\<close>.\<close>

definition bl_copy_out :: "heap \<Rightarrow> blist \<Rightarrow> nat \<Rightarrow> nat \<Rightarrow> buf_error + byte list" where
  "bl_copy_out h bl off len =
     (if w32 (off + len) > blen bl then Inl End_of_buffer
      else (case seek (buffers bl) off of
              Inl e \<Rightarrow> Inl e
            | Inr it \<Rightarrow> map_sum (\<lambda>e. e) fst (iter_copy h (buffers bl) len it)))"

subsection \<open>Positions\<close>

text \<open>A normal position: inside a window, or past the last one.\<close>

definition iter_ok :: "bptr list \<Rightarrow> iter \<Rightarrow> bool" where
  "iter_ok ps it \<longleftrightarrow> ip it \<le> length ps \<and> ioff it = total_len (take (ip it) ps) + ip_off it \<and>
     (ip it < length ps \<longrightarrow> ip_off it < plen (ps ! ip it)) \<and> (ip it = length ps \<longrightarrow> ip_off it = 0)"

lemma total_len_take_Suc: "p < length ps \<Longrightarrow> total_len (take (Suc p) ps) = total_len (take p ps) + plen (ps ! p)"
  by (simp add: take_Suc_conv_app_nth)

lemma total_len_take_le: "total_len (take p ps) \<le> total_len ps"
  by (metis append_take_drop_id le_add1 total_len_simps(3))

lemma segs_ok_nth: "segs_ok h ps \<Longrightarrow> p < length ps \<Longrightarrow> ptr_ok h (ps ! p) \<and> 0 < plen (ps ! p)"
  by (simp add: segs_ok_def)

lemma advance_fwd_ok:
  assumes "segs_ok h ps" and "p \<le> length ps" and "total_len (take p ps) + off \<le> total_len ps"
  shows "\<exists>p' off'. advance_fwd ps p off = Inr (p', off') \<and> p' \<le> length ps \<and>
    total_len (take p' ps) + off' = total_len (take p ps) + off \<and>
    (p' < length ps \<longrightarrow> off' < plen (ps ! p')) \<and> (p' = length ps \<longrightarrow> off' = 0)"
  using assms
proof (induction ps p off rule: advance_fwd.induct)
  case (1 ps p off)
  consider "off = 0" | "0 < off" "off < plen (ps ! p)" "p < length ps"
    | "0 < off" "plen (ps ! p) \<le> off" "p < length ps"
    using 1(3,4) by (cases "p = length ps") (auto, linarith)
  then show ?case
  proof cases
    case 3
    have "total_len (take (Suc p) ps) + (off - plen (ps ! p)) = total_len (take p ps) + off"
      using 3 by (simp add: total_len_take_Suc)
    then show ?thesis using 1(1) 1(2,4) 3 by (subst advance_fwd.simps) simp
  qed (use 1(2,3) segs_ok_nth in \<open>auto simp: advance_fwd.simps\<close>)
qed

lemma advance_fwd_error:
  assumes "p \<le> length ps" and "total_len ps < total_len (take p ps) + off"
  shows "advance_fwd ps p off = Inl End_of_buffer"
  using assms
proof (induction ps p off rule: advance_fwd.induct)
  case (1 ps p off)
  have off: "0 < off" using 1(3) total_len_take_le [of p ps] by linarith
  show ?case
  proof (cases "p < length ps")
    case True
    have "plen (ps ! p) \<le> off"
      using 1(3) total_len_take_le [of "Suc p" ps] total_len_take_Suc [OF True] by linarith
    moreover from this have "total_len ps < total_len (take (Suc p) ps) + (off - plen (ps ! p))"
      using 1(3) total_len_take_Suc [OF True] by simp
    ultimately show ?thesis using 1(1) off True by (subst advance_fwd.simps) simp
  qed (use off in \<open>simp add: advance_fwd.simps\<close>)
qed

lemma iter_ok_le: "iter_ok ps it \<Longrightarrow> ioff it \<le> total_len ps"
  using total_len_take_le [of "Suc (ip it)" ps] total_len_take_Suc [of "ip it" ps]
  by (cases "ip it < length ps") (auto simp: iter_ok_def)

lemma iter_ok_end: "segs_ok h ps \<Longrightarrow> iter_ok ps it \<Longrightarrow> iter_end ps it \<longleftrightarrow> ioff it = total_len ps"
  using total_len_take_le [of "Suc (ip it)" ps] total_len_take_Suc [of "ip it" ps]
  by (cases "ip it < length ps") (auto simp: iter_ok_def iter_end_def)

lemma advance_ok:
  assumes "segs_ok h ps" and "iter_ok ps it" and "ioff it + n \<le> total_len ps"
  shows "\<exists>it'. advance ps (int n) it = Inr it' \<and> iter_ok ps it' \<and> ioff it' = ioff it + n"
proof (cases "n = 0")
  case True
  then show ?thesis using assms(2) by (simp add: advance_def advance_back.simps)
next
  case False
  have it: "ip it \<le> length ps" "ioff it = total_len (take (ip it) ps) + ip_off it"
    using assms(2) by (simp_all add: iter_ok_def)
  then obtain p' off' where f: "advance_fwd ps (ip it) (ip_off it + n) = Inr (p', off')" "p' \<le> length ps"
    "total_len (take p' ps) + off' = total_len (take (ip it) ps) + (ip_off it + n)"
    "p' < length ps \<longrightarrow> off' < plen (ps ! p')" "p' = length ps \<longrightarrow> off' = 0"
    using advance_fwd_ok [OF assms(1), of "ip it" "ip_off it + n"] assms(3) by auto
  then have "advance ps (int n) it = Inr \<lparr>ioff = ioff it + n, ip = p', ip_off = off'\<rparr>"
    using False by (simp add: advance_def)
  then show ?thesis using f it by (simp add: iter_ok_def)
qed

lemma advance_error:
  assumes "iter_ok ps it" and "total_len ps < ioff it + n"
  shows "advance ps (int n) it = Inl End_of_buffer"
proof -
  have "0 < n" using assms(2) iter_ok_le [OF assms(1)] by linarith
  then show ?thesis
    using advance_fwd_error [of "ip it" ps "ip_off it + n"] assms by (simp add: advance_def iter_ok_def)
qed

lemma iter_begin_ok: "segs_ok h ps \<Longrightarrow> iter_ok ps iter_begin"
  by (cases ps) (simp_all add: iter_ok_def iter_begin_def)

lemma seek_ok:
  assumes "segs_ok h ps" and "n \<le> total_len ps"
  shows "\<exists>it. seek ps n = Inr it \<and> iter_ok ps it \<and> ioff it = n"
  using advance_ok [OF assms(1) iter_begin_ok [OF assms(1)], of n] assms(2)
  by (simp add: seek_def iter_begin_def)

subsection \<open>Copying out\<close>

lemma ptr_copy_out_ok:
  assumes "heap_ok h" and "ptr_ok h p" and "praw p \<noteq> None" and "i + k \<le> plen p"
  shows "ptr_copy_out h p i k = Inr (take k (drop i (bytes h p)))"
proof -
  have "w32 (i + k) = i + k" using assms(4) ptr_ok_bound [OF assms(1,2)] by simp
  then show ?thesis using assms by (simp add: ptr_copy_out_def bytes_def drop_take min_def)
qed

lemma window_of_contents:
  assumes "segs_ok h ps" and "iter_ok ps it" and "ip it < length ps" and "k \<le> plen (ps ! ip it) - ip_off it"
  shows "take k (drop (ioff it) (concat (map (bytes h) ps))) = take k (drop (ip_off it) (bytes h (ps ! ip it)))"
proof -
  have "ps = take (ip it) ps @ ps ! ip it # drop (Suc (ip it)) ps" using assms(3) by (rule id_take_nth_drop)
  then have "concat (map (bytes h) ps) = concat (map (bytes h) (take (ip it) ps)) @ bytes h (ps ! ip it)
      @ concat (map (bytes h) (drop (Suc (ip it)) ps))"
    by (metis concat.simps(2) concat_append list.simps(9) map_append)
  moreover have "length (concat (map (bytes h) (take (ip it) ps))) = total_len (take (ip it) ps)"
    using assms(1) by (intro length_concat_bytes) (auto simp: segs_ok_def dest: in_set_takeD)
  moreover have "length (bytes h (ps ! ip it)) = plen (ps ! ip it)"
    using segs_ok_nth [OF assms(1,3)] length_bytes by blast
  ultimately show ?thesis using assms(2-4) by (simp add: iter_ok_def)
qed

lemma copy_loop_ok:
  assumes "heap_ok h" and "segs_ok h ps" and "iter_ok ps it" and "ioff it + len \<le> total_len ps"
  shows "\<exists>it'. copy_loop h ps len it = Inr (take len (drop (ioff it) (concat (map (bytes h) ps))), it') \<and>
    iter_ok ps it' \<and> ioff it' = ioff it + len"
  using assms(3,4)
proof (induction len arbitrary: it rule: less_induct)
  case (less len)
  show ?case
  proof (cases "len = 0")
    case True
    then show ?thesis using less.prems by (simp add: copy_loop.simps)
  next
    case False
    have ne: "\<not> iter_end ps it" "ip it < length ps"
      using False less.prems iter_ok_end [OF assms(2) less.prems(1)]
      by (auto simp: iter_end_def iter_ok_def)
    let ?p = "ps ! ip it" and ?c = "concat (map (bytes h) ps)"
    let ?k = "min len (plen ?p - ip_off it)"
    have p: "ptr_ok h ?p" "0 < plen ?p" "praw ?p \<noteq> None" and off: "ip_off it < plen ?p"
      using segs_ok_nth [OF assms(2) ne(2)] segs_raw less.prems(1) ne(2) by (auto simp: iter_ok_def)
    have k: "0 < ?k" "?k \<le> len" "ip_off it + ?k \<le> plen ?p" using False off by auto
    obtain it1 where it1: "advance ps (int ?k) it = Inr it1" "iter_ok ps it1" "ioff it1 = ioff it + ?k"
      using advance_ok [OF assms(2) less.prems(1), of ?k] less.prems(2) k(2) by auto
    obtain it2 where it2: "copy_loop h ps (len - ?k) it1 = Inr (take (len - ?k) (drop (ioff it1) ?c), it2)"
      "iter_ok ps it2" "ioff it2 = ioff it1 + (len - ?k)"
      using less.IH [of "len - ?k" it1] k(1,2) False it1 less.prems(2) by auto
    have "take ?k (drop (ip_off it) (bytes h ?p)) @ take (len - ?k) (drop (ioff it1) ?c)
        = take len (drop (ioff it) ?c)"
    proof -
      have "take (?k + (len - ?k)) (drop (ioff it) ?c)
          = take ?k (drop (ioff it) ?c) @ take (len - ?k) (drop ?k (drop (ioff it) ?c))"
        by (rule take_add)
      moreover have "?k + (len - ?k) = len" using k(2) by simp
      ultimately show ?thesis
        using window_of_contents [OF assms(2) less.prems(1) ne(2), of ?k] it1(3) by (simp add: add.commute)
    qed
    moreover have "copy_loop h ps len it
        = Inr (take ?k (drop (ip_off it) (bytes h ?p)) @ take (len - ?k) (drop (ioff it1) ?c), it2)"
      using False ne(1) p(2) k(1) ptr_copy_out_ok [OF assms(1) p(1,3) k(3)] it1(1) it2(1)
      by (subst copy_loop.simps) (simp add: Let_def)
    ultimately show ?thesis using it2(2,3) it1(3) k(2) by simp
  qed
qed

lemma copy_loop_error:
  assumes "heap_ok h" and "segs_ok h ps" and "iter_ok ps it" and "total_len ps < ioff it + len"
  shows "copy_loop h ps len it = Inl End_of_buffer"
  using assms(3,4)
proof (induction len arbitrary: it rule: less_induct)
  case (less len)
  have pos: "0 < len" using less.prems(2) iter_ok_le [OF less.prems(1)] by linarith
  show ?case
  proof (cases "iter_end ps it")
    case True
    then show ?thesis using pos by (simp add: copy_loop.simps)
  next
    case False
    then have ne: "ip it < length ps" using less.prems(1) by (auto simp: iter_end_def iter_ok_def)
    let ?p = "ps ! ip it"
    let ?k = "min len (plen ?p - ip_off it)"
    have p: "ptr_ok h ?p" "0 < plen ?p" "praw ?p \<noteq> None" and off: "ip_off it < plen ?p"
      using segs_ok_nth [OF assms(2) ne] segs_raw less.prems(1) ne by (auto simp: iter_ok_def)
    have k: "0 < ?k" "?k \<le> len" "ip_off it + ?k \<le> plen ?p" using pos off by auto
    have "ioff it + ?k \<le> total_len ps"
      using less.prems(1) k(3) total_len_take_le [of "Suc (ip it)" ps] total_len_take_Suc [OF ne]
      by (simp add: iter_ok_def)
    then obtain it1 where it1: "advance ps (int ?k) it = Inr it1" "iter_ok ps it1" "ioff it1 = ioff it + ?k"
      using advance_ok [OF assms(2) less.prems(1)] by blast
    have "copy_loop h ps (len - ?k) it1 = Inl End_of_buffer"
      using less.IH [of "len - ?k" it1] k(1,2) pos it1 less.prems(2) by auto
    then show ?thesis
      using pos False p(2) k(1) ptr_copy_out_ok [OF assms(1) p(1,3) k(3)] it1(1)
      by (subst copy_loop.simps) (simp add: Let_def)
  qed
qed

text \<open>At the end of the list \<^verbatim>\<open>copy\<close> first seeks to its own offset again, which changes nothing.\<close>

lemma iter_copy_ok:
  assumes "heap_ok h" and "segs_ok h ps" and "iter_ok ps it"
  shows "ioff it + len \<le> total_len ps \<Longrightarrow>
      \<exists>it'. iter_copy h ps len it = Inr (take len (drop (ioff it) (concat (map (bytes h) ps))), it') \<and>
        iter_ok ps it' \<and> ioff it' = ioff it + len"
    and "total_len ps < ioff it + len \<Longrightarrow> iter_copy h ps len it = Inl End_of_buffer"
proof -
  obtain it0 where it0: "(if iter_end ps it then seek ps (ioff it) else Inr it) = Inr it0"
    "iter_ok ps it0" "ioff it0 = ioff it"
    using seek_ok [OF assms(2) iter_ok_le [OF assms(3)]] assms(3) by (cases "iter_end ps it") auto
  show "ioff it + len \<le> total_len ps \<Longrightarrow>
      \<exists>it'. iter_copy h ps len it = Inr (take len (drop (ioff it) (concat (map (bytes h) ps))), it') \<and>
        iter_ok ps it' \<and> ioff it' = ioff it + len"
    using copy_loop_ok [OF assms(1,2) it0(2)] it0 by (simp add: iter_copy_def)
  show "total_len ps < ioff it + len \<Longrightarrow> iter_copy h ps len it = Inl End_of_buffer"
    using copy_loop_error [OF assms(1,2) it0(2)] it0 by (simp add: iter_copy_def)
qed

section \<open>The interface of a byte source\<close>

locale byte_source =
  fixes copy :: "nat \<Rightarrow> 'it \<Rightarrow> buf_error + byte list \<times> 'it"
    and rest :: "'it \<Rightarrow> byte list"
    and valid :: "'it \<Rightarrow> bool"
  assumes copy_ok: "valid it \<Longrightarrow> n \<le> length (rest it) \<Longrightarrow>
      \<exists>it'. copy n it = Inr (take n (rest it), it') \<and> valid it' \<and> rest it' = drop n (rest it)"
    and copy_short: "valid it \<Longrightarrow> length (rest it) < n \<Longrightarrow> copy n it = Inl End_of_buffer"
begin

text \<open>Reading a string that was put in front of others gives it back and leaves the others.\<close>

lemma copy_append:
  assumes "valid it" and "rest it = xs @ ys"
  shows "\<exists>it'. copy (length xs) it = Inr (xs, it') \<and> valid it' \<and> rest it' = ys"
  using copy_ok [OF assms(1), of "length xs"] assms(2) by simp

lemma copy_result:
  assumes "valid it" and "copy n it = Inr (bs, it')"
  shows "valid it' \<and> length bs = n \<and> rest it = bs @ rest it'"
proof (cases "n \<le> length (rest it)")
  case True
  then show ?thesis using copy_ok [OF assms(1) True] assms(2) by auto
next
  case False
  then show ?thesis using copy_short [OF assms(1)] assms(2) by simp
qed

end

text \<open>An iterator over the windows \<open>ps\<close> in the heap \<open>h\<close>.\<close>

definition iter_rest :: "heap \<Rightarrow> bptr list \<Rightarrow> iter \<Rightarrow> byte list" where
  "iter_rest h ps it = drop (ioff it) (concat (map (bytes h) ps))"

definition iter_valid :: "heap \<Rightarrow> bptr list \<Rightarrow> iter \<Rightarrow> bool" where
  "iter_valid h ps it \<longleftrightarrow> heap_ok h \<and> segs_ok h ps \<and> iter_ok ps it"

interpretation bl_iter: byte_source "iter_copy h ps" "iter_rest h ps" "iter_valid h ps" for h ps
proof
  fix it n
  assume v: "iter_valid h ps it" and n: "n \<le> length (iter_rest h ps it)"
  have ok: "heap_ok h" "segs_ok h ps" "iter_ok ps it" using v by (simp_all add: iter_valid_def)
  have "ioff it + n \<le> total_len ps"
    using n iter_ok_le [OF ok(3)] by (simp add: iter_rest_def length_concat_bytes [OF ok(2)])
  from iter_copy_ok(1) [OF ok this]
  show "\<exists>it'. iter_copy h ps n it = Inr (take n (iter_rest h ps it), it') \<and> iter_valid h ps it' \<and>
      iter_rest h ps it' = drop n (iter_rest h ps it)"
    using ok by (auto simp: iter_rest_def iter_valid_def add.commute)
next
  fix it n
  assume v: "iter_valid h ps it" and n: "length (iter_rest h ps it) < n"
  have ok: "heap_ok h" "segs_ok h ps" "iter_ok ps it" using v by (simp_all add: iter_valid_def)
  have "total_len ps < ioff it + n"
    using n iter_ok_le [OF ok(3)] by (simp add: iter_rest_def length_concat_bytes [OF ok(2)])
  then show "iter_copy h ps n it = Inl End_of_buffer" by (rule iter_copy_ok(2) [OF ok])
qed

lemma bl_copy_out_eq:
  assumes "list_ok h bl" and "off + len < 2 ^ 32"
  shows "bl_copy_out h bl off len =
    (if off + len \<le> blen bl then Inr (take len (drop off (contents h bl))) else Inl End_of_buffer)"
proof (cases "off + len \<le> blen bl")
  case True
  have ok: "heap_ok h" "segs_ok h (buffers bl)" "blen bl = total_len (buffers bl)"
    using assms(1) by (simp_all add: list_ok_def)
  obtain it where it: "seek (buffers bl) off = Inr it" "iter_ok (buffers bl) it" "ioff it = off"
    using seek_ok [OF ok(2), of off] True ok(3) by auto
  from iter_copy_ok(1) [OF ok(1,2) it(2), of len] show ?thesis
    using True it ok(3) assms(2) by (auto simp: bl_copy_out_def contents_def)
qed (use assms(2) in \<open>simp add: bl_copy_out_def\<close>)

end
