(* ===== verification/Armor.thy ===== *)
theory Armor
  imports Msgr_Prelude
begin

unbundle bit_operations_syntax

text \<open>
  The base64 armouring of \<^verbatim>\<open>src/src/armor.c\<close>.  The destination area is the list of the
  bytes written so far together with the capacity \<^verbatim>\<open>dst_end - dst\<close> it started with; a
  routine returns the C return value (a length, or a negative errno) and what it wrote.
  The theory shows when each routine fails, that it never writes past the end of the
  destination, and that decoding inverts encoding, with and without line breaks.
\<close>

section \<open>Characters\<close>

definition EINVAL :: int where "EINVAL = 22"
definition ERANGE :: int where "ERANGE = 34"

definition pem_key :: "byte list" where
  "pem_key = map (of_nat \<circ> of_char)
     ''ABCDEFGHIJKLMNOPQRSTUVWXYZabcdefghijklmnopqrstuvwxyz0123456789+/''"

definition encode_bits :: "byte \<Rightarrow> byte" where
  "encode_bits c = pem_key ! unat c"

definition decode_bits :: "byte \<Rightarrow> int" where
  "decode_bits c =
     (if 0x41 \<le> c \<and> c \<le> 0x5A then uint c - 0x41
      else if 0x61 \<le> c \<and> c \<le> 0x7A then uint c - 0x61 + 26
      else if 0x30 \<le> c \<and> c \<le> 0x39 then uint c - 0x30 + 52
      else if c = 0x2B \<or> c = 0x2D then 62
      else if c = 0x2F \<or> c = 0x5F then 63
      else if c = 0x3D then 0
      else - EINVAL)"

section \<open>Writing to the destination\<close>

definition set_str_val :: "nat \<Rightarrow> byte list \<Rightarrow> byte \<Rightarrow> int \<times> byte list" where
  "set_str_val cap dst c = (if length dst < cap then (0, dst @ [c]) else (- ERANGE, dst))"

text \<open>
  A run of \<^verbatim>\<open>SET_DST\<close> macros: each returns from the enclosing function when the write
  fails (\<open>Inl\<close>, with what was written until then).
\<close>

fun SET_DST :: "nat \<Rightarrow> byte list \<Rightarrow> byte list \<Rightarrow> (int \<times> byte list) + byte list" where
  "SET_DST cap [] dst = Inr dst"
| "SET_DST cap (c # cs) dst =
     (let (ret, dst) = set_str_val cap dst c
      in if ret < 0 then Inl (ret, dst) else SET_DST cap cs dst)"

section \<open>Encoding\<close>

text \<open>
  The four characters one round of the loop writes for the byte \<open>a\<close> it read and the bytes
  that follow it, and the source bytes that are left.
\<close>

fun armor_quad :: "byte \<Rightarrow> byte list \<Rightarrow> byte list \<times> byte list" where
  "armor_quad a [] =
     ([encode_bits (drop_bit 2 a), encode_bits (push_bit 4 (a AND 3)), 0x3D, 0x3D], [])"
| "armor_quad a [b] =
     ([encode_bits (drop_bit 2 a), encode_bits (push_bit 4 (a AND 3) OR drop_bit 4 b),
       encode_bits (push_bit 2 (b AND 15)), 0x3D], [])"
| "armor_quad a (b # c # src) =
     ([encode_bits (drop_bit 2 a), encode_bits (push_bit 4 (a AND 3) OR drop_bit 4 b),
       encode_bits (push_bit 2 (b AND 15) OR drop_bit 6 c), encode_bits (c AND 63)], src)"

lemma armor_quad_shorter: "length (snd (armor_quad a src)) \<le> length src"
  by (cases "(a, src)" rule: armor_quad.cases) simp_all

function armor_loop ::
  "nat \<Rightarrow> int \<Rightarrow> byte list \<Rightarrow> int \<Rightarrow> int \<Rightarrow> byte list \<Rightarrow> int \<times> byte list" where
  "armor_loop cap line_width [] olen line dst = (olen, dst)"
| "armor_loop cap line_width (a # src) olen line dst =
     (let (quad, src') = armor_quad a src
      in case SET_DST cap quad dst of
           Inl r \<Rightarrow> r
         | Inr dst \<Rightarrow>
             (let olen = olen + 4; line = line + 4
              in if line_width \<noteq> 0 \<and> line = line_width
                 then (case SET_DST cap [0x0A] dst of
                         Inl r \<Rightarrow> r
                       | Inr dst \<Rightarrow> armor_loop cap line_width src' (olen + 1) 0 dst)
                 else armor_loop cap line_width src' olen line dst))"
  by pat_completeness auto
termination
proof (relation "measure (\<lambda>(cap, lw, src, olen, line, dst). length src)", goal_cases)
  case (2 _ _ a src)
  with armor_quad_shorter [of a src] show ?case by (auto simp: le_imp_less_Suc dest!: sym [of "(_, _)"])
next
  case (3 _ _ a src)
  with armor_quad_shorter [of a src] show ?case by (auto simp: le_imp_less_Suc dest!: sym [of "(_, _)"])
qed simp

definition armor_line_break :: "nat \<Rightarrow> byte list \<Rightarrow> int \<Rightarrow> int \<times> byte list" where
  "armor_line_break cap src line_width = armor_loop cap line_width src 0 0 []"

definition armor :: "nat \<Rightarrow> byte list \<Rightarrow> int \<times> byte list" where
  "armor cap src = armor_line_break cap src 0"

section \<open>Decoding\<close>

definition char_of_int :: "int \<Rightarrow> byte" where
  "char_of_int i = word_of_int i"

text \<open>
  One group of four characters: the return from the function on an error or on padding
  (\<open>Inl\<close>), or the destination after three more bytes.
\<close>

definition unarmor_group ::
  "nat \<Rightarrow> byte \<Rightarrow> byte \<Rightarrow> byte \<Rightarrow> byte \<Rightarrow> int \<Rightarrow> byte list \<Rightarrow> (int \<times> byte list) + byte list" where
  "unarmor_group cap s0 s1 s2 s3 olen dst =
     (let a = decode_bits s0; b = decode_bits s1; c = decode_bits s2; d = decode_bits s3
      in if a < 0 \<or> b < 0 \<or> c < 0 \<or> d < 0 then Inl (- EINVAL, dst)
         else case SET_DST cap [char_of_int (push_bit 2 a OR drop_bit 4 b)] dst of
           Inl r \<Rightarrow> Inl r
         | Inr dst \<Rightarrow>
             if s2 = 0x3D then Inl (olen + 1, dst)
             else case SET_DST cap [char_of_int (push_bit 4 (b AND 15) OR drop_bit 2 c)] dst of
               Inl r \<Rightarrow> Inl r
             | Inr dst \<Rightarrow>
                 if s3 = 0x3D then Inl (olen + 2, dst)
                 else SET_DST cap [char_of_int (push_bit 6 (c AND 3) OR d)] dst)"

fun unarmor_loop :: "nat \<Rightarrow> byte list \<Rightarrow> int \<Rightarrow> byte list \<Rightarrow> int \<times> byte list" where
  "unarmor_loop cap [] olen dst = (olen, dst)"
| "unarmor_loop cap (s0 # src) olen dst =
     (if s0 = 0x0A then unarmor_loop cap src olen dst
      else case src of
        s1 # s2 # s3 # src' \<Rightarrow>
          (case unarmor_group cap s0 s1 s2 s3 olen dst of
             Inl r \<Rightarrow> r
           | Inr dst \<Rightarrow> unarmor_loop cap src' (olen + 3) dst)
      | _ \<Rightarrow> (- EINVAL, dst))"

definition unarmor :: "nat \<Rightarrow> byte list \<Rightarrow> int \<times> byte list" where
  "unarmor cap src = unarmor_loop cap src 0 []"

section \<open>Facts\<close>

lemma SET_DST_eq:
  "SET_DST cap cs dst =
     (if length dst + length cs \<le> cap \<or> cs = [] then Inr (dst @ cs)
      else Inl (- ERANGE, dst @ take (cap - length dst) cs))"
  by (induction cs arbitrary: dst) (auto simp: set_str_val_def ERANGE_def Suc_diff_le Suc_le_eq take_Cons')

lemma length_pem_key: "length pem_key = 64"
  by (simp add: pem_key_def)

lemma decode_pem_key: "map decode_bits pem_key = map int [0..<64]"
  by (simp add: pem_key_def decode_bits_def upt_rec)

lemma pem_key_not_special: "0x3D \<notin> set pem_key" "0x0A \<notin> set pem_key"
  by (simp_all add: pem_key_def)

lemma decode_encode_bits:
  assumes "c < 64"
  shows "decode_bits (encode_bits c) = uint c"
    and "encode_bits c \<noteq> 0x3D" "encode_bits c \<noteq> 0x0A"
proof -
  have c: "unat c < 64" using assms by (simp add: word_less_nat_alt)
  have "decode_bits (encode_bits c) = map decode_bits pem_key ! unat c"
    using c by (simp add: encode_bits_def length_pem_key)
  then show "decode_bits (encode_bits c) = uint c"
    using c by (simp add: decode_pem_key del: upt_Suc)
  have "encode_bits c \<in> set pem_key"
    using c by (simp add: encode_bits_def length_pem_key)
  then show "encode_bits c \<noteq> 0x3D" "encode_bits c \<noteq> 0x0A"
    using pem_key_not_special by auto
qed

subsection \<open>Bits\<close>

lemma low_bits: 
  "a AND 3 = take_bit 2 a" "a AND 15 = take_bit 4 a" "a AND 63 = take_bit 6 a" for a :: byte
  by (simp_all add: take_bit_eq_mask mask_eq_exp_minus_1)

lemma low_bits_int:
  "i AND 3 = take_bit 2 i" "i AND 15 = take_bit 4 i" for i :: int
  by (simp_all add: take_bit_eq_mask mask_eq_exp_minus_1)

lemma sextet_bound:
  fixes w :: byte
  assumes "\<And>n. 6 \<le> n \<Longrightarrow> \<not> bit w n"
  shows "w < 64"
proof -
  have "take_bit 6 w = w"
    by (rule bit_word_eqI) (use assms in \<open>auto simp: bit_simps not_less intro: leI\<close>)
  then have "unat w = take_bit 6 (unat w)"
    by (metis unsigned_take_bit_eq)
  also have "\<dots> < 2 ^ 6" by (rule take_bit_nat_less_exp)
  finally show ?thesis by (simp add: word_less_nat_alt)
qed

lemma sextets:
  fixes a b c :: byte
  shows "drop_bit 2 a < 64" "push_bit 4 (a AND 3) < 64"
    "push_bit 4 (a AND 3) OR drop_bit 4 b < 64" "push_bit 2 (b AND 15) < 64"
    "push_bit 2 (b AND 15) OR drop_bit 6 c < 64" "c AND 63 < 64"
  by (rule sextet_bound; auto simp: low_bits bit_simps dest: bit_imp_le_length)+

lemmas decode_sextet = decode_encode_bits [OF sextets(1)] decode_encode_bits [OF sextets(2)]
  decode_encode_bits [OF sextets(3)] decode_encode_bits [OF sextets(4)]
  decode_encode_bits [OF sextets(5)] decode_encode_bits [OF sextets(6)]

lemma byte_bits_eqI:
  fixes x y :: byte
  assumes "bit x 0 = bit y 0" "bit x 1 = bit y 1" "bit x 2 = bit y 2" "bit x 3 = bit y 3"
    "bit x 4 = bit y 4" "bit x 5 = bit y 5" "bit x 6 = bit y 6" "bit x 7 = bit y 7"
  shows "x = y"
proof (rule bit_word_eqI)
  fix n assume "n < LENGTH(8)"
  then have "n = 0 \<or> n = 1 \<or> n = 2 \<or> n = 3 \<or> n = 4 \<or> n = 5 \<or> n = 6 \<or> n = 7" by auto
  then show "bit x n = bit y n" using assms by blast
qed

lemma no_bit_byte: "8 \<le> n \<Longrightarrow> \<not> bit (b :: byte) n"
  by (auto dest: bit_imp_le_length)

lemma recombine:
  fixes a b c :: byte
  shows "char_of_int (push_bit 2 (uint (drop_bit 2 a)) OR drop_bit 4 (uint (push_bit 4 (a AND 3) OR drop_bit 4 b))) = a"
    and "char_of_int (push_bit 2 (uint (drop_bit 2 a)) OR drop_bit 4 (uint (push_bit 4 (a AND 3)))) = a"
    and "char_of_int (push_bit 4 (uint (push_bit 4 (a AND 3) OR drop_bit 4 b) AND 15)
           OR drop_bit 2 (uint (push_bit 2 (b AND 15) OR drop_bit 6 c))) = b"
    and "char_of_int (push_bit 4 (uint (push_bit 4 (a AND 3) OR drop_bit 4 b) AND 15)
           OR drop_bit 2 (uint (push_bit 2 (b AND 15)))) = b"
    and "char_of_int (push_bit 6 (uint (push_bit 2 (b AND 15) OR drop_bit 6 c) AND 3) OR uint (c AND 63)) = c"
  by (rule byte_bits_eqI; simp add: char_of_int_def low_bits low_bits_int bit_simps no_bit_byte)+

subsection \<open>The encoded text\<close>

text \<open>What the encoder writes when the destination is large enough.\<close>

function armor_text :: "int \<Rightarrow> int \<Rightarrow> byte list \<Rightarrow> byte list" where
  "armor_text line_width line [] = []"
| "armor_text line_width line (a # src) =
     (let (quad, src') = armor_quad a src
      in quad @ (if line_width \<noteq> 0 \<and> line + 4 = line_width
                 then 0x0A # armor_text line_width 0 src'
                 else armor_text line_width (line + 4) src'))"
  by pat_completeness auto
termination
proof (relation "measure (\<lambda>(lw, line, src). length src)", goal_cases)
  case (2 _ _ a src)
  with armor_quad_shorter [of a src] show ?case by (auto simp: le_imp_less_Suc dest!: sym [of "(_, _)"])
next
  case (3 _ _ a src)
  with armor_quad_shorter [of a src] show ?case by (auto simp: le_imp_less_Suc dest!: sym [of "(_, _)"])
qed simp

lemma length_armor_quad: "length (fst (armor_quad a src)) = 4"
  by (cases "(a, src)" rule: armor_quad.cases) simp_all

lemma armor_loop_eq:
  assumes "length dst \<le> cap"
  shows "armor_loop cap line_width src olen line dst =
    (let text = armor_text line_width line src
     in if length dst + length text \<le> cap then (olen + int (length text), dst @ text)
        else (- ERANGE, take cap (dst @ text)))"
  using assms
proof (induction cap line_width src olen line dst rule: armor_loop.induct)
  case (2 cap line_width a src olen line dst)
  obtain quad src' where q: "armor_quad a src = (quad, src')" by (cases "armor_quad a src")
  have l: "length quad = 4" "quad \<noteq> []" using length_armor_quad [of a src] q by auto
  define brk where "brk \<longleftrightarrow> line_width \<noteq> 0 \<and> line + 4 = line_width"
  note IH = "2.IH" [OF q [symmetric] refl _ refl refl, folded brk_def]
  have loop: "armor_loop cap line_width (a # src) olen line dst =
      (case SET_DST cap quad dst of Inl r \<Rightarrow> r
       | Inr dst \<Rightarrow> if brk then (case SET_DST cap [0x0A] dst of Inl r \<Rightarrow> r
           | Inr dst \<Rightarrow> armor_loop cap line_width src' (olen + 4 + 1) 0 dst)
         else armor_loop cap line_width src' (olen + 4) (line + 4) dst)"
    unfolding armor_loop.simps q prod.case Let_def brk_def by (rule refl)
  have enc: "armor_text line_width line (a # src) =
      quad @ (if brk then 0x0A # armor_text line_width 0 src' else armor_text line_width (line + 4) src')"
    by (simp add: q Let_def brk_def)
  consider "\<not> length dst + 4 \<le> cap" | "length dst + 4 \<le> cap" "\<not> brk"
    | "length dst + 4 = cap" "brk" | "length dst + 5 \<le> cap" "brk" by linarith
  then show ?case
  proof cases
    case 1
    then show ?thesis unfolding loop enc
      using "2.prems" by (simp add: SET_DST_eq l Let_def)
  next
    case 2
    then show ?thesis unfolding loop enc
      using IH(2) [of "dst @ quad"] by (simp add: SET_DST_eq l Let_def ac_simps)
  next
    case 3
    then show ?thesis unfolding loop enc by (simp add: SET_DST_eq l Let_def)
  next
    case 4
    then show ?thesis unfolding loop enc
      using IH(1) [of "dst @ quad" "dst @ quad @ [0x0A]"] by (simp add: SET_DST_eq l Let_def ac_simps)
  qed
qed simp

lemma decode_bits_pad: "decode_bits 0x3D = 0"
  by (simp add: decode_bits_def)

lemma unarmor_quad:
  assumes "armor_quad a src = (quad, src')" and "length dst + length (a # src) \<le> cap"
  shows "unarmor_loop cap (quad @ text) olen dst =
    (if src' = [] \<and> length src < 2 then (olen + int (length (a # src)), dst @ a # src)
     else unarmor_loop cap text (olen + 3) (dst @ take 3 (a # src)))"
  using assms
  by (cases "(a, src)" rule: armor_quad.cases)
    (auto simp: unarmor_group_def Let_def SET_DST_eq decode_sextet decode_bits_pad recombine simp del: push_bit_and)

lemma armor_quad_rest: "snd (armor_quad a src) = drop 2 src"
  by (cases "(a, src)" rule: armor_quad.cases) simp_all

lemma unarmor_newline: "unarmor_loop cap (0x0A # text) olen dst = unarmor_loop cap text olen dst"
  by simp

lemma unarmor_armor_text:
  "length dst + length src \<le> cap \<Longrightarrow>
     unarmor_loop cap (armor_text line_width line src) olen dst = (olen + int (length src), dst @ src)"
proof (induction line_width line src arbitrary: olen dst rule: armor_text.induct)
  case (2 line_width line a src)
  obtain quad src' where q: "armor_quad a src = (quad, src')" by (cases "armor_quad a src")
  have src': "src' = drop 2 src" using armor_quad_rest [of a src] q by simp
  show ?case
  proof (cases "length src < 2")
    case True
    with q src' "2.prems" show ?thesis by (simp add: unarmor_quad)
  next
    case False
    then have len: "length src = 2 + length src'" and src: "take 2 src @ src' = src"
      using src' by simp_all
    have fits: "length (dst @ a # take 2 src) + length src' \<le> cap"
      using "2.prems" len False by simp
    note IH = "2.IH"(1) [OF q [symmetric] refl _ fits] "2.IH"(2) [OF q [symmetric] refl _ fits]
    have quad: "unarmor_loop cap (quad @ t) olen dst =
        unarmor_loop cap t (olen + 3) (dst @ a # take 2 src)" for t
      using unarmor_quad [OF q, of dst cap t olen] "2.prems" False by simp
    show ?thesis
      using IH [of "olen + 3"] len src
      by (cases "line_width \<noteq> 0 \<and> line + 4 = line_width")
        (auto simp: q quad unarmor_newline Let_def simp del: unarmor_loop.simps)
  qed
qed simp

text \<open>The decoder stays inside the destination and reports how much it wrote.\<close>

lemma unarmor_group_bounds:
  assumes "length dst \<le> cap"
  shows "case unarmor_group cap s0 s1 s2 s3 olen dst of
      Inl (r, dst') \<Rightarrow> length dst' \<le> cap \<and> (r < 0 \<or> r - olen = int (length dst') - int (length dst))
    | Inr dst' \<Rightarrow> length dst' \<le> cap \<and> length dst' = length dst + 3"
  using assms by (auto simp: unarmor_group_def Let_def SET_DST_eq EINVAL_def ERANGE_def)

lemma unarmor_loop_bounds:
  assumes "unarmor_loop cap src olen dst = (r, dst')" and "length dst \<le> cap"
  shows "length dst' \<le> cap \<and> (r < 0 \<or> r - olen = int (length dst') - int (length dst))"
  using assms
proof (induction cap src olen dst rule: unarmor_loop.induct)
  case (2 cap s0 src olen dst)
  show ?case
  proof (cases "s0 = 0x0A \<or> length src < 3")
    case True
    then show ?thesis
    proof
      assume "s0 = 0x0A"
      with 2 show ?thesis by simp
    next
      assume short: "length src < 3"
      show ?thesis
      proof (cases "s0 = 0x0A")
        case True
        with 2 show ?thesis by simp
      next
        case False
        with short "2.prems" show ?thesis
          by (cases src rule: remdups_adj.cases) (auto simp: EINVAL_def split: list.splits)
      qed
    qed
  next
    case False
    then obtain s1 s2 s3 src' where src: "src = s1 # s2 # s3 # src'"
      by (auto simp: not_less numeral_eq_Suc Suc_le_length_iff)
    note bounds = unarmor_group_bounds [OF "2.prems"(2), where ?s0.0 = s0 and ?s1.0 = s1 and ?s2.0 = s2 and ?s3.0 = s3 and olen = olen]
    show ?thesis
    proof (cases "unarmor_group cap s0 s1 s2 s3 olen dst")
      case (Inl p)
      with bounds src False "2.prems"(1) show ?thesis by simp
    next
      case (Inr d)
      have ret: "unarmor_loop cap src' (olen + 3) d = (r, dst')"
        using "2.prems"(1) src False Inr by simp
      have d: "length d \<le> cap" "length d = length dst + 3" using bounds Inr by simp_all
      from False have "s0 \<noteq> 0x0A" by simp
      from "2.IH"(2) [OF this src refl refl Inr ret d(1)] d(2) show ?thesis by auto
    qed
  qed
qed simp

section \<open>Properties\<close>



text \<open>
  the encoder succeeds exactly when the text fits into the destination, then writes the
  whole text and returns its length; otherwise it returns \<open>-ERANGE\<close> and has filled the
  destination with the part of the text that fits, never a byte more.
\<close>

theorem armor_line_break_result:
  "armor_line_break cap src line_width =
     (let enc = armor_text line_width 0 src
      in if length enc \<le> cap then (int (length enc), enc) else (- ERANGE, take cap enc))"
  by (simp add: armor_line_break_def armor_loop_eq Let_def)

text \<open>
  The decoder never writes past the end of the destination, whatever text it is given;
  a non-negative result is the number of bytes it wrote.
\<close>

theorem unarmor_stays_in_bounds:
  "length (snd (unarmor cap src)) \<le> cap \<and>
   (fst (unarmor cap src) < 0 \<or> fst (unarmor cap src) = int (length (snd (unarmor cap src))))"
  using unarmor_loop_bounds [of cap src 0 "[]"] by (cases "unarmor cap src") (auto simp: unarmor_def)

end
