(* ===== verification/Buffer_Ops.thy ===== *)
theory Buffer_Ops
  imports Buffer_Iter Crc32c Armor
begin

text \<open>
  The remaining operations of \<^verbatim>\<open>buffer::list\<close> (\<^verbatim>\<open>src/src/buffer.cc\<close>): making it contiguous, comparing,
  clearing, checksums and base64, and the properties of buffer lists as a whole.
\<close>

section \<open>Operations\<close>

text \<open>\<^verbatim>\<open>rebuild(nb)\<close>: copy all windows into \<open>nb\<close>.\<close>

fun rebuild_loop :: "bptr list \<Rightarrow> bptr \<Rightarrow> nat \<Rightarrow> heap \<Rightarrow> buf_error + nat \<times> heap" where
  "rebuild_loop [] nb pos h = Inr (pos, h)"
| "rebuild_loop (p # ps) nb pos h =
     (case ptr_copy_in nb pos (bytes h p) h of
        Inl e \<Rightarrow> Inl e
      | Inr h \<Rightarrow> rebuild_loop ps nb (pos + plen p) h)"

definition rebuild_into :: "bptr \<Rightarrow> blist \<Rightarrow> heap \<Rightarrow> buf_error + blist \<times> heap" where
  "rebuild_into nb bl h =
     (case rebuild_loop (buffers bl) nb 0 h of
        Inl e \<Rightarrow> Inl e
      | Inr (pos, h) \<Rightarrow>
          Inr (bl\<lparr>memcopy_count := w32 (memcopy_count bl + pos),
                  buffers := (if plen nb \<noteq> 0 then [nb] else [])\<rparr>, h))"

definition rebuild :: "blist \<Rightarrow> heap \<Rightarrow> buf_error + blist \<times> heap" where
  "rebuild bl h =
     (if blen bl = 0 then Inr (bl\<lparr>buffers := []\<rparr>, h)
      else (case (if blen bl mod MSGR_PAGE_SIZE = 0 then create_page_aligned (blen bl) h
                  else Inr (create (blen bl) h)) of
              Inl e \<Rightarrow> Inl e
            | Inr (a, h) \<Rightarrow> rebuild_into (ptr_of_raw a h) bl h))"

text \<open>\<^verbatim>\<open>c_str()\<close>: the bytes of the first window after making the list contiguous (null is \<open>[]\<close>).\<close>

definition bl_c_str :: "blist \<Rightarrow> heap \<Rightarrow> buf_error + byte list \<times> blist \<times> heap" where
  "bl_c_str bl h =
     (if buffers bl = [] then Inr ([], bl, h)
      else (case (if length (buffers bl) \<noteq> 1 then rebuild bl h else Inr (bl, h)) of
              Inl e \<Rightarrow> Inl e
            | Inr (bl, h) \<Rightarrow> Inr (ptr_c_str h (hd (buffers bl)), bl, h)))"

fun nth_loop :: "heap \<Rightarrow> nat \<Rightarrow> bptr list \<Rightarrow> buf_error + byte" where
  "nth_loop h n [] = Inl Assertion_failed"
| "nth_loop h n (p # ps) = (if n \<ge> plen p then nth_loop h (n - plen p) ps else ptr_nth h p n)"

definition bl_nth :: "heap \<Rightarrow> blist \<Rightarrow> nat \<Rightarrow> buf_error + byte" where
  "bl_nth h bl n = (if n \<ge> blen bl then Inl End_of_buffer else nth_loop h n (buffers bl))"

definition bl_is_zero :: "heap \<Rightarrow> blist \<Rightarrow> bool" where
  "bl_is_zero h bl = list_all (ptr_is_zero h) (buffers bl)"

text \<open>The loop of \<^verbatim>\<open>contents_equal\<close> with its two cursors.\<close>

function equal_loop :: "heap \<Rightarrow> bptr list \<Rightarrow> nat \<Rightarrow> bptr list \<Rightarrow> nat \<Rightarrow> buf_error + bool" where
  "equal_loop h [] aoff bs boff = (if bs = [] then Inr True else Inl Assertion_failed)"
| "equal_loop h (a # as) aoff [] boff = Inl Assertion_failed"
| "equal_loop h (a # as) aoff (b # bs) boff =
     (let len = min (plen a - aoff) (plen b - boff)
      in if take len (drop aoff (bytes h a)) \<noteq> take len (drop boff (bytes h b)) then Inr False
         else if aoff + len = plen a then
                (if boff + len = plen b then equal_loop h as 0 bs 0
                 else equal_loop h as 0 (b # bs) (boff + len))
         else if boff + len = plen b then equal_loop h (a # as) (aoff + len) bs 0
         else Inl Stuck)"
  by pat_completeness auto
termination by (relation "measure (\<lambda>(h, as, aoff, bs, boff). length as + length bs)") auto

definition contents_equal :: "heap \<Rightarrow> blist \<Rightarrow> blist \<Rightarrow> buf_error + bool" where
  "contents_equal h bl other =
     (if blen bl \<noteq> blen other then Inr False else equal_loop h (buffers bl) 0 (buffers other) 0)"

text \<open>
  \<^verbatim>\<open>crc32c(crc)\<close> runs the checksum routine (the one \<^verbatim>\<open>msgr_choose_crc32\<close> picked) over the windows;
  \<open>addr\<close> is where the blocks are in memory.
\<close>

definition bl_crc32c :: "(u32 \<Rightarrow> cbuf \<Rightarrow> u32 \<Rightarrow> u32) \<Rightarrow> (nat \<Rightarrow> u64) \<Rightarrow> heap \<Rightarrow> blist \<Rightarrow> u32 \<Rightarrow> u32" where
  "bl_crc32c crc32c addr h bl crc =
     fold (\<lambda>p crc. if plen p \<noteq> 0
                   then crc32c crc (Buf (addr (the (praw p)) + of_nat (poff p)) (ptr_c_str h p)) (of_nat (plen p))
                   else crc) (buffers bl) crc"

definition encode_base64 :: "blist \<Rightarrow> blist \<Rightarrow> heap \<Rightarrow> buf_error + blist \<times> blist \<times> heap" where
  "encode_base64 bl o' h =
     (let cap = w32 (w32 (blen bl * 4) div 3 + 3);
          (a, h) = create cap h
      in case bl_c_str bl h of
           Inl e \<Rightarrow> Inl e
         | Inr (src, bl, h) \<Rightarrow>
             (let (l, out) = armor cap (take (blen bl) src);
                  h = poke a 0 out h
              in Inr (bl, push_back \<lparr>praw = Some a, poff = 0, plen = nat (l mod 2 ^ 32)\<rparr> o', h)))"

definition decode_base64 :: "blist \<Rightarrow> blist \<Rightarrow> heap \<Rightarrow> buf_error + blist \<times> blist \<times> heap" where
  "decode_base64 bl e h =
     (let cap = w32 (4 + w32 (blen e * 3) div 4);
          (a, h) = create cap h
      in case bl_c_str e h of
           Inl err \<Rightarrow> Inl err
         | Inr (src, e, h) \<Rightarrow>
             (let (l, out) = unarmor cap (take (blen e) src);
                  h = poke a 0 out h
              in if l < 0 then Inl Malformed_input
                 else if l > int cap then Inl Assertion_failed
                 else Inr (push_back \<lparr>praw = Some a, poff = 0, plen = nat l\<rparr> bl, e, h)))"

section \<open>Contiguous lists\<close>

lemma rebuild_loop_ok:
  assumes "heap_ok h" and "segs_ok h ps" and "\<forall>p \<in> set ps. praw p \<noteq> Some a"
    and "praw nb = Some a" and "ptr_ok h nb" and "pos + total_len ps \<le> plen nb"
  shows "\<exists>h'. rebuild_loop ps nb pos h = Inr (pos + total_len ps, h') \<and> heap_ok h' \<and>
    (\<forall>q. ptr_ok h q \<longrightarrow> ptr_ok h' q \<and> (praw q \<noteq> Some a \<longrightarrow> bytes h' q = bytes h q)) \<and>
    bytes h' nb = take pos (bytes h nb) @ concat (map (bytes h) ps) @ drop (pos + total_len ps) (bytes h nb)"
  using assms
proof (induction ps arbitrary: h pos)
  case (Cons p ps)
  note hok = Cons.prems(1) and nb = Cons.prems(4,5)
  have p: "ptr_ok h p" "segs_ok h ps" "praw p \<noteq> Some a" using Cons.prems(2,3) by simp_all
  have lp: "length (bytes h p) = plen p" using p(1) by (rule length_bytes)
  let ?h1 = "poke a (poff nb + pos) (bytes h p) h"
  have al: "a < length (raws h)" and room: "poff nb + pos + length (bytes h p) \<le> raw_len h a"
    using nb Cons.prems(6) lp by (auto simp: ptr_ok_def)
  have small: "pos + plen p < 2 ^ 32"
    using ptr_ok_bound [OF hok nb(2)] Cons.prems(6) by simp
  have run: "ptr_copy_in nb pos (bytes h p) h = Inr ?h1"
    using nb(1) Cons.prems(6) lp small by (simp add: ptr_copy_in_def)
  have h1: "heap_ok ?h1" "\<And>q. ptr_ok h q \<Longrightarrow> ptr_ok ?h1 q"
    "\<And>q. ptr_ok h q \<Longrightarrow> praw q \<noteq> Some a \<Longrightarrow> bytes ?h1 q = bytes h q"
    using poke_ok [OF room al] hok bytes_poke_disjoint [OF room al] by auto
  have b1: "bytes ?h1 nb = take pos (bytes h nb) @ bytes h p @ drop (pos + plen p) (bytes h nb)"
    using bytes_poke_inside [OF nb, of pos "bytes h p"] Cons.prems(6) lp by simp
  have segs1: "segs_ok ?h1 ps" using p(2) h1(2) by (simp add: segs_ok_def)
  have cong: "concat (map (bytes ?h1) ps) = concat (map (bytes h) ps)"
    using p(2) Cons.prems(3) h1(3) by (intro concat_bytes_cong) (auto simp: segs_ok_def)
  obtain h' where h': "rebuild_loop ps nb (pos + plen p) ?h1 = Inr (pos + plen p + total_len ps, h')"
    "heap_ok h'" "\<forall>q. ptr_ok ?h1 q \<longrightarrow> ptr_ok h' q \<and> (praw q \<noteq> Some a \<longrightarrow> bytes h' q = bytes ?h1 q)"
    "bytes h' nb = take (pos + plen p) (bytes ?h1 nb) @ concat (map (bytes ?h1) ps)
       @ drop (pos + plen p + total_len ps) (bytes ?h1 nb)"
    using Cons.IH [OF h1(1) segs1 _ nb(1) h1(2) [OF nb(2)], of "pos + plen p"] Cons.prems(3,6) by auto
  have lnb: "length (bytes h nb) = plen nb" using nb(2) by (rule length_bytes)
  have "bytes h' nb = take pos (bytes h nb) @ concat (map (bytes h) (p # ps))
      @ drop (pos + total_len (p # ps)) (bytes h nb)"
    unfolding h'(4) b1 cong using lnb lp Cons.prems(6) by (simp add: ac_simps)
  then show ?case using run h' h1 by (auto simp: add.assoc)
qed simp

lemma rebuild_ok:
  assumes ok: "list_ok h bl"
  shows "\<exists>bl' h'. rebuild bl h = Inr (bl', h') \<and> list_ok h' bl' \<and> contents h' bl' = contents h bl \<and>
    length (buffers bl') \<le> 1 \<and> append_buffer bl' = append_buffer bl \<and> blen bl' = blen bl \<and>
    (\<forall>q. ptr_ok h q \<longrightarrow> ptr_ok h' q \<and> bytes h' q = bytes h q) \<and> length (raws h) \<le> length (raws h')"
proof (cases "blen bl = 0")
  case True
  then have "buffers bl = []" using ok by (cases "buffers bl") (auto simp: list_ok_def)
  then show ?thesis using True ok by (simp add: rebuild_def contents_def list_ok_def tail_ok_def)
next
  case False
  have hok: "heap_ok h" and segs: "segs_ok h (buffers bl)" and tail: "tail_ok h bl"
    and bl: "blen bl = total_len (buffers bl)" "blen bl < 2 ^ 32"
    using ok by (simp_all add: list_ok_def)
  obtain k a h1 where new: "new_raw k (map (junk h) [0..<blen bl]) h = (a, h1)"
    "(if blen bl mod MSGR_PAGE_SIZE = 0 then create_page_aligned (blen bl) h
      else Inr (create (blen bl) h)) = Inr (a, h1)"
    using page_align_mask
    by (cases "blen bl mod MSGR_PAGE_SIZE = 0")
      (auto simp: create_page_aligned_def create_aligned_def create_def MSGR_PAGE_SIZE_def new_raw_def)
  note nk = new_raw_keeps [OF new(1)]
  have h1: "heap_ok h1" "raw_len h1 a = blen bl" "a < length (raws h1)"
    using new_raw_ok [OF new(1) hok] bl(2) by simp_all
  let ?nb = "\<lparr>praw = Some a, poff = 0, plen = blen bl\<rparr>"
  have nb: "ptr_of_raw a h1 = ?nb" "ptr_ok h1 ?nb" using h1 by (simp_all add: ptr_of_raw_def ptr_ok_def)
  have segs1: "segs_ok h1 (buffers bl)" "\<forall>p \<in> set (buffers bl). praw p \<noteq> Some a"
    using segs nk(1,3) by (auto simp: segs_ok_def)
  have cong: "concat (map (bytes h1) (buffers bl)) = contents h bl"
    unfolding contents_def using segs nk(2) by (intro concat_bytes_cong) (auto simp: segs_ok_def)
  obtain h' where h': "rebuild_loop (buffers bl) ?nb 0 h1 = Inr (0 + total_len (buffers bl), h')" "heap_ok h'"
    "\<forall>q. ptr_ok h1 q \<longrightarrow> ptr_ok h' q \<and> (praw q \<noteq> Some a \<longrightarrow> bytes h' q = bytes h1 q)"
    "bytes h' ?nb = take 0 (bytes h1 ?nb) @ concat (map (bytes h1) (buffers bl))
      @ drop (0 + total_len (buffers bl)) (bytes h1 ?nb)"
    using rebuild_loop_ok [OF h1(1) segs1 _ nb(2), of 0] bl(1) by auto
  let ?bl' = "bl\<lparr>memcopy_count := w32 (memcopy_count bl + blen bl), buffers := [?nb]\<rparr>"
  have run: "rebuild bl h = Inr (?bl', h')"
    using False new(2) nb(1) h'(1) bl(1) by (simp add: rebuild_def rebuild_into_def)
  have keep: "ptr_ok h' q \<and> bytes h' q = bytes h q" if "ptr_ok h q" for q
    using h'(3) nk [OF that] by auto
  have "bytes h' ?nb = contents h bl"
    using h'(4) cong length_bytes [OF nb(2)] bl(1) by simp
  moreover have "praw (append_buffer bl) \<noteq> Some a" using nk(3) tail by (simp add: tail_ok_def)
  moreover have "length (raws h) \<le> length (raws h')"
  proof -
    have "ptr_ok h1 \<lparr>praw = Some a, poff = 0, plen = 0\<rparr>" using h1 by (simp add: ptr_ok_def)
    then have "ptr_ok h' \<lparr>praw = Some a, poff = 0, plen = 0\<rparr>" using h'(3) by blast
    then have "a < length (raws h')" by (simp add: ptr_ok_def)
    then show ?thesis using new_raw_facts [OF new(1)] by simp
  qed
  ultimately show ?thesis
    using run keep tail ok h'(2,3) nb(2) False bl
    by (auto simp: list_ok_def tail_ok_def contents_def)
qed

lemma bl_c_str_ok:
  assumes ok: "list_ok h bl"
  shows "\<exists>src bl' h'. bl_c_str bl h = Inr (src, bl', h') \<and> take (blen bl') src = contents h bl \<and>
    list_ok h' bl' \<and> contents h' bl' = contents h bl \<and> blen bl' = blen bl \<and>
    append_buffer bl' = append_buffer bl \<and>
    (\<forall>q. ptr_ok h q \<longrightarrow> ptr_ok h' q \<and> bytes h' q = bytes h q) \<and> length (raws h) \<le> length (raws h')"
proof (cases "buffers bl = []")
  case True
  then show ?thesis using ok by (simp add: bl_c_str_def contents_def)
next
  case False
  obtain bl' h' where r: "(if length (buffers bl) \<noteq> 1 then rebuild bl h else Inr (bl, h)) = Inr (bl', h')"
    "list_ok h' bl'" "contents h' bl' = contents h bl" "length (buffers bl') \<le> 1" "blen bl' = blen bl"
    "append_buffer bl' = append_buffer bl"
    "\<forall>q. ptr_ok h q \<longrightarrow> ptr_ok h' q \<and> bytes h' q = bytes h q" "length (raws h) \<le> length (raws h')"
    using rebuild_ok [OF ok] ok by (cases "length (buffers bl) = 1") auto
  have "0 < blen bl" using False ok by (cases "buffers bl") (auto simp: list_ok_def)
  then obtain p where p: "buffers bl' = [p]"
    using r(2,4,5) by (cases "buffers bl'") (auto simp: list_ok_def)
  have "blen bl' = plen p" "contents h' bl' = bytes h' p"
    using r(2) p by (simp_all add: list_ok_def contents_def)
  then have "take (blen bl') (ptr_c_str h' p) = contents h bl" using r(3) by (simp add: bytes_def)
  then show ?thesis using False r p by (auto simp: bl_c_str_def)
qed

section \<open>Reading, comparing, checksums\<close>

lemma nth_loop_ok:
  "segs_ok h ps \<Longrightarrow> n < total_len ps \<Longrightarrow> nth_loop h n ps = Inr (concat (map (bytes h) ps) ! n)"
proof (induction ps arbitrary: n)
  case (Cons p ps)
  have p: "ptr_ok h p" "0 < plen p" "segs_ok h ps" using Cons.prems(1) by simp_all
  have lp: "length (bytes h p) = plen p" using p(1) by (rule length_bytes)
  show ?case
  proof (cases "n < plen p")
    case True
    then have "bytes h p ! n = ptr_c_str h p ! n" by (simp add: bytes_def)
    then show ?thesis using True lp segs_raw [OF p(1,2)] by (simp add: ptr_nth_def nth_append)
  next
    case False
    then show ?thesis using Cons.IH [OF p(3), of "n - plen p"] Cons.prems(2) lp by (simp add: nth_append)
  qed
qed simp

lemma bl_nth_eq:
  assumes "list_ok h bl"
  shows "bl_nth h bl n = (if n < blen bl then Inr (contents h bl ! n) else Inl End_of_buffer)"
  using nth_loop_ok [of h "buffers bl" n] assms by (simp add: bl_nth_def list_ok_def contents_def)

lemma bl_is_zero_eq:
  assumes "list_ok h bl"
  shows "bl_is_zero h bl \<longleftrightarrow> (\<forall>b \<in> set (contents h bl). b = 0)"
  by (simp add: bl_is_zero_def ptr_is_zero_def list_all_iff contents_def)

lemma append_eq_common:
  assumes "k \<le> length xs" and "k \<le> length ys"
  shows "xs @ us = ys @ vs \<longleftrightarrow> take k xs = take k ys \<and> drop k xs @ us = drop k ys @ vs"
proof -
  have "xs @ us = take k xs @ (drop k xs @ us)" "ys @ vs = take k ys @ (drop k ys @ vs)" by simp_all
  moreover have "length (take k xs) = length (take k ys)" using assms by simp
  ultimately show ?thesis by (metis append_eq_append_conv)
qed

declare equal_loop.simps [simp del]

lemma equal_loop_ok:
  assumes "segs_ok h as" and "segs_ok h bs"
    and "as \<noteq> [] \<longrightarrow> aoff < plen (hd as)" and "bs \<noteq> [] \<longrightarrow> boff < plen (hd bs)"
    and "as = [] \<longrightarrow> aoff = 0" and "bs = [] \<longrightarrow> boff = 0"
    and "total_len as - aoff = total_len bs - boff"
  shows "equal_loop h as aoff bs boff = Inr (drop aoff (concat (map (bytes h) as)) = drop boff (concat (map (bytes h) bs)))"
  using assms
proof (induction h as aoff bs boff rule: equal_loop.induct)
  case (1 h aoff bs boff)
  then show ?case by (cases bs) (auto simp: equal_loop.simps)
next
  case (3 h a as aoff b bs boff)
  define k where "k = min (plen a - aoff) (plen b - boff)"
  note IH = 3(1-3) [OF k_def] and prems = 3(4,5,10)
  let ?A = "concat (map (bytes h) as)" and ?B = "concat (map (bytes h) bs)"
  let ?xa = "drop aoff (bytes h a)" and ?xb = "drop boff (bytes h b)"
  have a: "length (bytes h a) = plen a" "aoff < plen a" and b: "length (bytes h b) = plen b" "boff < plen b"
    using 3(4-7) length_bytes by auto
  have k: "k \<le> length ?xa" "k \<le> length ?xb" "0 < k" using a b by (auto simp: k_def)
  have cases: "aoff + k = plen a \<and> boff + k = plen b \<or> aoff + k = plen a \<and> boff + k < plen b
      \<or> aoff + k < plen a \<and> boff + k = plen b"
    using a(2) b(2) by (auto simp: k_def)
  have split: "drop aoff (concat (map (bytes h) (a # as))) = drop boff (concat (map (bytes h) (b # bs))) \<longleftrightarrow>
      take k ?xa = take k ?xb \<and> drop k ?xa @ ?A = drop k ?xb @ ?B"
    using append_eq_common [OF k(1,2), of ?A ?B] a b by simp
  have run: "equal_loop h (a # as) aoff (b # bs) boff =
      (if take k ?xa \<noteq> take k ?xb then Inr False
       else if aoff + k = plen a then
              (if boff + k = plen b then equal_loop h as 0 bs 0 else equal_loop h as 0 (b # bs) (boff + k))
       else if boff + k = plen b then equal_loop h (a # as) (aoff + k) bs 0
       else Inl Stuck)"
    unfolding k_def by (simp only: equal_loop.simps(3) Let_def)
  have "ps \<noteq> [] \<longrightarrow> 0 < plen (hd ps)" if "segs_ok h ps" for ps using that by (cases ps) auto
  then have hd: "as \<noteq> [] \<longrightarrow> 0 < plen (hd as)" "bs \<noteq> [] \<longrightarrow> 0 < plen (hd bs)"
    using prems by simp_all
  show ?case
  proof (cases "take k ?xa = take k ?xb")
    case False
    then show ?thesis using split run by simp
  next
    case True
    from cases show ?thesis
    proof (elim disjE conjE)
      assume e: "aoff + k = plen a" "boff + k = plen b"
      then have "equal_loop h as 0 bs 0 = Inr (?A = ?B)" using IH(1) True hd prems by simp
      then show ?thesis using split run True e a b by simp
    next
      assume e: "aoff + k = plen a" "boff + k < plen b"
      then have "equal_loop h as 0 (b # bs) (boff + k) =
          Inr (?A = drop (boff + k) (concat (map (bytes h) (b # bs))))"
        using IH(2) True hd prems by simp
      then show ?thesis using split run True e a b by (simp add: add.commute)
    next
      assume e: "aoff + k < plen a" "boff + k = plen b"
      then have "equal_loop h (a # as) (aoff + k) bs 0 =
          Inr (drop (aoff + k) (concat (map (bytes h) (a # as))) = ?B)"
        using IH(3) True hd prems by simp
      then show ?thesis using split run True e a b by (simp add: add.commute)
    qed
  qed
qed (auto simp: equal_loop.simps)

lemma contents_equal_eq:
  assumes "list_ok h bl" and "list_ok h other"
  shows "contents_equal h bl other = Inr (contents h bl = contents h other)"
proof (cases "blen bl = blen other")
  case True
  have hd: "ps \<noteq> [] \<longrightarrow> 0 < plen (hd ps)" if "segs_ok h ps" for ps using that by (cases ps) auto
  show ?thesis
    using equal_loop_ok [of h "buffers bl" "buffers other" 0 0] assms True hd
    by (simp add: contents_equal_def list_ok_def contents_def)
next
  case False
  then show ?thesis
    using length_contents [OF assms(1)] length_contents [OF assms(2)] by (auto simp: contents_equal_def)
qed

text \<open>The checksum of a list is the checksum of its contents, however they are split up.\<close>

context crc32c_impl
begin

lemma crc_window:
  assumes "heap_ok h" and "ptr_ok h p"
  shows "crc c (Buf a (ptr_c_str h p)) (of_nat (plen p)) = crc32c_spec c (bytes h p)"
proof -
  have "plen p < 2 ^ 32" using ptr_ok_bound [OF assms] by simp
  then have "unat (of_nat (plen p) :: u32) = plen p" by (simp add: unat_of_nat)
  moreover have "plen p \<le> length (ptr_c_str h p)"
    using length_bytes [OF assms(2)] by (simp add: bytes_def)
  ultimately show ?thesis by (simp add: crc_buf bytes_def)
qed

lemma crc_list:
  assumes "list_ok h bl"
  shows "bl_crc32c crc addr h bl c = crc32c_spec c (contents h bl)"
proof -
  have "fold (\<lambda>p c. if plen p \<noteq> 0
        then crc c (Buf (addr (the (praw p)) + of_nat (poff p)) (ptr_c_str h p)) (of_nat (plen p)) else c) ps c
      = crc32c_spec c (concat (map (bytes h) ps))" if "segs_ok h ps" for ps c
    using that assms
    by (induction ps arbitrary: c) (simp_all add: crc_window list_ok_def crc32c_spec_append)
  then show ?thesis using assms by (simp add: bl_crc32c_def contents_def list_ok_def)
qed

end

section \<open>Base64\<close>

lemma armor_quad_lengths: "length (fst (armor_quad a src)) = 4" "length (snd (armor_quad a src)) = length src - 2"
  by (cases "(a, src)" rule: armor_quad.cases; simp)+

lemma length_armor_text: "length (armor_text 0 line src) = 4 * ((length src + 2) div 3)"
proof (induction "0 :: int" line src rule: armor_text.induct)
  case (2 line a src)
  obtain quad src' where q: "armor_quad a src = (quad, src')" by (metis surj_pair)
  have "length quad = 4" "length src' = length src - 2" using armor_quad_lengths [of a src] q by simp_all
  moreover have "length (armor_text 0 line (a # src)) = 4 + 4 * ((length src' + 2) div 3)"
    using 2 q calculation(1) by (simp add: Let_def)
  moreover have "4 + 4 * ((n - 2 + 2) div 3) = 4 * ((Suc n + 2) div 3)" for n :: nat
    by (cases "n < 2") (auto simp: less_2_cases_iff le_div_geq)
  ultimately show ?case by (simp only: length_Cons)
qed simp

lemma armor_fits:
  assumes "length src * 4 < 2 ^ 32"
  shows "armor (w32 (w32 (length src * 4) div 3 + 3)) src = (int (length (armor_text 0 0 src)), armor_text 0 0 src)"
proof -
  have w: "w32 (w32 (length src * 4) div 3 + 3) = length src * 4 div 3 + 3"
    using assms by (simp add: w32_def)
  have "length (armor_text 0 0 src) \<le> length src * 4 div 3 + 3" by (simp add: length_armor_text)
  then show ?thesis unfolding w armor_def by (simp add: armor_line_break_def armor_loop_eq Let_def)
qed

lemma poke_whole:
  assumes "a < length (raws h)" and "length bs \<le> raw_len h a"
  shows "bytes (poke a 0 bs h) \<lparr>praw = Some a, poff = 0, plen = length bs\<rparr> = bs"
  using assms by (simp add: bytes_def ptr_c_str_def rdata_poke)

text \<open>
  Both conversions take the same shape: a block is allocated, the source made contiguous,
  a routine fills the block and the part it filled is pushed to the destination.
\<close>

lemma fill_new_block:
  assumes ok: "list_ok h bl" and dst: "list_ok h dst" and cap: "cap < 2 ^ 32"
    and out: "length out \<le> cap" and fits: "blen dst + length out < 2 ^ 32"
    and new: "create cap h = (a, h1)" and cs: "bl_c_str bl h1 = Inr (src, bl', h2)"
  shows "list_ok (poke a 0 out h2) (push_back \<lparr>praw = Some a, poff = 0, plen = length out\<rparr> dst)"
    and "contents (poke a 0 out h2) (push_back \<lparr>praw = Some a, poff = 0, plen = length out\<rparr> dst)
      = contents h dst @ out"
    and "take (blen bl') src = contents h bl"
proof -
  have hok: "heap_ok h" using ok by (simp add: list_ok_def)
  have new': "new_raw Raw_char (map (junk h) [0..<cap]) h = (a, h1)" using new by (simp add: create_def)
  note k1 = new_raw_keeps [OF new'] and h1 = new_raw_ok [OF new' hok]
  have bl1: "list_ok h1 bl" "contents h1 bl = contents h bl"
  proof -
    show "contents h1 bl = contents h bl"
      unfolding contents_def using ok k1 by (intro concat_bytes_cong) (auto simp: list_ok_def segs_ok_def)
    show "list_ok h1 bl"
      using ok k1 h1 cap unfolding list_ok_def segs_ok_def tail_ok_def by simp
  qed
  obtain src' bl'' h2' where c: "bl_c_str bl h1 = Inr (src', bl'', h2')" "take (blen bl'') src' = contents h1 bl"
    "list_ok h2' bl''" "\<forall>q. ptr_ok h1 q \<longrightarrow> ptr_ok h2' q \<and> bytes h2' q = bytes h1 q"
    using bl_c_str_ok [OF bl1(1)] by blast
  then have same: "src' = src" "bl'' = bl'" "h2' = h2" using cs by simp_all
  show "take (blen bl') src = contents h bl" using c(2) bl1(2) same by simp
  let ?w = "\<lparr>praw = Some a, poff = 0, plen = cap\<rparr>"
  have "ptr_ok h1 ?w" using h1 cap by (simp add: ptr_ok_def)
  then have "ptr_ok h2 ?w" using c(4) same by simp
  then have al: "a < length (raws h2)" and room: "0 + length out \<le> raw_len h2 a"
    using out by (simp_all add: ptr_ok_def)
  let ?h3 = "poke a 0 out h2"
  have keep: "ptr_ok ?h3 q \<and> bytes ?h3 q = bytes h q \<and> praw q \<noteq> Some a" if "ptr_ok h q" for q
  proof -
    have "ptr_ok h1 q" "bytes h1 q = bytes h q" "praw q \<noteq> Some a" using k1 that by auto
    moreover from this have "ptr_ok h2 q" "bytes h2 q = bytes h1 q" using c(4) same by simp_all
    ultimately show ?thesis
      using poke_ok(2) [OF room al] bytes_poke_disjoint [OF room al] by simp
  qed
  have h3ok: "heap_ok ?h3" using poke_ok(1) [OF room al] c(3) same by (simp add: list_ok_def)
  have wout: "bytes ?h3 \<lparr>praw = Some a, poff = 0, plen = length out\<rparr> = out"
    using poke_whole [OF al] room by simp
  have cong: "concat (map (bytes ?h3) (buffers dst)) = contents h dst"
    unfolding contents_def using dst keep by (intro concat_bytes_cong) (auto simp: list_ok_def segs_ok_def)
  then show "contents ?h3 (push_back \<lparr>praw = Some a, poff = 0, plen = length out\<rparr> dst) = contents h dst @ out"
    using wout by (auto simp: push_back_def contents_def)
  have "ptr_ok ?h3 \<lparr>praw = Some a, poff = 0, plen = length out\<rparr>"
    using al room raw_len_poke [OF room al] by (simp add: ptr_ok_def)
  moreover have "praw (append_buffer dst) \<noteq> Some a"
    using keep dst by (simp add: list_ok_def tail_ok_def)
  ultimately show "list_ok ?h3 (push_back \<lparr>praw = Some a, poff = 0, plen = length out\<rparr> dst)"
    using dst keep h3ok fits unfolding list_ok_def segs_ok_def tail_ok_def by (auto simp: push_back_def)
qed

lemma list_ok_create:
  assumes "create cap h = (a, h1)" and "list_ok h bl" and "cap < 2 ^ 32"
  shows "list_ok h1 bl"
proof -
  have new: "new_raw Raw_char (map (junk h) [0..<cap]) h = (a, h1)" using assms(1) by (simp add: create_def)
  show ?thesis
    using new_raw_keeps [OF new] new_raw_ok(1) [OF new] assms(2,3)
    unfolding list_ok_def segs_ok_def tail_ok_def by simp
qed

lemma encode_base64_ok:
  assumes ok: "list_ok h bl" and o: "list_ok h o'" and small: "blen bl * 4 < 2 ^ 32"
    and fits: "blen o' + length (armor_text 0 0 (contents h bl)) < 2 ^ 32"
  shows "\<exists>bl' o'' h'. encode_base64 bl o' h = Inr (bl', o'', h') \<and> list_ok h' o'' \<and>
    contents h' o'' = contents h o' @ armor_text 0 0 (contents h bl)"
proof -
  let ?cap = "w32 (w32 (blen bl * 4) div 3 + 3)" and ?t = "armor_text 0 0 (contents h bl)"
  obtain a h1 where new: "create ?cap h = (a, h1)" by (metis surj_pair)
  have ar: "armor ?cap (contents h bl) = (int (length ?t), ?t)"
    using armor_fits [of "contents h bl"] small length_contents [OF ok] by simp
  have cap: "?cap < 2 ^ 32" "length ?t \<le> ?cap"
  proof -
    have "?cap = blen bl * 4 div 3 + 3" using small by (simp add: w32_def)
    then show "length ?t \<le> ?cap" by (simp add: length_armor_text length_contents [OF ok])
  qed simp
  have hok1: "list_ok h1 bl" using list_ok_create [OF new ok cap(1)] .
  obtain src bl' h2 where cs: "bl_c_str bl h1 = Inr (src, bl', h2)" using bl_c_str_ok [OF hok1] by blast
  note f = fill_new_block [OF ok o cap fits new cs]
  have "nat (int (length ?t) mod 2 ^ 32) = length ?t" using fits by (simp add: nat_mod_distrib)
  then show ?thesis using f ar by (auto simp: encode_base64_def new cs Let_def)
qed

lemma decode_base64_ok:
  assumes ok: "list_ok h e" and bl: "list_ok h bl" and small: "blen e * 3 < 2 ^ 32"
    and enc: "contents h e = armor_text 0 0 src" and fits: "blen bl + length src < 2 ^ 32"
  shows "\<exists>bl' e' h'. decode_base64 bl e h = Inr (bl', e', h') \<and> list_ok h' bl' \<and>
    contents h' bl' = contents h bl @ src"
proof -
  let ?cap = "w32 (4 + w32 (blen e * 3) div 4)"
  obtain a h1 where new: "create ?cap h = (a, h1)" by (metis surj_pair)
  have len: "blen e = 4 * ((length src + 2) div 3)"
    using length_contents [OF ok] enc length_armor_text [of 0 src] by simp
  have cap: "?cap < 2 ^ 32" "length src \<le> ?cap"
  proof -
    have "?cap = 4 + blen e * 3 div 4" using small by (simp add: w32_def)
    then show "length src \<le> ?cap" unfolding len by simp
  qed simp
  obtain s e' h2 where cs: "bl_c_str e h1 = Inr (s, e', h2)"
    using bl_c_str_ok [OF list_ok_create [OF new ok cap(1)]] by blast
  note f = fill_new_block [OF ok bl cap fits new cs]
  have "unarmor ?cap (take (blen e') s) = (int (length src), src)"
    using unarmor_armor_text [of "[]" src ?cap 0 0 0] cap(2) f(3) enc by (simp add: unarmor_def)
  then show ?thesis using f(1,2) cap(2) by (auto simp: decode_base64_def new cs Let_def)
qed

section \<open>Properties\<close>

text \<open>Two lists over shared blocks.\<close>

definition sample_heap :: heap where
  "sample_heap = \<lparr>raws = [\<lparr>rdata = [10, 11, 12, 13, 14], rkind = Raw_char\<rparr>, \<lparr>rdata = [20, 21], rkind = Raw_malloc\<rparr>],
     junk = (\<lambda>_. 0)\<rparr>"

definition sample_list :: blist where
  "sample_list = \<lparr>buffers = [\<lparr>praw = Some 0, poff = 1, plen = 3\<rparr>, \<lparr>praw = Some 1, poff = 0, plen = 2\<rparr>],
     blen = 5, memcopy_count = 0, append_buffer = null_ptr\<rparr>"

lemmas sample_buffer_defs = sample_heap_def sample_list_def null_ptr_def

lemma sample_list_ok: "list_ok sample_heap sample_list"
  by (simp add: sample_buffer_defs list_ok_def heap_ok_def ptr_ok_def raw_len_def tail_ok_def)

lemma sample_list_blen: "blen sample_list = 5"
  by (simp add: sample_list_def)

lemma sample_list_contents: "contents sample_heap sample_list = [11, 12, 13, 20, 21]"
  by (simp add: sample_buffer_defs contents_def bytes_def ptr_c_str_def)

lemma bl_new_ok: "heap_ok h \<Longrightarrow> list_ok h bl_new" "contents h bl_new = []"
  by (simp_all add: list_ok_def bl_new_def tail_ok_def null_ptr_def ptr_ok_def contents_def)

text \<open>
  \<^verbatim>\<open>append(data, len)\<close> appends exactly the given bytes, whatever the state of the append
  buffer, and it does so in at most three rounds of its loop; every window of another list
  that does not reach into the free part of the append buffer keeps its bytes.
\<close>

theorem append_data_appends:
  assumes "list_ok h bl" and "blen bl + length data < 2 ^ 32" and "length data \<le> 2 ^ 32 - MSGR_PAGE_SIZE"
  shows "\<exists>bl' h'. append_data data bl h = Some (Inr (bl', h')) \<and> list_ok h' bl' \<and>
    contents h' bl' = contents h bl @ data \<and>
    (\<forall>q. ptr_ok h q \<and> clear_of bl q \<longrightarrow> bytes h' q = bytes h q)"
  using append_data_ok [OF assms] by (fastforce simp: spares_def clear_of_def)

theorem append_data_appends_witness:
  "\<exists>bl' h'. append_data [1, 2] sample_list sample_heap = Some (Inr (bl', h')) \<and>
    contents h' bl' = [11, 12, 13, 20, 21, 1, 2]"
  using append_data_appends [OF sample_list_ok, of "[1, 2]"]
  by (auto simp: sample_list_contents sample_list_blen MSGR_PAGE_SIZE_def)

text \<open>
  \<^verbatim>\<open>substr_of\<close> yields the requested part of the other list without copying, and refuses a
  range that goes past its end.
\<close>

theorem substr_of_is_substring:
  assumes "list_ok h other" and "off + len < 2 ^ 32"
  shows "(if off + len \<le> blen other
     then \<exists>bl'. substr_of bl_new other off len = Inr bl' \<and> list_ok h bl' \<and>
            contents h bl' = take len (drop off (contents h other))
     else substr_of bl_new other off len = Inl End_of_buffer)"
proof (cases "off + len \<le> blen other")
  case True
  have "tail_ok h (bl_clear bl_new)"
    by (simp add: bl_clear_def bl_new_def tail_ok_def null_ptr_def ptr_ok_def)
  from substr_of_ok [OF assms(1) True this] obtain bl' where
    bl': "substr_of bl_new other off len = Inr bl'" "contents h bl' = take len (drop off (contents h other))"
    "blen bl' = len" "segs_ok h (buffers bl')" by blast
  have "append_buffer bl' = null_ptr"
    using bl'(1) by (auto simp: substr_of_def bl_clear_def bl_new_def split: if_splits prod.splits sum.splits)
  moreover have "total_len (buffers bl') = len"
    using bl'(2,4) length_concat_bytes [OF bl'(4)] length_contents [OF assms(1)] True by (simp add: contents_def)
  ultimately have "list_ok h bl'"
    using assms bl'(3,4) by (simp add: list_ok_def tail_ok_def null_ptr_def ptr_ok_def)
  then show ?thesis using True bl' by auto
next
  case False
  then show ?thesis using assms(2) by (simp add: substr_of_error)
qed

theorem substr_of_is_substring_witness:
  "\<exists>bl'. substr_of bl_new sample_list 2 2 = Inr bl' \<and> contents sample_heap bl' = [13, 20]"
  using substr_of_is_substring [OF sample_list_ok, of 2 2]
  by (auto simp: sample_list_contents sample_list_blen)

text \<open>
  \<^verbatim>\<open>splice\<close> removes the range, clipped to the end of the list, keeps everything else in
  order and appends the removed bytes to the claiming list.
\<close>

theorem splice_moves_range:
  assumes "list_ok h bl" and "off < blen bl" and "0 < len"
    and "list_ok h cb" and "blen cb + len < 2 ^ 32" and "\<forall>p \<in> set (buffers bl). clear_of cb p"
  shows "\<exists>bl' cb'. splice off len (Some cb) bl = Inr (bl', Some cb') \<and> list_ok h bl' \<and> list_ok h cb' \<and>
    contents h bl' = take off (contents h bl) @ drop (off + len) (contents h bl) \<and>
    contents h cb' = contents h cb @ take len (drop off (contents h bl))"
proof -
  have "claim_ready h (buffers bl) len (Some cb)" using assms(4-6) by (simp add: claim_ready_def)
  from splice_ok [OF assms(1-3) this] show ?thesis by (auto simp: claim_grows_def)
qed

theorem splice_moves_range_witness:
  "\<exists>bl' cb'. splice 2 2 (Some bl_new) sample_list = Inr (bl', Some cb') \<and>
    contents sample_heap bl' = [11, 12, 21] \<and> contents sample_heap cb' = [13, 20]"
proof -
  have "heap_ok sample_heap" using sample_list_ok by (simp add: list_ok_def)
  then show ?thesis
    using splice_moves_range [OF sample_list_ok _ _ bl_new_ok(1), of 2 2]
    by (auto simp: sample_list_contents bl_new_ok(2))
      (auto simp: sample_list_def bl_new_def clear_of_def null_ptr_def)
qed

text \<open>
  Reading through an iterator returns the next bytes of the list and moves past them, across
  any number of windows; asking for more than is left is refused with \<^verbatim>\<open>end_of_buffer\<close>.
\<close>

theorem iter_copy_reads_rest:
  assumes "iter_valid h ps it"
  shows "(if n \<le> length (iter_rest h ps it)
     then \<exists>it'. iter_copy h ps n it = Inr (take n (iter_rest h ps it), it') \<and> iter_valid h ps it' \<and>
            iter_rest h ps it' = drop n (iter_rest h ps it)
     else iter_copy h ps n it = Inl End_of_buffer)"
  using bl_iter.copy_ok [OF assms] bl_iter.copy_short [OF assms] by simp

theorem iter_copy_reads_rest_witness:
  "\<exists>it'. iter_copy sample_heap (buffers sample_list) 4 iter_begin = Inr ([11, 12, 13, 20], it')"
proof -
  have v: "iter_valid sample_heap (buffers sample_list) iter_begin"
    using sample_list_ok iter_begin_ok by (auto simp: iter_valid_def list_ok_def)
  have "iter_rest sample_heap (buffers sample_list) iter_begin = [11, 12, 13, 20, 21]"
    using sample_list_contents by (simp add: iter_rest_def iter_begin_def contents_def)
  then show ?thesis using iter_copy_reads_rest [OF v, of 4] by auto
qed

text \<open>
  C23. The checksum of a buffer list is the CRC-32C of the bytes it denotes: it does not depend
  on how they are divided into windows nor on where these are in memory.
\<close>

theorem crc32c_of_contents:
  assumes "list_ok h bl"
  shows "bl_crc32c msgr_crc32c_sctp addr h bl crc = crc32c_spec crc (contents h bl)"
  using sctp.crc_list [OF assms] .

theorem crc32c_of_contents_witness:
  "bl_crc32c msgr_crc32c_sctp (\<lambda>a. 4096 * of_nat a) sample_heap sample_list 0 = crc32c_spec 0 [11, 12, 13, 20, 21]"
  using crc32c_of_contents [OF sample_list_ok] by (simp add: sample_list_contents)

text \<open>\<^verbatim>\<open>contents_equal\<close> decides whether two lists denote the same bytes, and returns.\<close>

theorem contents_equal_decides:
  assumes "list_ok h bl" and "list_ok h other"
  shows "contents_equal h bl other = Inr (contents h bl = contents h other)"
  using contents_equal_eq [OF assms] .

theorem contents_equal_decides_witness: "contents_equal sample_heap sample_list sample_list = Inr True"
  using contents_equal_decides [OF sample_list_ok sample_list_ok] by simp

text \<open>
  Base64 round trip: encoding a list of less than a gigabyte into an empty list and decoding
  the result gives the original bytes.
\<close>

theorem base64_round_trip:
  assumes "list_ok h bl" and "blen bl < 2 ^ 30"
  shows "\<exists>bl' o' h' out e h''. encode_base64 bl bl_new h = Inr (bl', o', h') \<and>
    decode_base64 bl_new o' h' = Inr (out, e, h'') \<and> contents h'' out = contents h bl"
proof -
  have hok: "heap_ok h" using assms(1) by (simp add: list_ok_def)
  let ?t = "armor_text 0 0 (contents h bl)"
  have lt: "length ?t = 4 * ((blen bl + 2) div 3)"
    by (simp add: length_armor_text length_contents [OF assms(1)])
  have small: "blen bl * 4 < 2 ^ 32" using assms(2) by simp
  have "(blen bl + 2) div 3 < 2 ^ 30" using assms(2) by linarith
  then have bound: "blen bl_new + length ?t < 2 ^ 32" unfolding lt by (simp add: bl_new_def)
  obtain bl' o' h' where enc: "encode_base64 bl bl_new h = Inr (bl', o', h')" "list_ok h' o'"
    "contents h' o' = ?t"
    using encode_base64_ok [OF assms(1) bl_new_ok(1) [OF hok] small bound] by (auto simp: bl_new_ok(2))
  have hok': "heap_ok h'" using enc(2) by (simp add: list_ok_def)
  have "blen o' = 4 * ((blen bl + 2) div 3)" using length_contents [OF enc(2)] enc(3) lt by simp
  moreover have "(blen bl + 2) div 3 \<le> (2 ^ 30 + 1) div 3" using assms(2) by (intro div_le_mono) simp
  then have "(blen bl + 2) div 3 * 12 < 2 ^ 32" by simp
  ultimately have "blen o' * 3 < 2 ^ 32" by simp
  then obtain out e h'' where "decode_base64 bl_new o' h' = Inr (out, e, h'')" "contents h'' out = contents h bl"
    using decode_base64_ok [OF enc(2) bl_new_ok(1) [OF hok'] _ enc(3)] assms(2) length_contents [OF assms(1)]
    by (auto simp: bl_new_ok(2)) (auto simp: bl_new_def)
  then show ?thesis using enc(1) by blast
qed

theorem base64_round_trip_witness:
  "\<exists>bl' o' h' out e h''. encode_base64 sample_list bl_new sample_heap = Inr (bl', o', h') \<and>
    decode_base64 bl_new o' h' = Inr (out, e, h'') \<and> contents h'' out = [11, 12, 13, 20, 21]"
  using base64_round_trip [OF sample_list_ok] by (simp add: sample_list_contents sample_list_blen)

end
