(* ===== verification/Socket_IO.thy ===== *)
theory Socket_IO
  imports Buffer_Ops
begin

text \<open>
  Reading from and writing to the socket: \<^verbatim>\<open>read_bulk\<close>, \<^verbatim>\<open>read_until\<close>, \<^verbatim>\<open>do_sendmsg\<close> and \<^verbatim>\<open>_try_send\<close> of
  \<^verbatim>\<open>src/src/async/AsyncConnection.cc\<close>.  The system calls are parameters; the locales say what the
  code relies on.  Whatever pieces the bytes come in and however often a call has to be
  repeated, the reader gets the bytes of the stream in order, and the writer hands out its
  buffer in order.  The switch \<^verbatim>\<open>ms_inject_socket_failures\<close>, which shuts the socket down at random, is
  a socket whose next call fails and adds nothing.
\<close>

section \<open>Reading\<close>

text \<open>What \<^verbatim>\<open>read(2)\<close> yields; \<open>Got []\<close> is the end of the stream.\<close>

datatype read_result = Got "byte list" | Would_block | Interrupted | Read_failed

type_synonym 's read_fn = "nat \<Rightarrow> 's \<Rightarrow> read_result \<times> 's"

text \<open>The result, the bytes stored (never more than asked for), and the socket.\<close>

definition read_bulk :: "'s read_fn \<Rightarrow> nat \<Rightarrow> 's \<Rightarrow> int \<times> byte list \<times> 's" where
  "read_bulk rd len s =
     (case rd len s of
        (Would_block, s) \<Rightarrow> (0, [], s)
      | (Interrupted, s) \<Rightarrow> (0, [], s)
      | (Read_failed, s) \<Rightarrow> (-1, [], s)
      | (Got bs, s) \<Rightarrow> (let bs = take len bs in if bs = [] then (-1, [], s) else (int (length bs), bs, s)))"

text \<open>
  The prefetch buffer and the progress of the current read.  The lengths are at most those of
  buffers in memory; a read that is compared with \<^verbatim>\<open>static_cast<int>(left)\<close> returns at most
  \<^verbatim>\<open>0x7ffff000\<close> bytes, so that comparison agrees with the one of natural numbers.
\<close>

record 's reader =
  recv_buf :: "byte list"
  recv_max_prefetch :: nat
  recv_start :: nat
  recv_end :: nat
  state_offset :: nat
  sock :: 's

definition memcpy :: "byte list \<Rightarrow> nat \<Rightarrow> byte list \<Rightarrow> byte list" where
  "memcpy p off bs = take off p @ bs @ drop (off + length bs) p"

lemma length_read_bulk: "read_bulk rd len s = (r, bs, s') \<Longrightarrow> length bs \<le> len \<and> (r < 0 \<or> r = int (length bs))"
  by (auto simp: read_bulk_def Let_def split: prod.splits read_result.splits if_splits)

text \<open>The loop for large reads, straight into the destination.  \<open>None\<close>: it ended with \<^verbatim>\<open>r == 0\<close>.\<close>

function read_large :: "'s read_fn \<Rightarrow> nat \<Rightarrow> byte list \<Rightarrow> 's reader \<Rightarrow> int option \<times> byte list \<times> 's reader" where
  "read_large rd left p R =
     (let (r, bs, s) = read_bulk rd left (sock R); R = R\<lparr>sock := s\<rparr>; p = memcpy p (state_offset R) bs
      in if r < 0 then (Some (-1), p, R)
         else if r = int left then (Some 0, p, R\<lparr>state_offset := 0\<rparr>)
         else
           (let R = R\<lparr>state_offset := state_offset R + nat r\<rparr>
            in if r > 0 then read_large rd (left - nat r) p R else (None, p, R)))"
  by pat_completeness auto
termination
proof (relation "measure (\<lambda>(rd, left, p, R). left)", simp)
  fix rd :: "'s read_fn" and left p and R :: "'s reader" and x r y bs s R' p' R''
  assume "x = read_bulk rd left (sock R)" "(r, y) = x" "(bs, s) = y" "0 < r"
  then have "length bs \<le> left" "nat r = length bs" "0 < length bs"
    using length_read_bulk [of rd left "sock R" r bs s] by auto
  then have "left - nat r < left" by linarith
  then show "((rd, left - nat r, p', R''), rd, left, p, R) \<in> measure (\<lambda>(rd, left, p, R). left)" by auto
qed

text \<open>The loop that fills the prefetch buffer.\<close>

function read_prefetch ::
    "'s read_fn \<Rightarrow> nat \<Rightarrow> nat \<Rightarrow> byte list \<Rightarrow> 's reader \<Rightarrow> int option \<times> byte list \<times> 's reader" where
  "read_prefetch rd len left p R =
     (let (r, bs, s) = read_bulk rd (recv_max_prefetch R - recv_end R) (sock R);
          R = R\<lparr>sock := s, recv_buf := memcpy (recv_buf R) (recv_end R) bs\<rparr>
      in if r < 0 then (Some (-1), p, R)
         else
           (let R = R\<lparr>recv_end := recv_end R + nat r\<rparr>
            in if r \<ge> int left
               then (let R = R\<lparr>recv_start := len - state_offset R\<rparr>
                     in (Some 0, memcpy p (state_offset R) (take (recv_start R) (recv_buf R)), R\<lparr>state_offset := 0\<rparr>))
               else if r > 0 then read_prefetch rd len (left - nat r) p R
               else (None, p, R)))"
  by pat_completeness auto
termination by (relation "measure (\<lambda>(rd, len, left, p, R). left)") auto

declare read_large.simps [simp del] read_prefetch.simps [simp del]

text \<open>\<^verbatim>\<open>read_until\<close> once the prefetch buffer is used up.\<close>

definition read_socket ::
    "'s read_fn \<Rightarrow> nat \<Rightarrow> nat \<Rightarrow> byte list \<Rightarrow> 's reader \<Rightarrow> (int \<times> byte list \<times> 's reader) option" where
  "read_socket rd len left p R =
     (if recv_end R \<noteq> recv_start R then None
      else
        (let R = R\<lparr>recv_end := 0, recv_start := 0\<rparr>
         in Some
              (if len > recv_max_prefetch R
               then (case read_large rd left p R of
                       (Some r, p, R) \<Rightarrow> (r, p, R)
                     | (None, p, R) \<Rightarrow> (int (len - state_offset R), p, R))
               else (case read_prefetch rd len left p R of
                       (Some r, p, R) \<Rightarrow> (r, p, R)
                     | (None, p, R) \<Rightarrow>
                         (let n = recv_end R - recv_start R; p = memcpy p (state_offset R) (take n (recv_buf R));
                              R = R\<lparr>state_offset := state_offset R + n, recv_end := 0, recv_start := 0\<rparr>
                          in (int (len - state_offset R), p, R))))))"

text \<open>The destination is the memory at \<^verbatim>\<open>p\<close>; \<open>None\<close> is a failed assertion.\<close>

definition read_until :: "'s read_fn \<Rightarrow> nat \<Rightarrow> byte list \<Rightarrow> 's reader \<Rightarrow> (int \<times> byte list \<times> 's reader) option" where
  "read_until rd len p R =
     (if len = 0 then None
      else
        (let left = len - state_offset R
         in if recv_end R > recv_start R
            then
              (if state_offset R \<noteq> 0 then None
               else
                 (let to_read = min (recv_end R - recv_start R) left;
                      p = memcpy p 0 (take to_read (drop (recv_start R) (recv_buf R)));
                      R = R\<lparr>recv_start := recv_start R + to_read\<rparr>; left = left - to_read
                  in if left = 0 then Some (0, p, R\<lparr>state_offset := 0\<rparr>)
                     else read_socket rd len left p (R\<lparr>state_offset := state_offset R + to_read\<rparr>)))
            else read_socket rd len left p R))"

text \<open>How the state machine of the connection uses it: the call is repeated when more has arrived.\<close>

fun retry_read :: "nat \<Rightarrow> 's read_fn \<Rightarrow> nat \<Rightarrow> byte list \<Rightarrow> 's reader \<Rightarrow> (int \<times> byte list \<times> 's reader) option" where
  "retry_read 0 rd len p R = None"
| "retry_read (Suc n) rd len p R =
     (case read_until rd len p R of
        None \<Rightarrow> None
      | Some (r, p, R) \<Rightarrow> (if r > 0 then retry_read n rd len p R else Some (r, p, R)))"

lemma read_large_result: "read_large rd left p R = (res, p', R') \<Longrightarrow> res = Some (-1) \<or> res = Some 0 \<or> res = None"
proof (induction rd left p R rule: read_large.induct)
  case (1 rd left p R)
  obtain r bs s where b: "read_bulk rd left (sock R) = (r, bs, s)" by (metis surj_pair)
  show ?case using 1 b by (subst (asm) (2) read_large.simps) (auto simp: Let_def split: if_splits)
qed

lemma read_prefetch_result: "read_prefetch rd len left p R = (res, p', R') \<Longrightarrow> res = Some (-1) \<or> res = Some 0 \<or> res = None"
proof (induction rd len left p R rule: read_prefetch.induct)
  case (1 rd len left p R)
  obtain r bs s where b: "read_bulk rd (recv_max_prefetch R - recv_end R) (sock R) = (r, bs, s)" by (metis surj_pair)
  show ?case using 1 b by (subst (asm) (2) read_prefetch.simps) (auto simp: Let_def split: if_splits)
qed

section \<open>Writing\<close>

text \<open>
  What \<^verbatim>\<open>sendmsg(2)\<close> does with the vector it is given; the flag is \<^verbatim>\<open>MSG_MORE\<close>.  A negative or
  large \<^verbatim>\<open>int\<close> is written out with \<open>int32\<close>, the conversion from \<^verbatim>\<open>uint32_t\<close>.
\<close>

datatype send_result = Accepted nat | Send_again | Send_interrupted | Send_failed

type_synonym 'o send_fn = "byte list list \<Rightarrow> bool \<Rightarrow> 'o \<Rightarrow> send_result \<times> 'o"

definition int32 :: "nat \<Rightarrow> int" where
  "int32 n = sint (of_nat n :: 32 word)"

text \<open>The inner loop of \<^verbatim>\<open>do_sendmsg\<close>: drop \<open>r\<close> bytes from the front of the vector.\<close>

fun drain_iov :: "nat \<Rightarrow> byte list list \<Rightarrow> byte list list" where
  "drain_iov r [] = []"
| "drain_iov r (v # vs) =
     (if r = 0 then v # vs
      else if length v \<le> r then drain_iov (r - length v) vs
      else drop r v # vs)"

text \<open>\<open>None\<close>: the loop does not end, because the call is interrupted or sends nothing for ever.\<close>

partial_function (option) do_sendmsg :: "'o send_fn \<Rightarrow> byte list list \<Rightarrow> nat \<Rightarrow> bool \<Rightarrow> 'o \<Rightarrow> (int \<times> 'o) option" where
  "do_sendmsg tx iov len cont s =
     (if len = 0 then Some (0, s)
      else
        (case tx iov cont s of
           (Send_interrupted, s) \<Rightarrow> do_sendmsg tx iov len cont s
         | (Send_again, s) \<Rightarrow> Some (int32 len, s)
         | (Send_failed, s) \<Rightarrow> Some (-1, s)
         | (Accepted n, s) \<Rightarrow>
             (if len - n = 0 then Some (0, s) else do_sendmsg tx (drain_iov n iov) (len - n) cont s)))"

text \<open>The output side of a connection: \<^verbatim>\<open>outcoming_bl\<close>, the socket, and whether \<^verbatim>\<open>ev_write\<close> is active.\<close>

record 'o writer =
  outcoming :: blist
  osock :: 'o
  sd_open :: bool
  ev_write :: bool

definition IOV_MAX :: nat where "IOV_MAX = 1024"

text \<open>The first part of \<^verbatim>\<open>_try_send\<close>: the new bytes join \<^verbatim>\<open>outcoming_bl\<close>.\<close>

definition queue_out :: "blist \<Rightarrow> blist \<Rightarrow> heap \<Rightarrow> blist \<times> blist \<times> heap" where
  "queue_out send_bl out h =
     (if blen send_bl \<noteq> 0
      then (if blen out \<noteq> 0 then claim_append False out send_bl h else (send_bl, out, h))
      else (out, send_bl, h))"

text \<open>Its loop; the first component is a value to return at once.\<close>

partial_function (option) send_loop ::
    "'o send_fn \<Rightarrow> heap \<Rightarrow> blist \<Rightarrow> 'o \<Rightarrow> (buf_error + int option \<times> blist \<times> 'o) option" where
  "send_loop tx h bl s =
     (if buffers bl = [] then Some (Inr (None, bl, s))
      else
        (let segs = take IOV_MAX (buffers bl); msglen = w32 (sum_list (map plen segs));
             cont = (IOV_MAX < length (buffers bl))
         in case do_sendmsg tx (map (bytes h) segs) msglen cont s of
              None \<Rightarrow> None
            | Some (r, s) \<Rightarrow>
                (if r < 0 then Some (Inr (Some r, bl, s))
                 else
                   (let n = msglen - nat r
                    in case (if n \<noteq> 0 then splice 0 n None bl else Inr (bl, None)) of
                         Inl e \<Rightarrow> Some (Inl e)
                       | Inr (bl, _) \<Rightarrow> (if r > 0 then Some (Inr (None, bl, s)) else send_loop tx h bl s)))))"

text \<open>\<^verbatim>\<open>start_write\<close> and the label \<^verbatim>\<open>set_action\<close>.\<close>

definition start_write :: "'o writer \<Rightarrow> 'o writer" where
  "start_write W = (if sd_open W then W\<lparr>ev_write := True\<rparr> else W)"

definition set_action :: "'o writer \<Rightarrow> int \<times> 'o writer" where
  "set_action W = (int32 (blen (outcoming W)), if blen (outcoming W) \<noteq> 0 then start_write W else W\<lparr>ev_write := False\<rparr>)"

definition try_send ::
    "'o send_fn \<Rightarrow> bool \<Rightarrow> blist \<Rightarrow> 'o writer \<Rightarrow> heap \<Rightarrow> (buf_error + int \<times> blist \<times> 'o writer \<times> heap) option" where
  "try_send tx send send_bl W h =
     (let (out, send_bl, h) = queue_out send_bl (outcoming W) h; W = W\<lparr>outcoming := out\<rparr>
      in if \<not> send then (let (r, W) = set_action W in Some (Inr (r, send_bl, W, h)))
         else
           (case send_loop tx h out (osock W) of
              None \<Rightarrow> None
            | Some (Inl e) \<Rightarrow> Some (Inl e)
            | Some (Inr (Some r, out, s)) \<Rightarrow> Some (Inr (r, send_bl, W\<lparr>outcoming := out, osock := s\<rparr>, h))
            | Some (Inr (None, out, s)) \<Rightarrow>
                (let (r, W) = set_action (W\<lparr>outcoming := out, osock := s\<rparr>) in Some (Inr (r, send_bl, W, h)))))"

section \<open>Reading, proved\<close>

subsection \<open>What the socket promises\<close>

locale byte_socket =
  fixes rd :: "'s read_fn" and pending :: "'s \<Rightarrow> byte list"
  assumes got: "rd n s = (Got bs, s') \<Longrightarrow> length bs \<le> n \<and> pending s = bs @ pending s'"
    and would_block: "rd n s = (Would_block, s') \<Longrightarrow> pending s' = pending s"
    and interrupted: "rd n s = (Interrupted, s') \<Longrightarrow> pending s' = pending s"

text \<open>Bytes that have arrived can be read, after finitely many refusals.\<close>

locale live_socket = byte_socket +
  fixes waits :: "'s \<Rightarrow> nat"
  assumes readable: "0 < n \<Longrightarrow> pending s \<noteq> [] \<Longrightarrow> rd n s \<noteq> (Read_failed, s') \<and> rd n s \<noteq> (Got [], s')"
    and waits_got: "rd n s = (Got bs, s') \<Longrightarrow> waits s' \<le> waits s"
    and waits_block: "pending s \<noteq> [] \<Longrightarrow> rd n s = (Would_block, s') \<Longrightarrow> waits s' < waits s"
    and waits_interrupted: "pending s \<noteq> [] \<Longrightarrow> rd n s = (Interrupted, s') \<Longrightarrow> waits s' < waits s"

definition prefetched :: "'s reader \<Rightarrow> byte list" where
  "prefetched R = take (recv_end R - recv_start R) (drop (recv_start R) (recv_buf R))"

definition stream :: "('s \<Rightarrow> byte list) \<Rightarrow> 's reader \<Rightarrow> byte list" where
  "stream pending R = prefetched R @ pending (sock R)"

definition reader_ok :: "'s reader \<Rightarrow> bool" where
  "reader_ok R \<longleftrightarrow> recv_start R \<le> recv_end R \<and> recv_end R \<le> recv_max_prefetch R \<and>
     length (recv_buf R) = recv_max_prefetch R \<and> (recv_start R < recv_end R \<longrightarrow> state_offset R = 0)"

subsection \<open>Memory\<close>

lemma length_memcpy [simp]: "off + length bs \<le> length p \<Longrightarrow> length (memcpy p off bs) = length p"
  by (simp add: memcpy_def)

lemma memcpy_Nil [simp]: "off \<le> length p \<Longrightarrow> memcpy p off [] = p"
  by (simp add: memcpy_def)

lemma memcpy_memcpy:
  assumes "off + length bs + length cs \<le> length p"
  shows "memcpy (memcpy p off bs) (off + length bs) cs = memcpy p off (bs @ cs)"
  using assms by (simp add: memcpy_def add.commute add.left_commute)

lemma take_memcpy: "off + length bs \<le> length p \<Longrightarrow> take (off + length bs) (memcpy p off bs) = take off p @ bs"
  by (simp add: memcpy_def)

lemma take_memcpy_before: "n \<le> off \<Longrightarrow> off \<le> length p \<Longrightarrow> take n (memcpy p off bs) = take n p"
  by (simp add: memcpy_def min_def)

subsection \<open>Reading is independent of the pieces\<close>

context byte_socket
begin

lemma read_bulk_bytes:
  assumes "read_bulk rd n s = (r, bs, s')" and "0 \<le> r"
  shows "r = int (length bs)" and "length bs \<le> n" and "pending s = bs @ pending s'"
  using assms got would_block interrupted
  by (fastforce simp: read_bulk_def Let_def split: prod.splits read_result.splits if_splits)+

text \<open>What the loops have done when they end: \<open>bs\<close> are the bytes taken from the socket.\<close>

definition large_done where
  "large_done left p R bs s res p' R' \<longleftrightarrow> pending (sock R) = bs @ pending s \<and>
     p' = memcpy p (state_offset R) bs \<and>
     (res = Some 0 \<and> length bs = left \<and> R' = R\<lparr>sock := s, state_offset := 0\<rparr> \<or>
      res = None \<and> length bs < left \<and> R' = R\<lparr>sock := s, state_offset := state_offset R + length bs\<rparr>)"

lemma read_large_bytes:
  assumes "read_large rd left p R = (res, p', R')" and "state_offset R + left \<le> length p"
  shows "res = Some (-1) \<or> (\<exists>bs s. large_done left p R bs s res p' R')"
  using assms
proof (induction left arbitrary: p R rule: less_induct)
  case (less left)
  obtain r bs s where b: "read_bulk rd left (sock R) = (r, bs, s)" by (metis surj_pair)
  let ?p = "memcpy p (state_offset R) bs" and ?R = "R\<lparr>sock := s, state_offset := state_offset R + length bs\<rparr>"
  note run = less.prems(1) [unfolded read_large.simps [of rd left], unfolded b Let_def prod.case]
  consider "r < 0" | "r = int left" | "r = 0" "left \<noteq> 0" | "0 < r" "r \<noteq> int left" by linarith
  then show ?case
  proof cases
    case 1
    then show ?thesis using run by simp
  next
    case 2
    then have "large_done left p R bs s res p' R'"
      using run read_bulk_bytes [OF b] by (auto simp: large_done_def)
    then show ?thesis by blast
  next
    case 3
    then have "large_done left p R bs s res p' R'"
      using run read_bulk_bytes [OF b] by (auto simp: large_done_def)
    then show ?thesis by blast
  next
    case 4
    note bb = read_bulk_bytes [OF b]
    have len: "0 < length bs" "length bs < left" "nat r = length bs" using bb 4 by auto
    then have rec: "read_large rd (left - length bs) ?p ?R = (res, p', R')" using run 4 by simp
    have "res = Some (-1) \<or> (\<exists>cs u. large_done (left - length bs) ?p ?R cs u res p' R')"
      by (rule less.IH [OF _ rec]) (use less.prems(2) len in simp_all)
    moreover have "large_done left p R (bs @ cs) u res p' R'" if "large_done (left - length bs) ?p ?R cs u res p' R'" for cs u
    proof -
      have "length cs \<le> left - length bs" using that by (auto simp: large_done_def)
      then have "memcpy ?p (state_offset R + length bs) cs = memcpy p (state_offset R) (bs @ cs)"
        using memcpy_memcpy [of "state_offset R" bs cs p] less.prems(2) len by simp
      then show ?thesis using that bb(3) 4 len by (auto simp: large_done_def add.assoc)
    qed
    ultimately show ?thesis by blast
  qed
qed

definition prefetch_done where
  "prefetch_done len left p R bs s res p' R' \<longleftrightarrow> pending (sock R) = bs @ pending s \<and>
     recv_end R + length bs \<le> recv_max_prefetch R \<and>
     (res = Some 0 \<and> left \<le> length bs \<and> p' = memcpy p (state_offset R) (take (len - state_offset R) (recv_buf R')) \<and>
        R' = R\<lparr>sock := s, recv_buf := memcpy (recv_buf R) (recv_end R) bs, recv_end := recv_end R + length bs,
               recv_start := len - state_offset R, state_offset := 0\<rparr> \<or>
      res = None \<and> length bs < left \<and> p' = p \<and>
        R' = R\<lparr>sock := s, recv_buf := memcpy (recv_buf R) (recv_end R) bs, recv_end := recv_end R + length bs\<rparr>)"

lemma read_prefetch_bytes:
  assumes "read_prefetch rd len left p R = (res, p', R')" and "recv_end R + left \<le> recv_max_prefetch R"
    and "length (recv_buf R) = recv_max_prefetch R" and "0 < left"
  shows "res = Some (-1) \<or> (\<exists>bs s. prefetch_done len left p R bs s res p' R')"
  using assms
proof (induction left arbitrary: R rule: less_induct)
  case (less left)
  obtain r bs s where b: "read_bulk rd (recv_max_prefetch R - recv_end R) (sock R) = (r, bs, s)" by (metis surj_pair)
  let ?R = "R\<lparr>sock := s, recv_buf := memcpy (recv_buf R) (recv_end R) bs, recv_end := recv_end R + length bs\<rparr>"
  note run = less.prems(1) [unfolded read_prefetch.simps [of rd len left], unfolded b Let_def prod.case]
  consider "r < 0" | "int left \<le> r" "0 \<le> r" | "r = 0" "0 < left" | "0 < r" "r < int left" by linarith
  then show ?case
  proof cases
    case 1
    then show ?thesis using run by simp
  next
    case 2
    then have "prefetch_done len left p R bs s res p' R'"
      using run read_bulk_bytes [OF b 2(2)] less.prems(2) by (auto simp: prefetch_done_def)
    then show ?thesis by blast
  next
    case 3
    then have "prefetch_done len left p R bs s res p' R'"
      using run read_bulk_bytes [OF b] less.prems(2) by (auto simp: prefetch_done_def)
    then show ?thesis by blast
  next
    case 4
    note bb = read_bulk_bytes [OF b]
    have len: "0 < length bs" "length bs < left" "nat r = length bs" "length bs \<le> recv_max_prefetch R - recv_end R"
      using bb 4 by auto
    then have rec: "read_prefetch rd len (left - length bs) p ?R = (res, p', R')" using run 4 by simp
    have "res = Some (-1) \<or> (\<exists>cs u. prefetch_done len (left - length bs) p ?R cs u res p' R')"
      by (rule less.IH [OF _ rec]) (use less.prems(2-4) len in simp_all)
    moreover have "prefetch_done len left p R (bs @ cs) u res p' R'" if "prefetch_done len (left - length bs) p ?R cs u res p' R'" for cs u
    proof -
      have "recv_end R + length bs + length cs \<le> recv_max_prefetch R" using that by (auto simp: prefetch_done_def)
      then have "memcpy (memcpy (recv_buf R) (recv_end R) bs) (recv_end R + length bs) cs = memcpy (recv_buf R) (recv_end R) (bs @ cs)"
        using memcpy_memcpy less.prems(3) by metis
      then show ?thesis using that bb(3) 4 len by (auto simp: prefetch_done_def add.assoc)
    qed
    ultimately show ?thesis by blast
  qed
qed

definition until_done where
  "until_done len p R bs r p' R' \<longleftrightarrow> stream pending R = bs @ stream pending R' \<and> p' = memcpy p (state_offset R) bs \<and>
     reader_ok R' \<and> recv_max_prefetch R' = recv_max_prefetch R \<and> 0 \<le> r \<and> length bs + nat r = len - state_offset R \<and>
     state_offset R' = (if r = 0 then 0 else state_offset R + length bs)"

lemma read_socket_bytes:
  assumes run: "read_socket rd len (len - state_offset R) p R = Some (r, p', R')" and ok: "reader_ok R"
    and off: "state_offset R < len" "len \<le> length p"
  shows "r = -1 \<or> (\<exists>bs. until_done len p R bs r p' R')"
proof -
  let ?R = "R\<lparr>recv_end := 0, recv_start := 0\<rparr>" and ?left = "len - state_offset R"
  have e: "recv_end R = recv_start R" using run by (simp add: read_socket_def split: if_splits)
  have st: "stream pending R = pending (sock R)" using e by (simp add: stream_def prefetched_def)
  have max: "length (recv_buf R) = recv_max_prefetch R" using ok by (simp add: reader_ok_def)
  show ?thesis
  proof (cases "len > recv_max_prefetch R")
    case True
    obtain res q Q where l: "read_large rd ?left p ?R = (res, q, Q)" by (metis surj_pair)
    consider "res = Some (-1)" | bs s where "large_done ?left p ?R bs s res q Q"
      using read_large_bytes [OF l] off by auto
    then show ?thesis
    proof cases
      case 1
      then show ?thesis using run e True l by (simp add: read_socket_def)
    next
      case (2 bs s)
      then have "until_done len p R bs r p' R'"
        using run e True l off max
        by (auto simp: read_socket_def large_done_def until_done_def stream_def prefetched_def reader_ok_def)
      then show ?thesis by blast
    qed
  next
    case False
    then have le: "?left \<le> recv_max_prefetch R" by linarith
    obtain res q Q where l: "read_prefetch rd len ?left p ?R = (res, q, Q)" by (metis surj_pair)
    consider "res = Some (-1)" | bs s where "prefetch_done len ?left p ?R bs s res q Q"
      using read_prefetch_bytes [OF l] off max le by auto
    then show ?thesis
    proof cases
      case 1
      then show ?thesis using run e False l by (simp add: read_socket_def)
    next
      case (2 bs s)
      note d = 2
      have buf: "take n (memcpy (recv_buf R) 0 bs) = take n bs" "drop n (memcpy (recv_buf R) 0 bs) = drop n bs @ drop (length bs) (recv_buf R)"
        if "n \<le> length bs" for n using that by (simp_all add: memcpy_def)
      show ?thesis
      proof (cases res)
        case None
        then have "until_done len p R bs r p' R'"
          using run e False l off max d buf
          by (auto simp: Let_def read_socket_def prefetch_done_def until_done_def stream_def prefetched_def reader_ok_def)
        then show ?thesis by blast
      next
        case (Some x)
        then have "until_done len p R (take ?left bs) r p' R'"
          using run e False l off max d buf
          by (auto simp: read_socket_def prefetch_done_def until_done_def stream_def prefetched_def reader_ok_def)
        then show ?thesis by blast
      qed
    qed
  qed
qed

lemma read_socket_defined: "recv_end R = recv_start R \<Longrightarrow> \<exists>r p' R'. read_socket rd len left p R = Some (r, p', R')"
proof -
  assume "recv_end R = recv_start R"
  then obtain x where "read_socket rd len left p R = Some x" by (simp add: read_socket_def Let_def)
  then show ?thesis by (cases x) auto
qed

text \<open>The assertions hold, and a call that does not fail takes the next bytes of the stream.\<close>

lemma read_until_bytes:
  assumes ok: "reader_ok R" and off: "state_offset R < len" "len \<le> length p"
  shows "\<exists>r p' R'. read_until rd len p R = Some (r, p', R') \<and> (r = -1 \<or> (\<exists>bs. until_done len p R bs r p' R'))"
proof (cases "recv_end R > recv_start R")
  case False
  then have "recv_end R = recv_start R" using ok by (simp add: reader_ok_def)
  then obtain r p' R' where run: "read_socket rd len (len - state_offset R) p R = Some (r, p', R')"
    using read_socket_defined by blast
  then show ?thesis using read_socket_bytes [OF run ok off] off False by (auto simp: read_until_def)
next
  case True
  then have z: "state_offset R = 0" using ok by (simp add: reader_ok_def)
  let ?n = "min (recv_end R - recv_start R) len" and ?b = "drop (recv_start R) (recv_buf R)"
  let ?q = "memcpy p 0 (take ?n ?b)" and ?R = "R\<lparr>recv_start := recv_start R + ?n, state_offset := ?n\<rparr>"
  have n: "length (take ?n ?b) = ?n" using ok by (auto simp: reader_ok_def)
  show ?thesis
  proof (cases "len \<le> recv_end R - recv_start R")
    case enough: True
    let ?Q = "R\<lparr>recv_start := recv_start R + len, state_offset := 0\<rparr>"
    have "prefetched R = take len ?b @ prefetched ?Q"
      using take_add [of len "recv_end R - recv_start R - len" ?b, unfolded le_add_diff_inverse [OF enough]] by (simp add: prefetched_def add.commute)
    moreover have "?n = len" using enough by simp
    ultimately have "until_done len p R (take len ?b) 0 (memcpy p 0 (take len ?b)) ?Q"
      using True z ok off n enough by (simp add: until_done_def stream_def reader_ok_def)
    moreover have "read_until rd len p R = Some (0, memcpy p 0 (take len ?b), ?Q)"
      using True z off enough \<open>?n = len\<close> by (simp add: read_until_def Let_def)
    ultimately show ?thesis by blast
  next
    case False
    then have e: "recv_end ?R = recv_start ?R" "?n = recv_end R - recv_start R" "?n < len" using True by auto
    have okR: "reader_ok ?R" using ok e True by (auto simp: reader_ok_def)
    obtain r p' R' where run: "read_socket rd len (len - state_offset ?R) ?q ?R = Some (r, p', R')"
      using e(1) read_socket_defined by blast
    have "length ?q = length p" using n e(3) off(2) by simp
    then have d: "r = -1 \<or> (\<exists>bs. until_done len ?q ?R bs r p' R')"
      using read_socket_bytes [OF run okR] e off(2) by simp
    have "until_done len p R (take ?n ?b @ bs) r p' R'" if u: "until_done len ?q ?R bs r p' R'" for bs
    proof -
      have "length bs \<le> len - ?n" using u by (auto simp: until_done_def)
      then have "memcpy ?q ?n bs = memcpy p 0 (take ?n ?b @ bs)"
        using memcpy_memcpy [of 0 "take ?n ?b" bs p, unfolded n] off(2) e(3) by simp
      moreover have "stream pending R = take ?n ?b @ stream pending ?R"
        using e(1,2) True by (simp add: stream_def prefetched_def)
      ultimately show ?thesis using u z n e(3) by (auto simp: until_done_def) arith
    qed
    moreover have "read_until rd len p R = Some (r, p', R')"
      using run True z off e False by (simp add: read_until_def Let_def)
    ultimately show ?thesis using d by blast
  qed
qed

end

subsection \<open>Reading makes progress\<close>

context live_socket
begin

lemma read_bulk_live:
  assumes "read_bulk rd n s = (r, bs, s')" and "0 < n" and "pending s \<noteq> []"
  shows "0 \<le> r" and "r = 0 \<Longrightarrow> waits s' < waits s" and "waits s' \<le> waits s"
  using assms readable [of n s] got [of n s] waits_got [of n s] waits_block [of s n] waits_interrupted [of s n]
  by (fastforce simp: read_bulk_def Let_def split: prod.splits read_result.splits if_splits)+

lemma read_large_live:
  assumes "read_large rd left p R = (res, p', R')" and "0 < left" and "left \<le> length (pending (sock R))"
  shows "res \<noteq> Some (-1) \<and> waits (sock R') \<le> waits (sock R) \<and> (res = None \<longrightarrow> waits (sock R') < waits (sock R))"
  using assms
proof (induction left arbitrary: p R rule: less_induct)
  case (less left)
  obtain r bs s where b: "read_bulk rd left (sock R) = (r, bs, s)" by (metis surj_pair)
  have "pending (sock R) \<noteq> []" using less.prems(2,3) by auto
  note live = read_bulk_live [OF b less.prems(2) this] and bb = read_bulk_bytes [OF b]
  note run = less.prems(1) [unfolded read_large.simps [of rd left], unfolded b Let_def prod.case]
  show ?case
  proof (cases "0 < r \<and> r \<noteq> int left")
    case True
    let ?R = "R\<lparr>sock := s, state_offset := state_offset R + nat r\<rparr>"
    have len: "nat r = length bs" "0 < length bs" "length bs < left" using True bb by auto
    then have "read_large rd (left - nat r) (memcpy p (state_offset R) bs) ?R = (res, p', R')" using run True by simp
    from less.IH [OF _ this] show ?thesis using len live(3) bb(3) True less.prems(3) by fastforce
  next
    case False
    then show ?thesis using run live by (auto split: if_splits)
  qed
qed

lemma read_prefetch_live:
  assumes "read_prefetch rd len left p R = (res, p', R')" and "0 < left" and "left \<le> length (pending (sock R))"
    and "recv_end R + left \<le> recv_max_prefetch R"
  shows "res \<noteq> Some (-1) \<and> waits (sock R') \<le> waits (sock R) \<and> (res = None \<longrightarrow> waits (sock R') < waits (sock R))"
  using assms
proof (induction left arbitrary: R rule: less_induct)
  case (less left)
  obtain r bs s where b: "read_bulk rd (recv_max_prefetch R - recv_end R) (sock R) = (r, bs, s)" by (metis surj_pair)
  have "pending (sock R) \<noteq> []" "0 < recv_max_prefetch R - recv_end R" using less.prems(2-4) by auto
  note live = read_bulk_live [OF b this(2,1)] and bb = read_bulk_bytes [OF b]
  note run = less.prems(1) [unfolded read_prefetch.simps [of rd len left], unfolded b Let_def prod.case]
  show ?case
  proof (cases "0 < r \<and> r < int left")
    case True
    let ?R = "R\<lparr>sock := s, recv_buf := memcpy (recv_buf R) (recv_end R) bs, recv_end := recv_end R + nat r\<rparr>"
    have len: "nat r = length bs" "0 < length bs" "length bs < left" using True bb by auto
    then have "read_prefetch rd len (left - nat r) p ?R = (res, p', R')" using run True by simp
    from less.IH [OF _ this] show ?thesis using len live(3) bb(3) True less.prems(3,4) by fastforce
  next
    case False
    then show ?thesis using run live by (auto split: if_splits)
  qed
qed

lemma read_socket_live:
  assumes run: "read_socket rd len left p R = Some (r, p', R')" and left: "0 < left" "left \<le> len"
    and avail: "left \<le> length (pending (sock R))"
  shows "0 \<le> r \<and> waits (sock R') \<le> waits (sock R) \<and> (0 < r \<longrightarrow> waits (sock R') < waits (sock R))"
proof -
  let ?R = "R\<lparr>recv_end := 0, recv_start := 0\<rparr>"
  have e: "recv_end R = recv_start R" using run by (simp add: read_socket_def split: if_splits)
  show ?thesis
  proof (cases "len > recv_max_prefetch R")
    case True
    obtain res q Q where l: "read_large rd left p ?R = (res, q, Q)" by (metis surj_pair)
    have "res \<noteq> Some (-1) \<and> waits (sock Q) \<le> waits (sock R) \<and> (res = None \<longrightarrow> waits (sock Q) < waits (sock R))"
      using read_large_live [OF l] left avail by simp
    moreover have "res = Some (-1) \<or> res = Some 0 \<or> res = None" using read_large_result [OF l] .
    ultimately show ?thesis using run e True l by (auto simp: read_socket_def Let_def)
  next
    case False
    obtain res q Q where l: "read_prefetch rd len left p ?R = (res, q, Q)" by (metis surj_pair)
    have "res \<noteq> Some (-1) \<and> waits (sock Q) \<le> waits (sock R) \<and> (res = None \<longrightarrow> waits (sock Q) < waits (sock R))"
      using read_prefetch_live [OF l] left avail False by simp
    moreover have "res = Some (-1) \<or> res = Some 0 \<or> res = None" using read_prefetch_result [OF l] .
    ultimately show ?thesis using run e False l by (auto simp: read_socket_def Let_def)
  qed
qed

text \<open>When the bytes have arrived, a call succeeds or uses up one refusal of the socket.\<close>

lemma read_until_live:
  assumes "read_until rd len p R = Some (r, p', R')" and ok: "reader_ok R" and "state_offset R < len"
    and "len - state_offset R \<le> length (stream pending R)"
  shows "0 \<le> r \<and> waits (sock R') \<le> waits (sock R) \<and> (0 < r \<longrightarrow> waits (sock R') < waits (sock R))"
proof (cases "recv_end R > recv_start R")
  case False
  then have "read_socket rd len (len - state_offset R) p R = Some (r, p', R')"
    using assms(1,3) by (simp add: read_until_def)
  from read_socket_live [OF this] show ?thesis using False assms(3,4) by (simp add: stream_def prefetched_def)
next
  case True
  then have z: "state_offset R = 0" using ok by (simp add: reader_ok_def)
  let ?n = "min (recv_end R - recv_start R) len" and ?b = "drop (recv_start R) (recv_buf R)"
  show ?thesis
  proof (cases "len \<le> recv_end R - recv_start R")
    case True
    then show ?thesis using assms(1,3) \<open>recv_end R > recv_start R\<close> z by (simp add: read_until_def Let_def) auto
  next
    case False
    have "length (prefetched R) = ?n" using ok False by (auto simp: prefetched_def reader_ok_def)
    then have "len - ?n \<le> length (pending (sock R))" using assms(4) z by (simp add: stream_def)
    moreover have "read_socket rd len (len - ?n) (memcpy p 0 (take ?n ?b))
        (R\<lparr>recv_start := recv_start R + ?n, state_offset := ?n\<rparr>) = Some (r, p', R')"
      using assms(1,3) True z False by (simp add: read_until_def Let_def)
    note read_socket_live [OF this]
    ultimately show ?thesis using False by simp
  qed
qed

text \<open>Repeating the call until it returns 0, at most \<open>n\<close> times.\<close>

lemma retry_read_all:
  assumes "reader_ok R" and "state_offset R < len" and "len \<le> length p"
    and "len - state_offset R \<le> length (stream pending R)" and "waits (sock R) < n"
  shows "\<exists>p' R'. retry_read n rd len p R = Some (0, p', R') \<and>
    p' = memcpy p (state_offset R) (take (len - state_offset R) (stream pending R)) \<and>
    stream pending R' = drop (len - state_offset R) (stream pending R) \<and> reader_ok R' \<and> state_offset R' = 0"
  using assms
proof (induction n arbitrary: p R)
  case (Suc n)
  obtain r q Q where run: "read_until rd len p R = Some (r, q, Q)"
    and d: "r = -1 \<or> (\<exists>bs. until_done len p R bs r q Q)"
    using read_until_bytes [OF Suc.prems(1-3)] by blast
  note live = read_until_live [OF run Suc.prems(1,2,4)]
  then obtain bs where u: "until_done len p R bs r q Q" using d by auto
  show ?case
  proof (cases "r = 0")
    case True
    then show ?thesis using u run by (auto simp: until_done_def)
  next
    case False
    then have pos: "0 < r" "waits (sock Q) < n" using live Suc.prems(5) by auto
    have off: "state_offset Q = state_offset R + length bs" "length bs + nat r = len - state_offset R"
      using u False by (simp_all add: until_done_def)
    have q: "q = memcpy p (state_offset R) bs" "stream pending R = bs @ stream pending Q" "reader_ok Q"
      using u by (simp_all add: until_done_def)
    have fit: "state_offset R + length bs \<le> length p" using off(2) Suc.prems(2,3) by linarith
    then have "length q = length p" using q(1) by simp
    then obtain p' R' where ih: "retry_read n rd len q Q = Some (0, p', R')"
      "p' = memcpy q (state_offset Q) (take (len - state_offset Q) (stream pending Q))"
      "stream pending R' = drop (len - state_offset Q) (stream pending Q)" "reader_ok R'" "state_offset R' = 0"
      using Suc.IH [of Q q] q pos off Suc.prems(2-4) by force
    let ?cs = "take (len - state_offset Q) (stream pending Q)"
    have n: "len - state_offset R = length bs + (len - state_offset Q)" using off pos by linarith
    have "memcpy q (state_offset Q) ?cs = memcpy p (state_offset R) (bs @ ?cs)"
      unfolding q(1) off(1) by (rule memcpy_memcpy) (use off Suc.prems(2,3) pos in auto)
    then show ?thesis using ih run pos(1) n q(2) by simp
  qed
qed simp

end

subsection \<open>A socket given by a script\<close>

text \<open>Pieces of data, refusals, the end of the stream and failures, in the order in which they come.\<close>

datatype sock_in = Chunk "byte list" | Again | Intr | Eof | Err

fun script_read :: "sock_in list read_fn" where
  "script_read n [] = (Would_block, [])"
| "script_read n (Chunk bs # s) =
     (if bs = [] then script_read n s
      else if length bs \<le> n then (Got bs, s)
      else (Got (take n bs), Chunk (drop n bs) # s))"
| "script_read n (Again # s) = (Would_block, s)"
| "script_read n (Intr # s) = (Interrupted, s)"
| "script_read n (Eof # s) = (Got [], Eof # s)"
| "script_read n (Err # s) = (Read_failed, s)"

fun script_pending :: "sock_in list \<Rightarrow> byte list" where
  "script_pending [] = []"
| "script_pending (Chunk bs # s) = bs @ script_pending s"
| "script_pending (Again # s) = script_pending s"
| "script_pending (Intr # s) = script_pending s"
| "script_pending (Eof # s) = []"
| "script_pending (Err # s) = []"

fun script_waits :: "sock_in list \<Rightarrow> nat" where
  "script_waits [] = 0"
| "script_waits (Again # s) = Suc (script_waits s)"
| "script_waits (Intr # s) = Suc (script_waits s)"
| "script_waits (_ # s) = script_waits s"

interpretation script: live_socket script_read script_pending script_waits
proof
  fix n s bs and s' :: "sock_in list"
  show "script_read n s = (Got bs, s') \<Longrightarrow> length bs \<le> n \<and> script_pending s = bs @ script_pending s'"
    by (induction n s rule: script_read.induct) (auto split: if_splits)
  show "script_read n s = (Would_block, s') \<Longrightarrow> script_pending s' = script_pending s"
    "script_read n s = (Interrupted, s') \<Longrightarrow> script_pending s' = script_pending s"
    by (induction n s rule: script_read.induct) (auto split: if_splits)
  show "0 < n \<Longrightarrow> script_pending s \<noteq> [] \<Longrightarrow> script_read n s \<noteq> (Read_failed, s') \<and> script_read n s \<noteq> (Got [], s')"
    by (induction n s rule: script_read.induct) auto
  show "script_read n s = (Got bs, s') \<Longrightarrow> script_waits s' \<le> script_waits s"
    by (induction n s rule: script_read.induct) (auto split: if_splits)
  show "script_pending s \<noteq> [] \<Longrightarrow> script_read n s = (Would_block, s') \<Longrightarrow> script_waits s' < script_waits s"
    "script_pending s \<noteq> [] \<Longrightarrow> script_read n s = (Interrupted, s') \<Longrightarrow> script_waits s' < script_waits s"
    by (induction n s rule: script_read.induct) (auto split: if_splits)
qed

section \<open>Writing, proved\<close>

text \<open>What the code relies on: \<open>written\<close> is what the kernel has taken; it does not put the sender off for ever.\<close>

locale byte_sink =
  fixes tx :: "'o send_fn" and written :: "'o \<Rightarrow> byte list" and patience :: "'o \<Rightarrow> nat"
  assumes taken: "tx iov f s = (Accepted n, s') \<Longrightarrow> n \<le> length (concat iov) \<and> written s' = written s @ take n (concat iov)"
    and not_taken: "tx iov f s = (Send_again, s') \<Longrightarrow> written s' = written s"
    and not_taken_interrupted: "tx iov f s = (Send_interrupted, s') \<Longrightarrow> written s' = written s"
    and patience_taken: "tx iov f s = (Accepted n, s') \<Longrightarrow> patience s' \<le> patience s"
    and patience_nothing: "tx iov f s = (Accepted 0, s') \<Longrightarrow> concat iov \<noteq> [] \<Longrightarrow> patience s' < patience s"
    and patience_interrupted: "tx iov f s = (Send_interrupted, s') \<Longrightarrow> patience s' < patience s"

lemma concat_drain_iov: "concat (drain_iov r iov) = drop r (concat iov)"
  by (induction r iov rule: drain_iov.induct) auto

lemma int32_id [simp]: "n < 2 ^ 31 \<Longrightarrow> int32 n = int n"
  unfolding int32_def by transfer (simp add: signed_take_bit_int_eq_self)

context byte_sink
begin

lemma do_sendmsg_sends:
  assumes "length (concat iov) = len" and "len < 2 ^ 31"
  shows "\<exists>r s'. do_sendmsg tx iov len f s = Some (r, s') \<and>
    (r = -1 \<or> 0 \<le> r \<and> nat r \<le> len \<and> written s' = written s @ take (len - nat r) (concat iov))"
  using assms
proof (induction "len + patience s" arbitrary: iov len s rule: less_induct)
  case less
  show ?case
  proof (cases "len = 0")
    case True
    then show ?thesis using less.prems by (simp add: do_sendmsg.simps)
  next
    case False
    obtain x s1 where t: "tx iov f s = (x, s1)" by (metis surj_pair)
    note run = do_sendmsg.simps [of tx iov len f s]
    show ?thesis
    proof (cases x)
      case (Accepted n)
      then have n: "n \<le> len" "written s1 = written s @ take n (concat iov)" using taken t less.prems by auto
      show ?thesis
      proof (cases "n = len")
        case True
        then show ?thesis using run t False Accepted n by simp
      next
        case rest: False
        have "patience s1 \<le> patience s" "n = 0 \<longrightarrow> patience s1 < patience s"
          using patience_taken patience_nothing t Accepted less.prems(1) False by auto
        then have "len - n + patience s1 < len + patience s" using n False by (cases "n = 0") auto
        moreover have "length (concat (drain_iov n iov)) = len - n" using less.prems(1) by (simp add: concat_drain_iov)
        ultimately obtain r s' where ih: "do_sendmsg tx (drain_iov n iov) (len - n) f s1 = Some (r, s')"
          "r = -1 \<or> 0 \<le> r \<and> nat r \<le> len - n \<and> written s' = written s1 @ take (len - n - nat r) (drop n (concat iov))"
          using less.hyps [of "len - n" s1 "drain_iov n iov"] less.prems(2) unfolding concat_drain_iov by fastforce
        have "take (len - nat r) (concat iov) = take n (concat iov) @ take (len - n - nat r) (drop n (concat iov))"
          if "nat r \<le> len - n" using that n take_add [of n "len - n - nat r" "concat iov"] by simp
        then show ?thesis using ih n rest t False Accepted run by auto
      qed
    next
      case Send_again
      then show ?thesis using run t False not_taken less.prems by auto
    next
      case Send_interrupted
      then have "patience s1 < patience s" "written s1 = written s"
        using t patience_interrupted not_taken_interrupted by blast+
      then show ?thesis using less.hyps [of len s1 iov] less.prems run t False Send_interrupted by auto
    next
      case Send_failed
      then show ?thesis using run t False by auto
    qed
  qed
qed

lemma send_loop_sends:
  assumes "list_ok h bl" and "blen bl < 2 ^ 31"
  shows "\<exists>res bl' s'. send_loop tx h bl s = Some (Inr (res, bl', s')) \<and>
    (res = Some (-1) \<or> res = None \<and> list_ok h bl' \<and> blen bl' \<le> blen bl \<and> written s' @ contents h bl' = written s @ contents h bl)"
  using assms
proof (induction "blen bl" arbitrary: bl s rule: less_induct)
  case less
  note ok = less.prems(1)
  show ?case
  proof (cases "buffers bl = []")
    case True
    then show ?thesis using ok by (simp add: send_loop.simps)
  next
    case False
    let ?segs = "take IOV_MAX (buffers bl)" and ?tail = "drop IOV_MAX (buffers bl)"
    have segs: "segs_ok h ?segs" "segs_ok h ?tail" "?segs \<noteq> []"
      using ok False by (auto simp: list_ok_def segs_ok_def IOV_MAX_def dest: in_set_takeD in_set_dropD)
    have len: "blen bl = total_len ?segs + total_len ?tail"
      using ok total_len_simps(3) [of ?segs ?tail] by (simp add: list_ok_def)
    have ml: "w32 (sum_list (map plen ?segs)) = total_len ?segs" using len less.prems(2) by (simp add: total_len_def)
    let ?iov = "map (bytes h) ?segs"
    have iov: "length (concat ?iov) = total_len ?segs" using length_concat_bytes [OF segs(1)] .
    have c: "contents h bl = concat ?iov @ concat (map (bytes h) ?tail)"
      by (simp add: contents_def flip: concat_append map_append)
    have pos: "0 < total_len ?segs" using segs by (cases ?segs) auto
    obtain r s1 where d: "do_sendmsg tx ?iov (total_len ?segs) (IOV_MAX < length (buffers bl)) s = Some (r, s1)"
      "r = -1 \<or> 0 \<le> r \<and> nat r \<le> total_len ?segs \<and> written s1 = written s @ take (total_len ?segs - nat r) (concat ?iov)"
      using do_sendmsg_sends [OF iov] len less.prems(2) by fastforce
    note run = send_loop.simps [of tx h bl s, unfolded Let_def ml d(1)]
    let ?n = "total_len ?segs - nat r"
    show ?thesis
    proof (cases "r = -1")
      case True
      then show ?thesis using run d(1) False by simp
    next
      case ge: False
      then have r: "0 \<le> r" "nat r \<le> total_len ?segs" "written s1 = written s @ take ?n (concat ?iov)" using d(2) by auto
      have "claim_ready h (buffers bl) ?n None" by (simp add: claim_ready_def)
      obtain bl1 cb where sp: "(if ?n \<noteq> 0 then splice 0 ?n None bl else Inr (bl, None)) = Inr (bl1, cb)"
        "list_ok h bl1" "contents h bl1 = drop ?n (contents h bl)"
      proof (cases "?n = 0")
        case True
        then show ?thesis using that ok by simp
      next
        case False
        then show ?thesis using that splice_ok [OF ok _ _ \<open>claim_ready h (buffers bl) ?n None\<close>, of 0] pos len by auto
      qed
      have w: "written s1 @ contents h bl1 = written s @ contents h bl" using r(3) sp(3) c iov by simp
      have smaller: "blen bl1 = blen bl - ?n" using length_contents [OF sp(2)] length_contents [OF ok] sp(3) by simp
      have step: "send_loop tx h bl s = (if r > 0 then Some (Inr (None, bl1, s1)) else send_loop tx h bl1 s1)"
        using run sp(1) r(1) False by simp
      show ?thesis
      proof (cases "r > 0")
        case True
        then show ?thesis using step sp(2) w smaller by simp
      next
        case z: False
        then have "blen bl1 < blen bl" using smaller r pos len by simp
        then show ?thesis using less.hyps [of bl1 s1] step z sp(2) w less.prems(2) by fastforce
      qed
    qed
  qed
qed

end

subsection \<open>Queueing\<close>

text \<open>Making windows shareable clones blocks; neither the windows nor anything else changes its bytes.\<close>

lemma ptr_make_shareable_keeps:
  assumes "ptr_make_shareable p h = (p', h')" and "ptr_ok h p"
  shows "ptr_ok h' p'" and "bytes h' p' = bytes h p" and "plen p' = plen p"
    and "ptr_ok h q \<Longrightarrow> ptr_ok h' q" and "ptr_ok h q \<Longrightarrow> bytes h' q = bytes h q"
proof -
  show "ptr_ok h q \<Longrightarrow> ptr_ok h' q" "ptr_ok h q \<Longrightarrow> bytes h' q = bytes h q"
    using assms(1) new_raw_keeps
    by (auto simp: ptr_make_shareable_def raw_clone_def Let_def split: option.splits if_splits prod.splits)
  show "ptr_ok h' p'" "bytes h' p' = bytes h p" "plen p' = plen p"
    using assms
    by (auto simp: ptr_make_shareable_def raw_clone_def Let_def new_raw_def ptr_ok_def raw_len_def bytes_def ptr_c_str_def
      split: option.splits if_splits)
qed

lemma make_shareable_ptrs_keep:
  assumes "make_shareable_ptrs ps h = (ps', h')" and "\<forall>p \<in> set ps. ptr_ok h p"
  shows "map (bytes h') ps' = map (bytes h) ps \<and> (\<forall>p \<in> set ps'. ptr_ok h' p) \<and>
    (\<forall>q. ptr_ok h q \<longrightarrow> ptr_ok h' q \<and> bytes h' q = bytes h q)"
  using assms
proof (induction ps arbitrary: h ps' h')
  case (Cons p ps)
  obtain p1 h1 where 1: "ptr_make_shareable p h = (p1, h1)" by (metis surj_pair)
  obtain ps2 h2 where 2: "make_shareable_ptrs ps h1 = (ps2, h2)" by (metis surj_pair)
  have p: "ptr_ok h p" and ps: "\<forall>p \<in> set ps. ptr_ok h p" using Cons.prems(2) by auto
  note k = ptr_make_shareable_keeps [OF 1 p]
  have ih: "map (bytes h2) ps2 = map (bytes h1) ps \<and> (\<forall>p \<in> set ps2. ptr_ok h2 p) \<and>
    (\<forall>q. ptr_ok h1 q \<longrightarrow> ptr_ok h2 q \<and> bytes h2 q = bytes h1 q)"
    by (rule Cons.IH [OF 2]) (use k(4) ps in blast)
  have "ps' = p1 # ps2" "h' = h2" using Cons.prems(1) 1 2 by auto
  moreover have "map (bytes h1) ps = map (bytes h) ps" using k(5) ps by simp
  ultimately show ?case using ih k by simp
qed auto

lemma queue_out_contents:
  assumes "queue_out send_bl out h = (out', send_bl', h')" and "list_ok h out" and "list_ok h send_bl"
  shows "contents h' out' = contents h out @ contents h send_bl"
proof -
  have e: "blen bl = 0 \<Longrightarrow> contents h bl = []" if "list_ok h bl" for bl
    using length_contents [OF that] by simp
  show ?thesis
  proof (cases "blen send_bl \<noteq> 0 \<and> blen out \<noteq> 0")
    case True
    obtain ps h1 where m: "make_shareable_ptrs (buffers send_bl) h = (ps, h1)" by (metis surj_pair)
    have "\<forall>p \<in> set (buffers send_bl). ptr_ok h p" "\<forall>p \<in> set (buffers out). ptr_ok h p"
      using assms(2,3) by (auto simp: list_ok_def segs_ok_def)
    then have "map (bytes h1) ps = map (bytes h) (buffers send_bl)" "map (bytes h1) (buffers out) = map (bytes h) (buffers out)"
      using make_shareable_ptrs_keep [OF m] by simp_all
    moreover have "h' = h1" "buffers out' = buffers out @ ps"
      using assms(1) True m by (auto simp: queue_out_def claim_append_def bl_make_shareable_def Let_def)
    ultimately show ?thesis by (simp add: contents_def cong: map_cong)
  next
    case False
    then show ?thesis using assms e by (auto simp: queue_out_def split: if_splits)
  qed
qed

subsection \<open>A sink given by a script\<close>

text \<open>How many bytes each call accepts, or why it does not; at the end of the script everything is taken.\<close>

datatype sock_out = Takes nat | Refuses | Interrupts | Breaks

fun script_send :: "(sock_out list \<times> byte list) send_fn" where
  "script_send iov f ([], w) = (Accepted (length (concat iov)), ([], w @ concat iov))"
| "script_send iov f (Takes n # s, w) = (Accepted (min n (length (concat iov))), (s, w @ take n (concat iov)))"
| "script_send iov f (Refuses # s, w) = (Send_again, (s, w))"
| "script_send iov f (Interrupts # s, w) = (Send_interrupted, (s, w))"
| "script_send iov f (Breaks # s, w) = (Send_failed, (s, w))"

interpretation script_sink: byte_sink script_send snd "\<lambda>s. length (fst s)"
proof
  fix iov f n and s s' :: "sock_out list \<times> byte list"
  show "script_send iov f s = (Accepted n, s') \<Longrightarrow> n \<le> length (concat iov) \<and> snd s' = snd s @ take n (concat iov)"
    "script_send iov f s = (Accepted n, s') \<Longrightarrow> length (fst s') \<le> length (fst s)"
    "script_send iov f s = (Accepted 0, s') \<Longrightarrow> concat iov \<noteq> [] \<Longrightarrow> length (fst s') < length (fst s)"
    by (cases "(iov, f, s)" rule: script_send.cases; auto simp: min_def split: if_splits)+
  show "script_send iov f s = (Send_again, s') \<Longrightarrow> snd s' = snd s"
    "script_send iov f s = (Send_interrupted, s') \<Longrightarrow> snd s' = snd s"
    "script_send iov f s = (Send_interrupted, s') \<Longrightarrow> length (fst s') < length (fst s)"
    by (cases "(iov, f, s)" rule: script_send.cases; auto)+
qed

section \<open>Properties\<close>

definition sample_reader :: "sock_in list reader" where
  "sample_reader = \<lparr>recv_buf = replicate 4 0, recv_max_prefetch = 4, recv_start = 0, recv_end = 0, state_offset = 0,
     sock = [Chunk [1, 2], Again, Chunk [3], Intr, Chunk [4, 5, 6]]\<rparr>"

lemma sample_reader_facts:
  "reader_ok sample_reader" "state_offset sample_reader = 0" "stream script_pending sample_reader = [1, 2, 3, 4, 5, 6]"
  "script_waits (sock sample_reader) = 2"
  by (simp_all add: reader_ok_def sample_reader_def stream_def prefetched_def)



text \<open>
  Reading does not depend on how the stream is cut into pieces: when \<^verbatim>\<open>len\<close> bytes have arrived or
  will arrive, repeating the call whenever the socket has something ends after finitely many
  repetitions, and then exactly the next \<^verbatim>\<open>len\<close> bytes are in the buffer and have left the stream.
\<close>

theorem retried_read_gets_next_bytes:
  assumes "live_socket rd pending waits" and "reader_ok R" and "state_offset R = 0" and "0 < len" and "len \<le> length p"
    and "len \<le> length (stream pending R)"
  shows "\<exists>p' R'. retry_read (Suc (waits (sock R))) rd len p R = Some (0, p', R') \<and>
    p' = take len (stream pending R) @ drop len p \<and> stream pending R' = drop len (stream pending R) \<and>
    reader_ok R' \<and> state_offset R' = 0"
  using live_socket.retry_read_all [OF assms(1,2), of len p "Suc (waits (sock R))"] assms(3-6)
  by (simp add: memcpy_def)

theorem retried_read_gets_next_bytes_witness:
  "\<exists>p' R'. retry_read 3 script_read 5 (replicate 6 0) sample_reader = Some (0, p', R') \<and>
    p' = [1, 2, 3, 4, 5, 0] \<and> stream script_pending R' = [6]"
proof -
  have "live_socket script_read script_pending script_waits" by unfold_locales
  from retried_read_gets_next_bytes [OF this, of sample_reader 5 "replicate 6 0"]
  have "\<exists>p' R'. retry_read (Suc 2) script_read 5 (replicate 6 0) sample_reader = Some (0, p', R') \<and>
    p' = [1, 2, 3, 4, 5, 0] \<and> stream script_pending R' = [6]"
    using sample_reader_facts by (auto simp: numeral_eq_Suc)
  then show ?thesis by simp
qed



end
