(* ===== verification/Ordered_Map.thy ===== *)
theory Ordered_Map
  imports Msgr_Prelude
begin

text \<open>
  The \<^verbatim>\<open>std::map\<close> the queues are built on.  Iteration order matters (the code walks from
  \<^verbatim>\<open>begin()\<close> and takes the greatest key with \<^verbatim>\<open>rbegin()\<close>), so a map is the list of its
  entries in increasing key order; \<open>omap_sorted\<close> is the representation invariant.  The
  interface is stated as a locale of map operations and interpreted on these lists.
\<close>

section \<open>Operations\<close>

type_synonym ('k, 'v) omap = "('k \<times> 'v) list"

abbreviation omap_find :: "('k, 'v) omap \<Rightarrow> 'k \<Rightarrow> 'v option" where
  "omap_find \<equiv> map_of"

text \<open>\<^verbatim>\<open>m[k] = v\<close>.\<close>

fun omap_put :: "'k::linorder \<Rightarrow> 'v \<Rightarrow> ('k, 'v) omap \<Rightarrow> ('k, 'v) omap" where
  "omap_put k v [] = [(k, v)]"
| "omap_put k v ((k', v') # m) =
     (if k < k' then (k, v) # (k', v') # m
      else if k = k' then (k, v) # m
      else (k', v') # omap_put k v m)"

text \<open>\<^verbatim>\<open>m.erase(k)\<close>.\<close>

definition omap_erase :: "'k \<Rightarrow> ('k, 'v) omap \<Rightarrow> ('k, 'v) omap" where
  "omap_erase k m = filter (\<lambda>e. fst e \<noteq> k) m"

text \<open>\<^verbatim>\<open>f(m[k])\<close> for an \<open>f\<close> that updates the entry in place; \<^verbatim>\<open>operator[]\<close> first creates the
  entry with the default value \<open>d\<close>.\<close>

definition omap_update :: "'v \<Rightarrow> 'k::linorder \<Rightarrow> ('v \<Rightarrow> 'v) \<Rightarrow> ('k, 'v) omap \<Rightarrow> ('k, 'v) omap" where
  "omap_update d k f m = omap_put k (f (case omap_find m k of None \<Rightarrow> d | Some v \<Rightarrow> v)) m"

definition omap_sorted :: "('k::linorder, 'v) omap \<Rightarrow> bool" where
  "omap_sorted m \<longleftrightarrow> sorted_wrt (<) (map fst m)"

section \<open>The interface\<close>

locale map_interface =
  fixes find :: "'m \<Rightarrow> 'k::linorder \<Rightarrow> 'v option"
    and put :: "'k \<Rightarrow> 'v \<Rightarrow> 'm \<Rightarrow> 'm"
    and erase :: "'k \<Rightarrow> 'm \<Rightarrow> 'm"
    and empty_map :: 'm
    and wf :: "'m \<Rightarrow> bool"
  assumes find_empty: "find empty_map k = None"
    and find_put: "wf m \<Longrightarrow> find (put k v m) = (find m)(k \<mapsto> v)"
    and find_erase: "wf m \<Longrightarrow> find (erase k m) = (find m)(k := None)"
    and wf_empty: "wf empty_map"
    and wf_put: "wf m \<Longrightarrow> wf (put k v m)"
    and wf_erase: "wf m \<Longrightarrow> wf (erase k m)"
begin

lemma dom_put: "wf m \<Longrightarrow> dom (find (put k v m)) = insert k (dom (find m))"
  by (simp add: find_put)

lemma dom_erase: "wf m \<Longrightarrow> dom (find (erase k m)) = dom (find m) - {k}"
  by (simp add: find_erase)

lemma put_erase_find: "wf m \<Longrightarrow> find (put k v (erase k m)) = find (put k v m)"
  by (simp add: find_put find_erase wf_erase)

end

section \<open>The laws on sorted entry lists\<close>

lemma omap_sorted_simps [simp]:
  "omap_sorted []"
  "omap_sorted (e # m) \<longleftrightarrow> (\<forall>k \<in> fst ` set m. fst e < k) \<and> omap_sorted m"
  "omap_sorted (m @ m') \<longleftrightarrow>
     omap_sorted m \<and> omap_sorted m' \<and> (\<forall>k \<in> fst ` set m. \<forall>k' \<in> fst ` set m'. k < k')"
  by (auto simp: omap_sorted_def sorted_wrt_append)

lemma omap_sorted_distinct: "omap_sorted m \<Longrightarrow> distinct (map fst m)"
  by (simp add: omap_sorted_def strict_sorted_iff)

lemma fst_set_omap_put: "fst ` set (omap_put k v m) = insert k (fst ` set m)"
  by (induction k v m rule: omap_put.induct) (auto simp: image_iff)

lemma omap_find_put: "omap_find (omap_put k v m) = (omap_find m)(k \<mapsto> v)"
  by (induction k v m rule: omap_put.induct) (auto simp: fun_eq_iff)

lemma omap_sorted_put: "omap_sorted m \<Longrightarrow> omap_sorted (omap_put k v m)"
  by (induction k v m rule: omap_put.induct) (auto simp: fst_set_omap_put)

lemma omap_find_erase: "omap_find (omap_erase k m) = (omap_find m)(k := None)"
  by (induction m) (auto simp: omap_erase_def fun_eq_iff)

lemma omap_sorted_filter: "omap_sorted m \<Longrightarrow> omap_sorted (filter P m)"
  by (induction m) auto

lemma omap_sorted_erase: "omap_sorted m \<Longrightarrow> omap_sorted (omap_erase k m)"
  by (simp add: omap_erase_def omap_sorted_filter)

interpretation omap: map_interface omap_find omap_put omap_erase "[]" omap_sorted
  by unfold_locales
    (simp_all add: omap_find_put omap_find_erase omap_sorted_put omap_sorted_erase)

subsection \<open>Splitting a map at a key\<close>

text \<open>Every entry list is the entries below, at and above a key; updates change the middle.\<close>

lemma omap_put_split:
  fixes k :: "'k::linorder"
  assumes "\<forall>e \<in> set lo. fst e < k" and "\<forall>e \<in> set hi. k < fst e"
  shows "omap_put k v (lo @ hi) = lo @ (k, v) # hi"
    and "omap_put k v (lo @ (k, w) # hi) = lo @ (k, v) # hi"
  using assms by (induction lo) (cases hi; auto)+

lemma omap_find_outside:
  assumes "\<forall>e \<in> set m. fst e \<noteq> k"
  shows "omap_find m k = None" and "filter (\<lambda>e. fst e \<noteq> k) m = m"
  using assms by (auto simp: map_of_eq_None_iff filter_id_conv)

lemma omap_split_outside:
  fixes k :: "'k::linorder"
  shows "\<forall>e \<in> set m. fst e < k \<Longrightarrow> \<forall>e \<in> set m. fst e \<noteq> k"
    and "\<forall>e \<in> set m. k < fst e \<Longrightarrow> \<forall>e \<in> set m. fst e \<noteq> k"
  by auto

lemma omap_find_split:
  fixes k :: "'k::linorder"
  assumes "\<forall>e \<in> set lo. fst e < k" and "\<forall>e \<in> set hi. k < fst e"
  shows "omap_find (lo @ hi) k = None" and "omap_find (lo @ (k, w) # hi) k = Some w"
  using omap_find_outside [OF omap_split_outside(1) [OF assms(1)]]
    omap_find_outside [OF omap_split_outside(2) [OF assms(2)]]
  by (simp_all add: map_add_def)

lemma omap_erase_split:
  fixes k :: "'k::linorder"
  assumes "\<forall>e \<in> set lo. fst e < k" and "\<forall>e \<in> set hi. k < fst e"
  shows "omap_erase k (lo @ hi) = lo @ hi" and "omap_erase k (lo @ (k, w) # hi) = lo @ hi"
  using omap_find_outside [OF omap_split_outside(1) [OF assms(1)]]
    omap_find_outside [OF omap_split_outside(2) [OF assms(2)]]
  by (simp_all add: omap_erase_def)

lemma omap_splitE:
  fixes k :: "'k::linorder"
  assumes "omap_sorted m"
  obtains (absent) lo hi where "m = lo @ hi" "\<forall>e \<in> set lo. fst e < k" "\<forall>e \<in> set hi. k < fst e"
    | (present) lo w hi where "m = lo @ (k, w) # hi" "\<forall>e \<in> set lo. fst e < k" "\<forall>e \<in> set hi. k < fst e"
  using assms
proof (induction m arbitrary: thesis)
  case (Cons e m)
  obtain k' v' where e: "e = (k', v')" by (cases e)
  consider "k < k'" | "k = k'" | "k' < k" by (rule linorder_cases)
  then show ?case
  proof cases
    case 1
    then show ?thesis using Cons.prems(3) e by (intro Cons.prems(1) [of "[]" "e # m"]) auto
  next
    case 2
    then show ?thesis using Cons.prems(3) e by (intro Cons.prems(2) [of "[]" v' m]) auto
  next
    case 3
    have "omap_sorted m" using Cons.prems(3) by simp
    then show ?thesis
    proof (rule Cons.IH [rotated 2])
      fix lo hi
      assume "m = lo @ hi" "\<forall>e \<in> set lo. fst e < k" "\<forall>e \<in> set hi. k < fst e"
      then show thesis using 3 e by (intro Cons.prems(1) [of "e # lo" hi]) auto
    next
      fix lo w hi
      assume "m = lo @ (k, w) # hi" "\<forall>e \<in> set lo. fst e < k" "\<forall>e \<in> set hi. k < fst e"
      then show thesis using 3 e by (intro Cons.prems(2) [of "e # lo" w hi]) auto
    qed
  qed
qed auto

end
