(* ===== verification/Fifo_Queue.thy ===== *)
theory Fifo_Queue
  imports Ordered_Map
begin

text \<open>
  The prioritised queue of \<^verbatim>\<open>src/src/FIFOQueue.h\<close> behind the \<^verbatim>\<open>DispatchQueue::Queue\<close>
  interface of \<^verbatim>\<open>src/src/DispatchQueue.h\<close> (adapted by \<open>FIFOWrapper\<close> in
  \<^verbatim>\<open>src/src/async/AsyncMessenger.cc\<close>).  Strict items wait in one FIFO per priority, the
  others in a single FIFO that is served last.  The contract is the locale \<open>mqueue\<close>: the
  queue is a list in dequeue order, kept sorted by priority with arrival order within a
  priority.  A failing \<open>assert\<close> is the result \<open>None\<close>.
\<close>

section \<open>SubQueue\<close>

type_synonym ('k, 't) subqueue = "('k \<times> 't) list"

definition subqueue_enqueue :: "'k \<Rightarrow> 't \<Rightarrow> ('k, 't) subqueue \<Rightarrow> ('k, 't) subqueue" where
  "subqueue_enqueue cl item q = q @ [(cl, item)]"

definition subqueue_enqueue_front :: "'k \<Rightarrow> 't \<Rightarrow> ('k, 't) subqueue \<Rightarrow> ('k, 't) subqueue" where
  "subqueue_enqueue_front cl item q = (cl, item) # q"

definition subqueue_front :: "('k, 't) subqueue \<Rightarrow> ('k \<times> 't) option" where
  "subqueue_front q = (case q of [] \<Rightarrow> None | e # _ \<Rightarrow> Some e)"

definition subqueue_pop_front :: "('k, 't) subqueue \<Rightarrow> ('k, 't) subqueue option" where
  "subqueue_pop_front q = (case q of [] \<Rightarrow> None | _ # q' \<Rightarrow> Some q')"

definition subqueue_length :: "('k, 't) subqueue \<Rightarrow> u32" where
  "subqueue_length q = of_nat (length q)"

definition subqueue_empty :: "('k, 't) subqueue \<Rightarrow> bool" where
  "subqueue_empty q \<longleftrightarrow> q = []"

text \<open>
  The removal loops: the first pass walks from \<^verbatim>\<open>rbegin()\<close> and pushes the removed items to
  the front of \<open>out\<close> (a null pointer is \<open>None\<close>), the second erases them.
\<close>

definition subqueue_remove_by_filter ::
  "('t \<Rightarrow> bool) \<Rightarrow> 't list option \<Rightarrow> ('k, 't) subqueue \<Rightarrow> ('k, 't) subqueue \<times> 't list option" where
  "subqueue_remove_by_filter f out q =
     (filter (\<lambda>e. \<not> f (snd e)) q,
      map_option (\<lambda>l. foldl (\<lambda>l e. if f (snd e) then snd e # l else l) l (rev q)) out)"

definition subqueue_remove_by_class ::
  "'k \<Rightarrow> 't list option \<Rightarrow> ('k, 't) subqueue \<Rightarrow> ('k, 't) subqueue \<times> 't list option" where
  "subqueue_remove_by_class k out q =
     (filter (\<lambda>e. fst e \<noteq> k) q,
      map_option (\<lambda>l. foldl (\<lambda>l e. if fst e = k then snd e # l else l) l (rev q)) out)"

section \<open>FIFOQueue\<close>

record ('k, 't) fifo_queue =
  high_queue :: "(u32, ('k, 't) subqueue) omap"
  queue :: "('k, 't) subqueue"

definition fifo_new :: "('k, 't) fifo_queue" where
  "fifo_new = \<lparr>high_queue = [], queue = []\<rparr>"

fun fifo_length_loop :: "(u32, ('k, 't) subqueue) omap \<Rightarrow> u32 \<Rightarrow> u32 option" where
  "fifo_length_loop [] tot = Some tot"
| "fifo_length_loop ((p, sq) # hq) tot =
     (if subqueue_length sq = 0 then None
      else fifo_length_loop hq (tot + subqueue_length sq))"

definition fifo_length :: "('k, 't) fifo_queue \<Rightarrow> u32 option" where
  "fifo_length q =
     (case fifo_length_loop (high_queue q) 0 of
        None \<Rightarrow> None
      | Some tot \<Rightarrow> Some (tot + subqueue_length (queue q)))"

text \<open>The loops over the strict queues: an entry whose queue became empty is erased.\<close>

fun fifo_remove_loop ::
  "('t list option \<Rightarrow> ('k, 't) subqueue \<Rightarrow> ('k, 't) subqueue \<times> 't list option)
     \<Rightarrow> (u32, ('k, 't) subqueue) omap \<Rightarrow> 't list option
     \<Rightarrow> (u32, ('k, 't) subqueue) omap \<times> 't list option" where
  "fifo_remove_loop rem [] out = ([], out)"
| "fifo_remove_loop rem ((p, sq) # hq) out =
     (let (sq', out) = rem out sq;
          (hq', out) = fifo_remove_loop rem hq out
      in (if subqueue_empty sq' then hq' else (p, sq') # hq', out))"

definition fifo_remove_by_filter ::
  "('t \<Rightarrow> bool) \<Rightarrow> 't list option \<Rightarrow> ('k, 't) fifo_queue \<Rightarrow> ('k, 't) fifo_queue \<times> 't list option" where
  "fifo_remove_by_filter f removed q =
     (let (queue', removed) = subqueue_remove_by_filter f removed (queue q);
          (high', removed) = fifo_remove_loop (subqueue_remove_by_filter f) (high_queue q) removed
      in (q\<lparr>queue := queue', high_queue := high'\<rparr>, removed))"

definition fifo_remove_by_class ::
  "'k \<Rightarrow> 't list option \<Rightarrow> ('k, 't) fifo_queue \<Rightarrow> ('k, 't) fifo_queue \<times> 't list option" where
  "fifo_remove_by_class k out q =
     (let (queue', out) = subqueue_remove_by_class k out (queue q);
          (high', out) = fifo_remove_loop (subqueue_remove_by_class k) (high_queue q) out
      in (q\<lparr>queue := queue', high_queue := high'\<rparr>, out))"

definition fifo_enqueue_strict :: "'k \<Rightarrow> u32 \<Rightarrow> 't \<Rightarrow> ('k, 't) fifo_queue \<Rightarrow> ('k, 't) fifo_queue" where
  "fifo_enqueue_strict cl priority item q =
     q\<lparr>high_queue := omap_update [] priority (subqueue_enqueue cl item) (high_queue q)\<rparr>"

definition fifo_enqueue_strict_front :: "'k \<Rightarrow> u32 \<Rightarrow> 't \<Rightarrow> ('k, 't) fifo_queue \<Rightarrow> ('k, 't) fifo_queue" where
  "fifo_enqueue_strict_front cl priority item q =
     q\<lparr>high_queue := omap_update [] priority (subqueue_enqueue_front cl item) (high_queue q)\<rparr>"

definition fifo_enqueue :: "'k \<Rightarrow> u32 \<Rightarrow> u32 \<Rightarrow> 't \<Rightarrow> ('k, 't) fifo_queue \<Rightarrow> ('k, 't) fifo_queue" where
  "fifo_enqueue cl priority cost item q = q\<lparr>queue := subqueue_enqueue cl item (queue q)\<rparr>"

definition fifo_enqueue_front :: "'k \<Rightarrow> u32 \<Rightarrow> u32 \<Rightarrow> 't \<Rightarrow> ('k, 't) fifo_queue \<Rightarrow> ('k, 't) fifo_queue" where
  "fifo_enqueue_front cl priority cost item q = q\<lparr>queue := subqueue_enqueue_front cl item (queue q)\<rparr>"

definition fifo_empty :: "('k, 't) fifo_queue \<Rightarrow> bool" where
  "fifo_empty q \<longleftrightarrow> subqueue_empty (queue q) \<and> high_queue q = []"

definition fifo_dequeue :: "('k, 't) fifo_queue \<Rightarrow> ('t \<times> ('k, 't) fifo_queue) option" where
  "fifo_dequeue q =
     (if fifo_empty q then None
      else if high_queue q \<noteq> [] then
        (let (prio, sq) = last (high_queue q)
         in case subqueue_front sq of
              None \<Rightarrow> None
            | Some ret \<Rightarrow>
                (case subqueue_pop_front sq of
                   None \<Rightarrow> None
                 | Some sq' \<Rightarrow>
                     Some (snd ret,
                       q\<lparr>high_queue :=
                          (if subqueue_empty sq' then omap_erase prio (high_queue q)
                           else omap_put prio sq' (high_queue q))\<rparr>)))
      else
        (case subqueue_front (queue q) of
           None \<Rightarrow> None
         | Some ret \<Rightarrow>
             (case subqueue_pop_front (queue q) of
                None \<Rightarrow> None
              | Some queue' \<Rightarrow> Some (snd ret, q\<lparr>queue := queue'\<rparr>))))"

section \<open>The contract\<close>

text \<open>
  The contents of a queue in the order they will be dequeued.  An entry carries its strict
  priority (\<open>None\<close> for the items of the plain queue), its class and the item.
\<close>

type_synonym ('k, 't) mentry = "u32 option \<times> 'k \<times> 't"

definition at_least :: "u32 \<Rightarrow> ('k, 't) mentry \<Rightarrow> bool" where
  "at_least p e = (case fst e of None \<Rightarrow> False | Some p' \<Rightarrow> p \<le> p')"

text \<open>A strict item goes behind every item of at least its priority.\<close>

definition insert_strict :: "u32 \<Rightarrow> 'k \<Rightarrow> 't \<Rightarrow> ('k, 't) mentry list \<Rightarrow> ('k, 't) mentry list" where
  "insert_strict p k t es = takeWhile (at_least p) es @ (Some p, k, t) # dropWhile (at_least p) es"

text \<open>What a thread that dequeues \<open>n\<close> times gets.\<close>

fun dequeues :: "('q \<Rightarrow> ('t \<times> 'q) option) \<Rightarrow> nat \<Rightarrow> 'q \<Rightarrow> 't list" where
  "dequeues deq 0 q = []"
| "dequeues deq (Suc n) q = (case deq q of None \<Rightarrow> [] | Some (t, q') \<Rightarrow> t # dequeues deq n q')"

locale mqueue =
  fixes mempty :: "'q \<Rightarrow> bool"
    and menqueue_strict :: "'k \<Rightarrow> u32 \<Rightarrow> 't \<Rightarrow> 'q \<Rightarrow> 'q"
    and menqueue :: "'k \<Rightarrow> u32 \<Rightarrow> u32 \<Rightarrow> 't \<Rightarrow> 'q \<Rightarrow> 'q"
    and mremove_by_class :: "'k \<Rightarrow> 't list option \<Rightarrow> 'q \<Rightarrow> 'q \<times> 't list option"
    and mdequeue :: "'q \<Rightarrow> ('t \<times> 'q) option"
    and contents :: "'q \<Rightarrow> ('k, 't) mentry list"
    and ok :: "'q \<Rightarrow> bool"
  assumes empty_contents: "ok q \<Longrightarrow> mempty q \<longleftrightarrow> contents q = []"
    and strict_contents: "ok q \<Longrightarrow> contents (menqueue_strict k p t q) = insert_strict p k t (contents q)"
    and plain_contents: "ok q \<Longrightarrow> contents (menqueue k p c t q) = contents q @ [(None, k, t)]"
    and remove_contents: "ok q \<Longrightarrow> contents (fst (mremove_by_class k out q)) =
          filter (\<lambda>e. fst (snd e) \<noteq> k) (contents q)"
    and removed_items: "ok q \<Longrightarrow> snd (mremove_by_class k out q) =
          map_option (\<lambda>l. map (snd \<circ> snd) (filter (\<lambda>e. fst (snd e) = k) (contents q)) @ l) out"
    and dequeue_contents: "ok q \<Longrightarrow> contents q = e # es \<Longrightarrow>
          \<exists>q'. mdequeue q = Some (snd (snd e), q') \<and> contents q' = es \<and> ok q'"
    and dequeue_empty: "ok q \<Longrightarrow> contents q = [] \<Longrightarrow> mdequeue q = None"
    and ok_strict: "ok q \<Longrightarrow> ok (menqueue_strict k p t q)"
    and ok_plain: "ok q \<Longrightarrow> ok (menqueue k p c t q)"
    and ok_remove: "ok q \<Longrightarrow> ok (fst (mremove_by_class k out q))"
begin

lemma dequeues_contents: "ok q \<Longrightarrow> dequeues mdequeue n q = take n (map (snd \<circ> snd) (contents q))"
proof (induction n arbitrary: q)
  case (Suc n)
  show ?case
  proof (cases "contents q")
    case Nil
    with Suc.prems show ?thesis by (simp add: dequeue_empty)
  next
    case (Cons e es)
    from dequeue_contents [OF Suc.prems Cons] Suc.IH Cons show ?thesis by auto
  qed
qed simp

lemma dequeue_Some:
  assumes "ok q" and "mdequeue q = Some (t, q')"
  shows "ok q'" and "\<exists>p k. contents q = (p, k, t) # contents q'"
  using assms dequeue_empty dequeue_contents by (cases "contents q"; fastforce)+

lemma removed_disjoint:
  assumes "ok q"
  shows "\<forall>e \<in> set (contents (fst (mremove_by_class k out q))). fst (snd e) \<noteq> k"
  using assms by (simp add: remove_contents)

end

section \<open>The queue meets the contract\<close>

text \<open>The abstraction: the strict queues from the greatest priority down, then the plain queue.\<close>

definition strict_entries :: "(u32, ('k, 't) subqueue) omap \<Rightarrow> ('k, 't) mentry list" where
  "strict_entries hq = concat (map (\<lambda>(p, sq). map (\<lambda>e. (Some p, e)) sq) (rev hq))"

definition fifo_contents :: "('k, 't) fifo_queue \<Rightarrow> ('k, 't) mentry list" where
  "fifo_contents q = strict_entries (high_queue q) @ map (\<lambda>e. (None, e)) (queue q)"

definition fifo_ok :: "('k, 't) fifo_queue \<Rightarrow> bool" where
  "fifo_ok q \<longleftrightarrow> omap_sorted (high_queue q) \<and> (\<forall>e \<in> set (high_queue q). snd e \<noteq> [])"

lemmas subqueue_defs = subqueue_enqueue_def subqueue_enqueue_front_def subqueue_front_def
  subqueue_pop_front_def subqueue_length_def subqueue_empty_def

lemma strict_entries_simps [simp]:
  "strict_entries [] = []"
  "strict_entries ((p, sq) # hq) = strict_entries hq @ map (\<lambda>e. (Some p, e)) sq"
  "strict_entries (hq @ hq') = strict_entries hq' @ strict_entries hq"
  by (simp_all add: strict_entries_def)

lemma in_strict_entries:
  "e \<in> set (strict_entries hq) \<longleftrightarrow> (\<exists>p sq. (p, sq) \<in> set hq \<and> snd e \<in> set sq \<and> fst e = Some p)"
  by (cases e) (force simp: strict_entries_def)

lemma strict_entries_nil: "\<forall>e \<in> set hq. snd e \<noteq> [] \<Longrightarrow> strict_entries hq = [] \<longleftrightarrow> hq = []"
  by (cases hq rule: rev_cases) auto

text \<open>Where the insertion point of a strict item is.\<close>

lemma takeWhile_block:
  assumes "\<forall>x \<in> set xs. P x" and "\<forall>y \<in> set ys. \<not> P y"
  shows "takeWhile P (xs @ ys) = xs" and "dropWhile P (xs @ ys) = ys"
  using assms by (cases ys; auto simp: takeWhile_append2)+

lemma insert_strict_block:
  assumes "\<forall>e \<in> set hi. at_least p e" and "\<forall>e \<in> set lo. \<not> at_least p e"
  shows "insert_strict p k t (hi @ lo) = hi @ (Some p, k, t) # lo"
  unfolding insert_strict_def using takeWhile_block [OF assms] by simp

lemma strict_entries_update:
  assumes "omap_sorted hq" and "\<forall>e \<in> set rest. fst e = None"
  shows "strict_entries (omap_update [] p (subqueue_enqueue k t) hq) @ rest
    = insert_strict p k t (strict_entries hq @ rest)"
  using assms(1)
proof (cases rule: omap_splitE [where k = p])
  case (absent lo hi)
  have "insert_strict p k t (strict_entries hi @ (strict_entries lo @ rest))
      = strict_entries hi @ (Some p, k, t) # (strict_entries lo @ rest)"
    using absent assms(2)
    by (intro insert_strict_block) (fastforce simp: at_least_def in_strict_entries)+
  then show ?thesis using absent
    by (simp add: omap_update_def omap_find_split omap_put_split subqueue_enqueue_def del: map_of_append)
next
  case (present lo sq hi)
  have "insert_strict p k t ((strict_entries hi @ map (\<lambda>e. (Some p, e)) sq) @ (strict_entries lo @ rest))
      = (strict_entries hi @ map (\<lambda>e. (Some p, e)) sq) @ (Some p, k, t) # (strict_entries lo @ rest)"
    using present assms(2)
    by (intro insert_strict_block) (fastforce simp: at_least_def in_strict_entries)+
  then show ?thesis using present
    by (simp add: omap_update_def omap_find_split omap_put_split subqueue_enqueue_def del: map_of_append)
qed

lemma set_omap_put_values: "e \<in> set (omap_put k v m) \<Longrightarrow> e = (k, v) \<or> e \<in> set m"
  by (induction k v m rule: omap_put.induct) (auto split: if_splits)

lemma fifo_ok_strict: "fifo_ok q \<Longrightarrow> fifo_ok (fifo_enqueue_strict k p t q)"
  by (auto simp: fifo_ok_def fifo_enqueue_strict_def omap_update_def omap_sorted_put subqueue_enqueue_def
      dest!: set_omap_put_values)

lemma fifo_ok_strict_front: "fifo_ok q \<Longrightarrow> fifo_ok (fifo_enqueue_strict_front k p t q)"
  by (auto simp: fifo_ok_def fifo_enqueue_strict_front_def omap_update_def omap_sorted_put
      subqueue_enqueue_front_def dest!: set_omap_put_values)

subsection \<open>Removal\<close>

lemma append_fun:
  "(@) [] = (\<lambda>zs. zs)"
  "(@) (xs @ ys) = (\<lambda>zs. xs @ ys @ zs)"
  by (simp_all add: fun_eq_iff)

lemma foldl_push_front:
  "foldl (\<lambda>l e. if f e then g e # l else l) l (rev q) = map g (filter f q) @ l"
  by (induction q arbitrary: l) simp_all

lemma subqueue_remove_by_filter_eq:
  "subqueue_remove_by_filter f out q =
     (filter (\<lambda>e. \<not> f (snd e)) q, map_option (\<lambda>l. map snd (filter (\<lambda>e. f (snd e)) q) @ l) out)"
  by (simp add: subqueue_remove_by_filter_def foldl_push_front [where f = "\<lambda>e. f (snd e)"])

lemma subqueue_remove_by_class_eq:
  "subqueue_remove_by_class k out q =
     (filter (\<lambda>e. fst e \<noteq> k) q, map_option (\<lambda>l. map snd (filter (\<lambda>e. fst e = k) q) @ l) out)"
  by (simp add: subqueue_remove_by_class_def foldl_push_front [where f = "\<lambda>e. fst e = k"])

lemma fifo_remove_loop_keys:
  "fst ` set (fst (fifo_remove_loop rem hq out)) \<subseteq> fst ` set hq"
proof (induction hq arbitrary: out)
  case (Cons e hq)
  obtain p sq where e: "e = (p, sq)" by (cases e)
  show ?case using Cons.IH [of "snd (rem out sq)"] unfolding e by (auto simp: Let_def split_beta)
qed simp

lemma fifo_remove_loop_nonempty:
  "\<forall>e \<in> set (fst (fifo_remove_loop rem hq out)). snd e \<noteq> []"
proof (induction hq arbitrary: out)
  case (Cons e hq)
  obtain p sq where e: "e = (p, sq)" by (cases e)
  show ?case using Cons.IH [of "snd (rem out sq)"]
    unfolding e by (simp add: subqueue_empty_def Let_def split_beta)
qed simp

lemma fifo_remove_loop_sorted:
  "omap_sorted hq \<Longrightarrow> omap_sorted (fst (fifo_remove_loop rem hq out))"
proof (induction hq arbitrary: out)
  case (Cons e hq)
  obtain p sq where e: "e = (p, sq)" by (cases e)
  have "\<forall>k \<in> fst ` set (fst (fifo_remove_loop rem hq out')). p < k" for out'
    using Cons.prems e fifo_remove_loop_keys [of rem hq out'] by (simp only: omap_sorted_simps fst_conv) blast
  then show ?case using Cons e by (simp add: Let_def split_beta)
qed simp

lemma fifo_remove_loop_contents:
  assumes rem: "\<And>out sq. rem out sq =
    (filter (\<lambda>e. \<not> P e) sq, map_option (\<lambda>l. map snd (filter P sq) @ l) out)"
  shows "strict_entries (fst (fifo_remove_loop rem hq out)) = filter (\<lambda>e. \<not> P (snd e)) (strict_entries hq)"
    and "snd (fifo_remove_loop rem hq out) =
      map_option (\<lambda>l. map (snd \<circ> snd) (filter (\<lambda>e. P (snd e)) (strict_entries hq)) @ l) out"
  by (induction hq arbitrary: out)
    (auto simp: rem subqueue_empty_def filter_map o_def option.map_comp filter_empty_conv
      append_fun option.map_ident Let_def split_beta)

lemma fifo_remove_by_class_contents:
  "fifo_contents (fst (fifo_remove_by_class k out q)) = filter (\<lambda>e. fst (snd e) \<noteq> k) (fifo_contents q)"
  "snd (fifo_remove_by_class k out q) =
     map_option (\<lambda>l. map (snd \<circ> snd) (filter (\<lambda>e. fst (snd e) = k) (fifo_contents q)) @ l) out"
  by (auto simp: fifo_remove_by_class_def fifo_remove_loop_contents [where P = "\<lambda>e. fst e = k",
        OF subqueue_remove_by_class_eq] subqueue_remove_by_class_eq fifo_contents_def filter_map o_def
      option.map_comp Let_def split_beta)

lemma fifo_remove_by_filter_contents:
  "fifo_contents (fst (fifo_remove_by_filter f out q)) = filter (\<lambda>e. \<not> f (snd (snd e))) (fifo_contents q)"
  "snd (fifo_remove_by_filter f out q) =
     map_option (\<lambda>l. map (snd \<circ> snd) (filter (\<lambda>e. f (snd (snd e))) (fifo_contents q)) @ l) out"
  by (auto simp: fifo_remove_by_filter_def fifo_remove_loop_contents [where P = "\<lambda>e. f (snd e)",
        OF subqueue_remove_by_filter_eq] subqueue_remove_by_filter_eq fifo_contents_def filter_map o_def
      option.map_comp Let_def split_beta)

lemma fifo_ok_remove:
  "fifo_ok q \<Longrightarrow> fifo_ok (fst (fifo_remove_by_class k out q))"
  "fifo_ok q \<Longrightarrow> fifo_ok (fst (fifo_remove_by_filter f out q))"
  using fifo_remove_loop_nonempty
  by (simp_all add: fifo_remove_by_class_def fifo_remove_by_filter_def fifo_ok_def
      fifo_remove_loop_sorted Let_def split_beta)

subsection \<open>Dequeue\<close>

lemma fifo_dequeue_strict:
  assumes "fifo_ok q" and "high_queue q = hq @ [(p, e # sq)]"
  shows "fifo_dequeue q =
    Some (snd e, q\<lparr>high_queue := (if sq = [] then hq else hq @ [(p, sq)])\<rparr>)"
proof -
  have lt: "\<forall>e \<in> set hq. fst e < p" using assms by (simp add: fifo_ok_def)
  show ?thesis
    using assms(2) omap_erase_split(2) [OF lt, of "[]"] omap_put_split(2) [OF lt, of "[]"]
    by (simp add: fifo_dequeue_def fifo_empty_def subqueue_defs)
qed

lemma fifo_dequeue_contents:
  assumes ok: "fifo_ok q" and e: "fifo_contents q = e # es"
  shows "\<exists>q'. fifo_dequeue q = Some (snd (snd e), q') \<and> fifo_contents q' = es \<and> fifo_ok q'"
proof (cases "high_queue q" rule: rev_cases)
  case Nil
  then show ?thesis using ok e
    by (cases "queue q") (auto simp: fifo_contents_def fifo_dequeue_def fifo_empty_def subqueue_defs fifo_ok_def)
next
  case (snoc hq ps)
  obtain p x sq where ps: "ps = (p, x # sq)"
    using ok snoc by (cases ps; cases "snd ps") (auto simp: fifo_ok_def)
  have "fifo_dequeue q = Some (snd x, q\<lparr>high_queue := (if sq = [] then hq else hq @ [(p, sq)])\<rparr>)"
    using fifo_dequeue_strict ok snoc ps by blast
  then show ?thesis using e snoc ps ok by (auto simp: fifo_contents_def fifo_ok_def)
qed

lemma fifo_empty_contents: "fifo_ok q \<Longrightarrow> fifo_empty q \<longleftrightarrow> fifo_contents q = []"
  by (auto simp: fifo_empty_def fifo_contents_def subqueue_empty_def fifo_ok_def strict_entries_nil)

interpretation fifo: mqueue fifo_empty fifo_enqueue_strict fifo_enqueue fifo_remove_by_class fifo_dequeue
  fifo_contents fifo_ok
proof unfold_locales
  fix q :: "('a, 'b) fifo_queue" and k p t
  assume "fifo_ok q"
  then show "fifo_contents (fifo_enqueue_strict k p t q) = insert_strict p k t (fifo_contents q)"
    using strict_entries_update [of "high_queue q" "map (\<lambda>e. (None, e)) (queue q)"]
    by (force simp: fifo_contents_def fifo_enqueue_strict_def fifo_ok_def)
next
  fix q :: "('a, 'b) fifo_queue"
  assume "fifo_ok q" "fifo_contents q = []"
  then have "fifo_empty q" by (simp add: fifo_empty_contents)
  then show "fifo_dequeue q = None" by (simp add: fifo_dequeue_def)
qed (simp_all add: fifo_empty_contents fifo_remove_by_class_contents fifo_dequeue_contents
    fifo_ok_strict fifo_ok_remove,
    simp_all add: fifo_contents_def fifo_enqueue_def subqueue_enqueue_def fifo_ok_def)

section \<open>Properties\<close>

text \<open>Histories of a queue: what its users do to it.\<close>

datatype ('k, 't) queue_call =
    Enqueue_strict 'k u32 't
  | Enqueue_strict_front 'k u32 't
  | Enqueue 'k u32 u32 't
  | Enqueue_front 'k u32 u32 't
  | Remove_by_class 'k
  | Remove_by_filter "'t \<Rightarrow> bool"
  | Dequeue

fun fifo_call :: "('k, 't) queue_call \<Rightarrow> ('k, 't) fifo_queue \<Rightarrow> ('k, 't) fifo_queue" where
  "fifo_call (Enqueue_strict k p t) q = fifo_enqueue_strict k p t q"
| "fifo_call (Enqueue_strict_front k p t) q = fifo_enqueue_strict_front k p t q"
| "fifo_call (Enqueue k p c t) q = fifo_enqueue k p c t q"
| "fifo_call (Enqueue_front k p c t) q = fifo_enqueue_front k p c t q"
| "fifo_call (Remove_by_class k) q = fst (fifo_remove_by_class k None q)"
| "fifo_call (Remove_by_filter f) q = fst (fifo_remove_by_filter f None q)"
| "fifo_call Dequeue q = (case fifo_dequeue q of None \<Rightarrow> q | Some (_, q') \<Rightarrow> q')"

abbreviation fifo_after :: "('k, 't) queue_call list \<Rightarrow> ('k, 't) fifo_queue" where
  "fifo_after evs \<equiv> fold fifo_call evs fifo_new"

text \<open>The same history on the reference list.\<close>

definition above :: "u32 \<Rightarrow> ('k, 't) mentry \<Rightarrow> bool" where
  "above p e = (case fst e of None \<Rightarrow> False | Some p' \<Rightarrow> p < p')"

fun list_call :: "('k, 't) queue_call \<Rightarrow> ('k, 't) mentry list \<Rightarrow> ('k, 't) mentry list" where
  "list_call (Enqueue_strict k p t) es = insert_strict p k t es"
| "list_call (Enqueue_strict_front k p t) es =
     takeWhile (above p) es @ (Some p, k, t) # dropWhile (above p) es"
| "list_call (Enqueue k p c t) es = es @ [(None, k, t)]"
| "list_call (Enqueue_front k p c t) es =
     takeWhile (\<lambda>e. fst e \<noteq> None) es @ (None, k, t) # dropWhile (\<lambda>e. fst e \<noteq> None) es"
| "list_call (Remove_by_class k) es = filter (\<lambda>e. fst (snd e) \<noteq> k) es"
| "list_call (Remove_by_filter f) es = filter (\<lambda>e. \<not> f (snd (snd e))) es"
| "list_call Dequeue es = tl es"

lemma strict_entries_update_front:
  assumes "omap_sorted hq" and "\<forall>e \<in> set rest. fst e = None"
  shows "strict_entries (omap_update [] p (subqueue_enqueue_front k t) hq) @ rest
    = list_call (Enqueue_strict_front k p t) (strict_entries hq @ rest)"
  using assms(1)
proof (cases rule: omap_splitE [where k = p])
  case (absent lo hi)
  have hi: "\<forall>e \<in> set (strict_entries hi). above p e"
    and lo: "\<forall>e \<in> set (strict_entries lo @ rest). \<not> above p e"
    using absent assms(2) by (fastforce simp: above_def in_strict_entries)+
  show ?thesis using absent takeWhile_block [OF hi lo]
    by (simp add: omap_update_def omap_find_split omap_put_split subqueue_enqueue_front_def del: map_of_append)
next
  case (present lo sq hi)
  have hi: "\<forall>e \<in> set (strict_entries hi). above p e"
    and lo: "\<forall>e \<in> set (map (\<lambda>e. (Some p, e)) sq @ strict_entries lo @ rest). \<not> above p e"
    using present assms(2) by (fastforce simp: above_def in_strict_entries)+
  show ?thesis using present takeWhile_block [OF hi lo]
    by (simp add: omap_update_def omap_find_split omap_put_split subqueue_enqueue_front_def del: map_of_append)
qed

lemma fifo_enqueue_front_contents:
  "fifo_contents (fifo_enqueue_front k p c t q) = list_call (Enqueue_front k p c t) (fifo_contents q)"
proof -
  have hi: "\<forall>e \<in> set (strict_entries (high_queue q)). fst e \<noteq> None"
    by (auto simp: in_strict_entries)
  have lo: "\<forall>e \<in> set (map (\<lambda>e. (None, e)) (queue q)). \<not> fst e \<noteq> None" by simp
  show ?thesis using takeWhile_block [OF hi lo]
    by (simp add: fifo_contents_def fifo_enqueue_front_def subqueue_enqueue_front_def)
qed

lemma fifo_ok_call: "fifo_ok q \<Longrightarrow> fifo_ok (fifo_call ev q)"
proof (cases ev)
  case Dequeue
  assume ok: "fifo_ok q"
  with Dequeue show ?thesis
    using fifo.dequeue_Some(1) [OF ok] by (auto split: option.splits)
qed (simp_all add: fifo_ok_strict fifo_ok_strict_front fifo_ok_remove,
    simp_all add: fifo_ok_def fifo_enqueue_def fifo_enqueue_front_def)

lemma fifo_call_contents:
  assumes ok: "fifo_ok q"
  shows "fifo_contents (fifo_call ev q) = list_call ev (fifo_contents q)"
proof (cases ev)
  case Dequeue
  then show ?thesis
    using fifo.dequeue_contents [OF ok] fifo.dequeue_empty [OF ok] by (cases "fifo_contents q") fastforce+
next
  case (Enqueue_strict_front k p t)
  then show ?thesis
    using strict_entries_update_front [of "high_queue q" "map (\<lambda>e. (None, e)) (queue q)" p k t] ok
    by (simp add: fifo_contents_def fifo_enqueue_strict_front_def fifo_ok_def)
qed (simp_all only: fifo_call.simps list_call.simps fifo.strict_contents [OF ok] fifo.plain_contents [OF ok]
    fifo_enqueue_front_contents fifo_remove_by_class_contents fifo_remove_by_filter_contents)

lemma fifo_ok_after: "fifo_ok (fifo_after evs)"
proof -
  have "fifo_ok q \<Longrightarrow> fifo_ok (fold fifo_call evs q)" for q :: "('a, 'b) fifo_queue"
    by (induction evs arbitrary: q) (simp_all add: fifo_ok_call)
  moreover have "fifo_ok fifo_new" by (simp add: fifo_ok_def fifo_new_def)
  ultimately show ?thesis by blast
qed

lemma fifo_contents_after: "fifo_contents (fifo_after evs) = fold list_call evs []"
proof -
  have "fifo_ok q \<Longrightarrow> fifo_contents (fold fifo_call evs q) = fold list_call evs (fifo_contents q)"
    for q :: "('a, 'b) fifo_queue"
    by (induction evs arbitrary: q) (simp_all add: fifo_ok_call fifo_call_contents)
  then show ?thesis by (simp add: fifo_ok_def fifo_new_def fifo_contents_def)
qed

text \<open>
  C17. The queue refines the reference list: after any history of calls, \<open>n\<close> dequeues return
  exactly the first \<open>n\<close> items of the list on which the same history was played, where a
  strict item is inserted behind all items of at least its priority, a plain item at the
  very end, and a removed class disappears.
\<close>

theorem fifo_refines_list:
  "dequeues fifo_dequeue n (fifo_after evs) = take n (map (snd \<circ> snd) (fold list_call evs []))"
  by (simp add: fifo.dequeues_contents [OF fifo_ok_after] fifo_contents_after)

text \<open>How urgent an entry is: plain entries least, strict ones by priority.\<close>

definition urgency :: "('k, 't) mentry \<Rightarrow> nat" where
  "urgency e = (case fst e of None \<Rightarrow> 0 | Some p \<Rightarrow> Suc (unat p))"

lemma strict_entries_sorted:
  "omap_sorted hq \<Longrightarrow> sorted_wrt (\<ge>) (map urgency (strict_entries hq))"
proof (induction hq)
  case (Cons e hq)
  obtain p sq where e: "e = (p, sq)" by (cases e)
  have "sorted_wrt (\<ge>) (map urgency (map (\<lambda>x. (Some p, x)) sq))"
    by (induction sq) (auto simp: urgency_def)
  moreover have "urgency (Some p, x) = Suc (unat p)" for x :: "'a \<times> 'b" by (simp add: urgency_def)
  moreover have "\<forall>x \<in> set (strict_entries hq). Suc (unat p) \<le> urgency x"
    using Cons.prems e by (fastforce simp: in_strict_entries urgency_def word_less_nat_alt)
  ultimately show ?case using Cons e by (auto simp: sorted_wrt_append)
qed simp

text \<open>
  No history starves an urgent item: whatever was enqueued in whatever order, the items
  leave in non-increasing order of strict priority with the plain items last.
\<close>

theorem fifo_dequeues_most_urgent:
  "sorted_wrt (\<ge>) (map urgency (fifo_contents (fifo_after evs)))"
  using strict_entries_sorted [of "high_queue (fifo_after evs)"] fifo_ok_after [of evs]
  by (auto simp: fifo_contents_def fifo_ok_def sorted_wrt_append urgency_def sorted_wrt_map
      intro: sorted_wrt_mono_rel sorted_wrt_iff_nth_less [THEN iffD2])

text \<open>
  Removing a class hands over all of its items, in the order they would have been
  dequeued and in front of what the caller's list already held, and leaves the others.
\<close>

theorem fifo_remove_by_class_splits:
  "snd (fifo_remove_by_class k (Some l) (fifo_after evs))
      = Some (map (snd \<circ> snd) (filter (\<lambda>e. fst (snd e) = k) (fold list_call evs [])) @ l) \<and>
   dequeues fifo_dequeue n (fst (fifo_remove_by_class k (Some l) (fifo_after evs)))
      = take n (map (snd \<circ> snd) (filter (\<lambda>e. fst (snd e) \<noteq> k) (fold list_call evs [])))"
  using fifo_ok_remove(1) [OF fifo_ok_after [of evs], of k "Some l"]
  by (simp add: fifo.dequeues_contents fifo.removed_items [OF fifo_ok_after]
      fifo.remove_contents [OF fifo_ok_after] fifo_contents_after)

lemma fifo_length_loop_ok:
  "\<forall>e \<in> set hq. snd e \<noteq> [] \<and> length (snd e) < 2 ^ 32 \<Longrightarrow>
    fifo_length_loop hq tot = Some (tot + of_nat (length (strict_entries hq)))"
proof (induction hq arbitrary: tot)
  case (Cons e hq)
  obtain p sq where e: "e = (p, sq)" by (cases e)
  have "of_nat (length sq) \<noteq> (0::u32)"
    using Cons.prems e by (auto simp: word_of_nat_eq_0_iff dest: nat_dvd_not_less)
  then show ?case using Cons e by (simp add: subqueue_length_def algebra_simps)
qed simp

text \<open>
  After any history \<^verbatim>\<open>length()\<close> never trips its assertion, and it is the number of queued
  items modulo the width of \<^verbatim>\<open>unsigned\<close>, provided no single strict queue has grown to
  \<^verbatim>\<open>2^32\<close> items.
\<close>

theorem fifo_length_counts:
  assumes "\<forall>e \<in> set (high_queue (fifo_after evs)). length (snd e) < 2 ^ 32"
  shows "fifo_length (fifo_after evs) = Some (of_nat (length (fold list_call evs [])))"
proof -
  have "\<forall>e \<in> set (high_queue (fifo_after evs)). snd e \<noteq> [] \<and> length (snd e) < 2 ^ 32"
    using fifo_ok_after [of evs] assms unfolding fifo_ok_def by blast
  then show ?thesis
    by (simp add: fifo_length_def fifo_length_loop_ok subqueue_length_def
        fifo_contents_after [symmetric] fifo_contents_def)
qed

theorem fifo_length_counts_witness:
  "fifo_length (fifo_after [Enqueue_strict (1::nat) 127 (10::nat), Enqueue 2 5 0 11,
      Enqueue_strict 1 127 12, Enqueue_strict 3 196 13, Remove_by_class 3]) = Some 3"
  using fifo_length_counts [of "[Enqueue_strict (1::nat) 127 (10::nat), Enqueue 2 5 0 11,
      Enqueue_strict 1 127 12, Enqueue_strict 3 196 13, Remove_by_class 3]"]
  by (simp add: fifo_new_def fifo_enqueue_strict_def fifo_enqueue_def fifo_remove_by_class_def omap_update_def
      subqueue_remove_by_class_def subqueue_defs insert_strict_def at_least_def)

end
