(* ===== verification/Dispatch_Queue.thy ===== *)
theory Dispatch_Queue
  imports Complex_Main Fifo_Queue "HOL-Library.Product_Lexorder" "HOL-Library.Multiset"
begin

text \<open>
  \<^verbatim>\<open>DispatchQueue\<close> (\<^verbatim>\<open>src/src/DispatchQueue.h\<close>, \<^verbatim>\<open>src/src/DispatchQueue.cc\<close>): the queue between the
  connections and the dispatchers, with its dispatch thread, its local-delivery thread and
  the bookkeeping of arrival times.  Objects are addressed by pointers (\<open>0\<close> is null) and the
  messages live in a store.  Every critical section of the code is one operation on the
  state, the two threads and their callers interleave in \<open>dq_step\<close>, and a failing assertion is
  \<open>None\<close>.  The calls made to the \<^verbatim>\<open>Messenger\<close> are recorded, in order, in \<open>calls\<close>.
\<close>

section \<open>State\<close>

type_synonym ptr = nat

record queue_item =
  qi_type :: int
  qi_con :: ptr
  qi_m :: ptr

definition queue_item_message :: "ptr \<Rightarrow> queue_item" where
  "queue_item_message m = \<lparr>qi_type = -1, qi_con = 0, qi_m = m\<rparr>"

definition queue_item_code :: "int \<Rightarrow> ptr \<Rightarrow> queue_item" where
  "queue_item_code ty c = \<lparr>qi_type = ty, qi_con = c, qi_m = 0\<rparr>"

definition is_code :: "queue_item \<Rightarrow> bool" where
  "is_code qi \<longleftrightarrow> qi_type qi \<noteq> -1"

definition get_message :: "queue_item \<Rightarrow> ptr option" where
  "get_message qi = (if is_code qi then None else Some (qi_m qi))"

definition D_CONNECT :: int where "D_CONNECT = 1"
definition D_ACCEPT :: int where "D_ACCEPT = 2"
definition D_BAD_REMOTE_RESET :: int where "D_BAD_REMOTE_RESET = 3"
definition D_BAD_RESET :: int where "D_BAD_RESET = 4"

definition MSGR_MSG_PRIO_LOW :: int where "MSGR_MSG_PRIO_LOW = 64"
definition MSGR_MSG_PRIO_HIGHEST :: int where "MSGR_MSG_PRIO_HIGHEST = 255"

lemmas dcode_defs = D_CONNECT_def D_ACCEPT_def D_BAD_REMOTE_RESET_def D_BAD_RESET_def

text \<open>The fields of a \<^verbatim>\<open>Message\<close> the queue uses; \<open>recv_stamp\<close> is the stamp as a number of seconds.\<close>

record dmessage =
  nref :: int
  recv_stamp :: rat
  connection :: ptr
  cost :: int
  dispatch_throttle_size :: u64

datatype mcall =
    Ms_deliver_handle_remote_reset ptr
  | Ms_deliver_handle_connect ptr
  | Ms_deliver_handle_accept ptr
  | Ms_deliver_handle_reset ptr
  | Ms_deliver_dispatch ptr
  | Ms_fast_dispatch ptr
  | Ms_fast_preprocess ptr
  | Dispatch_throttle_release u64

text \<open>Where a thread is: before its critical section, outside it with an item in hand, blocked.\<close>

datatype 'i thread = Not_started | At_loop | In_hand 'i | Waiting | Exited

record dq_state =
  mqueue :: "(u64, queue_item) fifo_queue"
  marrival :: "(rat \<times> ptr, unit) omap"
  marrival_map :: "(ptr, rat \<times> ptr) omap"
  next_pipe_id :: u64
  stop :: bool
  stop_local_delivery :: bool
  local_messages :: "(ptr \<times> int) list"
  dispatch_thread :: "queue_item thread"
  local_delivery_thread :: "(ptr \<times> int) thread"
  msgs :: "ptr \<Rightarrow> dmessage"
  calls :: "mcall list"

definition dq_new :: "(ptr \<Rightarrow> dmessage) \<Rightarrow> dq_state" where
  "dq_new ms = \<lparr>mqueue = fifo_new, marrival = [], marrival_map = [], next_pipe_id = 1, stop = False,
     stop_local_delivery = False, local_messages = [], dispatch_thread = Not_started,
     local_delivery_thread = Not_started, msgs = ms, calls = []\<rparr>"

section \<open>Operations\<close>

text \<open>\<^verbatim>\<open>get()\<close> and \<^verbatim>\<open>put()\<close> of a message reference, \<^verbatim>\<open>Cond::Signal\<close>, and a call of the messenger.\<close>

definition msg_ref :: "int \<Rightarrow> ptr \<Rightarrow> dq_state \<Rightarrow> dq_state" where
  "msg_ref d m s = s\<lparr>msgs := (msgs s)(m := (msgs s m)\<lparr>nref := nref (msgs s m) + d\<rparr>)\<rparr>"

definition wake :: "'i thread \<Rightarrow> 'i thread" where
  "wake th = (case th of Waiting \<Rightarrow> At_loop | _ \<Rightarrow> th)"

definition call :: "mcall \<Rightarrow> dq_state \<Rightarrow> dq_state" where
  "call c s = s\<lparr>calls := calls s @ [c]\<rparr>"

definition add_arrival :: "ptr \<Rightarrow> dq_state \<Rightarrow> dq_state" where
  "add_arrival m s =
     (let it = (recv_stamp (msgs s m), m)
      in s\<lparr>marrival := omap_put it () (marrival s),
           marrival_map := (case omap_find (marrival_map s) m of
                              None \<Rightarrow> omap_put m it (marrival_map s)
                            | Some _ \<Rightarrow> marrival_map s)\<rparr>)"

definition remove_arrival :: "ptr \<Rightarrow> dq_state \<Rightarrow> dq_state option" where
  "remove_arrival m s =
     (case omap_find (marrival_map s) m of
        None \<Rightarrow> None
      | Some it \<Rightarrow> Some (s\<lparr>marrival := omap_erase it (marrival s),
                            marrival_map := omap_erase m (marrival_map s)\<rparr>))"

definition get_max_age :: "rat \<Rightarrow> dq_state \<Rightarrow> rat" where
  "get_max_age now s = (case marrival s of [] \<Rightarrow> 0 | (it, _) # _ \<Rightarrow> now - fst it)"

definition get_queue_len :: "dq_state \<Rightarrow> u32 option" where
  "get_queue_len s = fifo_length (mqueue s)"

definition pre_dispatch :: "ptr \<Rightarrow> dq_state \<Rightarrow> u64 \<times> dq_state" where
  "pre_dispatch m s =
     (dispatch_throttle_size (msgs s m),
      s\<lparr>msgs := (msgs s)(m := (msgs s m)\<lparr>dispatch_throttle_size := 0\<rparr>)\<rparr>)"

definition post_dispatch :: "u64 \<Rightarrow> dq_state \<Rightarrow> dq_state" where
  "post_dispatch msize s = call (Dispatch_throttle_release msize) s"

definition fast_dispatch :: "ptr \<Rightarrow> dq_state \<Rightarrow> dq_state" where
  "fast_dispatch m s =
     (let (msize, s) = pre_dispatch m s
      in post_dispatch msize (call (Ms_fast_dispatch m) s))"

text \<open>The queue item holds a reference to its message.\<close>

definition enqueue :: "ptr \<Rightarrow> int \<Rightarrow> u64 \<Rightarrow> dq_state \<Rightarrow> dq_state" where
  "enqueue m priority pipe_id s =
     (let s = (if fifo_empty (mqueue s) then s\<lparr>dispatch_thread := wake (dispatch_thread s)\<rparr> else s);
          s = msg_ref 1 m (add_arrival m s)
      in if priority \<ge> MSGR_MSG_PRIO_LOW
         then s\<lparr>mqueue := fifo_enqueue_strict pipe_id (of_int priority) (queue_item_message m) (mqueue s)\<rparr>
         else s\<lparr>mqueue := fifo_enqueue pipe_id (of_int priority) (of_int (cost (msgs s m)))
                            (queue_item_message m) (mqueue s)\<rparr>)"

definition local_delivery :: "ptr \<Rightarrow> rat \<Rightarrow> ptr \<Rightarrow> int \<Rightarrow> dq_state \<Rightarrow> dq_state" where
  "local_delivery loopback now m priority s =
     (let s = s\<lparr>msgs := (msgs s)(m := (msgs s m)\<lparr>connection := loopback, recv_stamp := now\<rparr>)\<rparr>;
          s = (if local_messages s = []
               then s\<lparr>local_delivery_thread := wake (local_delivery_thread s)\<rparr> else s)
      in s\<lparr>local_messages := local_messages s @ [(m, priority)]\<rparr>)"

text \<open>The loop of \<^verbatim>\<open>run_local_delivery\<close>: under the lock, and with the lock released.\<close>

definition run_local_delivery_locked :: "dq_state \<Rightarrow> dq_state" where
  "run_local_delivery_locked s =
     (case local_messages s of
        mp # mps \<Rightarrow> s\<lparr>local_messages := mps, local_delivery_thread := In_hand mp\<rparr>
      | [] \<Rightarrow> s\<lparr>local_delivery_thread := (if stop_local_delivery s then Exited else Waiting)\<rparr>)"

definition run_local_delivery_unlocked :: "(ptr \<Rightarrow> bool) \<Rightarrow> ptr \<times> int \<Rightarrow> dq_state \<Rightarrow> dq_state" where
  "run_local_delivery_unlocked can_fast_dispatch mp s =
     (let m = fst mp; priority = snd mp;
          s = call (Ms_fast_preprocess m) s;
          s = (if can_fast_dispatch m then fast_dispatch m s else enqueue m priority 0 s)
      in s\<lparr>local_delivery_thread := At_loop\<rparr>)"

text \<open>The loop of \<^verbatim>\<open>entry\<close>, likewise.  The item is destroyed at the end of the body.\<close>

definition entry_locked :: "dq_state \<Rightarrow> dq_state option" where
  "entry_locked s =
     (if fifo_empty (mqueue s)
      then Some (s\<lparr>dispatch_thread := (if stop s then Exited else Waiting)\<rparr>)
      else (case fifo_dequeue (mqueue s) of
              None \<Rightarrow> None
            | Some (qitem, q) \<Rightarrow>
                (let s = s\<lparr>mqueue := q, dispatch_thread := In_hand qitem\<rparr>
                 in case get_message qitem of
                      None \<Rightarrow> Some s
                    | Some m \<Rightarrow> remove_arrival m s)))"

definition deliver_code :: "int \<Rightarrow> ptr \<Rightarrow> mcall option" where
  "deliver_code code con =
     (if code = D_BAD_REMOTE_RESET then Some (Ms_deliver_handle_remote_reset con)
      else if code = D_CONNECT then Some (Ms_deliver_handle_connect con)
      else if code = D_ACCEPT then Some (Ms_deliver_handle_accept con)
      else if code = D_BAD_RESET then Some (Ms_deliver_handle_reset con)
      else None)"

definition entry_unlocked :: "queue_item \<Rightarrow> dq_state \<Rightarrow> dq_state option" where
  "entry_unlocked qitem s =
     (case get_message qitem of
        None \<Rightarrow> (case deliver_code (qi_type qitem) (qi_con qitem) of
                    None \<Rightarrow> None
                  | Some c \<Rightarrow> Some (call c (s\<lparr>dispatch_thread := At_loop\<rparr>)))
      | Some m \<Rightarrow>
          (let s = (if stop s then msg_ref (-1) m s
                    else (let (msize, s) = pre_dispatch m s
                          in post_dispatch msize (call (Ms_deliver_dispatch m) s)))
           in Some (msg_ref (-1) m (s\<lparr>dispatch_thread := At_loop\<rparr>))))"

fun discard_loop :: "queue_item list \<Rightarrow> dq_state \<Rightarrow> dq_state option" where
  "discard_loop [] s = Some s"
| "discard_loop (qi # removed) s =
     (case get_message qi of
        None \<Rightarrow> None
      | Some m \<Rightarrow>
          (case remove_arrival m s of
             None \<Rightarrow> None
           | Some s \<Rightarrow>
               discard_loop removed
                 (msg_ref (-1) m (call (Dispatch_throttle_release (dispatch_throttle_size (msgs s m))) s))))"

text \<open>The list of removed items is destroyed on return, which drops the items' references.\<close>

definition discard_queue :: "u64 \<Rightarrow> dq_state \<Rightarrow> dq_state option" where
  "discard_queue pipe_id s =
     (let (q, removed) = fifo_remove_by_class pipe_id (Some []) (mqueue s)
      in map_option (fold (msg_ref (-1)) (map qi_m (the removed)))
           (discard_loop (the removed) (s\<lparr>mqueue := q\<rparr>)))"

definition queue_code :: "int \<Rightarrow> ptr \<Rightarrow> dq_state \<Rightarrow> dq_state" where
  "queue_code code con s =
     (if stop s then s
      else s\<lparr>mqueue := fifo_enqueue_strict 0 (of_int MSGR_MSG_PRIO_HIGHEST) (queue_item_code code con) (mqueue s),
             dispatch_thread := wake (dispatch_thread s)\<rparr>)"

definition queue_connect :: "ptr \<Rightarrow> dq_state \<Rightarrow> dq_state" where
  "queue_connect = queue_code D_CONNECT"

definition queue_accept :: "ptr \<Rightarrow> dq_state \<Rightarrow> dq_state" where
  "queue_accept = queue_code D_ACCEPT"

definition queue_remote_reset :: "ptr \<Rightarrow> dq_state \<Rightarrow> dq_state" where
  "queue_remote_reset = queue_code D_BAD_REMOTE_RESET"

definition queue_reset :: "ptr \<Rightarrow> dq_state \<Rightarrow> dq_state" where
  "queue_reset = queue_code D_BAD_RESET"

definition get_id :: "dq_state \<Rightarrow> u64 \<times> dq_state" where
  "get_id s = (next_pipe_id s, s\<lparr>next_pipe_id := next_pipe_id s + 1\<rparr>)"

definition dq_start :: "dq_state \<Rightarrow> dq_state option" where
  "dq_start s =
     (if stop s \<or> dispatch_thread s \<noteq> Not_started then None
      else Some (s\<lparr>dispatch_thread := At_loop, local_delivery_thread := At_loop\<rparr>))"

text \<open>
  \<^verbatim>\<open>wait()\<close> joins the dispatch thread; \<^verbatim>\<open>shutdown()\<close> stops and joins the local-delivery thread,
  then tells the dispatch thread to stop.  A join is enabled when the thread has exited.
\<close>

definition dq_wait :: "dq_state \<Rightarrow> dq_state" where
  "dq_wait s = s\<lparr>dispatch_thread := Not_started, stop := False\<rparr>"

definition shutdown_local :: "dq_state \<Rightarrow> dq_state" where
  "shutdown_local s =
     s\<lparr>stop_local_delivery := True, local_delivery_thread := wake (local_delivery_thread s)\<rparr>"

definition shutdown_dispatch :: "dq_state \<Rightarrow> dq_state" where
  "shutdown_dispatch s =
     s\<lparr>local_delivery_thread := Not_started, stop_local_delivery := False,
       stop := True, dispatch_thread := wake (dispatch_thread s)\<rparr>"

section \<open>The threads and their callers\<close>

definition queued :: "dq_state \<Rightarrow> ptr list" where
  "queued s = List.map_filter (\<lambda>e. get_message (snd (snd e))) (fifo_contents (mqueue s))"

definition local_hand :: "dq_state \<Rightarrow> ptr list" where
  "local_hand s = (case local_delivery_thread s of In_hand mp \<Rightarrow> [fst mp] | _ \<Rightarrow> [])"

definition pending :: "dq_state \<Rightarrow> ptr list" where
  "pending s = queued s @ map fst (local_messages s) @ local_hand s"

text \<open>
  One step of the system.  The callers hand over messages that are not pending already, only
  discard ids other than 0 (\<^verbatim>\<open>get_id\<close> starts at 1), and start, shut down and wait in turn.
\<close>

inductive dq_step :: "(ptr \<Rightarrow> bool) \<Rightarrow> dq_state \<Rightarrow> dq_state \<Rightarrow> bool" for can_fast where
  enqueue: "m \<notin> set (pending s) \<Longrightarrow> dq_step can_fast s (enqueue m priority pipe_id s)"
| local: "m \<notin> set (pending s) \<Longrightarrow> dq_step can_fast s (local_delivery loopback now m priority s)"
| connect: "dq_step can_fast s (queue_connect con s)"
| accept: "dq_step can_fast s (queue_accept con s)"
| remote_reset: "dq_step can_fast s (queue_remote_reset con s)"
| reset: "dq_step can_fast s (queue_reset con s)"
| discard: "pipe_id \<noteq> 0 \<Longrightarrow> discard_queue pipe_id s = Some s' \<Longrightarrow> dq_step can_fast s s'"
| get_id: "dq_step can_fast s (snd (get_id s))"
| start: "local_delivery_thread s = Not_started \<Longrightarrow> dq_start s = Some s' \<Longrightarrow> dq_step can_fast s s'"
| shutdown1: "dq_step can_fast s (shutdown_local s)"
| shutdown2: "local_delivery_thread s = Exited \<Longrightarrow> dq_step can_fast s (shutdown_dispatch s)"
| wait: "dispatch_thread s = Exited \<Longrightarrow> dq_step can_fast s (dq_wait s)"
| local_locked: "local_delivery_thread s = At_loop \<Longrightarrow>
    dq_step can_fast s (run_local_delivery_locked s)"
| local_unlocked: "local_delivery_thread s = In_hand mp \<Longrightarrow>
    dq_step can_fast s (run_local_delivery_unlocked can_fast mp s)"
| entry_locked: "dispatch_thread s = At_loop \<Longrightarrow> entry_locked s = Some s' \<Longrightarrow> dq_step can_fast s s'"
| entry_unlocked: "dispatch_thread s = In_hand qi \<Longrightarrow> entry_unlocked qi s = Some s' \<Longrightarrow>
    dq_step can_fast s s'"
| spurious: "dq_step can_fast s (s\<lparr>dispatch_thread := wake (dispatch_thread s)\<rparr>)"
| spurious_local: "dq_step can_fast s (s\<lparr>local_delivery_thread := wake (local_delivery_thread s)\<rparr>)"

inductive dq_reachable :: "(ptr \<Rightarrow> bool) \<Rightarrow> dq_state \<Rightarrow> bool" for can_fast where
  init: "dq_reachable can_fast (dq_new ms)"
| step: "dq_reachable can_fast s \<Longrightarrow> dq_step can_fast s s' \<Longrightarrow> dq_reachable can_fast s'"

section \<open>The invariant\<close>

text \<open>Every queued message has one arrival record, reachable through the index.\<close>

definition arrivals_ok :: "ptr set \<Rightarrow> dq_state \<Rightarrow> bool" where
  "arrivals_ok ms s \<longleftrightarrow>
     omap_sorted (marrival s) \<and> omap_sorted (marrival_map s) \<and>
     fst ` set (marrival_map s) = ms \<and>
     (\<forall>e \<in> set (marrival_map s). snd (snd e) = fst e) \<and>
     fst ` set (marrival s) = snd ` set (marrival_map s)"

definition codes_ok :: "(u64, queue_item) mentry list \<Rightarrow> bool" where
  "codes_ok es \<longleftrightarrow> (\<forall>e \<in> set es. is_code (snd (snd e)) \<longrightarrow>
     fst (snd e) = 0 \<and> qi_type (snd (snd e)) \<in> {D_CONNECT, D_ACCEPT, D_BAD_REMOTE_RESET, D_BAD_RESET})"

text \<open>A blocked thread has nothing to do: no wake-up was lost.\<close>

definition threads_ok :: "dq_state \<Rightarrow> bool" where
  "threads_ok s \<longleftrightarrow>
     (dispatch_thread s = Waiting \<longrightarrow> fifo_empty (mqueue s) \<and> \<not> stop s) \<and>
     (local_delivery_thread s = Waiting \<longrightarrow> local_messages s = [] \<and> \<not> stop_local_delivery s)"

definition hand_ok :: "dq_state \<Rightarrow> bool" where
  "hand_ok s \<longleftrightarrow> (\<forall>qi. dispatch_thread s = In_hand qi \<longrightarrow> is_code qi \<longrightarrow>
     qi_type qi \<in> {D_CONNECT, D_ACCEPT, D_BAD_REMOTE_RESET, D_BAD_RESET})"

definition dq_inv :: "dq_state \<Rightarrow> bool" where
  "dq_inv s \<longleftrightarrow> fifo_ok (mqueue s) \<and> distinct (pending s) \<and> arrivals_ok (set (queued s)) s \<and>
     codes_ok (fifo_contents (mqueue s)) \<and> threads_ok s \<and> hand_ok s"

subsection \<open>Arrival records\<close>

lemma omap_put_new:
  "k \<notin> fst ` set m \<Longrightarrow> set (omap_put k v m) = insert (k, v) (set m)"
  by (induction k v m rule: omap_put.induct) auto

lemma add_arrival_ok:
  assumes ok: "arrivals_ok ms s" and m: "m \<notin> ms"
  shows "arrivals_ok (insert m ms) (add_arrival m s)"
proof -
  have "omap_find (marrival_map s) m = None"
    using ok m by (simp add: arrivals_ok_def map_of_eq_None_iff)
  then show ?thesis
    using ok m by (auto simp: arrivals_ok_def add_arrival_def Let_def fst_set_omap_put omap_put_new
        omap_sorted_put)
qed

lemma remove_arrival_ok:
  assumes ok: "arrivals_ok ms s" and m: "m \<in> ms"
  shows "\<exists>s'. remove_arrival m s = Some s' \<and> arrivals_ok (ms - {m}) s' \<and>
    s' = s\<lparr>marrival := marrival s', marrival_map := marrival_map s'\<rparr>"
proof -
  have "m \<in> fst ` set (marrival_map s)" using ok m by (simp add: arrivals_ok_def)
  then obtain it where it: "omap_find (marrival_map s) m = Some it"
    by (meson map_of_eq_None_iff not_Some_eq)
  then have mem: "(m, it) \<in> set (marrival_map s)" by (rule map_of_SomeD)
  have own: "snd (snd e) = fst e" if "e \<in> set (marrival_map s)" for e
    using ok that by (simp add: arrivals_ok_def)
  have "fst e = m \<longleftrightarrow> snd e = it" if "e \<in> set (marrival_map s)" for e
  proof
    have "distinct (map fst (marrival_map s))"
      using ok omap_sorted_distinct unfolding arrivals_ok_def by blast
    moreover assume "fst e = m"
    ultimately show "snd e = it" using that it map_of_is_SomeI [of "marrival_map s" m "snd e"] by force
  next
    assume "snd e = it"
    then show "fst e = m" using own [OF that] own [OF mem] by simp
  qed
  then have "snd ` set (omap_erase m (marrival_map s)) = snd ` set (marrival_map s) - {it}"
    by (auto simp: omap_erase_def)
  moreover have "fst ` set (omap_erase it (marrival s)) = fst ` set (marrival s) - {it}"
    by (auto simp: omap_erase_def)
  moreover have "fst ` set (omap_erase m (marrival_map s)) = fst ` set (marrival_map s) - {m}"
    by (auto simp: omap_erase_def)
  moreover have "\<forall>e \<in> set (omap_erase m (marrival_map s)). snd (snd e) = fst e"
    using own by (simp add: omap_erase_def)
  ultimately show ?thesis
    using ok it by (simp add: arrivals_ok_def remove_arrival_def omap_sorted_erase)
qed

lemma arrivals_ok_cong:
  "marrival s' = marrival s \<Longrightarrow> marrival_map s' = marrival_map s \<Longrightarrow>
    arrivals_ok ms s' = arrivals_ok ms s"
  by (simp add: arrivals_ok_def)

subsection \<open>Contents after each queue operation\<close>

lemma mset_insert_strict: "mset (insert_strict p k t es) = add_mset (Some p, k, t) (mset es)"
proof -
  have "mset (takeWhile (at_least p) es) + mset (dropWhile (at_least p) es) = mset es"
    by (metis mset_append takeWhile_dropWhile_id)
  then show ?thesis by (simp add: insert_strict_def union_commute add_mset_commute)
qed

lemma mset_map_filter:
  "mset xs = mset ys \<Longrightarrow> mset (List.map_filter f xs) = mset (List.map_filter f ys)"
  by (simp add: List.map_filter_def)

lemma codes_ok_mset: "mset xs = mset ys \<Longrightarrow> codes_ok xs = codes_ok ys"
  unfolding codes_ok_def by (metis mset_eq_setD)

lemma queued_strict:
  assumes "fifo_ok (mqueue s)"
  shows "mset (List.map_filter (\<lambda>e. get_message (snd (snd e)))
      (fifo_contents (fifo_enqueue_strict k p qi (mqueue s))))
    = mset (case get_message qi of None \<Rightarrow> queued s | Some m \<Rightarrow> m # queued s)"
proof -
  have "mset (fifo_contents (fifo_enqueue_strict k p qi (mqueue s)))
      = mset ((Some p, k, qi) # fifo_contents (mqueue s))"
    using assms by (simp add: fifo.strict_contents mset_insert_strict)
  from mset_map_filter [OF this, of "\<lambda>e. get_message (snd (snd e))"] show ?thesis
    by (simp add: queued_def List.map_filter_simps split: option.splits)
qed

lemma queued_plain:
  assumes "fifo_ok (mqueue s)"
  shows "mset (List.map_filter (\<lambda>e. get_message (snd (snd e)))
      (fifo_contents (fifo_enqueue k p c qi (mqueue s))))
    = mset (case get_message qi of None \<Rightarrow> queued s | Some m \<Rightarrow> m # queued s)"
proof -
  have "mset (fifo_contents (fifo_enqueue k p c qi (mqueue s)))
      = mset ((None, k, qi) # fifo_contents (mqueue s))"
    using assms by (simp add: fifo.plain_contents)
  from mset_map_filter [OF this, of "\<lambda>e. get_message (snd (snd e))"] show ?thesis
    by (simp add: queued_def List.map_filter_simps split: option.splits)
qed

lemma codes_ok_strict:
  "fifo_ok q \<Longrightarrow> codes_ok (fifo_contents (fifo_enqueue_strict k p qi q))
    \<longleftrightarrow> codes_ok ((Some p, k, qi) # fifo_contents q)"
  by (rule codes_ok_mset) (simp add: fifo.strict_contents mset_insert_strict)

lemma codes_ok_plain:
  "fifo_ok q \<Longrightarrow> codes_ok (fifo_contents (fifo_enqueue k p c qi q))
    \<longleftrightarrow> codes_ok ((None, k, qi) # fifo_contents q)"
  by (rule codes_ok_mset) (simp add: fifo.plain_contents)

lemma get_message_simps [simp]:
  "get_message (queue_item_message m) = Some m" "\<not> is_code (queue_item_message m)"
  "ty \<noteq> -1 \<Longrightarrow> get_message (queue_item_code ty c) = None"
  "ty \<noteq> -1 \<Longrightarrow> is_code (queue_item_code ty c)"
  "qi_type (queue_item_code ty c) = ty" "qi_con (queue_item_code ty c) = c" "qi_m (queue_item_message m) = m"
  by (simp_all add: get_message_def is_code_def queue_item_message_def queue_item_code_def)

lemma wake_simps [simp]:
  "wake th \<noteq> Waiting" "wake th = In_hand i \<longleftrightarrow> th = In_hand i"
  by (simp_all add: wake_def split: thread.splits)

lemma local_hand_wake [simp]:
  "local_hand (s\<lparr>local_delivery_thread := wake (local_delivery_thread s)\<rparr>) = local_hand s"
  by (simp add: local_hand_def wake_def split: thread.splits)

text \<open>Enqueuing one message: it joins the pending ones and gets its arrival record.\<close>

lemma enqueue_fields:
  "local_messages (enqueue m p k s) = local_messages s"
  "local_delivery_thread (enqueue m p k s) = local_delivery_thread s"
  "stop (enqueue m p k s) = stop s"
  "stop_local_delivery (enqueue m p k s) = stop_local_delivery s"
  "dispatch_thread (enqueue m p k s) =
     (if fifo_empty (mqueue s) then wake (dispatch_thread s) else dispatch_thread s)"
  "calls (enqueue m p k s) = calls s"
  by (simp_all add: enqueue_def Let_def msg_ref_def add_arrival_def)

lemma enqueue_arrivals:
  "marrival (enqueue m p k s) = marrival (add_arrival m s)"
  "marrival_map (enqueue m p k s) = marrival_map (add_arrival m s)"
  by (simp_all add: enqueue_def Let_def msg_ref_def add_arrival_def split: option.splits)

lemma enqueue_mqueue:
  "mqueue (enqueue m p k s) = (if p \<ge> MSGR_MSG_PRIO_LOW
     then fifo_enqueue_strict k (of_int p) (queue_item_message m) (mqueue s)
     else fifo_enqueue k (of_int p) (of_int (cost (msgs s m))) (queue_item_message m) (mqueue s))"
  by (simp add: enqueue_def Let_def msg_ref_def add_arrival_def)

lemma enqueue_queued:
  assumes "fifo_ok (mqueue s)"
  shows "mset (queued (enqueue m p k s)) = add_mset m (mset (queued s))"
    and "fifo_ok (mqueue (enqueue m p k s))"
    and "codes_ok (fifo_contents (mqueue (enqueue m p k s))) = codes_ok (fifo_contents (mqueue s))"
    and "\<not> fifo_empty (mqueue (enqueue m p k s))"
proof -
  show "mset (queued (enqueue m p k s)) = add_mset m (mset (queued s))"
    using queued_strict [OF assms, of k _ "queue_item_message m"]
      queued_plain [OF assms, of k _ _ "queue_item_message m"]
    by (simp add: queued_def [of "enqueue m p k s"] enqueue_mqueue)
  show ok: "fifo_ok (mqueue (enqueue m p k s))"
    using assms by (simp add: enqueue_mqueue fifo.ok_strict fifo.ok_plain)
  show "codes_ok (fifo_contents (mqueue (enqueue m p k s))) = codes_ok (fifo_contents (mqueue s))"
    using assms by (simp add: enqueue_mqueue codes_ok_strict codes_ok_plain) (simp add: codes_ok_def)
  have "fifo_contents (mqueue (enqueue m p k s)) \<noteq> []"
    using assms by (simp add: enqueue_mqueue fifo.strict_contents fifo.plain_contents insert_strict_def)
  then show "\<not> fifo_empty (mqueue (enqueue m p k s))" using ok by (simp add: fifo.empty_contents)
qed

subsection \<open>Every step keeps the invariant\<close>

lemma pending_mset:
  "mset (pending s) = mset (queued s) + mset (map fst (local_messages s)) + mset (local_hand s)"
  by (simp add: pending_def)

lemma distinct_by_mset: "mset xs = mset ys \<Longrightarrow> distinct ys \<Longrightarrow> distinct xs"
  by (metis mset_eq_imp_distinct_iff)

lemma queued_cong: "mqueue s' = mqueue s \<Longrightarrow> queued s' = queued s"
  by (simp add: queued_def)

lemma local_hand_cong: "local_delivery_thread s' = local_delivery_thread s \<Longrightarrow> local_hand s' = local_hand s"
  by (simp add: local_hand_def)

lemma call_simps [simp]:
  "mqueue (call c s) = mqueue s" "marrival (call c s) = marrival s" "marrival_map (call c s) = marrival_map s"
  "stop (call c s) = stop s" "stop_local_delivery (call c s) = stop_local_delivery s"
  "local_messages (call c s) = local_messages s" "dispatch_thread (call c s) = dispatch_thread s"
  "local_delivery_thread (call c s) = local_delivery_thread s" "msgs (call c s) = msgs s"
  "next_pipe_id (call c s) = next_pipe_id s"
  by (simp_all add: call_def)

lemma msg_ref_simps [simp]:
  "mqueue (msg_ref d m s) = mqueue s" "marrival (msg_ref d m s) = marrival s"
  "marrival_map (msg_ref d m s) = marrival_map s"
  "stop (msg_ref d m s) = stop s" "stop_local_delivery (msg_ref d m s) = stop_local_delivery s"
  "local_messages (msg_ref d m s) = local_messages s" "dispatch_thread (msg_ref d m s) = dispatch_thread s"
  "local_delivery_thread (msg_ref d m s) = local_delivery_thread s"
  "next_pipe_id (msg_ref d m s) = next_pipe_id s" "calls (msg_ref d m s) = calls s"
  by (simp_all add: msg_ref_def)

text \<open>The part of the invariant an enqueued message affects, with the message in any hand.\<close>

lemma enqueue_inv:
  assumes ok: "fifo_ok (mqueue s)" and arr: "arrivals_ok (set (queued s)) s"
    and codes: "codes_ok (fifo_contents (mqueue s))" and m: "m \<notin> set (queued s)"
  shows "arrivals_ok (set (queued (enqueue m p k s))) (enqueue m p k s)"
    and "codes_ok (fifo_contents (mqueue (enqueue m p k s)))"
    and "fifo_ok (mqueue (enqueue m p k s))"
    and "dispatch_thread s = Waiting \<longrightarrow> fifo_empty (mqueue s) \<and> \<not> stop s \<Longrightarrow>
      dispatch_thread (enqueue m p k s) \<noteq> Waiting"
    and "hand_ok s \<Longrightarrow> hand_ok (enqueue m p k s)"
proof -
  have "set (queued (enqueue m p k s)) = insert m (set (queued s))"
    using arg_cong [OF enqueue_queued(1) [OF ok], of set_mset] by simp
  then show "arrivals_ok (set (queued (enqueue m p k s))) (enqueue m p k s)"
    using add_arrival_ok [OF arr m] arrivals_ok_cong enqueue_arrivals by metis
qed (use assms enqueue_queued in \<open>auto simp: enqueue_fields hand_ok_def\<close>)

lemma enqueue_step_inv:
  assumes inv: "dq_inv s" and m: "m \<notin> set (pending s)"
  shows "dq_inv (enqueue m p k s)"
proof -
  have mq: "m \<notin> set (queued s)" using m by (simp add: pending_def)
  have ok: "fifo_ok (mqueue s)" using inv by (simp add: dq_inv_def)
  have "distinct (pending (enqueue m p k s))"
  proof (rule distinct_by_mset)
    show "mset (pending (enqueue m p k s)) = mset (m # pending s)"
      using enqueue_queued(1) [OF ok] local_hand_cong [OF enqueue_fields(2)]
      by (simp add: pending_mset enqueue_fields)
    show "distinct (m # pending s)" using inv m by (simp add: dq_inv_def)
  qed
  then show ?thesis
    using inv enqueue_inv [of s m] mq by (auto simp: dq_inv_def threads_ok_def enqueue_fields)
qed

lemma distinct_submset:
  assumes "mset xs \<subseteq># mset ys" and "distinct ys"
  shows "distinct xs"
  using assms
proof (induction xs)
  case (Cons x xs)
  have "x \<notin> set xs"
  proof
    assume "x \<in> set xs"
    then have "2 \<le> count (mset (x # xs)) x"
      using count_greater_zero_iff [of "mset xs" x] by simp
    then have "2 \<le> count (mset ys) x"
      using mset_subset_eq_count [OF Cons.prems(1), of x] by linarith
    then show False using Cons.prems(2) by (auto simp: distinct_count_atmost_1 split: if_splits)
  qed
  moreover have "mset xs \<subseteq># mset ys"
    using Cons.prems(1) by (simp add: mset_subset_eq_insertD subset_mset.less_imp_le)
  ultimately show ?case using Cons by simp
qed simp

lemma dq_inv_frame:
  assumes "fifo_ok (mqueue s)" and "arrivals_ok (set (queued s)) s" and "codes_ok (fifo_contents (mqueue s))"
    and "mqueue s' = mqueue s" and "marrival s' = marrival s" and "marrival_map s' = marrival_map s"
    and "distinct (pending s')" and "threads_ok s'" and "hand_ok s'"
  shows "dq_inv s'"
  unfolding dq_inv_def arrivals_ok_cong [OF assms(5,6)] queued_cong [OF assms(4)]
  using assms by simp

text \<open>Steps that leave the queue and the arrival records alone.\<close>

lemma control_inv:
  assumes inv: "dq_inv s" and "mqueue s' = mqueue s" and "marrival s' = marrival s"
    and "marrival_map s' = marrival_map s"
    and sub: "mset (map fst (local_messages s') @ local_hand s')
      \<subseteq># mset (map fst (local_messages s) @ local_hand s)"
    and "threads_ok s'" and "hand_ok s'"
  shows "dq_inv s'"
proof -
  have q: "queued s' = queued s" using assms(2) by (rule queued_cong)
  have "mset (pending s') \<subseteq># mset (pending s)"
    using sub by (simp add: pending_mset q ac_simps)
  then have "distinct (pending s')"
    using inv distinct_submset unfolding dq_inv_def by blast
  then show ?thesis
    using assms by (intro dq_inv_frame [of s s']) (simp_all add: dq_inv_def)
qed

lemma dq_inv_threads: "dq_inv s \<Longrightarrow> threads_ok s" and dq_inv_hand: "dq_inv s \<Longrightarrow> hand_ok s"
  by (simp_all add: dq_inv_def)

lemma local_unlocked_inv:
  assumes inv: "dq_inv s" and hand: "local_delivery_thread s = In_hand mp"
  shows "dq_inv (run_local_delivery_unlocked can_fast mp s)"
proof -
  let ?s0 = "call (Ms_fast_preprocess (fst mp)) s"
  have pend: "pending s = queued s @ map fst (local_messages s) @ [fst mp]"
    using hand by (simp add: pending_def local_hand_def)
  show ?thesis
  proof (cases "can_fast (fst mp)")
    case True
    then show ?thesis using dq_inv_threads [OF inv] dq_inv_hand [OF inv]
      by (intro control_inv [OF inv])
        (simp_all add: run_local_delivery_unlocked_def Let_def fast_dispatch_def pre_dispatch_def
          post_dispatch_def local_hand_def threads_ok_def hand_ok_def)
  next
    case False
    define s1 where "s1 = enqueue (fst mp) (snd mp) 0 ?s0"
    have s0: "fifo_ok (mqueue ?s0)" "arrivals_ok (set (queued ?s0)) ?s0" "codes_ok (fifo_contents (mqueue ?s0))"
      "fst mp \<notin> set (queued ?s0)" "hand_ok ?s0"
      "dispatch_thread ?s0 = Waiting \<longrightarrow> fifo_empty (mqueue ?s0) \<and> \<not> stop ?s0"
      using inv pend queued_cong [of ?s0 s]
      by (simp_all add: dq_inv_def arrivals_ok_def hand_ok_def threads_ok_def)
    note s1 = enqueue_inv(1-3) [OF s0(1-4), of "snd mp" 0, folded s1_def]
      enqueue_inv(4) [OF s0(1-4) s0(6), of "snd mp" 0, folded s1_def]
      enqueue_inv(5) [OF s0(1-5), of "snd mp" 0, folded s1_def]
    have loc: "local_messages s1 = local_messages s"
      unfolding s1_def by (simp add: enqueue_fields)
    have "mset (queued s1 @ map fst (local_messages s)) = mset (pending s)"
      unfolding s1_def mset_append enqueue_queued(1) [OF s0(1)] pend
      using queued_cong [of ?s0 s] by simp
    then have "distinct (queued s1 @ map fst (local_messages s))"
      by (rule distinct_by_mset) (use inv in \<open>simp add: dq_inv_def\<close>)
    moreover have "run_local_delivery_unlocked can_fast mp s = s1\<lparr>local_delivery_thread := At_loop\<rparr>"
      using False by (simp add: run_local_delivery_unlocked_def s1_def Let_def)
    moreover have "queued (s1\<lparr>local_delivery_thread := At_loop\<rparr>) = queued s1"
      by (rule queued_cong) simp
    ultimately show ?thesis
      using s1 loc by (intro dq_inv_frame [of s1])
        (simp_all add: pending_def local_hand_def threads_ok_def hand_ok_def)
  qed
qed

lemma queue_code_inv:
  assumes inv: "dq_inv s" and code: "code \<in> {D_CONNECT, D_ACCEPT, D_BAD_REMOTE_RESET, D_BAD_RESET}"
  shows "dq_inv (queue_code code con s)"
proof -
  let ?q = "fifo_enqueue_strict 0 (of_int MSGR_MSG_PRIO_HIGHEST) (queue_item_code code con) (mqueue s)"
  let ?s = "s\<lparr>mqueue := ?q, dispatch_thread := wake (dispatch_thread s)\<rparr>"
  have ok: "fifo_ok (mqueue s)" using inv by (simp add: dq_inv_def)
  have ty: "code \<noteq> -1" using code by (auto simp: dcode_defs)
  have q: "mset (queued ?s) = mset (queued s)"
    using queued_strict [OF ok, of 0 _ "queue_item_code code con"] ty
    by (simp add: queued_def [of ?s])
  then have "set (queued ?s) = set (queued s)" by (rule mset_eq_setD)
  then have "arrivals_ok (set (queued ?s)) ?s" using inv by (simp add: dq_inv_def arrivals_ok_def)
  moreover have "distinct (pending ?s)"
  proof (rule distinct_by_mset)
    show "mset (pending ?s) = mset (pending s)"
      using q by (simp add: pending_mset local_hand_def)
  qed (use inv in \<open>simp add: dq_inv_def\<close>)
  moreover have "codes_ok (fifo_contents ?q)"
    using inv ok code ty by (simp add: codes_ok_strict dq_inv_def) (simp add: codes_ok_def)
  ultimately have "dq_inv ?s"
    using inv ok by (simp add: dq_inv_def fifo.ok_strict threads_ok_def hand_ok_def)
  then show ?thesis using inv by (simp add: queue_code_def)
qed

lemma entry_locked_inv:
  assumes inv: "dq_inv s"
  shows "\<exists>s'. entry_locked s = Some s' \<and> dq_inv s'"
proof (cases "fifo_empty (mqueue s)")
  case True
  then show ?thesis using inv
    by (simp add: entry_locked_def dq_inv_def pending_def local_hand_def queued_def arrivals_ok_def
        threads_ok_def hand_ok_def)
next
  case False
  have ok: "fifo_ok (mqueue s)" using inv by (simp add: dq_inv_def)
  obtain e es where es: "fifo_contents (mqueue s) = e # es"
    using False ok fifo.empty_contents by (cases "fifo_contents (mqueue s)") auto
  obtain q where q: "fifo_dequeue (mqueue s) = Some (snd (snd e), q)" "fifo_contents q = es" "fifo_ok q"
    using fifo.dequeue_contents [OF ok es] by blast
  define s1 where "s1 = s\<lparr>mqueue := q, dispatch_thread := In_hand (snd (snd e))\<rparr>"
  have head: "queued s = (case get_message (snd (snd e)) of None \<Rightarrow> queued s1 | Some m \<Rightarrow> m # queued s1)"
    using es q(2) by (simp add: queued_def s1_def List.map_filter_simps split: option.splits)
  have rest: "fifo_ok (mqueue s1)" "codes_ok (fifo_contents (mqueue s1))" "threads_ok s1" "hand_ok s1"
    "arrivals_ok (set (queued s)) s1"
    using inv es q by (auto simp: s1_def dq_inv_def codes_ok_def threads_ok_def hand_ok_def arrivals_ok_def)
  have pend: "pending s = queued s @ map fst (local_messages s1) @ local_hand s1"
    by (simp add: s1_def pending_def local_hand_def)
  have run: "entry_locked s =
      (case get_message (snd (snd e)) of None \<Rightarrow> Some s1 | Some m \<Rightarrow> remove_arrival m s1)"
    using False q(1) by (simp add: entry_locked_def s1_def Let_def split: option.splits)
  show ?thesis
  proof (cases "get_message (snd (snd e))")
    case None
    then show ?thesis using run rest head pend inv by (simp add: dq_inv_def pending_def)
  next
    case (Some m)
    have qs: "queued s = m # queued s1" using head Some by simp
    have "pending s = m # pending s1" unfolding pend qs by (simp add: pending_def)
    then have d: "distinct (m # pending s1)" using inv by (simp add: dq_inv_def)
    then have m: "m \<in> set (queued s)" "set (queued s) - {m} = set (queued s1)" "distinct (pending s1)"
      using qs by (auto simp: pending_def)
    obtain s2 where s2: "remove_arrival m s1 = Some s2" "arrivals_ok (set (queued s1)) s2"
      "s2 = s1\<lparr>marrival := marrival s2, marrival_map := marrival_map s2\<rparr>"
      using remove_arrival_ok [OF rest(5) m(1)] m(2) by metis
    have same: "mqueue s2 = mqueue s1" "local_messages s2 = local_messages s1" "stop s2 = stop s1"
      "local_delivery_thread s2 = local_delivery_thread s1" "dispatch_thread s2 = dispatch_thread s1"
      "stop_local_delivery s2 = stop_local_delivery s1"
      by (subst s2(3), simp)+
    have "dq_inv s2"
      using rest s2(2) m(3) same queued_cong [OF same(1)] local_hand_cong [OF same(4)]
      by (simp add: dq_inv_def pending_def threads_ok_def hand_ok_def)
    then show ?thesis using run Some s2(1) by simp
  qed
qed

lemma entry_unlocked_inv:
  assumes inv: "dq_inv s" and hand: "dispatch_thread s = In_hand qi"
  shows "\<exists>s'. entry_unlocked qi s = Some s' \<and> dq_inv s'"
proof (cases "get_message qi")
  case None
  then have "qi_type qi \<in> {D_CONNECT, D_ACCEPT, D_BAD_REMOTE_RESET, D_BAD_RESET}"
    using inv hand by (simp add: dq_inv_def hand_ok_def get_message_def split: if_splits)
  then obtain c where "deliver_code (qi_type qi) (qi_con qi) = Some c"
    by (auto simp: deliver_code_def dcode_defs)
  then show ?thesis using inv None
    by (simp add: entry_unlocked_def dq_inv_def pending_def local_hand_def queued_def arrivals_ok_def
        threads_ok_def hand_ok_def)
next
  case (Some m)
  then show ?thesis using inv
    by (simp add: entry_unlocked_def dq_inv_def pending_def local_hand_def queued_def arrivals_ok_def
        threads_ok_def hand_ok_def pre_dispatch_def post_dispatch_def Let_def)
qed

text \<open>Discarding: exactly the messages of the class leave the queue and the records.\<close>

lemma discard_loop_ok:
  assumes "arrivals_ok ms s" and "\<forall>qi \<in> set removed. \<not> is_code qi"
    and "distinct (map qi_m removed)" and "qi_m ` set removed \<subseteq> ms"
  shows "\<exists>s'. discard_loop removed s = Some s' \<and> arrivals_ok (ms - qi_m ` set removed) s' \<and>
    s' = s\<lparr>marrival := marrival s', marrival_map := marrival_map s', msgs := msgs s', calls := calls s'\<rparr>"
  using assms
proof (induction removed arbitrary: s ms)
  case (Cons qi removed)
  have m: "get_message qi = Some (qi_m qi)" using Cons.prems(2) by (simp add: get_message_def)
  have "qi_m qi \<in> ms" using Cons.prems(4) by simp
  then obtain s1 where s1: "remove_arrival (qi_m qi) s = Some s1" "arrivals_ok (ms - {qi_m qi}) s1"
    "s1 = s\<lparr>marrival := marrival s1, marrival_map := marrival_map s1\<rparr>"
    using remove_arrival_ok [OF Cons.prems(1)] by metis
  let ?s2 = "msg_ref (-1) (qi_m qi)
    (call (Dispatch_throttle_release (dispatch_throttle_size (msgs s1 (qi_m qi)))) s1)"
  have "\<exists>s'. discard_loop removed ?s2 = Some s' \<and> arrivals_ok (ms - {qi_m qi} - qi_m ` set removed) s' \<and>
      s' = ?s2\<lparr>marrival := marrival s', marrival_map := marrival_map s', msgs := msgs s', calls := calls s'\<rparr>"
  proof (rule Cons.IH)
    show "arrivals_ok (ms - {qi_m qi}) ?s2" using s1(2) by (simp add: arrivals_ok_def)
    show "qi_m ` set removed \<subseteq> ms - {qi_m qi}" using Cons.prems(3,4) by (simp only: list.map distinct.simps list.set image_insert set_map) blast
  qed (use Cons.prems in simp_all)
  then obtain s' where s': "discard_loop removed ?s2 = Some s'"
    "arrivals_ok (ms - {qi_m qi} - qi_m ` set removed) s'"
    "s' = ?s2\<lparr>marrival := marrival s', marrival_map := marrival_map s', msgs := msgs s', calls := calls s'\<rparr>"
    by blast
  have "s' = s\<lparr>marrival := marrival s', marrival_map := marrival_map s', msgs := msgs s', calls := calls s'\<rparr>"
    by (subst s'(3), subst msg_ref_def, subst call_def, subst s1(3)) simp
  moreover have "discard_loop (qi # removed) s = Some s'" using s1(1) m s'(1) by simp
  moreover have "ms - qi_m ` set (qi # removed) = ms - {qi_m qi} - qi_m ` set removed" by auto
  ultimately show ?case using s'(2) by metis
qed simp

lemma fold_msg_ref_simps [simp]:
  "mqueue (fold (msg_ref d) l s) = mqueue s" "marrival (fold (msg_ref d) l s) = marrival s"
  "marrival_map (fold (msg_ref d) l s) = marrival_map s"
  "stop (fold (msg_ref d) l s) = stop s" "stop_local_delivery (fold (msg_ref d) l s) = stop_local_delivery s"
  "local_messages (fold (msg_ref d) l s) = local_messages s"
  "dispatch_thread (fold (msg_ref d) l s) = dispatch_thread s"
  "local_delivery_thread (fold (msg_ref d) l s) = local_delivery_thread s"
  "next_pipe_id (fold (msg_ref d) l s) = next_pipe_id s"
  by (induction l arbitrary: s) simp_all

lemma map_filter_filter_messages:
  assumes "\<forall>e \<in> set es. P e \<longrightarrow> \<not> is_code (snd (snd e))"
  shows "mset (map (\<lambda>e. qi_m (snd (snd e))) (filter P es))
      + mset (List.map_filter (\<lambda>e. get_message (snd (snd e))) (filter (\<lambda>e. \<not> P e) es))
    = mset (List.map_filter (\<lambda>e. get_message (snd (snd e))) es)"
  using assms by (induction es) (auto simp: List.map_filter_simps get_message_def)

lemma discard_queue_inv:
  assumes inv: "dq_inv s" and k: "k \<noteq> 0"
  shows "\<exists>s'. discard_queue k s = Some s' \<and> dq_inv s' \<and>
    fifo_contents (mqueue s') = filter (\<lambda>e. fst (snd e) \<noteq> k) (fifo_contents (mqueue s))"
proof -
  let ?es = "fifo_contents (mqueue s)"
  let ?gone = "filter (\<lambda>e. fst (snd e) = k) ?es"
  have ok: "fifo_ok (mqueue s)" using inv by (simp add: dq_inv_def)
  define q where "q = fst (fifo_remove_by_class k (Some []) (mqueue s))"
  define removed where "removed = map (\<lambda>e. snd (snd e)) ?gone"
  have rm: "fifo_remove_by_class k (Some []) (mqueue s) = (q, Some removed)"
    using fifo.removed_items [OF ok, of k "Some []"]
    by (simp add: q_def removed_def prod_eq_iff comp_def)
  have q: "fifo_contents q = filter (\<lambda>e. fst (snd e) \<noteq> k) ?es" "fifo_ok q"
    using fifo.remove_contents [OF ok] fifo.ok_remove [OF ok] by (simp_all add: q_def)
  have nc: "\<forall>e \<in> set ?es. fst (snd e) = k \<longrightarrow> \<not> is_code (snd (snd e))"
    using inv k by (auto simp: dq_inv_def codes_ok_def)
  define s1 where "s1 = s\<lparr>mqueue := q\<rparr>"
  have split: "mset (map qi_m removed) + mset (queued s1) = mset (queued s)"
    using map_filter_filter_messages [OF nc] q(1)
    by (simp add: queued_def s1_def removed_def comp_def)
  have dist: "distinct (map qi_m removed @ pending s1)"
  proof (rule distinct_by_mset)
    show "mset (map qi_m removed @ pending s1) = mset (pending s)"
      using split by (simp add: pending_mset s1_def local_hand_def)
  qed (use inv in \<open>simp add: dq_inv_def\<close>)
  have sets: "set (queued s) = qi_m ` set removed \<union> set (queued s1)"
    using arg_cong [OF split, of set_mset] by simp
  have "\<exists>s'. discard_loop removed s1 = Some s' \<and> arrivals_ok (set (queued s) - qi_m ` set removed) s' \<and>
    s' = s1\<lparr>marrival := marrival s', marrival_map := marrival_map s', msgs := msgs s', calls := calls s'\<rparr>"
  proof (rule discard_loop_ok)
    show "arrivals_ok (set (queued s)) s1" using inv by (simp add: dq_inv_def arrivals_ok_def s1_def)
    show "\<forall>qi \<in> set removed. \<not> is_code qi" using nc by (auto simp: removed_def)
  qed (use dist sets in auto)
  then obtain s2 where s2: "discard_loop removed s1 = Some s2"
    "arrivals_ok (set (queued s) - qi_m ` set removed) s2"
    "s2 = s1\<lparr>marrival := marrival s2, marrival_map := marrival_map s2, msgs := msgs s2, calls := calls s2\<rparr>"
    by blast
  let ?s' = "fold (msg_ref (-1)) (map qi_m removed) s2"
  have same: "mqueue s2 = q" "local_messages s2 = local_messages s" "stop s2 = stop s"
    "local_delivery_thread s2 = local_delivery_thread s" "dispatch_thread s2 = dispatch_thread s"
    "stop_local_delivery s2 = stop_local_delivery s"
    by (subst s2(3), simp add: s1_def)+
  have eqs: "queued ?s' = queued s1" "local_hand ?s' = local_hand s1" "local_messages ?s' = local_messages s1"
    using same by (simp_all add: queued_def local_hand_def s1_def)
  have "set (queued s) - qi_m ` set removed = set (queued s1)"
    using dist sets by (auto simp: pending_def)
  then have "arrivals_ok (set (queued ?s')) ?s'" using s2(2) eqs(1) by (simp add: arrivals_ok_def)
  moreover have "distinct (pending ?s')" using dist eqs by (simp add: pending_def)
  moreover have "fifo_empty q" if "fifo_empty (mqueue s)"
    using that fifo_empty_contents [OF ok] fifo_empty_contents [OF q(2)] q(1) by simp
  then have "threads_ok ?s'" using inv same by (simp add: dq_inv_def threads_ok_def)
  moreover have "codes_ok (fifo_contents q)" using inv q by (auto simp: dq_inv_def codes_ok_def)
  ultimately have "dq_inv ?s'" using inv same q(2) by (simp add: dq_inv_def hand_ok_def)
  moreover have "discard_queue k s = Some ?s'"
    using s2(1) by (simp add: discard_queue_def rm Let_def s1_def [symmetric])
  ultimately show ?thesis using q(1) same(1) by auto
qed

lemma dq_inv_new: "dq_inv (dq_new ms)"
  by (simp add: dq_inv_def dq_new_def pending_def queued_def local_hand_def arrivals_ok_def codes_ok_def
      threads_ok_def hand_ok_def fifo_new_def fifo_contents_def fifo_ok_def List.map_filter_simps)

lemma local_delivery_inv:
  assumes inv: "dq_inv s" and m: "m \<notin> set (pending s)"
  shows "dq_inv (local_delivery loopback now m priority s)"
proof -
  let ?s = "local_delivery loopback now m priority s"
  have same: "mqueue ?s = mqueue s" "marrival ?s = marrival s" "marrival_map ?s = marrival_map s"
    "dispatch_thread ?s = dispatch_thread s" "stop ?s = stop s" "stop_local_delivery ?s = stop_local_delivery s"
    "local_messages ?s = local_messages s @ [(m, priority)]" "local_hand ?s = local_hand s"
    "local_delivery_thread ?s = Waiting \<longrightarrow> local_delivery_thread s = Waiting \<and> local_messages s \<noteq> []"
    by (auto simp: local_delivery_def Let_def local_hand_def wake_def split: thread.splits)
  have "mset (pending ?s) = mset (m # pending s)"
    using queued_cong [OF same(1)] same by (simp add: pending_mset)
  then have "distinct (pending ?s)"
    by (rule distinct_by_mset) (use inv m in \<open>simp add: dq_inv_def\<close>)
  then show ?thesis using dq_inv_threads [OF inv] dq_inv_hand [OF inv] same inv
    by (intro dq_inv_frame [of s]) (auto simp: dq_inv_def threads_ok_def hand_ok_def)
qed

lemma local_locked_inv: "dq_inv s \<Longrightarrow> local_delivery_thread s = At_loop \<Longrightarrow>
    dq_inv (run_local_delivery_locked s)"
  using dq_inv_threads [of s] dq_inv_hand [of s]
  by (intro control_inv [of s "run_local_delivery_locked s"])
    (simp_all add: run_local_delivery_locked_def local_hand_def threads_ok_def hand_ok_def split: list.splits)

lemma wake_control_inv:
  assumes inv: "dq_inv s"
  shows "dq_inv (s\<lparr>dispatch_thread := wake (dispatch_thread s)\<rparr>)"
    and "dq_inv (s\<lparr>local_delivery_thread := wake (local_delivery_thread s)\<rparr>)"
    and "dq_inv (shutdown_local s)"
    and "dq_inv (snd (get_id s))"
    and "local_delivery_thread s = Exited \<Longrightarrow> dq_inv (shutdown_dispatch s)"
    and "dispatch_thread s = Exited \<Longrightarrow> dq_inv (dq_wait s)"
    and "local_delivery_thread s = Not_started \<Longrightarrow> dq_start s = Some s' \<Longrightarrow> dq_inv s'"
  using dq_inv_threads [OF inv] dq_inv_hand [OF inv]
  by (intro control_inv [OF inv]; auto simp: shutdown_local_def get_id_def shutdown_dispatch_def dq_wait_def
      dq_start_def local_hand_def threads_ok_def hand_ok_def wake_def split: thread.splits if_splits)+

lemma dq_step_inv:
  assumes "dq_step can_fast s s'" and inv: "dq_inv s"
  shows "dq_inv s'"
  using assms(1)
proof cases
  case discard
  then show ?thesis using discard_queue_inv [OF inv] by fastforce
next
  case entry_locked
  then show ?thesis using entry_locked_inv [OF inv] by fastforce
next
  case entry_unlocked
  then show ?thesis using entry_unlocked_inv [OF inv] by fastforce
qed (simp_all add: inv enqueue_step_inv local_delivery_inv local_locked_inv local_unlocked_inv
    queue_connect_def queue_accept_def queue_remote_reset_def queue_reset_def queue_code_inv
    wake_control_inv [OF inv])

lemma dq_reachable_inv: "dq_reachable can_fast s \<Longrightarrow> dq_inv s"
  by (induction rule: dq_reachable.induct) (auto intro: dq_inv_new dq_step_inv)

section \<open>Properties\<close>

text \<open>
  A concrete history: the threads start, two messages of one connection and one below the
  strict priorities are enqueued, and a connect event is queued.
\<close>

definition sample_msg :: dmessage where
  "sample_msg = \<lparr>nref = 1, recv_stamp = 0, connection = 0, cost = 0, dispatch_throttle_size = 40\<rparr>"

definition sample_started :: dq_state where
  "sample_started = (dq_new (\<lambda>_. sample_msg))\<lparr>dispatch_thread := At_loop, local_delivery_thread := At_loop\<rparr>"

definition sample_state :: dq_state where
  "sample_state = queue_connect 3 (enqueue 9 127 1 (enqueue 8 5 1 (enqueue 7 127 1 sample_started)))"

lemmas sample_defs = sample_started_def sample_msg_def dq_new_def dq_start_def

lemma sample_reachable: "dq_reachable can_fast sample_state"
proof -
  have "dq_step can_fast (dq_new (\<lambda>_. sample_msg)) sample_started"
    by (rule dq_step.start) (simp_all add: sample_defs)
  then have "dq_reachable can_fast sample_started" by (blast intro: dq_reachable.intros)
  moreover have "7 \<notin> set (pending sample_started)" by code_simp
  ultimately have "dq_reachable can_fast (enqueue 7 127 1 sample_started)"
    by (blast intro: dq_reachable.step dq_step.enqueue)
  moreover have "8 \<notin> set (pending (enqueue 7 127 1 sample_started))" by code_simp
  ultimately have "dq_reachable can_fast (enqueue 8 5 1 (enqueue 7 127 1 sample_started))"
    by (blast intro: dq_reachable.step dq_step.enqueue)
  moreover have "9 \<notin> set (pending (enqueue 8 5 1 (enqueue 7 127 1 sample_started)))"
    by code_simp
  ultimately have "dq_reachable can_fast (enqueue 9 127 1 (enqueue 8 5 1 (enqueue 7 127 1 sample_started)))"
    by (blast intro: dq_reachable.step dq_step.enqueue)
  then show ?thesis unfolding sample_state_def by (blast intro: dq_reachable.step dq_step.connect)
qed

lemma enqueue_sizes: "dispatch_throttle_size (msgs (enqueue m p k s) x) = dispatch_throttle_size (msgs s x)"
  by (simp add: enqueue_def Let_def msg_ref_def add_arrival_def)

lemma queue_connect_sizes: "msgs (queue_connect c s) = msgs s"
  by (simp add: queue_connect_def queue_code_def)

lemma sample_contents: "map (snd \<circ> snd) (fifo_contents (mqueue sample_state)) =
    [queue_item_code 1 3, queue_item_message 7, queue_item_message 9, queue_item_message 8]"
  by code_simp

lemma sample_fields: "dispatch_thread sample_state = At_loop" "\<not> stop sample_state" "calls sample_state = []"
  "dispatch_throttle_size (msgs sample_state m) = 40"
  by (code_simp, code_simp, code_simp)
    (simp add: sample_state_def enqueue_sizes queue_connect_sizes sample_started_def dq_new_def sample_msg_def)

text \<open>
  In every reachable state the queue keeps its books: the index of arrival records has
  exactly one record for each queued message, and no message is pending twice.
\<close>

theorem dq_arrivals_match_queue:
  assumes "dq_reachable can_fast s"
  shows "fst ` set (marrival_map s) = set (queued s) \<and> distinct (pending s) \<and>
    fst ` set (marrival s) = snd ` set (marrival_map s)"
  using dq_reachable_inv [OF assms] by (simp add: dq_inv_def arrivals_ok_def)

theorem dq_arrivals_match_queue_witness:
  "fst ` set (marrival_map sample_state) = {7, 8, 9}"
proof -
  have "set (queued sample_state) = {7, 8, 9}" by code_simp
  then show ?thesis using dq_arrivals_match_queue [OF sample_reachable [of "\<lambda>_. False"]] by simp
qed

text \<open>
  C19. None of the assertions of the dispatch thread or of \<^verbatim>\<open>discard_queue\<close> can fail: not the
  empty-queue check of \<^verbatim>\<open>dequeue\<close>, not the lookup in \<^verbatim>\<open>remove_arrival\<close>, not the unknown code, and
  not \<^verbatim>\<open>We don't discard id 0, ever!\<close> for the ids given out by \<^verbatim>\<open>get_id\<close>.
\<close>

theorem dq_assertions_hold:
  assumes "dq_reachable can_fast s"
  shows "entry_locked s \<noteq> None \<and> (\<forall>qi. dispatch_thread s = In_hand qi \<longrightarrow> entry_unlocked qi s \<noteq> None) \<and>
    (\<forall>k. k \<noteq> 0 \<longrightarrow> discard_queue k s \<noteq> None)"
  using entry_locked_inv entry_unlocked_inv discard_queue_inv dq_reachable_inv [OF assms] by blast

theorem dq_assertions_hold_witness: "discard_queue 1 sample_state \<noteq> None"
  using dq_assertions_hold [OF sample_reachable [of "\<lambda>_. False"]] by simp

text \<open>
  C9. No wake-up is lost: although \<^verbatim>\<open>enqueue\<close> and \<^verbatim>\<open>local_delivery\<close> signal only when they find
  their queue empty, a thread that is blocked on its condition has nothing to deliver and
  has not been told to stop.
\<close>

theorem dq_no_lost_wakeup:
  assumes "dq_reachable can_fast s"
  shows "(dispatch_thread s = Waiting \<longrightarrow> queued s = [] \<and> \<not> stop s) \<and>
    (local_delivery_thread s = Waiting \<longrightarrow> local_messages s = [] \<and> \<not> stop_local_delivery s)"
  using dq_reachable_inv [OF assms] fifo_empty_contents [of "mqueue s"]
  by (auto simp: dq_inv_def threads_ok_def queued_def List.map_filter_simps)

definition sample_idle :: dq_state where
  "sample_idle = sample_started\<lparr>dispatch_thread := Waiting\<rparr>"

lemma sample_idle_reachable: "dq_reachable can_fast sample_idle"
proof -
  have "dq_step can_fast (dq_new (\<lambda>_. sample_msg)) sample_started"
    by (rule dq_step.start) (simp_all add: sample_defs)
  moreover have "dq_step can_fast sample_started sample_idle"
    by (rule dq_step.entry_locked)
      (simp_all add: sample_idle_def sample_defs entry_locked_def fifo_empty_def fifo_new_def subqueue_empty_def)
  ultimately show ?thesis by (blast intro: dq_reachable.intros)
qed

theorem dq_no_lost_wakeup_witness:
  "dispatch_thread sample_idle = Waiting \<and> queued sample_idle = [] \<and> \<not> stop sample_idle"
  using dq_no_lost_wakeup [OF sample_idle_reachable [of "\<lambda>_. False"]] by (simp add: sample_idle_def)

subsection \<open>What the dispatch thread delivers\<close>

text \<open>The dispatch thread running alone until it blocks or exits.\<close>

fun run_dispatch :: "nat \<Rightarrow> dq_state \<Rightarrow> dq_state option" where
  "run_dispatch 0 s = Some s"
| "run_dispatch (Suc n) s =
     (case dispatch_thread s of
        At_loop \<Rightarrow> Option.bind (entry_locked s) (run_dispatch n)
      | In_hand qi \<Rightarrow> Option.bind (entry_unlocked qi s) (run_dispatch n)
      | _ \<Rightarrow> Some s)"

definition delivery :: "bool \<Rightarrow> (ptr \<Rightarrow> dmessage) \<Rightarrow> queue_item \<Rightarrow> mcall list" where
  "delivery stopped ms qi =
     (case get_message qi of
        None \<Rightarrow> (case deliver_code (qi_type qi) (qi_con qi) of None \<Rightarrow> [] | Some c \<Rightarrow> [c])
      | Some m \<Rightarrow> (if stopped then []
                    else [Ms_deliver_dispatch m, Dispatch_throttle_release (dispatch_throttle_size (ms m))]))"

text \<open>One round of the loop: the front item is taken and delivered.\<close>

lemma dispatch_round:
  assumes inv: "dq_inv s" and top: "dispatch_thread s = At_loop" and es: "fifo_contents (mqueue s) = e # es"
  shows "\<exists>s'. run_dispatch 2 s = Some s' \<and> dq_inv s' \<and> dispatch_thread s' = At_loop \<and>
    fifo_contents (mqueue s') = es \<and> stop s' = stop s \<and>
    calls s' = calls s @ delivery (stop s) (msgs s) (snd (snd e)) \<and>
    (\<forall>m. get_message (snd (snd e)) \<noteq> Some m \<longrightarrow> msgs s' m = msgs s m)"
proof -
  have ok: "fifo_ok (mqueue s)" using inv by (simp add: dq_inv_def)
  obtain q where q: "fifo_dequeue (mqueue s) = Some (snd (snd e), q)" "fifo_contents q = es"
    using fifo.dequeue_contents [OF ok es] by blast
  obtain s1 where s1: "entry_locked s = Some s1" "dq_inv s1" using entry_locked_inv [OF inv] by blast
  have f: "dispatch_thread s1 = In_hand (snd (snd e))" "mqueue s1 = q" "stop s1 = stop s" "msgs s1 = msgs s"
    "calls s1 = calls s"
    using s1(1) q(1) es fifo_empty_contents [OF ok]
    by (auto simp: entry_locked_def Let_def remove_arrival_def split: option.splits)
  obtain s2 where s2: "entry_unlocked (snd (snd e)) s1 = Some s2" "dq_inv s2"
    using entry_unlocked_inv [OF s1(2) f(1)] by blast
  have "dispatch_thread s2 = At_loop" "mqueue s2 = q" "stop s2 = stop s"
    "calls s2 = calls s @ delivery (stop s) (msgs s) (snd (snd e))"
    "\<forall>m. get_message (snd (snd e)) \<noteq> Some m \<longrightarrow> msgs s2 m = msgs s m"
    using s2(1) f by (auto simp: entry_unlocked_def delivery_def Let_def pre_dispatch_def post_dispatch_def
        call_def msg_ref_def split: option.splits if_splits)
  then show ?thesis using s1 s2 q(2) f top by (simp add: numeral_2_eq_2)
qed

lemma run_dispatch_add:
  "run_dispatch m s = Some s' \<Longrightarrow> dispatch_thread s' = At_loop \<Longrightarrow>
    run_dispatch (m + n) s = run_dispatch n s'"
proof (induction m s rule: run_dispatch.induct)
  case (2 m s)
  then show ?case by (auto split: thread.splits Option.bind_splits)
qed simp

lemma run_dispatch_drains:
  assumes "dq_inv s" and "dispatch_thread s = At_loop"
  shows "\<exists>s'. run_dispatch (2 * length (fifo_contents (mqueue s)) + 1) s = Some s' \<and>
    fifo_contents (mqueue s') = [] \<and> dispatch_thread s' = (if stop s then Exited else Waiting) \<and>
    calls s' = calls s @ concat (map (\<lambda>e. delivery (stop s) (msgs s) (snd (snd e))) (fifo_contents (mqueue s)))"
  using assms
proof (induction "fifo_contents (mqueue s)" arbitrary: s)
  case Nil
  then have "fifo_empty (mqueue s)" using fifo_empty_contents [of "mqueue s"] by (simp add: dq_inv_def)
  then show ?case using Nil by (simp add: entry_locked_def)
next
  case (Cons e es)
  obtain s1 where s1: "run_dispatch 2 s = Some s1" "dq_inv s1" "dispatch_thread s1 = At_loop"
    "fifo_contents (mqueue s1) = es" "stop s1 = stop s"
    "calls s1 = calls s @ delivery (stop s) (msgs s) (snd (snd e))"
    "\<forall>m. get_message (snd (snd e)) \<noteq> Some m \<longrightarrow> msgs s1 m = msgs s m"
    using dispatch_round [OF Cons.prems Cons.hyps(2) [symmetric]] by blast
  have dist: "distinct (queued s)" using Cons.prems(1) by (simp add: dq_inv_def pending_def)
  have "delivery (stop s) (msgs s1) (snd (snd x)) = delivery (stop s) (msgs s) (snd (snd x))"
    if "x \<in> set es" for x
  proof -
    have "get_message (snd (snd e)) \<noteq> Some m" if "get_message (snd (snd x)) = Some m" for m
    proof
      assume "get_message (snd (snd e)) = Some m"
      then have "m \<notin> set (List.map_filter (\<lambda>e. get_message (snd (snd e))) es)"
        using dist Cons.hyps(2) [symmetric] by (simp add: queued_def List.map_filter_simps)
      then show False using \<open>x \<in> set es\<close> that by (force simp: List.map_filter_def)
    qed
    then show ?thesis using s1(7) by (auto simp: delivery_def split: option.splits)
  qed
  then have same: "map (\<lambda>x. delivery (stop s) (msgs s1) (snd (snd x))) es
      = map (\<lambda>x. delivery (stop s) (msgs s) (snd (snd x))) es" by simp
  have "2 * length (fifo_contents (mqueue s)) + 1 = 2 + (2 * length es + 1)"
    using Cons.hyps(2) [symmetric] by simp
  then have "run_dispatch (2 * length (fifo_contents (mqueue s)) + 1) s = run_dispatch (2 * length es + 1) s1"
    using run_dispatch_add [OF s1(1,3)] by metis
  then show ?case
    using Cons.hyps(1) [OF s1(4) [symmetric] s1(2,3)] s1(4-6) same Cons.hyps(2) [symmetric] by auto
qed

text \<open>
  C8. From any reachable state the dispatch thread, left alone, empties the queue: it makes the
  calls of the queued items in queue order, each message with the throttle amount it carried
  (and none of the messages once \<^verbatim>\<open>stop_\<close> is set), and then blocks, or exits when stopped.
\<close>

theorem dispatch_thread_drains_queue:
  assumes "dq_reachable can_fast s" and "dispatch_thread s = At_loop"
  shows "\<exists>s'. run_dispatch (2 * length (fifo_contents (mqueue s)) + 1) s = Some s' \<and>
    fifo_contents (mqueue s') = [] \<and> dispatch_thread s' = (if stop s then Exited else Waiting) \<and>
    calls s' = calls s @ concat (map (\<lambda>e. delivery (stop s) (msgs s) (snd (snd e))) (fifo_contents (mqueue s)))"
  using run_dispatch_drains [OF dq_reachable_inv [OF assms(1)] assms(2)] .

theorem dispatch_thread_drains_queue_witness:
  "\<exists>s'. run_dispatch 9 sample_state = Some s' \<and> dispatch_thread s' = Waiting \<and>
    calls s' = [Ms_deliver_handle_connect 3,
      Ms_deliver_dispatch 7, Dispatch_throttle_release 40,
      Ms_deliver_dispatch 9, Dispatch_throttle_release 40,
      Ms_deliver_dispatch 8, Dispatch_throttle_release 40]"
proof -
  have len: "length (fifo_contents (mqueue sample_state)) = 4"
    using arg_cong [OF sample_contents, of length] by simp
  have "concat (map (\<lambda>e. delivery False (msgs sample_state) (snd (snd e))) (fifo_contents (mqueue sample_state)))
    = concat (map (delivery False (msgs sample_state)) (map (snd \<circ> snd) (fifo_contents (mqueue sample_state))))"
    by (simp add: comp_def)
  also have "\<dots> = [Ms_deliver_handle_connect 3,
      Ms_deliver_dispatch 7, Dispatch_throttle_release 40,
      Ms_deliver_dispatch 9, Dispatch_throttle_release 40,
      Ms_deliver_dispatch 8, Dispatch_throttle_release 40]"
    unfolding sample_contents by (simp add: delivery_def deliver_code_def dcode_defs sample_fields)
  finally show ?thesis
    using dispatch_thread_drains_queue [OF sample_reachable [of "\<lambda>_. False"] sample_fields(1)]
    by (simp add: sample_fields len del: run_dispatch.simps) blast
qed

end
