(* ===== verification/Session.thy ===== *)
theory Session
  imports Dispatch_Queue
begin

text \<open>
  The sequence numbers and queues of an \<^verbatim>\<open>AsyncConnection\<close>
  (\<^verbatim>\<open>src/src/async/AsyncConnection.cc\<close>, \<^verbatim>\<open>src/src/async/AsyncConnection.h\<close>): messages wait in \<^verbatim>\<open>out_q\<close> by
  priority, get a number when they are written, and stay in \<^verbatim>\<open>sent\<close> until the peer acknowledges
  them; after a fault they go back in front of the queue, and when the connection is made
  again the peer says which of them it already has.  Two such sessions and the bytes between
  them form a system of events, for which exactly-once delivery in order is proved.
\<close>

section \<open>State and operations\<close>

text \<open>The fields of a queued message that matter: an identity, \<^verbatim>\<open>get_priority()\<close> and \<^verbatim>\<open>get_seq()\<close>.\<close>

record omsg =
  oid :: nat
  oprio :: int
  oseq :: u32

record session =
  out_q :: "(int, omsg list) omap"
  sent :: "omsg list"
  out_seq :: u64
  in_seq :: u64
  in_seq_acked :: u64
  lossy :: bool
  outcoming_bl :: "byte list"

definition new_session :: session where
  "new_session = \<lparr>out_q = [], sent = [], out_seq = 0, in_seq = 0, in_seq_acked = 0, lossy = False,
     outcoming_bl = []\<rparr>"

definition queue_at :: "int \<Rightarrow> (int, omsg list) omap \<Rightarrow> omsg list" where
  "queue_at p q = (case omap_find q p of None \<Rightarrow> [] | Some d \<Rightarrow> d)"

text \<open>\<^verbatim>\<open>out_q[m->get_priority()].push_back(m)\<close> of \<^verbatim>\<open>send_message\<close>.\<close>

definition queue_message :: "omsg \<Rightarrow> ('a session_scheme) \<Rightarrow> 'a session_scheme" where
  "queue_message m s = s\<lparr>out_q := omap_update [] (oprio m) (\<lambda>d. d @ [m]) (out_q s)\<rparr>"

text \<open>\<^verbatim>\<open>_get_next_outgoing\<close> takes from the queue with the greatest key.\<close>

function get_next_outgoing :: "(int, omsg list) omap \<Rightarrow> omsg option \<times> (int, omsg list) omap" where
  "get_next_outgoing q =
     (if q = [] then (None, q)
      else
        (let (k, d) = last q
         in case d of
              [] \<Rightarrow> get_next_outgoing (omap_erase k q)
            | m # d' \<Rightarrow> (Some m, if d' = [] then omap_erase k q else omap_put k d' q)))"
  by pat_completeness auto
termination
proof (relation "measure length", simp)
  fix q :: "(int, omsg list) omap" and x k d
  assume "q \<noteq> []" "x = last q" "(k, d) = x" "d = []"
  then have "(k, d) \<in> set q" by (metis last_in_set)
  then show "(omap_erase k q, q) \<in> measure length"
    by (simp add: omap_erase_def) (metis (mono_tags, lifting) fst_conv length_filter_less)
qed

declare get_next_outgoing.simps [simp del]

text \<open>The bookkeeping of \<^verbatim>\<open>_send\<close>: the number, and the copy that is kept unless the policy is lossy.\<close>

definition assign_seq :: "omsg \<Rightarrow> 'a session_scheme \<Rightarrow> omsg \<times> 'a session_scheme" where
  "assign_seq m s =
     (let s = s\<lparr>out_seq := out_seq s + 1\<rparr>; m = m\<lparr>oseq := ucast (out_seq s)\<rparr>
      in (m, if lossy s then s else s\<lparr>sent := sent s @ [m]\<rparr>))"

text \<open>The loop of \<^verbatim>\<open>requeue_sent\<close> pops from the back, so it runs over the reversed list.\<close>

fun requeue_loop :: "omsg list \<Rightarrow> omsg list \<Rightarrow> u64 \<Rightarrow> omsg list \<times> u64" where
  "requeue_loop [] rq n = (rq, n)"
| "requeue_loop (m # ms) rq n = requeue_loop ms (m # rq) (n - 1)"

definition requeue_sent :: "'a session_scheme \<Rightarrow> 'a session_scheme" where
  "requeue_sent s =
     (if sent s = [] then s
      else
        (let (rq, n) = requeue_loop (rev (sent s)) (queue_at MSGR_MSG_PRIO_HIGHEST (out_q s)) (out_seq s)
         in s\<lparr>out_q := omap_put MSGR_MSG_PRIO_HIGHEST rq (out_q s), sent := [], out_seq := n\<rparr>))"

fun discard_requeued_loop :: "u64 \<Rightarrow> omsg list \<Rightarrow> u64 \<Rightarrow> omsg list \<times> u64" where
  "discard_requeued_loop seq [] n = ([], n)"
| "discard_requeued_loop seq (m # rq) n =
     (if oseq m = 0 \<or> ucast (oseq m) > seq then (m # rq, n) else discard_requeued_loop seq rq (n + 1))"

definition discard_requeued_up_to :: "u64 \<Rightarrow> 'a session_scheme \<Rightarrow> 'a session_scheme" where
  "discard_requeued_up_to seq s =
     (case omap_find (out_q s) MSGR_MSG_PRIO_HIGHEST of
        None \<Rightarrow> s
      | Some d \<Rightarrow>
          (let (rq, n) = discard_requeued_loop seq d (out_seq s)
           in s\<lparr>out_q := (if rq = [] then omap_erase MSGR_MSG_PRIO_HIGHEST (out_q s)
                           else omap_put MSGR_MSG_PRIO_HIGHEST rq (out_q s)),
                out_seq := n\<rparr>))"

definition discard_out_queue :: "'a session_scheme \<Rightarrow> 'a session_scheme" where
  "discard_out_queue s = s\<lparr>sent := [], out_q := [], outcoming_bl := []\<rparr>"

text \<open>\<open>random\<close> is the result and the bytes of \<^verbatim>\<open>get_random_bytes\<close>, \<open>msg_auth\<close> the feature bit that asks for it.\<close>

definition randomize_out_seq :: "bool \<Rightarrow> int \<times> u64 \<Rightarrow> 'a session_scheme \<Rightarrow> int \<times> 'a session_scheme" where
  "randomize_out_seq msg_auth random s =
     (if msg_auth then (fst random, s\<lparr>out_seq := snd random AND 0x7fffffff\<rparr>) else (0, s\<lparr>out_seq := 0\<rparr>))"

fun ack_loop :: "u64 \<Rightarrow> omsg list \<Rightarrow> omsg list" where
  "ack_loop seq [] = []"
| "ack_loop seq (m # ms) = (if ucast (oseq m) \<le> seq then ack_loop seq ms else m # ms)"

definition handle_ack :: "u64 \<Rightarrow> 'a session_scheme \<Rightarrow> 'a session_scheme" where
  "handle_ack seq s = s\<lparr>sent := ack_loop seq (sent s)\<rparr>"

text \<open>The check of a received number: an old message is dropped, a gap is accepted.\<close>

definition receive_seq :: "u32 \<Rightarrow> 'a session_scheme \<Rightarrow> bool \<times> 'a session_scheme" where
  "receive_seq seq s =
     (if ucast seq \<le> in_seq s then (False, s) else (True, s\<lparr>in_seq := ucast seq\<rparr>))"

text \<open>\<^verbatim>\<open>handle_write\<close> acknowledges what was received since the last acknowledgement.\<close>

definition send_ack :: "'a session_scheme \<Rightarrow> u64 option \<times> 'a session_scheme" where
  "send_ack s =
     (if in_seq s > in_seq_acked s then (Some (in_seq s), s\<lparr>in_seq_acked := in_seq s\<rparr>) else (None, s))"

section \<open>Two sessions and the network\<close>

text \<open>
  \<open>chan\<close> holds the messages written and not yet read, \<open>acks\<close> the acknowledgements on their way back.
  \<open>hist\<close> records the messages in the order of their first transmission, \<open>accepted\<close> those given to
  \<^verbatim>\<open>send_message\<close>, \<open>delivered\<close> those handed to the dispatch queue (identity and priority each).
\<close>

record link =
  snd_s :: session
  rcv_s :: session
  chan :: "omsg list"
  acks :: "u64 list"
  up :: bool
  hist :: "(nat \<times> int) list"
  accepted :: "(nat \<times> int) list"
  delivered :: "(nat \<times> int) list"

definition new_link :: link where
  "new_link = \<lparr>snd_s = new_session, rcv_s = new_session, chan = [], acks = [], up = True,
     hist = [], accepted = [], delivered = []\<rparr>"

text \<open>
  \<open>Fault\<close> is the loss of the connection at the sender; what is already in the channel may still
  be read until \<open>Reconnect\<close>, where the new connection replaces the old one at the receiver, its
  \<^verbatim>\<open>in_seq\<close> is sent with \<^verbatim>\<open>MSGR_MSGR_TAG_SEQ\<close> and the sender discards up to it.
\<close>

datatype event = Queue nat int | Transmit | Deliver | Ack | Got_ack | Fault | Reconnect

fun link_event :: "event \<Rightarrow> link \<Rightarrow> link option" where
  "link_event (Queue i p) l =
     Some (l\<lparr>snd_s := queue_message \<lparr>oid = i, oprio = p, oseq = 0\<rparr> (snd_s l), accepted := accepted l @ [(i, p)]\<rparr>)"
| "link_event Transmit l =
     (if \<not> up l then None
      else
        (case get_next_outgoing (out_q (snd_s l)) of
           (None, _) \<Rightarrow> None
         | (Some m, q) \<Rightarrow>
             (let (m, s) = assign_seq m ((snd_s l)\<lparr>out_q := q\<rparr>)
              in Some (l\<lparr>snd_s := s, chan := chan l @ [m],
                         hist := (if unat (out_seq s) \<le> length (hist l) then hist l
                                  else hist l @ [(oid m, oprio m)])\<rparr>))))"
| "link_event Deliver l =
     (case chan l of
        [] \<Rightarrow> None
      | m # ms \<Rightarrow>
          (let (new, s) = receive_seq (oseq m) (rcv_s l)
           in Some (l\<lparr>rcv_s := s, chan := ms,
                      delivered := (if new then delivered l @ [(oid m, oprio m)] else delivered l)\<rparr>)))"
| "link_event Ack l =
     (case send_ack (rcv_s l) of
        (None, _) \<Rightarrow> None
      | (Some a, s) \<Rightarrow> Some (l\<lparr>rcv_s := s, acks := acks l @ [a]\<rparr>))"
| "link_event Got_ack l =
     (case acks l of
        [] \<Rightarrow> None
      | a # as \<Rightarrow> (if up l then Some (l\<lparr>snd_s := handle_ack a (snd_s l), acks := as\<rparr>) else None))"
| "link_event Fault l =
     (if up l then Some (l\<lparr>snd_s := requeue_sent (snd_s l), up := False, acks := []\<rparr>) else None)"
| "link_event Reconnect l =
     (if up l then None
      else Some (l\<lparr>snd_s := discard_requeued_up_to (in_seq (rcv_s l)) (snd_s l),
                   chan := [], acks := [], up := True\<rparr>))"

fun link_run :: "event list \<Rightarrow> link \<Rightarrow> link option" where
  "link_run [] l = Some l"
| "link_run (ev # evs) l = (case link_event ev l of None \<Rightarrow> None | Some l' \<Rightarrow> link_run evs l')"

text \<open>Priorities as the library documents them: at most \<^verbatim>\<open>MSGR_MSG_PRIO_HIGHEST\<close>.\<close>

fun ordinary :: "event \<Rightarrow> bool" where
  "ordinary (Queue i p) \<longleftrightarrow> p \<le> MSGR_MSG_PRIO_HIGHEST"
| "ordinary _ \<longleftrightarrow> True"

inductive link_reachable :: "link \<Rightarrow> bool" where
  start: "link_reachable new_link"
| step: "link_reachable l \<Longrightarrow> ordinary ev \<Longrightarrow> link_event ev l = Some l' \<Longrightarrow> link_reachable l'"

section \<open>What the operations do\<close>

lemma queue_at_put [simp]: "queue_at p (omap_put k d q) = (if p = k then d else queue_at p q)"
  by (simp add: queue_at_def omap_find_put)

lemma queue_at_erase [simp]: "queue_at p (omap_erase k q) = (if p = k then [] else queue_at p q)"
  by (simp add: queue_at_def omap_find_erase)

lemma queue_at_Nil [simp]: "queue_at p [] = []"
  by (simp add: queue_at_def)

definition keys :: "(int, omsg list) omap \<Rightarrow> int set" where
  "keys q = fst ` set q"

lemma keys_put [simp]: "keys (omap_put k d q) = insert k (keys q)"
  by (simp add: keys_def fst_set_omap_put)

lemma keys_erase [simp]: "keys (omap_erase k q) = keys q - {k}"
  by (auto simp: keys_def omap_erase_def)

lemma queue_at_key: "queue_at p q \<noteq> [] \<Longrightarrow> p \<in> keys q"
  by (cases "omap_find q p") (force simp: queue_at_def keys_def dest: map_of_SomeD)+

lemma last_key:
  assumes "omap_sorted q" and "q \<noteq> []" and "last q = (k, d)"
  shows "queue_at k q = d" and "\<forall>p \<in> keys q. p \<le> k" and "k \<in> keys q"
proof -
  obtain q' where q: "q = q' @ [(k, d)]" using assms(2,3) by (metis append_butlast_last_id)
  then have lt: "\<forall>x \<in> fst ` set q'. x < k" using assms(1) by simp
  then have "k \<notin> fst ` set q'" by blast
  then have "map_of q' k = None" by (simp add: map_of_eq_None_iff)
  then show "queue_at k q = d" using q by (simp add: queue_at_def map_add_def)
  show "\<forall>p \<in> keys q. p \<le> k" "k \<in> keys q" using lt q by (auto simp: keys_def)
qed

text \<open>The next message is the first of the most urgent queue that is not empty.\<close>

lemma get_next_outgoing_spec:
  assumes "omap_sorted q" and "get_next_outgoing q = (r, q')"
  shows "omap_sorted q' \<and> keys q' \<subseteq> keys q \<and>
    (case r of
       None \<Rightarrow> \<forall>p. queue_at p q = []
     | Some m \<Rightarrow> \<exists>k d. queue_at k q = m # d \<and> (\<forall>p > k. queue_at p q = []) \<and>
         (\<forall>p. queue_at p q' = (if p = k then d else queue_at p q)))"
  using assms
proof (induction q rule: get_next_outgoing.induct)
  case (1 q)
  show ?case
  proof (cases "q = []")
    case True
    then show ?thesis using 1(3) by (auto simp: get_next_outgoing.simps)
  next
    case False
    obtain k d where l: "last q = (k, d)" by (cases "last q")
    note lk = last_key [OF 1(2) False l]
    have above: "queue_at p q = []" if "k < p" for p using queue_at_key lk(2) that by force
    show ?thesis
    proof (cases d)
      case Nil
      have "get_next_outgoing (omap_erase k q) = (r, q')"
        using 1(3) False l Nil by (simp add: get_next_outgoing.simps [of q])
      then have ih: "omap_sorted q' \<and> keys q' \<subseteq> keys q - {k} \<and>
        (case r of None \<Rightarrow> \<forall>p. queue_at p (omap_erase k q) = []
         | Some m \<Rightarrow> \<exists>j d. queue_at j (omap_erase k q) = m # d \<and> (\<forall>p > j. queue_at p (omap_erase k q) = []) \<and>
           (\<forall>p. queue_at p q' = (if p = j then d else queue_at p (omap_erase k q))))"
        using 1(1) [OF False refl l [symmetric] Nil] 1(2) by (simp add: omap_sorted_erase)
      have same: "queue_at p (omap_erase k q) = queue_at p q" for p using lk(1) Nil by simp
      show ?thesis using ih unfolding same by (auto split: option.splits)
    next
      case (Cons m d')
      have "r = Some m" "q' = (if d' = [] then omap_erase k q else omap_put k d' q)"
        using 1(3) False l Cons by (simp_all add: get_next_outgoing.simps [of q])
      then show ?thesis
        using 1(2) lk Cons above by (auto simp: omap_sorted_erase omap_sorted_put)
    qed
  qed
qed

lemma requeue_loop_eq: "requeue_loop (rev xs) rq n = (xs @ rq, n - of_nat (length xs))"
  by (induction xs arbitrary: rq n rule: rev_induct) (simp_all add: algebra_simps)

subsection \<open>Numbered messages\<close>

definition ident :: "omsg \<Rightarrow> nat \<times> int" where
  "ident m = (oid m, oprio m)"

definition tags :: "omsg list \<Rightarrow> ((nat \<times> int) \<times> nat) list" where
  "tags ms = map (\<lambda>m. (ident m, unat (oseq m))) ms"

text \<open>The messages with the numbers \<open>a + 1\<close> to \<open>b\<close> of a history.\<close>

definition stretch :: "(nat \<times> int) list \<Rightarrow> nat \<Rightarrow> nat \<Rightarrow> ((nat \<times> int) \<times> nat) list" where
  "stretch H a b = map (\<lambda>k. (H ! k, Suc k)) [a..<b]"

lemma tags_simps [simp]: "tags [] = []" "tags (m # ms) = (ident m, unat (oseq m)) # tags ms"
  "tags (ms @ ms') = tags ms @ tags ms'" "length (tags ms) = length ms" "tags ms = [] \<longleftrightarrow> ms = []"
  by (simp_all add: tags_def)

lemma length_stretch [simp]: "length (stretch H a b) = b - a"
  by (simp add: stretch_def)

lemma stretch_empty [simp]: "b \<le> a \<Longrightarrow> stretch H a b = []" "stretch H a b = [] \<longleftrightarrow> b \<le> a" "[] = stretch H a b \<longleftrightarrow> b \<le> a"
  by (auto simp: stretch_def)

lemma stretch_Cons: "a < b \<Longrightarrow> stretch H a b = (H ! a, Suc a) # stretch H (Suc a) b"
  by (simp add: stretch_def upt_rec)

lemma stretch_snoc: "a \<le> b \<Longrightarrow> stretch H a (Suc b) = stretch H a b @ [(H ! b, Suc b)]"
  by (simp add: stretch_def)

lemma stretch_join: "a \<le> b \<Longrightarrow> b \<le> c \<Longrightarrow> stretch H a b @ stretch H b c = stretch H a c"
  using upt_add_eq_append [of a b "c - b"] by (simp add: stretch_def)

lemma stretch_longer: "b \<le> length H \<Longrightarrow> stretch (H @ H') a b = stretch H a b"
  by (simp add: stretch_def nth_append)

lemma drop_stretch: "drop k (stretch H a b) = stretch H (a + k) b"
  by (simp add: stretch_def drop_map)

lemma drop_tags: "drop k (tags ms) = tags (drop k ms)"
  by (simp add: tags_def drop_map)

lemma unat_ucast_u64 [simp]: "unat (ucast (x :: u32) :: u64) = unat x"
  by transfer (simp add: take_bit_int_eq_self_iff)

lemma unat_ucast_u32: "unat (x :: u64) < 2 ^ 32 \<Longrightarrow> unat (ucast x :: u32) = unat x"
  by (simp add: unsigned_ucast_eq take_bit_nat_eq_self)

lemma tags_ConsD:
  assumes "tags (m # ms) = stretch H a b"
  shows "a < b" and "ident m = H ! a" and "unat (oseq m) = Suc a" and "tags ms = stretch H (Suc a) b"
proof -
  show lt: "a < b" using assms by (cases "a < b") simp_all
  show "ident m = H ! a" "unat (oseq m) = Suc a" "tags ms = stretch H (Suc a) b"
    using assms stretch_Cons [OF lt] by simp_all
qed

lemma le_number: "ucast (s :: u32) \<le> (x :: u64) \<longleftrightarrow> unat s \<le> unat x"
  by (simp add: word_le_nat_alt)

lemma ack_loop_eq: "tags ms = stretch H a b \<Longrightarrow> ack_loop x ms = drop (unat x - a) ms"
proof (induction ms arbitrary: a)
  case (Cons m ms)
  note c = tags_ConsD [OF Cons.prems]
  show ?case
    using Cons.IH [OF c(4)] c(3) Suc_diff_Suc [of a "unat x"]
    by (cases "a < unat x") (auto simp: le_number Suc_le_eq dest: sym)
qed simp

lemma discard_loop_eq:
  "tags ms = stretch H a b \<Longrightarrow> \<forall>m \<in> set F. oseq m = 0 \<Longrightarrow> unat x \<le> max a b \<Longrightarrow>
    discard_requeued_loop x (ms @ F) n = (drop (unat x - a) ms @ F, n + of_nat (unat x - a))"
proof (induction ms arbitrary: a n)
  case Nil
  then have "b \<le> a" by (metis stretch_empty(2) tags_simps(1))
  then show ?case using Nil by (cases F) auto
next
  case (Cons m ms)
  note c = tags_ConsD [OF Cons.prems(1)]
  have nz: "oseq m \<noteq> 0" using c(3) by auto
  show ?case
  proof (cases "unat x \<le> a")
    case True
    then show ?thesis using c(3) by (simp add: not_le [symmetric] le_number)
  next
    case False
    then have "unat x - a = Suc (unat x - Suc a)" by simp
    moreover have "discard_requeued_loop x (ms @ F) (n + 1) = (drop (unat x - Suc a) ms @ F, n + 1 + of_nat (unat x - Suc a))"
      using Cons.IH [OF c(4) Cons.prems(2)] Cons.prems(3) c(1) by simp
    ultimately show ?thesis using False nz c(3) by (simp add: not_le [symmetric] le_number algebra_simps)
  qed
qed

section \<open>The invariant\<close>

text \<open>
  The most urgent queue starts with the messages \<open>R\<close> that wait to be written again, numbered from
  \<open>n\<close> on as in the history; all others have never been written.  For each priority the history
  followed by what was never written is what was accepted, in order.
\<close>

definition queue_ok ::
    "(int, omsg list) omap \<Rightarrow> (nat \<times> int) list \<Rightarrow> nat \<Rightarrow> omsg list \<Rightarrow> omsg list \<Rightarrow> (nat \<times> int) list \<Rightarrow> bool" where
  "queue_ok q H n R F acc \<longleftrightarrow> omap_sorted q \<and> (\<forall>k \<in> keys q. k \<le> MSGR_MSG_PRIO_HIGHEST) \<and>
     queue_at MSGR_MSG_PRIO_HIGHEST q = R @ F \<and> tags R = stretch H n (length H) \<and> (\<forall>m \<in> set F. oseq m = 0) \<and>
     (\<forall>p. filter (\<lambda>x. snd x = p) H @ map ident (if p = MSGR_MSG_PRIO_HIGHEST then F else queue_at p q)
        = filter (\<lambda>x. snd x = p) acc)"

lemma queue_ok_queue:
  assumes "queue_ok q H n R F acc" and "oprio m \<le> MSGR_MSG_PRIO_HIGHEST" and "oseq m = 0"
  shows "queue_ok (omap_update [] (oprio m) (\<lambda>d. d @ [m]) q) H n R
    (if oprio m = MSGR_MSG_PRIO_HIGHEST then F @ [m] else F) (acc @ [ident m])"
proof -
  have u: "omap_update [] (oprio m) (\<lambda>d. d @ [m]) q = omap_put (oprio m) (queue_at (oprio m) q @ [m]) q"
    by (simp add: omap_update_def queue_at_def)
  have at: "queue_at MSGR_MSG_PRIO_HIGHEST q = R @ F" using assms(1) by (simp add: queue_ok_def)
  have eq: "filter (\<lambda>x. snd x = p) H @ map ident (if p = MSGR_MSG_PRIO_HIGHEST then F else queue_at p q)
      = filter (\<lambda>x. snd x = p) acc" for p
    using assms(1) by (simp add: queue_ok_def)
  have "filter (\<lambda>x. snd x = p) H @ map ident (if p = MSGR_MSG_PRIO_HIGHEST
        then (if oprio m = MSGR_MSG_PRIO_HIGHEST then F @ [m] else F)
        else queue_at p (omap_put (oprio m) (queue_at (oprio m) q @ [m]) q))
      = filter (\<lambda>x. snd x = p) (acc @ [ident m])" for p
    using eq [of p] by (auto simp: ident_def simp flip: append_assoc)
  then show ?thesis
    unfolding u using assms at by (auto simp: queue_ok_def omap_sorted_put)
qed

lemma queue_ok_sub:
  assumes "queue_ok q H n R F acc"
  shows "mset H \<subseteq># mset acc" and "length H \<le> length acc"
proof -
  show sub: "mset H \<subseteq># mset acc"
  proof (rule mset_subset_eqI)
    fix x :: "nat \<times> int"
    let ?P = "\<lambda>y :: nat \<times> int. snd y = snd x"
    have "filter ?P H @ map ident (if snd x = MSGR_MSG_PRIO_HIGHEST then F else queue_at (snd x) q) = filter ?P acc"
      using assms by (simp add: queue_ok_def)
    then have "count (mset (filter ?P acc)) x = count (mset (filter ?P H)) x
        + count (mset (map ident (if snd x = MSGR_MSG_PRIO_HIGHEST then F else queue_at (snd x) q))) x"
      by (metis count_union mset_append)
    then show "count (mset H) x \<le> count (mset acc) x" by simp
  qed
  show "length H \<le> length acc" using size_mset_mono [OF sub] by simp
qed

text \<open>Only the most urgent queue changes, and only in what waits to be written again.\<close>

lemma queue_ok_swap:
  assumes "queue_ok q H n R F acc" and "omap_sorted q'" and "\<forall>k \<in> keys q'. k \<le> MSGR_MSG_PRIO_HIGHEST"
    and "queue_at MSGR_MSG_PRIO_HIGHEST q' = R' @ F" and "tags R' = stretch H n' (length H)"
    and "\<And>p. p \<noteq> MSGR_MSG_PRIO_HIGHEST \<Longrightarrow> queue_at p q' = queue_at p q"
  shows "queue_ok q' H n' R' F acc"
proof -
  have "(if p = MSGR_MSG_PRIO_HIGHEST then F else queue_at p q') = (if p = MSGR_MSG_PRIO_HIGHEST then F else queue_at p q)" for p
    using assms(6) by simp
  then show ?thesis using assms(1-5) by (simp add: queue_ok_def)
qed

lemma queue_ok_transmit:
  assumes q: "queue_ok q H n R F acc" and n: "n \<le> length H" and m: "get_next_outgoing q = (Some m, q')"
  shows "n < length H \<Longrightarrow> ident m = H ! n \<and> (\<exists>R'. queue_ok q' H (Suc n) R' F acc)"
    and "n = length H \<Longrightarrow> \<exists>F'. queue_ok q' (H @ [ident m]) (Suc n) [] F' acc"
proof -
  let ?T = MSGR_MSG_PRIO_HIGHEST
  have sorted: "omap_sorted q" and at: "queue_at ?T q = R @ F" and tr: "tags R = stretch H n (length H)"
    and eq: "\<And>p. filter (\<lambda>x. snd x = p) H @ map ident (if p = ?T then F else queue_at p q) = filter (\<lambda>x. snd x = p) acc"
    using q by (simp_all add: queue_ok_def)
  obtain k d where k: "omap_sorted q'" "keys q' \<subseteq> keys q" "queue_at k q = m # d" "\<forall>p > k. queue_at p q = []"
    "\<And>p. queue_at p q' = (if p = k then d else queue_at p q)"
    using get_next_outgoing_spec [OF sorted m] by auto
  have bound: "\<forall>j \<in> keys q'. j \<le> ?T" using q k(2) by (auto simp: queue_ok_def)
  have kT: "k \<le> ?T" using q queue_at_key [of k q] k(3) by (auto simp: queue_ok_def)
  show "ident m = H ! n \<and> (\<exists>R'. queue_ok q' H (Suc n) R' F acc)" if lt: "n < length H"
  proof -
    have "R \<noteq> []" using tr lt stretch_empty(2) [of H n "length H"] by auto
    then obtain r R' where R: "R = r # R'" by (cases R) auto
    then have kk: "k = ?T" using k(4) kT at by (cases "k = ?T") auto
    then have mr: "m = r" "d = R' @ F" using k(3) at R by simp_all
    note c = tags_ConsD [OF tr [unfolded R]]
    have "queue_ok q' H (Suc n) R' F acc"
      by (rule queue_ok_swap [OF q k(1) bound _ c(4)]) (use k(5) kk mr in simp_all)
    then show ?thesis using c(2) mr by blast
  qed
  show "\<exists>F'. queue_ok q' (H @ [ident m]) (Suc n) [] F' acc" if n: "n = length H"
  proof -
    have R: "R = []" using tr n by simp
    have pm: "oprio m = k"
    proof -
      have "ident m \<in> set (map ident (if k = ?T then F else queue_at k q))" using k(3) at R by auto
      then have "ident m \<in> set (filter (\<lambda>x. snd x = k) acc)" using eq [of k] by (metis UnCI set_append)
      then show ?thesis by (simp add: ident_def)
    qed
    define F' where "F' = (if k = ?T then d else F)"
    have "filter (\<lambda>x. snd x = p) (H @ [ident m]) @ map ident (if p = ?T then F' else queue_at p q')
        = filter (\<lambda>x. snd x = p) acc" for p
      using eq [of p] k(3,5) at R pm by (auto simp: F'_def ident_def split: if_splits)
    moreover have "queue_at ?T q' = [] @ F'" "\<forall>m \<in> set F'. oseq m = 0"
      using q k(3,5) at R by (auto simp: F'_def queue_ok_def)
    ultimately show ?thesis using k(1) bound n unfolding queue_ok_def by (intro exI [of _ F']) simp
  qed
qed

lemma queue_ok_requeue:
  assumes "queue_ok q H n R F acc" and "tags S = stretch H a n" and "a \<le> n" and "n \<le> length H"
  shows "queue_ok (omap_put MSGR_MSG_PRIO_HIGHEST (S @ queue_at MSGR_MSG_PRIO_HIGHEST q) q) H a (S @ R) F acc"
  by (rule queue_ok_swap [OF assms(1)])
    (use assms stretch_join [OF assms(3,4)] in \<open>auto simp: queue_ok_def omap_sorted_put\<close>)

lemma queue_ok_discard:
  assumes "queue_ok q H n R F acc" and "n \<le> i" and "i \<le> length H"
  defines "rq \<equiv> drop (i - n) R @ F"
  shows "queue_ok (if rq = [] then omap_erase MSGR_MSG_PRIO_HIGHEST q else omap_put MSGR_MSG_PRIO_HIGHEST rq q)
    H i (drop (i - n) R) F acc"
proof -
  have "tags (drop (i - n) R) = stretch H i (length H)"
    using assms(1,2) by (simp add: queue_ok_def drop_stretch flip: drop_tags)
  then show ?thesis
    by (intro queue_ok_swap [OF assms(1)])
      (use assms(1) in \<open>auto simp: queue_ok_def omap_sorted_put omap_sorted_erase rq_def\<close>)
qed

text \<open>\<open>a\<close> is the number of messages that were acknowledged, \<open>b\<close> the last number in the channel.\<close>

definition link_ok :: "link \<Rightarrow> nat \<Rightarrow> omsg list \<Rightarrow> omsg list \<Rightarrow> nat \<Rightarrow> bool" where
  "link_ok l a R F b \<longleftrightarrow>
     queue_ok (out_q (snd_s l)) (hist l) (unat (out_seq (snd_s l))) R F (accepted l) \<and> \<not> lossy (snd_s l) \<and>
     unat (out_seq (snd_s l)) \<le> length (hist l) \<and> a \<le> unat (out_seq (snd_s l)) \<and> a \<le> unat (in_seq (rcv_s l)) \<and>
     tags (sent (snd_s l)) = stretch (hist l) a (unat (out_seq (snd_s l))) \<and>
     tags (chan l) = stretch (hist l) (unat (in_seq (rcv_s l))) b \<and>
     unat (in_seq (rcv_s l)) \<le> b \<and> b \<le> length (hist l) \<and>
     (if up l then b = unat (out_seq (snd_s l)) else a = unat (out_seq (snd_s l))) \<and>
     delivered l = take (unat (in_seq (rcv_s l))) (hist l) \<and>
     (\<forall>x \<in> set (acks l). unat x \<le> unat (in_seq (rcv_s l)))"

definition link_inv :: "link \<Rightarrow> bool" where
  "link_inv l \<longleftrightarrow> (length (accepted l) < 2 ^ 32 \<longrightarrow> (\<exists>a R F b. link_ok l a R F b))"

lemma link_inv_start: "link_inv new_link"
  unfolding link_inv_def
  by (intro impI exI [of _ 0] exI [of _ "[]"])
    (simp add: link_ok_def new_link_def new_session_def queue_ok_def keys_def)

lemmas link_ok_defs = link_ok_def link_event.simps

lemma unat_inc: "unat (x :: u64) < 2 ^ 32 \<Longrightarrow> unat (x + 1) = Suc (unat x)"
  by (simp add: unat_plus_if_size word_size)

lemma unat_sub_nat: "k \<le> unat (x :: u64) \<Longrightarrow> unat (x - of_nat k) = unat x - k"
proof -
  assume k: "k \<le> unat x"
  have "unat x < 2 ^ 64" using unsigned_less [of x] by simp
  then have u: "unat (of_nat k :: u64) = k" using k by (simp add: unat_of_nat)
  then have "of_nat k \<le> x" using k by (simp add: word_le_nat_alt)
  then show ?thesis using u by (simp add: unat_sub)
qed

lemma link_ok_queue:
  assumes "link_ok l a R F b" and "p \<le> MSGR_MSG_PRIO_HIGHEST" and "link_event (Queue i p) l = Some l'"
  shows "\<exists>F'. link_ok l' a R F' b"
  using assms queue_ok_queue [of "out_q (snd_s l)" "hist l" "unat (out_seq (snd_s l))" R F "accepted l"
      "\<lparr>oid = i, oprio = p, oseq = 0\<rparr>"]
  by (auto simp: link_ok_def queue_message_def ident_def intro!: exI)

lemma link_ok_transmit:
  assumes ok: "link_ok l a R F b" and ev: "link_event Transmit l = Some l'" and len: "length (accepted l) < 2 ^ 32"
  shows "\<exists>R' F' b'. link_ok l' a R' F' b'"
proof -
  let ?s = "snd_s l" and ?H = "hist l" and ?n = "unat (out_seq (snd_s l))"
  have up: "up l" using ev by (simp split: if_splits)
  obtain m q where g: "get_next_outgoing (out_q ?s) = (Some m, q)"
    using ev by (auto split: if_splits prod.splits option.splits)
  have lossy: "\<not> lossy ?s" and n: "?n \<le> length ?H" and q: "queue_ok (out_q ?s) ?H ?n R F (accepted l)"
    using ok by (simp_all add: link_ok_def)
  define m' where "m' = m\<lparr>oseq := ucast (out_seq ?s + 1)\<rparr>"
  define H' where "H' = (if unat (out_seq ?s + 1) \<le> length ?H then ?H else ?H @ [(oid m', oprio m')])"
  have l': "l' = l\<lparr>snd_s := ?s\<lparr>out_q := q, out_seq := out_seq ?s + 1, sent := sent ?s @ [m']\<rparr>,
      chan := chan l @ [m'], hist := H'\<rparr>"
    using ev up g lossy unfolding H'_def m'_def by (simp add: assign_seq_def Let_def split del: if_split)
  have n32: "?n < 2 ^ 32" using n len queue_ok_sub(2) [OF q] by simp
  have inc: "unat (out_seq ?s + 1) = Suc ?n" using unat_inc [OF n32] .
  have H': "H' = (if ?n < length ?H then ?H else ?H @ [ident m])" using inc by (auto simp: H'_def m'_def ident_def)
  have n': "Suc ?n \<le> length H'" "length ?H \<le> length H'" using n H' by auto
  have idm: "ident m = H' ! ?n" and qok: "\<exists>R' F'. queue_ok q H' (Suc ?n) R' F' (accepted l)"
    using queue_ok_transmit [OF q n g] H' n by (cases "?n < length ?H"; auto simp: nth_append)+
  have "length H' \<le> length (accepted l)" using qok queue_ok_sub(2) by blast
  then have seq: "unat (oseq m') = Suc ?n"
    using n'(1) len inc unat_ucast_u32 [of "out_seq ?s + 1"] by (simp add: m'_def)
  have tag: "tags [m'] = [(H' ! ?n, Suc ?n)]" using idm seq by (simp add: m'_def ident_def)
  have old: "stretch H' x y = stretch ?H x y" if "y \<le> length ?H" for x y
    using that H' stretch_longer by (simp split: if_splits)
  obtain R' F' where "queue_ok q H' (Suc ?n) R' F' (accepted l)" using qok by blast
  then have "link_ok l' a R' F' (Suc ?n)"
    using ok up n n' inc tag stretch_snoc [of a ?n H'] stretch_snoc [of "unat (in_seq (rcv_s l))" ?n H']
      old [of ?n] lossy H'
    by (auto simp: link_ok_def l' nth_append)
  then show ?thesis by blast
qed

lemma link_ok_deliver:
  assumes ok: "link_ok l a R F b" and ev: "link_event Deliver l = Some l'" and len: "length (hist l) < 2 ^ 32"
  shows "link_ok l' a R F b"
proof -
  let ?i = "unat (in_seq (rcv_s l))"
  obtain m ms where c: "chan l = m # ms" using ev by (auto split: list.splits)
  have "tags (m # ms) = stretch (hist l) ?i b" "b \<le> length (hist l)" using ok c by (simp_all add: link_ok_def)
  note t = tags_ConsD [OF this(1)] this(2)
  have seq: "unat (ucast (oseq m) :: u64) = Suc ?i" using t(3) by simp
  have new: "\<not> ucast (oseq m) \<le> in_seq (rcv_s l)" using t(3) by (simp add: le_number)
  have l': "l' = l\<lparr>rcv_s := (rcv_s l)\<lparr>in_seq := ucast (oseq m)\<rparr>, chan := ms, delivered := delivered l @ [ident m]\<rparr>"
    using ev c new by (simp add: receive_seq_def ident_def)
  have "take (Suc ?i) (hist l) = take ?i (hist l) @ [ident m]" using t(1,2,5) by (simp add: take_Suc_conv_app_nth)
  then show ?thesis using ok t seq by (auto simp: link_ok_def l' le_Suc_eq)
qed

lemma link_ok_ack:
  assumes "link_ok l a R F b" and "link_event Ack l = Some l'"
  shows "link_ok l' a R F b"
  using assms by (auto simp: link_ok_def send_ack_def split: if_splits)

lemma link_ok_got_ack:
  assumes ok: "link_ok l a R F b" and ev: "link_event Got_ack l = Some l'"
  shows "\<exists>a'. link_ok l' a' R F b"
proof -
  let ?i = "unat (in_seq (rcv_s l))" and ?n = "unat (out_seq (snd_s l))"
  obtain x xs where x: "acks l = x # xs" "up l" using ev by (auto split: list.splits if_splits)
  have l': "l' = l\<lparr>snd_s := handle_ack x (snd_s l), acks := xs\<rparr>" using ev x by simp
  have le: "unat x \<le> ?i" "?i \<le> ?n" using ok x by (auto simp: link_ok_def)
  have "tags (sent (snd_s l)) = stretch (hist l) a ?n" using ok by (simp add: link_ok_def)
  then have "tags (ack_loop x (sent (snd_s l))) = stretch (hist l) (a + (unat x - a)) ?n"
    using ack_loop_eq by (metis drop_stretch drop_tags)
  then have "link_ok l' (a + (unat x - a)) R F b"
    using ok x le by (auto simp: link_ok_def l' handle_ack_def)
  then show ?thesis by blast
qed

lemma link_ok_fault:
  assumes ok: "link_ok l a R F b" and ev: "link_event Fault l = Some l'" and len: "length (hist l) < 2 ^ 32"
  shows "\<exists>R'. link_ok l' a R' F b"
proof -
  let ?s = "snd_s l" and ?H = "hist l" and ?n = "unat (out_seq (snd_s l))"
  have up: "up l" and l': "l' = l\<lparr>snd_s := requeue_sent ?s, up := False, acks := []\<rparr>"
    using ev by (auto split: if_splits)
  have q: "queue_ok (out_q ?s) ?H ?n R F (accepted l)" and t: "tags (sent ?s) = stretch ?H a ?n"
    and le: "a \<le> ?n" "?n \<le> length ?H"
    using ok by (simp_all add: link_ok_def)
  show ?thesis
  proof (cases "sent ?s = []")
    case True
    then have "a = ?n" using t le by simp
    then have "link_ok l' a R F b" using ok True by (auto simp: link_ok_def l' requeue_sent_def up)
    then show ?thesis by blast
  next
    case False
    have ls: "length (sent ?s) = ?n - a" using t by (metis length_stretch tags_simps(4))
    have un: "unat (out_seq ?s - of_nat (length (sent ?s))) = a"
      using unat_sub_nat [of "length (sent ?s)" "out_seq ?s"] ls le by simp
    have "requeue_sent ?s = ?s\<lparr>out_q := omap_put MSGR_MSG_PRIO_HIGHEST (sent ?s @ queue_at MSGR_MSG_PRIO_HIGHEST (out_q ?s)) (out_q ?s),
        sent := [], out_seq := out_seq ?s - of_nat (length (sent ?s))\<rparr>"
      using False by (simp add: requeue_sent_def requeue_loop_eq)
    then have "link_ok l' a (sent ?s @ R) F b"
      using ok queue_ok_requeue [OF q t le] un le up by (auto simp: link_ok_def l')
    then show ?thesis by blast
  qed
qed

lemma link_ok_reconnect:
  assumes ok: "link_ok l a R F b" and ev: "link_event Reconnect l = Some l'" and len: "length (hist l) < 2 ^ 32"
  shows "\<exists>R'. link_ok l' (unat (in_seq (rcv_s l))) R' F (unat (in_seq (rcv_s l)))"
proof -
  let ?s = "snd_s l" and ?H = "hist l" and ?n = "unat (out_seq (snd_s l))" and ?x = "in_seq (rcv_s l)"
  have down: "\<not> up l" and l': "l' = l\<lparr>snd_s := discard_requeued_up_to ?x ?s, chan := [], acks := [], up := True\<rparr>"
    using ev by (auto split: if_splits)
  have q: "queue_ok (out_q ?s) ?H ?n R F (accepted l)" and an: "a = ?n" and le: "?n \<le> unat ?x" "unat ?x \<le> length ?H"
    and sent: "sent ?s = []"
    using ok down by (auto simp: link_ok_def)
  have at: "queue_at MSGR_MSG_PRIO_HIGHEST (out_q ?s) = R @ F" and tr: "tags R = stretch ?H ?n (length ?H)"
    and F: "\<forall>m \<in> set F. oseq m = 0"
    using q by (simp_all add: queue_ok_def)
  show ?thesis
  proof (cases "omap_find (out_q ?s) MSGR_MSG_PRIO_HIGHEST")
    case None
    then have "R = []" "F = []" using at by (simp_all add: queue_at_def)
    then have "length ?H = ?n" using tr le by simp
    then have "unat ?x = ?n" using le by simp
    then have "link_ok l' (unat ?x) R F (unat ?x)"
      using ok None down an sent by (auto simp: link_ok_def l' discard_requeued_up_to_def)
    then show ?thesis by blast
  next
    case (Some d)
    define rq where "rq = drop (unat ?x - ?n) R @ F"
    have d: "d = R @ F" using at Some by (simp add: queue_at_def)
    have "discard_requeued_loop ?x d (out_seq ?s) = (rq, out_seq ?s + of_nat (unat ?x - ?n))"
      using discard_loop_eq [OF tr F, of ?x] le by (simp add: d rq_def)
    moreover have "out_seq ?s + of_nat (unat ?x - ?n) = ?x"
    proof -
      have "of_nat ?n + of_nat (unat ?x - ?n) = (of_nat (unat ?x) :: u64)" using le by (simp flip: of_nat_add)
      then show ?thesis by simp
    qed
    moreover define q' where "q' = (if rq = [] then omap_erase MSGR_MSG_PRIO_HIGHEST (out_q ?s)
        else omap_put MSGR_MSG_PRIO_HIGHEST rq (out_q ?s))"
    ultimately have "discard_requeued_up_to ?x ?s = ?s\<lparr>out_q := q', out_seq := ?x\<rparr>"
      using Some by (simp add: discard_requeued_up_to_def)
    moreover have "queue_ok q' ?H (unat ?x) (drop (unat ?x - ?n) R) F (accepted l)"
      using queue_ok_discard [OF q le] by (simp only: q'_def rq_def)
    ultimately have "link_ok l' (unat ?x) (drop (unat ?x - ?n) R) F (unat ?x)"
      using ok le sent by (simp add: link_ok_def l')
    then show ?thesis by blast
  qed
qed

lemma accepted_grows: "link_event ev l = Some l' \<Longrightarrow> length (accepted l) \<le> length (accepted l')"
  by (cases ev) (auto split: if_splits list.splits prod.splits option.splits simp: Let_def)

lemma link_inv_step:
  assumes "link_inv l" and "ordinary ev" and "link_event ev l = Some l'"
  shows "link_inv l'"
  unfolding link_inv_def
proof
  assume "length (accepted l') < 2 ^ 32"
  then have acc: "length (accepted l) < 2 ^ 32" using accepted_grows [OF assms(3)] by simp
  then obtain a R F b where ok: "link_ok l a R F b" using assms(1) by (auto simp: link_inv_def)
  have len: "length (hist l) < 2 ^ 32"
    using ok acc queue_ok_sub(2) by (metis le_less_trans link_ok_def)
  show "\<exists>a R F b. link_ok l' a R F b"
  proof (cases ev)
    case (Queue i p)
    then show ?thesis using link_ok_queue [OF ok] assms(2,3) by fastforce
  next
    case Transmit
    then show ?thesis using link_ok_transmit [OF ok] assms(3) acc by blast
  next
    case Deliver
    then show ?thesis using link_ok_deliver [OF ok] assms(3) len by blast
  next
    case Ack
    then show ?thesis using link_ok_ack [OF ok] assms(3) by blast
  next
    case Got_ack
    then show ?thesis using link_ok_got_ack [OF ok] assms(3) by blast
  next
    case Fault
    then show ?thesis using link_ok_fault [OF ok] assms(3) len by blast
  next
    case Reconnect
    then show ?thesis using link_ok_reconnect [OF ok] assms(3) len by blast
  qed
qed

lemma link_reachable_inv: "link_reachable l \<Longrightarrow> link_inv l"
  by (induction rule: link_reachable.induct) (auto intro: link_inv_start link_inv_step)

section \<open>Consequences\<close>

lemma distinct_by_filter:
  assumes "\<And>p. distinct (filter (\<lambda>x. snd x = p) xs)"
  shows "distinct xs"
  using assms
proof (induction xs)
  case (Cons x xs)
  have "distinct (filter (\<lambda>y. snd y = p) xs)" for p using Cons.prems [of p] by (simp split: if_splits)
  moreover have "x \<notin> set xs" using Cons.prems [of "snd x"] by auto
  ultimately show ?case using Cons.IH by simp
qed simp

lemma link_ok_hist:
  assumes "link_ok l a R F b"
  shows "\<exists>fresh. filter (\<lambda>x. snd x = p) (hist l) @ fresh = filter (\<lambda>x. snd x = p) (accepted l)"
  using assms unfolding link_ok_def queue_ok_def by blast

lemma link_ok_in_order:
  assumes "link_ok l a R F b"
  shows "\<exists>rest. filter (\<lambda>x. snd x = p) (delivered l) @ rest = filter (\<lambda>x. snd x = p) (accepted l)"
proof -
  obtain fresh where f: "filter (\<lambda>x. snd x = p) (hist l) @ fresh = filter (\<lambda>x. snd x = p) (accepted l)"
    using link_ok_hist [OF assms] by blast
  let ?i = "unat (in_seq (rcv_s l))"
  have "filter (\<lambda>x. snd x = p) (hist l) = filter (\<lambda>x. snd x = p) (delivered l) @ filter (\<lambda>x. snd x = p) (drop ?i (hist l))"
    using assms by (metis append_take_drop_id filter_append link_ok_def)
  then show ?thesis using f by (metis append_assoc)
qed

lemma link_ok_distinct:
  assumes "link_ok l a R F b" and "distinct (accepted l)"
  shows "distinct (delivered l)"
proof (rule distinct_by_filter)
  fix p
  show "distinct (filter (\<lambda>x. snd x = p) (delivered l))"
    using link_ok_in_order [OF assms(1), of p] distinct_filter [OF assms(2)] by (metis distinct_append)
qed

definition waiting :: "link \<Rightarrow> (nat \<times> int) set" where
  "waiting l = ident ` (set (sent (snd_s l)) \<union> (\<Union>e \<in> set (out_q (snd_s l)). set (snd e)))"

lemma waiting_queue:
  assumes "m \<in> set (queue_at p (out_q (snd_s l)))"
  shows "ident m \<in> waiting l"
proof -
  obtain d where "omap_find (out_q (snd_s l)) p = Some d" "m \<in> set d"
    using assms by (cases "omap_find (out_q (snd_s l)) p") (simp_all add: queue_at_def)
  then have "(p, d) \<in> set (out_q (snd_s l))" "m \<in> set (snd (p, d))" by (simp_all add: map_of_SomeD)
  then show ?thesis unfolding waiting_def by blast
qed

lemma stretch_member: "tags ms = stretch H a b \<Longrightarrow> a \<le> k \<Longrightarrow> k < b \<Longrightarrow> \<exists>m \<in> set ms. ident m = H ! k"
proof -
  assume t: "tags ms = stretch H a b" and k: "a \<le> k" "k < b"
  have "(H ! k, Suc k) \<in> set (tags ms)" using t k by (auto simp: stretch_def)
  then show ?thesis by (auto simp: tags_def)
qed

lemma link_ok_not_lost:
  assumes ok: "link_ok l a R F b"
  shows "set (accepted l) \<subseteq> set (delivered l) \<union> waiting l"
proof
  fix x assume "x \<in> set (accepted l)"
  let ?i = "unat (in_seq (rcv_s l))" and ?n = "unat (out_seq (snd_s l))" and ?T = MSGR_MSG_PRIO_HIGHEST
  have q: "queue_ok (out_q (snd_s l)) (hist l) ?n R F (accepted l)" using ok by (simp add: link_ok_def)
  then have at: "queue_at ?T (out_q (snd_s l)) = R @ F" by (simp add: queue_ok_def)
  have "x \<in> set (filter (\<lambda>y. snd y = snd x) (accepted l))" using \<open>x \<in> set (accepted l)\<close> by simp
  then have "x \<in> set (filter (\<lambda>y. snd y = snd x) (hist l) @
      map ident (if snd x = ?T then F else queue_at (snd x) (out_q (snd_s l))))"
    using q by (simp add: queue_ok_def)
  then consider "x \<in> set (hist l)" | "x \<in> ident ` set F" | "x \<in> ident ` set (queue_at (snd x) (out_q (snd_s l)))"
    by (auto split: if_splits)
  then show "x \<in> set (delivered l) \<union> waiting l"
  proof cases
    case 1
    then obtain k where k: "k < length (hist l)" "x = hist l ! k" by (metis in_set_conv_nth)
    show ?thesis
    proof (cases "k < ?i")
      case True
      then have "x \<in> set (take ?i (hist l))" using k by (metis in_set_conv_nth length_take min_less_iff_conj nth_take)
      then show ?thesis using ok by (simp add: link_ok_def)
    next
      case False
      then have "a \<le> k" using ok by (auto simp: link_ok_def)
      then consider "\<exists>m \<in> set (sent (snd_s l)). ident m = x" | "\<exists>m \<in> set R. ident m = x"
        using ok q k stretch_member [of _ "hist l"] by (cases "k < ?n") (auto simp: link_ok_def queue_ok_def)
      then show ?thesis
      proof cases
        case 1
        then show ?thesis by (auto simp: waiting_def)
      next
        case 2
        then show ?thesis using waiting_queue [of _ ?T l] at by auto
      qed
    qed
  next
    case 2
    then show ?thesis using waiting_queue [of _ ?T l] at by auto
  next
    case 3
    then show ?thesis using waiting_queue by blast
  qed
qed

subsection \<open>Everything gets through\<close>

lemma deliver_progress:
  assumes ok: "link_ok l a R F b" and c: "chan l \<noteq> []" and len: "length (accepted l) < 2 ^ 32"
  shows "\<exists>l'. link_event Deliver l = Some l' \<and> link_ok l' a R F b \<and> up l' = up l \<and> accepted l' = accepted l \<and>
    unat (in_seq (rcv_s l')) = Suc (unat (in_seq (rcv_s l)))"
proof -
  obtain m ms where m: "chan l = m # ms" using c by (cases "chan l") auto
  then obtain l' where l': "link_event Deliver l = Some l'" by (cases "receive_seq (oseq m) (rcv_s l)") auto
  have "length (hist l) < 2 ^ 32" using ok len queue_ok_sub(2) by (metis le_less_trans link_ok_def)
  note ok' = link_ok_deliver [OF ok l' this]
  have t: "tags (m # ms) = stretch (hist l) (unat (in_seq (rcv_s l))) b" using ok m by (simp add: link_ok_def)
  have "unat (in_seq (rcv_s l')) = Suc (unat (in_seq (rcv_s l)))" "up l' = up l" "accepted l' = accepted l"
    using l' m tags_ConsD(3) [OF t] by (auto simp: receive_seq_def le_number split: if_splits)
  then show ?thesis using l' ok' by blast
qed

lemma all_delivered:
  assumes ok: "link_ok l a R F b" and "up l" and "chan l = []" and none: "get_next_outgoing (out_q (snd_s l)) = (None, q')"
  shows "set (delivered l) = set (accepted l)"
proof -
  have q: "queue_ok (out_q (snd_s l)) (hist l) (unat (out_seq (snd_s l))) R F (accepted l)" using ok by (simp add: link_ok_def)
  then have "\<forall>p. queue_at p (out_q (snd_s l)) = []"
    using get_next_outgoing_spec [OF _ none] by (simp add: queue_ok_def)
  then have e: "R = []" "F = []" "filter (\<lambda>x. snd x = p) (hist l) = filter (\<lambda>x. snd x = p) (accepted l)" for p
    using q by (auto simp: queue_ok_def split: if_splits)
  then have "unat (out_seq (snd_s l)) = length (hist l)" using q ok by (simp add: queue_ok_def link_ok_def)
  then have "delivered l = hist l" using ok assms(2,3) by (simp add: link_ok_def)
  moreover have "x \<in> set (hist l) \<longleftrightarrow> x \<in> set (accepted l)" for x
  proof -
    have "x \<in> set (filter (\<lambda>y. snd y = snd x) (hist l)) \<longleftrightarrow> x \<in> set (filter (\<lambda>y. snd y = snd x) (accepted l))"
      by (simp only: e(3))
    then show ?thesis by simp
  qed
  ultimately show ?thesis by (simp only: set_eq_iff simp_thms)
qed

lemma link_run_append: "link_run (es @ es') l = (case link_run es l of None \<Rightarrow> None | Some l' \<Rightarrow> link_run es' l')"
  by (induction es arbitrary: l) (auto split: option.splits)

lemma drain:
  assumes "link_ok l a R F b" and "up l" and "length (accepted l) < 2 ^ 32"
  shows "\<exists>evs l'. set evs \<subseteq> {Transmit, Deliver} \<and> link_run evs l = Some l' \<and>
    set (delivered l') = set (accepted l) \<and> accepted l' = accepted l"
  using assms
proof (induction "length (accepted l) - unat (in_seq (rcv_s l))" arbitrary: l a R F b rule: less_induct)
  case less
  note ok = less.prems(1) and up = less.prems(2) and len = less.prems(3)
  have bound: "unat (in_seq (rcv_s l')) \<le> length (accepted l')" if "link_ok l' a' R' F' b'" for l' a' R' F' b'
    using that queue_ok_sub(2) unfolding link_ok_def by (metis le_trans)
  have go: "\<exists>evs l'. set evs \<subseteq> {Transmit, Deliver} \<and> link_run evs l1 = Some l' \<and>
      set (delivered l') = set (accepted l) \<and> accepted l' = accepted l"
    if ok1: "link_ok l1 a R1 F1 b1" and u: "up l1" and c: "chan l1 \<noteq> []" and acc: "accepted l1 = accepted l"
      and i: "in_seq (rcv_s l1) = in_seq (rcv_s l)" for l1 R1 F1 b1
  proof -
    obtain l2 where l2: "link_event Deliver l1 = Some l2" "link_ok l2 a R1 F1 b1" "up l2" "accepted l2 = accepted l"
      "unat (in_seq (rcv_s l2)) = Suc (unat (in_seq (rcv_s l)))"
      using deliver_progress [OF ok1 c] len acc u i by auto
    then have "length (accepted l2) - unat (in_seq (rcv_s l2)) < length (accepted l) - unat (in_seq (rcv_s l))"
      using bound [OF l2(2)] by simp
    then obtain evs l' where "set evs \<subseteq> {Transmit, Deliver}" "link_run evs l2 = Some l'"
      "set (delivered l') = set (accepted l2)" "accepted l' = accepted l2"
      using less.hyps [of l2 a R1 F1 b1] l2 len by auto
    then show ?thesis using l2(1,4) by (intro exI [of _ "Deliver # evs"]) auto
  qed
  show ?case
  proof (cases "chan l = []")
    case False
    then show ?thesis using go [OF ok up] by simp
  next
    case True
    obtain r q where g: "get_next_outgoing (out_q (snd_s l)) = (r, q)" by (metis surj_pair)
    show ?thesis
    proof (cases r)
      case None
      then show ?thesis using all_delivered [OF ok up True] g by (intro exI [of _ "[]"]) auto
    next
      case (Some m)
      obtain m' s where "assign_seq m ((snd_s l)\<lparr>out_q := q\<rparr>) = (m', s)" by (metis surj_pair)
      then obtain l1 where l1: "link_event Transmit l = Some l1" using up g Some by simp
      obtain R1 F1 b1 where ok1: "link_ok l1 a R1 F1 b1" using link_ok_transmit [OF ok l1 len] by blast
      have "up l1" "chan l1 \<noteq> []" "accepted l1 = accepted l" "in_seq (rcv_s l1) = in_seq (rcv_s l)"
        using l1 up g Some by (auto split: prod.splits)
      from go [OF ok1 this] obtain evs l' where "set evs \<subseteq> {Transmit, Deliver}" "link_run evs l1 = Some l'"
        "set (delivered l') = set (accepted l)" "accepted l' = accepted l" by blast
      then show ?thesis using l1 by (intro exI [of _ "Transmit # evs"]) auto
    qed
  qed
qed

section \<open>Properties\<close>

text \<open>A history with a fault in the middle, for the concrete instances.\<close>

definition sample_events :: "event list" where
  "sample_events = [Queue 1 127, Queue 2 127, Queue 3 196, Transmit, Transmit, Deliver, Fault, Deliver, Reconnect, Transmit, Deliver]"

lemma link_run_reachable: "link_reachable l \<Longrightarrow> list_all ordinary evs \<Longrightarrow> link_run evs l = Some l' \<Longrightarrow> link_reachable l'"
  by (induction evs arbitrary: l) (auto split: option.splits intro: link_reachable.step)

lemma sample_link: "map_option (\<lambda>l. (accepted l, delivered l)) (link_run sample_events new_link) =
    Some ([(1, 127), (2, 127), (3, 196)], [(3, 196), (1, 127), (2, 127)])"
  by code_simp

lemma sample_link_reachable:
  "\<exists>l. link_reachable l \<and> accepted l = [(1, 127), (2, 127), (3, 196)] \<and> delivered l = [(3, 196), (1, 127), (2, 127)]"
  using sample_link link_run_reachable [OF link_reachable.start, of sample_events]
  by (auto simp: sample_events_def MSGR_MSG_PRIO_HIGHEST_def)

text \<open>
  C1. Exactly once and in order: through any number of faults and reconnections, with messages and
  acknowledgements lost in between, no message is delivered twice, and the messages of one
  priority are delivered in the order in which they were given to \<^verbatim>\<open>send_message\<close>, without gaps.
\<close>

theorem delivered_once_in_order:
  assumes "link_reachable l" and "length (accepted l) < 2 ^ 32" and "distinct (accepted l)"
  shows "distinct (delivered l) \<and>
    (\<exists>rest. filter (\<lambda>x. snd x = p) (delivered l) @ rest = filter (\<lambda>x. snd x = p) (accepted l))"
proof -
  obtain a R F b where "link_ok l a R F b"
    using link_reachable_inv [OF assms(1)] assms(2) by (auto simp: link_inv_def)
  then show ?thesis using link_ok_distinct [OF _ assms(3)] link_ok_in_order by blast
qed

theorem delivered_once_in_order_witness:
  "\<exists>l::link. accepted l = [(1, 127), (2, 127), (3, 196)] \<and> distinct (delivered l) \<and>
    (\<exists>rest. filter (\<lambda>x. snd x = 127) (delivered l) @ rest = [(1, 127), (2, 127)])"
proof -
  obtain l where l: "link_reachable l" "accepted l = [(1, 127), (2, 127), (3, 196)]" using sample_link_reachable by blast
  have "distinct (delivered l) \<and>
      (\<exists>rest. filter (\<lambda>x. snd x = 127) (delivered l) @ rest = filter (\<lambda>x. snd x = 127) (accepted l))"
    by (rule delivered_once_in_order) (use l in simp_all)
  then show ?thesis using l(2) by (intro exI [of _ l]) simp
qed

text \<open>
  C2. Nothing is lost: every message given to \<^verbatim>\<open>send_message\<close> has been delivered or is still kept by
  the sender, in \<^verbatim>\<open>sent\<close> or in \<^verbatim>\<open>out_q\<close>; and once the connection is there again, finitely many
  transmissions and deliveries hand over everything.
\<close>

theorem nothing_lost_and_recovers:
  assumes "link_reachable l" and "length (accepted l) < 2 ^ 32"
  shows "set (accepted l) \<subseteq> set (delivered l) \<union> waiting l \<and>
    (\<exists>evs l'. set evs \<subseteq> {Reconnect, Transmit, Deliver} \<and> link_run evs l = Some l' \<and>
      set (delivered l') = set (accepted l))"
proof -
  obtain a R F b where ok: "link_ok l a R F b"
    using link_reachable_inv [OF assms(1)] assms(2) by (auto simp: link_inv_def)
  have "\<exists>evs l'. set evs \<subseteq> {Reconnect, Transmit, Deliver} \<and> link_run evs l = Some l' \<and> set (delivered l') = set (accepted l)"
  proof (cases "up l")
    case True
    then show ?thesis using drain [OF ok True assms(2)] by blast
  next
    case False
    then obtain l1 where l1: "link_event Reconnect l = Some l1" by simp
    have "length (hist l) < 2 ^ 32" using ok assms(2) queue_ok_sub(2) by (metis le_less_trans link_ok_def)
    then obtain a1 R1 F1 b1 where "link_ok l1 a1 R1 F1 b1" using link_ok_reconnect [OF ok l1] by blast
    moreover have "up l1" "accepted l1 = accepted l" using l1 False by auto
    ultimately obtain evs l' where "set evs \<subseteq> {Transmit, Deliver}" "link_run evs l1 = Some l'"
      "set (delivered l') = set (accepted l)"
      using drain [of l1] assms(2) by fastforce
    then show ?thesis using l1 by (intro exI [of _ "Reconnect # evs"]) auto
  qed
  then show ?thesis using link_ok_not_lost [OF ok] by blast
qed

theorem nothing_lost_and_recovers_witness:
  "\<exists>l evs l'. accepted l = [(1, 127), (2, 127), (3, 196)] \<and> link_run evs l = Some l' \<and>
    set (delivered l') = {(1, 127), (2, 127), (3, 196)}"
proof -
  obtain l where l: "link_reachable l" "accepted l = [(1, 127), (2, 127), (3, 196)]" using sample_link_reachable by blast
  then show ?thesis using nothing_lost_and_recovers [OF l(1)] by auto
qed


end
