(* ===== verification/Buffer_Write.thy ===== *)
theory Buffer_Write
  imports Buffer_Ops
begin

text \<open>
  Overwriting bytes in the middle of a buffer list (\<^verbatim>\<open>iterator::copy_in\<close> and \<^verbatim>\<open>list::copy_in\<close> of
  \<^verbatim>\<open>src/src/buffer.cc\<close>), which the encoders use to patch a length that is only known at the end.
  Windows may share blocks, so a write through one window is visible through every window that
  overlaps it; \<open>separate\<close> says that the windows of a list do not overlap.  Appending keeps a list
  separate and keeps the positions an iterator may hold (\<open>grown\<close>).
\<close>

section \<open>Operations\<close>

function copy_in_loop :: "bptr list \<Rightarrow> byte list \<Rightarrow> iter \<Rightarrow> heap \<Rightarrow> buf_error + heap \<times> iter" where
  "copy_in_loop ps src it h =
     (if src = [] then Inr (h, it)
      else if iter_end ps it then Inl End_of_buffer
      else
        (let howmuch = min (length src) (plen (ps ! ip it) - ip_off it)
         in if howmuch = 0 then Inl Stuck
            else
              (case ptr_copy_in (ps ! ip it) (ip_off it) (take howmuch src) h of
                 Inl e \<Rightarrow> Inl e
               | Inr h \<Rightarrow>
                   (case advance ps (int howmuch) it of
                      Inl e \<Rightarrow> Inl e
                    | Inr it \<Rightarrow> copy_in_loop ps (drop howmuch src) it h))))"
  by pat_completeness auto
termination by (relation "measure (\<lambda>(ps, src, it, h). length src)") auto

declare copy_in_loop.simps [simp del]

definition iter_copy_in :: "bptr list \<Rightarrow> byte list \<Rightarrow> iter \<Rightarrow> heap \<Rightarrow> buf_error + heap \<times> iter" where
  "iter_copy_in ps src it h =
     (case (if iter_end ps it then seek ps (ioff it) else Inr it) of
        Inl e \<Rightarrow> Inl e
      | Inr it \<Rightarrow> copy_in_loop ps src it h)"

definition bl_copy_in :: "nat \<Rightarrow> byte list \<Rightarrow> blist \<Rightarrow> heap \<Rightarrow> buf_error + heap" where
  "bl_copy_in off src bl h =
     (if w32 (off + length src) > blen bl then Inl End_of_buffer
      else (case seek (buffers bl) off of
              Inl e \<Rightarrow> Inl e
            | Inr it \<Rightarrow> map_sum (\<lambda>e. e) fst (iter_copy_in (buffers bl) src it h)))"

section \<open>Separate windows\<close>

definition disjoint_windows :: "bptr \<Rightarrow> bptr \<Rightarrow> bool" where
  "disjoint_windows p q \<longleftrightarrow>
     praw p \<noteq> praw q \<or> poff p + plen p \<le> poff q \<or> poff q + plen q \<le> poff p"

definition separate :: "bptr list \<Rightarrow> bool" where
  "separate ps = sorted_wrt disjoint_windows ps"

lemma separate_simps [simp]:
  "separate []"
  "separate (p # ps) \<longleftrightarrow> (\<forall>q \<in> set ps. disjoint_windows p q) \<and> separate ps"
  "separate (ps @ qs) \<longleftrightarrow>
     separate ps \<and> separate qs \<and> (\<forall>p \<in> set ps. \<forall>q \<in> set qs. disjoint_windows p q)"
  by (auto simp: separate_def sorted_wrt_append)

lemma disjoint_windows_sym: "disjoint_windows p q \<Longrightarrow> disjoint_windows q p"
  by (auto simp: disjoint_windows_def)

text \<open>A write inside window \<open>i\<close> changes exactly that part of the contents.\<close>

lemma contents_poke:
  assumes segs: "segs_ok h ps" and sep: "separate ps" and i: "i < length ps" and a: "praw (ps ! i) = Some a"
    and k: "k + length bs \<le> plen (ps ! i)"
  shows "concat (map (bytes (poke a (poff (ps ! i) + k) bs h)) ps) =
    (let n = total_len (take i ps) + k; c = concat (map (bytes h) ps)
     in take n c @ bs @ drop (n + length bs) c)"
proof -
  let ?p = "ps ! i" and ?l = "take i ps" and ?r = "drop (Suc i) ps"
  let ?h = "poke a (poff (ps ! i) + k) bs h"
  have ps: "ps = ?l @ ?p # ?r" using i by (rule id_take_nth_drop)
  have seps: "\<forall>q \<in> set ?l. disjoint_windows q ?p" "\<forall>q \<in> set ?r. disjoint_windows ?p q"
    using sep by (subst (asm) ps, simp)+
  have ok: "segs_ok h ?l" "ptr_ok h ?p" "segs_ok h ?r" using segs by (subst (asm) ps, simp)+
  have in_block: "poff ?p + k + length bs \<le> raw_len h a" "a < length (raws h)"
    using ok(2) a k by (auto simp: ptr_ok_def)
  have same: "bytes ?h q = bytes h q" if "q \<in> set ?l \<or> q \<in> set ?r" for q
  proof (rule bytes_poke_disjoint [OF in_block])
    show "ptr_ok h q" using that ok by (auto simp: segs_ok_def)
    show "praw q = Some a \<longrightarrow> poff q + plen q \<le> poff ?p + k \<or> poff ?p + k + length bs \<le> poff q"
      using that seps a k by (fastforce simp: disjoint_windows_def)
  qed
  have l: "concat (map (bytes ?h) ?l) = concat (map (bytes h) ?l)"
    and r: "concat (map (bytes ?h) ?r) = concat (map (bytes h) ?r)"
    using same by (simp_all cong: map_cong)
  have len: "length (concat (map (bytes h) ?l)) = total_len ?l" "length (bytes h ?p) = plen ?p"
    using length_concat_bytes [OF ok(1)] length_bytes [OF ok(2)] by simp_all
  have split: "concat (map (bytes g) ps) = concat (map (bytes g) ?l) @ bytes g ?p @ concat (map (bytes g) ?r)" for g
    by (subst ps) simp
  show ?thesis
    unfolding split l r bytes_poke_inside [OF a ok(2) k] Let_def using len k by simp
qed

section \<open>Overwriting\<close>

lemma ptr_copy_in_ok:
  assumes "heap_ok h" and "ptr_ok h p" and "praw p = Some a" and "k + length bs \<le> plen p"
  shows "ptr_copy_in p k bs h = Inr (poke a (poff p + k) bs h)"
proof -
  have "w32 (k + length bs) = k + length bs" using assms(4) ptr_ok_bound [OF assms(1,2)] by simp
  then show ?thesis using assms by (simp add: ptr_copy_in_def)
qed

text \<open>Blocks keep their sizes, so that every window stays in range.\<close>

definition same_shape :: "heap \<Rightarrow> heap \<Rightarrow> bool" where
  "same_shape h h' \<longleftrightarrow> length (raws h') = length (raws h) \<and> (\<forall>b. raw_len h' b = raw_len h b)"

lemma same_shape_refl [simp]: "same_shape h h"
  by (simp add: same_shape_def)

lemma same_shape_trans: "same_shape h h1 \<Longrightarrow> same_shape h1 h2 \<Longrightarrow> same_shape h h2"
  by (simp add: same_shape_def)

lemma same_shape_ok:
  assumes "same_shape h h'"
  shows "ptr_ok h' p = ptr_ok h p" and "segs_ok h' ps = segs_ok h ps" and "tail_ok h' bl = tail_ok h bl"
  using assms by (simp_all add: same_shape_def ptr_ok_def segs_ok_def tail_ok_def split: option.splits)

lemma overwrite_twice:
  assumes "k \<le> length src" and "n + length src \<le> length c"
  defines "c1 \<equiv> take n c @ take k src @ drop (n + k) c"
  shows "take (n + k) c1 @ drop k src @ drop (n + k + length (drop k src)) c1
    = take n c @ src @ drop (n + length src) c"
proof -
  have "take (n + k) c1 = take n c @ take k src" using assms(1,2) by (simp add: c1_def min_def)
  moreover have "drop (n + k + length (drop k src)) c1 = drop (n + length src) c"
    using assms(1,2) by (simp add: c1_def min_def)
  ultimately show ?thesis by (metis append_assoc append_take_drop_id)
qed

lemma copy_in_loop_ok:
  assumes "heap_ok h" and "segs_ok h ps" and "separate ps" and "iter_ok ps it"
    and "ioff it + length src \<le> total_len ps"
  shows "\<exists>h' it'. copy_in_loop ps src it h = Inr (h', it') \<and> heap_ok h' \<and> same_shape h h' \<and>
    concat (map (bytes h') ps) =
      (let c = concat (map (bytes h) ps) in take (ioff it) c @ src @ drop (ioff it + length src) c)"
  using assms
proof (induction src arbitrary: it h rule: length_induct)
  case (1 src)
  show ?case
  proof (cases "src = []")
    case True
    then show ?thesis using 1(2) by (simp add: copy_in_loop.simps)
  next
    case False
    have ne: "\<not> iter_end ps it" "ip it < length ps"
      using False 1(5,6) iter_ok_end [OF 1(3,5)] by (auto simp: iter_end_def iter_ok_def)
    let ?p = "ps ! ip it" and ?c = "concat (map (bytes h) ps)"
    define k where "k = min (length src) (plen ?p - ip_off it)"
    have p: "ptr_ok h ?p" "0 < plen ?p" and off: "ip_off it < plen ?p"
      and ioff: "ioff it = total_len (take (ip it) ps) + ip_off it"
      using segs_ok_nth [OF 1(3) ne(2)] 1(5) ne(2) by (auto simp: iter_ok_def)
    obtain a where a: "praw ?p = Some a" using segs_raw [OF p] by auto
    have k: "0 < k" "k \<le> length src" "ip_off it + k \<le> plen ?p" using False off by (auto simp: k_def)
    define h1 where "h1 = poke a (poff ?p + ip_off it) (take k src) h"
    have lenk: "length (take k src) = k" using k(2) by simp
    have room: "poff ?p + ip_off it + length (take k src) \<le> raw_len h a" "a < length (raws h)"
      using p(1) a k(3) lenk by (auto simp: ptr_ok_def)
    have h1: "ptr_copy_in ?p (ip_off it) (take k src) h = Inr h1" "heap_ok h1" "same_shape h h1"
      using ptr_copy_in_ok [OF 1(2) p(1) a, of "ip_off it" "take k src"] k(3) lenk
        poke_ok(1) [OF room 1(2)] raw_len_poke [OF room] by (simp_all add: h1_def same_shape_def)
    have c1: "concat (map (bytes h1) ps) = take (ioff it) ?c @ take k src @ drop (ioff it + k) ?c"
      using contents_poke [OF 1(3,4) ne(2) a, of "ip_off it" "take k src"] k(3) lenk
      by (simp add: h1_def ioff Let_def)
    obtain it1 where it1: "advance ps (int k) it = Inr it1" "iter_ok ps it1" "ioff it1 = ioff it + k"
      using advance_ok [OF 1(3,5), of k] 1(6) k(2) by auto
    obtain h2 it2 where h2: "copy_in_loop ps (drop k src) it1 h1 = Inr (h2, it2)" "heap_ok h2" "same_shape h1 h2"
      "concat (map (bytes h2) ps) = (let c = concat (map (bytes h1) ps) in
         take (ioff it1) c @ drop k src @ drop (ioff it1 + length (drop k src)) c)"
    proof -
      have "length (drop k src) < length src" using k by simp
      moreover have "segs_ok h1 ps" using same_shape_ok(2) [OF h1(3)] 1(3) by simp
      moreover have "ioff it1 + length (drop k src) \<le> total_len ps" using it1(3) k(2) 1(6) by simp
      ultimately show thesis using 1(1) h1(2) 1(4) it1(2) that by blast
    qed
    have len: "length ?c = total_len ps" using 1(3) by (rule length_concat_bytes)
    have "concat (map (bytes h2) ps) = take (ioff it) ?c @ src @ drop (ioff it + length src) ?c"
      unfolding h2(4) c1 it1(3) Let_def using overwrite_twice [of k src "ioff it" ?c] len k(2) 1(6) by simp
    moreover have "copy_in_loop ps src it h = Inr (h2, it2)"
      using False ne(1) k(1) h1(1) it1(1) h2(1)
      by (subst copy_in_loop.simps) (simp add: Let_def flip: k_def)
    ultimately show ?thesis using h2(2) same_shape_trans [OF h1(3) h2(3)] by (simp add: Let_def)
  qed
qed

lemma iter_copy_in_ok:
  assumes "heap_ok h" and "segs_ok h ps" and "separate ps" and "iter_ok ps it"
    and "ioff it + length src \<le> total_len ps"
  shows "\<exists>h' it'. iter_copy_in ps src it h = Inr (h', it') \<and> heap_ok h' \<and> same_shape h h' \<and>
    concat (map (bytes h') ps) =
      (let c = concat (map (bytes h) ps) in take (ioff it) c @ src @ drop (ioff it + length src) c)"
proof -
  obtain it0 where it0: "(if iter_end ps it then seek ps (ioff it) else Inr it) = Inr it0"
    "iter_ok ps it0" "ioff it0 = ioff it"
    using seek_ok [OF assms(2) iter_ok_le [OF assms(4)]] assms(4) by (cases "iter_end ps it") auto
  then show ?thesis
    using copy_in_loop_ok [OF assms(1-3) it0(2)] assms(5) by (simp add: iter_copy_in_def)
qed

lemma bl_copy_in_ok:
  assumes ok: "list_ok h bl" and sep: "separate (buffers bl)" and fits: "off + length src \<le> blen bl"
  shows "\<exists>h'. bl_copy_in off src bl h = Inr h' \<and> list_ok h' bl \<and>
    contents h' bl = take off (contents h bl) @ src @ drop (off + length src) (contents h bl)"
proof -
  have l: "heap_ok h" "segs_ok h (buffers bl)" "blen bl = total_len (buffers bl)" "blen bl < 2 ^ 32"
    using ok by (simp_all add: list_ok_def)
  obtain it where it: "seek (buffers bl) off = Inr it" "iter_ok (buffers bl) it" "ioff it = off"
    using seek_ok [OF l(2), of off] fits l(3) by auto
  obtain h' it' where h': "iter_copy_in (buffers bl) src it h = Inr (h', it')" "heap_ok h'" "same_shape h h'"
    "concat (map (bytes h') (buffers bl)) = take off (contents h bl) @ src @ drop (off + length src) (contents h bl)"
    using iter_copy_in_ok [OF l(1,2) sep it(2), of src] it(3) fits l(3) by (auto simp: Let_def contents_def)
  have "bl_copy_in off src bl h = Inr h'"
    using it(1) h'(1) fits l(4) by (simp add: bl_copy_in_def)
  moreover have "list_ok h' bl" using ok h'(2) same_shape_ok [OF h'(3)] by (simp add: list_ok_def)
  ultimately show ?thesis using h'(4) by (simp add: contents_def)
qed

section \<open>Appending keeps windows and positions\<close>

text \<open>Appending may lengthen the last window and add windows after it.\<close>

definition grown :: "bptr list \<Rightarrow> bptr list \<Rightarrow> bool" where
  "grown ps ps' \<longleftrightarrow> length ps \<le> length ps' \<and>
     (\<forall>i < length ps. plen (ps ! i) \<le> plen (ps' ! i) \<and> (Suc i < length ps \<longrightarrow> ps' ! i = ps ! i))"

lemma grown_refl [simp]: "grown ps ps"
  by (simp add: grown_def)

lemma grown_trans:
  assumes "grown ps qs" and "grown qs rs"
  shows "grown ps rs"
proof -
  have "plen (ps ! i) \<le> plen (rs ! i) \<and> (Suc i < length ps \<longrightarrow> rs ! i = ps ! i)" if "i < length ps" for i
  proof -
    have "i < length qs" "plen (ps ! i) \<le> plen (qs ! i)" "Suc i < length ps \<longrightarrow> qs ! i = ps ! i"
      using assms(1) that by (simp_all add: grown_def)
    moreover from this have "plen (qs ! i) \<le> plen (rs ! i)" "Suc i < length qs \<longrightarrow> rs ! i = qs ! i"
      using assms(2) by (simp_all add: grown_def)
    moreover have "length ps \<le> length qs" using assms(1) by (simp add: grown_def)
    ultimately show ?thesis by auto
  qed
  then show ?thesis using assms by (simp add: grown_def)
qed

lemma grown_append: "grown ps (ps @ qs)"
  by (simp add: grown_def nth_append)

lemma grown_extend: "plen l \<le> plen l' \<Longrightarrow> grown (ps @ [l]) (ps @ l' # qs)"
  by (auto simp: grown_def nth_append less_Suc_eq)

lemma grown_iter_ok:
  assumes "grown ps ps'" and "iter_ok ps it" and "ip it < length ps"
  shows "iter_ok ps' it"
proof -
  have "take (ip it) ps' = take (ip it) ps"
    using assms(1,3) by (intro nth_equalityI) (auto simp: grown_def)
  moreover have "plen (ps ! ip it) \<le> plen (ps' ! ip it)" "length ps \<le> length ps'"
    using assms(1,3) by (auto simp: grown_def)
  ultimately show ?thesis using assms(2,3) by (auto simp: iter_ok_def)
qed

lemma append_gap_grown:
  assumes ok: "list_ok h bl" and sep: "separate (buffers bl)" and n: "bs \<noteq> []"
    and run: "append_gap bs bl h = Inr (bl', h')"
  shows "separate (buffers bl') \<and> grown (buffers bl) (buffers bl')"
proof -
  let ?ab = "append_buffer bl"
  have hok: "heap_ok h" and segs: "segs_ok h (buffers bl)" and tail: "tail_ok h bl"
    using ok by (simp_all add: list_ok_def)
  obtain a where a: "praw ?ab = Some a" and n_le: "length bs \<le> unused_tail_length h ?ab"
    using run by (auto simp: append_gap_def ptr_append_def split: option.splits if_splits)
  have al: "a < length (raws h)" and off0: "poff ?ab = 0" and room: "plen ?ab + length bs \<le> raw_len h a"
    using tail n_le n a by (auto simp: tail_ok_def ptr_ok_def unused_tail_length_def)
  have small: "plen ?ab + length bs < 2 ^ 32" using raw_len_bound [OF hok al] room by linarith
  let ?ab' = "?ab\<lparr>plen := plen ?ab + length bs\<rparr>"
  have off: "ptr_end ?ab' - length bs = plen ?ab" using off0 small by (simp add: ptr_end_def)
  have r: "append_range ?ab' (plen ?ab) (length bs) (bl\<lparr>append_buffer := ?ab'\<rparr>) = Inr bl'"
    using run a n_le off
    by (auto simp: append_gap_def ptr_append_def split: sum.splits)
  have before: "poff p + plen p \<le> plen ?ab" if "p \<in> set (buffers bl)" "praw p = Some a" for p
    using that tail a by (auto simp: tail_ok_def)
  have w: "w32 (length bs + plen ?ab) = plen ?ab + length bs" "w32 (plen ?ab) = plen ?ab"
    "w32 (plen ?ab + length bs) = plen ?ab + length bs"
    using small by (simp_all add: add.commute)
  show ?thesis
  proof (cases "buffers bl \<noteq> [] \<and> praw (last (buffers bl)) = Some a \<and> ptr_end (last (buffers bl)) = plen ?ab")
    case True
    then obtain ps l where ps: "buffers bl = ps @ [l]" and l: "praw l = Some a" "ptr_end l = plen ?ab"
      by (cases "buffers bl" rule: rev_cases) auto
    have lok: "ptr_ok h l" using segs ps by simp
    have lend: "poff l + plen l = plen ?ab" using l(2) ptr_ok_bound [OF hok lok] by (simp add: ptr_end_def)
    have lw: "w32 (plen l + length bs) = plen l + length bs" using lend small by simp
    have bl': "buffers bl' = ps @ [l\<lparr>plen := plen l + length bs\<rparr>]"
      using r True ps a off0 w lw by (auto simp: append_range_def Let_def)
    have "disjoint_windows q (l\<lparr>plen := plen l + length bs\<rparr>)" if "q \<in> set ps" for q
    proof -
      have "disjoint_windows q l" "0 < plen q" "praw q = Some a \<Longrightarrow> poff q + plen q \<le> plen ?ab"
        using sep segs that before [of q] ps by (auto simp: segs_ok_def)
      then show ?thesis using l(1) lend by (auto simp: disjoint_windows_def)
    qed
    then show ?thesis using sep ps bl' grown_extend [of l "l\<lparr>plen := plen l + length bs\<rparr>" ps "[]"] by simp
  next
    case False
    let ?t = "\<lparr>praw = Some a, poff = plen ?ab, plen = length bs\<rparr>"
    have "buffers bl' = buffers bl @ [?t]"
      using r False a off0 n w by (auto simp: append_range_def ptr_sub_def push_back_def)
    moreover have "disjoint_windows q ?t" if "q \<in> set (buffers bl)" for q
      using before [OF that] by (auto simp: disjoint_windows_def)
    ultimately show ?thesis using sep grown_append by simp
  qed
qed

lemma new_append_buffer_buffers: "new_append_buffer n bl h = Inr (bl', h') \<Longrightarrow> buffers bl' = buffers bl"
  by (auto simp: new_append_buffer_def split: sum.splits)

lemma append_loop_grown:
  assumes "append_loop n data bl h = Some (Inr (bl', h'))" and "list_ok h bl" and "separate (buffers bl)"
    and "blen bl + length data < 2 ^ 32"
  shows "separate (buffers bl') \<and> grown (buffers bl) (buffers bl')"
  using assms
proof (induction n data bl h rule: append_loop.induct)
  case (2 n data bl h)
  let ?gap = "min (unused_tail_length h (append_buffer bl)) (length data)"
  show ?case
  proof (cases "data = []")
    case False
    obtain bl1 h1 where g: "(if ?gap > 0 then append_gap (take ?gap data) bl h else Inr (bl, h)) = Inr (bl1, h1)"
      using 2(2) False by (cases "(if ?gap > 0 then append_gap (take ?gap data) bl h else Inr (bl, h))")
        (auto simp: Let_def)
    have s1: "list_ok h1 bl1 \<and> separate (buffers bl1) \<and> grown (buffers bl) (buffers bl1) \<and>
        blen bl1 + length (drop ?gap data) < 2 ^ 32"
    proof (cases "?gap > 0")
      case True
      then obtain a where a: "praw (append_buffer bl) = Some a"
        by (cases "praw (append_buffer bl)") (auto simp: unused_tail_length_def)
      have "list_ok h1 bl1" "contents h1 bl1 = contents h bl @ take ?gap data"
        using append_gap_ok [OF 2(3) a, of "take ?gap data"] True g 2(5) by auto
      moreover from this have "blen bl1 = blen bl + ?gap"
        using length_contents [of h1 bl1] length_contents [OF 2(3)] by simp
      ultimately show ?thesis
        using append_gap_grown [OF 2(3,4), of "take ?gap data" bl1 h1] True False g 2(5) by auto
    next
      case gap0: False
      then show ?thesis using g 2(3-5) by auto
    qed
    show ?thesis
    proof (cases "drop ?gap data = []")
      case True
      then show ?thesis using 2(2) False g s1 by (auto simp: Let_def)
    next
      case more: False
      let ?alen = "w32 (MSGR_PAGE_SIZE * ((length (drop ?gap data) - 1) div MSGR_PAGE_SIZE + 1))"
      obtain bl2 h2 where ab: "new_append_buffer ?alen bl1 h1 = Inr (bl2, h2)" "list_ok h2 bl2" "blen bl2 = blen bl1"
        using new_append_buffer_ok [of h1 bl1 ?alen] s1 by auto
      have "append_loop n (drop ?gap data) bl2 h2 = Some (Inr (bl', h'))"
        using 2(2) False g more ab(1) by (simp add: Let_def)
      moreover have "separate (buffers bl2)" using s1 new_append_buffer_buffers [OF ab(1)] by simp
      moreover have "blen bl2 + length (drop ?gap data) < 2 ^ 32" using s1 ab(3) by simp
      ultimately have "separate (buffers bl') \<and> grown (buffers bl2) (buffers bl')"
        using 2(1) [OF False refl g [symmetric, THEN sym] refl refl more ab(1)] ab(2) by blast
      then show ?thesis
        using s1 grown_trans new_append_buffer_buffers [OF ab(1)] by metis
    qed
  qed (use 2 in auto)
qed simp

end
