(* ===== verification/Byte_Order.thy ===== *)
theory Byte_Order
  imports Msgr_Prelude
begin

text \<open>
  \<^verbatim>\<open>src/include/msgr/byteorder.h\<close>: byte swapping and the little-endian integer classes
  \<^verbatim>\<open>msgr_le16\<close>, \<^verbatim>\<open>msgr_le32\<close>, \<^verbatim>\<open>msgr_le64\<close>.  Both kinds of host are modelled: an integer has a memory
  representation that depends on the host, and the classes swap on a big-endian one.  The
  representation of a \<^verbatim>\<open>msgr_le\<close> value in memory is the little-endian one on every host.
\<close>

section \<open>Swapping\<close>

definition swab16 :: "u16 \<Rightarrow> u16" where
  "swab16 val = drop_bit 8 val OR push_bit 8 val"

definition swab32 :: "u32 \<Rightarrow> u32" where
  "swab32 val = drop_bit 24 val OR (drop_bit 8 val AND 0xff00) OR (push_bit 8 val AND 0xff0000)
     OR push_bit 24 val"

definition swab64 :: "u64 \<Rightarrow> u64" where
  "swab64 val = drop_bit 56 val OR (drop_bit 40 val AND 0xff00) OR (drop_bit 24 val AND 0xff0000)
     OR (drop_bit 8 val AND 0xff000000) OR (push_bit 8 val AND 0xff00000000)
     OR (push_bit 24 val AND 0xff0000000000) OR (push_bit 40 val AND 0xff000000000000)
     OR push_bit 56 val"

datatype endian = Little_endian | Big_endian

definition mswab16 :: "endian \<Rightarrow> u16 \<Rightarrow> u16" where
  "mswab16 e a = (case e of Big_endian \<Rightarrow> swab16 a | Little_endian \<Rightarrow> a)"

definition mswab32 :: "endian \<Rightarrow> u32 \<Rightarrow> u32" where
  "mswab32 e a = (case e of Big_endian \<Rightarrow> swab32 a | Little_endian \<Rightarrow> a)"

definition mswab64 :: "endian \<Rightarrow> u64 \<Rightarrow> u64" where
  "mswab64 e a = (case e of Big_endian \<Rightarrow> swab64 a | Little_endian \<Rightarrow> a)"

section \<open>Integers in memory\<close>

definition le_bytes :: "'a::len word \<Rightarrow> byte list" where
  "le_bytes w = map (\<lambda>i. ucast (drop_bit (8 * i) w)) [0..<LENGTH('a) div 8]"

primrec of_le_bytes :: "byte list \<Rightarrow> 'a::len word" where
  "of_le_bytes [] = 0"
| "of_le_bytes (b # bs) = ucast b OR push_bit 8 (of_le_bytes bs)"

text \<open>What a \<^verbatim>\<open>memcpy\<close> from or into an integer variable sees.\<close>

definition mem_bytes :: "endian \<Rightarrow> 'a::len word \<Rightarrow> byte list" where
  "mem_bytes e w = (case e of Little_endian \<Rightarrow> le_bytes w | Big_endian \<Rightarrow> rev (le_bytes w))"

definition mem_word :: "endian \<Rightarrow> byte list \<Rightarrow> 'a::len word" where
  "mem_word e bs = (case e of Little_endian \<Rightarrow> of_le_bytes bs | Big_endian \<Rightarrow> of_le_bytes (rev bs))"

text \<open>The memory of \<^verbatim>\<open>msgr_le32 e; e = v\<close>, and the conversion of such memory back to \<^verbatim>\<open>uint32_t\<close>.\<close>

definition le16_mem :: "endian \<Rightarrow> u16 \<Rightarrow> byte list" where
  "le16_mem e nv = mem_bytes e (mswab16 e nv)"

definition le32_mem :: "endian \<Rightarrow> u32 \<Rightarrow> byte list" where
  "le32_mem e nv = mem_bytes e (mswab32 e nv)"

definition le64_mem :: "endian \<Rightarrow> u64 \<Rightarrow> byte list" where
  "le64_mem e nv = mem_bytes e (mswab64 e nv)"

definition le16_val :: "endian \<Rightarrow> byte list \<Rightarrow> u16" where
  "le16_val e bs = mswab16 e (mem_word e bs)"

definition le32_val :: "endian \<Rightarrow> byte list \<Rightarrow> u32" where
  "le32_val e bs = mswab32 e (mem_word e bs)"

definition le64_val :: "endian \<Rightarrow> byte list \<Rightarrow> u64" where
  "le64_val e bs = mswab64 e (mem_word e bs)"

section \<open>Laws\<close>

lemma length_le_bytes [simp]: "length (le_bytes (w :: 'a::len word)) = LENGTH('a) div 8"
  by (simp add: le_bytes_def)

lemma bit_of_le_bytes:
  "bit (of_le_bytes bs :: 'a::len word) n \<longleftrightarrow> n < LENGTH('a) \<and> n div 8 < length bs \<and> bit (bs ! (n div 8)) (n mod 8)"
proof (induction bs arbitrary: n)
  case (Cons b bs)
  show ?case
  proof (cases "n < 8")
    case True
    then show ?thesis by (auto simp: bit_simps)
  next
    case False
    have "n div 8 = Suc ((n - 8) div 8)" using False by (simp add: le_div_geq)
    moreover have "(n - 8) mod 8 = n mod 8" using False by (metis le_mod_geq not_less)
    moreover have "\<not> bit b n" using False bit_imp_le_length [of b n] by auto
    ultimately show ?thesis
      using False Cons.IH [of "n - 8"] by (auto simp: bit_simps)
  qed
qed simp

lemma of_le_bytes_le_bytes:
  fixes w :: "'a::len word"
  assumes "LENGTH('a) mod 8 = 0"
  shows "of_le_bytes (le_bytes w) = w"
proof (rule bit_word_eqI)
  fix n assume n: "n < LENGTH('a)"
  have "n div 8 < LENGTH('a) div 8" using n assms by (simp add: div_less_iff_less_mult mult.commute mod_0_imp_dvd)
  then show "bit (of_le_bytes (le_bytes w) :: 'a word) n = bit w n"
    using n by (simp add: bit_of_le_bytes le_bytes_def bit_simps)
qed

lemma le_bytes_expand:
  "le_bytes (w :: u16) = [ucast w, ucast (drop_bit 8 w)]"
  "le_bytes (v :: u32) = [ucast v, ucast (drop_bit 8 v), ucast (drop_bit 16 v), ucast (drop_bit 24 v)]"
  "le_bytes (u :: u64) = [ucast u, ucast (drop_bit 8 u), ucast (drop_bit 16 u), ucast (drop_bit 24 u),
     ucast (drop_bit 32 u), ucast (drop_bit 40 u), ucast (drop_bit 48 u), ucast (drop_bit 56 u)]"
  by (simp_all add: le_bytes_def upt_rec)

text \<open>The masks of the swap, as shifted bytes.\<close>

lemma byte_masks:
  "(0xff00 :: 'a::len word) = push_bit 8 (mask 8)" "(0xff0000 :: 'a word) = push_bit 16 (mask 8)"
  "(0xff000000 :: 'a word) = push_bit 24 (mask 8)" "(0xff00000000 :: 'a word) = push_bit 32 (mask 8)"
  "(0xff0000000000 :: 'a word) = push_bit 40 (mask 8)" "(0xff000000000000 :: 'a word) = push_bit 48 (mask 8)"
  by (simp_all add: mask_eq_exp_minus_1 push_bit_eq_mult)

lemma le_bytes_swab16: "le_bytes (swab16 w) = rev (le_bytes w)"
  by (simp add: le_bytes_expand) (safe; rule bit_word_eqI; auto simp: swab16_def bit_simps)

lemma le_bytes_swab32: "le_bytes (swab32 w) = rev (le_bytes w)"
  by (simp add: le_bytes_expand) (safe; rule bit_word_eqI; auto simp: swab32_def byte_masks bit_simps)

lemma le_bytes_swab64: "le_bytes (swab64 w) = rev (le_bytes w)"
  by (simp add: le_bytes_expand) (safe; rule bit_word_eqI; auto simp: swab64_def byte_masks bit_simps)

lemma le_bytes_inj:
  fixes v w :: "'a::len word"
  assumes "LENGTH('a) mod 8 = 0" and "le_bytes v = le_bytes w"
  shows "v = w"
  using of_le_bytes_le_bytes [OF assms(1)] assms(2) by metis

text \<open>Swapping twice changes nothing.\<close>

lemma swab_swab [simp]: "swab16 (swab16 w) = w" "swab32 (swab32 v) = v" "swab64 (swab64 u) = u"
  by (rule le_bytes_inj, simp, simp only: le_bytes_swab16 le_bytes_swab32 le_bytes_swab64 rev_rev_ident)+

text \<open>On either host a \<^verbatim>\<open>msgr_le\<close> value is stored in little-endian order and reads back.\<close>

lemma le_mem_host_independent:
  "le16_mem e w = le_bytes w" "le32_mem e v = le_bytes v" "le64_mem e u = le_bytes u"
  by (cases e; simp only: le16_mem_def le32_mem_def le64_mem_def mem_bytes_def mswab16_def mswab32_def
        mswab64_def endian.case le_bytes_swab16 le_bytes_swab32 le_bytes_swab64 rev_rev_ident)+

lemma le_val_le_bytes:
  "le16_val e (le_bytes w) = w" "le32_val e (le_bytes v) = v" "le64_val e (le_bytes u) = u"
  by (cases e; simp only: le16_val_def le32_val_def le64_val_def mem_word_def mswab16_def mswab32_def mswab64_def
        endian.case of_le_bytes_le_bytes swab_swab
        flip: le_bytes_swab16 le_bytes_swab32 le_bytes_swab64; simp add: of_le_bytes_le_bytes)+

lemmas le_wire [simp] = le_mem_host_independent le_val_le_bytes

end
