(* ===== verification/Encoding.thy ===== *)
theory Encoding
  imports Buffer_Write Byte_Order Ordered_Map
begin

text \<open>
  The wire encoding of \<^verbatim>\<open>src/include/msgr/encoding.h\<close>: integers, strings, containers and versioned
  structures are appended to a buffer list and read back through an iterator.  An encoder takes
  the value, the list and the heap; a decoder takes the heap, the list and the iterator.  The
  contract of such a pair and its consequences are in the theory of their laws.
\<close>

section \<open>Operations\<close>

type_synonym 'a encoder = "'a \<Rightarrow> blist \<Rightarrow> heap \<Rightarrow> buf_error + blist \<times> heap"
type_synonym 'a decoder = "heap \<Rightarrow> blist \<Rightarrow> iter \<Rightarrow> buf_error + 'a \<times> iter"

subsection \<open>Base types\<close>

text \<open>\<^verbatim>\<open>bl.append(data, len)\<close>; a loop that does not end within its bound is \<open>Stuck\<close>.\<close>

definition encode_raw :: "byte list encoder" where
  "encode_raw t bl h = (case append_data t bl h of None \<Rightarrow> Inl Stuck | Some r \<Rightarrow> r)"

definition decode_raw :: "nat \<Rightarrow> byte list decoder" where
  "decode_raw n h bl p = iter_copy h (buffers bl) n p"

definition encode_u8 :: "byte encoder" where
  "encode_u8 v = encode_raw [v]"

definition decode_u8 :: "byte decoder" where
  "decode_u8 h bl p = map_sum (\<lambda>e. e) (\<lambda>(bs, p). (hd bs, p)) (decode_raw 1 h bl p)"

definition encode_bool :: "bool encoder" where
  "encode_bool v = encode_raw [if v then 1 else 0]"

definition decode_bool :: "bool decoder" where
  "decode_bool h bl p = map_sum (\<lambda>e. e) (\<lambda>(vv, p). (vv \<noteq> 0, p)) (decode_u8 h bl p)"

definition encode_u16 :: "endian \<Rightarrow> u16 encoder" where
  "encode_u16 e v = encode_raw (le16_mem e v)"

definition encode_u32 :: "endian \<Rightarrow> u32 encoder" where
  "encode_u32 e v = encode_raw (le32_mem e v)"

definition encode_u64 :: "endian \<Rightarrow> u64 encoder" where
  "encode_u64 e v = encode_raw (le64_mem e v)"

definition decode_u16 :: "endian \<Rightarrow> u16 decoder" where
  "decode_u16 e h bl p = map_sum (\<lambda>e. e) (\<lambda>(bs, p). (le16_val e bs, p)) (decode_raw 2 h bl p)"

definition decode_u32 :: "endian \<Rightarrow> u32 decoder" where
  "decode_u32 e h bl p = map_sum (\<lambda>e. e) (\<lambda>(bs, p). (le32_val e bs, p)) (decode_raw 4 h bl p)"

definition decode_u64 :: "endian \<Rightarrow> u64 decoder" where
  "decode_u64 e h bl p = map_sum (\<lambda>e. e) (\<lambda>(bs, p). (le64_val e bs, p)) (decode_raw 8 h bl p)"

text \<open>\<^verbatim>\<open>iterator::copy(len, std::string&)\<close>, which reads the window's memory directly.\<close>

function copy_string_loop :: "heap \<Rightarrow> bptr list \<Rightarrow> nat \<Rightarrow> iter \<Rightarrow> buf_error + byte list \<times> iter" where
  "copy_string_loop h ps len it =
     (if len = 0 then Inr ([], it)
      else if iter_end ps it then Inl End_of_buffer
      else
        (let howmuch = min len (plen (ps ! ip it) - ip_off it)
         in if howmuch = 0 then Inl Stuck
            else
              (case advance ps (int howmuch) it of
                 Inl e \<Rightarrow> Inl e
               | Inr it' \<Rightarrow>
                   (case copy_string_loop h ps (len - howmuch) it' of
                      Inl e \<Rightarrow> Inl e
                    | Inr (bs, it'') \<Rightarrow>
                        Inr (take howmuch (drop (ip_off it) (ptr_c_str h (ps ! ip it))) @ bs, it'')))))"
  by pat_completeness auto
termination by (relation "measure (\<lambda>(h, ps, len, it). len)") auto

declare copy_string_loop.simps [simp del]

definition copy_string :: "nat \<Rightarrow> byte list decoder" where
  "copy_string len h bl it =
     (case (if iter_end (buffers bl) it then seek (buffers bl) (ioff it) else Inr it) of
        Inl e \<Rightarrow> Inl e
      | Inr it \<Rightarrow> copy_string_loop h (buffers bl) len it)"

definition encode_string :: "endian \<Rightarrow> byte list encoder" where
  "encode_string e s bl h =
     (let len = of_nat (length s) :: u32
      in case encode_u32 e len bl h of
           Inl err \<Rightarrow> Inl err
         | Inr (bl, h) \<Rightarrow> encode_raw (take (unat len) s) bl h)"

definition decode_string :: "endian \<Rightarrow> byte list decoder" where
  "decode_string e h bl p =
     (case decode_u32 e h bl p of
        Inl err \<Rightarrow> Inl err
      | Inr (len, p) \<Rightarrow> copy_string (unat len) h bl p)"

subsection \<open>Sequences\<close>

text \<open>The loops over the elements, for every container that is walked from its begin to its end.\<close>

fun encode_array_nohead :: "'a encoder \<Rightarrow> 'a list encoder" where
  "encode_array_nohead enc [] bl h = Inr (bl, h)"
| "encode_array_nohead enc (x # xs) bl h =
     (case enc x bl h of
        Inl err \<Rightarrow> Inl err
      | Inr (bl, h) \<Rightarrow> encode_array_nohead enc xs bl h)"

primrec decode_array_nohead :: "'a decoder \<Rightarrow> nat \<Rightarrow> 'a list decoder" where
  "decode_array_nohead dec 0 h bl p = Inr ([], p)"
| "decode_array_nohead dec (Suc n) h bl p =
     (case dec h bl p of
        Inl err \<Rightarrow> Inl err
      | Inr (v, p) \<Rightarrow>
          (case decode_array_nohead dec n h bl p of
             Inl err \<Rightarrow> Inl err
           | Inr (vs, p) \<Rightarrow> Inr (v # vs, p)))"

definition encode_vector :: "endian \<Rightarrow> 'a encoder \<Rightarrow> 'a list encoder" where
  "encode_vector e enc v bl h =
     (case encode_u32 e (of_nat (length v)) bl h of
        Inl err \<Rightarrow> Inl err
      | Inr (bl, h) \<Rightarrow> encode_array_nohead enc v bl h)"

definition decode_vector :: "endian \<Rightarrow> 'a decoder \<Rightarrow> 'a list decoder" where
  "decode_vector e dec h bl p =
     (case decode_u32 e h bl p of
        Inl err \<Rightarrow> Inl err
      | Inr (n, p) \<Rightarrow> decode_array_nohead dec (unat n) h bl p)"

text \<open>A \<^verbatim>\<open>std::list\<close> that is not empty is counted while it is written, and the count is patched in.\<close>

fun encode_list_loop :: "'a encoder \<Rightarrow> 'a list \<Rightarrow> u32 \<Rightarrow> blist \<Rightarrow> heap \<Rightarrow> buf_error + u32 \<times> blist \<times> heap" where
  "encode_list_loop enc [] n bl h = Inr (n, bl, h)"
| "encode_list_loop enc (x # xs) n bl h =
     (case enc x bl h of
        Inl err \<Rightarrow> Inl err
      | Inr (bl, h) \<Rightarrow> encode_list_loop enc xs (n + 1) bl h)"

definition encode_list :: "endian \<Rightarrow> 'a encoder \<Rightarrow> 'a list encoder" where
  "encode_list e enc ls bl h =
     (if ls \<noteq> [] then
        (let pos = blen bl
         in case encode_u32 e 0 bl h of
              Inl err \<Rightarrow> Inl err
            | Inr (bl, h) \<Rightarrow>
                (case encode_list_loop enc ls 0 bl h of
                   Inl err \<Rightarrow> Inl err
                 | Inr (n, bl, h) \<Rightarrow> map_sum (\<lambda>e. e) (Pair bl) (bl_copy_in pos (le32_mem e n) bl h)))
      else
        (case encode_u32 e (of_nat (length ls)) bl h of
           Inl err \<Rightarrow> Inl err
         | Inr (bl, h) \<Rightarrow> encode_array_nohead enc ls bl h))"

primrec decode_list_loop :: "'a decoder \<Rightarrow> nat \<Rightarrow> 'a list \<Rightarrow> 'a list decoder" where
  "decode_list_loop dec 0 ls h bl p = Inr (ls, p)"
| "decode_list_loop dec (Suc n) ls h bl p =
     (case dec h bl p of
        Inl err \<Rightarrow> Inl err
      | Inr (v, p) \<Rightarrow> decode_list_loop dec n (ls @ [v]) h bl p)"

definition decode_list :: "endian \<Rightarrow> 'a decoder \<Rightarrow> 'a list decoder" where
  "decode_list e dec h bl p =
     (case decode_u32 e h bl p of
        Inl err \<Rightarrow> Inl err
      | Inr (n, p) \<Rightarrow> decode_list_loop dec (unat n) [] h bl p)"

definition encode_deque :: "endian \<Rightarrow> 'a encoder \<Rightarrow> 'a list encoder" where
  "encode_deque e enc ls bl h =
     (case encode_u32 e (of_nat (length ls)) bl h of
        Inl err \<Rightarrow> Inl err
      | Inr (bl, h) \<Rightarrow> encode_array_nohead enc ls bl h)"

definition decode_deque :: "endian \<Rightarrow> 'a decoder \<Rightarrow> 'a list decoder" where
  "decode_deque e dec h bl p =
     (case decode_u32 e h bl p of
        Inl err \<Rightarrow> Inl err
      | Inr (n, p) \<Rightarrow> decode_list_loop dec (unat n) [] h bl p)"

subsection \<open>Ordered containers\<close>

text \<open>\<^verbatim>\<open>std::set::insert\<close> and \<^verbatim>\<open>std::multiset::insert\<close> (at the upper bound) on the elements in order.\<close>

fun set_insert :: "'a::linorder \<Rightarrow> 'a list \<Rightarrow> 'a list" where
  "set_insert x [] = [x]"
| "set_insert x (y # ys) = (if x < y then x # y # ys else if x = y then y # ys else y # set_insert x ys)"

fun multiset_insert :: "'a::linorder \<Rightarrow> 'a list \<Rightarrow> 'a list" where
  "multiset_insert x [] = [x]"
| "multiset_insert x (y # ys) = (if x < y then x # y # ys else y # multiset_insert x ys)"

text \<open>\<open>while (n--) { T v; decode(v, p); s.insert(v); }\<close>\<close>

primrec decode_insert_loop :: "('a \<Rightarrow> 'c \<Rightarrow> 'c) \<Rightarrow> 'a decoder \<Rightarrow> nat \<Rightarrow> 'c \<Rightarrow> 'c decoder" where
  "decode_insert_loop ins dec 0 s h bl p = Inr (s, p)"
| "decode_insert_loop ins dec (Suc n) s h bl p =
     (case dec h bl p of
        Inl err \<Rightarrow> Inl err
      | Inr (v, p) \<Rightarrow> decode_insert_loop ins dec n (ins v s) h bl p)"

definition encode_set :: "endian \<Rightarrow> 'a encoder \<Rightarrow> 'a list encoder" where
  "encode_set e enc s bl h =
     (case encode_u32 e (of_nat (length s)) bl h of
        Inl err \<Rightarrow> Inl err
      | Inr (bl, h) \<Rightarrow> encode_array_nohead enc s bl h)"

definition decode_set :: "endian \<Rightarrow> 'a::linorder decoder \<Rightarrow> 'a list decoder" where
  "decode_set e dec h bl p =
     (case decode_u32 e h bl p of
        Inl err \<Rightarrow> Inl err
      | Inr (n, p) \<Rightarrow> decode_insert_loop set_insert dec (unat n) [] h bl p)"

definition encode_multiset :: "endian \<Rightarrow> 'a encoder \<Rightarrow> 'a list encoder" where
  "encode_multiset e enc s bl h =
     (case encode_u32 e (of_nat (length s)) bl h of
        Inl err \<Rightarrow> Inl err
      | Inr (bl, h) \<Rightarrow> encode_array_nohead enc s bl h)"

definition decode_multiset :: "endian \<Rightarrow> 'a::linorder decoder \<Rightarrow> 'a list decoder" where
  "decode_multiset e dec h bl p =
     (case decode_u32 e h bl p of
        Inl err \<Rightarrow> Inl err
      | Inr (n, p) \<Rightarrow> decode_insert_loop multiset_insert dec (unat n) [] h bl p)"

definition encode_pair :: "'a encoder \<Rightarrow> 'b encoder \<Rightarrow> ('a \<times> 'b) encoder" where
  "encode_pair enca encb p bl h =
     (case enca (fst p) bl h of
        Inl err \<Rightarrow> Inl err
      | Inr (bl, h) \<Rightarrow> encb (snd p) bl h)"

definition decode_pair :: "'a decoder \<Rightarrow> 'b decoder \<Rightarrow> ('a \<times> 'b) decoder" where
  "decode_pair deca decb h bl p =
     (case deca h bl p of
        Inl err \<Rightarrow> Inl err
      | Inr (a, p) \<Rightarrow>
          (case decb h bl p of
             Inl err \<Rightarrow> Inl err
           | Inr (b, p) \<Rightarrow> Inr ((a, b), p)))"

text \<open>\<^verbatim>\<open>decode(k, p); decode(m[k], p);\<close> replaces the value of a key that is already there.\<close>

definition encode_map :: "endian \<Rightarrow> 'k encoder \<Rightarrow> 'v encoder \<Rightarrow> ('k, 'v) omap encoder" where
  "encode_map e enck encv m bl h =
     (case encode_u32 e (of_nat (length m)) bl h of
        Inl err \<Rightarrow> Inl err
      | Inr (bl, h) \<Rightarrow> encode_array_nohead (encode_pair enck encv) m bl h)"

definition decode_map_noclear :: "endian \<Rightarrow> 'k::linorder decoder \<Rightarrow> 'v decoder \<Rightarrow> ('k, 'v) omap \<Rightarrow> ('k, 'v) omap decoder" where
  "decode_map_noclear e deck decv m h bl p =
     (case decode_u32 e h bl p of
        Inl err \<Rightarrow> Inl err
      | Inr (n, p) \<Rightarrow>
          decode_insert_loop (\<lambda>(k, v). omap_put k v) (decode_pair deck decv) (unat n) m h bl p)"

definition decode_map :: "endian \<Rightarrow> 'k::linorder decoder \<Rightarrow> 'v decoder \<Rightarrow> ('k, 'v) omap decoder" where
  "decode_map e deck decv h bl p = decode_map_noclear e deck decv [] h bl p"

subsection \<open>Buffer lists\<close>

definition encode_bufferlist :: "endian \<Rightarrow> blist encoder" where
  "encode_bufferlist e s bl h =
     (case encode_u32 e (of_nat (blen s)) bl h of
        Inl err \<Rightarrow> Inl err
      | Inr (bl, h) \<Rightarrow> Inr (append_list s bl, h))"

text \<open>\<^verbatim>\<open>iterator::copy(len, list& dest)\<close>: the destination shares the windows it is given.\<close>

function copy_list_loop :: "bptr list \<Rightarrow> nat \<Rightarrow> iter \<Rightarrow> blist \<Rightarrow> buf_error + blist \<times> iter" where
  "copy_list_loop ps len it dest =
     (if len = 0 then Inr (dest, it)
      else if iter_end ps it then Inl End_of_buffer
      else
        (let howmuch = min len (plen (ps ! ip it) - ip_off it)
         in if howmuch = 0 then Inl Stuck
            else
              (case append_range (ps ! ip it) (ip_off it) howmuch dest of
                 Inl e \<Rightarrow> Inl e
               | Inr dest \<Rightarrow>
                   (case advance ps (int howmuch) it of
                      Inl e \<Rightarrow> Inl e
                    | Inr it \<Rightarrow> copy_list_loop ps (len - howmuch) it dest))))"
  by pat_completeness auto
termination by (relation "measure (\<lambda>(ps, len, it, dest). len)") auto

declare copy_list_loop.simps [simp del]

definition copy_list :: "nat \<Rightarrow> blist \<Rightarrow> blist \<Rightarrow> iter \<Rightarrow> buf_error + blist \<times> iter" where
  "copy_list len dest bl it =
     (case (if iter_end (buffers bl) it then seek (buffers bl) (ioff it) else Inr it) of
        Inl e \<Rightarrow> Inl e
      | Inr it \<Rightarrow> copy_list_loop (buffers bl) len it dest)"

definition decode_bufferlist :: "endian \<Rightarrow> blist \<Rightarrow> blist decoder" where
  "decode_bufferlist e s h bl p =
     (case decode_u32 e h bl p of
        Inl err \<Rightarrow> Inl err
      | Inr (len, p) \<Rightarrow> copy_list (unat len) (bl_clear s) bl p)"

text \<open>The decoder of a whole list asserts that nothing is left over.\<close>

definition decode_full :: "'a decoder \<Rightarrow> heap \<Rightarrow> blist \<Rightarrow> buf_error + 'a" where
  "decode_full dec h bl =
     (case dec h bl iter_begin of
        Inl err \<Rightarrow> Inl err
      | Inr (x, p) \<Rightarrow> (if iter_end (buffers bl) p then Inr x else Inl Assertion_failed))"

subsection \<open>Versioned structures\<close>

definition bl_end :: "blist \<Rightarrow> iter" where
  "bl_end bl = \<lparr>ioff = blen bl, ip = length (buffers bl), ip_off = 0\<rparr>"

definition get_remaining :: "blist \<Rightarrow> iter \<Rightarrow> nat" where
  "get_remaining bl it = blen bl - ioff it"

text \<open>\<^verbatim>\<open>ENCODE_START\<close>: both version bytes and a length of zero, with iterators on the second
  version byte and on the length.\<close>

definition ENCODE_START :: "endian \<Rightarrow> byte \<Rightarrow> byte \<Rightarrow> blist \<Rightarrow> heap \<Rightarrow> buf_error + iter \<times> iter \<times> blist \<times> heap" where
  "ENCODE_START e v compatv bl h =
     (case encode_u8 v bl h of
        Inl err \<Rightarrow> Inl err
      | Inr (bl, h) \<Rightarrow>
          (case encode_u8 compatv bl h of
             Inl err \<Rightarrow> Inl err
           | Inr (bl, h) \<Rightarrow>
               (case advance (buffers bl) (- 1) (bl_end bl) of
                  Inl err \<Rightarrow> Inl err
                | Inr struct_compat_it \<Rightarrow>
                    (case encode_u32 e 0 bl h of
                       Inl err \<Rightarrow> Inl err
                     | Inr (bl, h) \<Rightarrow>
                         (case advance (buffers bl) (- 4) (bl_end bl) of
                            Inl err \<Rightarrow> Inl err
                          | Inr struct_len_it \<Rightarrow> Inr (struct_compat_it, struct_len_it, bl, h))))))"

definition ENCODE_FINISH_NEW_COMPAT ::
    "endian \<Rightarrow> byte \<Rightarrow> iter \<Rightarrow> iter \<Rightarrow> blist \<Rightarrow> heap \<Rightarrow> buf_error + blist \<times> heap" where
  "ENCODE_FINISH_NEW_COMPAT e new_struct_compat struct_compat_it struct_len_it bl h =
     (let struct_len = of_nat (blen bl) - of_nat (ioff struct_len_it) - 4 :: u32
      in case iter_copy_in (buffers bl) (le32_mem e struct_len) struct_len_it h of
           Inl err \<Rightarrow> Inl err
         | Inr (h, _) \<Rightarrow>
             (if new_struct_compat \<noteq> 0
              then map_sum (\<lambda>e. e) (\<lambda>(h, _). (bl, h))
                     (iter_copy_in (buffers bl) [new_struct_compat] struct_compat_it h)
              else Inr (bl, h)))"

definition encode_versioned :: "endian \<Rightarrow> byte \<Rightarrow> byte \<Rightarrow> byte \<Rightarrow> 'a encoder \<Rightarrow> 'a encoder" where
  "encode_versioned e v compatv new_struct_compat body x bl h =
     (case ENCODE_START e v compatv bl h of
        Inl err \<Rightarrow> Inl err
      | Inr (cit, lit, bl, h) \<Rightarrow>
          (case body x bl h of
             Inl err \<Rightarrow> Inl err
           | Inr (bl, h) \<Rightarrow> ENCODE_FINISH_NEW_COMPAT e new_struct_compat cit lit bl h))"

definition DECODE_START :: "endian \<Rightarrow> nat \<Rightarrow> heap \<Rightarrow> blist \<Rightarrow> iter \<Rightarrow> buf_error + byte \<times> nat \<times> iter" where
  "DECODE_START e v h bl p =
     (case decode_u8 h bl p of
        Inl err \<Rightarrow> Inl err
      | Inr (struct_v, p) \<Rightarrow>
          (case decode_u8 h bl p of
             Inl err \<Rightarrow> Inl err
           | Inr (struct_compat, p) \<Rightarrow>
               (if v < unat struct_compat then Inl Malformed_input
                else
                  (case decode_u32 e h bl p of
                     Inl err \<Rightarrow> Inl err
                   | Inr (struct_len, p) \<Rightarrow>
                       (if unat struct_len > get_remaining bl p then Inl Malformed_input
                        else Inr (struct_v, w32 (ioff p + unat struct_len), p))))))"

text \<open>\<^verbatim>\<open>__DECODE_START_LEGACY_COMPAT_LEN\<close>: older encodings lack the second byte or the length.\<close>

definition DECODE_START_LEGACY_COMPAT_LEN ::
    "endian \<Rightarrow> nat \<Rightarrow> nat \<Rightarrow> nat \<Rightarrow> nat \<Rightarrow> heap \<Rightarrow> blist \<Rightarrow> iter \<Rightarrow> buf_error + byte \<times> nat \<times> iter" where
  "DECODE_START_LEGACY_COMPAT_LEN e v compatv lenv skip_v h bl p =
     (case decode_u8 h bl p of
        Inl err \<Rightarrow> Inl err
      | Inr (struct_v, p) \<Rightarrow>
          (case (if unat struct_v \<ge> compatv then
                   (case decode_u8 h bl p of
                      Inl err \<Rightarrow> Inl err
                    | Inr (struct_compat, p) \<Rightarrow>
                        (if v < unat struct_compat then Inl Malformed_input else Inr p))
                 else if skip_v \<noteq> 0 then
                   (if get_remaining bl p < skip_v \<or> 2 ^ 31 \<le> get_remaining bl p then Inl Malformed_input
                    else advance (buffers bl) (int skip_v) p)
                 else Inr p) of
             Inl err \<Rightarrow> Inl err
           | Inr p \<Rightarrow>
               (if unat struct_v \<ge> lenv then
                  (case decode_u32 e h bl p of
                     Inl err \<Rightarrow> Inl err
                   | Inr (struct_len, p) \<Rightarrow>
                       (if unat struct_len > get_remaining bl p then Inl Malformed_input
                        else Inr (struct_v, w32 (ioff p + unat struct_len), p)))
                else Inr (struct_v, 0, p))))"

definition DECODE_FINISH :: "nat \<Rightarrow> blist \<Rightarrow> iter \<Rightarrow> buf_error + iter" where
  "DECODE_FINISH struct_end bl p =
     (if struct_end \<noteq> 0 then
        (if ioff p > struct_end then Inl Malformed_input
         else if ioff p < struct_end then advance (buffers bl) (int (struct_end - ioff p)) p
         else Inr p)
      else Inr p)"

definition decode_versioned :: "endian \<Rightarrow> nat \<Rightarrow> (byte \<Rightarrow> 'a decoder) \<Rightarrow> 'a decoder" where
  "decode_versioned e v body h bl p =
     (case DECODE_START e v h bl p of
        Inl err \<Rightarrow> Inl err
      | Inr (struct_v, struct_end, p) \<Rightarrow>
          (case body struct_v h bl p of
             Inl err \<Rightarrow> Inl err
           | Inr (x, p) \<Rightarrow> map_sum (\<lambda>e. e) (Pair x) (DECODE_FINISH struct_end bl p)))"

end
