(* ===== verification/Encoding_Laws.thy ===== *)
theory Encoding_Laws
  imports Encoding
begin

text \<open>
  Correctness of the wire encoding.  The contract \<open>codec\<close> of an encoder and decoder pair is proved
  for the base types and carried from element types to containers and versioned structures;
  the two sides may run on hosts of different byte order.
\<close>

section \<open>What appending and reading preserve\<close>

definition ready :: "heap \<Rightarrow> blist \<Rightarrow> bool" where
  "ready h bl \<longleftrightarrow> list_ok h bl \<and> separate (buffers bl)"

definition grows :: "heap \<Rightarrow> blist \<Rightarrow> byte list \<Rightarrow> heap \<Rightarrow> blist \<Rightarrow> bool" where
  "grows h bl bs h' bl' \<longleftrightarrow> ready h' bl' \<and> contents h' bl' = contents h bl @ bs \<and> grown (buffers bl) (buffers bl')"

text \<open>Lengths up to this bound keep every 32-bit computation of \<^verbatim>\<open>append\<close> exact.\<close>

definition room :: "blist \<Rightarrow> nat \<Rightarrow> bool" where
  "room bl n \<longleftrightarrow> blen bl + n \<le> 2 ^ 32 - MSGR_PAGE_SIZE"

definition cursor :: "heap \<Rightarrow> blist \<Rightarrow> iter \<Rightarrow> bool" where
  "cursor h bl it \<longleftrightarrow> list_ok h bl \<and> iter_ok (buffers bl) it"

definition remains :: "heap \<Rightarrow> blist \<Rightarrow> iter \<Rightarrow> byte list" where
  "remains h bl it = drop (ioff it) (contents h bl)"

lemma ready_blen: "ready h bl \<Longrightarrow> length (contents h bl) = blen bl"
  by (simp add: ready_def length_contents)

lemma grows_blen: "ready h bl \<Longrightarrow> grows h bl bs h' bl' \<Longrightarrow> blen bl' = blen bl + length bs"
  using ready_blen [of h bl] ready_blen [of h' bl'] by (simp add: grows_def)

lemma grows_refl: "ready h bl \<Longrightarrow> grows h bl [] h bl"
  by (simp add: grows_def)

lemma grows_trans: "grows h bl bs h1 bl1 \<Longrightarrow> grows h1 bl1 bs' h2 bl2 \<Longrightarrow> grows h bl (bs @ bs') h2 bl2"
  using grown_trans by (auto simp: grows_def)

lemma grows_ready: "grows h bl bs h' bl' \<Longrightarrow> ready h' bl'"
  by (simp add: grows_def)

lemma room_grows: "ready h bl \<Longrightarrow> grows h bl bs h' bl' \<Longrightarrow> room bl (length bs + n) \<Longrightarrow> room bl' n"
  using grows_blen by (fastforce simp: room_def)

lemma room_mono: "room bl n \<Longrightarrow> m \<le> n \<Longrightarrow> room bl m"
  by (simp add: room_def)

lemma encode_raw_grows:
  assumes "ready h bl" and "room bl (length bs)"
  shows "\<exists>bl' h'. encode_raw bs bl h = Inr (bl', h') \<and> grows h bl bs h' bl'"
proof -
  have ok: "list_ok h bl" "separate (buffers bl)" using assms(1) by (simp_all add: ready_def)
  have fits: "blen bl + length bs < 2 ^ 32" "length bs \<le> 2 ^ 32 - MSGR_PAGE_SIZE"
    using assms(2) by (auto simp: room_def MSGR_PAGE_SIZE_def)
  obtain bl' h' where r: "append_data bs bl h = Some (Inr (bl', h'))" "list_ok h' bl'"
    "contents h' bl' = contents h bl @ bs"
    using append_data_ok [OF ok(1) fits] by blast
  moreover have "separate (buffers bl') \<and> grown (buffers bl) (buffers bl')"
    using append_loop_grown [OF r(1) [unfolded append_data_def] ok fits(1)] .
  ultimately show ?thesis by (simp add: encode_raw_def grows_def ready_def)
qed

lemma decode_raw_reads:
  assumes "cursor h bl it" and "remains h bl it = xs @ ys"
  shows "\<exists>it'. decode_raw (length xs) h bl it = Inr (xs, it') \<and> cursor h bl it' \<and> remains h bl it' = ys"
proof -
  have "iter_valid h (buffers bl) it" "iter_rest h (buffers bl) it = xs @ ys"
    using assms by (simp_all add: cursor_def list_ok_def iter_valid_def iter_rest_def remains_def contents_def)
  from bl_iter.copy_append [OF this] show ?thesis
    using assms(1)
    by (auto simp: decode_raw_def cursor_def iter_valid_def iter_rest_def remains_def contents_def)
qed

lemma decode_raw_short:
  assumes "cursor h bl it" and "length (remains h bl it) < n"
  shows "decode_raw n h bl it = Inl End_of_buffer"
  using bl_iter.copy_short [of h "buffers bl" it n] assms
  by (simp add: decode_raw_def cursor_def list_ok_def iter_valid_def iter_rest_def remains_def contents_def)

lemma cursor_begin: "list_ok h bl \<Longrightarrow> cursor h bl iter_begin" "remains h bl iter_begin = contents h bl"
  using iter_begin_ok by (auto simp: cursor_def list_ok_def remains_def iter_begin_def)

lemma cursor_end: "cursor h bl it \<Longrightarrow> iter_end (buffers bl) it \<longleftrightarrow> remains h bl it = []"
  using iter_ok_end [of h "buffers bl" it] iter_ok_le [of "buffers bl" it] length_contents [of h bl]
  by (auto simp: cursor_def list_ok_def remains_def)

lemma cursor_remaining: "cursor h bl it \<Longrightarrow> get_remaining bl it = length (remains h bl it)"
  using length_contents [of h bl] by (simp add: cursor_def get_remaining_def remains_def)

lemma cursor_advance:
  assumes "cursor h bl it" and "remains h bl it = xs @ ys"
  shows "\<exists>it'. advance (buffers bl) (int (length xs)) it = Inr it' \<and> cursor h bl it' \<and> remains h bl it' = ys
    \<and> ioff it' = ioff it + length xs"
proof -
  have "length (contents h bl) - ioff it = length xs + length ys"
    using assms(2) by (metis length_drop length_append remains_def)
  moreover have "list_ok h bl" "iter_ok (buffers bl) it" using assms(1) by (simp_all add: cursor_def)
  moreover from calculation have "ioff it + length xs \<le> total_len (buffers bl)"
    using length_contents [of h bl] iter_ok_le [of "buffers bl" it] by (simp add: list_ok_def)
  moreover have "drop (length xs) (remains h bl it) = ys" using assms(2) by simp
  ultimately show ?thesis
    using advance_ok [of h "buffers bl" it "length xs"]
    by (auto simp: cursor_def list_ok_def remains_def add.commute)
qed

text \<open>One encoder after another, and one decoder after another.\<close>

lemma then_grows:
  assumes "ready h bl" and "room bl (length (bs @ bs'))"
    and "room bl (length bs) \<Longrightarrow> \<exists>bl' h'. f bl h = Inr (bl', h') \<and> grows h bl bs h' bl'"
    and "\<And>h1 bl1. ready h1 bl1 \<Longrightarrow> room bl1 (length bs') \<Longrightarrow>
      \<exists>bl' h'. g bl1 h1 = Inr (bl', h') \<and> grows h1 bl1 bs' h' bl'"
  shows "\<exists>bl' h'. (case f bl h of Inl err \<Rightarrow> Inl err | Inr (bl, h) \<Rightarrow> g bl h) = Inr (bl', h') \<and>
    grows h bl (bs @ bs') h' bl'"
proof -
  obtain bl1 h1 where 1: "f bl h = Inr (bl1, h1)" "grows h bl bs h1 bl1"
    using assms(3) room_mono [OF assms(2), of "length bs"] by auto
  have "room bl1 (length bs')" using room_grows [OF assms(1) 1(2)] assms(2) by simp
  then obtain bl2 h2 where 2: "g bl1 h1 = Inr (bl2, h2)" "grows h1 bl1 bs' h2 bl2"
    using assms(4) grows_ready [OF 1(2)] by blast
  show ?thesis using 1(1) 2(1) grows_trans [OF 1(2) 2(2)] by simp
qed

lemma then_reads:
  assumes "\<exists>it'. f = Inr (v, it') \<and> cursor h bl it' \<and> remains h bl it' = ys"
    and "\<And>it'. cursor h bl it' \<Longrightarrow> remains h bl it' = ys \<Longrightarrow>
      \<exists>it''. g v it' = Inr (w, it'') \<and> cursor h bl it'' \<and> remains h bl it'' = zs"
  shows "\<exists>it'. (case f of Inl err \<Rightarrow> Inl err | Inr (x, p) \<Rightarrow> g x p) = Inr (w, it') \<and>
    cursor h bl it' \<and> remains h bl it' = zs"
  using assms by fastforce

section \<open>The contract of an encoding\<close>

locale codec =
  fixes enc :: "'a encoder" and dec :: "'a decoder" and rep :: "'a \<Rightarrow> byte list" and dom :: "'a \<Rightarrow> bool"
  assumes enc_grows: "ready h bl \<Longrightarrow> dom v \<Longrightarrow> room bl (length (rep v)) \<Longrightarrow>
      \<exists>bl' h'. enc v bl h = Inr (bl', h') \<and> grows h bl (rep v) h' bl'"
    and dec_reads: "cursor h bl it \<Longrightarrow> dom v \<Longrightarrow> remains h bl it = rep v @ ys \<Longrightarrow>
      \<exists>it'. dec h bl it = Inr (v, it') \<and> cursor h bl it' \<and> remains h bl it' = ys"
begin

text \<open>What is encoded into an empty list is what the decoder of the whole list returns.\<close>

lemma full_round_trip:
  assumes "heap_ok h" and "dom v" and "length (rep v) \<le> 2 ^ 32 - MSGR_PAGE_SIZE"
  shows "\<exists>bl h'. enc v bl_new h = Inr (bl, h') \<and> decode_full dec h' bl = Inr v"
proof -
  have "ready h bl_new" using bl_new_ok(1) [OF assms(1)] by (simp add: ready_def bl_new_def)
  moreover have "room bl_new (length (rep v))" using assms(3) by (simp add: room_def bl_new_def)
  ultimately obtain bl h' where e: "enc v bl_new h = Inr (bl, h')" "grows h bl_new (rep v) h' bl"
    using enc_grows [OF _ assms(2)] by blast
  then have "list_ok h' bl" "contents h' bl = rep v @ []"
    by (simp_all add: grows_def ready_def contents_def bl_new_def)
  then obtain it where "dec h' bl iter_begin = Inr (v, it)" "cursor h' bl it" "remains h' bl it = []"
    using dec_reads [OF cursor_begin(1) assms(2)] cursor_begin(2) by metis
  then show ?thesis using e(1) cursor_end by (auto simp: decode_full_def)
qed

text \<open>Sequences.\<close>

lemma array_grows:
  assumes "ready h bl" and "list_all dom vs" and "room bl (length (concat (map rep vs)))"
  shows "\<exists>bl' h'. encode_array_nohead enc vs bl h = Inr (bl', h') \<and> grows h bl (concat (map rep vs)) h' bl'"
  using assms
proof (induction vs arbitrary: h bl)
  case (Cons v vs)
  obtain bl1 h1 where 1: "enc v bl h = Inr (bl1, h1)" "grows h bl (rep v) h1 bl1"
    using enc_grows [OF Cons.prems(1), of v] Cons.prems(2) room_mono [OF Cons.prems(3), of "length (rep v)"] by auto
  obtain bl2 h2 where 2: "encode_array_nohead enc vs bl1 h1 = Inr (bl2, h2)" "grows h1 bl1 (concat (map rep vs)) h2 bl2"
    using Cons.IH [OF grows_ready [OF 1(2)]] Cons.prems(2,3) room_grows [OF Cons.prems(1) 1(2)] by auto
  show ?case using 1(1) 2(1) grows_trans [OF 1(2) 2(2)] by simp
qed (simp add: grows_refl)

lemma array_reads:
  assumes "cursor h bl it" and "list_all dom vs" and "remains h bl it = concat (map rep vs) @ ys"
  shows "\<exists>it'. decode_array_nohead dec (length vs) h bl it = Inr (vs, it') \<and> cursor h bl it' \<and> remains h bl it' = ys"
  using assms
proof (induction vs arbitrary: it)
  case (Cons v vs)
  obtain it1 where 1: "dec h bl it = Inr (v, it1)" "cursor h bl it1" "remains h bl it1 = concat (map rep vs) @ ys"
    using dec_reads [OF Cons.prems(1), of v "concat (map rep vs) @ ys"] Cons.prems(2,3) by auto
  then show ?case using Cons.IH [OF 1(2)] Cons.prems(2) by auto
qed simp

lemma insert_reads:
  assumes "cursor h bl it" and "list_all dom vs" and "remains h bl it = concat (map rep vs) @ ys"
  shows "\<exists>it'. decode_insert_loop ins dec (length vs) s h bl it = Inr (fold ins vs s, it') \<and>
    cursor h bl it' \<and> remains h bl it' = ys"
  using assms
proof (induction vs arbitrary: it s)
  case (Cons v vs)
  obtain it1 where 1: "dec h bl it = Inr (v, it1)" "cursor h bl it1" "remains h bl it1 = concat (map rep vs) @ ys"
    using dec_reads [OF Cons.prems(1), of v "concat (map rep vs) @ ys"] Cons.prems(2,3) by auto
  then show ?case using Cons.IH [OF 1(2)] Cons.prems(2) by auto
qed simp

end

subsection \<open>Base types\<close>

lemma decode_raw_map:
  assumes "cursor h bl it" and "remains h bl it = xs @ ys" and "length xs = n"
  shows "\<exists>it'. map_sum (\<lambda>e. e) (\<lambda>(bs, p). (f bs, p)) (decode_raw n h bl it) = Inr (f xs, it') \<and>
    cursor h bl it' \<and> remains h bl it' = ys"
  using decode_raw_reads [OF assms(1,2)] assms(3) by auto

interpretation u8_codec: codec encode_u8 decode_u8 "\<lambda>v. [v]" "\<lambda>_. True"
  by unfold_locales
    (auto simp: encode_u8_def decode_u8_def intro: encode_raw_grows dest: decode_raw_map [of _ _ _ "[_]" _ 1 hd])

interpretation u16_codec: codec "encode_u16 e" "decode_u16 e'" le_bytes "\<lambda>_. True" for e e'
  by unfold_locales
    (simp_all add: encode_u16_def decode_u16_def encode_raw_grows,
     drule (1) decode_raw_map [where f = "le16_val e'" and n = 2], simp_all)

interpretation u32_codec: codec "encode_u32 e" "decode_u32 e'" le_bytes "\<lambda>_. True" for e e'
  by unfold_locales
    (simp_all add: encode_u32_def decode_u32_def encode_raw_grows,
     drule (1) decode_raw_map [where f = "le32_val e'" and n = 4], simp_all)

interpretation u64_codec: codec "encode_u64 e" "decode_u64 e'" le_bytes "\<lambda>_. True" for e e'
  by unfold_locales
    (simp_all add: encode_u64_def decode_u64_def encode_raw_grows,
     drule (1) decode_raw_map [where f = "le64_val e'" and n = 8], simp_all)

interpretation bool_codec: codec encode_bool decode_bool "\<lambda>v. [if v then 1 else 0]" "\<lambda>_. True"
proof
  fix h bl it and v :: bool and ys
  assume c: "cursor h bl it" and r: "remains h bl it = [if v then 1 else 0] @ ys"
  from u8_codec.dec_reads [OF c TrueI r]
  show "\<exists>it'. decode_bool h bl it = Inr (v, it') \<and> cursor h bl it' \<and> remains h bl it' = ys"
    by (auto simp: decode_bool_def split: if_splits)
qed (simp add: encode_bool_def encode_raw_grows)

subsection \<open>Strings\<close>

text \<open>On well-formed lists both copies read the same bytes.\<close>

lemma copy_string_loop_eq:
  assumes "heap_ok h" and "segs_ok h ps" and "iter_ok ps it"
  shows "copy_string_loop h ps len it = copy_loop h ps len it"
  using assms(3)
proof (induction len arbitrary: it rule: less_induct)
  case (less len)
  show ?case
  proof (cases "len = 0 \<or> iter_end ps it")
    case True
    then show ?thesis by (auto simp: copy_string_loop.simps [of h ps len] copy_loop.simps [of h ps len])
  next
    case False
    have ne: "ip it < length ps" using False less.prems by (auto simp: iter_end_def iter_ok_def)
    let ?p = "ps ! ip it"
    let ?k = "min len (plen ?p - ip_off it)"
    have p: "ptr_ok h ?p" "0 < plen ?p" "praw ?p \<noteq> None" and off: "ip_off it < plen ?p"
      using segs_ok_nth [OF assms(2) ne] segs_raw less.prems ne by (auto simp: iter_ok_def)
    have k: "0 < ?k" "?k \<le> len" "ip_off it + ?k \<le> plen ?p" using False off by auto
    have "ioff it + ?k \<le> total_len ps"
      using less.prems k(3) total_len_take_le [of "Suc (ip it)" ps] total_len_take_Suc [OF ne]
      by (simp add: iter_ok_def)
    then obtain it1 where it1: "advance ps (int ?k) it = Inr it1" "iter_ok ps it1"
      using advance_ok [OF assms(2) less.prems] by blast
    have out: "ptr_copy_out h ?p (ip_off it) ?k = Inr (take ?k (drop (ip_off it) (ptr_c_str h ?p)))"
      using p(3) k(3) ptr_ok_bound [OF assms(1) p(1)] by (simp add: ptr_copy_out_def)
    have "copy_string_loop h ps (len - ?k) it1 = copy_loop h ps (len - ?k) it1"
      using less.IH [of "len - ?k" it1] k(1,2) False it1(2) by auto
    then show ?thesis
      using False p(2) k(1) it1(1) out
      by (subst copy_string_loop.simps, subst copy_loop.simps)
        (auto simp: Let_def simp del: min_less_iff_conj split: sum.splits)
  qed
qed

lemma copy_string_eq:
  assumes "cursor h bl it"
  shows "copy_string n h bl it = decode_raw n h bl it"
proof -
  have ok: "heap_ok h" "segs_ok h (buffers bl)" "iter_ok (buffers bl) it"
    using assms by (simp_all add: cursor_def list_ok_def)
  obtain it0 where it0: "(if iter_end (buffers bl) it then seek (buffers bl) (ioff it) else Inr it) = Inr it0"
    "iter_ok (buffers bl) it0"
    using seek_ok [OF ok(2) iter_ok_le [OF ok(3)]] ok(3) by (cases "iter_end (buffers bl) it") auto
  then show ?thesis
    using copy_string_loop_eq [OF ok(1,2) it0(2)] by (simp add: copy_string_def decode_raw_def iter_copy_def)
qed

definition string_bytes :: "byte list \<Rightarrow> byte list" where
  "string_bytes s = le_bytes (of_nat (length s) :: u32) @ s"

interpretation string_codec: codec "encode_string e" "decode_string e'" string_bytes "\<lambda>s. length s < 2 ^ 32" for e e'
proof
  fix h bl and v :: "byte list"
  assume 1: "ready h bl" and 2: "length v < 2 ^ 32" and 3: "room bl (length (string_bytes v))"
  show "\<exists>bl' h'. encode_string e v bl h = Inr (bl', h') \<and> grows h bl (string_bytes v) h' bl'"
    unfolding encode_string_def string_bytes_def Let_def
    by (rule then_grows [OF 1]) (use 1 2 3 in \<open>simp_all add: string_bytes_def u32_codec.enc_grows encode_raw_grows unat_of_nat\<close>)
next
  fix h bl it and v ys :: "byte list"
  assume 1: "cursor h bl it" and 2: "length v < 2 ^ 32" and 3: "remains h bl it = string_bytes v @ ys"
  have 4: "remains h bl it = le_bytes (of_nat (length v) :: u32) @ v @ ys" using 3 by (simp add: string_bytes_def)
  show "\<exists>it'. decode_string e' h bl it = Inr (v, it') \<and> cursor h bl it' \<and> remains h bl it' = ys"
    unfolding decode_string_def
    by (rule then_reads [OF u32_codec.dec_reads [OF 1 TrueI 4]])
      (use 2 decode_raw_reads in \<open>simp add: copy_string_eq unat_of_nat\<close>)
qed

subsection \<open>Containers\<close>

definition counted :: "('a \<Rightarrow> byte list) \<Rightarrow> 'a list \<Rightarrow> byte list" where
  "counted rep vs = le_bytes (of_nat (length vs) :: u32) @ concat (map rep vs)"

text \<open>Inserting the elements of an ordered container in order rebuilds it.\<close>

lemma set_insert_last: "\<forall>y \<in> set ys. y < x \<Longrightarrow> set_insert x ys = ys @ [x]"
  by (induction ys) auto

lemma multiset_insert_last: "\<forall>y \<in> set ys. y \<le> x \<Longrightarrow> multiset_insert x ys = ys @ [x]"
  by (induction ys) auto

lemma omap_put_last: "\<forall>e \<in> set m. fst e < k \<Longrightarrow> omap_put k v m = m @ [(k, v)]"
  using omap_put_split(1) [of m k "[]"] by simp

lemma fold_set_insert: "sorted_wrt (<) (ys @ xs) \<Longrightarrow> fold set_insert xs ys = ys @ xs"
proof (induction xs arbitrary: ys)
  case (Cons x xs)
  then have "set_insert x ys = ys @ [x]" by (intro set_insert_last) (auto simp: sorted_wrt_append)
  then show ?case using Cons.IH [of "ys @ [x]"] Cons.prems by simp
qed simp

lemma fold_multiset_insert: "sorted (ys @ xs) \<Longrightarrow> fold multiset_insert xs ys = ys @ xs"
proof (induction xs arbitrary: ys)
  case (Cons x xs)
  then have "multiset_insert x ys = ys @ [x]" by (intro multiset_insert_last) (auto simp: sorted_append)
  then show ?case using Cons.IH [of "ys @ [x]"] Cons.prems by simp
qed simp

lemma fold_omap_put: "omap_sorted (m @ m') \<Longrightarrow> fold (\<lambda>(k, v). omap_put k v) m' m = m @ m'"
proof (induction m' arbitrary: m)
  case (Cons e m')
  obtain k v where e: "e = (k, v)" by (cases e)
  have "omap_put k v m = m @ [(k, v)]" using Cons.prems e by (intro omap_put_last) auto
  then show ?case using Cons.IH [of "m @ [(k, v)]"] Cons.prems e by simp
qed simp

lemma decode_list_loop_insert: "decode_list_loop dec n ls h bl p = decode_insert_loop (\<lambda>v ls. ls @ [v]) dec n ls h bl p"
  by (induction n arbitrary: ls p) (simp_all split: sum.splits prod.splits)

lemma fold_snoc: "fold (\<lambda>v ls. ls @ [v]) vs ls = ls @ vs"
  by (induction vs arbitrary: ls) simp_all

context codec
begin

lemma counted_grows:
  assumes "ready h bl" and "list_all dom vs" and "room bl (length (counted rep vs))"
  shows "\<exists>bl' h'. (case encode_u32 e (of_nat (length vs)) bl h of Inl err \<Rightarrow> Inl err
      | Inr (bl, h) \<Rightarrow> encode_array_nohead enc vs bl h) = Inr (bl', h') \<and> grows h bl (counted rep vs) h' bl'"
  unfolding counted_def
  by (rule then_grows [OF assms(1)])
    (use assms in \<open>simp_all add: counted_def u32_codec.enc_grows array_grows\<close>)

lemma counted_reads:
  assumes "cursor h bl it" and "list_all dom vs" and "length vs < 2 ^ 32" and "fold ins vs s = w"
    and "remains h bl it = counted rep vs @ ys"
  shows "\<exists>it'. (case decode_u32 e' h bl it of Inl err \<Rightarrow> Inl err
      | Inr (n, p) \<Rightarrow> decode_insert_loop ins dec (unat n) s h bl p) = Inr (w, it') \<and>
    cursor h bl it' \<and> remains h bl it' = ys"
proof -
  have r: "remains h bl it = le_bytes (of_nat (length vs) :: u32) @ concat (map rep vs) @ ys"
    using assms(5) by (simp add: counted_def)
  show ?thesis
    by (rule then_reads [OF u32_codec.dec_reads [OF assms(1) TrueI r]])
      (use insert_reads [OF _ assms(2), of h bl _ ys ins s] assms(3,4) in \<open>auto simp: unat_of_nat\<close>)
qed

lemma vector_codec:
  "codec (encode_vector e enc) (decode_vector e' dec) (counted rep) (\<lambda>vs. list_all dom vs \<and> length vs < 2 ^ 32)"
proof
  fix h bl vs
  assume "ready h bl" "list_all dom vs \<and> length vs < 2 ^ 32" "room bl (length (counted rep vs))"
  then show "\<exists>bl' h'. encode_vector e enc vs bl h = Inr (bl', h') \<and> grows h bl (counted rep vs) h' bl'"
    unfolding encode_vector_def using counted_grows by blast
next
  fix h bl it vs ys
  assume 1: "cursor h bl it" and 2: "list_all dom vs \<and> length vs < 2 ^ 32"
    and 3: "remains h bl it = counted rep vs @ ys"
  have r: "remains h bl it = le_bytes (of_nat (length vs) :: u32) @ concat (map rep vs) @ ys"
    using 3 by (simp add: counted_def)
  show "\<exists>it'. decode_vector e' dec h bl it = Inr (vs, it') \<and> cursor h bl it' \<and> remains h bl it' = ys"
    unfolding decode_vector_def
    by (rule then_reads [OF u32_codec.dec_reads [OF 1 TrueI r]])
      (use array_reads [of h bl] 2 in \<open>simp add: unat_of_nat\<close>)
qed

lemma deque_codec:
  "codec (encode_deque e enc) (decode_deque e' dec) (counted rep) (\<lambda>vs. list_all dom vs \<and> length vs < 2 ^ 32)"
  by (unfold_locales; unfold encode_deque_def decode_deque_def decode_list_loop_insert)
    (auto simp: fold_snoc intro!: counted_grows counted_reads)

text \<open>Counting the elements of a list on the way and patching the count in.\<close>

lemma list_loop_eq:
  "encode_list_loop enc vs n bl h =
    map_sum (\<lambda>e. e) (\<lambda>(bl, h). (n + of_nat (length vs), bl, h)) (encode_array_nohead enc vs bl h)"
  by (induction vs arbitrary: n bl h) (simp_all add: algebra_simps split: sum.splits prod.splits)

lemma list_grows:
  assumes "ready h bl" and "list_all dom vs" and "room bl (length (counted rep vs))"
  shows "\<exists>bl' h'. encode_list e enc vs bl h = Inr (bl', h') \<and> grows h bl (counted rep vs) h' bl'"
proof (cases "vs = []")
  case True
  then show ?thesis using counted_grows [OF assms, unfolded True] by (simp add: encode_list_def)
next
  case False
  let ?n = "of_nat (length vs) :: u32" and ?r = "concat (map rep vs)" and ?c = "contents h bl"
  have "room bl (length (le_bytes (0 :: u32) @ ?r))" using assms(3) by (simp add: counted_def)
  note seq = then_grows [OF assms(1) this, of "encode_u32 e 0" "encode_array_nohead enc vs"]
  obtain bl1 h1 bl2 h2 where e0: "encode_u32 e 0 bl h = Inr (bl1, h1)"
    and ea: "encode_array_nohead enc vs bl1 h1 = Inr (bl2, h2)"
    and g: "grows h bl (le_bytes (0 :: u32) @ ?r) h2 bl2"
    using seq assms u32_codec.enc_grows array_grows by (fastforce split: sum.splits prod.splits)
  have ok2: "list_ok h2 bl2" "separate (buffers bl2)" "contents h2 bl2 = ?c @ le_bytes (0 :: u32) @ ?r"
    using g by (simp_all add: grows_def ready_def)
  have pos: "length ?c = blen bl" using ready_blen [OF assms(1)] .
  obtain h3 where h3: "bl_copy_in (blen bl) (le32_mem e ?n) bl2 h2 = Inr h3" "list_ok h3 bl2"
    "contents h3 bl2 = take (blen bl) (contents h2 bl2) @ le_bytes ?n @ drop (blen bl + 4) (contents h2 bl2)"
    using bl_copy_in_ok [OF ok2(1,2), of "blen bl" "le_bytes ?n"] grows_blen [OF assms(1) g] by auto
  have "contents h3 bl2 = ?c @ counted rep vs"
    using h3(3) ok2(3) pos by (simp add: counted_def)
  then have "grows h bl (counted rep vs) h3 bl2" using g h3(2) ok2(2) by (simp add: grows_def ready_def)
  moreover have "encode_list e enc vs bl h = Inr (bl2, h3)"
    using False e0 ea h3(1) by (simp add: encode_list_def list_loop_eq)
  ultimately show ?thesis by blast
qed

lemma list_codec:
  "codec (encode_list e enc) (decode_list e' dec) (counted rep) (\<lambda>vs. list_all dom vs \<and> length vs < 2 ^ 32)"
  by (unfold_locales; (unfold decode_list_def decode_list_loop_insert)?)
    (auto simp: fold_snoc intro!: list_grows counted_reads)

end

text \<open>Sets and multisets need an order on their elements.\<close>

locale ordered_codec = codec enc dec rep dom
  for enc :: "'a::linorder encoder" and dec :: "'a decoder" and rep and dom
begin

lemma set_codec:
  "codec (encode_set e enc) (decode_set e' dec) (counted rep)
    (\<lambda>vs. list_all dom vs \<and> length vs < 2 ^ 32 \<and> sorted_wrt (<) vs)"
  by unfold_locales
    (auto simp: encode_set_def decode_set_def fold_set_insert [of "[]", simplified]
      intro!: counted_grows counted_reads)

lemma multiset_codec:
  "codec (encode_multiset e enc) (decode_multiset e' dec) (counted rep)
    (\<lambda>vs. list_all dom vs \<and> length vs < 2 ^ 32 \<and> sorted vs)"
  by unfold_locales
    (auto simp: encode_multiset_def decode_multiset_def fold_multiset_insert [of "[]", simplified]
      intro!: counted_grows counted_reads)

end

locale codec_pair = a: codec enca deca repa doma + b: codec encb decb repb domb
  for enca :: "'a encoder" and deca repa doma and encb :: "'b encoder" and decb repb domb
begin

lemma pair_codec:
  "codec (encode_pair enca encb) (decode_pair deca decb) (\<lambda>(x, y). repa x @ repb y) (\<lambda>(x, y). doma x \<and> domb y)"
proof
  fix h bl and v :: "'a \<times> 'b"
  assume 1: "ready h bl" and 2: "case v of (x, y) \<Rightarrow> doma x \<and> domb y"
    and 3: "room bl (length (case v of (x, y) \<Rightarrow> repa x @ repb y))"
  obtain x y where v: "v = (x, y)" by (cases v)
  show "\<exists>bl' h'. encode_pair enca encb v bl h = Inr (bl', h') \<and> grows h bl (case v of (x, y) \<Rightarrow> repa x @ repb y) h' bl'"
    unfolding encode_pair_def v prod.case
    by (rule then_grows [OF 1]) (use 1 2 3 v in \<open>simp_all add: a.enc_grows b.enc_grows\<close>)
next
  fix h bl it and v :: "'a \<times> 'b" and ys
  assume 1: "cursor h bl it" and 2: "case v of (x, y) \<Rightarrow> doma x \<and> domb y"
    and 3: "remains h bl it = (case v of (x, y) \<Rightarrow> repa x @ repb y) @ ys"
  obtain x y where v: "v = (x, y)" by (cases v)
  have d: "doma x" "domb y" "remains h bl it = repa x @ repb y @ ys" using 2 3 v by simp_all
  show "\<exists>it'. decode_pair deca decb h bl it = Inr (v, it') \<and> cursor h bl it' \<and> remains h bl it' = ys"
    unfolding decode_pair_def v
    by (rule then_reads [OF a.dec_reads [OF 1 d(1,3)]]) (use b.dec_reads [OF _ d(2)] in fastforce)
qed

end

locale map_codec = codec_pair enck deck repk domk encv decv repv domv
  for enck :: "'k::linorder encoder" and deck repk domk and encv :: "'v encoder" and decv repv domv
begin

lemma map_codec:
  "codec (encode_map e enck encv) (decode_map e' deck decv) (counted (\<lambda>(k, v). repk k @ repv v))
    (\<lambda>m. list_all (\<lambda>(k, v). domk k \<and> domv v) m \<and> length m < 2 ^ 32 \<and> omap_sorted m)"
proof -
  note c = codec.counted_grows [OF pair_codec] codec.counted_reads [OF pair_codec]
  show ?thesis
    by unfold_locales
      (auto simp: encode_map_def decode_map_def decode_map_noclear_def fold_omap_put [of "[]", simplified]
        intro!: c)
qed

end

interpretation u32_ordered: ordered_codec "encode_u32 e" "decode_u32 e'" le_bytes "\<lambda>_. True" for e e' ..

interpretation string_list: codec "encode_list e (encode_string e)" "decode_list e' (decode_string e')"
    "counted string_bytes" "\<lambda>vs. list_all (\<lambda>s. length s < 2 ^ 32) vs \<and> length vs < 2 ^ 32" for e e'
  by (rule string_codec.list_codec)

interpretation u32_string_list: map_codec "encode_u32 e" "decode_u32 e'" le_bytes "\<lambda>_. True"
    "encode_list e (encode_string e)" "decode_list e' (decode_string e')" "counted string_bytes"
    "\<lambda>vs. list_all (\<lambda>s. length s < 2 ^ 32) vs \<and> length vs < 2 ^ 32" for e e' ..

subsection \<open>Versioned structures\<close>

lemma advance_back_ok:
  assumes "segs_ok h ps" and "ip it \<le> length ps" and "ioff it = total_len (take (ip it) ps) + ip_off it"
    and "ip it < length ps \<longrightarrow> ip_off it \<le> plen (ps ! ip it)" and "ip it = length ps \<longrightarrow> ip_off it = 0" and "d \<le> ioff it"
  shows "\<exists>it'. advance_back ps d it = Inr it' \<and> ioff it' = ioff it - d \<and>
    (0 < d \<longrightarrow> iter_ok ps it' \<and> ip it' < length ps)"
  using assms
proof (induction ps d it rule: advance_back.induct)
  case (1 ps d it)
  consider "d = 0" | "0 < d" "0 < ip_off it" | "0 < d" "ip_off it = 0" "0 < ip it"
    using 1(5,8) by (cases "ip it = 0") auto
  then show ?case
  proof cases
    case 2
    let ?k = "min d (ip_off it)"
    have lt: "ip it < length ps" using 1(4,7) 2 by (cases "ip it = length ps") auto
    show ?thesis
    proof (cases "d - ?k = 0")
      case True
      then have "advance_back ps d it = Inr (it\<lparr>ip_off := ip_off it - d, ioff := ioff it - d\<rparr>)"
        using 2 by (subst advance_back.simps) (simp add: Let_def advance_back.simps [of _ 0] min_def split: if_splits)
      then show ?thesis using 1(4-8) 2 lt True by (auto simp: iter_ok_def)
    next
      case False
      then have "\<exists>it'. advance_back ps (d - ?k) (it\<lparr>ip_off := ip_off it - ?k, ioff := ioff it - ?k\<rparr>) = Inr it' \<and>
          ioff it' = ioff it - ?k - (d - ?k) \<and> (0 < d - ?k \<longrightarrow> iter_ok ps it' \<and> ip it' < length ps)"
        using 1(1) [OF _ 2(2) refl] 1(3-8) 2 by (simp add: min_def split: if_splits)
      moreover have "advance_back ps d it = advance_back ps (d - ?k) (it\<lparr>ip_off := ip_off it - ?k, ioff := ioff it - ?k\<rparr>)"
        using 2 by (subst advance_back.simps) (simp add: Let_def)
      ultimately show ?thesis using False by auto
    qed
  next
    case 3
    let ?p = "ip it - 1"
    have p: "?p < length ps" "Suc ?p = ip it" using 1(4) 3 by auto
    have len: "total_len (take (ip it) ps) = total_len (take ?p ps) + plen (ps ! ?p)"
      using total_len_take_Suc [OF p(1)] p(2) by simp
    have pos: "0 < ioff it" using 1(5) len segs_ok_nth [OF 1(3) p(1)] by simp
    have "advance_back ps d it = advance_back ps d (it\<lparr>ip := ?p, ip_off := plen (ps ! ?p)\<rparr>)"
      using 3 pos by (subst advance_back.simps) simp
    then show ?thesis using 1(2) [OF _ _ pos] 1(3-8) 3 p len by simp
  qed (simp add: advance_back.simps)
qed

lemma back_from_end:
  assumes "ready h bl" and "0 < d" and "d \<le> blen bl"
  shows "\<exists>it. advance (buffers bl) (- int d) (bl_end bl) = Inr it \<and> ioff it = blen bl - d \<and>
    iter_ok (buffers bl) it \<and> ip it < length (buffers bl)"
  using advance_back_ok [of h "buffers bl" "bl_end bl" d] assms
  by (simp add: ready_def list_ok_def bl_end_def advance_def)

definition versioned_bytes :: "byte \<Rightarrow> byte \<Rightarrow> byte list \<Rightarrow> byte list" where
  "versioned_bytes v c body = [v, c] @ le_bytes (of_nat (length body) :: u32) @ body"

lemma patch_ok:
  assumes "ready h bl" and "iter_ok (buffers bl) it" and "contents h bl = xs @ ys @ zs"
    and "ioff it = length xs" and "length src = length ys"
  shows "\<exists>h' it'. iter_copy_in (buffers bl) src it h = Inr (h', it') \<and> ready h' bl \<and> contents h' bl = xs @ src @ zs"
proof -
  have ok: "heap_ok h" "segs_ok h (buffers bl)" "separate (buffers bl)" "list_ok h bl"
    using assms(1) by (simp_all add: ready_def list_ok_def)
  have "ioff it + length src \<le> total_len (buffers bl)"
    using length_contents [OF ok(4)] ok(4) assms(3-5) by (simp add: list_ok_def)
  from iter_copy_in_ok [OF ok(1-3) assms(2) this] obtain h' it' where
    r: "iter_copy_in (buffers bl) src it h = Inr (h', it')" "heap_ok h'" "same_shape h h'"
    "contents h' bl = take (ioff it) (contents h bl) @ src @ drop (ioff it + length src) (contents h bl)"
    by (auto simp: Let_def contents_def)
  moreover have "ready h' bl"
    using assms(1) r(2) same_shape_ok [OF r(3)] by (simp add: ready_def list_ok_def)
  ultimately show ?thesis using assms(3-5) by simp
qed

text \<open>An iterator that is not at the end stays where it is while the list grows.\<close>

lemma grows_iter_ok:
  "grows h bl bs h' bl' \<Longrightarrow> iter_ok (buffers bl) it \<Longrightarrow> ip it < length (buffers bl) \<Longrightarrow>
    iter_ok (buffers bl') it \<and> ip it < length (buffers bl')"
  using grown_iter_ok [of "buffers bl" "buffers bl'" it] by (auto simp: grows_def grown_def)

lemma ENCODE_START_ok:
  assumes "ready h bl" and "room bl 6"
  shows "\<exists>cit lit bl' h'. ENCODE_START e v c bl h = Inr (cit, lit, bl', h') \<and>
    grows h bl (v # c # le_bytes (0 :: u32)) h' bl' \<and>
    iter_ok (buffers bl') cit \<and> ip cit < length (buffers bl') \<and> ioff cit = blen bl + 1 \<and>
    iter_ok (buffers bl') lit \<and> ip lit < length (buffers bl') \<and> ioff lit = blen bl + 2"
proof -
  obtain bl1 h1 where 1: "encode_u8 v bl h = Inr (bl1, h1)" "grows h bl [v] h1 bl1"
    using u8_codec.enc_grows [OF assms(1) TrueI, of v] room_mono [OF assms(2), of 1] by auto
  note r1 = grows_ready [OF 1(2)] and l1 = grows_blen [OF assms(1) 1(2)]
  obtain bl2 h2 where 2: "encode_u8 c bl1 h1 = Inr (bl2, h2)" "grows h1 bl1 [c] h2 bl2"
    using u8_codec.enc_grows [OF r1 TrueI, of c] room_grows [OF assms(1) 1(2), of 1] room_mono [OF assms(2), of "Suc (Suc 0)"] by auto
  note r2 = grows_ready [OF 2(2)] and l2 = grows_blen [OF r1 2(2)] and g2 = grows_trans [OF 1(2) 2(2)]
  obtain cit where cit: "advance (buffers bl2) (- 1) (bl_end bl2) = Inr cit" "ioff cit = blen bl + 1"
    "iter_ok (buffers bl2) cit" "ip cit < length (buffers bl2)"
    using back_from_end [OF r2, of 1] l1 l2 by auto
  obtain bl3 h3 where 3: "encode_u32 e 0 bl2 h2 = Inr (bl3, h3)" "grows h2 bl2 (le_bytes (0 :: u32)) h3 bl3"
    using u32_codec.enc_grows [where e = e, OF r2 TrueI, of 0] room_grows [OF assms(1) g2, of 4] assms(2) by auto
  note r3 = grows_ready [OF 3(2)] and l3 = grows_blen [OF r2 3(2)] and g3 = grows_trans [OF g2 3(2)]
  obtain lit where lit: "advance (buffers bl3) (- 4) (bl_end bl3) = Inr lit" "ioff lit = blen bl + 2"
    "iter_ok (buffers bl3) lit" "ip lit < length (buffers bl3)"
    using back_from_end [OF r3, of 4] l1 l2 l3 by auto
  have "ENCODE_START e v c bl h = Inr (cit, lit, bl3, h3)"
    using 1(1) 2(1) cit(1) 3(1) lit(1) by (simp add: ENCODE_START_def)
  then show ?thesis using g3 grows_iter_ok [OF 3(2) cit(3,4)] cit(2) lit(2-4) by auto
qed

lemma ENCODE_FINISH_ok:
  assumes g: "grows h bl (v # c # le_bytes (0 :: u32) @ body) h1 bl1" and "ready h bl"
    and cit: "iter_ok (buffers bl1) cit" "ioff cit = blen bl + 1"
    and lit: "iter_ok (buffers bl1) lit" "ioff lit = blen bl + 2"
  shows "\<exists>bl' h'. ENCODE_FINISH_NEW_COMPAT e nc cit lit bl1 h1 = Inr (bl', h') \<and>
    grows h bl (versioned_bytes v (if nc = 0 then c else nc) body) h' bl'"
proof -
  let ?n = "of_nat (length body) :: u32" and ?pre = "contents h bl"
  have pre: "length ?pre = blen bl" using ready_blen [OF assms(2)] .
  have len: "of_nat (blen bl1) - of_nat (ioff lit) - 4 = ?n"
    using grows_blen [OF assms(2) g] lit(2) by simp
  have r1: "ready h1 bl1" and c1: "contents h1 bl1 = ?pre @ v # c # le_bytes (0 :: u32) @ body"
    using g by (simp_all add: grows_def)
  obtain h2 it2 where 2: "iter_copy_in (buffers bl1) (le32_mem e ?n) lit h1 = Inr (h2, it2)" "ready h2 bl1"
    "contents h2 bl1 = (?pre @ [v, c]) @ le_bytes ?n @ body"
    using patch_ok [OF r1 lit(1), of "?pre @ [v, c]" "le_bytes (0 :: u32)" body "le_bytes ?n"] c1 lit(2) pre by auto
  show ?thesis
  proof (cases "nc = 0")
    case True
    then show ?thesis
      using len 2 g by (simp add: ENCODE_FINISH_NEW_COMPAT_def Let_def grows_def versioned_bytes_def)
  next
    case False
    obtain h3 it3 where 3: "iter_copy_in (buffers bl1) [nc] cit h2 = Inr (h3, it3)" "ready h3 bl1"
      "contents h3 bl1 = (?pre @ [v]) @ [nc] @ le_bytes ?n @ body"
      using patch_ok [OF 2(2) cit(1), of "?pre @ [v]" "[c]" "le_bytes ?n @ body" "[nc]"] 2(3) cit(2) pre by auto
    then show ?thesis
      using len 2(1) 3 g False by (simp add: ENCODE_FINISH_NEW_COMPAT_def Let_def grows_def versioned_bytes_def)
  qed
qed

context codec
begin

lemma versioned_grows:
  assumes "ready h bl" and "dom x" and "room bl (6 + length (rep x))"
  shows "\<exists>bl' h'. encode_versioned e v c nc enc x bl h = Inr (bl', h') \<and>
    grows h bl (versioned_bytes v (if nc = 0 then c else nc) (rep x)) h' bl'"
proof -
  obtain cit lit bl1 h1 where 1: "ENCODE_START e v c bl h = Inr (cit, lit, bl1, h1)"
    "grows h bl (v # c # le_bytes (0 :: u32)) h1 bl1"
    "iter_ok (buffers bl1) cit" "ip cit < length (buffers bl1)" "ioff cit = blen bl + 1"
    "iter_ok (buffers bl1) lit" "ip lit < length (buffers bl1)" "ioff lit = blen bl + 2"
    using ENCODE_START_ok [OF assms(1)] room_mono [OF assms(3), of 6] by fastforce
  have "room bl1 (length (rep x))" using room_grows [OF assms(1) 1(2)] assms(3) by simp
  then obtain bl2 h2 where 2: "enc x bl1 h1 = Inr (bl2, h2)" "grows h1 bl1 (rep x) h2 bl2"
    using enc_grows [OF grows_ready [OF 1(2)] assms(2)] by blast
  have "grows h bl (v # c # le_bytes (0 :: u32) @ rep x) h2 bl2" using grows_trans [OF 1(2) 2(2)] by simp
  then show ?thesis
    using ENCODE_FINISH_ok [OF _ assms(1), of v c "rep x" h2 bl2 cit lit e nc]
      grows_iter_ok [OF 2(2) 1(3,4)] grows_iter_ok [OF 2(2) 1(6,7)] 1(1,5,8) 2(1)
    by (simp add: encode_versioned_def)
qed

end

lemma cursor_ioff: "cursor h bl it \<Longrightarrow> ioff it + length (remains h bl it) = blen bl"
  using length_contents [of h bl] iter_ok_le [of "buffers bl" it] by (simp add: cursor_def remains_def list_ok_def)

lemma DECODE_START_ok:
  assumes "cursor h bl it" and "remains h bl it = versioned_bytes v c body @ ys" and "length body < 2 ^ 32"
  shows "v' < unat c \<Longrightarrow> DECODE_START e v' h bl it = Inl Malformed_input"
    and "unat c \<le> v' \<Longrightarrow> \<exists>it'. DECODE_START e v' h bl it = Inr (v, ioff it' + length body, it') \<and>
      cursor h bl it' \<and> remains h bl it' = body @ ys \<and> 0 < ioff it'"
proof -
  have rem: "remains h bl it = [v] @ [c] @ le_bytes (of_nat (length body) :: u32) @ body @ ys"
    using assms(2) by (simp add: versioned_bytes_def)
  obtain it1 where 1: "decode_u8 h bl it = Inr (v, it1)" "cursor h bl it1"
    "remains h bl it1 = [c] @ le_bytes (of_nat (length body) :: u32) @ body @ ys"
    using u8_codec.dec_reads [OF assms(1) TrueI rem] by blast
  obtain it2 where 2: "decode_u8 h bl it1 = Inr (c, it2)" "cursor h bl it2"
    "remains h bl it2 = le_bytes (of_nat (length body) :: u32) @ body @ ys"
    using u8_codec.dec_reads [OF 1(2) TrueI 1(3)] by blast
  show "v' < unat c \<Longrightarrow> DECODE_START e v' h bl it = Inl Malformed_input"
    using 1(1) 2(1) by (simp add: DECODE_START_def)
  obtain it3 where 3: "decode_u32 e h bl it2 = Inr (of_nat (length body), it3)" "cursor h bl it3"
    "remains h bl it3 = body @ ys"
    using u32_codec.dec_reads [OF 2(2) TrueI 2(3)] by blast
  have n: "unat (of_nat (length body) :: u32) = length body" using assms(3) by (simp add: unat_of_nat)
  have "get_remaining bl it3 = length body + length ys" using cursor_remaining [OF 3(2)] 3(3) by simp
  moreover have "ioff it3 + length body < 2 ^ 32" "0 < ioff it3"
    using cursor_ioff [OF 3(2)] cursor_ioff [OF assms(1)] 3(2,3) rem by (auto simp: cursor_def list_ok_def)
  ultimately show "\<exists>it'. DECODE_START e v' h bl it = Inr (v, ioff it' + length body, it') \<and>
      cursor h bl it' \<and> remains h bl it' = body @ ys \<and> 0 < ioff it'" if "unat c \<le> v'"
    using that 1(1) 2(1) 3 n by (simp add: DECODE_START_def)
qed

lemma DECODE_FINISH_ok:
  assumes "cursor h bl it" and "remains h bl it = extra @ ys" and "0 < ioff it + length extra"
  shows "\<exists>it'. DECODE_FINISH (ioff it + length extra) bl it = Inr it' \<and> cursor h bl it' \<and> remains h bl it' = ys"
  using cursor_advance [OF assms(1,2)] assms by (cases "extra = []") (auto simp: DECODE_FINISH_def)

context codec
begin

text \<open>The reader need not know everything the writer put into the structure.\<close>

lemma versioned_reads:
  assumes "cursor h bl it" and "dom x" and "remains h bl it = versioned_bytes v c (rep x @ extra) @ ys"
    and "length (rep x @ extra) < 2 ^ 32" and "unat c \<le> v'"
  shows "\<exists>it'. decode_versioned e v' (\<lambda>_. dec) h bl it = Inr (x, it') \<and> cursor h bl it' \<and> remains h bl it' = ys"
proof -
  obtain it1 where 1: "DECODE_START e v' h bl it = Inr (v, ioff it1 + length (rep x @ extra), it1)"
    "cursor h bl it1" "remains h bl it1 = rep x @ extra @ ys" "0 < ioff it1"
    using DECODE_START_ok(2) [OF assms(1,3,4,5)] by auto
  obtain it2 where 2: "dec h bl it1 = Inr (x, it2)" "cursor h bl it2" "remains h bl it2 = extra @ ys"
    using dec_reads [OF 1(2) assms(2) 1(3)] by blast
  have "ioff it2 = ioff it1 + length (rep x)" using cursor_ioff [OF 1(2)] cursor_ioff [OF 2(2)] 1(3) 2(3) by simp
  then show ?thesis using 1 2 DECODE_FINISH_ok [OF 2(2,3)] by (auto simp: decode_versioned_def add.assoc)
qed

end

subsection \<open>Buffer lists\<close>

lemma append_list_ok:
  assumes "list_ok h bl" and "segs_ok h (buffers s)" and "blen s = total_len (buffers s)"
    and "blen bl + blen s < 2 ^ 32" and "\<forall>p \<in> set (buffers s). clear_of bl p"
  shows "list_ok h (append_list s bl)" and "contents h (append_list s bl) = contents h bl @ contents h s"
  using assms by (auto simp: list_ok_def append_list_def tail_ok_def clear_of_def contents_def)

lemma append_gap_heap:
  assumes "append_gap bs bl h = Inr (bl', h')"
  shows "length (raws h') = length (raws h) \<and> praw (append_buffer bl') = praw (append_buffer bl)"
  using assms
  by (auto simp: append_gap_def ptr_append_def append_range_def push_back_def Let_def split: option.splits if_splits sum.splits)

lemma append_loop_buffer:
  assumes "append_loop n data bl h = Some (Inr (bl', h'))"
  shows "praw (append_buffer bl') = praw (append_buffer bl) \<or> (\<exists>a \<ge> length (raws h). praw (append_buffer bl') = Some a)"
  using assms
proof (induction n data bl h rule: append_loop.induct)
  case (2 n data bl h)
  let ?gap = "min (unused_tail_length h (append_buffer bl)) (length data)"
  show ?case
  proof (cases "data = []")
    case False
    obtain bl1 h1 where g: "(if ?gap > 0 then append_gap (take ?gap data) bl h else Inr (bl, h)) = Inr (bl1, h1)"
      using 2(2) False by (cases "(if ?gap > 0 then append_gap (take ?gap data) bl h else Inr (bl, h))")
        (auto simp: Let_def)
    then have s1: "length (raws h1) = length (raws h) \<and> praw (append_buffer bl1) = praw (append_buffer bl)"
      using append_gap_heap by (cases "?gap > 0") auto
    show ?thesis
    proof (cases "drop ?gap data = []")
      case True
      then show ?thesis using 2(2) False g s1 by (auto simp: Let_def)
    next
      case more: False
      let ?alen = "w32 (MSGR_PAGE_SIZE * ((length (drop ?gap data) - 1) div MSGR_PAGE_SIZE + 1))"
      obtain bl2 h2 where ab: "new_append_buffer ?alen bl1 h1 = Inr (bl2, h2)"
        "append_loop n (drop ?gap data) bl2 h2 = Some (Inr (bl', h'))"
        using 2(2) False g more by (auto simp: Let_def split: sum.splits prod.splits)
      have "praw (append_buffer bl2) = Some (length (raws h1)) \<and> length (raws h1) \<le> length (raws h2)"
        using ab(1) by (auto simp: new_append_buffer_def create_page_aligned_def create_aligned_def new_raw_def
            ptr_of_raw_def split: if_splits)
      then show ?thesis
        using 2(1) [OF False refl g refl refl more ab(1) refl ab(2)] s1 by auto
    qed
  qed (use 2 in auto)
qed simp

text \<open>A destination with its own (or no) append buffer takes up the windows that are read.\<close>

lemma copy_list_loop_ok:
  assumes "heap_ok h" and "segs_ok h ps" and "iter_ok ps it" and "ioff it + len \<le> total_len ps"
    and "list_ok h dest" and "praw (append_buffer dest) = None" and "blen dest + len < 2 ^ 32"
  shows "\<exists>dest' it'. copy_list_loop ps len it dest = Inr (dest', it') \<and> list_ok h dest' \<and>
    contents h dest' = contents h dest @ take len (drop (ioff it) (concat (map (bytes h) ps))) \<and>
    iter_ok ps it' \<and> ioff it' = ioff it + len"
  using assms(3-)
proof (induction len arbitrary: it dest rule: less_induct)
  case (less len)
  show ?case
  proof (cases "len = 0")
    case True
    then show ?thesis using less.prems by (simp add: copy_list_loop.simps)
  next
    case False
    have ne: "\<not> iter_end ps it" "ip it < length ps"
      using False less.prems iter_ok_end [OF assms(2) less.prems(1)] by (auto simp: iter_end_def iter_ok_def)
    let ?p = "ps ! ip it" and ?c = "concat (map (bytes h) ps)"
    define k where "k = min len (plen ?p - ip_off it)"
    have p: "ptr_ok h ?p" "praw ?p \<noteq> None" and off: "ip_off it < plen ?p"
      using segs_ok_nth [OF assms(2) ne(2)] segs_raw less.prems(1) ne(2) by (auto simp: iter_ok_def)
    have k: "0 < k" "k \<le> len" "ip_off it + k \<le> plen ?p" using False off by (auto simp: k_def)
    obtain d1 where d1: "append_range ?p (ip_off it) k dest = Inr d1" "list_ok h d1"
      "contents h d1 = contents h dest @ take k (drop (ip_off it) (bytes h ?p))" "append_buffer d1 = append_buffer dest"
      using append_range_ok [OF less.prems(3) p k(3)] less.prems(4,5) k(2) by (auto simp: clear_of_def)
    obtain it1 where it1: "advance ps (int k) it = Inr it1" "iter_ok ps it1" "ioff it1 = ioff it + k"
      using advance_ok [OF assms(2) less.prems(1), of k] less.prems(2) k(2) by auto
    have w: "take k (drop (ip_off it) (bytes h ?p)) = take k (drop (ioff it) ?c)"
      using window_of_contents [OF assms(2) less.prems(1) ne(2), of k] k(3) by simp
    have "blen d1 = blen dest + k"
      using length_contents [OF d1(2)] length_contents [OF less.prems(3)] d1(3) k(3) length_bytes [OF p(1)] by simp
    then obtain d2 it2 where d2: "copy_list_loop ps (len - k) it1 d1 = Inr (d2, it2)" "list_ok h d2"
      "contents h d2 = contents h d1 @ take (len - k) (drop (ioff it1) ?c)" "iter_ok ps it2"
      "ioff it2 = ioff it1 + (len - k)"
      using less.IH [of "len - k" it1 d1] k(1,2) False it1 d1(2,4) less.prems(2,4,5) by auto
    have "take k (drop (ioff it) ?c) @ take (len - k) (drop (ioff it1) ?c) = take len (drop (ioff it) ?c)"
      using take_add [of k "len - k" "drop (ioff it) ?c"] k(2) it1(3) by (simp add: add.commute)
    moreover have "copy_list_loop ps len it dest = Inr (d2, it2)"
      using False ne(1) k(1) d1(1) it1(1) d2(1)
      by (subst copy_list_loop.simps) (simp add: Let_def flip: k_def)
    ultimately show ?thesis using d2 d1(3) w it1(3) k(2) by simp
  qed
qed

lemma copy_list_ok:
  assumes "cursor h bl it" and "remains h bl it = xs @ ys"
    and "list_ok h dest" and "praw (append_buffer dest) = None" and "blen dest + length xs < 2 ^ 32"
  shows "\<exists>dest' it'. copy_list (length xs) dest bl it = Inr (dest', it') \<and> list_ok h dest' \<and>
    contents h dest' = contents h dest @ xs \<and> cursor h bl it' \<and> remains h bl it' = ys"
proof -
  have ok: "heap_ok h" "segs_ok h (buffers bl)" "iter_ok (buffers bl) it" "blen bl = total_len (buffers bl)"
    using assms(1) by (simp_all add: cursor_def list_ok_def)
  obtain it0 where it0: "(if iter_end (buffers bl) it then seek (buffers bl) (ioff it) else Inr it) = Inr it0"
    "iter_ok (buffers bl) it0" "ioff it0 = ioff it"
    using seek_ok [OF ok(2) iter_ok_le [OF ok(3)]] ok(3) by (cases "iter_end (buffers bl) it") auto
  have fits: "ioff it0 + length xs \<le> total_len (buffers bl)"
    using cursor_ioff [OF assms(1)] assms(2) it0(3) ok(4) by simp
  have "drop (ioff it + length xs) (contents h bl) = ys"
    using assms(2) by (metis add.commute append_eq_conv_conj drop_drop remains_def)
  moreover have "take (length xs) (drop (ioff it) (contents h bl)) = xs" using assms(2) by (simp add: remains_def)
  ultimately show ?thesis
    using copy_list_loop_ok [OF ok(1,2) it0(2) fits assms(3-5)] it0(1,3) assms(1)
    by (auto simp: copy_list_def cursor_def remains_def contents_def)
qed

section \<open>Properties\<close>





text \<open>
  A \<^verbatim>\<open>bufferlist\<close> nested in another keeps its contents: what follows the length is shared,
  not copied, and comes back as a list with the same bytes.
\<close>

theorem bufferlist_round_trip:
  assumes "list_ok h s" and "blen s + 4 < 2 ^ 32"
  shows "\<exists>bl h' t p. encode_bufferlist e s bl_new h = Inr (bl, h') \<and>
    decode_bufferlist e' bl_new h' bl iter_begin = Inr (t, p) \<and>
    list_ok h' t \<and> contents h' t = contents h s \<and> iter_end (buffers bl) p"
proof -
  let ?n = "of_nat (blen s) :: u32"
  have s: "segs_ok h (buffers s)" "blen s = total_len (buffers s)" "heap_ok h"
    using assms(1) by (simp_all add: list_ok_def)
  have new: "list_ok h bl_new" "append_buffer bl_new = null_ptr" using bl_new_ok(1) s(3) by (simp_all add: bl_new_def)
  obtain bl h' where 1: "append_data (le_bytes ?n) bl_new h = Some (Inr (bl, h'))" "list_ok h' bl"
    "contents h' bl = le_bytes ?n" "spares null_ptr h h'"
    using append_data_ok [OF new(1), of "le_bytes ?n"] bl_new_ok(2) new(2)
    by (auto simp: bl_new_def MSGR_PAGE_SIZE_def)
  have kept: "ptr_ok h' q \<and> bytes h' q = bytes h q" if "ptr_ok h q" for q
    using 1(4) that by (simp add: spares_def null_ptr_def)
  then have s': "segs_ok h' (buffers s)" "contents h' s = contents h s"
    using s(1) concat_bytes_cong [of "buffers s" h' h] by (auto simp: segs_ok_def contents_def)
  have "clear_of bl q" if "q \<in> set (buffers s)" for q
    using append_loop_buffer [OF 1(1) [unfolded append_data_def]] that s(1)
    by (fastforce simp: clear_of_def segs_ok_def ptr_ok_def new(2) null_ptr_def)
  moreover have len: "blen bl = 4" using length_contents [OF 1(2)] 1(3) by simp
  ultimately have a: "list_ok h' (append_list s bl)" "contents h' (append_list s bl) = le_bytes ?n @ contents h s"
    using append_list_ok [OF 1(2) s'(1) s(2)] assms(2) 1(3) s'(2) by simp_all
  have enc: "encode_bufferlist e s bl_new h = Inr (append_list s bl, h')"
    using 1(1) by (simp add: encode_bufferlist_def encode_u32_def encode_raw_def)
  have n: "unat ?n = length (contents h s)" using length_contents [OF assms(1)] assms(2) by (simp add: unat_of_nat)
  obtain p1 where p1: "decode_u32 e' h' (append_list s bl) iter_begin = Inr (?n, p1)"
    "cursor h' (append_list s bl) p1" "remains h' (append_list s bl) p1 = contents h s @ []"
    using u32_codec.dec_reads [where e' = e', OF cursor_begin(1) [OF a(1)] TrueI, of ?n "contents h s"] cursor_begin(2) a(2) by auto
  have clr: "bl_clear bl_new = bl_new" "list_ok h' bl_new"
    using bl_new_ok(1) 1(2) by (simp_all add: bl_clear_def bl_new_def list_ok_def)
  obtain t p2 where "copy_list (length (contents h s)) bl_new (append_list s bl) p1 = Inr (t, p2)" "list_ok h' t"
    "contents h' t = contents h' bl_new @ contents h s"
    "cursor h' (append_list s bl) p2" "remains h' (append_list s bl) p2 = []"
    using copy_list_ok [OF p1(2,3) clr(2)] assms(2) length_contents [OF assms(1)]
    by (auto simp: bl_new_def null_ptr_def)
  then show ?thesis
    using enc p1(1) n clr(1) cursor_end bl_new_ok(2) by (fastforce simp: decode_bufferlist_def)
qed

theorem bufferlist_round_trip_witness:
  "\<exists>bl h' t p. encode_bufferlist Little_endian sample_list bl_new sample_heap = Inr (bl, h') \<and>
    decode_bufferlist Big_endian bl_new h' bl iter_begin = Inr (t, p) \<and>
    contents h' t = [11, 12, 13, 20, 21] \<and> iter_end (buffers bl) p"
  using bufferlist_round_trip [OF sample_list_ok] by (fastforce simp: sample_list_contents sample_list_blen)

end
