(* ===== verification/Message.thy ===== *)
theory Message
  imports Encoding_Laws
begin

text \<open>
  Messages and their wire format: \<^verbatim>\<open>src/include/msgr/msgr.h\<close>, \<^verbatim>\<open>src/include/msgr/Message.h\<close> and
  \<^verbatim>\<open>src/src/Message.cc\<close>.  The packed structures are given with the bytes they occupy in memory.
  The virtual methods \<^verbatim>\<open>encode_payload\<close> and \<^verbatim>\<open>decode_payload\<close> belong to the application and are
  parameters, as are the factory functions that are registered for message types, the checksum
  routine (chosen at run time) and the addresses of buffers.
\<close>

section \<open>Wire structures\<close>

record msgr_entity_name =
  en_type :: byte
  en_num :: u64

record msgr_msg_header =
  hseq :: u64
  tid :: u64
  htype :: u16
  priority :: u16
  version :: u16
  front_len :: u32
  middle_len :: u32
  data_len :: u32
  data_off :: u16
  src :: msgr_entity_name
  compat_version :: u16
  reserved :: u16
  hcrc :: u32

record msgr_msg_footer =
  front_crc :: u32
  middle_crc :: u32
  data_crc :: u32
  sig :: u64
  fflags :: byte

definition MSGR_MSG_FOOTER_COMPLETE :: byte where "MSGR_MSG_FOOTER_COMPLETE = 1"
definition MSGR_MSG_FOOTER_NOCRC :: byte where "MSGR_MSG_FOOTER_NOCRC = 2"
definition MSG_CRC_DATA :: u32 where "MSG_CRC_DATA = 1"
definition MSG_CRC_HEADER :: u32 where "MSG_CRC_HEADER = 2"

text \<open>The memory of the packed structures.\<close>

definition header_body :: "endian \<Rightarrow> msgr_msg_header \<Rightarrow> byte list" where
  "header_body e x =
     le64_mem e (hseq x) @ le64_mem e (tid x) @ le16_mem e (htype x) @ le16_mem e (priority x)
     @ le16_mem e (version x) @ le32_mem e (front_len x) @ le32_mem e (middle_len x)
     @ le32_mem e (data_len x) @ le16_mem e (data_off x)
     @ en_type (src x) # le64_mem e (en_num (src x))
     @ le16_mem e (compat_version x) @ le16_mem e (reserved x)"

definition header_bytes :: "endian \<Rightarrow> msgr_msg_header \<Rightarrow> byte list" where
  "header_bytes e x = header_body e x @ le32_mem e (hcrc x)"

definition field :: "nat \<Rightarrow> nat \<Rightarrow> byte list \<Rightarrow> byte list" where
  "field off len bs = take len (drop off bs)"

definition header_of :: "endian \<Rightarrow> byte list \<Rightarrow> msgr_msg_header" where
  "header_of e bs = \<lparr>
     hseq = le64_val e (field 0 8 bs), tid = le64_val e (field 8 8 bs),
     htype = le16_val e (field 16 2 bs), priority = le16_val e (field 18 2 bs),
     version = le16_val e (field 20 2 bs), front_len = le32_val e (field 22 4 bs),
     middle_len = le32_val e (field 26 4 bs), data_len = le32_val e (field 30 4 bs),
     data_off = le16_val e (field 34 2 bs),
     src = \<lparr>en_type = hd (field 36 1 bs), en_num = le64_val e (field 37 8 bs)\<rparr>,
     compat_version = le16_val e (field 45 2 bs), reserved = le16_val e (field 47 2 bs),
     hcrc = le32_val e (field 49 4 bs)\<rparr>"

definition footer_bytes :: "endian \<Rightarrow> msgr_msg_footer \<Rightarrow> byte list" where
  "footer_bytes e x = le32_mem e (front_crc x) @ le32_mem e (middle_crc x) @ le32_mem e (data_crc x)
     @ le64_mem e (sig x) @ [fflags x]"

definition footer_of :: "endian \<Rightarrow> byte list \<Rightarrow> msgr_msg_footer" where
  "footer_of e bs = \<lparr>
     front_crc = le32_val e (field 0 4 bs), middle_crc = le32_val e (field 4 4 bs),
     data_crc = le32_val e (field 8 4 bs), sig = le64_val e (field 12 8 bs),
     fflags = hd (field 20 1 bs)\<rparr>"

text \<open>\<^verbatim>\<open>msgr_seq_cmp\<close>: the difference of two sequence numbers as a signed 32-bit number.\<close>

definition msgr_seq_cmp :: "u32 \<Rightarrow> u32 \<Rightarrow> int" where
  "msgr_seq_cmp a b = sint (a - b)"

section \<open>Messages\<close>

text \<open>The routines a process runs with: the checksum, and where blocks and structures are.\<close>

record machine =
  host :: endian
  crc32c :: "u32 \<Rightarrow> cbuf \<Rightarrow> u32 \<Rightarrow> u32"
  block_addr :: "nat \<Rightarrow> u64"
  struct_addr :: u64

record message =
  header :: msgr_msg_header
  footer :: msgr_msg_footer
  payload :: blist
  middle :: blist
  mdata :: blist
  byte_throttler :: nat
  msg_throttler :: nat
  reserved_size :: u64

definition zero_header :: msgr_msg_header where
  "zero_header = \<lparr>hseq = 0, tid = 0, htype = 0, priority = 0, version = 0, front_len = 0,
     middle_len = 0, data_len = 0, data_off = 0, src = \<lparr>en_type = 0, en_num = 0\<rparr>,
     compat_version = 0, reserved = 0, hcrc = 0\<rparr>"

definition new_message :: "u16 \<Rightarrow> u16 \<Rightarrow> u16 \<Rightarrow> message" where
  "new_message t ver compatv =
     \<lparr>header = zero_header\<lparr>htype := t, version := ver, compat_version := compatv\<rparr>,
      footer = \<lparr>front_crc = 0, middle_crc = 0, data_crc = 0, sig = 0, fflags = 0\<rparr>,
      payload = bl_new, middle = bl_new, mdata = bl_new, byte_throttler = 0, msg_throttler = 0,
      reserved_size = 0\<rparr>"

definition clear_payload :: "message \<Rightarrow> message" where
  "clear_payload m = m\<lparr>payload := bl_clear (payload m), middle := bl_clear (middle m)\<rparr>"

definition set_payload :: "blist \<Rightarrow> message \<Rightarrow> heap \<Rightarrow> message \<times> blist \<times> heap" where
  "set_payload bl m h = (let (p, bl, h) = claim True (payload m) bl h in (m\<lparr>payload := p\<rparr>, bl, h))"

definition set_middle :: "blist \<Rightarrow> message \<Rightarrow> heap \<Rightarrow> message \<times> blist \<times> heap" where
  "set_middle bl m h = (let (p, bl, h) = claim True (middle m) bl h in (m\<lparr>middle := p\<rparr>, bl, h))"

definition set_data :: "blist \<Rightarrow> message \<Rightarrow> message" where
  "set_data bl m = m\<lparr>mdata := bl_share (mdata m) bl\<rparr>"

definition header_crc :: "machine \<Rightarrow> msgr_msg_header \<Rightarrow> u32" where
  "header_crc mc x = crc32c mc 0 (Buf (struct_addr mc) (header_bytes (host mc) x)) 49"

definition calc_header_crc :: "machine \<Rightarrow> message \<Rightarrow> message" where
  "calc_header_crc mc m = m\<lparr>header := (header m)\<lparr>hcrc := header_crc mc (header m)\<rparr>\<rparr>"

definition calc_front_crc :: "machine \<Rightarrow> heap \<Rightarrow> message \<Rightarrow> message" where
  "calc_front_crc mc h m = m\<lparr>footer := (footer m)\<lparr>
     front_crc := bl_crc32c (crc32c mc) (block_addr mc) h (payload m) 0,
     middle_crc := bl_crc32c (crc32c mc) (block_addr mc) h (middle m) 0\<rparr>\<rparr>"

definition calc_data_crc :: "machine \<Rightarrow> heap \<Rightarrow> message \<Rightarrow> message" where
  "calc_data_crc mc h m = m\<lparr>footer := (footer m)\<lparr>
     data_crc := bl_crc32c (crc32c mc) (block_addr mc) h (mdata m) 0\<rparr>\<rparr>"

text \<open>\<^verbatim>\<open>get_seq\<close> and \<^verbatim>\<open>set_seq\<close> work on \<^verbatim>\<open>unsigned\<close>, the field of the header has 64 bits.\<close>

definition get_seq :: "message \<Rightarrow> u32" where
  "get_seq m = ucast (hseq (header m))"

definition set_seq :: "u32 \<Rightarrow> message \<Rightarrow> message" where
  "set_seq s m = m\<lparr>header := (header m)\<lparr>hseq := ucast s\<rparr>\<rparr>"

text \<open>\<^verbatim>\<open>Message::encode\<close>.\<close>

definition message_encode ::
    "machine \<Rightarrow> (u64 \<Rightarrow> message \<Rightarrow> heap \<Rightarrow> message \<times> heap) \<Rightarrow> u64 \<Rightarrow> u32 \<Rightarrow> message \<Rightarrow> heap \<Rightarrow> message \<times> heap" where
  "message_encode mc encode_payload features crcflags m h =
     (let (m, h) =
            (if blen (payload m) = 0
             then (let (m, h) = encode_payload features m h
                   in (if compat_version (header m) = 0
                       then (m\<lparr>header := (header m)\<lparr>compat_version := version (header m)\<rparr>\<rparr>, h)
                       else (m, h)))
             else (m, h));
          m = (if crcflags AND MSG_CRC_HEADER \<noteq> 0 then calc_front_crc mc h m else m);
          m = m\<lparr>header := (header m)\<lparr>front_len := of_nat (blen (payload m)),
                    middle_len := of_nat (blen (middle m)), data_len := of_nat (blen (mdata m))\<rparr>\<rparr>;
          m = (if crcflags AND MSG_CRC_HEADER \<noteq> 0 then calc_header_crc mc m else m);
          m = m\<lparr>footer := (footer m)\<lparr>fflags := MSGR_MSG_FOOTER_COMPLETE\<rparr>\<rparr>
      in if crcflags AND MSG_CRC_DATA \<noteq> 0 then (calc_data_crc mc h m, h)
         else (m\<lparr>footer := (footer m)\<lparr>fflags := fflags (footer m) OR MSGR_MSG_FOOTER_NOCRC\<rparr>\<rparr>, h))"

subsection \<open>The registry of message types\<close>

text \<open>\<^verbatim>\<open>mf_info\<close>: the dictionary from types to factory functions; functions are compared by address.\<close>

type_synonym 'f mf_dict = "int \<rightharpoonup> 'f"

definition register_func :: "int \<Rightarrow> 'f \<Rightarrow> 'f mf_dict \<Rightarrow> bool \<times> 'f mf_dict" where
  "register_func t func dict =
     (case dict t of
        Some f \<Rightarrow> (if f \<noteq> func then (False, dict) else (True, dict(t \<mapsto> func)))
      | None \<Rightarrow> (True, dict(t \<mapsto> func)))"

definition lookup_func :: "int \<Rightarrow> 'f mf_dict \<Rightarrow> 'f option" where
  "lookup_func t dict = dict t"

definition make_message :: "('f \<Rightarrow> int \<Rightarrow> message option) \<Rightarrow> int \<Rightarrow> 'f mf_dict \<Rightarrow> message option" where
  "make_message run t dict = (case lookup_func t dict of None \<Rightarrow> None | Some f \<Rightarrow> run f t)"

subsection \<open>Decoding\<close>

text \<open>
  The context (\<^verbatim>\<open>MsgrContext\<close>) may be null; of its configuration only \<^verbatim>\<open>ms_die_on_bad_msg\<close> matters.
  \<open>Crashed\<close> is a failed assertion or the use of the null context.
\<close>

datatype decoded = Decoded message heap | Rejected | Crashed

definition decode_message ::
    "machine \<Rightarrow> (int \<Rightarrow> message option) \<Rightarrow> (message \<Rightarrow> heap \<Rightarrow> buf_error + message \<times> heap) \<Rightarrow> bool option \<Rightarrow> u32 \<Rightarrow>
     msgr_msg_header \<Rightarrow> msgr_msg_footer \<Rightarrow> blist \<Rightarrow> blist \<Rightarrow> blist \<Rightarrow> heap \<Rightarrow> decoded" where
  "decode_message mc mk decode_payload pct crcflags hdr ft front mid dat h =
     (let crc = (\<lambda>bl. bl_crc32c (crc32c mc) (block_addr mc) h bl 0)
      in if crcflags AND MSG_CRC_HEADER \<noteq> 0 \<and> crc front \<noteq> front_crc ft then Rejected
         else if crcflags AND MSG_CRC_HEADER \<noteq> 0 \<and> crc mid \<noteq> middle_crc ft then Rejected
         else if crcflags AND MSG_CRC_DATA \<noteq> 0 \<and> fflags ft AND MSGR_MSG_FOOTER_NOCRC = 0
                 \<and> crc dat \<noteq> data_crc ft then Rejected
         else
           (case mk (uint (htype hdr)) of
              None \<Rightarrow> Rejected
            | Some m \<Rightarrow>
                (if version (header m) \<noteq> 0 \<and> version (header m) < compat_version hdr
                 then (if pct = Some False then Rejected else Crashed)
                 else
                   (let m = m\<lparr>header := hdr\<rparr>;
                        (m, _, h) = set_payload front m h;
                        (m, _, h) = set_middle mid m h;
                        m = set_data dat m
                    in case decode_payload m h of
                         Inl _ \<Rightarrow> (if pct = Some True then Crashed else Rejected)
                       | Inr (m, h) \<Rightarrow> Decoded m h))))"

text \<open>The variant that takes single windows.\<close>

definition list_of_ptr :: "bptr \<Rightarrow> blist" where
  "list_of_ptr p = (if plen p \<noteq> 0 then push_back p bl_new else bl_new)"

definition decode_message_ptrs ::
    "machine \<Rightarrow> (int \<Rightarrow> message option) \<Rightarrow> (message \<Rightarrow> heap \<Rightarrow> buf_error + message \<times> heap) \<Rightarrow> bool option \<Rightarrow> u32 \<Rightarrow>
     msgr_msg_header \<Rightarrow> msgr_msg_footer \<Rightarrow> bptr \<Rightarrow> bptr \<Rightarrow> bptr \<Rightarrow> heap \<Rightarrow> decoded" where
  "decode_message_ptrs mc mk decode_payload pct crcflags hdr ft front mid dat h =
     decode_message mc mk decode_payload pct crcflags hdr ft
       (list_of_ptr front) (list_of_ptr mid) (list_of_ptr dat) h"

text \<open>\<^verbatim>\<open>~Message\<close>: what goes back to the throttles, as pairs of a throttle and an amount.\<close>

definition destroy_message :: "message \<Rightarrow> (nat \<times> u64) list" where
  "destroy_message m =
     (if byte_throttler m \<noteq> 0 then [(byte_throttler m, reserved_size m)] else [])
     @ (if msg_throttler m \<noteq> 0 then [(msg_throttler m, 1)] else [])"

section \<open>Structures in memory\<close>

lemma length_header [simp]: "length (header_body e x) = 49" "length (header_bytes e x) = 53"
  by (simp_all add: header_body_def header_bytes_def)

lemma length_footer [simp]: "length (footer_bytes e x) = 21"
  by (simp add: footer_bytes_def)

lemma header_round_trip [simp]: "header_of e' (header_bytes e x) = x"
  by (cases x) (simp add: header_of_def header_bytes_def header_body_def field_def)

lemma footer_round_trip [simp]: "footer_of e' (footer_bytes e x) = x"
  by (cases x) (simp add: footer_of_def footer_bytes_def field_def)

text \<open>A machine that runs one of the verified checksum routines.\<close>

definition sound_machine :: "machine \<Rightarrow> bool" where
  "sound_machine mc = crc32c_impl (crc32c mc)"

lemma list_crc:
  assumes "sound_machine mc" and "list_ok h bl"
  shows "bl_crc32c (crc32c mc) addr h bl c = crc32c_spec c (contents h bl)"
  using crc32c_impl.crc_list [OF assms(1) [unfolded sound_machine_def] assms(2)] .

text \<open>The checksum covers everything but itself, and is the same on every host.\<close>

lemma header_crc_eq:
  assumes "sound_machine mc"
  shows "header_crc mc x = crc32c_spec 0 (header_body e x)"
proof -
  have "header_crc mc x = crc32c_spec 0 (take 49 (header_bytes (host mc) x))"
    using crc32c_impl.crc_buf [OF assms [unfolded sound_machine_def], of 49 "header_bytes (host mc) x"]
    by (simp add: header_crc_def)
  also have "take 49 (header_bytes (host mc) x) = header_body e x"
    by (simp add: header_bytes_def) (simp add: header_body_def)
  finally show ?thesis .
qed

lemma header_crc_ignores_crc [simp]: "header_crc mc (x\<lparr>hcrc := c\<rparr>) = header_crc mc x" if "sound_machine mc"
  using header_crc_eq [OF that, of _ Little_endian] by (simp add: header_body_def)

section \<open>Encoding\<close>

text \<open>What the receiver checks of an encoded message.\<close>

definition checks_ok :: "u32 \<Rightarrow> msgr_msg_footer \<Rightarrow> byte list \<Rightarrow> byte list \<Rightarrow> byte list \<Rightarrow> bool" where
  "checks_ok crcflags ft front mid dat \<longleftrightarrow>
     (crcflags AND MSG_CRC_HEADER \<noteq> 0 \<longrightarrow> front_crc ft = crc32c_spec 0 front \<and> middle_crc ft = crc32c_spec 0 mid) \<and>
     (crcflags AND MSG_CRC_DATA \<noteq> 0 \<longrightarrow> fflags ft AND MSGR_MSG_FOOTER_NOCRC = 0 \<longrightarrow> data_crc ft = crc32c_spec 0 dat)"

definition lists_ok :: "heap \<Rightarrow> message \<Rightarrow> bool" where
  "lists_ok h m \<longleftrightarrow> list_ok h (payload m) \<and> list_ok h (middle m) \<and> list_ok h (mdata m)"

text \<open>The message after \<open>encode_payload\<close>, which is only called on an empty payload; encoding leaves
  its lists alone.\<close>

definition prepared :: "(u64 \<Rightarrow> message \<Rightarrow> heap \<Rightarrow> message \<times> heap) \<Rightarrow> u64 \<Rightarrow> message \<Rightarrow> heap \<Rightarrow> message \<times> heap" where
  "prepared ep features m h = (if blen (payload m) = 0 then ep features m h else (m, h))"

lemma message_encode_checks:
  assumes "sound_machine mc" and "prepared ep features m h = (m1, h1)" and "lists_ok h1 m1"
    and "message_encode mc ep features crcflags m h = (m', h')"
  shows "h' = h1" and "payload m' = payload m1" and "middle m' = middle m1" and "mdata m' = mdata m1"
    and "(crcflags' AND MSG_CRC_HEADER \<noteq> 0 \<longrightarrow> crcflags AND MSG_CRC_HEADER \<noteq> 0) \<Longrightarrow>
      checks_ok crcflags' (footer m') (contents h1 (payload m1)) (contents h1 (middle m1)) (contents h1 (mdata m1))"
    and "fflags (footer m') AND MSGR_MSG_FOOTER_COMPLETE \<noteq> 0"
    and "front_len (header m') = of_nat (blen (payload m1))" and "middle_len (header m') = of_nat (blen (middle m1))"
    and "data_len (header m') = of_nat (blen (mdata m1))"
    and "crcflags AND MSG_CRC_HEADER \<noteq> 0 \<Longrightarrow> hcrc (header m') = header_crc mc (header m')"
proof -
  define m2 where "m2 = (if blen (payload m) = 0 \<and> compat_version (header m1) = 0
    then m1\<lparr>header := (header m1)\<lparr>compat_version := version (header m1)\<rparr>\<rparr> else m1)"
  have m2: "payload m2 = payload m1" "middle m2 = middle m1" "mdata m2 = mdata m1" by (simp_all add: m2_def)
  have run: "(m', h') = (let m = (if crcflags AND MSG_CRC_HEADER \<noteq> 0 then calc_front_crc mc h1 m2 else m2);
          m = m\<lparr>header := (header m)\<lparr>front_len := of_nat (blen (payload m)),
                    middle_len := of_nat (blen (middle m)), data_len := of_nat (blen (mdata m))\<rparr>\<rparr>;
          m = (if crcflags AND MSG_CRC_HEADER \<noteq> 0 then calc_header_crc mc m else m);
          m = m\<lparr>footer := (footer m)\<lparr>fflags := MSGR_MSG_FOOTER_COMPLETE\<rparr>\<rparr>
      in if crcflags AND MSG_CRC_DATA \<noteq> 0 then (calc_data_crc mc h1 m, h1)
         else (m\<lparr>footer := (footer m)\<lparr>fflags := fflags (footer m) OR MSGR_MSG_FOOTER_NOCRC\<rparr>\<rparr>, h1))"
    using assms(2,4) by (simp add: message_encode_def prepared_def m2_def split: if_splits prod.splits)
  note defs = calc_header_crc_def calc_front_crc_def calc_data_crc_def Let_def
  show "h' = h1" "payload m' = payload m1" "middle m' = middle m1" "mdata m' = mdata m1"
    "front_len (header m') = of_nat (blen (payload m1))" "middle_len (header m') = of_nat (blen (middle m1))"
    "data_len (header m') = of_nat (blen (mdata m1))"
    using run m2 by (simp_all add: defs split: if_splits)
  show "fflags (footer m') AND MSGR_MSG_FOOTER_COMPLETE \<noteq> 0"
    using run by (simp add: defs MSGR_MSG_FOOTER_NOCRC_def MSGR_MSG_FOOTER_COMPLETE_def split: if_splits)
  show "crcflags AND MSG_CRC_HEADER \<noteq> 0 \<Longrightarrow> hcrc (header m') = header_crc mc (header m')"
    using run header_crc_ignores_crc [OF assms(1)] by (simp add: defs split: if_splits)
  show "checks_ok crcflags' (footer m') (contents h1 (payload m1)) (contents h1 (middle m1)) (contents h1 (mdata m1))"
    if "crcflags' AND MSG_CRC_HEADER \<noteq> 0 \<longrightarrow> crcflags AND MSG_CRC_HEADER \<noteq> 0"
    using run that assms(3) list_crc [OF assms(1)] m2
    by (simp add: defs checks_ok_def lists_ok_def MSGR_MSG_FOOTER_NOCRC_def split: if_splits)
qed

section \<open>Decoding\<close>

lemma claim_contents:
  assumes "claim True bl other h = (bl', other', h')"
  shows "h' = h" and "contents h bl' = contents h other"
  using assms by (auto simp: claim_def claim_append_def bl_clear_def contents_def)

lemma fold_push_back:
  "contents h (fold push_back ps bl) = contents h bl @ concat (map (bytes h) ps)" if "segs_ok h ps"
  using that by (induction ps arbitrary: bl) (auto simp: push_back_def contents_def)

lemma bl_share_contents: "list_ok h other \<Longrightarrow> contents h (bl_share bl other) = contents h other"
  by (simp add: bl_share_def fold_push_back list_ok_def) (simp add: bl_clear_def contents_def)

text \<open>The message handed to \<open>decode_payload\<close>.\<close>

definition filled :: "message \<Rightarrow> msgr_msg_header \<Rightarrow> heap \<Rightarrow> blist \<Rightarrow> blist \<Rightarrow> blist \<Rightarrow> message \<Rightarrow> bool" where
  "filled m0 hdr h front mid dat m \<longleftrightarrow> header m = hdr \<and> contents h (payload m) = contents h front \<and>
     contents h (middle m) = contents h mid \<and> contents h (mdata m) = contents h dat \<and>
     byte_throttler m = byte_throttler m0 \<and> msg_throttler m = msg_throttler m0"

lemma decode_message_eq:
  assumes "sound_machine mc" and "list_ok h front" and "list_ok h mid" and "list_ok h dat"
  shows "\<not> checks_ok crcflags ft (contents h front) (contents h mid) (contents h dat) \<Longrightarrow>
      decode_message mc mk dp pct crcflags hdr ft front mid dat h = Rejected"
    and "checks_ok crcflags ft (contents h front) (contents h mid) (contents h dat) \<Longrightarrow>
      mk (uint (htype hdr)) = Some m0 \<Longrightarrow> version (header m0) = 0 \<or> compat_version hdr \<le> version (header m0) \<Longrightarrow>
      \<exists>m. filled m0 hdr h front mid dat m \<and>
        decode_message mc mk dp pct crcflags hdr ft front mid dat h =
          (case dp m h of Inl _ \<Rightarrow> (if pct = Some True then Crashed else Rejected) | Inr (m', h') \<Rightarrow> Decoded m' h')"
proof -
  note crc = list_crc [OF assms(1,2)] list_crc [OF assms(1,3)] list_crc [OF assms(1,4)]
  show "\<not> checks_ok crcflags ft (contents h front) (contents h mid) (contents h dat) \<Longrightarrow>
      decode_message mc mk dp pct crcflags hdr ft front mid dat h = Rejected"
    by (auto simp: decode_message_def checks_ok_def crc Let_def)
  assume ok: "checks_ok crcflags ft (contents h front) (contents h mid) (contents h dat)"
    "mk (uint (htype hdr)) = Some m0" "version (header m0) = 0 \<or> compat_version hdr \<le> version (header m0)"
  obtain p b1 h1 where 1: "claim True (payload m0) front h = (p, b1, h1)" by (metis surj_pair)
  obtain q b2 h2 where 2: "claim True (middle m0) mid h1 = (q, b2, h2)" by (metis surj_pair)
  let ?m = "set_data dat (m0\<lparr>header := hdr, payload := p, middle := q\<rparr>)"
  have h: "h1 = h" "h2 = h" using claim_contents [OF 1] claim_contents [OF 2] by simp_all
  have "filled m0 hdr h front mid dat ?m"
    using claim_contents(2) [OF 1] claim_contents(2) [OF 2] bl_share_contents [OF assms(4)] h
    by (simp add: filled_def set_data_def)
  moreover have "decode_message mc mk dp pct crcflags hdr ft front mid dat h =
      (case dp ?m h of Inl _ \<Rightarrow> (if pct = Some True then Crashed else Rejected) | Inr (m', h') \<Rightarrow> Decoded m' h')"
    using ok 1 2 h by (auto simp: decode_message_def checks_ok_def crc Let_def set_payload_def set_middle_def not_less)
  ultimately show "\<exists>m. filled m0 hdr h front mid dat m \<and>
        decode_message mc mk dp pct crcflags hdr ft front mid dat h =
          (case dp m h of Inl _ \<Rightarrow> (if pct = Some True then Crashed else Rejected) | Inr (m', h') \<Rightarrow> Decoded m' h')"
    by blast
qed

section \<open>Properties\<close>

text \<open>A concrete message: no payload encoder runs, since its payload is not empty.\<close>

definition sample_machine :: machine where
  "sample_machine = \<lparr>host = Little_endian, crc32c = msgr_crc32c_sctp, block_addr = (\<lambda>a. 4096 * of_nat a), struct_addr = 64\<rparr>"

definition sample_message :: message where
  "sample_message = (new_message 42 3 2)\<lparr>payload := sample_list\<rparr>"

lemma sample_machine_sound: "sound_machine sample_machine"
  using sctp.crc32c_impl_axioms by (simp add: sound_machine_def sample_machine_def)

lemma sample_heap_ok: "heap_ok sample_heap"
  using sample_list_ok by (simp add: list_ok_def)

lemma sample_prepared: "prepared ep f sample_message sample_heap = (sample_message, sample_heap)"
  "lists_ok sample_heap sample_message" "contents sample_heap (payload sample_message) = [11, 12, 13, 20, 21]"
  "contents sample_heap (middle sample_message) = []" "contents sample_heap (mdata sample_message) = []"
  using bl_new_ok(1) [OF sample_heap_ok] sample_list_ok sample_list_contents
  by (simp_all add: prepared_def sample_message_def new_message_def lists_ok_def sample_list_blen bl_new_ok(2))



text \<open>
  C26. A front section in which one byte was changed on the way is rejected whenever both sides
  have the header checks on, whatever the type of the message.
\<close>

theorem decode_rejects_corrupted_front:
  assumes "sound_machine mc" and "sound_machine mc'"
    and "prepared ep features m h = (m1, h1)" and "lists_ok h1 m1"
    and "message_encode mc ep features crcflags m h = (m', h2)"
    and "crcflags AND MSG_CRC_HEADER \<noteq> 0" and "crcflags' AND MSG_CRC_HEADER \<noteq> 0"
    and "list_ok g front" and "list_ok g mid" and "list_ok g dat"
    and "contents h1 (payload m1) = xs @ b # ys" and "contents g front = xs @ b' # ys" and "b' \<noteq> b"
  shows "decode_message mc' mk dp pct crcflags' hdr (footer m') front mid dat g = Rejected"
proof -
  have "front_crc (footer m') = crc32c_spec 0 (xs @ b # ys)"
    using message_encode_checks(5) [OF assms(1,3,4,5), of crcflags] assms(6,11) by (simp add: checks_ok_def)
  then have "\<not> checks_ok crcflags' (footer m') (contents g front) (contents g mid) (contents g dat)"
    using assms(7,12,13) crc32c_spec_byte_error by (simp add: checks_ok_def)
  then show ?thesis using decode_message_eq(1) [OF assms(2,8,9,10)] by blast
qed

theorem decode_rejects_corrupted_front_witness:
  "decode_message sample_machine (\<lambda>_. Some (new_message 42 3 1)) (\<lambda>m h. Inr (m, h)) None 2 zero_header
     (footer (fst (message_encode sample_machine (\<lambda>_ m h. (m, h)) 0 2 sample_message sample_heap)))
     sample_list bl_new bl_new (poke 1 0 [99] sample_heap) = Rejected"
proof -
  let ?g = "poke 1 0 [99] sample_heap"
  obtain m' h2 where e: "message_encode sample_machine (\<lambda>_ m h. (m, h)) 0 2 sample_message sample_heap = (m', h2)"
    by (metis surj_pair)
  have g: "list_ok ?g sample_list" "contents ?g sample_list = [11, 12, 13, 99, 21]"
    by (simp_all add: sample_buffer_defs poke_def list_ok_def heap_ok_def ptr_ok_def raw_len_def tail_ok_def
        contents_def bytes_def ptr_c_str_def)
  show ?thesis
    using decode_rejects_corrupted_front [OF sample_machine_sound sample_machine_sound sample_prepared(1,2) e,
        where crcflags' = 2 and g = ?g and front = sample_list and mid = bl_new and dat = bl_new and
        xs = "[11, 12, 13]" and b = 20 and ys = "[21]" and b' = 99] g bl_new_ok(1) [of ?g] sample_prepared(3) e
    by (simp add: MSG_CRC_HEADER_def list_ok_def)
qed

end
