(* ===== verification/Throttle.thy ===== *)
theory Throttle
  imports Msgr_Prelude
begin

text \<open>
  \<^verbatim>\<open>Throttle\<close> and \<^verbatim>\<open>SimpleThrottle\<close> (\<^verbatim>\<open>src/include/msgr/Throttle.h\<close>, \<^verbatim>\<open>src/src/Throttle.cc\<close>).  A throttle
  counts what is in use against a limit; a request that does not fit waits in a FIFO, as a
  blocked thread (a condition variable) or as a callback.  Each critical section is one
  operation; a blocked thread re-enters through \<open>throttle_resume\<close>.  A failing assertion is
  \<open>None\<close>.  The counters are \<^verbatim>\<open>long\<close>, modelled as integers without the overflow beyond \<^verbatim>\<open>2^63\<close>.
\<close>

section \<open>Throttle\<close>

text \<open>A waiter is a thread, or a callback with its argument and its amount.\<close>

datatype waiter = Cv nat | Cb nat int

text \<open>
  \<open>blocked\<close> is the amount on the stack of each blocked thread, \<open>signalled\<close> the threads whose
  condition variable was signalled since they last looked, \<open>fired\<close> the callbacks called so far
  with their abort flag.
\<close>

record throttle =
  count :: int
  tmax :: int
  wait_queue :: "waiter list"
  blocked :: "nat \<Rightarrow> int"
  signalled :: "nat list"
  fired :: "(nat \<times> bool) list"

definition throttle_new :: "int \<Rightarrow> throttle option" where
  "throttle_new m =
     (if m \<ge> 0 then Some \<lparr>count = 0, tmax = m, wait_queue = [], blocked = (\<lambda>_. 0), signalled = [], fired = []\<rparr>
      else None)"

definition should_wait :: "int \<Rightarrow> throttle \<Rightarrow> bool" where
  "should_wait c th \<longleftrightarrow>
     (let m = tmax th; cur = count th
      in m \<noteq> 0 \<and> ((c \<le> m \<and> cur + c > m) \<or> (c \<ge> m \<and> cur > m)))"

function signal_first :: "throttle \<Rightarrow> throttle" where
  "signal_first th =
     (case wait_queue th of
        [] \<Rightarrow> th
      | Cv t # _ \<Rightarrow> th\<lparr>signalled := t # signalled th\<rparr>
      | Cb a c # q \<Rightarrow>
          (if should_wait c th then th
           else signal_first (th\<lparr>count := count th + c, wait_queue := q, fired := fired th @ [(a, False)]\<rparr>)))"
  by pat_completeness auto
termination by (relation "measure (length \<circ> wait_queue)") auto

declare signal_first.simps [simp del]

definition reset_max :: "int \<Rightarrow> throttle \<Rightarrow> throttle" where
  "reset_max m th = signal_first (th\<lparr>tmax := m\<rparr>)"

text \<open>\<open>None\<close> for a failed assertion; \<^verbatim>\<open>m = 0\<close> leaves the limit alone.\<close>

definition maybe_reset_max :: "int \<Rightarrow> throttle \<Rightarrow> throttle option" where
  "maybe_reset_max m th = (if m = 0 then Some th else if m > 0 then Some (reset_max m th) else None)"

datatype outcome = Returned bool | Blocked

text \<open>\<^verbatim>\<open>_wait(c)\<close> up to the point where the thread blocks, for thread \<open>t\<close>.\<close>

definition wait_enter :: "nat \<Rightarrow> int \<Rightarrow> throttle \<Rightarrow> outcome \<times> throttle" where
  "wait_enter t c th =
     (if should_wait c th \<or> wait_queue th \<noteq> []
      then (Blocked, th\<lparr>wait_queue := wait_queue th @ [Cv t], blocked := (blocked th)(t := c)\<rparr>)
      else (Returned False, th))"

text \<open>
  A blocked thread returning from \<^verbatim>\<open>cv->Wait\<close>: it blocks again, or leaves the queue, wakes the
  next waiter, and its caller adds its amount.
\<close>

definition throttle_resume :: "nat \<Rightarrow> throttle \<Rightarrow> outcome \<times> throttle" where
  "throttle_resume t th =
     (let c = blocked th t; th = th\<lparr>signalled := removeAll t (signalled th)\<rparr>
      in case wait_queue th of
           [] \<Rightarrow> (Blocked, th)
         | w # q \<Rightarrow>
             (if should_wait c th \<or> w \<noteq> Cv t then (Blocked, th)
              else (let th = signal_first (th\<lparr>wait_queue := q\<rparr>)
                    in (Returned True, th\<lparr>count := count th + c\<rparr>))))"

definition throttle_wait :: "nat \<Rightarrow> int \<Rightarrow> throttle \<Rightarrow> (outcome \<times> throttle) option" where
  "throttle_wait t m th =
     (if tmax th = 0 then Some (Returned False, th)
      else map_option (wait_enter t 0) (maybe_reset_max m th))"

definition throttle_take :: "int \<Rightarrow> throttle \<Rightarrow> (int \<times> throttle) option" where
  "throttle_take c th =
     (if tmax th = 0 then Some (0, th)
      else if c < 0 then None
      else (let th = th\<lparr>count := count th + c\<rparr> in Some (count th, th)))"

definition throttle_get :: "nat \<Rightarrow> int \<Rightarrow> int \<Rightarrow> throttle \<Rightarrow> (outcome \<times> throttle) option" where
  "throttle_get t c m th =
     (if tmax th = 0 then Some (Returned False, th)
      else if c < 0 then None
      else map_option (\<lambda>th. case wait_enter t c th of
                               (Blocked, th) \<Rightarrow> (Blocked, th)
                             | (Returned w, th) \<Rightarrow> (Returned w, th\<lparr>count := count th + c\<rparr>))
             (maybe_reset_max m th))"

text \<open>The callback form: \<^verbatim>\<open>_wait(c, cb, arg)\<close> queues the callback and adds the amount in any case.\<close>

definition wait_cb :: "int \<Rightarrow> nat \<Rightarrow> throttle \<Rightarrow> bool \<times> throttle" where
  "wait_cb c a th =
     (let (waited, th) = (if should_wait c th \<or> wait_queue th \<noteq> []
                          then (True, th\<lparr>wait_queue := wait_queue th @ [Cb a c]\<rparr>)
                          else (False, th))
      in (waited, th\<lparr>count := count th + c\<rparr>))"

definition throttle_get_cb :: "nat \<Rightarrow> int \<Rightarrow> int \<Rightarrow> throttle \<Rightarrow> (bool \<times> throttle) option" where
  "throttle_get_cb a c m th =
     (if tmax th = 0 then Some (False, th)
      else if c < 0 then None
      else map_option (wait_cb c a) (maybe_reset_max m th))"

definition throttle_get_or_fail :: "int \<Rightarrow> throttle \<Rightarrow> (bool \<times> throttle) option" where
  "throttle_get_or_fail c th =
     (if tmax th = 0 then Some (True, th)
      else if c < 0 then None
      else if should_wait c th \<or> wait_queue th \<noteq> [] then Some (False, th)
      else Some (True, th\<lparr>count := count th + c\<rparr>))"

definition throttle_put :: "int \<Rightarrow> throttle \<Rightarrow> (int \<times> throttle) option" where
  "throttle_put c th =
     (if tmax th = 0 then Some (0, th)
      else if c < 0 then None
      else if c = 0 then Some (count th, th)
      else if count th < c then None
      else (let th = th\<lparr>count := count th - c\<rparr> in Some (count th, signal_first th)))"

text \<open>The destructor calls the callbacks that are still queued with the abort flag.\<close>

definition throttle_destroy :: "throttle \<Rightarrow> throttle" where
  "throttle_destroy th =
     th\<lparr>fired := fired th @ concat (map (\<lambda>w. case w of Cv _ \<Rightarrow> [] | Cb a _ \<Rightarrow> [(a, True)]) (wait_queue th)),
        wait_queue := []\<rparr>"

section \<open>Histories\<close>

text \<open>
  The blocking interface: requests of threads that are not already waiting, wake-ups (also
  spurious ones), non-blocking attempts and releases, each request at most the limit.
\<close>

inductive throttle_step :: "throttle \<Rightarrow> throttle \<Rightarrow> bool" where
  get: "Cv t \<notin> set (wait_queue th) \<Longrightarrow> c \<le> tmax th \<Longrightarrow> throttle_get t c 0 th = Some (r, th') \<Longrightarrow>
    throttle_step th th'"
| wait: "Cv t \<notin> set (wait_queue th) \<Longrightarrow> throttle_wait t 0 th = Some (r, th') \<Longrightarrow> throttle_step th th'"
| resume: "Cv t \<in> set (wait_queue th) \<Longrightarrow> throttle_step th (snd (throttle_resume t th))"
| get_or_fail: "c \<le> tmax th \<Longrightarrow> throttle_get_or_fail c th = Some (r, th') \<Longrightarrow> throttle_step th th'"
| put: "throttle_put c th = Some (r, th') \<Longrightarrow> throttle_step th th'"

inductive throttle_reachable :: "int \<Rightarrow> throttle \<Rightarrow> bool" for m where
  init: "throttle_new m = Some th \<Longrightarrow> throttle_reachable m th"
| step: "throttle_reachable m th \<Longrightarrow> throttle_step th th' \<Longrightarrow> throttle_reachable m th'"

definition is_cv :: "waiter \<Rightarrow> bool" where
  "is_cv w = (case w of Cv _ \<Rightarrow> True | Cb _ _ \<Rightarrow> False)"

text \<open>The head of the queue is a signalled thread, or has to wait.\<close>

definition head_alert :: "throttle \<Rightarrow> bool" where
  "head_alert th =
     (case wait_queue th of
        Cv t # _ \<Rightarrow> should_wait (blocked th t) th \<or> t \<in> set (signalled th)
      | _ \<Rightarrow> True)"

definition throttle_inv :: "int \<Rightarrow> throttle \<Rightarrow> bool" where
  "throttle_inv m th \<longleftrightarrow> tmax th = m \<and> 0 \<le> m \<and> 0 \<le> count th \<and> count th \<le> m \<and>
     (\<forall>w \<in> set (wait_queue th). is_cv w) \<and> distinct (wait_queue th) \<and> 
     (\<forall>t. Cv t \<in> set (wait_queue th) \<longrightarrow> 0 \<le> blocked th t \<and> blocked th t \<le> m) \<and> head_alert th"

lemma signal_first_cv:
  "\<forall>w \<in> set (wait_queue th). is_cv w \<Longrightarrow>
    signal_first th = (case wait_queue th of Cv t # _ \<Rightarrow> th\<lparr>signalled := t # signalled th\<rparr> | _ \<Rightarrow> th)"
  by (subst signal_first.simps) (auto simp: is_cv_def split: list.splits waiter.splits)

lemma should_wait_fits: "\<not> should_wait c th \<Longrightarrow> tmax th \<noteq> 0 \<Longrightarrow> c \<le> tmax th \<Longrightarrow> count th + c \<le> tmax th"
  by (auto simp: should_wait_def Let_def)

lemma should_wait_mono:
  "should_wait c th \<Longrightarrow> tmax th' = tmax th \<Longrightarrow> count th \<le> count th' \<Longrightarrow> should_wait c th'"
  by (auto simp: should_wait_def Let_def)

lemma should_wait_cong: "tmax th' = tmax th \<Longrightarrow> count th' = count th \<Longrightarrow> should_wait c th' = should_wait c th"
  by (simp add: should_wait_def)

text \<open>Counting more in use keeps the alert; a signal of the head restores it.\<close>

lemma head_alert_more:
  assumes "head_alert th" and "tmax th' = tmax th" and "count th \<le> count th'"
    and "wait_queue th' = wait_queue th" and "blocked th' = blocked th" and "signalled th' = signalled th"
  shows "head_alert th'"
  using assms should_wait_mono [OF _ assms(2,3)]
  by (auto simp: head_alert_def split: list.splits waiter.splits)

lemma head_alert_signal:
  "\<forall>w \<in> set (wait_queue th). is_cv w \<Longrightarrow> head_alert (signal_first th)"
  by (auto simp: signal_first_cv head_alert_def split: list.splits waiter.splits)

lemma signal_first_fields:
  assumes "\<forall>w \<in> set (wait_queue th). is_cv w"
  shows "count (signal_first th) = count th" "tmax (signal_first th) = tmax th"
    "wait_queue (signal_first th) = wait_queue th" "blocked (signal_first th) = blocked th"
  by (simp_all add: signal_first_cv [OF assms] split: list.splits waiter.splits)

lemma wait_enter_inv:
  assumes inv: "throttle_inv m th" and t: "Cv t \<notin> set (wait_queue th)" and c: "0 \<le> c" "c \<le> m"
  shows "throttle_inv m (snd (wait_enter t c th))"
proof -
  have "head_alert (th\<lparr>wait_queue := wait_queue th @ [Cv t], blocked := (blocked th)(t := c)\<rparr>)"
    if "should_wait c th \<or> wait_queue th \<noteq> []"
    using inv that t
    by (cases "wait_queue th")
      (auto simp: throttle_inv_def head_alert_def should_wait_def Let_def split: waiter.splits)
  then show ?thesis using inv t c by (auto simp: wait_enter_def throttle_inv_def is_cv_def)
qed

lemma resume_inv:
  assumes inv: "throttle_inv m th" and t: "Cv t \<in> set (wait_queue th)"
  shows "throttle_inv m (snd (throttle_resume t th))"
proof -
  let ?th = "th\<lparr>signalled := removeAll t (signalled th)\<rparr>"
  obtain w q where wq: "wait_queue th = w # q" using t by (cases "wait_queue th") auto
  have sw: "should_wait c ?th = should_wait c th" for c by (simp add: should_wait_def)
  show ?thesis
  proof (cases "should_wait (blocked th t) th \<or> w \<noteq> Cv t")
    case True
    then have "head_alert ?th" using inv wq sw
      by (auto simp: throttle_inv_def head_alert_def split: waiter.splits)
    then show ?thesis using inv True wq sw
      by (simp add: throttle_resume_def Let_def throttle_inv_def)
  next
    case False
    let ?th1 = "?th\<lparr>wait_queue := q\<rparr>"
    have cv: "\<forall>w \<in> set (wait_queue ?th1). is_cv w" using inv wq by (simp add: throttle_inv_def)
    have b: "0 \<le> blocked th t" "blocked th t \<le> m" using inv t by (auto simp: throttle_inv_def)
    have fits: "count th + blocked th t \<le> m"
      using False inv b should_wait_fits [of "blocked th t" th]
      by (cases "m = 0") (auto simp: throttle_inv_def)
    have run: "snd (throttle_resume t th) = (signal_first ?th1)\<lparr>count := count th + blocked th t\<rparr>"
      using False wq sw by (simp add: throttle_resume_def Let_def signal_first_fields [OF cv])
    have "head_alert (snd (throttle_resume t th))"
      unfolding run using b(1) signal_first_fields [OF cv]
      by (intro head_alert_more [OF head_alert_signal [OF cv]]) simp_all
    then show ?thesis
      using inv wq fits b by (simp add: run throttle_inv_def signal_first_fields [OF cv])
  qed
qed

lemma add_inv:
  assumes "throttle_inv m th" and "0 \<le> c" and "count th + c \<le> m"
  shows "throttle_inv m (th\<lparr>count := count th + c\<rparr>)"
  using assms head_alert_more [of th "th\<lparr>count := count th + c\<rparr>"] by (simp add: throttle_inv_def)

lemma get_inv:
  assumes inv: "throttle_inv m th" and t: "Cv t \<notin> set (wait_queue th)" and c: "c \<le> tmax th"
    and get: "throttle_get t c 0 th = Some (r, th')"
  shows "throttle_inv m th'"
proof (cases "tmax th = 0")
  case True
  then show ?thesis using get inv by (simp add: throttle_get_def)
next
  case False
  have c0: "0 \<le> c" and m: "tmax th = m" using get False inv
    by (auto simp: throttle_get_def throttle_inv_def split: if_splits)
  have th': "(r, th') = (case wait_enter t c th of (Blocked, th) \<Rightarrow> (Blocked, th)
      | (Returned w, th) \<Rightarrow> (Returned w, th\<lparr>count := count th + c\<rparr>))"
    using get False c0 by (simp add: throttle_get_def maybe_reset_max_def)
  show ?thesis
  proof (cases "should_wait c th \<or> wait_queue th \<noteq> []")
    case True
    then show ?thesis using th' wait_enter_inv [OF inv t c0] c m by (auto simp: wait_enter_def)
  next
    case fits: False
    then show ?thesis
      using th' add_inv [OF inv c0] should_wait_fits [of c th] c m False by (simp add: wait_enter_def)
  qed
qed

lemma put_inv:
  assumes inv: "throttle_inv m th" and put: "throttle_put c th = Some (r, th')"
  shows "throttle_inv m th'"
proof (cases "tmax th = 0 \<or> c = 0")
  case True
  then show ?thesis using put inv by (auto simp: throttle_put_def split: if_splits)
next
  case False
  let ?th = "th\<lparr>count := count th - c\<rparr>"
  have cv: "\<forall>w \<in> set (wait_queue ?th). is_cv w" using inv by (simp add: throttle_inv_def)
  have "0 \<le> c" "c \<le> count th" "th' = signal_first ?th"
    using put False by (auto simp: throttle_put_def Let_def split: if_splits)
  then show ?thesis
    using inv head_alert_signal [OF cv] by (simp add: throttle_inv_def signal_first_fields [OF cv])
qed

lemma throttle_step_inv: "throttle_step th th' \<Longrightarrow> throttle_inv m th \<Longrightarrow> throttle_inv m th'"
proof (induction rule: throttle_step.induct)
  case (get_or_fail c th r th')
  then show ?case
    using add_inv [of m th c] should_wait_fits [of c th]
    by (auto simp: throttle_get_or_fail_def throttle_inv_def split: if_splits)
next
  case (wait t th r th')
  then show ?case using wait_enter_inv [of m th t 0]
    by (auto simp: throttle_wait_def maybe_reset_max_def throttle_inv_def split: if_splits)
qed (blast intro: get_inv resume_inv put_inv)+

lemma throttle_reachable_inv: "throttle_reachable m th \<Longrightarrow> throttle_inv m th"
proof (induction rule: throttle_reachable.induct)
  case (init th)
  then show ?case by (auto simp: throttle_new_def throttle_inv_def head_alert_def split: if_splits)
qed (blast intro: throttle_step_inv)

section \<open>Properties\<close>

text \<open>
  C18. Through the blocking interface, with requests no larger than the limit, the amount in use
  stays between zero and the limit whatever the order of requests, wake-ups and releases.
\<close>

theorem throttle_within_limit:
  assumes "throttle_reachable m th"
  shows "0 \<le> count th \<and> count th \<le> m"
  using throttle_reachable_inv [OF assms] by (simp add: throttle_inv_def)

text \<open>A throttle of limit 10 where a request for 4 has to wait behind 8.\<close>

definition sample_throttle :: throttle where
  "sample_throttle = \<lparr>count = 8, tmax = 10, wait_queue = [Cv 2], blocked = (\<lambda>_. 0)(2 := 4),
     signalled = [], fired = []\<rparr>"

lemma sample_throttle_reachable: "throttle_reachable 10 sample_throttle"
proof -
  let ?th0 = "\<lparr>count = 0, tmax = 10, wait_queue = [], blocked = (\<lambda>_. 0), signalled = [], fired = []\<rparr>"
  let ?th1 = "?th0\<lparr>count := 8\<rparr>"
  have "throttle_reachable 10 ?th0" by (rule throttle_reachable.init) (simp add: throttle_new_def)
  moreover have "throttle_step ?th0 ?th1"
    by (rule throttle_step.get [of 1 _ 8])
      (simp_all add: throttle_get_def maybe_reset_max_def wait_enter_def should_wait_def)
  moreover have "throttle_step ?th1 sample_throttle"
    by (rule throttle_step.get [of 2 _ 4])
      (simp_all add: throttle_get_def maybe_reset_max_def wait_enter_def should_wait_def sample_throttle_def)
  ultimately show ?thesis by (blast intro: throttle_reachable.step)
qed

theorem throttle_within_limit_witness: "count sample_throttle = 8 \<and> count sample_throttle \<le> 10"
  using throttle_within_limit [OF sample_throttle_reachable] by (simp add: sample_throttle_def)

text \<open>
  C22. No thread sleeps through its turn: when the request at the head of the queue fits, its
  thread has been signalled since it last looked, and looking it gets its amount.
\<close>

theorem throttle_head_gets_turn:
  assumes "throttle_reachable m th" and "wait_queue th = Cv t # q" and "\<not> should_wait (blocked th t) th"
  shows "t \<in> set (signalled th) \<and> fst (throttle_resume t th) = Returned True \<and>
    count (snd (throttle_resume t th)) = count th + blocked th t \<and> wait_queue (snd (throttle_resume t th)) = q"
proof -
  have inv: "throttle_inv m th" using assms(1) by (rule throttle_reachable_inv)
  let ?th = "th\<lparr>signalled := removeAll t (signalled th), wait_queue := q\<rparr>"
  have cv: "\<forall>w \<in> set (wait_queue ?th). is_cv w" using inv assms(2) by (simp add: throttle_inv_def)
  have "should_wait c (th\<lparr>signalled := removeAll t (signalled th)\<rparr>) = should_wait c th" for c
    by (simp add: should_wait_def)
  then show ?thesis
    using inv assms signal_first_fields [OF cv]
    by (simp add: throttle_inv_def head_alert_def throttle_resume_def Let_def)
qed

definition sample_throttle_put :: throttle where
  "sample_throttle_put = \<lparr>count = 5, tmax = 10, wait_queue = [Cv 2], blocked = (\<lambda>_. 0)(2 := 4),
     signalled = [2], fired = []\<rparr>"

lemma sample_throttle_put_reachable: "throttle_reachable 10 sample_throttle_put"
proof -
  have "throttle_step sample_throttle sample_throttle_put"
    by (rule throttle_step.put [of 3])
      (simp add: throttle_put_def sample_throttle_def sample_throttle_put_def signal_first.simps)
  then show ?thesis using sample_throttle_reachable by (blast intro: throttle_reachable.step)
qed

theorem throttle_head_gets_turn_witness:
  "count (snd (throttle_resume 2 sample_throttle_put)) = 9"
  using throttle_head_gets_turn [OF sample_throttle_put_reachable, of 2 "[]"]
  by (simp add: sample_throttle_put_def should_wait_def)

text \<open>
  A request through the callback interface that has to wait is counted twice: once when it
  is queued and once more when a release grants it.  A caller that later puts back what it
  asked for leaves the amount in use too high for good.
\<close>

theorem throttle_callback_counted_twice:
  assumes "wait_queue th = []" and "should_wait c th"
    and "throttle_get_cb a c 0 th = Some (waited, th1)"
    and "throttle_put p th1 = Some (r, th2)" and "fired th2 = fired th @ [(a, False)]"
  shows "waited \<and> count th2 = count th + 2 * c - p"
proof -
  have m: "tmax th \<noteq> 0" using assms(2) by (auto simp: should_wait_def)
  have c: "0 \<le> c" using assms(3) m by (auto simp: throttle_get_cb_def split: if_splits)
  have th1: "waited" "th1 = th\<lparr>wait_queue := [Cb a c], count := count th + c\<rparr>"
    using assms(1-3) m c by (simp_all add: throttle_get_cb_def maybe_reset_max_def wait_cb_def)
  have p: "p \<noteq> 0" using assms(4,5) th1(2) by (auto simp: throttle_put_def m split: if_splits)
  have "th2 = signal_first (th\<lparr>wait_queue := [Cb a c], count := count th + c - p\<rparr>)"
    using assms(4) th1(2) p m by (auto simp: throttle_put_def Let_def split: if_splits)
  then show ?thesis
    using assms(5) th1(1) by (auto simp: signal_first.simps split: if_splits)
qed

theorem throttle_callback_counted_twice_witness:
  "\<exists>th1 r th2. throttle_get_cb 7 3 0 (sample_throttle\<lparr>wait_queue := []\<rparr>) = Some (True, th1) \<and>
    throttle_put 8 th1 = Some (r, th2) \<and> count th2 = 6"
proof -
  let ?th = "sample_throttle\<lparr>wait_queue := []\<rparr>"
  let ?th1 = "?th\<lparr>wait_queue := [Cb 7 3], count := 11\<rparr>"
  let ?th2 = "?th\<lparr>wait_queue := [], count := 6, fired := [(7, False)]\<rparr>"
  have sw: "should_wait 3 ?th" by (simp add: should_wait_def sample_throttle_def)
  have get: "throttle_get_cb 7 3 0 ?th = Some (True, ?th1)"
    using sw by (simp add: throttle_get_cb_def maybe_reset_max_def wait_cb_def sample_throttle_def)
  have put: "throttle_put 8 ?th1 = Some (3, ?th2)"
    by (simp add: throttle_put_def signal_first.simps should_wait_def sample_throttle_def)
  have "count ?th2 = 6"
    using throttle_callback_counted_twice [OF _ sw get put] by (simp add: sample_throttle_def)
  then show ?thesis using get put by blast
qed

section \<open>SimpleThrottle\<close>

definition ENOENT :: int where "ENOENT = 2"

record simple_throttle =
  m_max :: u64
  m_current :: u64
  m_ret :: int
  m_ignore_enoent :: bool

definition simple_throttle_new :: "u64 \<Rightarrow> bool \<Rightarrow> simple_throttle" where
  "simple_throttle_new mx ignore = \<lparr>m_max = mx, m_current = 0, m_ret = 0, m_ignore_enoent = ignore\<rparr>"

text \<open>\<open>None\<close> while the caller stays blocked.\<close>

definition start_op :: "simple_throttle \<Rightarrow> simple_throttle option" where
  "start_op t = (if m_max t = m_current t then None else Some (t\<lparr>m_current := m_current t + 1\<rparr>))"

definition end_op :: "int \<Rightarrow> simple_throttle \<Rightarrow> simple_throttle" where
  "end_op r t =
     (let t = t\<lparr>m_current := m_current t - 1\<rparr>
      in if r < 0 \<and> m_ret t = 0 \<and> \<not> (r = - ENOENT \<and> m_ignore_enoent t) then t\<lparr>m_ret := r\<rparr> else t)"

definition pending_error :: "simple_throttle \<Rightarrow> bool" where
  "pending_error t \<longleftrightarrow> m_ret t < 0"

definition wait_for_ret :: "simple_throttle \<Rightarrow> int option" where
  "wait_for_ret t = (if m_current t > 0 then None else Some (m_ret t))"

text \<open>A history: \<open>None\<close> starts an operation, \<open>Some r\<close> ends one with result \<open>r\<close>.\<close>

fun simple_run :: "int option list \<Rightarrow> simple_throttle \<Rightarrow> simple_throttle option" where
  "simple_run [] t = Some t"
| "simple_run (None # evs) t = Option.bind (start_op t) (simple_run evs)"
| "simple_run (Some r # evs) t = (if m_current t = 0 then None else simple_run evs (end_op r t))"

definition counted_errors :: "bool \<Rightarrow> int option list \<Rightarrow> int list" where
  "counted_errors ignore evs =
     filter (\<lambda>r. r < 0 \<and> \<not> (r = - ENOENT \<and> ignore)) (List.map_filter (\<lambda>e. e) evs)"

lemma end_op_fields:
  "m_max (end_op r t) = m_max t" "m_ignore_enoent (end_op r t) = m_ignore_enoent t"
  "m_current (end_op r t) = m_current t - 1"
  by (simp_all add: end_op_def Let_def)

lemma word_less_succ_le:
  fixes x y :: "'a::len word"
  shows "x \<le> y \<Longrightarrow> x \<noteq> y \<Longrightarrow> x + 1 \<le> y"
  by (meson inc_le order_le_neq_trans)

lemma word_pred_le:
  fixes x y :: "'a::len word"
  shows "x \<noteq> 0 \<Longrightarrow> x \<le> y \<Longrightarrow> x - 1 \<le> y"
  by (meson measure_unat order_less_imp_le order_trans word_le_nat_alt)

lemma simple_run_gen:
  assumes "simple_run evs t = Some t'" and "m_current t \<le> m_max t"
  shows "m_current t' \<le> m_max t' \<and>
    m_ret t' = (if m_ret t \<noteq> 0 then m_ret t
                else case counted_errors (m_ignore_enoent t) evs of [] \<Rightarrow> 0 | r # _ \<Rightarrow> r)"
  using assms
proof (induction evs t rule: simple_run.induct)
  case (2 evs t)
  then obtain t1 where t1: "start_op t = Some t1" "simple_run evs t1 = Some t'"
    by (auto split: Option.bind_splits)
  have f: "m_max t1 = m_max t" "m_ret t1 = m_ret t" "m_ignore_enoent t1 = m_ignore_enoent t"
    "m_current t1 \<le> m_max t1"
    using t1(1) 2(3) by (auto simp: start_op_def word_less_succ_le split: if_splits)
  show ?case using 2(1) [OF t1(1,2) f(4)] f by (simp add: counted_errors_def List.map_filter_simps)
next
  case (3 r evs t)
  have run: "m_current t \<noteq> 0" "simple_run evs (end_op r t) = Some t'"
    using 3(2) by (auto split: if_splits)
  have "m_current (end_op r t) \<le> m_max (end_op r t)"
    using run(1) 3(3) by (simp add: end_op_fields word_pred_le)
  from 3(1) [OF run(1) run(2) this] show ?case
    by (auto simp: end_op_def Let_def counted_errors_def List.map_filter_simps)
qed (simp add: counted_errors_def List.map_filter_simps)

text \<open>
  A \<^verbatim>\<open>SimpleThrottle\<close> never has more operations in flight than its limit, and what
  \<^verbatim>\<open>wait_for_ret\<close> returns is the first error any of them reported, \<^verbatim>\<open>-ENOENT\<close> left out on demand.
\<close>

theorem simple_throttle_first_error:
  assumes "simple_run evs (simple_throttle_new mx ignore) = Some t"
  shows "m_current t \<le> m_max t \<and>
    m_ret t = (case counted_errors ignore evs of [] \<Rightarrow> 0 | r # _ \<Rightarrow> r)"
  using simple_run_gen [OF assms] by (simp add: simple_throttle_new_def)

theorem simple_throttle_first_error_witness:
  "\<exists>t. simple_run [None, None, Some (-2), None, Some (-5), Some (-7)] (simple_throttle_new 2 True) = Some t \<and>
    m_ret t = -5"
proof -
  let ?evs = "[None, None, Some (-2), None, Some (-5), Some (-7)]"
  have "\<exists>t. simple_run ?evs (simple_throttle_new 2 True) = Some t"
    by (simp add: simple_throttle_new_def start_op_def end_op_def ENOENT_def)
  then show ?thesis
    using simple_throttle_first_error [of ?evs 2 True]
    by (auto simp: counted_errors_def List.map_filter_simps ENOENT_def)
qed

end
