(* ===== verification/Conn_Open.thy ===== *)
theory Conn_Open
  imports Conn_State Socket_IO Session Message Throttle
begin

text \<open>
  The receiving half of an open \<^verbatim>\<open>AsyncConnection\<close>: the open states of \<^verbatim>\<open>do_process\<close>
  (\<^verbatim>\<open>src/src/async/AsyncConnection.cc\<close>) and the default buffer allocator (\<^verbatim>\<open>src/src/BufferAllocator.cc\<close>).
  One step is one round of the loop of \<^verbatim>\<open>do_process\<close>.  Time stamps and log output are left out.
\<close>

section \<open>The buffer allocator\<close>

definition allocate_msg_payload :: "nat \<Rightarrow> heap \<Rightarrow> bptr \<times> heap" where
  "allocate_msg_payload len h = (let (a, h) = create len h in (ptr_of_raw a h, h))"

definition allocate_msg_middle :: "nat \<Rightarrow> heap \<Rightarrow> bptr \<times> heap" where
  "allocate_msg_middle len h = (let (a, h) = create len h in (ptr_of_raw a h, h))"

text \<open>The head of the data goes to a buffer of its own, so that the rest starts at a page boundary.\<close>

definition allocate_msg_data :: "nat \<Rightarrow> nat \<Rightarrow> blist \<Rightarrow> heap \<Rightarrow> buf_error + blist \<times> heap" where
  "allocate_msg_data off len bl h =
     (let in_page = off mod MSGR_PAGE_SIZE;
          (left, bl, h) =
            (if in_page \<noteq> 0
             then (let n = min (MSGR_PAGE_SIZE - in_page) len; (a, h) = create n h
                   in (len - n, push_back (ptr_of_raw a h) bl, h))
             else (len, bl, h))
      in if left \<noteq> 0
         then (case create_page_aligned left h of
                 Inl e \<Rightarrow> Inl e
               | Inr (a, h) \<Rightarrow> Inr (push_back (ptr_of_raw a h) bl, h))
         else Inr (bl, h))"

section \<open>State\<close>

text \<open>What the messenger and its configuration provide.  The thread is the worker that runs the connection.\<close>

record env =
  mach :: machine
  make_msg :: "int \<Rightarrow> message option"
  dec_payload :: "message \<Rightarrow> heap \<Rightarrow> buf_error + message \<times> heap"
  fast :: "message \<Rightarrow> bool"
  crc_flags :: u32
  die_on_bad_msg :: bool
  die_on_old_message :: bool
  die_on_skipped_message :: bool
  max_recv_bytes :: nat
  thread :: nat

text \<open>The calls the connection makes on its dispatch queue.\<close>

datatype in_q_call = Fast_preprocess message | Fast_dispatch message | Enqueue message u32 u64

text \<open>
  \<open>memory\<close> holds the blocks of the buffers; \<open>throttles\<close> the throttles by number, \<open>throttler_bytes\<close> and
  \<open>throttler_messages\<close> those of the policy (0 is the null pointer).  \<open>total_recv_bytes\<close> is the local
  variable of \<^verbatim>\<open>do_process\<close>, \<open>write_started\<close> whether \<^verbatim>\<open>ev_write\<close> was started, \<open>process_timer\<close> whether the timer
  \<^verbatim>\<open>ev_process\<close> is due.
\<close>

record 's conn =
  input :: "'s reader"
  sess :: session
  state :: conn_state
  state_buffer :: "byte list"
  current_header :: msgr_msg_header
  current_footer :: msgr_msg_footer
  front :: blist
  cmiddle :: blist
  cdata :: blist
  data_buf :: blist
  data_blp :: iter
  msg_left :: nat
  memory :: heap
  rx_buffers :: "u64 \<rightharpoonup> blist \<times> int"
  throttles :: "nat \<Rightarrow> throttle"
  throttler_bytes :: nat
  throttler_messages :: nat
  keepalive_ack :: bool
  keepalive_ack_stamp :: "u32 \<times> u32"
  last_keepalive_ack :: "u32 \<times> u32"
  conn_id :: u64
  write_started :: bool
  process_timer :: bool
  in_q_calls :: "in_q_call list"
  total_recv_bytes :: u32

text \<open>
  How a round ends: \<open>Next\<close> goes to the loop condition, \<open>Leave\<close> is \<^verbatim>\<open>return\<close>, \<open>Fail\<close> is \<^verbatim>\<open>goto fail\<close>, \<open>Close\<close>
  the \<^verbatim>\<open>_stop\<close> or \<^verbatim>\<open>do_replace\<close> of \<^verbatim>\<open>STATE_OPEN_TAG_CLOSE\<close>, \<open>Block\<close> waits for a throttle, \<open>Crash\<close> is an assertion
  or exception, \<open>Other\<close> a state that belongs to the handshake.
\<close>

datatype 's round =
    Next "'s conn" | Leave "'s conn" | Fail "'s conn" | Close "'s conn" | Block "'s conn" | Crash | Other

definition MSGR_MSGR_TAG_CLOSE :: byte where "MSGR_MSGR_TAG_CLOSE = 6"
definition MSGR_MSGR_TAG_MSG :: byte where "MSGR_MSGR_TAG_MSG = 7"
definition MSGR_MSGR_TAG_ACK :: byte where "MSGR_MSGR_TAG_ACK = 8"
definition MSGR_MSGR_TAG_KEEPALIVE2 :: byte where "MSGR_MSGR_TAG_KEEPALIVE2 = 14"
definition MSGR_MSGR_TAG_KEEPALIVE2_ACK :: byte where "MSGR_MSGR_TAG_KEEPALIVE2_ACK = 15"

section \<open>Steps\<close>

text \<open>Reading \<open>len\<close> bytes into a destination, and what to do when they are there.\<close>

definition reading ::
    "'s read_fn \<Rightarrow> nat \<Rightarrow> ('s conn \<Rightarrow> byte list) \<Rightarrow> (byte list \<Rightarrow> 's conn \<Rightarrow> 's conn) \<Rightarrow> ('s conn \<Rightarrow> 's round) \<Rightarrow> 's conn \<Rightarrow> 's round" where
  "reading rd len dest store k c =
     (case read_until rd len (dest c) (input c) of
        None \<Rightarrow> Crash
      | Some (r, p, R) \<Rightarrow>
          (let c = store p (c\<lparr>input := R\<rparr>) in if r < 0 then Fail c else if r > 0 then Next c else k c))"

text \<open>Into \<^verbatim>\<open>state_buffer\<close>; the continuation gets the bytes.\<close>

definition read_struct :: "'s read_fn \<Rightarrow> nat \<Rightarrow> (byte list \<Rightarrow> 's conn \<Rightarrow> 's round) \<Rightarrow> 's conn \<Rightarrow> 's round" where
  "read_struct rd len k =
     reading rd len state_buffer (\<lambda>p c. c\<lparr>state_buffer := p\<rparr>) (\<lambda>c. k (take len (state_buffer c)) c)"

text \<open>Into the block behind a window.\<close>

definition read_window :: "'s read_fn \<Rightarrow> nat \<Rightarrow> bptr \<Rightarrow> ('s conn \<Rightarrow> 's round) \<Rightarrow> 's conn \<Rightarrow> 's round" where
  "read_window rd len bp =
     reading rd len (\<lambda>c. ptr_c_str (memory c) bp)
       (\<lambda>p c. c\<lparr>memory := poke (the (praw bp)) (poff bp) p (memory c)\<rparr>)"

text \<open>\<^verbatim>\<open>front_len + middle_len + data_len\<close> is computed with 32 bits and then widened.\<close>

definition message_size :: "msgr_msg_header \<Rightarrow> u64" where
  "message_size x = ucast (front_len x + middle_len x + data_len x)"

text \<open>The tag is read into a local variable, which starts as -1 in every round.\<close>

definition step_open :: "'s read_fn \<Rightarrow> 's conn \<Rightarrow> 's round" where
  "step_open rd c =
     (case read_until rd 1 [-1] (input c) of
        None \<Rightarrow> Crash
      | Some (r, p, R) \<Rightarrow>
          (let c = c\<lparr>input := R\<rparr>; tag = hd p
           in if r < 0 then Fail c
              else if r > 0 then Next c
              else if tag = MSGR_MSGR_TAG_KEEPALIVE2 then Next (c\<lparr>state := STATE_OPEN_KEEPALIVE2\<rparr>)
              else if tag = MSGR_MSGR_TAG_KEEPALIVE2_ACK then Next (c\<lparr>state := STATE_OPEN_KEEPALIVE2_ACK\<rparr>)
              else if tag = MSGR_MSGR_TAG_ACK then Next (c\<lparr>state := STATE_OPEN_TAG_ACK\<rparr>)
              else if tag = MSGR_MSGR_TAG_MSG then Next (c\<lparr>state := STATE_OPEN_MESSAGE_HEADER\<rparr>)
              else if tag = MSGR_MSGR_TAG_CLOSE then Next (c\<lparr>state := STATE_OPEN_TAG_CLOSE\<rparr>)
              else Fail c))"

definition timespec_of :: "endian \<Rightarrow> byte list \<Rightarrow> u32 \<times> u32" where
  "timespec_of e bs = (le32_val e (field 0 4 bs), le32_val e (field 4 4 bs))"

definition step_keepalive2 :: "env \<Rightarrow> 's read_fn \<Rightarrow> 's conn \<Rightarrow> 's round" where
  "step_keepalive2 E rd =
     read_struct rd 8 (\<lambda>bs c. Next (c\<lparr>keepalive_ack := True, keepalive_ack_stamp := timespec_of (host (mach E)) bs,
                                      write_started := True, state := STATE_OPEN\<rparr>))"

definition step_keepalive2_ack :: "env \<Rightarrow> 's read_fn \<Rightarrow> 's conn \<Rightarrow> 's round" where
  "step_keepalive2_ack E rd =
     read_struct rd 8 (\<lambda>bs c. Next (c\<lparr>last_keepalive_ack := timespec_of (host (mach E)) bs, state := STATE_OPEN\<rparr>))"

definition step_tag_ack :: "env \<Rightarrow> 's read_fn \<Rightarrow> 's conn \<Rightarrow> 's round" where
  "step_tag_ack E rd =
     read_struct rd 8 (\<lambda>bs c. Next (c\<lparr>sess := handle_ack (le64_val (host (mach E)) bs) (sess c), state := STATE_OPEN\<rparr>))"

definition step_header :: "env \<Rightarrow> 's read_fn \<Rightarrow> 's conn \<Rightarrow> 's round" where
  "step_header E rd =
     read_struct rd 53 (\<lambda>bs c.
       let x = header_of (host (mach E)) bs
       in if crc_flags E AND MSG_CRC_HEADER \<noteq> 0 \<and> header_crc (mach E) x \<noteq> hcrc x then Fail c
          else Next (c\<lparr>data_buf := bl_clear (data_buf c), front := bl_clear (front c), cmiddle := bl_clear (cmiddle c),
                       cdata := bl_clear (cdata c), current_header := x, state := STATE_OPEN_MESSAGE_THROTTLE_MESSAGE\<rparr>))"

text \<open>
  \<^verbatim>\<open>Throttle::get\<close> on throttle \<open>t\<close> (nothing when it is null), then the next state.  A thread that has to
  wait goes on in \<open>resume_throttle\<close>.
\<close>

definition take_throttle :: "env \<Rightarrow> nat \<Rightarrow> int \<Rightarrow> conn_state \<Rightarrow> 's conn \<Rightarrow> 's round" where
  "take_throttle E t n next c =
     (if t = 0 then Next (c\<lparr>state := next\<rparr>)
      else
        (case throttle_get (thread E) n 0 (throttles c t) of
           None \<Rightarrow> Crash
         | Some (Returned _, th) \<Rightarrow> Next (c\<lparr>throttles := (throttles c)(t := th), state := next\<rparr>)
         | Some (Blocked, th) \<Rightarrow> Block (c\<lparr>throttles := (throttles c)(t := th)\<rparr>)))"

definition resume_throttle :: "env \<Rightarrow> nat \<Rightarrow> conn_state \<Rightarrow> 's conn \<Rightarrow> 's round" where
  "resume_throttle E t next c =
     (case throttle_resume (thread E) (throttles c t) of
        (Returned _, th) \<Rightarrow> Next (c\<lparr>throttles := (throttles c)(t := th), state := next\<rparr>)
      | (Blocked, th) \<Rightarrow> Block (c\<lparr>throttles := (throttles c)(t := th)\<rparr>))"

definition step_throttle_message :: "env \<Rightarrow> 's conn \<Rightarrow> 's round" where
  "step_throttle_message E c = take_throttle E (throttler_messages c) 1 STATE_OPEN_MESSAGE_THROTTLE_BYTES c"

definition step_throttle_bytes :: "env \<Rightarrow> 's conn \<Rightarrow> 's round" where
  "step_throttle_bytes E c =
     (let n = message_size (current_header c)
      in take_throttle E (if n \<noteq> 0 then throttler_bytes c else 0) (uint n) STATE_OPEN_MESSAGE_READ_FRONT c)"

text \<open>The buffer is allocated in the first round; it is the only window of the list.\<close>

definition step_read_front :: "'s read_fn \<Rightarrow> 's conn \<Rightarrow> 's round" where
  "step_read_front rd c =
     (let len = unat (front_len (current_header c))
      in if len = 0 then Next (c\<lparr>state := STATE_OPEN_MESSAGE_READ_MIDDLE\<rparr>)
         else
           (let c = (if blen (front c) = 0
                     then (let (p, h) = allocate_msg_payload len (memory c) in c\<lparr>front := push_back p (front c), memory := h\<rparr>)
                     else c)
            in read_window rd len (hd (buffers (front c))) (\<lambda>c. Next (c\<lparr>state := STATE_OPEN_MESSAGE_READ_MIDDLE\<rparr>)) c))"

definition step_read_middle :: "'s read_fn \<Rightarrow> 's conn \<Rightarrow> 's round" where
  "step_read_middle rd c =
     (let len = unat (middle_len (current_header c))
      in if len = 0 then Next (c\<lparr>state := STATE_OPEN_MESSAGE_READ_DATA_PREPARE\<rparr>)
         else
           (let c = (if blen (cmiddle c) = 0
                     then (let (p, h) = allocate_msg_middle len (memory c) in c\<lparr>cmiddle := push_back p (cmiddle c), memory := h\<rparr>)
                     else c)
            in read_window rd len (hd (buffers (cmiddle c))) (\<lambda>c. Next (c\<lparr>state := STATE_OPEN_MESSAGE_READ_DATA_PREPARE\<rparr>)) c))"

text \<open>A posted receive buffer is used if there is one for the transaction, extended if it is too short.\<close>

definition step_data_prepare :: "'s conn \<Rightarrow> 's round" where
  "step_data_prepare c =
     (let len = unat (data_len (current_header c)); off = unat (data_off (current_header c));
          done = (\<lambda>c. Next (c\<lparr>msg_left := len, state := STATE_OPEN_MESSAGE_READ_DATA\<rparr>))
      in if len = 0 then done c
         else
           (case rx_buffers c (tid (current_header c)) of
              Some (bl, _) \<Rightarrow>
                (let (b, h) = bl_assign (data_buf c) bl (memory c);
                     (b, h) = (if blen b < len
                               then (let (a, h) = create (len - blen b) h in (push_back (ptr_of_raw a h) b, h)) else (b, h))
                 in done (c\<lparr>data_buf := b, data_blp := iter_begin, memory := h\<rparr>))
            | None \<Rightarrow>
                (case allocate_msg_data off len (data_buf c) (memory c) of
                   Inl _ \<Rightarrow> Crash
                 | Inr (b, h) \<Rightarrow> done (c\<lparr>data_buf := b, data_blp := iter_begin, memory := h\<rparr>))))"

text \<open>One round of the inner loop of \<^verbatim>\<open>STATE_OPEN_MESSAGE_READ_DATA\<close>: the end of the step, or the piece is there.\<close>

definition read_data_piece :: "'s read_fn \<Rightarrow> 's conn \<Rightarrow> 's round + 's conn" where
  "read_data_piece rd c =
     (case get_current_ptr (buffers (data_buf c)) (data_blp c) of
        Inl _ \<Rightarrow> Inl Crash
      | Inr bp \<Rightarrow>
          (let len = min (plen bp) (msg_left c)
           in case read_until rd len (ptr_c_str (memory c) bp) (input c) of
                None \<Rightarrow> Inl Crash
              | Some (r, p, R) \<Rightarrow>
                  (let c = c\<lparr>input := R, memory := poke (the (praw bp)) (poff bp) p (memory c)\<rparr>
                   in if r < 0 then Inl (Fail c)
                      else if r > 0 then Inl (Next c)
                      else
                        (case advance (buffers (data_buf c)) (int len) (data_blp c) of
                           Inl _ \<Rightarrow> Inl Crash
                         | Inr it \<Rightarrow>
                             (case append_range bp 0 len (cdata c) of
                                Inl _ \<Rightarrow> Inl Crash
                              | Inr d \<Rightarrow> Inr (c\<lparr>data_blp := it, cdata := d, msg_left := msg_left c - len\<rparr>))))))"

lemma read_data_piece_less:
  assumes "read_data_piece rd c = Inr c'" and "msg_left c \<noteq> 0"
  shows "msg_left c' < msg_left c"
  using assms
  by (auto simp: read_data_piece_def read_until_def Let_def split: sum.splits option.splits prod.splits if_splits)

function step_read_data :: "'s read_fn \<Rightarrow> 's conn \<Rightarrow> 's round" where
  "step_read_data rd c =
     (if msg_left c = 0 then Next (c\<lparr>state := STATE_OPEN_MESSAGE_READ_FOOTER\<rparr>)
      else (case read_data_piece rd c of Inl x \<Rightarrow> x | Inr c \<Rightarrow> step_read_data rd c))"
  by pat_completeness auto
termination by (relation "measure (\<lambda>(rd, c). msg_left c)") (auto dest: read_data_piece_less)

declare step_read_data.simps [simp del]

definition step_read_footer :: "env \<Rightarrow> 's read_fn \<Rightarrow> 's conn \<Rightarrow> 's round" where
  "step_read_footer E rd =
     read_struct rd 21 (\<lambda>bs c.
       let ft = footer_of (host (mach E)) bs; c = c\<lparr>current_footer := ft\<rparr>
       in if fflags ft AND MSGR_MSG_FOOTER_COMPLETE = 0 then Fail c
          else Next (c\<lparr>state := STATE_OPEN_MESSAGE_THROTTLE_DISPATCH_SIZE\<rparr>))"

text \<open>
  \<^verbatim>\<open>STATE_OPEN_MESSAGE_DISPATCH\<close>.  A decoder that fails with an assertion, and the two \<^verbatim>\<open>ms_die_on\<close> switches, crash.
  The message that is dropped as old is destroyed.
\<close>

definition put_throttles :: "(nat \<times> u64) list \<Rightarrow> (nat \<Rightarrow> throttle) \<Rightarrow> (nat \<Rightarrow> throttle) option" where
  "put_throttles ps ths =
     fold (\<lambda>(t, n) o'. case o' of None \<Rightarrow> None
                     | Some ths \<Rightarrow> map_option (\<lambda>(_, th). ths(t := th)) (throttle_put (uint n) (ths t))) ps (Some ths)"

definition hand_over :: "env \<Rightarrow> message \<Rightarrow> u64 \<Rightarrow> in_q_call list" where
  "hand_over E m cid =
     [Fast_preprocess m, if fast E m then Fast_dispatch m else Enqueue m (ucast (priority (header m))) cid]"

definition step_dispatch :: "env \<Rightarrow> 's conn \<Rightarrow> 's round" where
  "step_dispatch E c =
     (let n = message_size (current_header c); c = c\<lparr>total_recv_bytes := total_recv_bytes c + ucast n\<rparr>
      in case decode_message (mach E) (make_msg E) (dec_payload E) (Some (die_on_bad_msg E)) (crc_flags E)
                (current_header c) (current_footer c) (front c) (cmiddle c) (cdata c) (memory c) of
           Crashed \<Rightarrow> Crash
         | Rejected \<Rightarrow> Fail c
         | Decoded m h \<Rightarrow>
             (let m = m\<lparr>byte_throttler := throttler_bytes c, msg_throttler := throttler_messages c, reserved_size := n\<rparr>;
                  c = c\<lparr>memory := h, state := STATE_OPEN\<rparr>; old = in_seq (sess c); (new, s) = receive_seq (get_seq m) (sess c)
              in if \<not> new
                 then (case put_throttles (destroy_message m) (throttles c) of
                         None \<Rightarrow> Crash
                       | Some ths \<Rightarrow> if die_on_old_message E then Crash else Next (c\<lparr>throttles := ths\<rparr>))
                 else if ucast (get_seq m) > old + 1 \<and> die_on_skipped_message E then Crash
                 else
                   (let c = c\<lparr>sess := s, write_started := (write_started c \<or> in_seq s > in_seq_acked s),
                              in_q_calls := in_q_calls c @ hand_over E m (conn_id c)\<rparr>
                    in if unat (total_recv_bytes c) > max_recv_bytes E
                       then Leave (c\<lparr>process_timer := (process_timer c \<or> recv_start (input c) \<noteq> recv_end (input c))\<rparr>)
                       else Next c)))"

text \<open>One round of the loop.\<close>

definition step :: "env \<Rightarrow> 's read_fn \<Rightarrow> 's conn \<Rightarrow> 's round" where
  "step E rd c =
     (case state c of
        STATE_OPEN \<Rightarrow> step_open rd c
      | STATE_OPEN_KEEPALIVE2 \<Rightarrow> step_keepalive2 E rd c
      | STATE_OPEN_KEEPALIVE2_ACK \<Rightarrow> step_keepalive2_ack E rd c
      | STATE_OPEN_TAG_ACK \<Rightarrow> step_tag_ack E rd c
      | STATE_OPEN_MESSAGE_HEADER \<Rightarrow> step_header E rd c
      | STATE_OPEN_MESSAGE_THROTTLE_MESSAGE \<Rightarrow> step_throttle_message E c
      | STATE_OPEN_MESSAGE_THROTTLE_BYTES \<Rightarrow> step_throttle_bytes E c
      | STATE_OPEN_MESSAGE_READ_FRONT \<Rightarrow> step_read_front rd c
      | STATE_OPEN_MESSAGE_READ_MIDDLE \<Rightarrow> step_read_middle rd c
      | STATE_OPEN_MESSAGE_READ_DATA_PREPARE \<Rightarrow> step_data_prepare c
      | STATE_OPEN_MESSAGE_READ_DATA \<Rightarrow> step_read_data rd c
      | STATE_OPEN_MESSAGE_READ_FOOTER \<Rightarrow> step_read_footer E rd c
      | STATE_OPEN_MESSAGE_THROTTLE_DISPATCH_SIZE \<Rightarrow> Next (c\<lparr>state := STATE_OPEN_MESSAGE_DISPATCH\<rparr>)
      | STATE_OPEN_MESSAGE_DISPATCH \<Rightarrow> step_dispatch E c
      | STATE_OPEN_TAG_CLOSE \<Rightarrow> Close c
      | STATE_STANDBY \<Rightarrow> Next c
      | STATE_CLOSED \<Rightarrow> Next c
      | _ \<Rightarrow> Other)"

text \<open>
  \<^verbatim>\<open>do_process\<close> while the connection is open and not being stopped: rounds until one leaves the state as
  it is.  \<open>None\<close>: the loop does not end.
\<close>

partial_function (option) process_loop :: "env \<Rightarrow> 's read_fn \<Rightarrow> 's conn \<Rightarrow> 's round option" where
  "process_loop E rd c =
     (case step E rd c of
        Next c' \<Rightarrow> (if state c' \<noteq> state c then process_loop E rd c' else Some (Next c'))
      | x \<Rightarrow> Some x)"

definition do_process :: "env \<Rightarrow> 's read_fn \<Rightarrow> 's conn \<Rightarrow> 's round option" where
  "do_process E rd c = process_loop E rd (c\<lparr>total_recv_bytes := 0\<rparr>)"

text \<open>\<^verbatim>\<open>release_throttle\<close> gives back what was taken for a message that is given up.\<close>

definition release_throttle :: "conn_state \<Rightarrow> 's conn \<Rightarrow> 's conn option" where
  "release_throttle prev c =
     map_option (\<lambda>ths. c\<lparr>throttles := ths\<rparr>)
       (put_throttles
          ((if prev > STATE_OPEN_MESSAGE_THROTTLE_MESSAGE \<and> prev \<le> STATE_OPEN_MESSAGE_DISPATCH \<and> throttler_messages c \<noteq> 0
            then [(throttler_messages c, 1)] else [])
           @ (if prev > STATE_OPEN_MESSAGE_THROTTLE_BYTES \<and> prev \<le> STATE_OPEN_MESSAGE_DISPATCH \<and> throttler_bytes c \<noteq> 0
              then [(throttler_bytes c, message_size (current_header c))] else []))
          (throttles c))"

end
