(* ===== verification/Conn_Frame.thy ===== *)
theory Conn_Frame
  imports Conn_Open
begin

text \<open>
  What the open states of a connection read: for any stream of bytes, cut in any way, the
  sections that are handed to \<^verbatim>\<open>decode_message\<close> are the bytes of the stream at the places the header
  says, no assertion fails, and a message that was written by the peer is dispatched.
\<close>

section \<open>What a connection has read\<close>

text \<open>
  The invariant relates the state to the bytes \<open>G\<close> read since the last tag: the state buffer, the
  sections and the header are exactly these bytes, and \<^verbatim>\<open>state_offset\<close> is how far the current piece is.
\<close>

definition empty_list :: "blist \<Rightarrow> bool" where
  "empty_list bl \<longleftrightarrow> buffers bl = [] \<and> blen bl = 0 \<and> append_buffer bl = null_ptr"

definition whole_list :: "heap \<Rightarrow> blist \<Rightarrow> nat \<Rightarrow> byte list \<Rightarrow> bool" where
  "whole_list h bl len bs \<longleftrightarrow> list_ok h bl \<and> append_buffer bl = null_ptr \<and> contents h bl = bs \<and> length bs = len"

definition avoids :: "blist \<Rightarrow> bptr \<Rightarrow> bool" where
  "avoids bl q \<longleftrightarrow> (\<forall>p \<in> set (buffers bl). praw p \<noteq> praw q)"

text \<open>A window of \<open>len\<close> bytes of which the first are \<open>bs\<close>.\<close>

definition holds :: "heap \<Rightarrow> bptr \<Rightarrow> nat \<Rightarrow> byte list \<Rightarrow> bool" where
  "holds h p len bs \<longleftrightarrow> ptr_ok h p \<and> praw p \<noteq> None \<and> plen p = len \<and> length bs < len \<and> take (length bs) (bytes h p) = bs"

text \<open>A section that is being read: not begun, or one window partly filled.\<close>

definition partly :: "heap \<Rightarrow> blist \<Rightarrow> nat \<Rightarrow> byte list \<Rightarrow> bool" where
  "partly h bl len bs \<longleftrightarrow> empty_list bl \<and> bs = [] \<or>
     (\<exists>p. buffers bl = [p] \<and> blen bl = len \<and> append_buffer bl = null_ptr \<and> holds h p len bs)"

definition head_ok :: "env \<Rightarrow> 's conn \<Rightarrow> byte list \<Rightarrow> bool" where
  "head_ok E c hb \<longleftrightarrow> length hb = 53 \<and> header_of (host (mach E)) hb = current_header c"

text \<open>The windows the data goes to; \<open>D\<close> are the pieces already in \<^verbatim>\<open>data\<close>, \<open>P\<close> the part of the current one.\<close>

definition data_ok :: "'s conn \<Rightarrow> byte list \<Rightarrow> byte list \<Rightarrow> bool" where
  "data_ok c D P \<longleftrightarrow>
     (let ps = buffers (data_buf c); it = data_blp c
      in whole_list (memory c) (cdata c) (length D) D \<and> length D + msg_left c = unat (data_len (current_header c)) \<and>
         (msg_left c = 0 \<and> P = [] \<or> msg_left c \<noteq> 0 \<and>
          segs_ok (memory c) ps \<and> distinct (map praw ps) \<and> total_len ps = unat (data_len (current_header c)) \<and>
          (\<forall>p \<in> set ps. avoids (front c) p \<and> avoids (cmiddle c) p) \<and>
          ip it < length ps \<and> ip_off it = 0 \<and> ioff it = total_len (take (ip it) ps) \<and> ioff it = length D \<and>
          (\<forall>p \<in> set (drop (ip it) ps). avoids (cdata c) p) \<and>
          holds (memory c) (ps ! ip it) (plen (ps ! ip it)) P))"

definition conn_ok :: "'s conn \<Rightarrow> bool" where
  "conn_ok c \<longleftrightarrow> reader_ok (input c) \<and> length (state_buffer c) = 4096 \<and> heap_ok (memory c) \<and> rx_buffers c = Map.empty \<and>
     append_buffer (front c) = null_ptr \<and> append_buffer (cmiddle c) = null_ptr \<and> append_buffer (cdata c) = null_ptr \<and>
     append_buffer (data_buf c) = null_ptr \<and> throttler_bytes c = 0 \<and> throttler_messages c = 0"

definition in_struct :: "'s conn \<Rightarrow> nat \<Rightarrow> byte list \<Rightarrow> bool" where
  "in_struct c len bs \<longleftrightarrow> length bs < len \<and> take (length bs) (state_buffer c) = bs"

text \<open>A complete message: header, sections and footer.\<close>

definition framed :: "env \<Rightarrow> 's conn \<Rightarrow> byte list \<Rightarrow> byte list \<Rightarrow> byte list \<Rightarrow> byte list \<Rightarrow> byte list \<Rightarrow> bool" where
  "framed E c hb F M D P \<longleftrightarrow> state_offset (input c) = 0 \<and> head_ok E c hb \<and>
     whole_list (memory c) (front c) (unat (front_len (current_header c))) F \<and>
     whole_list (memory c) (cmiddle c) (unat (middle_len (current_header c))) M \<and>
     whole_list (memory c) (cdata c) (unat (data_len (current_header c))) D \<and> length P = 21 \<and>
     footer_of (host (mach E)) P = current_footer c \<and> fflags (current_footer c) AND MSGR_MSG_FOOTER_COMPLETE \<noteq> 0"

definition conn_inv :: "env \<Rightarrow> 's conn \<Rightarrow> byte list \<Rightarrow> bool" where
  "conn_inv E c G \<longleftrightarrow> conn_ok c \<and>
     (let off = state_offset (input c); x = current_header c; h = memory c;
          fl = unat (front_len x); ml = unat (middle_len x); dl = unat (data_len x)
      in case state c of
           STATE_OPEN \<Rightarrow> off = 0 \<and> G = []
         | STATE_OPEN_KEEPALIVE2 \<Rightarrow> off = length G \<and> in_struct c 8 G
         | STATE_OPEN_KEEPALIVE2_ACK \<Rightarrow> off = length G \<and> in_struct c 8 G
         | STATE_OPEN_TAG_ACK \<Rightarrow> off = length G \<and> in_struct c 8 G
         | STATE_OPEN_MESSAGE_HEADER \<Rightarrow> off = length G \<and> in_struct c 53 G
         | STATE_OPEN_MESSAGE_THROTTLE_MESSAGE \<Rightarrow> off = 0 \<and> head_ok E c G \<and>
             empty_list (front c) \<and> empty_list (cmiddle c) \<and> empty_list (cdata c) \<and> empty_list (data_buf c)
         | STATE_OPEN_MESSAGE_THROTTLE_BYTES \<Rightarrow> off = 0 \<and> head_ok E c G \<and>
             empty_list (front c) \<and> empty_list (cmiddle c) \<and> empty_list (cdata c) \<and> empty_list (data_buf c)
         | STATE_OPEN_MESSAGE_READ_FRONT \<Rightarrow>
             (\<exists>hb F. G = hb @ F \<and> off = length F \<and> head_ok E c hb \<and> partly h (front c) fl F \<and>
                empty_list (cmiddle c) \<and> empty_list (cdata c) \<and> empty_list (data_buf c))
         | STATE_OPEN_MESSAGE_READ_MIDDLE \<Rightarrow>
             (\<exists>hb F M. G = hb @ F @ M \<and> off = length M \<and> head_ok E c hb \<and> whole_list h (front c) fl F \<and>
                partly h (cmiddle c) ml M \<and> (\<forall>p \<in> set (buffers (cmiddle c)). avoids (front c) p) \<and>
                empty_list (cdata c) \<and> empty_list (data_buf c))
         | STATE_OPEN_MESSAGE_READ_DATA_PREPARE \<Rightarrow>
             (\<exists>hb F M. G = hb @ F @ M \<and> off = 0 \<and> head_ok E c hb \<and> whole_list h (front c) fl F \<and>
                whole_list h (cmiddle c) ml M \<and> empty_list (cdata c) \<and> empty_list (data_buf c))
         | STATE_OPEN_MESSAGE_READ_DATA \<Rightarrow>
             (\<exists>hb F M D P. G = hb @ F @ M @ D @ P \<and> off = length P \<and> head_ok E c hb \<and> whole_list h (front c) fl F \<and>
                whole_list h (cmiddle c) ml M \<and> data_ok c D P)
         | STATE_OPEN_MESSAGE_READ_FOOTER \<Rightarrow>
             (\<exists>hb F M D P. G = hb @ F @ M @ D @ P \<and> off = length P \<and> head_ok E c hb \<and> whole_list h (front c) fl F \<and>
                whole_list h (cmiddle c) ml M \<and> whole_list h (cdata c) dl D \<and> in_struct c 21 P)
         | STATE_OPEN_MESSAGE_THROTTLE_DISPATCH_SIZE \<Rightarrow>
             (\<exists>hb F M D P. G = hb @ F @ M @ D @ P \<and> framed E c hb F M D P)
         | STATE_OPEN_MESSAGE_DISPATCH \<Rightarrow>
             (\<exists>hb F M D P. G = hb @ F @ M @ D @ P \<and> framed E c hb F M D P)
         | STATE_OPEN_TAG_CLOSE \<Rightarrow> off = 0 \<and> G = []
         | _ \<Rightarrow> False)"

text \<open>One introduction rule per state that reads a section.\<close>

lemma inv_frontI:
  assumes "conn_ok c" and "state c = STATE_OPEN_MESSAGE_READ_FRONT" and "state_offset (input c) = length F"
    and "head_ok E c hb" and "partly (memory c) (front c) (unat (front_len (current_header c))) F"
    and "empty_list (cmiddle c)" and "empty_list (cdata c)" and "empty_list (data_buf c)"
  shows "conn_inv E c (hb @ F)"
  using assms by (auto simp: conn_inv_def)

lemma inv_middleI:
  assumes "conn_ok c" and "state c = STATE_OPEN_MESSAGE_READ_MIDDLE" and "state_offset (input c) = length M"
    and "head_ok E c hb" and "whole_list (memory c) (front c) (unat (front_len (current_header c))) F"
    and "partly (memory c) (cmiddle c) (unat (middle_len (current_header c))) M"
    and "\<forall>p \<in> set (buffers (cmiddle c)). avoids (front c) p" and "empty_list (cdata c)" and "empty_list (data_buf c)"
  shows "conn_inv E c (hb @ F @ M)"
  unfolding conn_inv_def Let_def assms(2) conn_state.case using assms by blast

lemma inv_prepareI:
  assumes "conn_ok c" and "state c = STATE_OPEN_MESSAGE_READ_DATA_PREPARE" and "state_offset (input c) = 0"
    and "head_ok E c hb" and "whole_list (memory c) (front c) (unat (front_len (current_header c))) F"
    and "whole_list (memory c) (cmiddle c) (unat (middle_len (current_header c))) M"
    and "empty_list (cdata c)" and "empty_list (data_buf c)"
  shows "conn_inv E c (hb @ F @ M)"
  unfolding conn_inv_def Let_def assms(2) conn_state.case using assms by blast

lemma inv_dataI:
  assumes "conn_ok c" and "state c = STATE_OPEN_MESSAGE_READ_DATA" and "state_offset (input c) = length P"
    and "head_ok E c hb" and "whole_list (memory c) (front c) (unat (front_len (current_header c))) F"
    and "whole_list (memory c) (cmiddle c) (unat (middle_len (current_header c))) M" and "data_ok c D P"
  shows "conn_inv E c (hb @ F @ M @ D @ P)"
  unfolding conn_inv_def Let_def assms(2) conn_state.case using assms by blast

lemma inv_footerI:
  assumes "conn_ok c" and "state c = STATE_OPEN_MESSAGE_READ_FOOTER" and "state_offset (input c) = length P"
    and "head_ok E c hb" and "whole_list (memory c) (front c) (unat (front_len (current_header c))) F"
    and "whole_list (memory c) (cmiddle c) (unat (middle_len (current_header c))) M"
    and "whole_list (memory c) (cdata c) (unat (data_len (current_header c))) D" and "in_struct c 21 P"
  shows "conn_inv E c (hb @ F @ M @ D @ P)"
  unfolding conn_inv_def Let_def assms(2) conn_state.case using assms by blast

lemma inv_framedI:
  assumes "conn_ok c" and "state c = STATE_OPEN_MESSAGE_THROTTLE_DISPATCH_SIZE \<or> state c = STATE_OPEN_MESSAGE_DISPATCH"
    and "framed E c hb F M D P"
  shows "conn_inv E c (hb @ F @ M @ D @ P)"
  using assms(2)
proof
  assume st: "state c = STATE_OPEN_MESSAGE_THROTTLE_DISPATCH_SIZE"
  show ?thesis unfolding conn_inv_def Let_def st conn_state.case using assms by blast
next
  assume st: "state c = STATE_OPEN_MESSAGE_DISPATCH"
  show ?thesis unfolding conn_inv_def Let_def st conn_state.case using assms by blast
qed

section \<open>Memory\<close>

text \<open>Two heaps of which the second keeps every window outside one block.\<close>

definition keeps_but :: "nat option \<Rightarrow> heap \<Rightarrow> heap \<Rightarrow> bool" where
  "keeps_but a h h' \<longleftrightarrow> heap_ok h' \<and>
     (\<forall>q. ptr_ok h q \<longrightarrow> ptr_ok h' q \<and> (praw q \<noteq> a \<or> a = None \<longrightarrow> bytes h' q = bytes h q))"

lemma take_memcpy_take:
  assumes "off + length bs \<le> n" and "n \<le> length xs"
  shows "take n (memcpy xs off bs) = memcpy (take n xs) off bs"
proof -
  have "min n off = off" "min off n = off" "min (length xs) off = off" using assms by auto
  then show ?thesis using assms by (simp add: memcpy_def drop_take)
qed

lemma window_write:
  assumes "ptr_ok h bp" and "praw bp = Some a" and "heap_ok h" and "off + length bs \<le> plen bp"
    and "h' = poke a (poff bp) (memcpy (ptr_c_str h bp) off bs) h"
  shows "keeps_but (Some a) h h'" and "bytes h' bp = memcpy (bytes h bp) off bs"
proof -
  let ?d = "rdata (raws h ! a)" and ?p = "memcpy (ptr_c_str h bp) off bs"
  have a: "a < length (raws h)" "poff bp + plen bp \<le> length ?d" using assms(1,2) by (auto simp: ptr_ok_def raw_len_def)
  have c: "ptr_c_str h bp = drop (poff bp) ?d" using assms(2) by (simp add: ptr_c_str_def)
  have len: "length ?p = length ?d - poff bp" using a(2) assms(4) c by simp
  then have fit: "poff bp + length ?p \<le> raw_len h a" using a(2) by (simp add: raw_len_def)
  have "ptr_ok h' q" "praw q \<noteq> Some a \<longrightarrow> bytes h' q = bytes h q" if "ptr_ok h q" for q
    using that poke_ok(2) [OF fit a(1)] bytes_poke_disjoint [OF fit a(1)] assms(5) by auto
  moreover have "heap_ok h'" using poke_ok(1) [OF fit a(1) assms(3)] assms(5) by simp
  ultimately show "keeps_but (Some a) h h'" by (simp add: keeps_but_def)
  have "rdata (raws h' ! a) = take (poff bp) ?d @ ?p"
    using assms(5) a len by (simp add: rdata_poke)
  then have "bytes h' bp = take (plen bp) ?p" using assms(2) a by (simp add: bytes_def ptr_c_str_def)
  also have "\<dots> = memcpy (bytes h bp) off bs"
    using assms(4) a(2) c by (simp add: bytes_def take_memcpy_take)
  finally show "bytes h' bp = memcpy (bytes h bp) off bs" .
qed

lemma keeps_list:
  assumes "keeps_but a h h'" and "\<forall>p \<in> set (buffers bl). praw p \<noteq> a \<or> a = None"
  shows "whole_list h bl len bs \<Longrightarrow> whole_list h' bl len bs"
proof -
  assume w: "whole_list h bl len bs"
  then have ok: "\<forall>p \<in> set (buffers bl). ptr_ok h p" by (auto simp: whole_list_def list_ok_def segs_ok_def)
  then have "\<forall>p \<in> set (buffers bl). ptr_ok h' p \<and> bytes h' p = bytes h p" using assms by (auto simp: keeps_but_def)
  then have "map (bytes h') (buffers bl) = map (bytes h) (buffers bl)" "segs_ok h' (buffers bl)"
    using w by (auto simp: whole_list_def list_ok_def segs_ok_def)
  moreover have "tail_ok h' bl" using w by (auto simp: whole_list_def tail_ok_def null_ptr_def ptr_ok_def)
  ultimately show ?thesis using w assms(1)
    by (simp add: whole_list_def list_ok_def contents_def keeps_but_def cong: map_cong)
qed

lemma keeps_avoiding: "keeps_but (praw p) h h' \<Longrightarrow> avoids bl p \<Longrightarrow> whole_list h bl len bs \<Longrightarrow> whole_list h' bl len bs"
  by (rule keeps_list) (auto simp: avoids_def)

lemma empty_whole: "heap_ok h \<Longrightarrow> empty_list bl \<Longrightarrow> whole_list h bl 0 []"
  by (simp add: empty_list_def whole_list_def list_ok_def tail_ok_def null_ptr_def ptr_ok_def contents_def)

lemma single_whole:
  assumes "heap_ok h" and "buffers bl = [p]" and "append_buffer bl = null_ptr" and "ptr_ok h p" and "0 < plen p"
    and "blen bl = plen p" and "bytes h p = bs"
  shows "whole_list h bl (plen p) bs"
  using assms ptr_ok_bound [OF assms(1,4)] length_bytes [OF assms(4)]
  by (auto simp: whole_list_def list_ok_def tail_ok_def null_ptr_def ptr_ok_def contents_def)

lemma holds_write:
  assumes "holds h p len P" and "heap_ok h" and "length P + length bs \<le> len"
    and "h' = poke (the (praw p)) (poff p) (memcpy (ptr_c_str h p) (length P) bs) h"
  shows "keeps_but (praw p) h h'" and "length P + length bs < len \<Longrightarrow> holds h' p len (P @ bs)"
    and "length P + length bs = len \<Longrightarrow> bytes h' p = P @ bs"
proof -
  have p: "ptr_ok h p" "plen p = len" "length P < len" "take (length P) (bytes h p) = P" using assms(1) by (simp_all add: holds_def)
  obtain a where a: "praw p = Some a" using assms(1) by (auto simp: holds_def)
  note w = window_write [OF p(1) a assms(2) _ assms(4) [unfolded a option.sel], unfolded p(2), OF assms(3)]
  show k: "keeps_but (praw p) h h'" using w(1) a by simp
  have b: "bytes h' p = P @ bs @ drop (length P + length bs) (bytes h p)" using w(2) p(4) by (simp add: memcpy_def)
  show "length P + length bs < len \<Longrightarrow> holds h' p len (P @ bs)"
    using k p(1,2) a b by (auto simp: holds_def keeps_but_def)
  show "length P + length bs = len \<Longrightarrow> bytes h' p = P @ bs"
    using b length_bytes [OF p(1)] p(2) by simp
qed

lemma length_c_str: "ptr_ok h p \<Longrightarrow> praw p \<noteq> None \<Longrightarrow> plen p \<le> length (ptr_c_str h p)"
  by (auto simp: ptr_ok_def ptr_c_str_def raw_len_def split: option.splits)

text \<open>A new block is empty-handed, and no window knows it.\<close>

lemma new_fresh:
  assumes n: "new_raw k d h = (a, h')" and "heap_ok h" and "0 < length d" and "length d < 2 ^ 32"
  shows "holds h' (ptr_of_raw a h') (length d) []" and "keeps_but None h h'"
    and "ptr_ok h q \<Longrightarrow> praw q \<noteq> praw (ptr_of_raw a h')"
proof -
  note ok = new_raw_ok [OF n assms(2,4)]
  show "holds h' (ptr_of_raw a h') (length d) []"
    using ok assms(3) by (simp add: holds_def ptr_of_raw_def ptr_ok_def)
  show "keeps_but None h h'" using ok new_raw_keeps [OF n] by (simp add: keeps_but_def)
  show "ptr_ok h q \<Longrightarrow> praw q \<noteq> praw (ptr_of_raw a h')" using new_raw_keeps(3) [OF n] by (simp add: ptr_of_raw_def)
qed

lemma create_fresh:
  assumes "create len h = (a, h')" and "heap_ok h" and "0 < len" and "len < 2 ^ 32"
  shows "holds h' (ptr_of_raw a h') len []" and "keeps_but None h h'"
    and "ptr_ok h q \<Longrightarrow> praw q \<noteq> praw (ptr_of_raw a h')"
  using new_fresh [OF assms(1) [unfolded create_def] assms(2)] assms(3,4) by simp_all

lemma create_page_aligned_fresh:
  assumes "heap_ok h" and "0 < len" and "len < 2 ^ 32"
  shows "\<exists>a h'. create_page_aligned len h = Inr (a, h') \<and> holds h' (ptr_of_raw a h') len [] \<and> keeps_but None h h' \<and>
    (\<forall>q. ptr_ok h q \<longrightarrow> praw q \<noteq> praw (ptr_of_raw a h'))"
proof -
  obtain a h' where n: "new_raw (Raw_posix_aligned MSGR_PAGE_SIZE) (map (junk h) [0..<len]) h = (a, h')" by (metis surj_pair)
  have "(of_nat MSGR_PAGE_SIZE :: u32) AND (of_nat MSGR_PAGE_SIZE - 1) = 0" "8 \<le> MSGR_PAGE_SIZE"
    by (simp_all add: MSGR_PAGE_SIZE_def)
  then have "create_page_aligned len h = Inr (a, h')" using n by (simp add: create_page_aligned_def create_aligned_def)
  then show ?thesis using new_fresh [OF n assms(1)] assms(2,3) by auto
qed

lemma keeps_trans: "keeps_but None h h1 \<Longrightarrow> keeps_but None h1 h2 \<Longrightarrow> keeps_but None h h2"
  by (simp add: keeps_but_def)

text \<open>The windows for the data: new, distinct, and of the right size together.\<close>

definition data_windows :: "heap \<Rightarrow> heap \<Rightarrow> bptr list \<Rightarrow> nat \<Rightarrow> bool" where
  "data_windows h h' ps len \<longleftrightarrow> keeps_but None h h' \<and> segs_ok h' ps \<and> distinct (map praw ps) \<and> total_len ps = len \<and>
     ps \<noteq> [] \<and> (\<forall>p \<in> set ps. \<forall>q. ptr_ok h q \<longrightarrow> praw q \<noteq> praw p)"

lemma allocate_msg_data_ok:
  assumes hok: "heap_ok h" and e: "empty_list bl" and len: "0 < len" "len < 2 ^ 32"
  shows "\<exists>bl' h'. allocate_msg_data off len bl h = Inr (bl', h') \<and> append_buffer bl' = null_ptr \<and> data_windows h h' (buffers bl') len"
proof (cases "off mod MSGR_PAGE_SIZE = 0")
  case True
  obtain a h' where c: "create_page_aligned len h = Inr (a, h')" "holds h' (ptr_of_raw a h') len []" "keeps_but None h h'"
    "\<forall>q. ptr_ok h q \<longrightarrow> praw q \<noteq> praw (ptr_of_raw a h')"
    using create_page_aligned_fresh [OF hok len] by blast
  then show ?thesis using True e len
    by (auto simp: allocate_msg_data_def push_back_def empty_list_def data_windows_def holds_def)
next
  case False
  let ?n = "min (MSGR_PAGE_SIZE - off mod MSGR_PAGE_SIZE) len"
  have "off mod MSGR_PAGE_SIZE < MSGR_PAGE_SIZE" by (simp add: MSGR_PAGE_SIZE_def)
  then have n: "0 < ?n" "?n < 2 ^ 32" "?n \<le> len" using len by auto
  obtain a h1 where cr: "create ?n h = (a, h1)" by (metis surj_pair)
  note f = create_fresh [OF cr hok n(1,2)]
  let ?p = "ptr_of_raw a h1" and ?bl = "push_back (ptr_of_raw a h1) bl"
  have bl: "buffers ?bl = [?p]" "append_buffer ?bl = null_ptr" "plen ?p = ?n" "ptr_ok h1 ?p"
    using e f(1) n(1) by (auto simp: push_back_def empty_list_def holds_def)
  show ?thesis
  proof (cases "len - ?n = 0")
    case True
    then have "?n = len" using n(3) by linarith
    have "allocate_msg_data off len bl h = Inr (?bl, h1)" using False cr True by (simp add: allocate_msg_data_def Let_def)
    moreover have "data_windows h h1 (buffers ?bl) len"
      using bl f n(1) \<open>?n = len\<close> unfolding data_windows_def bl(1) by auto
    ultimately show ?thesis using bl(2) by blast
  next
    case more: False
    have "heap_ok h1" "0 < len - ?n" "len - ?n < 2 ^ 32" using f(2) more len by (auto simp: keeps_but_def)
    then obtain b h2 where c: "create_page_aligned (len - ?n) h1 = Inr (b, h2)" "holds h2 (ptr_of_raw b h2) (len - ?n) []"
      "keeps_but None h1 h2" "\<forall>q. ptr_ok h1 q \<longrightarrow> praw q \<noteq> praw (ptr_of_raw b h2)"
      using create_page_aligned_fresh by blast
    let ?q = "ptr_of_raw b h2"
    have q: "plen ?q = len - ?n" "ptr_ok h2 ?q" "0 < plen ?q" using c(2) more by (auto simp: holds_def)
    have "allocate_msg_data off len bl h = Inr (push_back ?q ?bl, h2)"
      using False cr more c(1) by (simp add: allocate_msg_data_def Let_def)
    moreover have "buffers (push_back ?q ?bl) = [?p, ?q]" "append_buffer (push_back ?q ?bl) = null_ptr"
      using bl(1,2) q(3) by (simp_all add: push_back_def)
    moreover have "data_windows h h2 [?p, ?q] len"
      using keeps_trans [OF f(2) c(3)] bl(3,4) q c(3,4) f(2,3) n by (auto simp: data_windows_def keeps_but_def)
    ultimately show ?thesis by auto
  qed
qed

lemma whole_avoids: "whole_list h bl len bs \<Longrightarrow> (\<And>q. ptr_ok h q \<Longrightarrow> praw q \<noteq> praw p) \<Longrightarrow> avoids bl p"
  by (auto simp: whole_list_def list_ok_def segs_ok_def avoids_def)

section \<open>Rounds\<close>

definition advanced :: "env \<Rightarrow> ('s \<Rightarrow> byte list) \<Rightarrow> 's conn \<Rightarrow> byte list \<Rightarrow> 's conn \<Rightarrow> bool" where
  "advanced E pend c G c' \<longleftrightarrow>
     (\<exists>bs. stream pend (input c) = bs @ stream pend (input c') \<and>
        conn_inv E c' (if state c = STATE_OPEN \<or> state c' = STATE_OPEN then [] else G @ bs))"

text \<open>A round goes on as the bytes say, or gives the connection up; it never runs into an assertion.\<close>

definition good_round :: "env \<Rightarrow> ('s \<Rightarrow> byte list) \<Rightarrow> 's conn \<Rightarrow> byte list \<Rightarrow> 's round \<Rightarrow> bool" where
  "good_round E pend c G x =
     (case x of
        Next c' \<Rightarrow> advanced E pend c G c'
      | Leave c' \<Rightarrow> advanced E pend c G c'
      | Fail c' \<Rightarrow> True
      | Close c' \<Rightarrow> state c' = STATE_OPEN_TAG_CLOSE
      | _ \<Rightarrow> False)"

lemma good_round_simps [simp]:
  "good_round E pend c G (Next c') = advanced E pend c G c'"
  "good_round E pend c G (Leave c') = advanced E pend c G c'"
  "good_round E pend c G (Fail c')" "good_round E pend c G (Close c') \<longleftrightarrow> state c' = STATE_OPEN_TAG_CLOSE"
  by (simp_all add: good_round_def)

text \<open>The window a section is read into: the one that is there, or a new one.\<close>

definition window_of :: "nat \<Rightarrow> blist \<Rightarrow> heap \<Rightarrow> blist \<times> heap" where
  "window_of len bl h = (if blen bl = 0 then (let (a, h') = create len h in (push_back (ptr_of_raw a h') bl, h')) else (bl, h))"

lemma u32_bound: "unat (w :: u32) < 2 ^ 32"
  by (rule order_less_le_trans [OF unsigned_less]) simp

text \<open>The switches that turn a bad message into a crash are off, and the decoders keep the memory in order.\<close>

definition tolerant :: "env \<Rightarrow> bool" where
  "tolerant E \<longleftrightarrow> \<not> die_on_bad_msg E \<and> \<not> die_on_old_message E \<and> \<not> die_on_skipped_message E \<and>
     (\<forall>m h m' h'. heap_ok h \<longrightarrow> dec_payload E m h = Inr (m', h') \<longrightarrow> heap_ok h')"

lemma decode_message_no_crash: "decode_message mc mk dp (Some False) fl x ft f m d h \<noteq> Crashed"
  by (auto simp: decode_message_def Let_def split: option.splits prod.splits sum.splits if_splits)

lemma decode_message_heap:
  assumes "decode_message mc mk dp pct fl x ft f m d h = Decoded m' h'" and "\<And>m m' h'. dp m h = Inr (m', h') \<Longrightarrow> heap_ok h'"
  shows "heap_ok h'"
  using assms
  by (auto simp: decode_message_def Let_def set_payload_def set_middle_def claim_def claim_append_def
    split: option.splits prod.splits sum.splits if_splits)

context byte_socket
begin

lemma read_struct_round:
  assumes ok: "conn_ok c" and off: "state_offset (input c) = length G" and g: "in_struct c len G" and len: "len \<le> 4096"
    and fail: "\<And>c'. P (Fail c')"
    and partial: "\<And>R sb bs. reader_ok R \<Longrightarrow> length sb = 4096 \<Longrightarrow> stream pending (input c) = bs @ stream pending R \<Longrightarrow>
      state_offset R = length (G @ bs) \<Longrightarrow> length (G @ bs) < len \<Longrightarrow> take (length (G @ bs)) sb = G @ bs \<Longrightarrow>
      P (Next (c\<lparr>input := R, state_buffer := sb\<rparr>))"
    and full: "\<And>R sb bs. reader_ok R \<Longrightarrow> length sb = 4096 \<Longrightarrow> stream pending (input c) = bs @ stream pending R \<Longrightarrow>
      state_offset R = 0 \<Longrightarrow> length (G @ bs) = len \<Longrightarrow> P (k (G @ bs) (c\<lparr>input := R, state_buffer := sb\<rparr>))"
  shows "P (read_struct rd len k c)"
proof -
  have c: "reader_ok (input c)" "length (state_buffer c) = 4096" using ok by (simp_all add: conn_ok_def)
  have G: "length G < len" "take (length G) (state_buffer c) = G" using g by (simp_all add: in_struct_def)
  obtain r p R where run: "read_until rd len (state_buffer c) (input c) = Some (r, p, R)"
    and d: "r = -1 \<or> (\<exists>bs. until_done len (state_buffer c) (input c) bs r p R)"
    using read_until_bytes [OF c(1), of len "state_buffer c"] off G(1) len c(2) by auto
  show ?thesis
  proof (cases "r = -1")
    case True
    then show ?thesis using fail run by (simp add: read_struct_def reading_def)
  next
    case False
    then obtain bs where u: "until_done len (state_buffer c) (input c) bs r p R" using d by blast
    then have bs: "length (G @ bs) + nat r = len" "0 \<le> r" "p = memcpy (state_buffer c) (length G) bs"
      "stream pending (input c) = bs @ stream pending R" "reader_ok R"
      using off G(1) by (auto simp: until_done_def)
    have fit: "length G + length bs \<le> length (state_buffer c)" using bs(1) len c(2) by simp
    have p: "length p = 4096" "take (length (G @ bs)) p = G @ bs"
      using bs(3) c(2) fit take_memcpy [OF fit] G(2) by simp_all
    show ?thesis
    proof (cases "r = 0")
      case True
      then have "P (k (G @ bs) (c\<lparr>input := R, state_buffer := p\<rparr>))"
        using full [OF bs(5) p(1) bs(4)] u bs(1) by (simp add: until_done_def)
      moreover have "take len p = G @ bs" using p(2) bs(1) True by simp
      ultimately show ?thesis using run True by (simp add: read_struct_def reading_def)
    next
      case pos: False
      have "P (Next (c\<lparr>input := R, state_buffer := p\<rparr>))"
        by (rule partial [OF bs(5) p(1) bs(4) _ _ p(2)]) (use u bs(1,2) pos off in \<open>auto simp: until_done_def\<close>)
      then show ?thesis using run pos bs(2) by (simp add: read_struct_def reading_def)
    qed
  qed
qed

text \<open>Reading into a window: a failure, some more bytes, or all of them.\<close>

lemma window_read:
  assumes ok: "conn_ok c" and off: "state_offset (input c) = length G" and g: "holds (memory c) bp len G"
  shows "\<exists>r p R. read_until rd len (ptr_c_str (memory c) bp) (input c) = Some (r, p, R) \<and>
    (r = -1 \<or>
     (\<exists>bs h. h = poke (the (praw bp)) (poff bp) p (memory c) \<and> reader_ok R \<and> keeps_but (praw bp) (memory c) h \<and>
        stream pending (input c) = bs @ stream pending R \<and>
        (0 < r \<and> state_offset R = length (G @ bs) \<and> holds h bp len (G @ bs) \<or>
         r = 0 \<and> state_offset R = 0 \<and> bytes h bp = G @ bs \<and> ptr_ok h bp)))"
proof -
  have c: "reader_ok (input c)" "heap_ok (memory c)" using ok by (simp_all add: conn_ok_def)
  have G: "length G < len" "ptr_ok (memory c) bp" "praw bp \<noteq> None" "plen bp = len" using g by (simp_all add: holds_def)
  have fits: "len \<le> length (ptr_c_str (memory c) bp)" using length_c_str [OF G(2,3)] G(4) by simp
  obtain r p R where run: "read_until rd len (ptr_c_str (memory c) bp) (input c) = Some (r, p, R)"
    and d: "r = -1 \<or> (\<exists>bs. until_done len (ptr_c_str (memory c) bp) (input c) bs r p R)"
    using read_until_bytes [OF c(1) _ fits] off G(1) by auto
  let ?h = "poke (the (praw bp)) (poff bp) p (memory c)"
  have "\<exists>bs. reader_ok R \<and> keeps_but (praw bp) (memory c) ?h \<and> stream pending (input c) = bs @ stream pending R \<and>
      (0 < r \<and> state_offset R = length (G @ bs) \<and> holds ?h bp len (G @ bs) \<or>
       r = 0 \<and> state_offset R = 0 \<and> bytes ?h bp = G @ bs \<and> ptr_ok ?h bp)" if nr: "r \<noteq> -1"
  proof -
    obtain bs where u: "until_done len (ptr_c_str (memory c) bp) (input c) bs r p R" using d nr by blast
    then have bs: "length (G @ bs) + nat r = len" "0 \<le> r" "p = memcpy (ptr_c_str (memory c) bp) (length G) bs"
      "stream pending (input c) = bs @ stream pending R" "reader_ok R"
      using off G(1) by (auto simp: until_done_def)
    have room: "length G + length bs \<le> len" using bs(1) by simp
    note w = holds_write [OF g c(2) room, of ?h, unfolded bs(3), OF refl, folded bs(3)]
    have "0 < r \<and> state_offset R = length (G @ bs) \<and> holds ?h bp len (G @ bs) \<or>
       r = 0 \<and> state_offset R = 0 \<and> bytes ?h bp = G @ bs \<and> ptr_ok ?h bp"
      using u bs(1,2) w G(2) off by (cases "r = 0") (auto simp: until_done_def keeps_but_def)
    then show ?thesis using bs(4,5) w(1) by blast
  qed
  then show ?thesis using run by blast
qed

lemma read_window_round:
  assumes ok: "conn_ok c" and off: "state_offset (input c) = length G" and g: "holds (memory c) bp len G"
    and fail: "\<And>c'. P (Fail c')"
    and partial: "\<And>R h bs. reader_ok R \<Longrightarrow> keeps_but (praw bp) (memory c) h \<Longrightarrow> stream pending (input c) = bs @ stream pending R \<Longrightarrow>
      state_offset R = length (G @ bs) \<Longrightarrow> holds h bp len (G @ bs) \<Longrightarrow> P (Next (c\<lparr>input := R, memory := h\<rparr>))"
    and full: "\<And>R h bs. reader_ok R \<Longrightarrow> keeps_but (praw bp) (memory c) h \<Longrightarrow> stream pending (input c) = bs @ stream pending R \<Longrightarrow>
      state_offset R = 0 \<Longrightarrow> bytes h bp = G @ bs \<Longrightarrow> ptr_ok h bp \<Longrightarrow> P (k (c\<lparr>input := R, memory := h\<rparr>))"
  shows "P (read_window rd len bp k c)"
  using window_read [OF ok off g]
proof (elim exE conjE disjE)
  fix r p R
  assume "read_until rd len (ptr_c_str (memory c) bp) (input c) = Some (r, p, R)" "r = -1"
  then show ?thesis using fail by (simp add: read_window_def reading_def)
next
  fix r p R bs h
  assume "read_until rd len (ptr_c_str (memory c) bp) (input c) = Some (r, p, R)" "h = poke (the (praw bp)) (poff bp) p (memory c)"
    "reader_ok R" "keeps_but (praw bp) (memory c) h" "stream pending (input c) = bs @ stream pending R"
    "0 < r" "state_offset R = length (G @ bs)" "holds h bp len (G @ bs)"
  then show ?thesis using partial by (simp add: read_window_def reading_def)
next
  fix r p R bs h
  assume "read_until rd len (ptr_c_str (memory c) bp) (input c) = Some (r, p, R)" "h = poke (the (praw bp)) (poff bp) p (memory c)"
    "reader_ok R" "keeps_but (praw bp) (memory c) h" "stream pending (input c) = bs @ stream pending R"
    "r = 0" "state_offset R = 0" "bytes h bp = G @ bs" "ptr_ok h bp"
  then show ?thesis using full by (simp add: read_window_def reading_def)
qed

lemma advancedI:
  assumes "stream pending (input c) = bs @ stream pending (input c')" and "conn_inv E c' G'"
    and "G' = (if state c = STATE_OPEN \<or> state c' = STATE_OPEN then [] else G @ bs)"
  shows "advanced E pending c G c'"
  using assms by (auto simp: advanced_def)

lemma conn_inv_tag:
  assumes "conn_ok c" and "state_offset (input c) = 0"
    and "state c \<in> {STATE_OPEN, STATE_OPEN_KEEPALIVE2, STATE_OPEN_KEEPALIVE2_ACK, STATE_OPEN_TAG_ACK,
        STATE_OPEN_MESSAGE_HEADER, STATE_OPEN_TAG_CLOSE}"
  shows "conn_inv E c []"
  using assms by (auto simp: conn_inv_def in_struct_def)

lemma round_open:
  assumes "conn_inv E c G" and "state c = STATE_OPEN"
  shows "good_round E pending c G (step E rd c)"
proof -
  have ok: "conn_ok c" and off: "state_offset (input c) = 0" using assms by (simp_all add: conn_inv_def)
  then obtain r p R where run: "read_until rd 1 [-1] (input c) = Some (r, p, R)"
    and d: "r = -1 \<or> (\<exists>bs. until_done 1 [-1] (input c) bs r p R)"
    using read_until_bytes [of "input c" 1 "[-1]"] by (auto simp: conn_ok_def)
  show ?thesis
  proof (cases "r = -1")
    case True
    then show ?thesis using run assms(2) by (simp add: step_def step_open_def)
  next
    case False
    then obtain bs where u: "until_done 1 [-1] (input c) bs r p R" using d by blast
    then have "length bs + nat r = 1" "0 \<le> r" using off by (simp_all add: until_done_def)
    then have "r = 0 \<or> length bs = 0" by linarith
    then have bs: "stream pending (input c) = bs @ stream pending R" "reader_ok R" "state_offset R = 0"
      using off u by (auto simp: until_done_def)
    have adv: "advanced E pending c G c'" if "conn_inv E c' []" "input c' = R" for c'
      by (rule advancedI [of _ bs _ _ "[]"]) (use that bs assms(2) in simp_all)
    have ok': "conn_ok (c\<lparr>input := R\<rparr>)" "conn_ok (c\<lparr>input := R, state := t\<rparr>)" for t
      using ok bs(2) by (simp_all add: conn_ok_def)
    have "r = 0 \<or> 0 < r" using \<open>0 \<le> r\<close> by linarith
    then show ?thesis
      using run assms(2) ok' bs(3)
      by (auto simp: step_def step_open_def Let_def intro!: adv conn_inv_tag)
  qed
qed

lemma round_struct8:
  assumes inv: "conn_inv E c G"
    and "state c = STATE_OPEN_KEEPALIVE2 \<or> state c = STATE_OPEN_KEEPALIVE2_ACK \<or> state c = STATE_OPEN_TAG_ACK"
    and k: "\<And>bs c1. \<exists>c2. k bs c1 = Next c2 \<and> state c2 = STATE_OPEN \<and> input c2 = input c1 \<and> (conn_ok c1 \<longrightarrow> conn_ok c2)"
  shows "good_round E pending c G (read_struct rd 8 k c)"
proof (rule read_struct_round)
  show ok: "conn_ok c" "state_offset (input c) = length G" "in_struct c 8 G" using inv assms(2) by (auto simp: conn_inv_def)
  show "8 \<le> (4096 :: nat)" by simp
  show "good_round E pending c G (Fail c')" for c' by simp
  show "good_round E pending c G (Next (c\<lparr>input := R, state_buffer := sb\<rparr>))"
    if "reader_ok R" "length sb = 4096" "stream pending (input c) = bs @ stream pending R"
      "state_offset R = length (G @ bs)" "length (G @ bs) < 8" "take (length (G @ bs)) sb = G @ bs" for R sb bs
    unfolding good_round_simps
    by (rule advancedI [of _ bs _ _ "G @ bs"]) (use that ok assms(2) in \<open>auto simp: conn_inv_def conn_ok_def in_struct_def\<close>)
  show "good_round E pending c G (k (G @ bs) (c\<lparr>input := R, state_buffer := sb\<rparr>))"
    if t: "reader_ok R" "length sb = 4096" "stream pending (input c) = bs @ stream pending R"
      "state_offset R = 0" "length (G @ bs) = 8" for R sb bs
  proof -
    let ?c1 = "c\<lparr>input := R, state_buffer := sb\<rparr>"
    obtain c2 where c2: "k (G @ bs) ?c1 = Next c2" "state c2 = STATE_OPEN" "input c2 = R" "conn_ok ?c1 \<longrightarrow> conn_ok c2"
      using k [of "G @ bs" ?c1] by auto
    have "conn_ok c2" using c2(4) ok(1) t(1,2) by (simp add: conn_ok_def)
    then have "advanced E pending c G c2"
      by (intro advancedI [of _ bs _ _ "[]"]) (use t c2 in \<open>simp_all add: conn_inv_def\<close>)
    then show ?thesis using c2(1) by simp
  qed
qed

lemma round_header:
  assumes inv: "conn_inv E c G" and st: "state c = STATE_OPEN_MESSAGE_HEADER"
  shows "good_round E pending c G (step E rd c)"
  unfolding step_def st conn_state.case step_header_def
proof (rule read_struct_round)
  show ok: "conn_ok c" "state_offset (input c) = length G" "in_struct c 53 G" using inv st by (auto simp: conn_inv_def)
  show "53 \<le> (4096 :: nat)" by simp
  show "good_round E pending c G (Fail c')" for c' by simp
  show "good_round E pending c G (Next (c\<lparr>input := R, state_buffer := sb\<rparr>))"
    if "reader_ok R" "length sb = 4096" "stream pending (input c) = bs @ stream pending R"
      "state_offset R = length (G @ bs)" "length (G @ bs) < 53" "take (length (G @ bs)) sb = G @ bs" for R sb bs
    unfolding good_round_simps
    by (rule advancedI [of _ bs _ _ "G @ bs"]) (use that ok st in \<open>auto simp: conn_inv_def conn_ok_def in_struct_def\<close>)
  show "good_round E pending c G (let x = header_of (host (mach E)) (G @ bs)
      in if crc_flags E AND MSG_CRC_HEADER \<noteq> 0 \<and> header_crc (mach E) x \<noteq> hcrc x then Fail (c\<lparr>input := R, state_buffer := sb\<rparr>)
         else Next ((c\<lparr>input := R, state_buffer := sb\<rparr>)\<lparr>data_buf := bl_clear (data_buf (c\<lparr>input := R, state_buffer := sb\<rparr>)),
           front := bl_clear (front (c\<lparr>input := R, state_buffer := sb\<rparr>)), cmiddle := bl_clear (cmiddle (c\<lparr>input := R, state_buffer := sb\<rparr>)),
           cdata := bl_clear (cdata (c\<lparr>input := R, state_buffer := sb\<rparr>)), current_header := x, state := STATE_OPEN_MESSAGE_THROTTLE_MESSAGE\<rparr>))"
    if "reader_ok R" "length sb = 4096" "stream pending (input c) = bs @ stream pending R"
      "state_offset R = 0" "length (G @ bs) = 53" for R sb bs
    unfolding Let_def
    by (auto intro!: advancedI [of _ bs _ _ "G @ bs"])
      (use that ok st in \<open>auto simp: conn_inv_def conn_ok_def head_ok_def empty_list_def bl_clear_def\<close>)
qed

lemma round_throttle:
  assumes inv: "conn_inv E c G"
    and st: "state c = STATE_OPEN_MESSAGE_THROTTLE_MESSAGE \<or> state c = STATE_OPEN_MESSAGE_THROTTLE_BYTES"
  shows "good_round E pending c G (step E rd c)"
proof -
  have "advanced E pending c G (c\<lparr>state := STATE_OPEN_MESSAGE_THROTTLE_BYTES\<rparr>)" if "state c = STATE_OPEN_MESSAGE_THROTTLE_MESSAGE"
    by (rule advancedI [of _ "[]" _ _ G]) (use inv that in \<open>auto simp: conn_inv_def conn_ok_def head_ok_def\<close>)
  moreover have "advanced E pending c G (c\<lparr>state := STATE_OPEN_MESSAGE_READ_FRONT\<rparr>)" if "state c = STATE_OPEN_MESSAGE_THROTTLE_BYTES"
    by (rule advancedI [of _ "[]" _ _ G]) (use inv that in \<open>auto simp: conn_inv_def conn_ok_def head_ok_def partly_def\<close>)
  moreover have "throttler_bytes c = 0" "throttler_messages c = 0" using inv by (simp_all add: conn_inv_def conn_ok_def)
  ultimately show ?thesis
    using st by (auto simp: step_def step_throttle_message_def step_throttle_bytes_def take_throttle_def Let_def)
qed

lemma section_window:
  assumes hok: "heap_ok h" and part: "partly h bl len B" and len: "0 < len" "len < 2 ^ 32"
    and run: "window_of len bl h = (bl1, h1)"
  shows "\<exists>p. buffers bl1 = [p] \<and> blen bl1 = len \<and> append_buffer bl1 = null_ptr \<and> holds h1 p len B \<and> keeps_but None h h1 \<and>
    (\<forall>l n bs. whole_list h l n bs \<longrightarrow> (\<forall>q \<in> set (buffers bl). avoids l q) \<longrightarrow> avoids l p)"
proof (cases "blen bl = 0")
  case True
  then have e: "empty_list bl" "B = []" using part len(1) by (auto simp: partly_def)
  obtain a h' where cr: "create len h = (a, h')" by (metis surj_pair)
  note f = create_fresh [OF cr hok len]
  have "plen (ptr_of_raw a h') = len" using f(1) by (simp add: holds_def)
  then have "buffers bl1 = [ptr_of_raw a h']" "blen bl1 = len" "append_buffer bl1 = null_ptr" "h1 = h'"
    using run True cr e(1) len by (auto simp: window_of_def push_back_def empty_list_def)
  then show ?thesis using f e(2) whole_avoids by blast
next
  case False
  then obtain p where "buffers bl = [p]" "blen bl = len" "append_buffer bl = null_ptr" "holds h p len B"
    using part by (auto simp: partly_def empty_list_def)
  then show ?thesis using run False hok by (auto simp: window_of_def keeps_but_def)
qed

lemma front_window:
  assumes inv: "conn_inv E c G" and st: "state c = STATE_OPEN_MESSAGE_READ_FRONT"
    and len: "len = unat (front_len (current_header c))" "len \<noteq> 0"
  obtains hb F p bl1 h1 where "G = hb @ F" "state_offset (input c) = length F" "head_ok E c hb"
    "empty_list (cmiddle c)" "empty_list (cdata c)" "empty_list (data_buf c)" "buffers bl1 = [p]" "blen bl1 = len"
    "append_buffer bl1 = null_ptr" "holds h1 p len F" "conn_ok (c\<lparr>front := bl1, memory := h1\<rparr>)"
    "step E rd c = read_window rd len p (\<lambda>c. Next (c\<lparr>state := STATE_OPEN_MESSAGE_READ_MIDDLE\<rparr>)) (c\<lparr>front := bl1, memory := h1\<rparr>)"
proof -
  obtain hb F where G: "G = hb @ F" "state_offset (input c) = length F" "head_ok E c hb"
      "empty_list (cmiddle c)" "empty_list (cdata c)" "empty_list (data_buf c)"
    and part: "partly (memory c) (front c) len F"
    using inv [unfolded conn_inv_def Let_def st conn_state.case] len(1) by blast
  have ok: "conn_ok c" "heap_ok (memory c)" using inv by (simp_all add: conn_inv_def conn_ok_def)
  obtain bl1 h1 where w: "window_of len (front c) (memory c) = (bl1, h1)" by (metis surj_pair)
  have "0 < len" "len < 2 ^ 32" using len u32_bound by simp_all
  then obtain p where p: "buffers bl1 = [p]" "blen bl1 = len" "append_buffer bl1 = null_ptr" "holds h1 p len F" "keeps_but None (memory c) h1"
    using section_window [OF ok(2) part _ _ w] by blast
  have "step E rd c = read_window rd len p (\<lambda>c. Next (c\<lparr>state := STATE_OPEN_MESSAGE_READ_MIDDLE\<rparr>)) (c\<lparr>front := bl1, memory := h1\<rparr>)"
    using st len w p(1)
    by (auto simp: step_def step_read_front_def allocate_msg_payload_def window_of_def Let_def split: prod.splits if_splits)
  moreover have "conn_ok (c\<lparr>front := bl1, memory := h1\<rparr>)" using ok p(3,5) by (simp add: conn_ok_def keeps_but_def)
  ultimately show ?thesis using that G p(1-4) by blast
qed

lemma front_empty:
  assumes inv: "conn_inv E c G" and st: "state c = STATE_OPEN_MESSAGE_READ_FRONT" and len: "front_len (current_header c) = 0"
  shows "step E rd c = Next (c\<lparr>state := STATE_OPEN_MESSAGE_READ_MIDDLE\<rparr>)"
    and "conn_inv E (c\<lparr>state := STATE_OPEN_MESSAGE_READ_MIDDLE\<rparr>) G"
proof -
  show "step E rd c = Next (c\<lparr>state := STATE_OPEN_MESSAGE_READ_MIDDLE\<rparr>)"
    using st len by (simp add: step_def step_read_front_def)
  obtain hb F where G: "G = hb @ F" and off: "state_offset (input c) = length F" and hd: "head_ok E c hb"
    and part: "partly (memory c) (front c) 0 F"
    and e: "empty_list (cmiddle c)" "empty_list (cdata c)" "empty_list (data_buf c)"
    using inv [unfolded conn_inv_def Let_def st conn_state.case len] by auto
  have ok: "conn_ok c" "heap_ok (memory c)" using inv by (simp_all add: conn_inv_def conn_ok_def)
  have f: "F = []" "empty_list (front c)" using part by (auto simp: partly_def holds_def)
  then have "conn_inv E (c\<lparr>state := STATE_OPEN_MESSAGE_READ_MIDDLE\<rparr>) (hb @ [] @ [])"
    using ok hd e off len empty_whole [OF ok(2)]
    by (intro inv_middleI) (auto simp: conn_ok_def head_ok_def partly_def empty_list_def)
  then show "conn_inv E (c\<lparr>state := STATE_OPEN_MESSAGE_READ_MIDDLE\<rparr>) G" using G f by simp
qed

lemma round_front:
  assumes inv: "conn_inv E c G" and st: "state c = STATE_OPEN_MESSAGE_READ_FRONT"
  shows "good_round E pending c G (step E rd c)"
proof (cases "front_len (current_header c) = 0")
  case True
  have "advanced E pending c G (c\<lparr>state := STATE_OPEN_MESSAGE_READ_MIDDLE\<rparr>)"
    by (rule advancedI [of _ "[]", OF _ front_empty(2) [OF inv st True]]) (use st in simp_all)
  then show ?thesis using front_empty(1) [OF inv st True] by simp
next
  case False
  define len where "len = unat (front_len (current_header c))"
  have "len \<noteq> 0" using False by (simp add: len_def unat_eq_0)
  then obtain hb F p bl1 h1 where G: "G = hb @ F" and off: "state_offset (input c) = length F" and hd: "head_ok E c hb"
    and e: "empty_list (cmiddle c)" "empty_list (cdata c)" "empty_list (data_buf c)"
    and p: "buffers bl1 = [p]" "blen bl1 = len" "append_buffer bl1 = null_ptr" "holds h1 p len F"
    and okc: "conn_ok (c\<lparr>front := bl1, memory := h1\<rparr>)"
    and run: "step E rd c = read_window rd len p (\<lambda>c. Next (c\<lparr>state := STATE_OPEN_MESSAGE_READ_MIDDLE\<rparr>)) (c\<lparr>front := bl1, memory := h1\<rparr>)"
    by (rule front_window [OF inv st len_def])
  let ?c = "c\<lparr>front := bl1, memory := h1\<rparr>"
  show ?thesis unfolding run
  proof (rule read_window_round [OF okc _ _])
    show "state_offset (input ?c) = length F" "holds (memory ?c) p len F" using off p(4) by simp_all
    show "good_round E pending c G (Fail c')" for c' by simp
    fix R h bs
    assume R: "reader_ok R" "keeps_but (praw p) (memory ?c) h" "stream pending (input ?c) = bs @ stream pending R"
    have okn: "conn_ok (?c\<lparr>input := R, memory := h\<rparr>)" "heap_ok h" using okc R by (simp_all add: conn_ok_def keeps_but_def)
    {
      assume o: "state_offset R = length (F @ bs)" and h: "holds h p len (F @ bs)"
      have "conn_inv E (?c\<lparr>input := R, memory := h\<rparr>) (hb @ (F @ bs))"
        by (rule inv_frontI) (use okn o h p e hd st in \<open>auto simp: head_ok_def partly_def len_def\<close>)
      then show "good_round E pending c G (Next (?c\<lparr>input := R, memory := h\<rparr>))"
        unfolding good_round_simps by (rule advancedI [of _ bs, rotated]) (use R st G in simp_all)
    next
      assume o: "state_offset R = 0" and h: "bytes h p = F @ bs" "ptr_ok h p"
      have "plen p = len" using p(4) by (simp add: holds_def)
      then have "whole_list h bl1 len (F @ bs)"
        using single_whole [OF okn(2) p(1,3) h(2) _ _ h(1)] p(2) \<open>len \<noteq> 0\<close> by simp
      then have "conn_inv E (?c\<lparr>input := R, memory := h, state := STATE_OPEN_MESSAGE_READ_MIDDLE\<rparr>) (hb @ (F @ bs) @ [])"
        using okn o e hd by (intro inv_middleI) (auto simp: conn_ok_def head_ok_def partly_def empty_list_def len_def)
      then show "good_round E pending c G (Next (?c\<lparr>input := R, memory := h, state := STATE_OPEN_MESSAGE_READ_MIDDLE\<rparr>))"
        unfolding good_round_simps by (rule advancedI [of _ bs, rotated]) (use R st G in simp_all)
    }
  qed
qed

lemma middle_window:
  assumes inv: "conn_inv E c G" and st: "state c = STATE_OPEN_MESSAGE_READ_MIDDLE"
    and len: "len = unat (middle_len (current_header c))" "len \<noteq> 0"
  obtains hb F M p bl1 h1 where "G = hb @ F @ M" "state_offset (input c) = length M" "head_ok E c hb"
    "whole_list h1 (front c) (unat (front_len (current_header c))) F" "avoids (front c) p"
    "empty_list (cdata c)" "empty_list (data_buf c)" "buffers bl1 = [p]" "blen bl1 = len"
    "append_buffer bl1 = null_ptr" "holds h1 p len M" "conn_ok (c\<lparr>cmiddle := bl1, memory := h1\<rparr>)"
    "step E rd c = read_window rd len p (\<lambda>c. Next (c\<lparr>state := STATE_OPEN_MESSAGE_READ_DATA_PREPARE\<rparr>)) (c\<lparr>cmiddle := bl1, memory := h1\<rparr>)"
proof -
  let ?fl = "unat (front_len (current_header c))"
  obtain hb F M where G: "G = hb @ F @ M" "state_offset (input c) = length M" "head_ok E c hb" "empty_list (cdata c)" "empty_list (data_buf c)"
    and w: "whole_list (memory c) (front c) ?fl F" and part: "partly (memory c) (cmiddle c) len M"
    and av: "\<forall>p \<in> set (buffers (cmiddle c)). avoids (front c) p"
    using inv [unfolded conn_inv_def Let_def st conn_state.case] len(1) by blast
  have ok: "conn_ok c" "heap_ok (memory c)" using inv by (simp_all add: conn_inv_def conn_ok_def)
  obtain bl1 h1 where wi: "window_of len (cmiddle c) (memory c) = (bl1, h1)" by (metis surj_pair)
  have "0 < len" "len < 2 ^ 32" using len u32_bound by simp_all
  then obtain p where p: "buffers bl1 = [p]" "blen bl1 = len" "append_buffer bl1 = null_ptr" "holds h1 p len M"
    "keeps_but None (memory c) h1" "avoids (front c) p"
    using section_window [OF ok(2) part _ _ wi] w av by blast
  have "whole_list h1 (front c) ?fl F" using keeps_list [OF p(5) _ w] by simp
  moreover have "step E rd c = read_window rd len p (\<lambda>c. Next (c\<lparr>state := STATE_OPEN_MESSAGE_READ_DATA_PREPARE\<rparr>)) (c\<lparr>cmiddle := bl1, memory := h1\<rparr>)"
    using st len wi p(1)
    by (auto simp: step_def step_read_middle_def allocate_msg_middle_def window_of_def Let_def split: prod.splits if_splits)
  moreover have "conn_ok (c\<lparr>cmiddle := bl1, memory := h1\<rparr>)" using ok p(3,5) by (simp add: conn_ok_def keeps_but_def)
  ultimately show ?thesis using that G p(1-4,6) by blast
qed

lemma middle_empty:
  assumes inv: "conn_inv E c G" and st: "state c = STATE_OPEN_MESSAGE_READ_MIDDLE" and len: "middle_len (current_header c) = 0"
  shows "step E rd c = Next (c\<lparr>state := STATE_OPEN_MESSAGE_READ_DATA_PREPARE\<rparr>)"
    and "conn_inv E (c\<lparr>state := STATE_OPEN_MESSAGE_READ_DATA_PREPARE\<rparr>) G"
proof -
  show "step E rd c = Next (c\<lparr>state := STATE_OPEN_MESSAGE_READ_DATA_PREPARE\<rparr>)"
    using st len by (simp add: step_def step_read_middle_def)
  obtain hb F M where G: "G = hb @ F @ M" and off: "state_offset (input c) = length M" and hd: "head_ok E c hb"
    and w: "whole_list (memory c) (front c) (unat (front_len (current_header c))) F" and part: "partly (memory c) (cmiddle c) 0 M"
    and e: "empty_list (cdata c)" "empty_list (data_buf c)"
    using inv [unfolded conn_inv_def Let_def st conn_state.case len] by auto
  have ok: "conn_ok c" "heap_ok (memory c)" using inv by (simp_all add: conn_inv_def conn_ok_def)
  have m: "M = []" "empty_list (cmiddle c)" using part by (auto simp: partly_def holds_def)
  then have "conn_inv E (c\<lparr>state := STATE_OPEN_MESSAGE_READ_DATA_PREPARE\<rparr>) (hb @ F @ [])"
    using ok hd e off len w empty_whole [OF ok(2)] by (intro inv_prepareI) (auto simp: conn_ok_def head_ok_def)
  then show "conn_inv E (c\<lparr>state := STATE_OPEN_MESSAGE_READ_DATA_PREPARE\<rparr>) G" using G m by simp
qed

lemma round_middle:
  assumes inv: "conn_inv E c G" and st: "state c = STATE_OPEN_MESSAGE_READ_MIDDLE"
  shows "good_round E pending c G (step E rd c)"
proof (cases "middle_len (current_header c) = 0")
  case True
  have "advanced E pending c G (c\<lparr>state := STATE_OPEN_MESSAGE_READ_DATA_PREPARE\<rparr>)"
    by (rule advancedI [of _ "[]", OF _ middle_empty(2) [OF inv st True]]) (use st in simp_all)
  then show ?thesis using middle_empty(1) [OF inv st True] by simp
next
  case False
  define len where "len = unat (middle_len (current_header c))"
  have "len \<noteq> 0" using False by (simp add: len_def unat_eq_0)
  let ?fl = "unat (front_len (current_header c))"
  obtain hb F M p bl1 h1 where G: "G = hb @ F @ M" and off: "state_offset (input c) = length M" and hd: "head_ok E c hb"
    and w: "whole_list h1 (front c) ?fl F" and av: "avoids (front c) p" and e: "empty_list (cdata c)" "empty_list (data_buf c)"
    and p: "buffers bl1 = [p]" "blen bl1 = len" "append_buffer bl1 = null_ptr" "holds h1 p len M"
    and okc: "conn_ok (c\<lparr>cmiddle := bl1, memory := h1\<rparr>)"
    and run: "step E rd c = read_window rd len p (\<lambda>c. Next (c\<lparr>state := STATE_OPEN_MESSAGE_READ_DATA_PREPARE\<rparr>)) (c\<lparr>cmiddle := bl1, memory := h1\<rparr>)"
    by (rule middle_window [OF inv st len_def \<open>len \<noteq> 0\<close>])
  let ?c = "c\<lparr>cmiddle := bl1, memory := h1\<rparr>"
  show ?thesis unfolding run
  proof (rule read_window_round [OF okc _ _])
    show "state_offset (input ?c) = length M" "holds (memory ?c) p len M" using off p(4) by simp_all
    show "good_round E pending c G (Fail c')" for c' by simp
    fix R h bs
    assume R: "reader_ok R" "keeps_but (praw p) (memory ?c) h" "stream pending (input ?c) = bs @ stream pending R"
    have okn: "conn_ok (?c\<lparr>input := R, memory := h\<rparr>)" "heap_ok h" using okc R by (simp_all add: conn_ok_def keeps_but_def)
    have w2: "whole_list h (front c) ?fl F" using keeps_avoiding [OF _ av] R(2) w by simp
    {
      assume o: "state_offset R = length (M @ bs)" and h: "holds h p len (M @ bs)"
      have "conn_inv E (?c\<lparr>input := R, memory := h\<rparr>) (hb @ F @ (M @ bs))"
        by (rule inv_middleI) (use okn o h p e hd st w2 av in \<open>auto simp: head_ok_def partly_def len_def\<close>)
      then show "good_round E pending c G (Next (?c\<lparr>input := R, memory := h\<rparr>))"
        unfolding good_round_simps by (rule advancedI [of _ bs, rotated]) (use R st G in simp_all)
    next
      assume o: "state_offset R = 0" and h: "bytes h p = M @ bs" "ptr_ok h p"
      have "plen p = len" using p(4) by (simp add: holds_def)
      then have "whole_list h bl1 len (M @ bs)"
        using single_whole [OF okn(2) p(1,3) h(2) _ _ h(1)] p(2) \<open>len \<noteq> 0\<close> by simp
      then have "conn_inv E (?c\<lparr>input := R, memory := h, state := STATE_OPEN_MESSAGE_READ_DATA_PREPARE\<rparr>) (hb @ F @ (M @ bs))"
        using okn o e hd w2 by (intro inv_prepareI) (auto simp: conn_ok_def head_ok_def len_def)
      then show "good_round E pending c G (Next (?c\<lparr>input := R, memory := h, state := STATE_OPEN_MESSAGE_READ_DATA_PREPARE\<rparr>))"
        unfolding good_round_simps by (rule advancedI [of _ bs, rotated]) (use R st G in simp_all)
    }
  qed
qed

lemma round_footer:
  assumes inv: "conn_inv E c G" and st: "state c = STATE_OPEN_MESSAGE_READ_FOOTER"
  shows "good_round E pending c G (step E rd c)"
proof -
  obtain hb F M D P where G: "G = hb @ F @ M @ D @ P" and off: "state_offset (input c) = length P" and hd: "head_ok E c hb"
    and w: "whole_list (memory c) (front c) (unat (front_len (current_header c))) F"
      "whole_list (memory c) (cmiddle c) (unat (middle_len (current_header c))) M"
      "whole_list (memory c) (cdata c) (unat (data_len (current_header c))) D" and P: "in_struct c 21 P"
    using inv [unfolded conn_inv_def Let_def st conn_state.case] by blast
  have ok: "conn_ok c" using inv by (simp add: conn_inv_def)
  show ?thesis unfolding step_def st conn_state.case step_read_footer_def
  proof (rule read_struct_round [OF ok off P])
    show "21 \<le> (4096 :: nat)" by simp
    show "good_round E pending c G (Fail c')" for c' by simp
    fix R and sb bs :: "byte list"
    assume R: "reader_ok R" "length sb = 4096" "stream pending (input c) = bs @ stream pending R"
    {
      assume o: "state_offset R = length (P @ bs)" "length (P @ bs) < 21" "take (length (P @ bs)) sb = P @ bs"
      have "conn_inv E (c\<lparr>input := R, state_buffer := sb\<rparr>) (hb @ F @ M @ D @ (P @ bs))"
        by (rule inv_footerI) (use ok R o hd st w in \<open>auto simp: conn_ok_def head_ok_def in_struct_def\<close>)
      then have "conn_inv E (c\<lparr>input := R, state_buffer := sb\<rparr>) (G @ bs)" using G by simp
      then show "good_round E pending c G (Next (c\<lparr>input := R, state_buffer := sb\<rparr>))"
        unfolding good_round_simps by (rule advancedI [of _ bs, rotated]) (use R st in simp_all)
    next
      assume o: "state_offset R = 0" "length (P @ bs) = 21"
      let ?ft = "footer_of (host (mach E)) (P @ bs)"
      let ?c = "c\<lparr>input := R, state_buffer := sb, current_footer := ?ft, state := STATE_OPEN_MESSAGE_THROTTLE_DISPATCH_SIZE\<rparr>"
      have "conn_inv E ?c (G @ bs)" if "fflags ?ft AND MSGR_MSG_FOOTER_COMPLETE \<noteq> 0"
      proof -
        have "conn_inv E ?c (hb @ F @ M @ D @ (P @ bs))"
          by (rule inv_framedI) (use ok R o hd w that in \<open>auto simp: conn_ok_def head_ok_def framed_def\<close>)
        then show ?thesis using G by simp
      qed
      then have "advanced E pending c G ?c" if "fflags ?ft AND MSGR_MSG_FOOTER_COMPLETE \<noteq> 0"
        by (intro advancedI [of _ bs, rotated]) (use that R st in simp_all)
      then show "good_round E pending c G (let ft = ?ft; c = (c\<lparr>input := R, state_buffer := sb\<rparr>)\<lparr>current_footer := ft\<rparr>
         in if fflags ft AND MSGR_MSG_FOOTER_COMPLETE = 0 then Fail c
            else Next (c\<lparr>state := STATE_OPEN_MESSAGE_THROTTLE_DISPATCH_SIZE\<rparr>))"
        by (simp add: Let_def)
    }
  qed
qed

lemma round_dispatch_size:
  assumes inv: "conn_inv E c G" and st: "state c = STATE_OPEN_MESSAGE_THROTTLE_DISPATCH_SIZE"
  shows "good_round E pending c G (step E rd c)"
proof -
  let ?c = "c\<lparr>state := STATE_OPEN_MESSAGE_DISPATCH\<rparr>"
  obtain hb F M D P where G: "G = hb @ F @ M @ D @ P" and f: "framed E c hb F M D P"
    using inv [unfolded conn_inv_def Let_def st conn_state.case] by blast
  have "conn_inv E ?c (hb @ F @ M @ D @ P)"
    by (rule inv_framedI) (use inv f in \<open>auto simp: conn_inv_def conn_ok_def framed_def head_ok_def\<close>)
  then have "advanced E pending c G ?c" by (intro advancedI [of _ "[]" _ _ G]) (use st G in simp_all)
  then show ?thesis using st by (simp add: step_def)
qed

lemma round_dispatch:
  assumes inv: "conn_inv E c G" and st: "state c = STATE_OPEN_MESSAGE_DISPATCH" and tol: "tolerant E"
  shows "good_round E pending c G (step E rd c)"
proof -
  obtain hb F M D P where G: "G = hb @ F @ M @ D @ P" and f: "framed E c hb F M D P"
    using inv [unfolded conn_inv_def Let_def st conn_state.case] by blast
  have ok: "conn_ok c" using inv by (simp add: conn_inv_def)
  have adv: "advanced E pending c G c'" if "state c' = STATE_OPEN" "input c' = input c" "conn_ok c'" for c'
    by (rule advancedI [of _ "[]" _ _ "[]"]) (use that f in \<open>simp_all add: conn_inv_def framed_def\<close>)
  let ?d = "decode_message (mach E) (make_msg E) (dec_payload E) (Some (die_on_bad_msg E)) (crc_flags E)
                (current_header c) (current_footer c) (front c) (cmiddle c) (cdata c) (memory c)"
  have run: "step E rd c = step_dispatch E c" using st by (simp add: step_def)
  show ?thesis
  proof (cases ?d)
    case (Decoded m h)
    have h: "heap_ok h" using decode_message_heap [OF Decoded] tol ok by (auto simp: tolerant_def conn_ok_def)
    obtain new s where rs: "receive_seq (get_seq m) (sess c) = (new, s)" by (metis surj_pair)
    have "throttler_bytes c = 0" "throttler_messages c = 0" using ok by (simp_all add: conn_ok_def)
    then show ?thesis
      using Decoded tol ok h rs
      by (auto simp: run step_dispatch_def Let_def tolerant_def conn_ok_def put_throttles_def destroy_message_def get_seq_def
        intro!: adv)
  next
    case Rejected
    then show ?thesis by (simp add: run step_dispatch_def Let_def)
  next
    case Crashed
    then show ?thesis using decode_message_no_crash tol by (simp add: tolerant_def)
  qed
qed

lemma round_prepare:
  assumes inv: "conn_inv E c G" and st: "state c = STATE_OPEN_MESSAGE_READ_DATA_PREPARE"
  shows "good_round E pending c G (step E rd c)"
proof -
  let ?len = "unat (data_len (current_header c))" and ?off = "unat (data_off (current_header c))"
  obtain hb F M where G: "G = hb @ F @ M" and off: "state_offset (input c) = 0" and hd: "head_ok E c hb"
    and w: "whole_list (memory c) (front c) (unat (front_len (current_header c))) F"
      "whole_list (memory c) (cmiddle c) (unat (middle_len (current_header c))) M"
    and e: "empty_list (cdata c)" "empty_list (data_buf c)"
    using inv [unfolded conn_inv_def Let_def st conn_state.case] by blast
  have ok: "conn_ok c" "heap_ok (memory c)" "rx_buffers c (tid (current_header c)) = None"
    using inv by (simp_all add: conn_inv_def conn_ok_def)
  show ?thesis
  proof (cases "?len = 0")
    case True
    let ?c = "c\<lparr>msg_left := 0, state := STATE_OPEN_MESSAGE_READ_DATA\<rparr>"
    have "data_ok ?c [] []" using empty_whole [OF ok(2) e(1)] True by (simp add: data_ok_def)
    then have "conn_inv E ?c (hb @ F @ M @ [] @ [])"
      using ok off hd w by (intro inv_dataI) (auto simp: conn_ok_def head_ok_def)
    then have "advanced E pending c G ?c" by (intro advancedI [of _ "[]", rotated]) (use st G in simp_all)
    then show ?thesis using st True by (simp add: step_def step_data_prepare_def)
  next
    case False
    then obtain bl h where a: "allocate_msg_data ?off ?len (data_buf c) (memory c) = Inr (bl, h)" "append_buffer bl = null_ptr"
      "data_windows (memory c) h (buffers bl) ?len"
      using allocate_msg_data_ok [OF ok(2) e(2), of ?len] u32_bound by blast
    let ?c = "c\<lparr>data_buf := bl, data_blp := iter_begin, memory := h, msg_left := ?len, state := STATE_OPEN_MESSAGE_READ_DATA\<rparr>"
    have k: "keeps_but None (memory c) h" using a(3) by (simp add: data_windows_def)
    have w1: "whole_list h (front c) (unat (front_len (current_header c))) F"
      "whole_list h (cmiddle c) (unat (middle_len (current_header c))) M" "whole_list h (cdata c) 0 []"
      using keeps_list [OF k] w empty_whole [OF ok(2) e(1)] by simp_all
    have "avoids (front c) p" "avoids (cmiddle c) p" if "p \<in> set (buffers bl)" for p
      using whole_avoids [OF w(1)] whole_avoids [OF w(2)] a(3) that by (auto simp: data_windows_def)
    moreover have "segs_ok h (buffers bl)" "buffers bl \<noteq> []" using a(3) by (simp_all add: data_windows_def)
    then have "holds h (buffers bl ! 0) (plen (buffers bl ! 0)) []"
      using segs_ok_nth [of h "buffers bl" 0] segs_raw by (auto simp: holds_def)
    ultimately have "data_ok ?c [] []"
      using a(3) w1(3) e(1) False by (simp add: data_ok_def Let_def iter_begin_def data_windows_def empty_list_def avoids_def)
    then have "conn_inv E ?c (hb @ F @ M @ [] @ [])"
      using ok off hd w1 a(2) k by (intro inv_dataI) (auto simp: conn_ok_def head_ok_def keeps_but_def)
    then have "advanced E pending c G ?c" by (intro advancedI [of _ "[]", rotated]) (use st G in simp_all)
    then show ?thesis using st False a(1) ok(3) by (simp add: step_def step_data_prepare_def Let_def)
  qed
qed

text \<open>The current window of the data, whole and at its beginning.\<close>

lemma current_window:
  assumes d: "data_ok c D P" and left: "msg_left c \<noteq> 0"
  shows "get_current_ptr (buffers (data_buf c)) (data_blp c) = Inr (buffers (data_buf c) ! ip (data_blp c))"
    and "plen (buffers (data_buf c) ! ip (data_blp c)) \<le> msg_left c"
    and "advance (buffers (data_buf c)) (int (plen (buffers (data_buf c) ! ip (data_blp c)))) (data_blp c) =
      Inr \<lparr>ioff = length D + plen (buffers (data_buf c) ! ip (data_blp c)), ip = Suc (ip (data_blp c)), ip_off = 0\<rparr>"
    and "length D + plen (buffers (data_buf c) ! ip (data_blp c)) = total_len (take (Suc (ip (data_blp c))) (buffers (data_buf c)))"
proof -
  let ?ps = "buffers (data_buf c)" and ?it = "data_blp c"
  let ?p = "?ps ! ip ?it"
  have f: "segs_ok (memory c) ?ps" "total_len ?ps = unat (data_len (current_header c))" "ip ?it < length ?ps" "ip_off ?it = 0"
    "length D = total_len (take (ip ?it) ?ps)" "ioff ?it = length D" "length D + msg_left c = unat (data_len (current_header c))"
    "holds (memory c) ?p (plen ?p) P"
    using d left by (auto simp: data_ok_def Let_def)
  have hok: "heap_ok (memory c)" using d by (simp add: data_ok_def Let_def whole_list_def list_ok_def)
  have p: "ptr_ok (memory c) ?p" "0 < plen ?p" "praw ?p \<noteq> None" using f(8) by (auto simp: holds_def)
  have "poff ?p + plen ?p < 2 ^ 32" using ptr_ok_bound [OF hok p(1)] .
  then show "get_current_ptr ?ps ?it = Inr ?p"
    using f(3,4) p(3) by (simp add: get_current_ptr_def iter_end_def ptr_sub_def)
  have t: "total_len (take (Suc (ip ?it)) ?ps) = length D + plen ?p" using total_len_take_Suc [OF f(3)] f(5) by simp
  then show "length D + plen ?p = total_len (take (Suc (ip ?it)) ?ps)" by simp
  show "plen ?p \<le> msg_left c" using t total_len_take_le [of "Suc (ip ?it)" ?ps] f(2,7) by linarith
  have "advance_fwd ?ps (ip ?it) (plen ?p) = Inr (Suc (ip ?it), 0)"
    using f(3) p(2) by (simp add: advance_fwd.simps [of ?ps "ip ?it"] advance_fwd.simps [of ?ps "Suc (ip ?it)"])
  then show "advance ?ps (int (plen ?p)) ?it = Inr \<lparr>ioff = length D + plen ?p, ip = Suc (ip ?it), ip_off = 0\<rparr>"
    using p(2) f(4,6) by (simp add: advance_def)
qed

lemma append_range_raws:
  "append_range bp off len bl = Inr bl' \<Longrightarrow> p \<in> set (buffers bl') \<Longrightarrow> praw p = praw bp \<or> (\<exists>q \<in> set (buffers bl). praw p = praw q)"
  by (auto simp: append_range_def Let_def ptr_sub_def push_back_def split: if_splits) (metis in_set_butlastD)

lemma next_piece:
  assumes d: "data_ok c D P" and left: "msg_left c \<noteq> 0" and p: "p = buffers (data_buf c) ! ip (data_blp c)"
    and h: "keeps_but (praw p) (memory c) h" "bytes h p = P @ bs" "ptr_ok h p"
    and ap: "append_range p 0 (plen p) (cdata c) = Inr dl" "list_ok h dl" "append_buffer dl = null_ptr"
      "contents h dl = D @ P @ bs"
    and c': "c' = c\<lparr>input := R, memory := h, cdata := dl, msg_left := msg_left c - plen p,
      data_blp := \<lparr>ioff = length D + plen p, ip = Suc (ip (data_blp c)), ip_off = 0\<rparr>\<rparr>"
  shows "data_ok c' (D @ P @ bs) []"
proof -
  let ?ps = "buffers (data_buf c)" and ?i = "ip (data_blp c)"
  note cw = current_window [OF d left, folded p]
  have f: "segs_ok (memory c) ?ps" "distinct (map praw ?ps)" "total_len ?ps = unat (data_len (current_header c))"
    "\<forall>q \<in> set ?ps. avoids (front c) q \<and> avoids (cmiddle c) q" "?i < length ?ps"
    "\<forall>q \<in> set (drop ?i ?ps). avoids (cdata c) q" "length D + msg_left c = unat (data_len (current_header c))"
    using d left by (auto simp: data_ok_def Let_def)
  have len: "length (P @ bs) = plen p" using length_bytes [OF h(3)] h(2) by simp
  have w: "whole_list h dl (length (D @ P @ bs)) (D @ P @ bs)" using ap by (simp add: whole_list_def)
  have total: "length (D @ P @ bs) + (msg_left c - plen p) = unat (data_len (current_header c))"
    using len cw(2) f(7) by simp
  show ?thesis
  proof (cases "msg_left c - plen p = 0")
    case True
    then show ?thesis using w total c' by (simp add: data_ok_def Let_def)
  next
    case False
    have segs: "segs_ok h ?ps" using f(1) h(1) by (auto simp: segs_ok_def keeps_but_def)
    have more: "Suc ?i < length ?ps"
    proof (rule ccontr)
      assume "\<not> Suc ?i < length ?ps"
      then have "total_len (take (Suc ?i) ?ps) = total_len ?ps" by simp
      then show False using cw(4) f(3,7) False by linarith
    qed
    have "avoids dl q" if q: "q \<in> set (drop (Suc ?i) ?ps)" for q
    proof -
      obtain j where j: "j < length ?ps - Suc ?i" "q = ?ps ! (Suc ?i + j)" using q by (auto simp: in_set_conv_nth)
      define k where "k = Suc ?i + j"
      have k: "Suc ?i \<le> k" "k < length ?ps" "q = ?ps ! k" using j by (simp_all add: k_def)
      then have "praw q \<noteq> praw p" using f(2,5) p by (simp add: distinct_conv_nth)
      moreover have "avoids (cdata c) q" using f(6) k by (metis Cons_nth_drop_Suc f(5) list.set_intros(2) q)
      ultimately show ?thesis using append_range_raws [OF ap(1)] unfolding avoids_def by metis
    qed
    moreover have "holds h (?ps ! Suc ?i) (plen (?ps ! Suc ?i)) []"
      using segs_ok_nth [OF segs more] segs_raw by (auto simp: holds_def)
    ultimately show ?thesis using w total c' segs f(2,3,4) more cw(4) len
      by (simp add: data_ok_def Let_def)
  qed
qed

lemma piece_read:
  assumes inv: "conn_inv E c G" and st: "state c = STATE_OPEN_MESSAGE_READ_DATA" and left: "msg_left c \<noteq> 0"
  shows "(\<exists>c'. read_data_piece rd c = Inl (Fail c')) \<or>
    (\<exists>c' bs. (read_data_piece rd c = Inl (Next c') \<or> read_data_piece rd c = Inr c') \<and> conn_inv E c' (G @ bs) \<and>
       state c' = STATE_OPEN_MESSAGE_READ_DATA \<and> stream pending (input c) = bs @ stream pending (input c'))"
proof -
  obtain hb F M D P where G: "G = hb @ F @ M @ D @ P" and off: "state_offset (input c) = length P" and hd: "head_ok E c hb"
    and w: "whole_list (memory c) (front c) (unat (front_len (current_header c))) F"
      "whole_list (memory c) (cmiddle c) (unat (middle_len (current_header c))) M" and d: "data_ok c D P"
    using inv [unfolded conn_inv_def Let_def st conn_state.case] by blast
  have ok: "conn_ok c" using inv by (simp add: conn_inv_def)
  let ?ps = "buffers (data_buf c)" and ?it = "data_blp c"
  define p where "p = ?ps ! ip ?it"
  note cw = current_window [OF d left, folded p_def]
  have f: "segs_ok (memory c) ?ps" "ip ?it < length ?ps" "holds (memory c) p (plen p) P" "avoids (front c) p" "avoids (cmiddle c) p"
    "\<forall>q \<in> set (drop (ip ?it) ?ps). avoids (cdata c) q" "whole_list (memory c) (cdata c) (length D) D"
    using d left by (auto simp: data_ok_def Let_def p_def)
  have pin: "p \<in> set (drop (ip ?it) ?ps)" using f(2) by (metis Cons_nth_drop_Suc list.set_intros(1) p_def)
  have len: "min (plen p) (msg_left c) = plen p" using cw(2) by simp
  obtain r q R where run: "read_until rd (plen p) (ptr_c_str (memory c) p) (input c) = Some (r, q, R)"
    and res: "r = -1 \<or> (\<exists>bs h. h = poke (the (praw p)) (poff p) q (memory c) \<and> reader_ok R \<and> keeps_but (praw p) (memory c) h \<and>
        stream pending (input c) = bs @ stream pending R \<and>
        (0 < r \<and> state_offset R = length (P @ bs) \<and> holds h p (plen p) (P @ bs) \<or>
         r = 0 \<and> state_offset R = 0 \<and> bytes h p = P @ bs \<and> ptr_ok h p))"
    using window_read [OF ok off f(3)] by blast
  note piece = read_data_piece_def [of rd c, unfolded cw(1) sum.case len Let_def run option.case prod.case]
  show ?thesis
  proof (cases "r = -1")
    case True
    then show ?thesis using piece by simp
  next
    case False
    then obtain bs h where h: "h = poke (the (praw p)) (poff p) q (memory c)" "reader_ok R" "keeps_but (praw p) (memory c) h"
        "stream pending (input c) = bs @ stream pending R"
      and r: "0 < r \<and> state_offset R = length (P @ bs) \<and> holds h p (plen p) (P @ bs) \<or>
         r = 0 \<and> state_offset R = 0 \<and> bytes h p = P @ bs \<and> ptr_ok h p"
      using res by blast
    let ?c = "c\<lparr>input := R, memory := h\<rparr>"
    have okc: "conn_ok ?c" using ok h(2,3) by (simp add: conn_ok_def keeps_but_def)
    have w1: "whole_list h (front c) (unat (front_len (current_header c))) F"
      "whole_list h (cmiddle c) (unat (middle_len (current_header c))) M" "whole_list h (cdata c) (length D) D"
      using keeps_avoiding [OF h(3)] w f(4,5,6,7) pin by auto
    from r show ?thesis
    proof (elim disjE conjE)
      assume "0 < r" "state_offset R = length (P @ bs)" and hold: "holds h p (plen p) (P @ bs)"
      have "segs_ok h ?ps" using f(1) h(3) by (auto simp: segs_ok_def keeps_but_def)
      then have "data_ok ?c D (P @ bs)" using d left w1(3) hold by (auto simp: data_ok_def Let_def p_def)
      then have "conn_inv E ?c (hb @ F @ M @ D @ (P @ bs))"
        using okc w1 st hd \<open>state_offset R = length (P @ bs)\<close> by (intro inv_dataI) (auto simp: head_ok_def)
      moreover have "read_data_piece rd c = Inl (Next ?c)" using piece \<open>0 < r\<close> h(1) by simp
      ultimately show ?thesis using G h(4) st by (intro disjI2 exI [of _ ?c] exI [of _ bs]) simp
    next
      assume z: "r = 0" "state_offset R = 0" and bts: "bytes h p = P @ bs" "ptr_ok h p"
      have "list_ok h (cdata c)" "append_buffer (cdata c) = null_ptr" "contents h (cdata c) = D"
        using w1(3) by (simp_all add: whole_list_def)
      moreover from this have "blen (cdata c) = length D" using length_contents [of h "cdata c"] by simp
      then have "blen (cdata c) + plen p < 2 ^ 32"
        using cw(2) d u32_bound [of "data_len (current_header c)"] by (auto simp: data_ok_def Let_def)
      moreover have "praw p \<noteq> None" using f(3) by (simp add: holds_def)
      ultimately obtain dl where dl: "append_range p 0 (plen p) (cdata c) = Inr dl" "list_ok h dl" "append_buffer dl = null_ptr"
        "contents h dl = D @ P @ bs"
        using append_range_ok [of h "cdata c" p 0 "plen p"] bts length_bytes [OF bts(2)]
        by (auto simp: clear_of_def null_ptr_def)
      let ?d = "c\<lparr>input := R, memory := h, cdata := dl, msg_left := msg_left c - plen p,
        data_blp := \<lparr>ioff = length D + plen p, ip = Suc (ip ?it), ip_off = 0\<rparr>\<rparr>"
      have "data_ok ?d (D @ P @ bs) []" by (rule next_piece [OF d left p_def h(3) bts dl refl])
      then have "conn_inv E ?d (hb @ F @ M @ (D @ P @ bs) @ [])"
        using okc w1 st hd z(2) dl(3) by (intro inv_dataI) (auto simp: conn_ok_def head_ok_def)
      moreover have "read_data_piece rd c = Inr ?d" using piece z(1) h(1) cw(3) dl(1) by simp
      ultimately show ?thesis using G h(4) st by (intro disjI2 exI [of _ ?d] exI [of _ bs]) simp
    qed
  qed
qed

lemma data_rounds:
  assumes "conn_inv E c (G @ bs)" and "state c = STATE_OPEN_MESSAGE_READ_DATA" and st: "state c0 = STATE_OPEN_MESSAGE_READ_DATA"
    and "stream pending (input c0) = bs @ stream pending (input c)"
  shows "good_round E pending c0 G (step_read_data rd c)"
  using assms(1,2,4)
proof (induction "msg_left c" arbitrary: c bs rule: less_induct)
  case less
  note inv = less.prems(1)
  show ?case
  proof (cases "msg_left c = 0")
    case True
    let ?c = "c\<lparr>state := STATE_OPEN_MESSAGE_READ_FOOTER\<rparr>"
    obtain hb F M D P where G: "G @ bs = hb @ F @ M @ D @ P" and off: "state_offset (input c) = length P" and hd: "head_ok E c hb"
      and w: "whole_list (memory c) (front c) (unat (front_len (current_header c))) F"
        "whole_list (memory c) (cmiddle c) (unat (middle_len (current_header c))) M" and d: "data_ok c D P"
      using inv [unfolded conn_inv_def Let_def less.prems(2) conn_state.case] by blast
    have P: "P = []" "whole_list (memory c) (cdata c) (unat (data_len (current_header c))) D"
      using d True by (auto simp: data_ok_def Let_def holds_def)
    have "conn_inv E ?c (hb @ F @ M @ D @ [])"
      using inv w hd off P by (intro inv_footerI) (auto simp: conn_inv_def conn_ok_def head_ok_def in_struct_def)
    then have "advanced E pending c0 G ?c"
      by (intro advancedI [of _ bs, rotated]) (use G P st less.prems(3) in simp_all)
    then show ?thesis using True by (simp add: step_read_data.simps)
  next
    case False
    note step = step_read_data.simps [of rd c] and piece = piece_read [OF inv less.prems(2) False]
    from piece show ?thesis
    proof (elim disjE exE conjE)
      fix c' assume "read_data_piece rd c = Inl (Fail c')"
      then show ?thesis using step False by simp
    next
      fix c' cs assume c': "read_data_piece rd c = Inl (Next c')" "conn_inv E c' ((G @ bs) @ cs)" "state c' = STATE_OPEN_MESSAGE_READ_DATA"
        "stream pending (input c) = cs @ stream pending (input c')"
      then have "advanced E pending c0 G c'"
        by (intro advancedI [of _ "bs @ cs" _ _ "(G @ bs) @ cs"]) (use st less.prems(3) in simp_all)
      then show ?thesis using c'(1) step False by simp
    next
      fix c' cs assume c': "read_data_piece rd c = Inr c'" "conn_inv E c' ((G @ bs) @ cs)" "state c' = STATE_OPEN_MESSAGE_READ_DATA"
        "stream pending (input c) = cs @ stream pending (input c')"
      have "good_round E pending c0 G (step_read_data rd c')"
        by (rule less.hyps [OF read_data_piece_less [OF c'(1) False], of "bs @ cs"]) (use c' less.prems(3) in simp_all)
      then show ?thesis using c'(1) step False by simp
    qed
  qed
qed

text \<open>Every round of an open connection is a good one.\<close>

lemma every_round:
  assumes inv: "conn_inv E c G" and tol: "tolerant E"
  shows "good_round E pending c G (step E rd c)"
proof (cases "state c")
  case STATE_OPEN_KEEPALIVE2
  then show ?thesis using round_struct8 [OF inv] by (auto simp: step_def step_keepalive2_def conn_ok_def)
next
  case STATE_OPEN_KEEPALIVE2_ACK
  then show ?thesis using round_struct8 [OF inv] by (auto simp: step_def step_keepalive2_ack_def conn_ok_def)
next
  case STATE_OPEN_TAG_ACK
  then show ?thesis using round_struct8 [OF inv] by (auto simp: step_def step_tag_ack_def conn_ok_def)
next
  case STATE_OPEN_MESSAGE_READ_DATA
  then show ?thesis using data_rounds [of E c G "[]" c] inv by (simp add: step_def)
next
  case STATE_OPEN_TAG_CLOSE
  then show ?thesis by (simp add: step_def)
qed (use inv tol round_open round_header round_throttle round_front round_middle round_prepare round_footer
    round_dispatch_size round_dispatch in \<open>blast | simp add: conn_inv_def\<close>)+

end

end
