(* ===== verification/Conn_Live.thy ===== *)
theory Conn_Live
  imports Conn_Frame
begin

text \<open>
  A message that the peer wrote arrives: as long as its bytes come in, the rounds of the open
  states go on to \<^verbatim>\<open>STATE_OPEN_MESSAGE_DISPATCH\<close> and hand the message to the dispatch queue.
\<close>

section \<open>Rounds go forward\<close>

text \<open>A round that leaves the state alone has used up one refusal of the socket.\<close>

definition forward :: "('s \<Rightarrow> nat) \<Rightarrow> 's conn \<Rightarrow> 's round \<Rightarrow> bool" where
  "forward wt c x \<longleftrightarrow>
     (\<exists>c'. x = Next c' \<and> (state c < state c' \<and> state c' \<noteq> STATE_OPEN_TAG_CLOSE \<or> state c' = state c \<and> wt (sock (input c')) < wt (sock (input c))))"

context live_socket
begin

lemma struct_forward:
  assumes ok: "conn_ok c" and off: "state_offset (input c) = length G" and g: "in_struct c len G" and len: "len \<le> 4096"
    and avail: "len \<le> length G + length (stream pending (input c))"
    and full: "\<And>R sb bs. stream pending (input c) = bs @ stream pending R \<Longrightarrow> length (G @ bs) = len \<Longrightarrow>
      forward waits c (k (G @ bs) (c\<lparr>input := R, state_buffer := sb\<rparr>))"
  shows "forward waits c (read_struct rd len k c)"
proof -
  have c: "reader_ok (input c)" "length (state_buffer c) = 4096" using ok by (simp_all add: conn_ok_def)
  have G: "length G < len" "take (length G) (state_buffer c) = G" using g by (simp_all add: in_struct_def)
  obtain r p R where run: "read_until rd len (state_buffer c) (input c) = Some (r, p, R)"
    and d: "r = -1 \<or> (\<exists>bs. until_done len (state_buffer c) (input c) bs r p R)"
    using read_until_bytes [OF c(1), of len "state_buffer c"] off G(1) len c(2) by auto
  have live: "0 \<le> r" "0 < r \<longrightarrow> waits (sock R) < waits (sock (input c))"
    using read_until_live [OF run c(1)] off G(1) avail by auto
  then obtain bs where u: "until_done len (state_buffer c) (input c) bs r p R" using d by auto
  then have bs: "length (G @ bs) + nat r = len" "p = memcpy (state_buffer c) (length G) bs"
    "stream pending (input c) = bs @ stream pending R"
    using off G(1) by (auto simp: until_done_def)
  show ?thesis
  proof (cases "r = 0")
    case True
    have fit: "length G + length bs \<le> length (state_buffer c)" using bs(1) len c(2) by simp
    have "take len p = G @ bs" using bs(1,2) True take_memcpy [OF fit] G(2) by simp
    moreover have "forward waits c (k (G @ bs) (c\<lparr>input := R, state_buffer := p\<rparr>))" using full [OF bs(3)] bs(1) True by simp
    ultimately show ?thesis using run True by (simp add: read_struct_def reading_def)
  next
    case False
    then show ?thesis using run live by (simp add: read_struct_def reading_def forward_def)
  qed
qed

lemma window_forward:
  assumes ok: "conn_ok c" and off: "state_offset (input c) = length G" and g: "holds (memory c) bp len G"
    and avail: "len \<le> length G + length (stream pending (input c))"
    and same: "state c0 = state c" "input c0 = input c"
    and full: "\<And>R h. forward waits c0 (k (c\<lparr>input := R, memory := h\<rparr>))"
  shows "forward waits c0 (read_window rd len bp k c)"
proof -
  have c: "reader_ok (input c)" using ok by (simp add: conn_ok_def)
  have G: "length G < len" using g by (simp add: holds_def)
  obtain r p R where run: "read_until rd len (ptr_c_str (memory c) bp) (input c) = Some (r, p, R)"
    using window_read [OF ok off g] by blast
  have live: "0 \<le> r" "0 < r \<longrightarrow> waits (sock R) < waits (sock (input c))"
    using read_until_live [OF run c] off G avail by auto
  show ?thesis
  proof (cases "r = 0")
    case True
    then show ?thesis using full run by (simp add: read_window_def reading_def)
  next
    case False
    then show ?thesis using live run same by (simp add: read_window_def reading_def forward_def)
  qed
qed

lemma piece_forward:
  assumes inv: "conn_inv E c G" and st: "state c = STATE_OPEN_MESSAGE_READ_DATA" and left: "msg_left c \<noteq> 0"
    and avail: "53 + unat (front_len (current_header c)) + unat (middle_len (current_header c)) + unat (data_len (current_header c))
      \<le> length G + length (stream pending (input c))"
  shows "(\<exists>c'. read_data_piece rd c = Inl (Next c') \<and> state c' = state c \<and> waits (sock (input c')) < waits (sock (input c))) \<or>
    (\<exists>c'. read_data_piece rd c = Inr c' \<and> waits (sock (input c')) \<le> waits (sock (input c)) \<and> current_header c' = current_header c)"
proof -
  obtain hb F M D P where G: "G = hb @ F @ M @ D @ P" and off: "state_offset (input c) = length P" and hd: "head_ok E c hb"
    and w: "whole_list (memory c) (front c) (unat (front_len (current_header c))) F"
      "whole_list (memory c) (cmiddle c) (unat (middle_len (current_header c))) M" and d: "data_ok c D P"
    using inv [unfolded conn_inv_def Let_def st conn_state.case] by blast
  have ok: "conn_ok c" "reader_ok (input c)" using inv by (simp_all add: conn_inv_def conn_ok_def)
  define p where "p = buffers (data_buf c) ! ip (data_blp c)"
  note cw = current_window [OF d left, folded p_def]
  have h: "holds (memory c) p (plen p) P" "length D + msg_left c = unat (data_len (current_header c))"
    using d left by (auto simp: data_ok_def Let_def p_def)
  have len: "min (plen p) (msg_left c) = plen p" using cw(2) by simp
  obtain r q R where run: "read_until rd (plen p) (ptr_c_str (memory c) p) (input c) = Some (r, q, R)"
    using window_read [OF ok(1) off h(1)] by blast
  have "length P < plen p" using h(1) by (simp add: holds_def)
  moreover have "plen p - length P \<le> length (stream pending (input c))"
    using avail G hd w h(2) cw(2) by (auto simp: head_ok_def whole_list_def)
  ultimately have live: "0 \<le> r" "waits (sock R) \<le> waits (sock (input c))" "0 < r \<longrightarrow> waits (sock R) < waits (sock (input c))"
    using read_until_live [OF run ok(2)] off by auto
  note piece = read_data_piece_def [of rd c, unfolded cw(1) sum.case len Let_def run option.case prod.case]
  show ?thesis
  proof (cases "r = 0")
    case True
    then obtain c' where c': "read_data_piece rd c = Inr c'"
      using piece_read [OF inv st left] piece by (auto split: sum.splits)
    then show ?thesis using piece True live(2) by (auto split: sum.splits)
  next
    case False
    then show ?thesis using piece live by simp
  qed
qed

lemma data_forward:
  assumes "conn_inv E c G" and "state c = STATE_OPEN_MESSAGE_READ_DATA" and st: "state c0 = STATE_OPEN_MESSAGE_READ_DATA"
    and "waits (sock (input c)) \<le> waits (sock (input c0))"
    and "53 + unat (front_len (current_header c)) + unat (middle_len (current_header c)) + unat (data_len (current_header c))
      \<le> length G + length (stream pending (input c))"
  shows "forward waits c0 (step_read_data rd c)"
  using assms(1,2,4,5)
proof (induction "msg_left c" arbitrary: c G rule: less_induct)
  case less
  note inv = less.prems(1) and step = step_read_data.simps [of rd c]
  show ?case
  proof (cases "msg_left c = 0")
    case True
    then show ?thesis using step st by (simp add: forward_def state_order)
  next
    case False
    from piece_forward [OF inv less.prems(2) False less.prems(4)] show ?thesis
    proof (elim disjE exE conjE)
      fix c' assume "read_data_piece rd c = Inl (Next c')" "state c' = state c" "waits (sock (input c')) < waits (sock (input c))"
      then show ?thesis using step False st less.prems(2,3) by (simp add: forward_def)
    next
      fix c' assume c': "read_data_piece rd c = Inr c'" "waits (sock (input c')) \<le> waits (sock (input c))" "current_header c' = current_header c"
      then obtain bs where i: "conn_inv E c' (G @ bs)" "state c' = STATE_OPEN_MESSAGE_READ_DATA"
        "stream pending (input c) = bs @ stream pending (input c')"
        using piece_read [OF inv less.prems(2) False] by auto
      have "forward waits c0 (step_read_data rd c')"
        by (rule less.hyps [OF read_data_piece_less [OF c'(1) False] i(1,2)]) (use c' i(3) less.prems(3,4) in simp_all)
      then show ?thesis using step False c'(1) by simp
    qed
  qed
qed

end

section \<open>Rounds that leave the session alone\<close>

text \<open>A read that is not finished has used up the prefetch buffer: nothing but the socket can hold more.\<close>

lemma read_large_idle:
  "read_large rd left p R = (res, p', R') \<Longrightarrow> recv_start R' = recv_start R \<and> recv_end R' = recv_end R"
proof (induction rd left p R rule: read_large.induct)
  case (1 rd left p R)
  obtain r bs s where b: "read_bulk rd left (sock R) = (r, bs, s)" by (metis surj_pair)
  show ?case using 1 b by (subst (asm) (2) read_large.simps) (auto simp: Let_def split: if_splits)
qed

lemma read_socket_idle:
  assumes "read_socket rd len left p R = Some (r, p', R')" and "0 < r"
  shows "recv_start R' = recv_end R'"
  using assms
  by (auto simp: read_socket_def Let_def split: if_splits prod.splits option.splits
      dest: read_large_result read_prefetch_result dest!: read_large_idle)

lemma read_until_idle:
  assumes "read_until rd len p R = Some (r, p', R')" and "0 < r"
  shows "recv_start R' = recv_end R'"
  using assms read_socket_idle by (fastforce simp: read_until_def Let_def split: if_splits)

definition quiet :: "'s conn \<Rightarrow> 's conn \<Rightarrow> bool" where
  "quiet c c' \<longleftrightarrow> sess c' = sess c \<and> in_q_calls c' = in_q_calls c \<and> conn_id c' = conn_id c"

definition onward :: "'s conn \<Rightarrow> 's round \<Rightarrow> bool" where
  "onward c x \<longleftrightarrow> (\<forall>c'. x = Leave c' \<longrightarrow> False) \<and>
     (\<forall>c'. x = Next c' \<longrightarrow> quiet c c' \<and> (state c' = state c \<and> recv_start (input c') = recv_end (input c') \<or> state c < state c'))"

lemma onward_simps [simp]:
  "onward c (Next c') \<longleftrightarrow> quiet c c' \<and> (state c' = state c \<and> recv_start (input c') = recv_end (input c') \<or> state c < state c')"
  "onward c (Fail c')" "onward c (Close c')" "onward c (Block c')" "onward c Crash" "onward c Other"
  by (simp_all add: onward_def)

lemma onward_reading:
  assumes "\<And>R p. onward c0 (k (store p (c\<lparr>input := R\<rparr>)))" and "\<And>R p. quiet c0 (store p (c\<lparr>input := R\<rparr>))"
    and "\<And>R p. state (store p (c\<lparr>input := R\<rparr>)) = state c0" and "\<And>R p. input (store p (c\<lparr>input := R\<rparr>)) = R"
  shows "onward c0 (reading rd len dest store k c)"
proof (cases "read_until rd len (dest c) (input c)")
  case None
  then show ?thesis by (simp add: reading_def)
next
  case (Some x)
  obtain r p R where x: "x = (r, p, R)" by (cases x) auto
  have "0 < r \<Longrightarrow> recv_start R = recv_end R" using read_until_idle Some x by blast
  then show ?thesis using Some x assms by (simp add: reading_def Let_def)
qed

lemma onward_data: "quiet c0 c \<Longrightarrow> state c0 = STATE_OPEN_MESSAGE_READ_DATA \<Longrightarrow> state c = state c0 \<Longrightarrow> onward c0 (step_read_data rd c)"
proof (induction rd c rule: step_read_data.induct)
  case (1 rd c)
  show ?case
  proof (cases "msg_left c = 0")
    case True
    then show ?thesis using 1 by (simp add: step_read_data.simps quiet_def state_order)
  next
    case False
    have "(\<exists>x. read_data_piece rd c = Inl x \<and> onward c0 x) \<or> (\<exists>c'. read_data_piece rd c = Inr c' \<and> quiet c0 c' \<and> state c' = state c0)"
      using 1(2-) read_until_idle
      by (auto simp: read_data_piece_def Let_def quiet_def split: sum.splits option.splits prod.splits)
    then show ?thesis using 1 False by (subst step_read_data.simps) auto
  qed
qed

text \<open>Every round of a message but the last one, and the round of the tag.\<close>

lemma onward_round:
  assumes "state c = STATE_OPEN \<or> STATE_OPEN_MESSAGE_HEADER \<le> state c" and "state c < STATE_OPEN_MESSAGE_DISPATCH"
  shows "onward c (step E rd c)"
proof (cases "state c")
  case st: STATE_OPEN
  have "onward c (step_open rd c)"
    using st read_until_idle [of rd 1 "[-1]" "input c"]
    by (auto simp: step_open_def Let_def quiet_def state_order split: option.splits)
  then show ?thesis using st by (simp add: step_def)
next
  case st: STATE_OPEN_MESSAGE_HEADER
  show ?thesis unfolding step_def st conn_state.case step_header_def read_struct_def
    by (rule onward_reading) (simp_all add: Let_def quiet_def st state_order)
next
  case st: STATE_OPEN_MESSAGE_READ_FOOTER
  show ?thesis unfolding step_def st conn_state.case step_read_footer_def read_struct_def
    by (rule onward_reading) (simp_all add: Let_def quiet_def st state_order)
next
  case st: STATE_OPEN_MESSAGE_READ_FRONT
  have "onward c (step_read_front rd c)" if "front_len (current_header c) \<noteq> 0"
  proof -
    have "onward c (read_window rd len bp (\<lambda>c. Next (c\<lparr>state := STATE_OPEN_MESSAGE_READ_MIDDLE\<rparr>)) c1)"
      if "quiet c c1" "state c1 = state c" for len bp c1
      unfolding read_window_def by (rule onward_reading) (use that st in \<open>simp_all add: quiet_def state_order\<close>)
    then show ?thesis using that by (simp add: step_read_front_def Let_def quiet_def unat_eq_0 split: prod.splits)
  qed
  then show ?thesis using st by (cases "front_len (current_header c) = 0")
      (simp_all add: step_def step_read_front_def quiet_def state_order)
next
  case st: STATE_OPEN_MESSAGE_READ_MIDDLE
  have "onward c (step_read_middle rd c)" if "middle_len (current_header c) \<noteq> 0"
  proof -
    have "onward c (read_window rd len bp (\<lambda>c. Next (c\<lparr>state := STATE_OPEN_MESSAGE_READ_DATA_PREPARE\<rparr>)) c1)"
      if "quiet c c1" "state c1 = state c" for len bp c1
      unfolding read_window_def by (rule onward_reading) (use that st in \<open>simp_all add: quiet_def state_order\<close>)
    then show ?thesis using that by (simp add: step_read_middle_def Let_def quiet_def unat_eq_0 split: prod.splits)
  qed
  then show ?thesis using st by (cases "middle_len (current_header c) = 0")
      (simp_all add: step_def step_read_middle_def quiet_def state_order)
next
  case st: STATE_OPEN_MESSAGE_READ_DATA_PREPARE
  then show ?thesis
    by (auto simp: step_def step_data_prepare_def Let_def quiet_def state_order split: option.splits prod.splits sum.splits)
next
  case st: STATE_OPEN_MESSAGE_READ_DATA
  then show ?thesis using onward_data [of c c rd] by (simp add: step_def quiet_def)
next
  case st: STATE_OPEN_MESSAGE_THROTTLE_MESSAGE
  then show ?thesis
    by (auto simp: step_def step_throttle_message_def take_throttle_def quiet_def state_order
        split: option.splits prod.splits outcome.splits)
next
  case st: STATE_OPEN_MESSAGE_THROTTLE_BYTES
  then show ?thesis
    by (auto simp: step_def step_throttle_bytes_def take_throttle_def Let_def quiet_def state_order
        split: option.splits prod.splits outcome.splits)
qed (use assms in \<open>simp_all add: step_def quiet_def state_order\<close>)

section \<open>A message in the stream\<close>

text \<open>The bytes \<^verbatim>\<open>write_message\<close> puts on the wire after the tag.\<close>

definition frame :: "endian \<Rightarrow> msgr_msg_header \<Rightarrow> byte list \<Rightarrow> byte list \<Rightarrow> byte list \<Rightarrow> msgr_msg_footer \<Rightarrow> byte list" where
  "frame e x F M D ft = header_bytes e x @ F @ M @ D @ footer_bytes e ft"

definition good_frame :: "env \<Rightarrow> msgr_msg_header \<Rightarrow> byte list \<Rightarrow> byte list \<Rightarrow> byte list \<Rightarrow> msgr_msg_footer \<Rightarrow> bool" where
  "good_frame E x F M D ft \<longleftrightarrow> length F = unat (front_len x) \<and> length M = unat (middle_len x) \<and> length D = unat (data_len x) \<and>
     (crc_flags E AND MSG_CRC_HEADER \<noteq> 0 \<longrightarrow> header_crc (mach E) x = hcrc x) \<and> fflags ft AND MSGR_MSG_FOOTER_COMPLETE \<noteq> 0"

definition on_frame :: "env \<Rightarrow> ('s \<Rightarrow> byte list) \<Rightarrow> 's conn \<Rightarrow> byte list \<Rightarrow> byte list \<Rightarrow> byte list \<Rightarrow> bool" where
  "on_frame E pend c G X rest \<longleftrightarrow> conn_inv E c G \<and> STATE_OPEN_MESSAGE_HEADER \<le> state c \<and> state c \<le> STATE_OPEN_MESSAGE_DISPATCH \<and>
     G @ stream pend (input c) = X @ rest"

lemma inv_head:
  assumes "conn_inv E c G" and "STATE_OPEN_MESSAGE_HEADER < state c" and "state c \<le> STATE_OPEN_MESSAGE_DISPATCH"
  shows "\<exists>hb T. G = hb @ T \<and> head_ok E c hb"
proof (cases "state c")
  case STATE_OPEN_MESSAGE_THROTTLE_MESSAGE
  then have "head_ok E c G" using assms(1) by (simp add: conn_inv_def Let_def)
  then show ?thesis by auto
next
  case STATE_OPEN_MESSAGE_THROTTLE_BYTES
  then have "head_ok E c G" using assms(1) by (simp add: conn_inv_def Let_def)
  then show ?thesis by auto
next
  case st: STATE_OPEN_MESSAGE_READ_FRONT
  show ?thesis using assms(1) [unfolded conn_inv_def Let_def st conn_state.case] by blast
next
  case st: STATE_OPEN_MESSAGE_READ_MIDDLE
  show ?thesis using assms(1) [unfolded conn_inv_def Let_def st conn_state.case] by blast
next
  case st: STATE_OPEN_MESSAGE_READ_DATA_PREPARE
  show ?thesis using assms(1) [unfolded conn_inv_def Let_def st conn_state.case] by blast
next
  case st: STATE_OPEN_MESSAGE_READ_DATA
  show ?thesis using assms(1) [unfolded conn_inv_def Let_def st conn_state.case] by blast
next
  case st: STATE_OPEN_MESSAGE_READ_FOOTER
  show ?thesis using assms(1) [unfolded conn_inv_def Let_def st conn_state.case] by blast
next
  case st: STATE_OPEN_MESSAGE_THROTTLE_DISPATCH_SIZE
  show ?thesis using assms(1) [unfolded conn_inv_def Let_def st conn_state.case] unfolding framed_def by blast
next
  case st: STATE_OPEN_MESSAGE_DISPATCH
  show ?thesis using assms(1) [unfolded conn_inv_def Let_def st conn_state.case] unfolding framed_def by blast
qed (use assms(2,3) in \<open>simp_all add: state_order\<close>)

lemma inv_range: "conn_inv E c G \<Longrightarrow> state c \<le> STATE_OPEN_TAG_CLOSE"
  by (cases "state c"; simp add: conn_inv_def state_order)

lemma state_below_close: "t \<le> STATE_OPEN_TAG_CLOSE \<Longrightarrow> t \<noteq> STATE_OPEN_TAG_CLOSE \<Longrightarrow> t \<le> STATE_OPEN_MESSAGE_DISPATCH"
  by (cases t) (simp_all add: state_order)

lemma on_frame_header:
  assumes "on_frame E pend c G (frame e x F M D ft) rest" and "STATE_OPEN_MESSAGE_HEADER < state c"
  shows "current_header c = x"
proof -
  obtain hb T where G: "G = hb @ T" "head_ok E c hb" using inv_head assms by (metis on_frame_def)
  then have "hb @ (T @ stream pend (input c)) = header_bytes e x @ (F @ M @ D @ footer_bytes e ft @ rest)" "length hb = 53"
    using assms(1) by (simp_all add: on_frame_def frame_def head_ok_def)
  then have "hb = header_bytes e x" by (metis append_eq_append_conv length_header(2))
  then show ?thesis using G(2) by (simp add: head_ok_def)
qed

text \<open>At the end of the frame everything is where it belongs.\<close>

lemma on_frame_framed:
  assumes on: "on_frame E pend c G (frame e x F M D ft) rest" and g: "good_frame E x F M D ft"
    and st: "state c = STATE_OPEN_MESSAGE_DISPATCH"
  shows "framed E c (header_bytes e x) F M D (footer_bytes e ft)" and "current_footer c = ft"
    and "current_header c = x" and "stream pend (input c) = rest"
proof -
  show x: "current_header c = x" by (rule on_frame_header [OF on]) (simp add: st state_order)
  obtain hb F' M' D' P where G: "G = hb @ F' @ M' @ D' @ P" and f: "framed E c hb F' M' D' P"
    using on [unfolded on_frame_def conn_inv_def Let_def st conn_state.case] by blast
  have len: "length hb = 53" "length F' = length F" "length M' = length M" "length D' = length D" "length P = 21"
    using f g x by (auto simp: framed_def head_ok_def whole_list_def good_frame_def)
  have "hb @ F' @ M' @ D' @ P @ stream pend (input c) = header_bytes e x @ F @ M @ D @ footer_bytes e ft @ rest"
    using on G by (simp add: on_frame_def frame_def)
  then have eq: "hb = header_bytes e x" "F' = F" "M' = M" "D' = D" "P = footer_bytes e ft" "stream pend (input c) = rest"
    using len by (simp_all add: append_eq_append_conv)
  then show "framed E c (header_bytes e x) F M D (footer_bytes e ft)" "stream pend (input c) = rest" using f by simp_all
  then show "current_footer c = ft" by (simp add: framed_def)
qed

text \<open>
  Rounds one after the other, over as many calls of \<^verbatim>\<open>do_process\<close> as it takes: a round that leaves the state
  as it is ends the call, and the next call starts with \<^verbatim>\<open>total_recv_bytes\<close> at 0.
\<close>

definition resumed :: "'s conn \<Rightarrow> 's conn \<Rightarrow> 's conn" where
  "resumed c c' = (if state c' = state c then c'\<lparr>total_recv_bytes := 0\<rparr> else c')"

definition rounds :: "env \<Rightarrow> 's read_fn \<Rightarrow> 's conn \<Rightarrow> 's conn \<Rightarrow> bool" where
  "rounds E rd = (\<lambda>c c'. \<exists>c1. step E rd c = Next c1 \<and> c' = resumed c c1)\<^sup>*\<^sup>*"

lemma rounds_refl [simp]: "rounds E rd c c"
  by (simp add: rounds_def)

lemma rounds_trans: "rounds E rd a b \<Longrightarrow> rounds E rd b c \<Longrightarrow> rounds E rd a c"
  by (simp add: rounds_def)

lemma rounds_step: "step E rd c = Next c1 \<Longrightarrow> rounds E rd (resumed c c1) c' \<Longrightarrow> rounds E rd c c'"
  unfolding rounds_def by (rule converse_rtranclp_into_rtranclp) auto

lemma inv_total: "conn_inv E (c\<lparr>total_recv_bytes := n\<rparr>) G = conn_inv E c G"
  by (simp add: conn_inv_def conn_ok_def head_ok_def in_struct_def data_ok_def framed_def Let_def split: conn_state.split)

lemma resumed_simps [simp]:
  "state (resumed c c1) = state c1" "input (resumed c c1) = input c1" "sess (resumed c c1) = sess c1"
  "in_q_calls (resumed c c1) = in_q_calls c1" "conn_id (resumed c c1) = conn_id c1"
  "conn_inv E (resumed c c1) G = conn_inv E c1 G"
  by (simp_all add: resumed_def inv_total)

context live_socket
begin

lemma frame_length:
  "on_frame E pending c G (frame e x F M D ft) rest \<Longrightarrow> good_frame E x F M D ft \<Longrightarrow>
    74 + unat (front_len x) + unat (middle_len x) + unat (data_len x) \<le> length G + length (stream pending (input c))"
proof -
  assume on: "on_frame E pending c G (frame e x F M D ft) rest" and g: "good_frame E x F M D ft"
  then have "length (G @ stream pending (input c)) = length (frame e x F M D ft @ rest)" by (simp add: on_frame_def)
  then show ?thesis using g by (simp add: frame_def good_frame_def)
qed

lemma forward_header:
  assumes on: "on_frame E pending c G (frame e x F M D ft) rest" and g: "good_frame E x F M D ft"
    and st: "state c = STATE_OPEN_MESSAGE_HEADER"
  shows "forward waits c (step E rd c)"
  unfolding step_def st conn_state.case step_header_def
proof (rule struct_forward)
  have inv: "conn_inv E c G" using on by (simp add: on_frame_def)
  show "conn_ok c" "state_offset (input c) = length G" "in_struct c 53 G" using inv st by (auto simp: conn_inv_def)
  show "53 \<le> (4096 :: nat)" by simp
  show "53 \<le> length G + length (stream pending (input c))" using frame_length [OF on g] by simp
  fix R and sb bs :: "byte list"
  assume bs: "stream pending (input c) = bs @ stream pending R" "length (G @ bs) = 53"
  have "(G @ bs) @ stream pending R = header_bytes e x @ (F @ M @ D @ footer_bytes e ft @ rest)"
    using on bs(1) by (simp add: on_frame_def frame_def)
  then have "G @ bs = header_bytes e x" using bs(2) by (metis append_eq_append_conv length_header(2))
  then have "header_of (host (mach E)) (G @ bs) = x" by simp
  then show "forward waits c (let x = header_of (host (mach E)) (G @ bs)
      in if crc_flags E AND MSG_CRC_HEADER \<noteq> 0 \<and> header_crc (mach E) x \<noteq> hcrc x then Fail (c\<lparr>input := R, state_buffer := sb\<rparr>)
         else Next ((c\<lparr>input := R, state_buffer := sb\<rparr>)\<lparr>data_buf := bl_clear (data_buf (c\<lparr>input := R, state_buffer := sb\<rparr>)),
           front := bl_clear (front (c\<lparr>input := R, state_buffer := sb\<rparr>)), cmiddle := bl_clear (cmiddle (c\<lparr>input := R, state_buffer := sb\<rparr>)),
           cdata := bl_clear (cdata (c\<lparr>input := R, state_buffer := sb\<rparr>)), current_header := x, state := STATE_OPEN_MESSAGE_THROTTLE_MESSAGE\<rparr>))"
    using g st by (auto simp: good_frame_def forward_def state_order)
qed

lemma forward_footer:
  assumes on: "on_frame E pending c G (frame e x F M D ft) rest" and g: "good_frame E x F M D ft"
    and st: "state c = STATE_OPEN_MESSAGE_READ_FOOTER"
  shows "forward waits c (step E rd c)"
proof -
  have x: "current_header c = x" by (rule on_frame_header [OF on]) (simp add: st state_order)
  have inv: "conn_inv E c G" "conn_ok c" using on by (simp_all add: on_frame_def conn_inv_def)
  obtain hb F' M' D' P where G: "G = hb @ F' @ M' @ D' @ P" and off: "state_offset (input c) = length P" and hd: "head_ok E c hb"
    and w: "whole_list (memory c) (front c) (unat (front_len x)) F'" "whole_list (memory c) (cmiddle c) (unat (middle_len x)) M'"
      "whole_list (memory c) (cdata c) (unat (data_len x)) D'" and P: "in_struct c 21 P"
    using inv(1) [unfolded conn_inv_def Let_def st conn_state.case x] by blast
  have len: "length hb = 53" "length F' = length F" "length M' = length M" "length D' = length D"
    using w hd g by (auto simp: head_ok_def whole_list_def good_frame_def)
  show ?thesis unfolding step_def st conn_state.case step_read_footer_def
  proof (rule struct_forward [OF inv(2) off P])
    show "21 \<le> (4096 :: nat)" by simp
    show "21 \<le> length P + length (stream pending (input c))" using frame_length [OF on g] G len g by (simp add: good_frame_def)
    fix R and sb bs :: "byte list"
    assume bs: "stream pending (input c) = bs @ stream pending R" "length (P @ bs) = 21"
    have "hb @ F' @ M' @ D' @ (P @ bs) @ stream pending R = header_bytes e x @ F @ M @ D @ footer_bytes e ft @ rest"
      using on G bs(1) by (simp add: on_frame_def frame_def)
    then have "P @ bs = footer_bytes e ft" using len bs(2) by (simp add: append_eq_append_conv del: append_assoc)
    then show "forward waits c (let ft = footer_of (host (mach E)) (P @ bs); c = (c\<lparr>input := R, state_buffer := sb\<rparr>)\<lparr>current_footer := ft\<rparr>
         in if fflags ft AND MSGR_MSG_FOOTER_COMPLETE = 0 then Fail c
            else Next (c\<lparr>state := STATE_OPEN_MESSAGE_THROTTLE_DISPATCH_SIZE\<rparr>))"
      using g st by (simp add: Let_def good_frame_def forward_def state_order)
  qed
qed

lemma forward_front:
  assumes on: "on_frame E pending c G (frame e x F M D ft) rest" and g: "good_frame E x F M D ft"
    and st: "state c = STATE_OPEN_MESSAGE_READ_FRONT"
  shows "forward waits c (step E rd c)"
proof (cases "front_len (current_header c) = 0")
  case True
  then show ?thesis using front_empty(1) [of E c G] on st by (simp add: on_frame_def forward_def state_order)
next
  case False
  have x: "current_header c = x" by (rule on_frame_header [OF on]) (simp add: st state_order)
  have inv: "conn_inv E c G" using on by (simp add: on_frame_def)
  define len where "len = unat (front_len (current_header c))"
  have "len \<noteq> 0" using False by (simp add: len_def unat_eq_0)
  then obtain hb F' p bl1 h1 where G: "G = hb @ F'" and off: "state_offset (input c) = length F'" and hd: "head_ok E c hb"
    and "empty_list (cmiddle c)" "empty_list (cdata c)" "empty_list (data_buf c)" "buffers bl1 = [p]" "blen bl1 = len"
      "append_buffer bl1 = null_ptr" and h: "holds h1 p len F'" and okc: "conn_ok (c\<lparr>front := bl1, memory := h1\<rparr>)"
    and run: "step E rd c = read_window rd len p (\<lambda>c. Next (c\<lparr>state := STATE_OPEN_MESSAGE_READ_MIDDLE\<rparr>)) (c\<lparr>front := bl1, memory := h1\<rparr>)"
    by (rule front_window [OF inv st len_def])
  show ?thesis unfolding run
  proof (rule window_forward [OF okc])
    show "state_offset (input (c\<lparr>front := bl1, memory := h1\<rparr>)) = length F'" "holds (memory (c\<lparr>front := bl1, memory := h1\<rparr>)) p len F'"
      using off h by simp_all
    show "len \<le> length F' + length (stream pending (input (c\<lparr>front := bl1, memory := h1\<rparr>)))"
      using frame_length [OF on g] G hd x by (simp add: head_ok_def len_def)
  qed (use st in \<open>simp_all add: forward_def state_order\<close>)
qed

lemma forward_middle:
  assumes on: "on_frame E pending c G (frame e x F M D ft) rest" and g: "good_frame E x F M D ft"
    and st: "state c = STATE_OPEN_MESSAGE_READ_MIDDLE"
  shows "forward waits c (step E rd c)"
proof (cases "middle_len (current_header c) = 0")
  case True
  then show ?thesis using middle_empty(1) [of E c G] on st by (simp add: on_frame_def forward_def state_order)
next
  case False
  have x: "current_header c = x" by (rule on_frame_header [OF on]) (simp add: st state_order)
  have inv: "conn_inv E c G" using on by (simp add: on_frame_def)
  define len where "len = unat (middle_len (current_header c))"
  have "len \<noteq> 0" using False by (simp add: len_def unat_eq_0)
  then obtain hb F' M' p bl1 h1 where G: "G = hb @ F' @ M'" and off: "state_offset (input c) = length M'" and hd: "head_ok E c hb"
    and w: "whole_list h1 (front c) (unat (front_len (current_header c))) F'" and "avoids (front c) p"
      "empty_list (cdata c)" "empty_list (data_buf c)" "buffers bl1 = [p]" "blen bl1 = len"
      "append_buffer bl1 = null_ptr" and h: "holds h1 p len M'" and okc: "conn_ok (c\<lparr>cmiddle := bl1, memory := h1\<rparr>)"
    and run: "step E rd c = read_window rd len p (\<lambda>c. Next (c\<lparr>state := STATE_OPEN_MESSAGE_READ_DATA_PREPARE\<rparr>)) (c\<lparr>cmiddle := bl1, memory := h1\<rparr>)"
    by (rule middle_window [OF inv st len_def])
  show ?thesis unfolding run
  proof (rule window_forward [OF okc])
    show "state_offset (input (c\<lparr>cmiddle := bl1, memory := h1\<rparr>)) = length M'" "holds (memory (c\<lparr>cmiddle := bl1, memory := h1\<rparr>)) p len M'"
      using off h by simp_all
    show "len \<le> length M' + length (stream pending (input (c\<lparr>cmiddle := bl1, memory := h1\<rparr>)))"
      using frame_length [OF on g] G hd w x by (simp add: head_ok_def whole_list_def len_def)
  qed (use st in \<open>simp_all add: forward_def state_order\<close>)
qed

lemma forward_round:
  assumes on: "on_frame E pending c G (frame e x F M D ft) rest" and g: "good_frame E x F M D ft"
    and st: "state c \<noteq> STATE_OPEN_MESSAGE_DISPATCH"
  shows "forward waits c (step E rd c)"
proof -
  have inv: "conn_inv E c G" and c: "throttler_bytes c = 0" "throttler_messages c = 0" "heap_ok (memory c)" "rx_buffers c (tid x) = None"
    using on by (simp_all add: on_frame_def conn_inv_def conn_ok_def)
  have range: "STATE_OPEN_MESSAGE_HEADER \<le> state c" "state c \<le> STATE_OPEN_MESSAGE_DISPATCH" using on by (simp_all add: on_frame_def)
  have hx: "STATE_OPEN_MESSAGE_HEADER < state c \<Longrightarrow> current_header c = x" using on_frame_header [OF on] .
  show ?thesis
  proof (cases "state c")
    case st: STATE_OPEN_MESSAGE_READ_DATA_PREPARE
    have x: "current_header c = x" by (rule hx) (simp add: st state_order)
    have e: "empty_list (data_buf c)" using inv [unfolded conn_inv_def Let_def st conn_state.case] by blast
    show ?thesis
    proof (cases "data_len x = 0")
      case True
      then show ?thesis using st x by (simp add: step_def step_data_prepare_def forward_def state_order)
    next
      case False
      then have "0 < unat (data_len x)" by (simp add: unat_gt_0)
      then obtain bl h where "allocate_msg_data (unat (data_off x)) (unat (data_len x)) (data_buf c) (memory c) = Inr (bl, h)"
        using allocate_msg_data_ok [OF c(3) e _ u32_bound] by blast
      then show ?thesis using st x False c(4)
        by (simp add: step_def step_data_prepare_def forward_def state_order Let_def unat_eq_0)
    qed
  next
    case st: STATE_OPEN_MESSAGE_READ_DATA
    have x: "current_header c = x" by (rule hx) (simp add: st state_order)
    have "forward waits c (step_read_data rd c)"
      by (rule data_forward [OF inv st st]) (use frame_length [OF on g] x in simp_all)
    then show ?thesis using st by (simp add: step_def)
  next
    case STATE_OPEN_MESSAGE_HEADER
    then show ?thesis by (rule forward_header [OF on g])
  next
    case STATE_OPEN_MESSAGE_READ_FRONT
    then show ?thesis by (rule forward_front [OF on g])
  next
    case STATE_OPEN_MESSAGE_READ_MIDDLE
    then show ?thesis by (rule forward_middle [OF on g])
  next
    case STATE_OPEN_MESSAGE_READ_FOOTER
    then show ?thesis by (rule forward_footer [OF on g])
  next
    case STATE_OPEN_MESSAGE_THROTTLE_MESSAGE
    then show ?thesis using c by (simp add: step_def step_throttle_message_def take_throttle_def forward_def state_order)
  next
    case STATE_OPEN_MESSAGE_THROTTLE_BYTES
    then show ?thesis using c by (simp add: step_def step_throttle_bytes_def take_throttle_def Let_def forward_def state_order)
  next
    case STATE_OPEN_MESSAGE_THROTTLE_DISPATCH_SIZE
    then show ?thesis by (simp add: step_def forward_def state_order)
  qed (use st range in \<open>simp_all add: state_order\<close>)
qed

lemma reach_dispatch:
  assumes "on_frame E pending c G (frame e x F M D ft) rest" and g: "good_frame E x F M D ft" and tol: "tolerant E"
  shows "\<exists>c' G'. rounds E rd c c' \<and> quiet c c' \<and> on_frame E pending c' G' (frame e x F M D ft) rest \<and>
    state c' = STATE_OPEN_MESSAGE_DISPATCH"
  using assms(1)
proof (induction "(33 - state_num (state c), waits (sock (input c)))" arbitrary: c G rule: wf_induct [OF wf_lex_prod [OF wf_less_than wf_less_than]])
  case (1 c G)
  show ?case
  proof (cases "state c = STATE_OPEN_MESSAGE_DISPATCH")
    case True
    then show ?thesis using 1(2) by (auto simp: quiet_def intro: rounds_refl)
  next
    case False
    then obtain c1 where n: "step E rd c = Next c1"
      "state c < state c1 \<and> state c1 \<noteq> STATE_OPEN_TAG_CLOSE \<or> state c1 = state c \<and> waits (sock (input c1)) < waits (sock (input c))"
      using forward_round [OF 1(2) g] by (auto simp: forward_def)
    let ?c = "resumed c c1"
    have inv: "conn_inv E c G" and range: "STATE_OPEN_MESSAGE_HEADER \<le> state c" "state c \<le> STATE_OPEN_MESSAGE_DISPATCH"
      using 1(2) by (simp_all add: on_frame_def)
    have no: "state c \<noteq> STATE_OPEN" using range by (auto simp: state_order)
    have up: "state c \<le> state c1" using n(2) by auto
    then have no1: "state c1 \<noteq> STATE_OPEN" using range by (auto simp: state_order)
    obtain bs where bs: "stream pending (input c) = bs @ stream pending (input c1)" "conn_inv E c1 (G @ bs)"
      using every_round [OF inv tol] n(1) no no1 by (auto simp: advanced_def)
    have st: "state c1 \<le> STATE_OPEN_MESSAGE_DISPATCH"
      using n(2) range(2) inv_range [OF bs(2)] state_below_close by auto
    have "on_frame E pending ?c (G @ bs) (frame e x F M D ft) rest"
      using 1(2) bs up st by (auto simp: on_frame_def)
    moreover have "((33 - state_num (state ?c), waits (sock (input ?c))), (33 - state_num (state c), waits (sock (input c))))
        \<in> less_than <*lex*> less_than"
      using n(2) st by (auto simp: state_order)
    ultimately obtain c2 G2 where c2: "rounds E rd ?c c2" "quiet ?c c2" "on_frame E pending c2 G2 (frame e x F M D ft) rest"
        "state c2 = STATE_OPEN_MESSAGE_DISPATCH"
      using 1(1) by blast
    have "quiet c c1" using onward_round [of c E rd] range False n(1) by (simp add: order.strict_iff_order)
    then have "quiet c c2" using c2(2) by (simp add: quiet_def)
    then show ?thesis using rounds_step [OF n(1) c2(1)] c2(3,4) by blast
  qed
qed

end

end
