(* ===== verification/Conn_Process.thy ===== *)
theory Conn_Process
  imports Conn_Live
begin

text \<open>
  A call of \<^verbatim>\<open>do_process\<close> on an open connection: it ends, it leaves nothing behind that no event would
  wake it up for, and the message at the head of the stream is handed to the dispatch queue.
\<close>

section \<open>The round of the tag\<close>

context byte_socket
begin

lemma tag_round:
  assumes inv: "conn_inv E c G" and st: "state c = STATE_OPEN" and n: "step E rd c = Next c'"
  shows "state c' = STATE_OPEN \<and> stream pending (input c) = stream pending (input c') \<or>
    (\<exists>t. state c' \<noteq> STATE_OPEN \<and> stream pending (input c) = t # stream pending (input c') \<and>
       (t = MSGR_MSGR_TAG_MSG \<longrightarrow> state c' = STATE_OPEN_MESSAGE_HEADER))"
proof -
  have off: "state_offset (input c) = 0" and ok: "reader_ok (input c)" using inv st by (simp_all add: conn_inv_def conn_ok_def)
  obtain r p R where run: "read_until rd 1 [-1] (input c) = Some (r, p, R)"
    and d: "r = -1 \<or> (\<exists>bs. until_done 1 [-1] (input c) bs r p R)"
    using read_until_bytes [OF ok, of 1 "[-1]"] off by auto
  have "r \<noteq> -1" using n run st by (auto simp: step_def step_open_def)
  then obtain bs where "until_done 1 [-1] (input c) bs r p R" using d by blast
  then have bs: "stream pending (input c) = bs @ stream pending R" "length bs + nat r = 1" "0 \<le> r" "p = memcpy [-1] 0 bs"
    using off by (simp_all add: until_done_def)
  show ?thesis
  proof (cases "r = 0")
    case False
    then have "bs = []" "0 < r" using bs(2,3) by (cases bs; auto)+
    then show ?thesis using n run st bs(1) by (auto simp: step_def step_open_def)
  next
    case True
    then obtain t where t: "bs = [t]" using bs(2) by (cases bs) auto
    then have "p = [t]" using bs(4) by (simp add: memcpy_def)
    then show ?thesis using n run st bs(1) True t
      by (auto simp: step_def step_open_def Let_def MSGR_MSGR_TAG_KEEPALIVE2_def MSGR_MSGR_TAG_KEEPALIVE2_ACK_def
          MSGR_MSGR_TAG_ACK_def MSGR_MSGR_TAG_MSG_def MSGR_MSGR_TAG_CLOSE_def split: if_splits)
  qed
qed

end

context live_socket
begin

lemma tag_forward:
  assumes inv: "conn_inv E c G" and st: "state c = STATE_OPEN" and s: "stream pending (input c) = MSGR_MSGR_TAG_MSG # rest"
  shows "\<exists>c'. step E rd c = Next c' \<and> (state c' = STATE_OPEN \<longrightarrow> waits (sock (input c')) < waits (sock (input c)))"
proof -
  have off: "state_offset (input c) = 0" and ok: "reader_ok (input c)" using inv st by (simp_all add: conn_inv_def conn_ok_def)
  obtain r p R where run: "read_until rd 1 [-1] (input c) = Some (r, p, R)"
    and d: "r = -1 \<or> (\<exists>bs. until_done 1 [-1] (input c) bs r p R)"
    using read_until_bytes [OF ok, of 1 "[-1]"] off by auto
  have live: "0 \<le> r" "0 < r \<longrightarrow> waits (sock R) < waits (sock (input c))"
    using read_until_live [OF run ok] off s by auto
  then obtain bs where "until_done 1 [-1] (input c) bs r p R" using d by auto
  then have bs: "stream pending (input c) = bs @ stream pending R" "length bs + nat r = 1" "p = memcpy [-1] 0 bs"
    using off by (simp_all add: until_done_def)
  show ?thesis
  proof (cases "r = 0")
    case False
    then show ?thesis using live run st by (simp add: step_def step_open_def)
  next
    case True
    then have "bs = [MSGR_MSGR_TAG_MSG]" using bs(1,2) s by (cases bs) auto
    then have "hd p = MSGR_MSGR_TAG_MSG" using bs(3) by (simp add: memcpy_def)
    then show ?thesis using run True st
      by (simp add: step_def step_open_def MSGR_MSGR_TAG_KEEPALIVE2_def MSGR_MSGR_TAG_KEEPALIVE2_ACK_def
          MSGR_MSGR_TAG_ACK_def MSGR_MSGR_TAG_MSG_def)
  qed
qed

lemma reach_header:
  assumes "conn_inv E c []" and "state c = STATE_OPEN" and "stream pending (input c) = MSGR_MSGR_TAG_MSG # rest"
    and tol: "tolerant E"
  shows "\<exists>c'. rounds E rd c c' \<and> quiet c c' \<and> conn_inv E c' [] \<and> state c' = STATE_OPEN_MESSAGE_HEADER \<and>
    stream pending (input c') = rest"
  using assms(1-3)
proof (induction "waits (sock (input c))" arbitrary: c rule: less_induct)
  case less
  obtain c1 where n: "step E rd c = Next c1" "state c1 = STATE_OPEN \<longrightarrow> waits (sock (input c1)) < waits (sock (input c))"
    using tag_forward [OF less.prems] by blast
  let ?c = "resumed c c1"
  have q: "quiet c ?c" using onward_round [of c E rd] n(1) less.prems(2) by (simp add: quiet_def state_order)
  have inv: "conn_inv E ?c []" using every_round [OF less.prems(1) tol] n(1) less.prems(2) by (auto simp: advanced_def)
  have go: "rounds E rd c c'" if "rounds E rd ?c c'" for c' using rounds_step [OF n(1) that] .
  from tag_round [OF less.prems(1,2) n(1)] show ?case
  proof (elim disjE conjE exE)
    assume s: "state c1 = STATE_OPEN" "stream pending (input c) = stream pending (input c1)"
    then obtain c' where "rounds E rd ?c c'" "quiet ?c c'" "conn_inv E c' []" "state c' = STATE_OPEN_MESSAGE_HEADER"
        "stream pending (input c') = rest"
      using less.hyps [of ?c] n(2) inv less.prems(3) by auto
    then show ?thesis using go q by (auto simp: quiet_def)
  next
    fix t assume "stream pending (input c) = t # stream pending (input c1)" "t = MSGR_MSGR_TAG_MSG \<longrightarrow> state c1 = STATE_OPEN_MESSAGE_HEADER"
    then show ?thesis using go [OF rounds_refl] q inv less.prems(3) by (intro exI [of _ ?c]) auto
  qed
qed

end

section \<open>The last round of a message\<close>

text \<open>What the application gets: the message its own decoder made out of the header and the sections.\<close>

definition decoded_from :: "env \<Rightarrow> msgr_msg_header \<Rightarrow> byte list \<Rightarrow> byte list \<Rightarrow> byte list \<Rightarrow> message \<Rightarrow> bool" where
  "decoded_from E x F M D got \<longleftrightarrow>
     (\<exists>m g m' g'. header m = x \<and> contents g (payload m) = F \<and> contents g (middle m) = M \<and> contents g (mdata m) = D \<and>
        dec_payload E m g = Inr (m', g') \<and> got = m'\<lparr>byte_throttler := 0, msg_throttler := 0, reserved_size := message_size x\<rparr>)"

definition decodable :: "env \<Rightarrow> msgr_msg_header \<Rightarrow> byte list \<Rightarrow> byte list \<Rightarrow> byte list \<Rightarrow> bool" where
  "decodable E x F M D \<longleftrightarrow>
     (\<forall>m g. header m = x \<longrightarrow> contents g (payload m) = F \<longrightarrow> contents g (middle m) = M \<longrightarrow> contents g (mdata m) = D \<longrightarrow>
        (\<exists>m' g'. dec_payload E m g = Inr (m', g') \<and> get_seq m' = get_seq m))"

lemma dispatch_framed:
  assumes f: "framed E c hb F M D P" and st: "state c = STATE_OPEN_MESSAGE_DISPATCH"
    and ok: "conn_ok c" and tol: "tolerant E" and mc: "sound_machine (mach E)"
    and chk: "checks_ok (crc_flags E) (current_footer c) F M D"
    and mk: "make_msg E (uint (htype (current_header c))) = Some fresh"
      "version (header fresh) = 0 \<or> compat_version (current_header c) \<le> version (header fresh)"
    and dec: "decodable E (current_header c) F M D"
    and new: "in_seq (sess c) < (ucast (ucast (hseq (current_header c)) :: u32) :: u64)"
  shows "\<exists>c' got. (step E rd c = Next c' \<or> step E rd c = Leave c') \<and> state c' = STATE_OPEN \<and> input c' = input c \<and>
    decoded_from E (current_header c) F M D got \<and> in_q_calls c' = in_q_calls c @ hand_over E got (conn_id c) \<and>
    sess c' = (sess c)\<lparr>in_seq := ucast (ucast (hseq (current_header c)) :: u32)\<rparr> \<and> conn_id c' = conn_id c"
proof -
  let ?x = "current_header c" and ?h = "memory c"
  have w: "list_ok ?h (front c)" "list_ok ?h (cmiddle c)" "list_ok ?h (cdata c)"
    "contents ?h (front c) = F" "contents ?h (cmiddle c) = M" "contents ?h (cdata c) = D"
    using f by (simp_all add: framed_def whole_list_def)
  obtain m where m: "filled fresh ?x ?h (front c) (cmiddle c) (cdata c) m"
      "decode_message (mach E) (make_msg E) (dec_payload E) (Some (die_on_bad_msg E)) (crc_flags E) ?x (current_footer c)
         (front c) (cmiddle c) (cdata c) ?h =
       (case dec_payload E m ?h of Inl _ \<Rightarrow> (if Some (die_on_bad_msg E) = Some True then Crashed else Rejected)
        | Inr (m', h') \<Rightarrow> Decoded m' h')"
    using decode_message_eq(2) [OF mc w(1-3), of "crc_flags E" "current_footer c" "make_msg E" ?x fresh "dec_payload E" "Some (die_on_bad_msg E)"]
      chk mk w(4-6) by auto
  have fm: "header m = ?x" "contents ?h (payload m) = F" "contents ?h (middle m) = M" "contents ?h (mdata m) = D"
    using m(1) w(4-6) by (simp_all add: filled_def)
  then obtain m' h' where d: "dec_payload E m ?h = Inr (m', h')" "get_seq m' = get_seq m"
    using dec unfolding decodable_def by blast
  have seq: "get_seq m' = ucast (hseq ?x)" using d(2) fm(1) by (simp add: get_seq_def)
  define got where "got = m'\<lparr>byte_throttler := 0, msg_throttler := 0, reserved_size := message_size ?x\<rparr>"
  have "decoded_from E ?x F M D got"
    using fm d(1) unfolding decoded_from_def got_def by blast
  moreover have "get_seq got = ucast (hseq ?x)" using seq by (simp add: got_def get_seq_def)
  ultimately show ?thesis
    using st m(2) d(1) ok tol new
    by (auto simp: step_def step_dispatch_def Let_def conn_ok_def tolerant_def receive_seq_def not_le got_def [symmetric])
qed

section \<open>One call\<close>

text \<open>Rounds end: a tag uses up a byte, and a message goes through its states once.\<close>

definition work :: "('s \<Rightarrow> byte list) \<Rightarrow> 's conn \<Rightarrow> nat \<times> nat" where
  "work pend c = (2 * length (stream pend (input c)) + (if state c = STATE_OPEN then 0 else 1), 33 - state_num (state c))"

text \<open>
  How a call may end: waiting in the state it is in, with nothing read and not processed; after a
  full share of bytes, with the timer set if something is left; by giving the connection up; by the
  peer's close tag.
\<close>

definition good_end :: "env \<Rightarrow> 's round \<Rightarrow> bool" where
  "good_end E x =
     (case x of
        Next c \<Rightarrow> (\<exists>G. conn_inv E c G) \<and> recv_start (input c) = recv_end (input c)
      | Leave c \<Rightarrow> (\<exists>G. conn_inv E c G) \<and> (process_timer c \<or> recv_start (input c) = recv_end (input c))
      | Fail c \<Rightarrow> True
      | Close c \<Rightarrow> state c = STATE_OPEN_TAG_CLOSE
      | _ \<Rightarrow> False)"

context byte_socket
begin

lemma small_round:
  assumes inv: "conn_inv E c G"
    and st: "state c = STATE_OPEN_KEEPALIVE2 \<or> state c = STATE_OPEN_KEEPALIVE2_ACK \<or> state c = STATE_OPEN_TAG_ACK"
    and n: "step E rd c = Next c'"
  shows "state c' = state c \<and> recv_start (input c') = recv_end (input c') \<or> state c' = STATE_OPEN"
  using assms read_until_idle [of rd 8 "state_buffer c" "input c"]
  by (auto simp: step_def step_keepalive2_def step_keepalive2_ack_def step_tag_ack_def read_struct_def reading_def Let_def
      split: option.splits prod.splits if_splits)

lemma last_round:
  assumes inv: "conn_inv E c G" and st: "state c = STATE_OPEN_MESSAGE_DISPATCH"
  shows "step E rd c = Next c' \<Longrightarrow> state c' = STATE_OPEN"
    and "step E rd c = Leave c' \<Longrightarrow> process_timer c' \<or> recv_start (input c') = recv_end (input c')"
  using st
  by (auto simp: step_def step_dispatch_def Let_def split: decoded.splits prod.splits option.splits if_splits)

lemma state_num_le: "state_num s \<le> 33"
  by (cases s) simp_all

lemma inv_states: "conn_inv E c G \<Longrightarrow> STATE_OPEN \<le> state c"
  by (cases "state c"; simp add: conn_inv_def state_order)

lemma next_round:
  assumes inv: "conn_inv E c G" and tol: "tolerant E" and n: "step E rd c = Next c'"
  shows "(\<exists>G'. conn_inv E c' G') \<and>
    (state c' = state c \<and> recv_start (input c') = recv_end (input c') \<or>
     state c' \<noteq> state c \<and> (work pending c', work pending c) \<in> less_than <*lex*> less_than)"
proof -
  have adv: "advanced E pending c G c'" using every_round [OF inv tol] n by simp
  then have len: "length (stream pending (input c')) \<le> length (stream pending (input c))" and inv': "\<exists>G'. conn_inv E c' G'"
    by (auto simp: advanced_def)
  have up: "(work pending c', work pending c) \<in> less_than <*lex*> less_than" if "state c < state c'" "state c \<noteq> STATE_OPEN"
    using that len inv_states [OF inv] state_num_le [of "state c'"] by (auto simp: work_def state_order)
  consider "state c = STATE_OPEN" | "state c = STATE_OPEN_MESSAGE_DISPATCH" | "state c = STATE_OPEN_TAG_CLOSE"
    | "state c = STATE_OPEN_KEEPALIVE2 \<or> state c = STATE_OPEN_KEEPALIVE2_ACK \<or> state c = STATE_OPEN_TAG_ACK"
    | "STATE_OPEN_MESSAGE_HEADER \<le> state c" "state c < STATE_OPEN_MESSAGE_DISPATCH"
    using inv by (cases "state c"; simp add: conn_inv_def state_order)
  then show ?thesis
  proof cases
    case 1
    have "onward c (step E rd c)" by (rule onward_round) (simp_all add: 1 state_order)
    then show ?thesis using tag_round [OF inv 1 n] n inv' 1 by (auto simp: work_def state_order)
  next
    case 2
    then show ?thesis using last_round(1) [OF inv 2 n] len inv' by (auto simp: work_def)
  next
    case 3
    then show ?thesis using n by (simp add: step_def)
  next
    case 4
    then show ?thesis using small_round [OF inv 4 n] len inv' by (auto simp: work_def)
  next
    case 5
    then have "onward c (step E rd c)" "state c \<noteq> STATE_OPEN" by (auto intro: onward_round simp: state_order)
    then show ?thesis using n up inv' by auto
  qed
qed

lemma process_loop_ends:
  assumes "conn_inv E c G" and tol: "tolerant E"
  shows "\<exists>x. process_loop E rd c = Some x \<and> good_end E x"
  using assms(1)
proof (induction "work pending c" arbitrary: c G rule: wf_induct [OF wf_lex_prod [OF wf_less_than wf_less_than]])
  case (1 c G)
  note good = every_round [OF 1(2) tol] and loop = process_loop.simps [of E rd c]
  show ?case
  proof (cases "step E rd c")
    case n: (Next c')
    then obtain G' where i: "conn_inv E c' G'" and cases: "state c' = state c \<and> recv_start (input c') = recv_end (input c') \<or>
        state c' \<noteq> state c \<and> (work pending c', work pending c) \<in> less_than <*lex*> less_than"
      using next_round [OF 1(2) tol] by blast
    show ?thesis
    proof (cases "state c' = state c")
      case True
      then show ?thesis using n loop i cases by (auto simp: good_end_def)
    next
      case False
      then have "\<exists>x. process_loop E rd c' = Some x \<and> good_end E x" using 1(1) cases i by blast
      then show ?thesis using n loop False by simp
    qed
  next
    case l: (Leave c')
    have "state c = STATE_OPEN_MESSAGE_DISPATCH"
    proof (rule ccontr)
      assume "state c \<noteq> STATE_OPEN_MESSAGE_DISPATCH"
      then show False using 1(2) l onward_round [of c E rd]
        by (cases "state c"; simp add: conn_inv_def onward_def state_order step_def step_keepalive2_def step_keepalive2_ack_def
            step_tag_ack_def read_struct_def reading_def Let_def split: option.splits prod.splits if_splits)
    qed
    then show ?thesis using last_round(2) [OF 1(2) _ l] good l loop by (auto simp: good_end_def advanced_def)
  qed (use good loop in \<open>auto simp: good_end_def good_round_def\<close>)
qed

end

end
