(* ===== verification/Conn_Write.thy ===== *)
theory Conn_Write
  imports Conn_Open Buffer_Write
begin

text \<open>
  The sending half of an \<^verbatim>\<open>AsyncConnection\<close> (\<^verbatim>\<open>src/src/async/AsyncConnection.cc\<close>): how a message becomes bytes
  (\<^verbatim>\<open>_send\<close>, \<^verbatim>\<open>write_message\<close>), keepalives, \<^verbatim>\<open>handle_write\<close>, \<^verbatim>\<open>kick_write\<close> and \<^verbatim>\<open>send_message\<close>.
\<close>

section \<open>Writing a message\<close>

text \<open>The sections of the message in one list: a copy of the payload, the middle, the data.\<close>

definition message_blist :: "message \<Rightarrow> heap \<Rightarrow> blist \<times> heap" where
  "message_blist m h = (let (bl, h) = bl_copy (payload m) h in (append_list (mdata m) (append_list (middle m) bl), h))"

text \<open>Tag and header in front, footer behind.  \<open>None\<close> only stands for the bound on the rounds of \<open>append_data\<close>.\<close>

definition add_envelope ::
    "endian \<Rightarrow> msgr_msg_header \<Rightarrow> msgr_msg_footer \<Rightarrow> blist \<Rightarrow> heap \<Rightarrow> (buf_error + blist \<times> heap) option" where
  "add_envelope e x ft bl h =
     (let (a, h) = create_malloc (1 + 53) h; bp = ptr_of_raw a h
      in case ptr_copy_in bp 0 [MSGR_MSGR_TAG_MSG] h of
           Inl er \<Rightarrow> Some (Inl er)
         | Inr h \<Rightarrow>
             (case ptr_copy_in bp 1 (header_bytes e x) h of
                Inl er \<Rightarrow> Some (Inl er)
              | Inr h \<Rightarrow> append_data (footer_bytes e ft) (push_front bp bl) h))"

definition write_message ::
    "'o send_fn \<Rightarrow> endian \<Rightarrow> msgr_msg_header \<Rightarrow> msgr_msg_footer \<Rightarrow> blist \<Rightarrow> 'o writer \<Rightarrow> heap \<Rightarrow>
     (buf_error + int \<times> 'o writer \<times> heap) option" where
  "write_message tx e x ft bl W h =
     (case add_envelope e x ft bl h of
        None \<Rightarrow> None
      | Some (Inl er) \<Rightarrow> Some (Inl er)
      | Some (Inr (bl, h)) \<Rightarrow>
          (case try_send tx True bl W h of
             None \<Rightarrow> None
           | Some (Inl er) \<Rightarrow> Some (Inl er)
           | Some (Inr (r, _, W, h)) \<Rightarrow> Some (Inr (r, W, h))))"

section \<open>The sending side of a connection\<close>

text \<open>
  \<open>bodies\<close> are the message objects by identity; \<open>keepalive_now\<close> is the time that \<^verbatim>\<open>msgr_clock_now\<close> gives.
  \<open>crc_out\<close> are the \<^verbatim>\<open>crcflags\<close> of the messenger, \<open>encode_body\<close> the virtual \<^verbatim>\<open>encode_payload\<close>.
\<close>

record 'o out_env =
  tx :: "'o send_fn"
  omach :: machine
  encode_body :: "u64 \<Rightarrow> message \<Rightarrow> heap \<Rightarrow> message \<times> heap"
  features :: u64
  crc_out :: u32
  keepalive_now :: "u32 \<times> u32"
  myname :: msgr_entity_name
  default_prio :: u16
  concurrent_socket :: bool

record 'o out_conn =
  osess :: session
  owriter :: "'o writer"
  omem :: heap
  bodies :: "nat \<Rightarrow> message"
  cstate :: conn_state
  server :: bool
  okeepalive :: bool
  okeepalive_ack :: bool
  oack_stamp :: "u32 \<times> u32"
  stopping :: bool
  sending :: bool
  want_send :: bool
  handle_write_delayed :: bool

text \<open>\<^verbatim>\<open>_send\<close>: number the message, keep it for a resend, encode it and write it.\<close>

definition send :: "'o out_env \<Rightarrow> omsg \<Rightarrow> 'o out_conn \<Rightarrow> (buf_error + int \<times> 'o out_conn) option" where
  "send N o' c =
     (let (o', s) = assign_seq o' (osess c); m = set_seq (oseq o') (bodies c (oid o'));
          (m, h) = message_encode (omach N) (encode_body N) (features N) (crc_out N) m (omem c);
          (bl, h) = message_blist m h
      in case write_message (tx N) (host (omach N)) (header m) (footer m) bl (owriter c) h of
           None \<Rightarrow> None
         | Some (Inl er) \<Rightarrow> Some (Inl er)
         | Some (Inr (r, W, h)) \<Rightarrow>
             Some (Inr (r, c\<lparr>osess := s, bodies := (bodies c)(oid o' := m), owriter := W, omem := h\<rparr>)))"

definition timespec_bytes :: "endian \<Rightarrow> u32 \<times> u32 \<Rightarrow> byte list" where
  "timespec_bytes e t = le32_mem e (fst t) @ le32_mem e (snd t)"

text \<open>Queue a few bytes; \<open>now\<close> is the flag \<^verbatim>\<open>send\<close> of \<^verbatim>\<open>_try_send\<close>.\<close>

definition try_send_bytes :: "'o out_env \<Rightarrow> bool \<Rightarrow> byte \<Rightarrow> byte list \<Rightarrow> 'o out_conn \<Rightarrow> (buf_error + int \<times> 'o out_conn) option" where
  "try_send_bytes N now tag bs c =
     (case append_char tag bl_new (omem c) of
        Inl er \<Rightarrow> Some (Inl er)
      | Inr (bl, h) \<Rightarrow>
          (case append_data bs bl h of
             None \<Rightarrow> None
           | Some (Inl er) \<Rightarrow> Some (Inl er)
           | Some (Inr (bl, h)) \<Rightarrow>
               (case try_send (tx N) now bl (owriter c) h of
                  None \<Rightarrow> None
                | Some (Inl er) \<Rightarrow> Some (Inl er)
                | Some (Inr (r, _, W, h)) \<Rightarrow> Some (Inr (r, c\<lparr>owriter := W, omem := h\<rparr>)))))"

definition send_keepalive_or_ack :: "'o out_env \<Rightarrow> (u32 \<times> u32) option \<Rightarrow> 'o out_conn \<Rightarrow> (buf_error + int \<times> 'o out_conn) option" where
  "send_keepalive_or_ack N ack c =
     (case ack of
        Some t \<Rightarrow> try_send_bytes N False MSGR_MSGR_TAG_KEEPALIVE2_ACK (timespec_bytes (host (omach N)) t) c
      | None \<Rightarrow> try_send_bytes N False MSGR_MSGR_TAG_KEEPALIVE2 (timespec_bytes (host (omach N)) (keepalive_now N)) c)"

text \<open>\<^verbatim>\<open>send_keepalive\<close> only asks for it.\<close>

definition send_keepalive :: "'o out_conn \<Rightarrow> 'o out_conn" where
  "send_keepalive c = (if cstate c \<noteq> STATE_CLOSED then c\<lparr>okeepalive := True, owriter := start_write (owriter c)\<rparr> else c)"

definition is_open :: "conn_state \<Rightarrow> bool" where
  "is_open s \<longleftrightarrow> STATE_OPEN \<le> s \<and> s \<le> STATE_OPEN_TAG_CLOSE"

definition kick_write :: "'o out_conn \<Rightarrow> 'o out_conn" where
  "kick_write c =
     (let enable = is_open (cstate c) \<and> (out_q (osess c) \<noteq> [] \<or> okeepalive c \<or> okeepalive_ack c) \<or>
        blen (outcoming (owriter c)) \<noteq> 0 \<and> cstate c \<notin> {STATE_CONNECTING, STATE_STANDBY, STATE_WAIT, STATE_CLOSED}
      in if enable then c\<lparr>owriter := start_write (owriter c)\<rparr> else c)"

text \<open>The loop of \<^verbatim>\<open>handle_write\<close> over the queue; the result is the last \<^verbatim>\<open>r\<close>.\<close>

partial_function (option) write_queue :: "'o out_env \<Rightarrow> 'o out_conn \<Rightarrow> (buf_error + int \<times> 'o out_conn) option" where
  "write_queue N c =
     (if stopping c then Some (Inr (0, c))
      else
        (case get_next_outgoing (out_q (osess c)) of
           (None, q) \<Rightarrow> Some (Inr (0, c\<lparr>osess := (osess c)\<lparr>out_q := q\<rparr>\<rparr>))
         | (Some o', q) \<Rightarrow>
             (case send N o' (c\<lparr>osess := (osess c)\<lparr>out_q := q\<rparr>\<rparr>) of
                None \<Rightarrow> None
              | Some (Inl er) \<Rightarrow> Some (Inl er)
              | Some (Inr (r, c)) \<Rightarrow> (if r \<noteq> 0 then Some (Inr (r, c)) else write_queue N c))))"

text \<open>
  How \<^verbatim>\<open>handle_write\<close> ends: put off because a sender is active, done and the event re-armed if needed, done
  up to the call of \<^verbatim>\<open>do_process\<close> (\<^verbatim>\<open>STATE_WAIT_SEND\<close>), not allowed to write, or failed, after which \<^verbatim>\<open>fault\<close> or
  \<^verbatim>\<open>do_replace\<close> follows.
\<close>

datatype 'o write_end = Put_off "'o out_conn" | Written "'o out_conn" | Written_process "'o out_conn"
  | Not_now "'o out_conn" | Write_failed "'o out_conn" | Write_crash buf_error

definition stop_write :: "'o out_conn \<Rightarrow> 'o out_conn" where
  "stop_write c = c\<lparr>owriter := (owriter c)\<lparr>ev_write := False\<rparr>\<rparr>"

definition send_acks :: "'o out_env \<Rightarrow> 'o out_conn \<Rightarrow> (buf_error + int \<times> 'o out_conn) option" where
  "send_acks N c =
     (case send_ack (osess c) of
        (Some n, s) \<Rightarrow> try_send_bytes N True MSGR_MSGR_TAG_ACK (le64_mem (host (omach N)) n) (c\<lparr>osess := s\<rparr>)
      | (None, _) \<Rightarrow>
          (case try_send (tx N) True bl_new (owriter c) (omem c) of
             None \<Rightarrow> None
           | Some (Inl er) \<Rightarrow> Some (Inl er)
           | Some (Inr (r, _, W, h)) \<Rightarrow> Some (Inr (r, c\<lparr>owriter := W, omem := h\<rparr>))))"

text \<open>Sequencing of the parts, each of which may fail an assertion or not return.\<close>

definition and_then ::
    "(buf_error + 'a) option \<Rightarrow> ('a \<Rightarrow> (buf_error + 'b) option) \<Rightarrow> (buf_error + 'b) option" where
  "and_then x f = (case x of None \<Rightarrow> None | Some (Inl er) \<Rightarrow> Some (Inl er) | Some (Inr a) \<Rightarrow> f a)"

definition write_keepalives :: "'o out_env \<Rightarrow> 'o out_conn \<Rightarrow> (buf_error + 'o out_conn) option" where
  "write_keepalives N c =
     and_then (if okeepalive c
               then and_then (send_keepalive_or_ack N None c) (\<lambda>(_, c). Some (Inr (c\<lparr>okeepalive := False\<rparr>)))
               else Some (Inr c))
       (\<lambda>c. if okeepalive_ack c
            then and_then (send_keepalive_or_ack N (Some (oack_stamp c)) c) (\<lambda>(_, c). Some (Inr (c\<lparr>okeepalive_ack := False\<rparr>)))
            else Some (Inr c))"

definition handle_write :: "'o out_env \<Rightarrow> 'o out_conn \<Rightarrow> 'o write_end option" where
  "handle_write N c =
     (if sending c then Some (Put_off (stop_write (c\<lparr>handle_write_delayed := True\<rparr>)))
      else
        (let c = c\<lparr>sending := True\<rparr>;
             finish = (\<lambda>x. case x of
                          None \<Rightarrow> None
                        | Some (Inl er) \<Rightarrow> Some (Write_crash er)
                        | Some (Inr (r, c)) \<Rightarrow>
                            (if r < 0 then Some (Write_failed (c\<lparr>sending := False\<rparr>))
                             else if cstate c = STATE_WAIT_SEND then Some (Written_process c)
                             else Some (Written (kick_write (c\<lparr>sending := False\<rparr>)))))
         in if is_open (cstate c)
            then finish (and_then (write_keepalives N c) (\<lambda>c. and_then (write_queue N c)
                   (\<lambda>(r, c). if r < 0 then Some (Inr (r, c)) else send_acks N c)))
            else if cstate c \<notin> {STATE_CONNECTING, STATE_STANDBY, STATE_WAIT}
            then finish (and_then (try_send (tx N) True bl_new (owriter c) (omem c))
                   (\<lambda>(r, _, W, h). Some (Inr (r, c\<lparr>owriter := W, omem := h\<rparr>))))
            else Some (Not_now (stop_write (c\<lparr>sending := False\<rparr>)))))"

text \<open>
  \<^verbatim>\<open>send_message\<close>: dropped when the connection is being stopped or is closed, written at once by the
  caller when nothing else waits, queued otherwise; the flag says whether \<^verbatim>\<open>_connect\<close> has to run.
\<close>

definition stamp_message :: "'o out_env \<Rightarrow> message \<Rightarrow> message" where
  "stamp_message N m =
     (let m = m\<lparr>header := (header m)\<lparr>src := myname N\<rparr>\<rparr>
      in if priority (header m) = 0 then m\<lparr>header := (header m)\<lparr>priority := default_prio N\<rparr>\<rparr> else m)"

definition send_message :: "'o out_env \<Rightarrow> omsg \<Rightarrow> 'o out_conn \<Rightarrow> (buf_error + bool \<times> 'o out_conn) option" where
  "send_message N o' c =
     (let m = stamp_message N (bodies c (oid o')); o' = o'\<lparr>oprio := uint (priority (header m))\<rparr>;
          c = c\<lparr>bodies := (bodies c)(oid o' := m)\<rparr>
      in if stopping c then Some (Inr (False, c))
         else if out_q (osess c) = [] \<and> blen (outcoming (owriter c)) = 0 \<and> \<not> sending c \<and>
                 STATE_OPEN \<le> cstate c \<and> cstate c < STATE_OPEN_TAG_CLOSE \<and>
                 (concurrent_socket N \<or> cstate c \<noteq> STATE_OPEN_MESSAGE_READ_DATA)
         then and_then (send N o' (c\<lparr>sending := True\<rparr>))
                (\<lambda>(r, c). let c = c\<lparr>sending := False, want_send := False\<rparr>
                          in if r < 0 \<or> handle_write_delayed c
                             then Some (Inr (False, c\<lparr>handle_write_delayed := False, owriter := start_write (owriter c)\<rparr>))
                             else Some (Inr (False, c)))
         else if cstate c = STATE_CLOSED then Some (Inr (False, c))
         else
           (let c = c\<lparr>osess := queue_message o' (osess c)\<rparr>
            in if sending c then Some (Inr (False, c))
               else if cstate c = STATE_STANDBY \<and> \<not> server c then Some (Inr (True, c))
               else Some (Inr (False, c\<lparr>owriter := start_write (owriter c)\<rparr>))))"

section \<open>Where the windows of a list come from\<close>

text \<open>A window that was there before, or one on a block allocated since.\<close>

definition origin :: "heap \<Rightarrow> bptr list \<Rightarrow> bptr \<Rightarrow> bool" where
  "origin h ps q \<longleftrightarrow> q \<in> set ps \<or> (\<exists>a. praw q = Some a \<and> length (raws h) \<le> a)"

definition keeps_all :: "heap \<Rightarrow> heap \<Rightarrow> bool" where
  "keeps_all h h' \<longleftrightarrow> length (raws h) \<le> length (raws h') \<and> (\<forall>q. ptr_ok h q \<longrightarrow> ptr_ok h' q \<and> bytes h' q = bytes h q)"

lemma keeps_all_refl [simp]: "keeps_all h h"
  by (simp add: keeps_all_def)

lemma keeps_all_trans: "keeps_all h h1 \<Longrightarrow> keeps_all h1 h2 \<Longrightarrow> keeps_all h h2"
  by (simp add: keeps_all_def)

lemma keeps_all_new: "new_raw k d h = (a, h') \<Longrightarrow> keeps_all h h'"
  using new_raw_keeps [of k d h a h'] new_raw_facts [of k d h a h'] by (simp add: keeps_all_def)

lemma keeps_all_list:
  assumes "keeps_all h h'" and "heap_ok h'" and "list_ok h bl"
  shows "list_ok h' bl" and "contents h' bl = contents h bl"
proof -
  have "\<forall>p \<in> set (buffers bl). ptr_ok h p" using assms(3) by (simp add: list_ok_def segs_ok_def)
  then show "contents h' bl = contents h bl"
    using assms(1) concat_bytes_cong [of "buffers bl" h' h] by (simp add: keeps_all_def contents_def)
  show "list_ok h' bl" using assms by (auto simp: list_ok_def segs_ok_def tail_ok_def keeps_all_def)
qed

lemma origin_clear:
  assumes "list_ok h out" and "origin h ps q" and "\<forall>p \<in> set ps. clear_of out p"
  shows "clear_of out q"
  using assms by (auto simp: origin_def clear_of_def list_ok_def tail_ok_def ptr_ok_def)

lemma ptr_make_shareable_new:
  assumes "ptr_make_shareable p h = (p', h')" and "ptr_ok h p" and "heap_ok h"
  shows "heap_ok h'" and "keeps_all h h'" and "origin h [p] p'"
proof -
  show "keeps_all h h'" "origin h [p] p'"
    using assms(1) ptr_make_shareable_keeps(4,5) [OF assms(1,2)]
    by (auto simp: keeps_all_def origin_def ptr_make_shareable_def raw_clone_def Let_def new_raw_def split: option.splits if_splits)
  show "heap_ok h'"
    using assms by (auto simp: ptr_make_shareable_def raw_clone_def Let_def new_raw_def heap_ok_def ptr_ok_def
        split: option.splits if_splits)
qed

lemma make_shareable_ptrs_new:
  assumes "make_shareable_ptrs ps h = (ps', h')" and "\<forall>p \<in> set ps. ptr_ok h p" and "heap_ok h"
  shows "heap_ok h' \<and> keeps_all h h' \<and> map plen ps' = map plen ps \<and> map (bytes h') ps' = map (bytes h) ps \<and>
    (\<forall>p \<in> set ps'. ptr_ok h' p \<and> origin h ps p)"
  using assms
proof (induction ps arbitrary: h ps' h')
  case (Cons p ps)
  obtain p1 h1 where 1: "ptr_make_shareable p h = (p1, h1)" by (metis surj_pair)
  obtain ps2 h2 where 2: "make_shareable_ptrs ps h1 = (ps2, h2)" by (metis surj_pair)
  have p: "ptr_ok h p" and ps: "\<forall>p \<in> set ps. ptr_ok h p" using Cons.prems(2) by auto
  note k = ptr_make_shareable_keeps [OF 1 p] and n = ptr_make_shareable_new [OF 1 p Cons.prems(3)]
  have ih: "heap_ok h2 \<and> keeps_all h1 h2 \<and> map plen ps2 = map plen ps \<and> map (bytes h2) ps2 = map (bytes h1) ps \<and>
    (\<forall>p \<in> set ps2. ptr_ok h2 p \<and> origin h1 ps p)"
    by (rule Cons.IH [OF 2 _ n(1)]) (use k(4) ps in blast)
  have r: "ps' = p1 # ps2" "h' = h2" using Cons.prems(1) 1 2 by auto
  have "map (bytes h1) ps = map (bytes h) ps" using k(5) ps by simp
  moreover have "ptr_ok h2 p1" "bytes h2 p1 = bytes h p" using ih k(1,2) by (auto simp: keeps_all_def)
  moreover have "length (raws h) \<le> length (raws h1)" using n(2) by (simp add: keeps_all_def)
  ultimately show ?case using ih r k(3) n(2,3) keeps_all_trans [of h h1 h2] by (auto simp: origin_def)
qed (simp add: origin_def)

lemma bl_copy_ok:
  assumes "list_ok h bl" and "bl_copy bl h = (bl', h')"
  shows "list_ok h' bl'" and "contents h' bl' = contents h bl" and "append_buffer bl' = null_ptr" and "keeps_all h h'"
    and "\<forall>p \<in> set (buffers bl'). origin h (buffers bl) p"
proof -
  obtain ps where m: "make_shareable_ptrs (buffers bl) h = (ps, h')" and
    bl': "bl' = bl\<lparr>append_buffer := null_ptr, buffers := ps\<rparr>"
    using assms(2) by (auto simp: bl_copy_def bl_make_shareable_def Let_def split: prod.splits)
  have f: "heap_ok h" "\<forall>p \<in> set (buffers bl). ptr_ok h p \<and> 0 < plen p" using assms(1) by (auto simp: list_ok_def segs_ok_def)
  note k = make_shareable_ptrs_new [OF m _ f(1)]
  have len: "map plen ps = map plen (buffers bl)" "heap_ok h'" "\<forall>p \<in> set ps. ptr_ok h' p" using k f(2) by auto
  have "\<forall>p \<in> set ps. 0 < plen p" using f(2) len(1) by (metis in_set_conv_nth length_map nth_map)
  then show "list_ok h' bl'"
    using assms(1) len bl' by (simp add: list_ok_def segs_ok_def tail_ok_def total_len_def ptr_ok_def null_ptr_def)
  show "contents h' bl' = contents h bl" "append_buffer bl' = null_ptr" "keeps_all h h'"
    "\<forall>p \<in> set (buffers bl'). origin h (buffers bl) p"
    using k f(2) bl' by (auto simp: contents_def)
qed

lemma append_section_ok:
  assumes "list_ok h bl" and "append_buffer bl = null_ptr" and "list_ok h other" and "blen bl + blen other < 2 ^ 32"
  shows "list_ok h (append_list other bl)" and "contents h (append_list other bl) = contents h bl @ contents h other"
    and "append_buffer (append_list other bl) = null_ptr" and "blen (append_list other bl) = blen bl + blen other"
  using assms by (auto simp: append_list_def list_ok_def tail_ok_def contents_def null_ptr_def)

text \<open>The whole message in one list.\<close>

lemma message_blist_ok:
  assumes m: "lists_ok h m" and size: "blen (payload m) + blen (middle m) + blen (mdata m) < 2 ^ 32"
    and run: "message_blist m h = (bl, h')"
  shows "list_ok h' bl" and "contents h' bl = contents h (payload m) @ contents h (middle m) @ contents h (mdata m)"
    and "append_buffer bl = null_ptr" and "keeps_all h h'"
    and "\<forall>p \<in> set (buffers bl). origin h (buffers (payload m) @ buffers (middle m) @ buffers (mdata m)) p"
    and "blen bl = blen (payload m) + blen (middle m) + blen (mdata m)"
proof -
  have ok: "list_ok h (payload m)" "list_ok h (middle m)" "list_ok h (mdata m)" using m by (simp_all add: lists_ok_def)
  obtain b1 where 1: "bl_copy (payload m) h = (b1, h')" and bl: "bl = append_list (mdata m) (append_list (middle m) b1)"
    using run by (auto simp: message_blist_def split: prod.splits)
  note c = bl_copy_ok [OF ok(1) 1]
  have h': "heap_ok h'" using c(1) by (simp add: list_ok_def)
  note mid = keeps_all_list [OF c(4) h' ok(2)] and dat = keeps_all_list [OF c(4) h' ok(3)]
  have len: "blen b1 = blen (payload m)" using length_contents [OF c(1)] length_contents [OF ok(1)] c(2) by simp
  have s1: "blen b1 + blen (middle m) < 2 ^ 32" using size len by simp
  note a = append_section_ok [OF c(1,3) mid(1) s1]
  have s2: "blen (append_list (middle m) b1) + blen (mdata m) < 2 ^ 32" using size len a(4) by simp
  note b = append_section_ok [OF a(1,3) dat(1) s2]
  show "list_ok h' bl" "contents h' bl = contents h (payload m) @ contents h (middle m) @ contents h (mdata m)"
    "append_buffer bl = null_ptr" "keeps_all h h'" "blen bl = blen (payload m) + blen (middle m) + blen (mdata m)"
    using a b c mid(2) dat(2) bl len by simp_all
  show "\<forall>p \<in> set (buffers bl). origin h (buffers (payload m) @ buffers (middle m) @ buffers (mdata m)) p"
    using c(5) bl by (auto simp: append_list_def origin_def)
qed

section \<open>The envelope\<close>

text \<open>Appending to a list without an append buffer: the bytes go to one new window on a new block.\<close>

lemma append_data_fresh:
  assumes ok: "list_ok h bl" and null: "append_buffer bl = null_ptr" and data: "data \<noteq> []" "length data \<le> MSGR_PAGE_SIZE"
    and fits: "blen bl + length data < 2 ^ 32"
  shows "\<exists>bl' h'. append_data data bl h = Some (Inr (bl', h')) \<and> list_ok h' bl' \<and> contents h' bl' = contents h bl @ data \<and>
    keeps_all h h' \<and> (\<forall>p \<in> set (buffers bl'). origin h (buffers bl) p)"
proof -
  have page: "MSGR_PAGE_SIZE * ((length data - 1) div MSGR_PAGE_SIZE + 1) = MSGR_PAGE_SIZE"
    using data by (cases data) (simp_all add: MSGR_PAGE_SIZE_def)
  obtain b1 h1 where n: "new_append_buffer MSGR_PAGE_SIZE bl h = Inr (b1, h1)" "list_ok h1 b1" "contents h1 b1 = contents h bl"
      "buffers b1 = buffers bl" "blen b1 = blen bl" "praw (append_buffer b1) = Some (length (raws h))"
      "unused_tail_length h1 (append_buffer b1) = MSGR_PAGE_SIZE" "\<forall>ab. spares ab h h1" "plen (append_buffer b1) = 0"
    using new_append_buffer_ok [OF ok, of MSGR_PAGE_SIZE] by (auto simp: MSGR_PAGE_SIZE_def)
  have room: "length data \<le> unused_tail_length h1 (append_buffer b1)" using n(7) data by simp
  obtain bl' h' where g: "append_gap data b1 h1 = Inr (bl', h')" "list_ok h' bl'" "contents h' bl' = contents h1 b1 @ data"
      "spares (append_buffer b1) h1 h'"
    using append_gap_ok [OF n(2,6) room] data fits n(5) by auto
  have run: "append_data data bl h = Some (Inr (bl', h'))"
    using null data page n(1,7) g(1) by (simp add: append_data_def numeral_3_eq_3 null_ptr_def unused_tail_length_def Let_def
        MSGR_PAGE_SIZE_def min_def)
  have raws: "length (raws h1) = Suc (length (raws h))" "length (raws h') = length (raws h1)"
    using n(1) g(1) n(6)
    by (auto simp: new_append_buffer_def create_page_aligned_def create_aligned_def new_raw_def append_gap_def ptr_append_def
        Let_def split: if_splits sum.splits)
  have "keeps_all h h'" unfolding keeps_all_def
  proof (intro conjI allI impI)
    show "length (raws h) \<le> length (raws h')" using raws by simp
    fix q assume q: "ptr_ok h q"
    then have "ptr_ok h1 q \<and> bytes h1 q = bytes h q" using n(8) [rule_format, of null_ptr] by (simp add: spares_def null_ptr_def)
    moreover have "praw q \<noteq> Some (length (raws h))" using q by (auto simp: ptr_ok_def)
    ultimately show "ptr_ok h' q" "bytes h' q = bytes h q" using g(4) n(6) by (auto simp: spares_def)
  qed
  moreover have "origin h (buffers bl) p" if p: "p \<in> set (buffers bl')" for p
  proof -
    have old: "praw q \<noteq> Some (length (raws h))" if "q \<in> set (buffers b1)" for q
      using that n(4) ok by (auto simp: list_ok_def segs_ok_def ptr_ok_def)
    then have "buffers b1 \<noteq> [] \<longrightarrow> praw (last (buffers b1)) \<noteq> Some (length (raws h))" by simp
    then show ?thesis using g(1) n(4,6) p
      by (auto simp: append_gap_def append_range_def ptr_append_def ptr_sub_def push_back_def origin_def Let_def
          split: if_splits sum.splits prod.splits)
  qed
  ultimately show ?thesis using run g(2,3) n(3) by auto
qed

lemma add_envelope_ok:
  assumes ok: "list_ok h bl" and null: "append_buffer bl = null_ptr" and fits: "blen bl + 75 < 2 ^ 32"
  shows "\<exists>bl' h'. add_envelope e x ft bl h = Some (Inr (bl', h')) \<and> list_ok h' bl' \<and>
    contents h' bl' = MSGR_MSGR_TAG_MSG # header_bytes e x @ contents h bl @ footer_bytes e ft \<and>
    keeps_all h h' \<and> (\<forall>p \<in> set (buffers bl'). origin h (buffers bl) p)"
proof -
  obtain a h1 where new: "create_malloc 54 h = (a, h1)" by (metis surj_pair)
  note raw = new [unfolded create_malloc_def]
  have hok: "heap_ok h" using ok by (simp add: list_ok_def)
  note n = new_raw_ok [OF raw hok] and nf = new_raw_facts [OF raw]
  have h1: "heap_ok h1" "raw_len h1 a = 54" "a < length (raws h1)" using n by simp_all
  define bp where "bp = ptr_of_raw a h1"
  have bp: "praw bp = Some a" "poff bp = 0" "plen bp = 54" "ptr_ok h1 bp" using h1 by (simp_all add: bp_def ptr_of_raw_def ptr_ok_def)
  define h2 where "h2 = poke a 0 [MSGR_MSGR_TAG_MSG] h1"
  define h3 where "h3 = poke a 1 (header_bytes e x) h2"
  have p2: "heap_ok h2" "ptr_ok h1 q \<Longrightarrow> ptr_ok h2 q" "raw_len h2 b = raw_len h1 b" "a < length (raws h2)" for q b
    using poke_ok [of 0 "[MSGR_MSGR_TAG_MSG]" h1 a] raw_len_poke [of 0 "[MSGR_MSGR_TAG_MSG]" h1 a] h1 by (simp_all add: h2_def)
  have room: "1 + length (header_bytes e x) \<le> raw_len h2 a" using p2(3) h1(2) by simp
  have p3: "heap_ok h3" "ptr_ok h1 q \<Longrightarrow> ptr_ok h3 q" for q
    using poke_ok [OF room p2(4)] p2 by (simp_all add: h3_def)
  have "bytes h2 bp = MSGR_MSGR_TAG_MSG # drop 1 (bytes h1 bp)"
    using bytes_poke_inside [OF bp(1,4), of 0 "[MSGR_MSGR_TAG_MSG]"] bp by (simp add: h2_def)
  moreover have "bytes h3 bp = take 1 (bytes h2 bp) @ header_bytes e x @ drop 54 (bytes h2 bp)"
    using bytes_poke_inside [OF bp(1) p2(2) [OF bp(4)], of 1 "header_bytes e x"] bp by (simp add: h3_def)
  ultimately have bytes3: "bytes h3 bp = MSGR_MSGR_TAG_MSG # header_bytes e x"
    using length_bytes [OF bp(4)] bp(3) by simp
  have old: "ptr_ok h3 q \<and> bytes h3 q = bytes h q" if "ptr_ok h q" for q
  proof -
    note k = new_raw_keeps [OF raw that]
    have "bytes h2 q = bytes h1 q" "bytes h3 q = bytes h2 q"
      using bytes_poke_disjoint [of 0 "[MSGR_MSGR_TAG_MSG]" h1 a q] bytes_poke_disjoint [OF room p2(4), of q] k h1 p2(2)
      by (simp_all add: h2_def h3_def)
    then show ?thesis using k p3(2) by simp
  qed
  have len3: "length (raws h3) = Suc (length (raws h))" using nf(2) by (simp add: h3_def h2_def)
  then have keep: "keeps_all h h3" using old by (simp add: keeps_all_def)
  note lk = keeps_all_list [OF keep p3(1) ok]
  let ?b = "push_front bp bl"
  have "w32 (blen bl + 54) = blen bl + 54" using fits by simp
  then have b: "buffers ?b = bp # buffers bl" "blen ?b = blen bl + 54" "append_buffer ?b = null_ptr"
    using bp(3) null by (simp_all add: push_front_def)
  have okb: "list_ok h3 ?b"
    using lk(1) b bp p3(2) [OF bp(4)] fits by (simp add: list_ok_def tail_ok_def null_ptr_def ptr_ok_def)
  have cb: "contents h3 ?b = MSGR_MSGR_TAG_MSG # header_bytes e x @ contents h bl" using b bytes3 lk(2) by (simp add: contents_def)
  have ftlen: "footer_bytes e ft \<noteq> []" "length (footer_bytes e ft) \<le> MSGR_PAGE_SIZE" "blen ?b + length (footer_bytes e ft) < 2 ^ 32"
    using b(2) fits length_footer [of e ft] by (auto simp: MSGR_PAGE_SIZE_def simp del: length_footer)
  obtain bl' h' where ad: "append_data (footer_bytes e ft) ?b h3 = Some (Inr (bl', h'))" "list_ok h' bl'"
      "contents h' bl' = contents h3 ?b @ footer_bytes e ft" "keeps_all h3 h'" "\<forall>p \<in> set (buffers bl'). origin h3 (buffers ?b) p"
    using append_data_fresh [OF okb b(3) ftlen] by blast
  have "w32 (1 + 53) = 54" "w32 1 = 1" by simp_all
  then have run: "add_envelope e x ft bl h = Some (Inr (bl', h'))"
    using new ad(1) bp by (simp add: add_envelope_def ptr_copy_in_def bp_def [symmetric] h2_def [symmetric] h3_def [symmetric] del: One_nat_def)
  moreover have "origin h (buffers bl) p" if "p \<in> set (buffers bl')" for p
    using ad(5) that b(1) bp(1) nf(1) len3 by (force simp: origin_def)
  ultimately show ?thesis using ad(2,3) cb keeps_all_trans [OF keep ad(4)] by auto
qed

section \<open>What goes to the socket\<close>

text \<open>The queued list is in order again, as long as the new windows keep out of its append buffer.\<close>

lemma queue_out_ok:
  assumes run: "queue_out bl out h = (out', bl', h')" and out: "list_ok h out" and bl: "list_ok h bl"
    and size: "blen out + blen bl < 2 ^ 32" and cl: "\<forall>p \<in> set (buffers bl). clear_of out p"
  shows "list_ok h' out'" and "keeps_all h h'" and "blen out' = blen out + blen bl"
proof -
  have e: "blen l = 0 \<Longrightarrow> buffers l = []" if "list_ok h l" for l
    using that by (cases "buffers l") (auto simp: list_ok_def)
  have "list_ok h' out' \<and> keeps_all h h' \<and> blen out' = blen out + blen bl"
  proof (cases "blen bl \<noteq> 0 \<and> blen out \<noteq> 0")
    case False
    then show ?thesis using run out bl e by (auto simp: queue_out_def split: if_splits)
  next
    case True
    obtain ps h1 where m: "make_shareable_ptrs (buffers bl) h = (ps, h1)" by (metis surj_pair)
    have f: "heap_ok h" "\<forall>p \<in> set (buffers bl). ptr_ok h p \<and> 0 < plen p" using bl by (auto simp: list_ok_def segs_ok_def)
    note k = make_shareable_ptrs_new [OF m _ f(1)]
    have ps: "map plen ps = map plen (buffers bl)" "heap_ok h1" "keeps_all h h1" "\<forall>p \<in> set ps. ptr_ok h1 p \<and> origin h (buffers bl) p"
      using k f(2) by auto
    have pos: "\<forall>p \<in> set ps. 0 < plen p" using f(2) ps(1) by (metis in_set_conv_nth length_map nth_map)
    have r: "h' = h1" "out' = out\<lparr>blen := blen out + blen bl, buffers := buffers out @ ps\<rparr>"
      using run True m size by (auto simp: queue_out_def claim_append_def bl_make_shareable_def Let_def)
    have "\<forall>p \<in> set ps. clear_of out p" using ps(4) origin_clear [OF out _ cl] by blast
    then show ?thesis
      using keeps_all_list(1) [OF ps(3,2) out] ps pos r bl size
      by (auto simp: list_ok_def segs_ok_def tail_ok_def total_len_def clear_of_def)
  qed
  then show "list_ok h' out'" "keeps_all h h'" "blen out' = blen out + blen bl" by auto
qed

text \<open>The bytes of a connection that the kernel has taken or will be given.\<close>

definition out_stream :: "('o \<Rightarrow> byte list) \<Rightarrow> 'o writer \<Rightarrow> heap \<Rightarrow> byte list" where
  "out_stream written W h = written (osock W) @ contents h (outcoming W)"

definition wire_message :: "endian \<Rightarrow> msgr_msg_header \<Rightarrow> byte list \<Rightarrow> msgr_msg_footer \<Rightarrow> byte list" where
  "wire_message e x body ft = MSGR_MSGR_TAG_MSG # header_bytes e x @ body @ footer_bytes e ft"

lemma length_wire_message: "length (wire_message e x body ft) = 75 + length body"
  by (simp add: wire_message_def)

context byte_sink
begin

lemma try_send_ok:
  assumes out: "list_ok h (outcoming W)" and bl: "list_ok h bl" and size: "blen (outcoming W) + blen bl < 2 ^ 31"
    and cl: "\<forall>p \<in> set (buffers bl). clear_of (outcoming W) p" and sd: "sd_open W"
  shows "\<exists>r bl' W' h'. try_send tx True bl W h = Some (Inr (r, bl', W', h')) \<and> keeps_all h h' \<and>
    (r = -1 \<or> 0 \<le> r \<and> list_ok h' (outcoming W') \<and> out_stream written W' h' = out_stream written W h @ contents h bl \<and>
      (r = 0 \<longleftrightarrow> contents h' (outcoming W') = []) \<and> (ev_write W' \<longleftrightarrow> contents h' (outcoming W') \<noteq> []) \<and> sd_open W')"
proof -
  obtain out bl' h' where q: "queue_out bl (outcoming W) h = (out, bl', h')" by (metis surj_pair)
  have s: "blen (outcoming W) + blen bl < 2 ^ 32" using size by simp
  note k = queue_out_ok [OF q out bl s cl] and c = queue_out_contents [OF q out bl]
  have small: "blen out < 2 ^ 31" using k(3) size by simp
  obtain res out' s' where run: "send_loop tx h' out (osock W) = Some (Inr (res, out', s'))"
    "res = Some (-1) \<or> res = None \<and> list_ok h' out' \<and> blen out' \<le> blen out \<and> written s' @ contents h' out' = written (osock W) @ contents h' out"
    using send_loop_sends [OF k(1) small] by blast
  show ?thesis
  proof (cases res)
    case None
    then have o: "list_ok h' out'" "written s' @ contents h' out' = written (osock W) @ contents h' out" "blen out' < 2 ^ 31"
      using run(2) small by auto
    let ?W = "W\<lparr>outcoming := out', osock := s', ev_write := blen out' \<noteq> 0\<rparr>"
    have "blen out' = 0 \<longleftrightarrow> contents h' out' = []" using length_contents [OF o(1)] by (metis length_0_conv)
    moreover have "try_send tx True bl W h = Some (Inr (int (blen out'), bl', ?W, h'))"
      using run(1) None q o(3) sd by (simp add: try_send_def set_action_def start_write_def Let_def)
    moreover have "out_stream written ?W h' = out_stream written W h @ contents h bl" using o(2) c by (simp add: out_stream_def)
    ultimately show ?thesis using k(2) o(1) sd by (intro exI [of _ "int (blen out')"] exI [of _ bl'] exI [of _ ?W] exI [of _ h']) simp
  next
    case (Some r)
    then show ?thesis using run q k(2) by (auto simp: try_send_def Let_def)
  qed
qed

lemma write_message_ok:
  assumes out: "list_ok h (outcoming W)" and bl: "list_ok h bl" and null: "append_buffer bl = null_ptr"
    and size: "blen (outcoming W) + blen bl + 75 < 2 ^ 31" and cl: "\<forall>p \<in> set (buffers bl). clear_of (outcoming W) p" and sd: "sd_open W"
  shows "\<exists>r W' h'. write_message tx e x ft bl W h = Some (Inr (r, W', h')) \<and> keeps_all h h' \<and>
    (r = -1 \<or> 0 \<le> r \<and> list_ok h' (outcoming W') \<and> out_stream written W' h' = out_stream written W h @ wire_message e x (contents h bl) ft \<and>
      (r = 0 \<longleftrightarrow> contents h' (outcoming W') = []) \<and> (ev_write W' \<longleftrightarrow> contents h' (outcoming W') \<noteq> []) \<and> sd_open W')"
proof -
  have room: "blen bl + 75 < 2 ^ 32" using size by simp
  obtain b1 h1 where e: "add_envelope e x ft bl h = Some (Inr (b1, h1))" "list_ok h1 b1"
      "contents h1 b1 = wire_message e x (contents h bl) ft" "keeps_all h h1" "\<forall>p \<in> set (buffers b1). origin h (buffers bl) p"
    unfolding wire_message_def using add_envelope_ok [OF bl null room, of e x ft] by blast
  have h1: "heap_ok h1" using e(2) by (simp add: list_ok_def)
  note o = keeps_all_list [OF e(4) h1 out]
  have "blen b1 = 75 + blen bl" using length_contents [OF e(2)] e(3) length_contents [OF bl] by (simp add: length_wire_message)
  then have s: "blen (outcoming W) + blen b1 < 2 ^ 31" using size by simp
  have c: "\<forall>p \<in> set (buffers b1). clear_of (outcoming W) p" using e(5) origin_clear [OF out _ cl] by blast
  have st: "out_stream written W h1 = out_stream written W h" using o(2) by (simp add: out_stream_def)
  obtain r bl' W' h' where t: "try_send tx True b1 W h1 = Some (Inr (r, bl', W', h'))" "keeps_all h1 h'"
    "r = -1 \<or> 0 \<le> r \<and> list_ok h' (outcoming W') \<and> out_stream written W' h' = out_stream written W h1 @ contents h1 b1 \<and>
      (r = 0 \<longleftrightarrow> contents h' (outcoming W') = []) \<and> (ev_write W' \<longleftrightarrow> contents h' (outcoming W') \<noteq> []) \<and> sd_open W'"
    using try_send_ok [OF o(1) e(2) s c sd] by blast
  then have "write_message tx e x ft bl W h = Some (Inr (r, W', h'))" using e(1) by (simp add: write_message_def)
  moreover have "keeps_all h h'" using keeps_all_trans [OF e(4) t(2)] .
  ultimately show ?thesis using t(3) [unfolded e(3) st] by blast
qed

end

text \<open>
  What \<^verbatim>\<open>_send\<close> relies on: the encoder of the message leaves the lists in order and the connection's queue
  alone, and nothing but the queue uses the rest of its append buffer.
\<close>

definition can_send :: "'o out_env \<Rightarrow> omsg \<Rightarrow> 'o out_conn \<Rightarrow> message \<Rightarrow> heap \<Rightarrow> bool" where
  "can_send N o' c m1 h1 \<longleftrightarrow>
     (let m = set_seq (oseq (fst (assign_seq o' (osess c)))) (bodies c (oid o')); out = outcoming (owriter c)
      in sound_machine (omach N) \<and> prepared (encode_body N) (features N) m (omem c) = (m1, h1) \<and> lists_ok h1 m1 \<and>
         list_ok h1 out \<and> contents h1 out = contents (omem c) out \<and>
         (\<forall>p \<in> set (buffers (payload m1) @ buffers (middle m1) @ buffers (mdata m1)). clear_of out p) \<and>
         blen out + blen (payload m1) + blen (middle m1) + blen (mdata m1) + 75 < 2 ^ 31 \<and> sd_open (owriter c))"

definition encoded :: "'o out_env \<Rightarrow> omsg \<Rightarrow> 'o out_conn \<Rightarrow> message" where
  "encoded N o' c =
     fst (message_encode (omach N) (encode_body N) (features N) (crc_out N)
            (set_seq (oseq (fst (assign_seq o' (osess c)))) (bodies c (oid o'))) (omem c))"

lemma send_ok:
  assumes sink: "byte_sink (tx N) written patience" and can: "can_send N o' c m1 h1"
  shows "\<exists>r c'. send N o' c = Some (Inr (r, c')) \<and> osess c' = snd (assign_seq o' (osess c)) \<and>
    bodies c' (oid o') = encoded N o' c \<and> keeps_all h1 (omem c') \<and>
    (r = -1 \<or> 0 \<le> r \<and>
      out_stream written (owriter c') (omem c') = out_stream written (owriter c) (omem c) @
        wire_message (host (omach N)) (header (encoded N o' c))
          (contents h1 (payload m1) @ contents h1 (middle m1) @ contents h1 (mdata m1)) (footer (encoded N o' c)) \<and>
      (r = 0 \<longleftrightarrow> contents (omem c') (outcoming (owriter c')) = []) \<and>
      (ev_write (owriter c') \<longleftrightarrow> contents (omem c') (outcoming (owriter c')) \<noteq> []))"
proof -
  obtain o1 s where a: "assign_seq o' (osess c) = (o1, s)" by (metis surj_pair)
  have oid: "oid o1 = oid o'" using a by (auto simp: assign_seq_def Let_def)
  define m where "m = set_seq (oseq o1) (bodies c (oid o'))"
  let ?W = "owriter c"
  have f: "sound_machine (omach N)" "prepared (encode_body N) (features N) m (omem c) = (m1, h1)" "lists_ok h1 m1"
    "list_ok h1 (outcoming ?W)" "contents h1 (outcoming ?W) = contents (omem c) (outcoming ?W)"
    "\<forall>p \<in> set (buffers (payload m1) @ buffers (middle m1) @ buffers (mdata m1)). clear_of (outcoming ?W) p"
    "blen (outcoming ?W) + blen (payload m1) + blen (middle m1) + blen (mdata m1) + 75 < 2 ^ 31" "sd_open ?W"
    using can a by (simp_all add: can_send_def Let_def m_def)
  obtain m2 h2 where e: "message_encode (omach N) (encode_body N) (features N) (crc_out N) m (omem c) = (m2, h2)" by (metis surj_pair)
  have m2: "m2 = encoded N o' c" using e a by (simp add: encoded_def m_def)
  note k = message_encode_checks(1-4) [OF f(1,2,3) e]
  have lists: "lists_ok h1 m2" using f(3) k by (simp add: lists_ok_def)
  obtain bl h3 where b: "message_blist m2 h1 = (bl, h3)" by (metis surj_pair)
  have fits: "blen (payload m2) + blen (middle m2) + blen (mdata m2) < 2 ^ 32" using f(7) k by simp
  note mb = message_blist_ok [OF lists fits b]
  have h3: "heap_ok h3" using mb(1) by (simp add: list_ok_def)
  note o = keeps_all_list [OF mb(4) h3 f(4)]
  have cl: "\<forall>p \<in> set (buffers bl). clear_of (outcoming ?W) p"
    using mb(5) origin_clear [OF f(4)] f(6) k by (metis (no_types, lifting))
  have size: "blen (outcoming ?W) + blen bl + 75 < 2 ^ 31" using f(7) mb(6) k by simp
  obtain r W' h' where w: "write_message (tx N) (host (omach N)) (header m2) (footer m2) bl ?W h3 = Some (Inr (r, W', h'))" "keeps_all h3 h'"
    "r = -1 \<or> 0 \<le> r \<and> list_ok h' (outcoming W') \<and>
      out_stream written W' h' = out_stream written ?W h3 @ wire_message (host (omach N)) (header m2) (contents h3 bl) (footer m2) \<and>
      (r = 0 \<longleftrightarrow> contents h' (outcoming W') = []) \<and> (ev_write W' \<longleftrightarrow> contents h' (outcoming W') \<noteq> []) \<and> sd_open W'"
    using byte_sink.write_message_ok [OF sink o(1) mb(1,3) size cl f(8)] by blast
  let ?c = "c\<lparr>osess := s, bodies := (bodies c)(oid o1 := m2), owriter := W', omem := h'\<rparr>"
  have run: "send N o' c = Some (Inr (r, ?c))"
    using a e b w(1) k(1) oid by (simp add: send_def m_def)
  have st: "out_stream written ?W h3 = out_stream written ?W (omem c)" using o(2) f(5) by (simp add: out_stream_def)
  have "contents h3 bl = contents h1 (payload m1) @ contents h1 (middle m1) @ contents h1 (mdata m1)" using mb(2) k by simp
  then have "r = -1 \<or> 0 \<le> r \<and>
      out_stream written (owriter ?c) (omem ?c) = out_stream written ?W (omem c) @
        wire_message (host (omach N)) (header m2) (contents h1 (payload m1) @ contents h1 (middle m1) @ contents h1 (mdata m1)) (footer m2) \<and>
      (r = 0 \<longleftrightarrow> contents (omem ?c) (outcoming (owriter ?c)) = []) \<and>
      (ev_write (owriter ?c) \<longleftrightarrow> contents (omem ?c) (outcoming (owriter ?c)) \<noteq> [])"
    using w(3) st by simp blast
  moreover have "osess ?c = snd (assign_seq o' (osess c))" "bodies ?c (oid o') = m2" using a oid by simp_all
  moreover have "keeps_all h1 (omem ?c)" using keeps_all_trans [OF mb(4) w(2)] by simp
  ultimately show ?thesis using run m2 by blast
qed

section \<open>Nothing waits unnoticed\<close>

text \<open>Whatever \<^verbatim>\<open>handle_write\<close> leaves behind on an open connection, the write event is on.\<close>

definition has_output :: "'o out_conn \<Rightarrow> bool" where
  "has_output c \<longleftrightarrow> out_q (osess c) \<noteq> [] \<or> okeepalive c \<or> okeepalive_ack c \<or> blen (outcoming (owriter c)) \<noteq> 0"

lemma kick_write_arms:
  assumes "sd_open (owriter c)" and "is_open (cstate c)" and "has_output c"
  shows "ev_write (owriter (kick_write c))"
  using assms by (auto simp: kick_write_def has_output_def start_write_def is_open_def state_order Let_def)

lemma kick_write_keeps [simp]:
  "osess (kick_write c) = osess c" "cstate (kick_write c) = cstate c" "sending (kick_write c) = sending c"
  "okeepalive (kick_write c) = okeepalive c" "okeepalive_ack (kick_write c) = okeepalive_ack c"
  "outcoming (owriter (kick_write c)) = outcoming (owriter c)" "sd_open (owriter (kick_write c)) = sd_open (owriter c)"
  by (simp_all add: kick_write_def start_write_def Let_def)

lemma handle_write_arms:
  assumes "handle_write N c = Some (Written c')" and "sd_open (owriter c')" and "is_open (cstate c')" and "has_output c'"
  shows "ev_write (owriter c')"
proof -
  obtain c1 where "c' = kick_write c1"
    using assms(1) by (auto simp: handle_write_def Let_def split: if_splits option.splits sum.splits)
  then show ?thesis using kick_write_arms [of c1] assms(2-4) by (simp add: has_output_def)
qed

end
