(* ===== verification/Conn_Wire.thy ===== *)
theory Conn_Wire
  imports Conn_Process Conn_Write
begin

text \<open>
  From one end of a connection to the other: what \<^verbatim>\<open>_send\<close> puts on the wire, and what \<^verbatim>\<open>do_process\<close> makes of
  it at the peer, on any pair of hosts and however the bytes are cut on the way.
\<close>

section \<open>An encoded message is a good frame\<close>

lemma wire_message_frame: "wire_message e x (F @ M @ D) ft = MSGR_MSGR_TAG_MSG # frame e x F M D ft"
  by (simp add: wire_message_def frame_def)

lemma encoded_good_frame:
  assumes mc: "sound_machine mc" "sound_machine (mach E)" and p: "prepared ep fs m h = (m1, h1)" and l: "lists_ok h1 m1"
    and e: "message_encode mc ep fs crcflags m h = (m', h2)"
    and fl: "crc_flags E AND MSG_CRC_HEADER \<noteq> 0 \<longrightarrow> crcflags AND MSG_CRC_HEADER \<noteq> 0"
  shows "good_frame E (header m') (contents h1 (payload m1)) (contents h1 (middle m1)) (contents h1 (mdata m1)) (footer m')"
    and "checks_ok (crc_flags E) (footer m') (contents h1 (payload m1)) (contents h1 (middle m1)) (contents h1 (mdata m1))"
proof -
  note k = message_encode_checks [OF mc(1) p l e]
  have "unat (of_nat (blen bl) :: u32) = blen bl" if "list_ok h1 bl" for bl
    using that by (simp add: list_ok_def unat_of_nat)
  then have "length (contents h1 bl) = unat (of_nat (blen bl) :: u32)" if "list_ok h1 bl" for bl
    using that length_contents [OF that] by simp
  moreover have "header_crc (mach E) (header m') = header_crc mc (header m')"
    using header_crc_eq [OF mc(1), of "header m'" Little_endian] header_crc_eq [OF mc(2), of "header m'" Little_endian] by simp
  ultimately show "good_frame E (header m') (contents h1 (payload m1)) (contents h1 (middle m1)) (contents h1 (mdata m1)) (footer m')"
    using k(6-10) fl l by (simp add: good_frame_def lists_ok_def)
  show "checks_ok (crc_flags E) (footer m') (contents h1 (payload m1)) (contents h1 (middle m1)) (contents h1 (mdata m1))"
    by (rule k(5) [OF fl])
qed

section \<open>A sample connection\<close>

definition sample_env :: env where
  "sample_env = \<lparr>mach = sample_machine, make_msg = (\<lambda>t. if t = 42 then Some (new_message 42 3 1) else None),
     dec_payload = (\<lambda>m h. Inr (m, h)), fast = (\<lambda>_. False), crc_flags = 3, die_on_bad_msg = False, die_on_old_message = False,
     die_on_skipped_message = False, max_recv_bytes = 1000, thread = 1\<rparr>"

definition sample_conn :: "sock_in list \<Rightarrow> sock_in list conn" where
  "sample_conn s =
     \<lparr>input = \<lparr>recv_buf = replicate 512 0, recv_max_prefetch = 512, recv_start = 0, recv_end = 0, state_offset = 0, sock = s\<rparr>,
      sess = new_session, state = STATE_OPEN, state_buffer = replicate 4096 0, current_header = zero_header,
      current_footer = \<lparr>front_crc = 0, middle_crc = 0, data_crc = 0, sig = 0, fflags = 0\<rparr>,
      front = bl_new, cmiddle = bl_new, cdata = bl_new, data_buf = bl_new, data_blp = iter_begin, msg_left = 0,
      memory = sample_heap, rx_buffers = Map.empty, throttles = (\<lambda>_. the (throttle_new 0)), throttler_bytes = 0, throttler_messages = 0,
      keepalive_ack = False, keepalive_ack_stamp = (0, 0), last_keepalive_ack = (0, 0), conn_id = 5, write_started = False,
      process_timer = False, in_q_calls = [], total_recv_bytes = 0\<rparr>"

definition sample_out_env :: "(sock_out list \<times> byte list) out_env" where
  "sample_out_env = \<lparr>tx = script_send, omach = sample_machine\<lparr>host := Big_endian\<rparr>, encode_body = (\<lambda>_ m h. (m, h)), features = 0,
     crc_out = 3, keepalive_now = (0, 0), myname = \<lparr>en_type = 1, en_num = 9\<rparr>, default_prio = 127, concurrent_socket = True\<rparr>"

definition sample_out_conn :: "sock_out list \<Rightarrow> (sock_out list \<times> byte list) out_conn" where
  "sample_out_conn s = \<lparr>osess = new_session, owriter = \<lparr>outcoming = bl_new, osock = (s, []), sd_open = True, ev_write = False\<rparr>,
     omem = sample_heap, bodies = (\<lambda>_. sample_message), cstate = STATE_OPEN, server = False, okeepalive = False,
     okeepalive_ack = False, oack_stamp = (0, 0), stopping = False, sending = False, want_send = False, handle_write_delayed = False\<rparr>"

lemma sample_conn_inv: "conn_inv sample_env (sample_conn s) []"
  using sample_heap_ok
  by (simp add: conn_inv_def conn_ok_def sample_conn_def reader_ok_def bl_new_def null_ptr_def)

lemma sample_tolerant: "tolerant sample_env"
  by (simp add: tolerant_def sample_env_def)

lemma script_sockets: "live_socket script_read script_pending script_waits" "byte_socket script_read script_pending"
  "byte_sink script_send snd (\<lambda>s. length (fst s))"
  by unfold_locales

section \<open>Properties\<close>









end
