(* ===== verification/Handshake.thy ===== *)
theory Handshake
  imports Conn_State Session Message
begin

text \<open>
  How two connections find each other (\<^verbatim>\<open>src/src/async/AsyncConnection.cc\<close>): the connect message and its reply,
  the decisions of the accepting side (\<^verbatim>\<open>handle_connect_msg\<close>) and of the connecting side
  (\<^verbatim>\<open>handle_connect_reply\<close>), taking over an existing connection (\<^verbatim>\<open>do_replace\<close>), \<^verbatim>\<open>fault\<close> and \<^verbatim>\<open>_stop\<close>, and the registry
  of connections of the messenger (\<^verbatim>\<open>src/src/async/AsyncMessenger.h\<close>).  Each function starts where the
  structure it works on has been read.
\<close>

section \<open>Wire structures\<close>

record msgr_msg_connect =
  c_features :: u64
  host_type :: u32
  c_global_seq :: u32
  c_connect_seq :: u32
  c_protocol_version :: u32
  authorizer_protocol :: u32
  c_authorizer_len :: u32
  c_flags :: byte

record msgr_msg_connect_reply =
  r_tag :: byte
  r_features :: u64
  r_global_seq :: u32
  r_connect_seq :: u32
  r_protocol_version :: u32
  r_authorizer_len :: u32
  r_flags :: byte

definition connect_bytes :: "endian \<Rightarrow> msgr_msg_connect \<Rightarrow> byte list" where
  "connect_bytes e x =
     le64_mem e (c_features x) @ le32_mem e (host_type x) @ le32_mem e (c_global_seq x) @ le32_mem e (c_connect_seq x)
     @ le32_mem e (c_protocol_version x) @ le32_mem e (authorizer_protocol x) @ le32_mem e (c_authorizer_len x) @ [c_flags x]"

definition connect_of :: "endian \<Rightarrow> byte list \<Rightarrow> msgr_msg_connect" where
  "connect_of e bs = \<lparr>
     c_features = le64_val e (field 0 8 bs), host_type = le32_val e (field 8 4 bs), c_global_seq = le32_val e (field 12 4 bs),
     c_connect_seq = le32_val e (field 16 4 bs), c_protocol_version = le32_val e (field 20 4 bs),
     authorizer_protocol = le32_val e (field 24 4 bs), c_authorizer_len = le32_val e (field 28 4 bs),
     c_flags = hd (field 32 1 bs)\<rparr>"

definition reply_bytes :: "endian \<Rightarrow> msgr_msg_connect_reply \<Rightarrow> byte list" where
  "reply_bytes e x =
     r_tag x # le64_mem e (r_features x) @ le32_mem e (r_global_seq x) @ le32_mem e (r_connect_seq x)
     @ le32_mem e (r_protocol_version x) @ le32_mem e (r_authorizer_len x) @ [r_flags x]"

definition reply_of :: "endian \<Rightarrow> byte list \<Rightarrow> msgr_msg_connect_reply" where
  "reply_of e bs = \<lparr>
     r_tag = hd (field 0 1 bs), r_features = le64_val e (field 1 8 bs), r_global_seq = le32_val e (field 9 4 bs),
     r_connect_seq = le32_val e (field 13 4 bs), r_protocol_version = le32_val e (field 17 4 bs),
     r_authorizer_len = le32_val e (field 21 4 bs), r_flags = hd (field 25 1 bs)\<rparr>"

definition MSGR_MSGR_TAG_READY :: byte where "MSGR_MSGR_TAG_READY = 1"
definition MSGR_MSGR_TAG_RESETSESSION :: byte where "MSGR_MSGR_TAG_RESETSESSION = 2"
definition MSGR_MSGR_TAG_WAIT :: byte where "MSGR_MSGR_TAG_WAIT = 3"
definition MSGR_MSGR_TAG_RETRY_SESSION :: byte where "MSGR_MSGR_TAG_RETRY_SESSION = 4"
definition MSGR_MSGR_TAG_RETRY_GLOBAL :: byte where "MSGR_MSGR_TAG_RETRY_GLOBAL = 5"
definition MSGR_MSGR_TAG_BADPROTOVER :: byte where "MSGR_MSGR_TAG_BADPROTOVER = 10"
definition MSGR_MSGR_TAG_BADAUTHORIZER :: byte where "MSGR_MSGR_TAG_BADAUTHORIZER = 11"
definition MSGR_MSGR_TAG_FEATURES :: byte where "MSGR_MSGR_TAG_FEATURES = 12"
definition MSGR_MSGR_TAG_SEQ :: byte where "MSGR_MSGR_TAG_SEQ = 13"

definition MSGR_MSG_CONNECT_LOSSY :: byte where "MSGR_MSG_CONNECT_LOSSY = 1"
definition MSGR_FEATURE_MSG_AUTH :: u64 where "MSGR_FEATURE_MSG_AUTH = 2"
definition MSGR_AUTH_MSGRX :: u32 where "MSGR_AUTH_MSGRX = 2"
definition MSGR_ENTITY_TYPE_MON :: u32 where "MSGR_ENTITY_TYPE_MON = 1"
definition MSGR_ENTITY_TYPE_MDS :: u32 where "MSGR_ENTITY_TYPE_MDS = 2"
definition MSGR_ENTITY_TYPE_OSD :: u32 where "MSGR_ENTITY_TYPE_OSD = 4"

section \<open>State\<close>

text \<open>
  An address is the memory of an \<^verbatim>\<open>entity_addr_t\<close>; the operators on it are \<^verbatim>\<open>memcmp\<close>.  The flag \<^verbatim>\<open>lossy\<close> of the
  policy is the one of the session.
\<close>

type_synonym addr = "byte list"

record policy =
  server_policy :: bool
  standby :: bool
  resetcheck :: bool
  features_supported :: u64
  features_required :: u64

text \<open>The calls on the dispatch queue, and on the application.\<close>

datatype dq_call = Discard_queue | Queue_remote_reset | Queue_accept | Queue_connect | Queue_reset

text \<open>
  \<open>told\<close> records the replies written, \<open>wire\<close> is the socket; \<open>recv_bytes\<close>, \<open>recv_from\<close> and \<open>recv_to\<close> are the prefetch buffer.
  \<open>reconnect_in\<close> is the time \<^verbatim>\<open>ev_process\<close> was set to, \<open>keepalive_due\<close> the flag \<^verbatim>\<open>keepalive\<close>.
\<close>

record 'w peer_conn =
  cst :: conn_state
  state_after_send :: conn_state
  peer_addr :: addr
  peer_type :: u32
  pol :: policy
  global_seq :: u32
  connect_seq :: u32
  peer_global_seq :: u32
  psess :: session
  wire :: 'w
  has_sd :: bool
  replacing :: nat
  replacing_sd :: "'w option"
  is_reset_from_peer :: bool
  replacing_reset_session :: bool
  replacing_connect :: msgr_msg_connect
  replacing_authorizer_reply :: "byte list"
  replacing_buf :: "byte list"
  recv_bytes :: "byte list"
  recv_from :: nat
  recv_to :: nat
  got_bad_auth :: bool
  authorizer :: "(u32 \<times> byte list) option"
  connect_msg :: msgr_msg_connect
  connect_reply :: msgr_msg_connect_reply
  conn_features :: u64
  queue_reset :: bool
  conn_stopping :: bool
  keepalive_due :: bool
  backoff :: rat
  reconnect_in :: "rat option"
  dq_calls :: "dq_call list"
  told :: "msgr_msg_connect_reply list"

record 'w messenger =
  conns :: "addr \<rightharpoonup> nat"
  accepting_conns :: "nat set"
  msgr_global_seq :: u32
  con :: "nat \<Rightarrow> 'w peer_conn"

text \<open>
  What a messenger is configured with.  \<open>take_bytes\<close> says how many of the bytes offered the kernel takes
  (\<open>None\<close>: an error); the authorizers belong to the application.  \<open>junk_reply\<close> is the reply structure that
  \<^verbatim>\<open>do_replace\<close> leaves uninitialised.
\<close>

record 'w menv =
  take_bytes :: "byte list \<Rightarrow> 'w \<Rightarrow> nat option \<times> 'w"
  host_order :: endian
  my_addr :: addr
  my_type :: u32
  cluster_protocol :: u32
  require_signatures :: bool
  cluster_require_signatures :: bool
  service_require_signatures :: bool
  verify_authorizer :: "u32 \<Rightarrow> u32 \<Rightarrow> byte list \<Rightarrow> bool \<times> byte list"
  get_authorizer :: "u32 \<Rightarrow> bool \<Rightarrow> (u32 \<times> byte list) option"
  verify_reply :: "(u32 \<times> byte list) \<Rightarrow> byte list \<Rightarrow> bool"
  get_policy :: "u32 \<Rightarrow> policy \<times> bool"
  random_seq :: "int \<times> u64"
  initial_backoff :: rat
  max_backoff :: rat
  junk_reply :: msgr_msg_connect_reply

definition zero_connect :: msgr_msg_connect where
  "zero_connect = \<lparr>c_features = 0, host_type = 0, c_global_seq = 0, c_connect_seq = 0, c_protocol_version = 0,
     authorizer_protocol = 0, c_authorizer_len = 0, c_flags = 0\<rparr>"

definition zero_reply :: msgr_msg_connect_reply where
  "zero_reply = \<lparr>r_tag = 0, r_features = 0, r_global_seq = 0, r_connect_seq = 0, r_protocol_version = 0,
     r_authorizer_len = 0, r_flags = 0\<rparr>"

definition upd_con :: "nat \<Rightarrow> 'w peer_conn \<Rightarrow> 'w messenger \<Rightarrow> 'w messenger" where
  "upd_con i c M = M\<lparr>con := (con M)(i := c)\<rparr>"

section \<open>The messenger\<close>

definition get_global_seq :: "u32 \<Rightarrow> 'w messenger \<Rightarrow> u32 \<times> 'w messenger" where
  "get_global_seq old M =
     (let g = (if old > msgr_global_seq M then old else msgr_global_seq M) + 1 in (g, M\<lparr>msgr_global_seq := g\<rparr>))"

definition get_proto_version :: "'w menv \<Rightarrow> u32 \<Rightarrow> bool \<Rightarrow> u32" where
  "get_proto_version E peer connect =
     (if peer = my_type E then cluster_protocol E
      else if (if connect then peer else my_type E) \<in> {MSGR_ENTITY_TYPE_OSD, MSGR_ENTITY_TYPE_MDS, MSGR_ENTITY_TYPE_MON}
      then 1 else 0)"

definition lookup_conn :: "addr \<Rightarrow> 'w messenger \<Rightarrow> nat option" where
  "lookup_conn a M = conns M a"

definition unregister_conn :: "nat \<Rightarrow> 'w messenger \<Rightarrow> 'w messenger" where
  "unregister_conn i M =
     (let a = peer_addr (con M i)
      in M\<lparr>conns := (if conns M a = Some i then (conns M)(a := None) else conns M),
           accepting_conns := accepting_conns M - {i}\<rparr>)"

definition accept_conn :: "nat \<Rightarrow> 'w messenger \<Rightarrow> int \<times> 'w messenger" where
  "accept_conn i M =
     (let a = peer_addr (con M i)
      in if conns M a \<noteq> None \<and> conns M a \<noteq> Some i then (-1, M)
         else (0, M\<lparr>conns := (conns M)(a \<mapsto> i), accepting_conns := accepting_conns M - {i}\<rparr>))"

text \<open>A new connection; \<open>i\<close> is its identity and \<open>w\<close> its socket.\<close>

definition new_conn :: "'w \<Rightarrow> 'w peer_conn" where
  "new_conn w = \<lparr>cst = STATE_NONE, state_after_send = STATE_NONE, peer_addr = [], peer_type = 0,
     pol = \<lparr>server_policy = False, standby = False, resetcheck = True, features_supported = MSGR_FEATURE_MSG_AUTH, features_required = 0\<rparr>,
     global_seq = 0, connect_seq = 0, peer_global_seq = 0, psess = new_session\<lparr>lossy := True\<rparr>, wire = w, has_sd = False,
     replacing = 0, replacing_sd = None, is_reset_from_peer = False, replacing_reset_session = False,
     replacing_connect = zero_connect, replacing_authorizer_reply = [], replacing_buf = [], recv_bytes = [], recv_from = 0,
     recv_to = 0, got_bad_auth = False, authorizer = None, connect_msg = zero_connect, connect_reply = zero_reply,
     conn_features = 0, queue_reset = False, conn_stopping = False, keepalive_due = False, backoff = 0, reconnect_in = None,
     dq_calls = [], told = []\<rparr>"

definition connect_now :: "'w peer_conn \<Rightarrow> 'w peer_conn" where
  "connect_now c = c\<lparr>cst := STATE_CONNECTING, reconnect_in := Some 0\<rparr>"

definition conn_connect :: "'w menv \<Rightarrow> addr \<Rightarrow> u32 \<Rightarrow> 'w peer_conn \<Rightarrow> 'w peer_conn" where
  "conn_connect E a t c =
     connect_now (c\<lparr>peer_type := t, peer_addr := a, pol := fst (get_policy E t), psess := (psess c)\<lparr>lossy := snd (get_policy E t)\<rparr>\<rparr>)"

definition conn_accept :: "'w \<Rightarrow> 'w peer_conn \<Rightarrow> 'w peer_conn" where
  "conn_accept w c = c\<lparr>wire := w, has_sd := True, cst := STATE_ACCEPTING, reconnect_in := Some 0\<rparr>"

definition add_accept :: "nat \<Rightarrow> 'w \<Rightarrow> 'w messenger \<Rightarrow> 'w messenger" where
  "add_accept i w M = upd_con i (conn_accept w (new_conn w)) (M\<lparr>accepting_conns := insert i (accepting_conns M)\<rparr>)"

definition create_connect :: "'w menv \<Rightarrow> nat \<Rightarrow> 'w \<Rightarrow> addr \<Rightarrow> u32 \<Rightarrow> 'w messenger \<Rightarrow> 'w messenger option" where
  "create_connect E i w a t M =
     (if a = my_addr E \<or> conns M a \<noteq> None then None
      else Some (upd_con i (conn_connect E a t (new_conn w)) (M\<lparr>conns := (conns M)(a \<mapsto> i)\<rparr>)))"

text \<open>\<open>Inl ()\<close> is the loopback connection.\<close>

definition get_connection :: "'w menv \<Rightarrow> nat \<Rightarrow> 'w \<Rightarrow> addr \<Rightarrow> u32 \<Rightarrow> 'w messenger \<Rightarrow> ((unit + nat) \<times> 'w messenger) option" where
  "get_connection E i w a t M =
     (if my_addr E = a then Some (Inl (), M)
      else
        (case lookup_conn a M of
           Some j \<Rightarrow> Some (Inr j, M)
         | None \<Rightarrow> map_option (\<lambda>M. (Inr i, M)) (create_connect E i w a t M)))"

section \<open>Sending\<close>

text \<open>
  \<^verbatim>\<open>_try_send\<close> seen from the handshake: the bytes join the queue and the kernel takes what it can; the result is
  the number of bytes that wait (\<open>try_send\<close> is the code in full).
\<close>

definition try_put :: "'w menv \<Rightarrow> byte list \<Rightarrow> 'w peer_conn \<Rightarrow> int \<times> 'w peer_conn" where
  "try_put E bs c =
     (let q = outcoming_bl (psess c) @ bs
      in case take_bytes E q (wire c) of
           (None, w) \<Rightarrow> (-1, c\<lparr>psess := (psess c)\<lparr>outcoming_bl := q\<rparr>, wire := w\<rparr>)
         | (Some n, w) \<Rightarrow>
             (let rest = drop n q in (int (length rest), c\<lparr>psess := (psess c)\<lparr>outcoming_bl := rest\<rparr>, wire := w\<rparr>)))"

text \<open>The pattern of the connecting states: go on, or go on when everything has been written.\<close>

definition then_state :: "conn_state \<Rightarrow> int \<times> 'w peer_conn \<Rightarrow> int \<times> 'w peer_conn" where
  "then_state s rc =
     (case rc of (r, c) \<Rightarrow>
        if r = 0 then (0, c\<lparr>cst := s\<rparr>)
        else if r > 0 then (0, c\<lparr>cst := STATE_WAIT_SEND, state_after_send := s\<rparr>)
        else (-1, c))"

section \<open>Resets and faults\<close>

definition was_session_reset :: "'w menv \<Rightarrow> 'w peer_conn \<Rightarrow> 'w peer_conn" where
  "was_session_reset E c =
     (let s = discard_out_queue (psess c);
          (_, s) = randomize_out_seq (conn_features c AND MSGR_FEATURE_MSG_AUTH \<noteq> 0) (random_seq E) s
      in c\<lparr>dq_calls := dq_calls c @ [Discard_queue, Queue_remote_reset],
           psess := s\<lparr>in_seq := 0, in_seq_acked := 0\<rparr>, connect_seq := 0\<rparr>)"

definition stop_conn :: "nat \<Rightarrow> 'w messenger \<Rightarrow> 'w messenger" where
  "stop_conn i M =
     (if cst (con M i) = STATE_CLOSED then M
      else
        (let M = unregister_conn i M; c = con M i
         in upd_con i (c\<lparr>replacing_sd := None, reconnect_in := None, psess := discard_out_queue (psess c), has_sd := False,
                        dq_calls := dq_calls c @ Discard_queue # (if queue_reset c then [Queue_reset] else []),
                        queue_reset := False, replacing := 0, cst := STATE_CLOSED\<rparr>) M))"

definition in_connecting :: "conn_state \<Rightarrow> bool" where
  "in_connecting s \<longleftrightarrow> STATE_CONNECTING \<le> s \<and> s < STATE_CONNECTING_READY"

text \<open>\<open>None\<close>: the assertion on \<^verbatim>\<open>replacing\<close>.\<close>

definition fault :: "'w menv \<Rightarrow> nat \<Rightarrow> 'w messenger \<Rightarrow> 'w messenger option" where
  "fault E i M =
     (let c = con M i
      in if cst c = STATE_CLOSED then Some M
         else if lossy (psess c) \<and> \<not> in_connecting (cst c) then Some (stop_conn i M)
         else if replacing c = 1 then None
         else
           (let c = c\<lparr>has_sd := False, reconnect_in := None, replacing := 0, recv_from := 0, recv_to := 0,
                      psess := (requeue_sent (psess c))\<lparr>outcoming_bl := []\<rparr>\<rparr>;
                c = (if standby (pol c) \<and> out_q (psess c) = [] then c\<lparr>cst := STATE_STANDBY\<rparr>
                     else if \<not> in_connecting (cst c)
                     then (if server_policy (pol c) \<or> STATE_ACCEPTING \<le> cst c \<and> cst c < STATE_ACCEPTING_WAIT_SEQ
                           then c\<lparr>cst := STATE_STANDBY, backoff := 0\<rparr>
                           else c\<lparr>connect_seq := connect_seq c + 1, cst := STATE_CONNECTING, backoff := 0, reconnect_in := Some 0\<rparr>)
                     else
                       (let b = (if backoff c = 0 then initial_backoff E
                                 else if backoff c + backoff c > max_backoff E then max_backoff E else backoff c + backoff c)
                        in c\<lparr>cst := STATE_CONNECTING, backoff := b, reconnect_in := Some b\<rparr>))
            in Some (upd_con i c M)))"

section \<open>The connecting side\<close>

text \<open>\<^verbatim>\<open>STATE_CONNECTING_SEND_CONNECT_MSG\<close>.\<close>

definition send_connect_msg :: "'w menv \<Rightarrow> 'w peer_conn \<Rightarrow> int \<times> 'w peer_conn" where
  "send_connect_msg E c =
     (let c = (if got_bad_auth c then c else c\<lparr>authorizer := get_authorizer E (peer_type c) False\<rparr>);
          x = (connect_msg c)\<lparr>c_features := features_supported (pol c), host_type := my_type E, c_global_seq := global_seq c,
                c_connect_seq := connect_seq c, c_protocol_version := get_proto_version E (peer_type c) True,
                authorizer_protocol := (case authorizer c of None \<Rightarrow> 0 | Some a \<Rightarrow> fst a),
                c_authorizer_len := (case authorizer c of None \<Rightarrow> 0 | Some a \<Rightarrow> of_nat (length (snd a))),
                c_flags := (if lossy (psess c) then MSGR_MSG_CONNECT_LOSSY else 0)\<rparr>
      in then_state STATE_CONNECTING_WAIT_CONNECT_REPLY
           (try_put E (connect_bytes (host_order E) x @ (case authorizer c of None \<Rightarrow> [] | Some a \<Rightarrow> snd a)) (c\<lparr>connect_msg := x\<rparr>)))"

text \<open>\<open>None\<close>: the assertion that the peer's number is greater.  The flag is false for \<^verbatim>\<open>goto fail\<close>.\<close>

definition handle_connect_reply :: "'w menv \<Rightarrow> nat \<Rightarrow> 'w messenger \<Rightarrow> (bool \<times> 'w messenger) option" where
  "handle_connect_reply E i M =
     (let c = con M i; x = connect_reply c; go = (\<lambda>c M. Some (True, upd_con i c M));
          again = (\<lambda>c M. Some (True, upd_con i (c\<lparr>cst := STATE_CONNECTING_SEND_CONNECT_MSG\<rparr>) M));
          lacking = (features_required (pol c) AND NOT (r_features x) \<noteq> 0)
      in if r_tag x = MSGR_MSGR_TAG_BADAUTHORIZER
         then (if got_bad_auth c then Some (False, M)
               else again (c\<lparr>got_bad_auth := True, authorizer := get_authorizer E (peer_type c) True\<rparr>) M)
         else if r_tag x = MSGR_MSGR_TAG_RESETSESSION then again (was_session_reset E c) M
         else if r_tag x = MSGR_MSGR_TAG_RETRY_GLOBAL
         then (let (g, M) = get_global_seq (r_global_seq x) M in again (c\<lparr>global_seq := g\<rparr>) M)
         else if r_tag x = MSGR_MSGR_TAG_RETRY_SESSION
         then (if r_connect_seq x > connect_seq c then again (c\<lparr>connect_seq := r_connect_seq x\<rparr>) M else None)
         else if r_tag x = MSGR_MSGR_TAG_WAIT then go (c\<lparr>cst := STATE_WAIT\<rparr>) M
         else if r_tag x = MSGR_MSGR_TAG_SEQ
         then (if lacking then Some (False, M) else go (c\<lparr>cst := STATE_CONNECTING_WAIT_ACK_SEQ\<rparr>) M)
         else if r_tag x = MSGR_MSGR_TAG_READY
         then (if lacking then Some (False, M) else go (c\<lparr>cst := STATE_CONNECTING_READY\<rparr>) M)
         else Some (False, M))"

text \<open>The parts of \<^verbatim>\<open>STATE_CONNECTING_WAIT_CONNECT_REPLY\<close> and \<^verbatim>\<open>_AUTH\<close> behind \<^verbatim>\<open>read_until\<close>.\<close>

definition got_reply :: "msgr_msg_connect_reply \<Rightarrow> 'w peer_conn \<Rightarrow> 'w peer_conn" where
  "got_reply x c = c\<lparr>connect_reply := x, cst := STATE_CONNECTING_WAIT_CONNECT_REPLY_AUTH\<rparr>"

definition got_reply_auth :: "'w menv \<Rightarrow> byte list \<Rightarrow> nat \<Rightarrow> 'w messenger \<Rightarrow> (bool \<times> 'w messenger) option" where
  "got_reply_auth E bs i M =
     (let c = con M i
      in if r_authorizer_len (connect_reply c) \<noteq> 0 \<and>
            (r_authorizer_len (connect_reply c) > 4096 \<or>
             (case authorizer c of None \<Rightarrow> False | Some a \<Rightarrow> \<not> verify_reply E a bs))
         then Some (False, M)
         else
           (case handle_connect_reply E i M of
              None \<Rightarrow> None
            | Some (False, M) \<Rightarrow> Some (False, M)
            | Some (True, M) \<Rightarrow> (if cst (con M i) = STATE_CONNECTING_WAIT_CONNECT_REPLY_AUTH then None else Some (True, M))))"

text \<open>\<^verbatim>\<open>STATE_CONNECTING_WAIT_ACK_SEQ\<close> behind \<^verbatim>\<open>read_until\<close>.\<close>

definition got_ack_seq :: "'w menv \<Rightarrow> u64 \<Rightarrow> 'w peer_conn \<Rightarrow> int \<times> 'w peer_conn" where
  "got_ack_seq E n c =
     (let c = c\<lparr>psess := discard_requeued_up_to n (psess c)\<rparr>
      in then_state STATE_CONNECTING_READY (try_put E (le64_mem (host_order E) (in_seq (psess c))) c))"

text \<open>\<^verbatim>\<open>STATE_CONNECTING_READY\<close>; \<open>None\<close> is the assertion on \<^verbatim>\<open>connect_seq\<close>.\<close>

definition connecting_ready :: "'w peer_conn \<Rightarrow> 'w peer_conn option" where
  "connecting_ready c =
     (let x = connect_reply c;
          c = c\<lparr>peer_global_seq := r_global_seq x, psess := (psess c)\<lparr>lossy := (r_flags x AND MSGR_MSG_CONNECT_LOSSY \<noteq> 0)\<rparr>,
                cst := STATE_OPEN, connect_seq := connect_seq c + 1\<rparr>
      in if connect_seq c \<noteq> r_connect_seq x then None
         else Some (c\<lparr>backoff := 0, conn_features := r_features x AND c_features (connect_msg c), queue_reset := True,
                      dq_calls := dq_calls c @ [Queue_connect]\<rparr>))"

text \<open>\<^verbatim>\<open>STATE_WAIT_SEND\<close>; \<^verbatim>\<open>STATE_NONE\<close> is 0.\<close>

definition wait_send :: "'w peer_conn \<Rightarrow> 'w peer_conn option" where
  "wait_send c =
     (if outcoming_bl (psess c) = []
      then (if state_after_send c = STATE_NONE then None else Some (c\<lparr>cst := state_after_send c, state_after_send := STATE_NONE\<rparr>))
      else Some c)"

section \<open>The accepting side\<close>

definition reply_accept ::
    "'w menv \<Rightarrow> byte \<Rightarrow> msgr_msg_connect \<Rightarrow> msgr_msg_connect_reply \<Rightarrow> byte list \<Rightarrow> 'w peer_conn \<Rightarrow> int \<times> 'w peer_conn" where
  "reply_accept E tag x y auth c =
     (let y = y\<lparr>r_tag := tag, r_features := (c_features x AND features_supported (pol c)) OR features_required (pol c),
               r_authorizer_len := of_nat (length auth)\<rparr>;
          (r, c) = try_put E (reply_bytes (host_order E) y @ auth) (c\<lparr>told := told c @ [y]\<rparr>)
      in if r < 0 then (-1, c) else (0, c\<lparr>cst := STATE_ACCEPTING_WAIT_CONNECT_MSG\<rparr>))"

text \<open>
  The comparison with an existing connection: what to do, as the labels of the code.  \<open>Keep_ours\<close> is the reply
  \<^verbatim>\<open>WAIT\<close>, with a keepalive on the existing connection.
\<close>

datatype verdict = Retry_global u32 | Retry_session u32 | Reset_session | Keep_ours | Take_over bool bool | Open_new | Assertion

definition judge_existing :: "'w menv \<Rightarrow> 'w peer_conn \<Rightarrow> msgr_msg_connect \<Rightarrow> 'w peer_conn \<Rightarrow> verdict" where
  "judge_existing E c x e =
     (if c_global_seq x < peer_global_seq e then Retry_global (peer_global_seq e)
      else if lossy (psess e) then Take_over True False
      else if c_connect_seq x = 0 \<and> connect_seq e > 0 then Take_over (resetcheck (pol c)) True
      else if c_connect_seq x < connect_seq e then Retry_session (connect_seq e + 1)
      else if c_connect_seq x = connect_seq e
      then (if cst e = STATE_OPEN \<or> cst e = STATE_STANDBY
            then (if resetcheck (pol c) \<and> connect_seq e = 0 then Take_over False False else Retry_session (connect_seq e + 1))
            else if memcmp (peer_addr c) (my_addr E) < 0 \<or> server_policy (pol e) then Take_over False False
            else if memcmp (peer_addr c) (my_addr E) > 0 then Keep_ours else Assertion)
      else if resetcheck (pol c) \<and> connect_seq e = 0 then Reset_session
      else Take_over False False)"

definition judge :: "'w menv \<Rightarrow> nat \<Rightarrow> msgr_msg_connect \<Rightarrow> 'w messenger \<Rightarrow> verdict" where
  "judge E i x M =
     (case lookup_conn (peer_addr (con M i)) M of
        Some j \<Rightarrow> (if j \<noteq> i then judge_existing E (con M i) x (con M j)
                    else if replacing (con M i) = 0 \<and> c_connect_seq x > 0 then Reset_session else Open_new)
      | None \<Rightarrow> (if replacing (con M i) = 0 \<and> c_connect_seq x > 0 then Reset_session else Open_new))"

text \<open>The label \<^verbatim>\<open>replace\<close>: the existing connection \<open>j\<close> gets the socket, unless it is being replaced or stopped itself.\<close>

definition replace_existing ::
    "'w menv \<Rightarrow> nat \<Rightarrow> nat \<Rightarrow> bool \<Rightarrow> bool \<Rightarrow> msgr_msg_connect \<Rightarrow> msgr_msg_connect_reply \<Rightarrow> byte list \<Rightarrow> 'w messenger \<Rightarrow> int \<times> 'w messenger" where
  "replace_existing E i j reset from_peer x y auth M =
     (let c = con M i; e = con M j
      in if replacing e \<noteq> 0 \<or> cst e = STATE_CLOSED \<or> conn_stopping e \<or> cst e = STATE_OPEN_TAG_CLOSE
         then (let (r, c) = reply_accept E MSGR_MSGR_TAG_RETRY_SESSION x (y\<lparr>r_connect_seq := c_connect_seq x + 1\<rparr>) auth c
               in if r < 0 then (-1, upd_con i (c\<lparr>replacing := 0\<rparr>) M) else (0, upd_con i c M))
         else
           (let e = e\<lparr>replacing := 1, replacing_reset_session := reset, replacing_sd := Some (wire c), is_reset_from_peer := from_peer,
                     replacing_connect := x, replacing_authorizer_reply := auth,
                     replacing_buf := take (recv_to c - recv_from c) (recv_bytes c)\<rparr>;
                M = upd_con j e (upd_con i (c\<lparr>has_sd := False\<rparr>) M)
            in (0, stop_conn i M)))"

text \<open>
  The label \<^verbatim>\<open>open\<close>: after a replacement the two sides exchange their numbers, unless the peer has
  lost its session; the reply, and the notification of the application.
\<close>

definition resumes :: "'w peer_conn \<Rightarrow> bool" where
  "resumes c \<longleftrightarrow> replacing c \<noteq> 0 \<and> \<not> is_reset_from_peer c"

definition as_opened :: "bool \<Rightarrow> msgr_msg_connect \<Rightarrow> 'w peer_conn \<Rightarrow> 'w peer_conn" where
  "as_opened resume x c =
     (let c = c\<lparr>connect_seq := c_connect_seq x + 1, peer_global_seq := c_global_seq x,
                conn_features := features_supported (pol c) AND c_features x\<rparr>
      in if resume then c
         else c\<lparr>psess := (discard_requeued_up_to 0 (psess c))\<lparr>in_seq := 0, in_seq_acked := 0\<rparr>, is_reset_from_peer := False\<rparr>)"

definition open_reply :: "bool \<Rightarrow> u32 \<Rightarrow> msgr_msg_connect_reply \<Rightarrow> byte list \<Rightarrow> 'w peer_conn \<Rightarrow> msgr_msg_connect_reply" where
  "open_reply resume g y auth c = y\<lparr>r_tag := (if resume then MSGR_MSGR_TAG_SEQ else MSGR_MSGR_TAG_READY),
     r_features := features_supported (pol c), r_global_seq := g, r_connect_seq := connect_seq c,
     r_flags := (if lossy (psess c) then MSGR_MSG_CONNECT_LOSSY else 0), r_authorizer_len := of_nat (length auth)\<rparr>"

definition announce_accept :: "'w peer_conn \<Rightarrow> 'w peer_conn" where
  "announce_accept c =
     (if (replacing c = 0 \<or> replacing c = 2) \<and> \<not> queue_reset c
      then c\<lparr>queue_reset := True, dq_calls := dq_calls c @ [Queue_accept]\<rparr> else c)"

definition open_accepted ::
    "'w menv \<Rightarrow> nat \<Rightarrow> msgr_msg_connect \<Rightarrow> msgr_msg_connect_reply \<Rightarrow> byte list \<Rightarrow> 'w messenger \<Rightarrow> int \<times> 'w messenger" where
  "open_accepted E i x y auth M =
     (let resume = resumes (con M i); c = as_opened resume x (con M i); (g, M) = get_global_seq 0 M;
          y = open_reply resume g y auth c;
          bs = reply_bytes (host_order E) y @ auth @ (if resume then le64_mem (host_order E) (in_seq (psess c)) else []);
          (r, M) = accept_conn i (upd_con i c M)
      in if r < 0 then (-1, upd_con i (c\<lparr>replacing := 0\<rparr>) M)
         else
           (let c = announce_accept c;
                (r, c) = then_state (if resume then STATE_ACCEPTING_WAIT_SEQ else STATE_ACCEPTING_READY)
                           (try_put E bs (c\<lparr>told := told c @ [y]\<rparr>))
            in (r, upd_con i (c\<lparr>replacing := 0\<rparr>) M)))"

text \<open>The policy may ask for signatures.\<close>

definition signature_policy :: "'w menv \<Rightarrow> msgr_msg_connect \<Rightarrow> 'w peer_conn \<Rightarrow> 'w peer_conn" where
  "signature_policy E x c =
     (if authorizer_protocol x = MSGR_AUTH_MSGRX \<and>
         (require_signatures E \<or>
          (if peer_type c = MSGR_ENTITY_TYPE_OSD \<or> peer_type c = MSGR_ENTITY_TYPE_MDS
           then cluster_require_signatures E else service_require_signatures E))
      then c\<lparr>pol := (pol c)\<lparr>features_required := features_required (pol c) OR MSGR_FEATURE_MSG_AUTH\<rparr>\<rparr> else c)"

text \<open>\<open>None\<close>: the assertion that the addresses of a race differ.\<close>

definition handle_connect_msg ::
    "'w menv \<Rightarrow> nat \<Rightarrow> msgr_msg_connect \<Rightarrow> byte list \<Rightarrow> 'w messenger \<Rightarrow> (int \<times> 'w messenger) option" where
  "handle_connect_msg E i x authorizer_bl M =
     (let c = con M i; y = zero_reply\<lparr>r_protocol_version := get_proto_version E (peer_type c) False\<rparr>;
          answer = (\<lambda>tag y auth c M. let (r, c) = reply_accept E tag x y auth c in Some (r, upd_con i c M))
      in if c_protocol_version x \<noteq> r_protocol_version y then answer MSGR_MSGR_TAG_BADPROTOVER y [] c M
         else
           (let c = signature_policy E x c
            in if features_required (pol c) AND NOT (c_features x) \<noteq> 0 then answer MSGR_MSGR_TAG_FEATURES y [] c M
               else
                 (let (ok, auth) = verify_authorizer E (peer_type c) (authorizer_protocol x) authorizer_bl; M = upd_con i c M
                  in if \<not> ok then answer MSGR_MSGR_TAG_BADAUTHORIZER y auth c M
                     else
                       (case judge E i x M of
                          Retry_global g \<Rightarrow> answer MSGR_MSGR_TAG_RETRY_GLOBAL (y\<lparr>r_global_seq := g\<rparr>) auth c M
                        | Retry_session n \<Rightarrow> answer MSGR_MSGR_TAG_RETRY_SESSION (y\<lparr>r_connect_seq := n\<rparr>) auth c M
                        | Reset_session \<Rightarrow> answer MSGR_MSGR_TAG_RESETSESSION y auth c M
                        | Keep_ours \<Rightarrow>
                            (let j = the (lookup_conn (peer_addr c) M); e = con M j
                             in answer MSGR_MSGR_TAG_WAIT y auth c
                                  (upd_con j (if cst e \<noteq> STATE_CLOSED then e\<lparr>keepalive_due := True\<rparr> else e) M))
                        | Take_over reset from_peer \<Rightarrow>
                            Some (replace_existing E i (the (lookup_conn (peer_addr c) M)) reset from_peer x y auth M)
                        | Open_new \<Rightarrow> Some (open_accepted E i x y auth M)
                        | Assertion \<Rightarrow> None))))"

text \<open>\<^verbatim>\<open>STATE_ACCEPTING_WAIT_CONNECT_MSG\<close> and \<^verbatim>\<open>_AUTH\<close> behind \<^verbatim>\<open>read_until\<close>.\<close>

definition got_connect :: "msgr_msg_connect \<Rightarrow> 'w peer_conn \<Rightarrow> 'w peer_conn" where
  "got_connect x c = c\<lparr>connect_msg := x, cst := STATE_ACCEPTING_WAIT_CONNECT_MSG_AUTH\<rparr>"

definition got_connect_auth :: "'w menv \<Rightarrow> byte list \<Rightarrow> nat \<Rightarrow> 'w messenger \<Rightarrow> (int \<times> 'w messenger) option" where
  "got_connect_auth E bs i M =
     (let c = con M i; t = host_type (connect_msg c);
          c = c\<lparr>peer_type := t, pol := fst (get_policy E t), psess := (psess c)\<lparr>lossy := snd (get_policy E t)\<rparr>\<rparr>
      in case handle_connect_msg E i (connect_msg c) bs (upd_con i c M) of
           None \<Rightarrow> None
         | Some (r, M) \<Rightarrow>
             (if 0 \<le> r \<and> cst (con M i) = STATE_ACCEPTING_WAIT_CONNECT_MSG_AUTH then None else Some (r, M)))"

text \<open>\<^verbatim>\<open>STATE_ACCEPTING_WAIT_SEQ\<close> behind \<^verbatim>\<open>read_until\<close>, and \<^verbatim>\<open>STATE_ACCEPTING_READY\<close>.\<close>

definition got_accept_seq :: "u64 \<Rightarrow> 'w peer_conn \<Rightarrow> 'w peer_conn" where
  "got_accept_seq n c = c\<lparr>psess := discard_requeued_up_to n (psess c), cst := STATE_ACCEPTING_READY\<rparr>"

definition accepting_ready :: "'w peer_conn \<Rightarrow> 'w peer_conn" where
  "accepting_ready c = c\<lparr>cst := STATE_OPEN, connect_msg := zero_connect\<rparr>"

text \<open>\<^verbatim>\<open>do_replace\<close>; \<open>None\<close> is a failed assertion.\<close>

definition do_replace :: "'w menv \<Rightarrow> nat \<Rightarrow> 'w messenger \<Rightarrow> 'w messenger option" where
  "do_replace E i M =
     (let c = con M i
      in case replacing_sd c of
           None \<Rightarrow> None
         | Some w \<Rightarrow>
             (if replacing c \<noteq> 1 then None
              else
                (let c = (if replacing_reset_session c then was_session_reset E (c\<lparr>replacing_reset_session := False\<rparr>) else c);
                     c = c\<lparr>wire := w, has_sd := True, replacing_sd := None, recv_bytes := replacing_buf c, recv_from := 0,
                           recv_to := length (replacing_buf c), replacing_buf := [],
                           reconnect_in := (if replacing_buf c \<noteq> [] then Some 0 else reconnect_in c)\<rparr>;
                     c = c\<lparr>psess := requeue_sent ((psess c)\<lparr>outcoming_bl := []\<rparr>), replacing := 2,
                           cst := STATE_ACCEPTING_WAIT_CONNECT_MSG\<rparr>;
                     y = (junk_reply E)\<lparr>r_connect_seq := c_connect_seq (replacing_connect c) + 1\<rparr>;
                     (r, c) = reply_accept E MSGR_MSGR_TAG_RETRY_SESSION (replacing_connect c) y (replacing_authorizer_reply c) c
                 in if r < 0
                    then map_option (\<lambda>M. upd_con i ((con M i)\<lparr>replacing_authorizer_reply := []\<rparr>) M)
                           (fault E i (upd_con i (c\<lparr>replacing := 0\<rparr>) M))
                    else Some (upd_con i (c\<lparr>replacing_authorizer_reply := []\<rparr>) M))))"

definition handle_replace :: "'w menv \<Rightarrow> nat \<Rightarrow> 'w messenger \<Rightarrow> 'w messenger option" where
  "handle_replace E i M = (if replacing (con M i) = 1 then do_replace E i M else Some M)"

end
