(* ===== verification/Handshake_Live.thy ===== *)
theory Handshake_Live
  imports Handshake
begin

text \<open>
  Two messengers negotiate a connection: the rounds of connect messages and replies end, whatever both
  sides remember of earlier connections, with both of them agreeing on the session.
\<close>

section \<open>Structures on the wire\<close>

lemma connect_round_trip [simp]: "connect_of e' (connect_bytes e x) = x"
  by (cases x) (simp add: connect_of_def connect_bytes_def field_def)

lemma reply_round_trip [simp]: "reply_of e' (reply_bytes e x) = x"
  by (cases x) (simp add: reply_of_def reply_bytes_def field_def)

section \<open>A negotiation\<close>

text \<open>
  One side sends its connect message, the other answers, possibly through the connection it hands the
  socket to, and the first draws its conclusion; \<open>s\<close> is the connection that speaks for the accepting side.
\<close>

definition client_says :: "'w menv \<Rightarrow> nat \<Rightarrow> 'w messenger \<Rightarrow> (msgr_msg_connect \<times> byte list \<times> 'w messenger) option" where
  "client_says E k M =
     (let (r, c) = send_connect_msg E (con M k)
      in if r < 0 then None
         else Some (connect_msg c, (case authorizer c of None \<Rightarrow> [] | Some a \<Rightarrow> snd a), upd_con k c M))"

definition server_answers :: "'w menv \<Rightarrow> nat \<Rightarrow> msgr_msg_connect \<Rightarrow> byte list \<Rightarrow> 'w messenger \<Rightarrow> (nat \<times> 'w messenger) option" where
  "server_answers E s x auth M =
     (case got_connect_auth E auth s (upd_con s (got_connect x (con M s)) M) of
        None \<Rightarrow> None
      | Some (r, M) \<Rightarrow>
          (if r < 0 then None
           else if cst (con M s) = STATE_CLOSED
           then (case lookup_conn (peer_addr (con M s)) M of
                   None \<Rightarrow> None
                 | Some j \<Rightarrow> map_option (\<lambda>M. (j, M)) (handle_replace E j M))
           else Some (s, M)))"

definition client_hears :: "'w menv \<Rightarrow> nat \<Rightarrow> msgr_msg_connect_reply \<Rightarrow> 'w messenger \<Rightarrow> 'w messenger option" where
  "client_hears E k y M =
     (case got_reply_auth E [] k (upd_con k (got_reply y (con M k)) M) of
        Some (True, M) \<Rightarrow> Some M
      | _ \<Rightarrow> None)"

fun negotiate :: "nat \<Rightarrow> 'w menv \<Rightarrow> 'w menv \<Rightarrow> nat \<Rightarrow> nat \<Rightarrow> 'w messenger \<Rightarrow> 'w messenger \<Rightarrow> (nat \<times> 'w messenger \<times> 'w messenger) option" where
  "negotiate 0 Ec Es k s Mc Ms = None"
| "negotiate (Suc n) Ec Es k s Mc Ms =
     (case client_says Ec k Mc of
        None \<Rightarrow> None
      | Some (x, auth, Mc) \<Rightarrow>
          (case server_answers Es s x auth Ms of
             None \<Rightarrow> None
           | Some (s, Ms) \<Rightarrow>
               (case client_hears Ec k (last (told (con Ms s))) Mc of
                  None \<Rightarrow> None
                | Some Mc \<Rightarrow>
                    (if cst (con Mc k) = STATE_CONNECTING_SEND_CONNECT_MSG then negotiate n Ec Es k s Mc Ms
                     else Some (s, Mc, Ms)))))"

text \<open>Both sides want to talk: the sockets take everything, versions, features and authorizers fit.\<close>

definition writable :: "'w menv \<Rightarrow> bool" where
  "writable E \<longleftrightarrow> (\<forall>q w. fst (take_bytes E q w) = Some (length q))"

definition willing :: "'w menv \<Rightarrow> 'w menv \<Rightarrow> policy \<Rightarrow> u32 \<Rightarrow> bool" where
  "willing Ec Es p t \<longleftrightarrow> writable Ec \<and> writable Es \<and>
     (\<forall>u v bs. fst (verify_authorizer Es u v bs) \<and> length (snd (verify_authorizer Es u v bs)) \<le> 4096) \<and>
     (\<forall>a bs. verify_reply Ec a bs) \<and>
     get_proto_version Ec t True = get_proto_version Es (my_type Ec) False \<and>
     (features_required (fst (get_policy Es (my_type Ec))) OR MSGR_FEATURE_MSG_AUTH) AND NOT (features_supported p) = 0 \<and>
     features_required p AND NOT (features_supported (fst (get_policy Es (my_type Ec)))) = 0"

lemma try_put_writable:
  assumes "writable E"
  shows "\<exists>w. try_put E bs c = (0, c\<lparr>psess := (psess c)\<lparr>outcoming_bl := []\<rparr>, wire := w\<rparr>)"
proof -
  obtain n w where t: "take_bytes E (outcoming_bl (psess c) @ bs) (wire c) = (n, w)" by (metis surj_pair)
  moreover have "n = Some (length (outcoming_bl (psess c) @ bs))" using assms t by (metis fst_conv writable_def)
  ultimately show ?thesis by (auto simp: try_put_def Let_def)
qed

lemma upd_con_simps [simp]:
  "con (upd_con i c M) = (con M)(i := c)" "conns (upd_con i c M) = conns M"
  "accepting_conns (upd_con i c M) = accepting_conns M" "msgr_global_seq (upd_con i c M) = msgr_global_seq M"
  "upd_con i c (upd_con i d M) = upd_con i c M"
  by (simp_all add: upd_con_def)

section \<open>The connecting side\<close>

text \<open>What stays of the connecting side while it retries.\<close>

definition client_at :: "policy \<Rightarrow> u32 \<Rightarrow> u32 \<Rightarrow> u32 \<Rightarrow> session \<Rightarrow> 'w peer_conn \<Rightarrow> bool" where
  "client_at p t g n s c \<longleftrightarrow> pol c = p \<and> peer_type c = t \<and> global_seq c = g \<and> connect_seq c = n \<and> psess c = s\<lparr>outcoming_bl := []\<rparr>"

lemma client_says_ok:
  assumes w: "writable E" and c: "client_at p t g n s (con M k)"
  shows "\<exists>x auth M'. client_says E k M = Some (x, auth, M') \<and> c_features x = features_supported p \<and> host_type x = my_type E \<and>
    c_global_seq x = g \<and> c_connect_seq x = n \<and> c_protocol_version x = get_proto_version E t True \<and>
    client_at p t g n s (con M' k) \<and> connect_msg (con M' k) = x \<and> msgr_global_seq M' = msgr_global_seq M"
proof -
  let ?c = "if got_bad_auth (con M k) then con M k else (con M k)\<lparr>authorizer := get_authorizer E (peer_type (con M k)) False\<rparr>"
  obtain x where x: "x = (connect_msg ?c)\<lparr>c_features := features_supported (pol ?c), host_type := my_type E, c_global_seq := global_seq ?c,
                c_connect_seq := connect_seq ?c, c_protocol_version := get_proto_version E (peer_type ?c) True,
                authorizer_protocol := (case authorizer ?c of None \<Rightarrow> 0 | Some a \<Rightarrow> fst a),
                c_authorizer_len := (case authorizer ?c of None \<Rightarrow> 0 | Some a \<Rightarrow> of_nat (length (snd a))),
                c_flags := (if lossy (psess ?c) then MSGR_MSG_CONNECT_LOSSY else 0)\<rparr>" by simp
  obtain w where p: "try_put E (connect_bytes (host_order E) x @ (case authorizer ?c of None \<Rightarrow> [] | Some a \<Rightarrow> snd a)) (?c\<lparr>connect_msg := x\<rparr>) =
      (0, ?c\<lparr>connect_msg := x, psess := (psess ?c)\<lparr>outcoming_bl := []\<rparr>, wire := w\<rparr>)"
    using try_put_writable [OF w, of "connect_bytes (host_order E) x @ (case authorizer ?c of None \<Rightarrow> [] | Some a \<Rightarrow> snd a)" "?c\<lparr>connect_msg := x\<rparr>"]
    by auto
  have "send_connect_msg E (con M k) =
      (0, ?c\<lparr>connect_msg := x, psess := (psess ?c)\<lparr>outcoming_bl := []\<rparr>, wire := w, cst := STATE_CONNECTING_WAIT_CONNECT_REPLY\<rparr>)"
    unfolding send_connect_msg_def Let_def x [symmetric] p by (simp add: then_state_def)
  then show ?thesis using c x by (simp add: client_says_def client_at_def)
qed

lemmas reply_tags = MSGR_MSGR_TAG_READY_def MSGR_MSGR_TAG_RESETSESSION_def MSGR_MSGR_TAG_WAIT_def MSGR_MSGR_TAG_RETRY_SESSION_def
  MSGR_MSGR_TAG_RETRY_GLOBAL_def MSGR_MSGR_TAG_BADPROTOVER_def MSGR_MSGR_TAG_BADAUTHORIZER_def MSGR_MSGR_TAG_FEATURES_def
  MSGR_MSGR_TAG_SEQ_def

text \<open>After a reply: the state, the reply and the numbers.\<close>

definition client_now :: "nat \<Rightarrow> conn_state \<Rightarrow> msgr_msg_connect_reply \<Rightarrow> policy \<Rightarrow> u32 \<Rightarrow> u32 \<Rightarrow> u32 \<Rightarrow> session \<Rightarrow> 'w messenger \<Rightarrow> bool" where
  "client_now k st y p t g n s M \<longleftrightarrow> cst (con M k) = st \<and> connect_reply (con M k) = y \<and> client_at p t g n s (con M k)"

lemma hears_step:
  assumes "\<forall>a bs. verify_reply E a bs" and "r_authorizer_len y \<le> 4096"
    and "\<exists>M'. handle_connect_reply E k (upd_con k (got_reply y (con M k)) M) = Some (True, M') \<and>
      client_now k st y p t g n s M' \<and> P M'"
    and "st \<noteq> STATE_CONNECTING_WAIT_CONNECT_REPLY_AUTH"
  shows "\<exists>M'. client_hears E k y M = Some M' \<and> client_now k st y p t g n s M' \<and> P M'"
proof -
  obtain M' where r: "handle_connect_reply E k (upd_con k (got_reply y (con M k)) M) = Some (True, M')"
    and n: "client_now k st y p t g n s M'" "P M'" using assms(3) by blast
  have "\<not> 4096 < r_authorizer_len y" using assms(2) by (simp add: not_less)
  then have "client_hears E k y M = Some M'"
    using r n(1) assms(1,4)
    by (auto simp: client_hears_def got_reply_auth_def Let_def client_now_def split: option.splits)
      (auto simp: got_reply_def)
  then show ?thesis using n by blast
qed

lemmas hear_simps = handle_connect_reply_def got_reply_def Let_def reply_tags client_at_def client_now_def

lemma hears_retry_session:
  assumes "\<forall>a bs. verify_reply E a bs" and "r_authorizer_len y \<le> 4096" and "client_at p t g n s (con M k)"
    and "r_tag y = MSGR_MSGR_TAG_RETRY_SESSION" and "n < r_connect_seq y"
  shows "\<exists>M'. client_hears E k y M = Some M' \<and> client_now k STATE_CONNECTING_SEND_CONNECT_MSG y p t g (r_connect_seq y) s M' \<and>
    msgr_global_seq M' = msgr_global_seq M"
  by (rule hears_step [OF assms(1,2)]) (use assms(3-) in \<open>simp_all add: hear_simps\<close>)

lemma hears_retry_global:
  assumes "\<forall>a bs. verify_reply E a bs" and "r_authorizer_len y \<le> 4096" and "client_at p t g n s (con M k)"
    and "r_tag y = MSGR_MSGR_TAG_RETRY_GLOBAL"
  shows "\<exists>M'. client_hears E k y M = Some M' \<and>
    client_now k STATE_CONNECTING_SEND_CONNECT_MSG y p t (fst (get_global_seq (r_global_seq y) M)) n s M' \<and>
    msgr_global_seq M' = fst (get_global_seq (r_global_seq y) M)"
  by (rule hears_step [OF assms(1,2)]) (use assms(3-) in \<open>simp_all add: hear_simps get_global_seq_def\<close>)

lemma hears_reset_session:
  assumes "\<forall>a bs. verify_reply E a bs" and "r_authorizer_len y \<le> 4096" and "client_at p t g n s (con M k)"
    and "r_tag y = MSGR_MSGR_TAG_RESETSESSION"
  shows "\<exists>M'. client_hears E k y M = Some M' \<and>
    client_now k STATE_CONNECTING_SEND_CONNECT_MSG y p t g 0 (psess (was_session_reset E (con M k))) M' \<and> msgr_global_seq M' = msgr_global_seq M"
  by (rule hears_step [OF assms(1,2)])
    (use assms(3-) in \<open>simp_all add: hear_simps was_session_reset_def randomize_out_seq_def discard_out_queue_def\<close>)

lemma hears_wait:
  assumes "\<forall>a bs. verify_reply E a bs" and "r_authorizer_len y \<le> 4096" and "client_at p t g n s (con M k)"
    and "r_tag y = MSGR_MSGR_TAG_WAIT"
  shows "\<exists>M'. client_hears E k y M = Some M' \<and> client_now k STATE_WAIT y p t g n s M' \<and> True"
  by (rule hears_step [OF assms(1,2)]) (use assms(3-) in \<open>simp_all add: hear_simps\<close>)

lemma hears_open:
  assumes "\<forall>a bs. verify_reply E a bs" and "r_authorizer_len y \<le> 4096" and "client_at p t g n s (con M k)"
    and "r_tag y = (if resume then MSGR_MSGR_TAG_SEQ else MSGR_MSGR_TAG_READY)" and "features_required p AND NOT (r_features y) = 0"
  shows "\<exists>M'. client_hears E k y M = Some M' \<and>
    client_now k (if resume then STATE_CONNECTING_WAIT_ACK_SEQ else STATE_CONNECTING_READY) y p t g n s M' \<and>
    connect_msg (con M' k) = connect_msg (con M k)"
  by (rule hears_step [OF assms(1,2)]) (use assms(3-) in \<open>auto simp: hear_simps\<close>)

section \<open>The accepting side\<close>

lemma reply_accept_writable:
  assumes "writable E"
  shows "\<exists>w. reply_accept E tag x y auth c =
    (0, c\<lparr>told := told c @ [y\<lparr>r_tag := tag, r_features := (c_features x AND features_supported (pol c)) OR features_required (pol c),
          r_authorizer_len := of_nat (length auth)\<rparr>], psess := (psess c)\<lparr>outcoming_bl := []\<rparr>, wire := w,
          cst := STATE_ACCEPTING_WAIT_CONNECT_MSG\<rparr>)"
proof -
  let ?y = "y\<lparr>r_tag := tag, r_features := (c_features x AND features_supported (pol c)) OR features_required (pol c),
          r_authorizer_len := of_nat (length auth)\<rparr>"
  obtain w where "try_put E (reply_bytes (host_order E) ?y @ auth) (c\<lparr>told := told c @ [?y]\<rparr>) =
      (0, c\<lparr>told := told c @ [?y], psess := (psess c)\<lparr>outcoming_bl := []\<rparr>, wire := w\<rparr>)"
    using try_put_writable [OF assms, of "reply_bytes (host_order E) ?y @ auth" "c\<lparr>told := told c @ [?y]\<rparr>"] by auto
  then show ?thesis by (auto simp: reply_accept_def Let_def)
qed

text \<open>The connection as it enters the comparison.\<close>

definition entry :: "'w menv \<Rightarrow> msgr_msg_connect \<Rightarrow> 'w peer_conn \<Rightarrow> 'w peer_conn" where
  "entry E x c =
     signature_policy E x ((got_connect x c)\<lparr>peer_type := host_type x, pol := fst (get_policy E (host_type x)),
       psess := (psess c)\<lparr>lossy := snd (get_policy E (host_type x))\<rparr>\<rparr>)"

lemma entry_facts [simp]:
  "peer_addr (entry E x c) = peer_addr c" "replacing (entry E x c) = replacing c" "queue_reset (entry E x c) = queue_reset c"
  "is_reset_from_peer (entry E x c) = is_reset_from_peer c" "told (entry E x c) = told c" "peer_type (entry E x c) = host_type x"
  "resetcheck (pol (entry E x c)) = resetcheck (fst (get_policy E (host_type x)))"
  "features_supported (pol (entry E x c)) = features_supported (fst (get_policy E (host_type x)))"
  "psess (entry E x c) = (psess c)\<lparr>lossy := snd (get_policy E (host_type x))\<rparr>"
  "replacing_sd (entry E x c) = replacing_sd c" "cst (entry E x c) = STATE_ACCEPTING_WAIT_CONNECT_MSG_AUTH"
  by (simp_all add: entry_def signature_policy_def got_connect_def)

lemma entry_features:
  assumes "(features_required (fst (get_policy E (host_type x))) OR MSGR_FEATURE_MSG_AUTH) AND NOT (c_features x) = 0"
  shows "features_required (pol (entry E x c)) AND NOT (c_features x) = 0"
proof -
  have "a AND NOT z = 0" if "(a OR b) AND NOT z = 0" for a b z :: u64
    using that by (metis bit.conj_disj_distrib2 or_eq_0_iff)
  then show ?thesis using assms by (simp add: entry_def signature_policy_def got_connect_def)
qed

definition fits :: "'w menv \<Rightarrow> msgr_msg_connect \<Rightarrow> bool" where
  "fits E x \<longleftrightarrow> writable E \<and> (\<forall>u v bs. fst (verify_authorizer E u v bs) \<and> length (snd (verify_authorizer E u v bs)) \<le> 4096) \<and>
     c_protocol_version x = get_proto_version E (host_type x) False \<and>
     (features_required (fst (get_policy E (host_type x))) OR MSGR_FEATURE_MSG_AUTH) AND NOT (c_features x) = 0"

definition judged ::
    "'w menv \<Rightarrow> nat \<Rightarrow> msgr_msg_connect \<Rightarrow> byte list \<Rightarrow> 'w messenger \<Rightarrow> (int \<times> 'w messenger) option" where
  "judged E i x auth M =
     (let y = zero_reply\<lparr>r_protocol_version := get_proto_version E (host_type x) False\<rparr>; c = con M i;
          answer = (\<lambda>tag y c M. let (r, c) = reply_accept E tag x y auth c in Some (r, upd_con i c M))
      in case judge E i x M of
           Retry_global g \<Rightarrow> answer MSGR_MSGR_TAG_RETRY_GLOBAL (y\<lparr>r_global_seq := g\<rparr>) c M
         | Retry_session n \<Rightarrow> answer MSGR_MSGR_TAG_RETRY_SESSION (y\<lparr>r_connect_seq := n\<rparr>) c M
         | Reset_session \<Rightarrow> answer MSGR_MSGR_TAG_RESETSESSION y c M
         | Keep_ours \<Rightarrow>
             (let j = the (lookup_conn (peer_addr c) M); e = con M j
              in answer MSGR_MSGR_TAG_WAIT y c (upd_con j (if cst e \<noteq> STATE_CLOSED then e\<lparr>keepalive_due := True\<rparr> else e) M))
         | Take_over reset from_peer \<Rightarrow> Some (replace_existing E i (the (lookup_conn (peer_addr c) M)) reset from_peer x y auth M)
         | Open_new \<Rightarrow> Some (open_accepted E i x y auth M)
         | Assertion \<Rightarrow> None)"

lemma got_connect_judged:
  assumes "fits E x"
  shows "\<exists>reply. length reply \<le> 4096 \<and> got_connect_auth E auth i (upd_con i (got_connect x (con M i)) M) =
    (case judged E i x reply (upd_con i (entry E x (con M i)) M) of
       None \<Rightarrow> None
     | Some (r, M) \<Rightarrow> (if 0 \<le> r \<and> cst (con M i) = STATE_ACCEPTING_WAIT_CONNECT_MSG_AUTH then None else Some (r, M)))"
proof -
  let ?c = "(got_connect x (con M i))\<lparr>peer_type := host_type x, pol := fst (get_policy E (host_type x)),
       psess := (psess (con M i))\<lparr>lossy := snd (get_policy E (host_type x))\<rparr>\<rparr>"
  obtain okay reply where v: "verify_authorizer E (host_type x) (authorizer_protocol x) auth = (okay, reply)" by (metis surj_pair)
  have f: "okay" "length reply \<le> 4096" "c_protocol_version x = get_proto_version E (host_type x) False"
    using assms v unfolding fits_def by (metis fst_conv, metis snd_conv, blast)
  have e: "signature_policy E x ?c = entry E x (con M i)" by (simp add: entry_def got_connect_def)
  have req: "features_required (pol (entry E x (con M i))) AND NOT (c_features x) = 0"
    using entry_features [of E x "con M i"] assms unfolding fits_def by blast
  have "got_connect_auth E auth i (upd_con i (got_connect x (con M i)) M) =
    (case handle_connect_msg E i x auth (upd_con i ?c M) of
       None \<Rightarrow> None
     | Some (r, M) \<Rightarrow> (if 0 \<le> r \<and> cst (con M i) = STATE_ACCEPTING_WAIT_CONNECT_MSG_AUTH then None else Some (r, M)))"
    by (simp add: got_connect_auth_def Let_def got_connect_def upd_con_def)
  moreover have "handle_connect_msg E i x auth (upd_con i ?c M) = judged E i x reply (upd_con i (entry E x (con M i)) M)"
    using f v e req by (simp add: handle_connect_msg_def judged_def Let_def cong: verdict.case_cong)
  ultimately show ?thesis using f(2) by auto
qed

lemma small_length: "n \<le> 4096 \<Longrightarrow> (of_nat n :: u32) \<le> 4096"
  by (simp add: word_le_nat_alt unat_of_nat)

text \<open>A round that ends in an answer only changes the connection that answers.\<close>

definition same_but :: "nat \<Rightarrow> 'w messenger \<Rightarrow> 'w messenger \<Rightarrow> bool" where
  "same_but s M M' \<longleftrightarrow> conns M' = conns M \<and> (\<forall>i. i \<noteq> s \<longrightarrow> con M' i = con M i) \<and>
     peer_addr (con M' s) = peer_addr (con M s) \<and> replacing (con M' s) = replacing (con M s)"

definition says :: "byte \<Rightarrow> u32 \<Rightarrow> u32 \<Rightarrow> 'w peer_conn \<Rightarrow> bool" where
  "says tag g n c \<longleftrightarrow> r_tag (last (told c)) = tag \<and> r_global_seq (last (told c)) = g \<and> r_connect_seq (last (told c)) = n \<and>
     r_authorizer_len (last (told c)) \<le> 4096"

fun spoken :: "verdict \<Rightarrow> (byte \<times> u32 \<times> u32) option" where
  "spoken (Retry_global g) = Some (MSGR_MSGR_TAG_RETRY_GLOBAL, g, 0)"
| "spoken (Retry_session n) = Some (MSGR_MSGR_TAG_RETRY_SESSION, 0, n)"
| "spoken Reset_session = Some (MSGR_MSGR_TAG_RESETSESSION, 0, 0)"
| "spoken _ = None"

abbreviation entered :: "'w menv \<Rightarrow> nat \<Rightarrow> msgr_msg_connect \<Rightarrow> 'w messenger \<Rightarrow> 'w messenger" where
  "entered E s x M \<equiv> upd_con s (entry E x (con M s)) M"

text \<open>A round on the accepting side, from the outcome of the comparison.\<close>

lemma answers_judged:
  assumes "fits E x"
    and "\<And>reply. length reply \<le> 4096 \<Longrightarrow> \<exists>M'. judged E s x reply (entered E s x M) = Some (0, M') \<and>
      cst (con M' s) \<noteq> STATE_ACCEPTING_WAIT_CONNECT_MSG_AUTH \<and> cst (con M' s) \<noteq> STATE_CLOSED \<and> P M'"
  shows "\<exists>M'. server_answers E s x auth M = Some (s, M') \<and> P M'"
proof -
  obtain reply where r: "length reply \<le> 4096" and g: "got_connect_auth E auth s (upd_con s (got_connect x (con M s)) M) =
    (case judged E s x reply (entered E s x M) of
       None \<Rightarrow> None
     | Some (r, M) \<Rightarrow> (if 0 \<le> r \<and> cst (con M s) = STATE_ACCEPTING_WAIT_CONNECT_MSG_AUTH then None else Some (r, M)))"
    using got_connect_judged [OF assms(1)] by blast
  obtain M' where "judged E s x reply (entered E s x M) = Some (0, M')"
      "cst (con M' s) \<noteq> STATE_ACCEPTING_WAIT_CONNECT_MSG_AUTH" "cst (con M' s) \<noteq> STATE_CLOSED" "P M'"
    using assms(2) [OF r] by blast
  then show ?thesis by (simp add: server_answers_def g)
qed

lemma answers_spoken:
  assumes f: "fits E x" and v: "spoken (judge E s x (entered E s x M)) = Some (tag, g, n)"
  shows "\<exists>M'. server_answers E s x auth M = Some (s, M') \<and> same_but s M M' \<and> says tag g n (con M' s)"
proof (rule answers_judged [OF f])
  fix reply :: "byte list" assume "length reply \<le> 4096"
  then have l: "(of_nat (length reply) :: u32) \<le> 4096" by (rule small_length)
  have w: "writable E" using f by (simp add: fits_def)
  let ?c = "entry E x (con M s)"
  have ans: "\<exists>M'. (let (r, c) = reply_accept E tag x y reply ?c in Some (r, upd_con s c (entered E s x M))) = Some (0, M') \<and>
      cst (con M' s) \<noteq> STATE_ACCEPTING_WAIT_CONNECT_MSG_AUTH \<and> cst (con M' s) \<noteq> STATE_CLOSED \<and> same_but s M M' \<and>
      says tag (r_global_seq y) (r_connect_seq y) (con M' s)" for tag y
    using reply_accept_writable [OF w, of tag x y reply ?c] l by (auto simp: same_but_def says_def)
  note ans [of tag "zero_reply\<lparr>r_protocol_version := get_proto_version E (host_type x) False, r_global_seq := g, r_connect_seq := n\<rparr>"]
  with v show "\<exists>M'. judged E s x reply (entered E s x M) = Some (0, M') \<and>
      cst (con M' s) \<noteq> STATE_ACCEPTING_WAIT_CONNECT_MSG_AUTH \<and> cst (con M' s) \<noteq> STATE_CLOSED \<and>
      same_but s M M' \<and> says tag g n (con M' s)"
    by (cases "judge E s x (entered E s x M)") (auto simp: judged_def Let_def zero_reply_def)
qed


text \<open>An existing connection that can be taken over.\<close>

definition replaceable :: "'w peer_conn \<Rightarrow> bool" where
  "replaceable e \<longleftrightarrow> replacing e = 0 \<and> cst e \<noteq> STATE_CLOSED \<and> \<not> conn_stopping e \<and> cst e \<noteq> STATE_OPEN_TAG_CLOSE"

lemma answers_keep:
  assumes f: "fits E x" and v: "judge E s x (entered E s x M) = Keep_ours"
    and j: "conns M (peer_addr (con M s)) = Some j" "j \<noteq> s" "replaceable (con M j)"
  shows "\<exists>M'. server_answers E s x auth M = Some (s, M') \<and> says MSGR_MSGR_TAG_WAIT 0 0 (con M' s) \<and>
    conns M' = conns M \<and> keepalive_due (con M' j)"
proof (rule answers_judged [OF f])
  fix reply :: "byte list" assume "length reply \<le> 4096"
  then have l: "(of_nat (length reply) :: u32) \<le> 4096" by (rule small_length)
  have w: "writable E" using f by (simp add: fits_def)
  show "\<exists>M'. judged E s x reply (entered E s x M) = Some (0, M') \<and>
      cst (con M' s) \<noteq> STATE_ACCEPTING_WAIT_CONNECT_MSG_AUTH \<and> cst (con M' s) \<noteq> STATE_CLOSED \<and>
      says MSGR_MSGR_TAG_WAIT 0 0 (con M' s) \<and> conns M' = conns M \<and> keepalive_due (con M' j)"
    using reply_accept_writable [OF w, of MSGR_MSGR_TAG_WAIT x
        "zero_reply\<lparr>r_protocol_version := get_proto_version E (host_type x) False\<rparr>" reply "entry E x (con M s)"] l v j
    by (auto simp: judged_def Let_def says_def zero_reply_def lookup_conn_def replaceable_def)
qed

text \<open>Taking the socket over: the peer is asked to try again, one number up.\<close>

lemma was_session_reset_keeps [simp]:
  "replacing (was_session_reset E c) = replacing c" "peer_addr (was_session_reset E c) = peer_addr c"
  "replacing_connect (was_session_reset E c) = replacing_connect c" "replacing_sd (was_session_reset E c) = replacing_sd c"
  "replacing_authorizer_reply (was_session_reset E c) = replacing_authorizer_reply c"
  "is_reset_from_peer (was_session_reset E c) = is_reset_from_peer c" "told (was_session_reset E c) = told c"
  "replacing_reset_session (was_session_reset E c) = replacing_reset_session c"
  "replacing_buf (was_session_reset E c) = replacing_buf c"
  by (simp_all add: was_session_reset_def Let_def split: prod.split)

text \<open>A session without the loss policy and the bytes that wait.\<close>

definition bare :: "session \<Rightarrow> session" where
  "bare s = s\<lparr>lossy := False, outcoming_bl := []\<rparr>"

lemma bare_update [simp]: "bare (s\<lparr>outcoming_bl := x\<rparr>) = bare s" "bare (s\<lparr>lossy := b\<rparr>) = bare s" "in_seq (bare s) = in_seq s"
  by (simp_all add: bare_def)

lemma bare_requeue: "bare (requeue_sent s) = requeue_sent (bare s)"
  by (simp add: bare_def requeue_sent_def Let_def split: prod.split)

lemma bare_discard: "bare (discard_requeued_up_to n s) = discard_requeued_up_to n (bare s)"
  by (simp add: bare_def discard_requeued_up_to_def Let_def split: option.split prod.split)

lemma handle_replace_says:
  assumes w: "writable E" and c: "replacing (con M j) = 1" "replacing_sd (con M j) = Some v"
    and l: "length (replacing_authorizer_reply (con M j)) \<le> 4096"
  shows "\<exists>M'. handle_replace E j M = Some M' \<and> says MSGR_MSGR_TAG_RETRY_SESSION (r_global_seq (junk_reply E))
      (c_connect_seq (replacing_connect (con M j)) + 1) (con M' j) \<and> replacing (con M' j) = 2 \<and>
    peer_addr (con M' j) = peer_addr (con M j) \<and> conns M' = conns M \<and>
    is_reset_from_peer (con M' j) = is_reset_from_peer (con M j) \<and>
    (\<not> replacing_reset_session (con M j) \<longrightarrow> bare (psess (con M' j)) = bare (requeue_sent (psess (con M j))))"
proof -
  let ?c = "if replacing_reset_session (con M j) then was_session_reset E ((con M j)\<lparr>replacing_reset_session := False\<rparr>) else con M j"
  let ?d = "?c\<lparr>wire := v, has_sd := True, replacing_sd := None, recv_bytes := replacing_buf ?c, recv_from := 0,
       recv_to := length (replacing_buf ?c), replacing_buf := [], reconnect_in := (if replacing_buf ?c \<noteq> [] then Some 0 else reconnect_in ?c)\<rparr>"
  let ?e = "?d\<lparr>psess := requeue_sent ((psess ?d)\<lparr>outcoming_bl := []\<rparr>), replacing := 2, cst := STATE_ACCEPTING_WAIT_CONNECT_MSG\<rparr>"
  let ?y = "(junk_reply E)\<lparr>r_connect_seq := c_connect_seq (replacing_connect ?e) + 1\<rparr>"
  obtain u where "reply_accept E MSGR_MSGR_TAG_RETRY_SESSION (replacing_connect ?e) ?y (replacing_authorizer_reply ?e) ?e =
    (0, ?e\<lparr>told := told ?e @ [?y\<lparr>r_tag := MSGR_MSGR_TAG_RETRY_SESSION,
          r_features := (c_features (replacing_connect ?e) AND features_supported (pol ?e)) OR features_required (pol ?e),
          r_authorizer_len := of_nat (length (replacing_authorizer_reply ?e))\<rparr>], psess := (psess ?e)\<lparr>outcoming_bl := []\<rparr>, wire := u,
          cst := STATE_ACCEPTING_WAIT_CONNECT_MSG\<rparr>)" (is "_ = (0, ?f)")
    using reply_accept_writable [OF w, of MSGR_MSGR_TAG_RETRY_SESSION "replacing_connect ?e" ?y "replacing_authorizer_reply ?e" ?e] by blast
  then have "handle_replace E j M = Some (upd_con j (?f\<lparr>replacing_authorizer_reply := []\<rparr>) M)"
    unfolding handle_replace_def do_replace_def Let_def using c by simp
  then show ?thesis using l by (simp add: says_def small_length bare_requeue)
qed


definition taking_over :: "nat \<Rightarrow> bool \<Rightarrow> bool \<Rightarrow> 'w messenger \<Rightarrow> 'w messenger \<Rightarrow> bool" where
  "taking_over j reset from_peer M M' \<longleftrightarrow> replacing (con M' j) = 2 \<and> conns M' = conns M \<and> peer_addr (con M' j) = peer_addr (con M j) \<and>
     is_reset_from_peer (con M' j) = from_peer \<and> (\<not> reset \<longrightarrow> bare (psess (con M' j)) = bare (requeue_sent (psess (con M j))))"

lemma answers_take_over:
  assumes f: "fits E x" and v: "judge E s x (entered E s x M) = Take_over reset from_peer"
    and j: "conns M (peer_addr (con M s)) = Some j" "j \<noteq> s" "replaceable (con M j)"
  shows "\<exists>M' g. server_answers E s x auth M = Some (j, M') \<and> taking_over j reset from_peer M M' \<and>
    says MSGR_MSGR_TAG_RETRY_SESSION g (c_connect_seq x + 1) (con M' j)"
proof -
  obtain reply where r: "length reply \<le> 4096" and g: "got_connect_auth E auth s (upd_con s (got_connect x (con M s)) M) =
    (case judged E s x reply (entered E s x M) of
       None \<Rightarrow> None
     | Some (r, M) \<Rightarrow> (if 0 \<le> r \<and> cst (con M s) = STATE_ACCEPTING_WAIT_CONNECT_MSG_AUTH then None else Some (r, M)))"
    using got_connect_judged [OF f] by blast
  let ?c = "entry E x (con M s)"
  let ?e = "(con M j)\<lparr>replacing := 1, replacing_reset_session := reset, replacing_sd := Some (wire ?c), is_reset_from_peer := from_peer,
      replacing_connect := x, replacing_authorizer_reply := reply, replacing_buf := take (recv_to ?c - recv_from ?c) (recv_bytes ?c)\<rparr>"
  let ?N = "stop_conn s (upd_con j ?e (upd_con s (?c\<lparr>has_sd := False\<rparr>) M))"
  obtain N where N_def: "N = ?N" by simp
  have N: "conns N = conns M" "con N j = ?e" "cst (con N s) = STATE_CLOSED" "peer_addr (con N s) = peer_addr (con M s)"
    using j by (simp_all add: stop_conn_def unregister_conn_def Let_def N_def)
  have "judged E s x reply (entered E s x M) = Some (0, N)"
    using v j by (simp add: N_def) (simp add: judged_def Let_def replace_existing_def lookup_conn_def replaceable_def)
  then have "server_answers E s x auth M = map_option (\<lambda>M. (j, M)) (handle_replace E j N)"
    using N j(1) by (simp add: server_answers_def g lookup_conn_def)
  moreover have "writable E" using f by (simp add: fits_def)
  then obtain M' where "handle_replace E j N = Some M'"
      "says MSGR_MSGR_TAG_RETRY_SESSION (r_global_seq (junk_reply E)) (c_connect_seq x + 1) (con M' j)" "taking_over j reset from_peer M M'"
    using handle_replace_says [of E N j "wire ?c"] N r by (auto simp: taking_over_def)
  ultimately show ?thesis by auto
qed

text \<open>Opening: the connection is registered, and its number is one above the peer's.\<close>

lemma try_put_then:
  assumes "writable E"
  shows "then_state st (try_put E bs c) = (0, c\<lparr>psess := (psess c)\<lparr>outcoming_bl := []\<rparr>,
    wire := snd (take_bytes E (outcoming_bl (psess c) @ bs) (wire c)), cst := st\<rparr>)"
proof -
  obtain n w where t: "take_bytes E (outcoming_bl (psess c) @ bs) (wire c) = (n, w)" by (metis surj_pair)
  moreover have "n = Some (length (outcoming_bl (psess c) @ bs))" using assms t by (metis fst_conv writable_def)
  ultimately show ?thesis by (auto simp: try_put_def Let_def then_state_def)
qed

definition opened :: "nat \<Rightarrow> bool \<Rightarrow> session \<Rightarrow> msgr_msg_connect \<Rightarrow> 'w messenger \<Rightarrow> bool" where
  "opened s resume ss x M \<longleftrightarrow> (resume \<longrightarrow> bare (psess (con M s)) = bare ss) \<and> conns M (peer_addr (con M s)) = Some s \<and> replacing (con M s) = 0 \<and>
     cst (con M s) = (if resume then STATE_ACCEPTING_WAIT_SEQ else STATE_ACCEPTING_READY) \<and>
     connect_seq (con M s) = c_connect_seq x + 1 \<and> peer_global_seq (con M s) = c_global_seq x \<and>
     conn_features (con M s) = r_features (last (told (con M s))) AND c_features x \<and>
     lossy (psess (con M s)) = (r_flags (last (told (con M s))) AND MSGR_MSG_CONNECT_LOSSY \<noteq> 0)"

lemma opened_lossy [simp]: "opened s r (ss\<lparr>lossy := b\<rparr>) x M = opened s r ss x M"
  by (simp add: opened_def)

lemma accept_conn_free:
  assumes "conns M (peer_addr (con M i)) \<in> {None, Some i}"
  shows "accept_conn i M = (0, M\<lparr>conns := (conns M)(peer_addr (con M i) \<mapsto> i), accepting_conns := accepting_conns M - {i}\<rparr>)"
  using assms by (auto simp: accept_conn_def Let_def)

lemma discard_keeps_lossy [simp]: "lossy (discard_requeued_up_to n s) = lossy s"
  by (simp add: discard_requeued_up_to_def Let_def split: option.split prod.split)

lemma as_opened_resumes [simp]: "psess (as_opened True x c) = psess c"
  by (simp add: as_opened_def)

lemma as_opened_facts [simp]:
  "connect_seq (as_opened r x c) = c_connect_seq x + 1" "peer_global_seq (as_opened r x c) = c_global_seq x"
  "conn_features (as_opened r x c) = features_supported (pol c) AND c_features x" "pol (as_opened r x c) = pol c"
  "replacing (as_opened r x c) = replacing c" "queue_reset (as_opened r x c) = queue_reset c" "told (as_opened r x c) = told c"
  "peer_addr (as_opened r x c) = peer_addr c" "lossy (psess (as_opened r x c)) = lossy (psess c)"
  by (simp_all add: as_opened_def Let_def)



lemma announce_facts [simp]:
  "connect_seq (announce_accept c) = connect_seq c" "peer_global_seq (announce_accept c) = peer_global_seq c"
  "conn_features (announce_accept c) = conn_features c" "told (announce_accept c) = told c"
  "peer_addr (announce_accept c) = peer_addr c" "psess (announce_accept c) = psess c"
  by (simp_all add: announce_accept_def)

lemma open_reply_facts [simp]:
  "r_connect_seq (open_reply r g y auth c) = connect_seq c" "r_features (open_reply r g y auth c) = features_supported (pol c)"
  "r_tag (open_reply r g y auth c) = (if r then MSGR_MSGR_TAG_SEQ else MSGR_MSGR_TAG_READY)"
  "r_authorizer_len (open_reply r g y auth c) = of_nat (length auth)"
  "r_flags (open_reply r g y auth c) AND MSGR_MSG_CONNECT_LOSSY \<noteq> 0 \<longleftrightarrow> lossy (psess c)"
  by (simp_all add: open_reply_def MSGR_MSG_CONNECT_LOSSY_def)

lemma get_global_seq_keeps:
  "get_global_seq n M = (g, N) \<Longrightarrow> conns N = conns M" "get_global_seq n M = (g, N) \<Longrightarrow> con N = con M"
  by (auto simp: get_global_seq_def Let_def)

lemma open_accepted_opens:
  assumes w: "writable E" and a: "conns M (peer_addr (con M s)) \<in> {None, Some s}" and l: "length reply \<le> 4096"
  shows "\<exists>M' g. open_accepted E s x y reply M = (0, M') \<and> opened s (resumes (con M s)) (psess (con M s)) x M' \<and>
    says (if resumes (con M s) then MSGR_MSGR_TAG_SEQ else MSGR_MSGR_TAG_READY) g (c_connect_seq x + 1) (con M' s) \<and>
    r_features (last (told (con M' s))) = features_supported (pol (con M s)) \<and> peer_addr (con M' s) = peer_addr (con M s)"
proof -
  obtain g N where g: "get_global_seq 0 M = (g, N)" by (metis surj_pair)
  let ?c = "as_opened (resumes (con M s)) x (con M s)"
  have "accept_conn s (upd_con s ?c N) =
      (0, (upd_con s ?c N)\<lparr>conns := (conns N)(peer_addr (con M s) \<mapsto> s), accepting_conns := accepting_conns N - {s}\<rparr>)"
    using accept_conn_free [of "upd_con s ?c N" s] a get_global_seq_keeps [OF g] by simp
  then show ?thesis
    by (simp add: open_accepted_def Let_def g try_put_then [OF w] opened_def says_def small_length [OF l])
qed


lemma resumes_entry [simp]: "resumes (entry E x c) = resumes c"
  by (simp add: resumes_def)

lemma answers_open:
  assumes f: "fits E x" and v: "judge E s x (entered E s x M) = Open_new" and a: "conns M (peer_addr (con M s)) \<in> {None, Some s}"
  shows "\<exists>M'. server_answers E s x auth M = Some (s, M') \<and> (\<exists>g. opened s (resumes (con M s)) (psess (con M s)) x M' \<and>
    says (if resumes (con M s) then MSGR_MSGR_TAG_SEQ else MSGR_MSGR_TAG_READY) g (c_connect_seq x + 1) (con M' s) \<and>
    r_features (last (told (con M' s))) = features_supported (fst (get_policy E (host_type x))) \<and> peer_addr (con M' s) = peer_addr (con M s))"
proof (rule answers_judged [OF f])
  fix reply :: "byte list" assume l: "length reply \<le> 4096"
  have w: "writable E" using f by (simp add: fits_def)
  have a': "conns (entered E s x M) (peer_addr (con (entered E s x M) s)) \<in> {None, Some s}" using a by simp
  obtain M' g where o: "open_accepted E s x (zero_reply\<lparr>r_protocol_version := get_proto_version E (host_type x) False\<rparr>) reply (entered E s x M) = (0, M')"
    and M': "opened s (resumes (con M s)) (psess (con M s)) x M'"
      "says (if resumes (con M s) then MSGR_MSGR_TAG_SEQ else MSGR_MSGR_TAG_READY) g (c_connect_seq x + 1) (con M' s)"
      "r_features (last (told (con M' s))) = features_supported (fst (get_policy E (host_type x)))" "peer_addr (con M' s) = peer_addr (con M s)"
    using open_accepted_opens [OF w a' l, of x "zero_reply\<lparr>r_protocol_version := get_proto_version E (host_type x) False\<rparr>"] by auto
  have j: "judged E s x reply (entered E s x M) = Some (0, M')" using v o by (simp add: judged_def Let_def)
  have c: "cst (con M' s) \<noteq> STATE_ACCEPTING_WAIT_CONNECT_MSG_AUTH" "cst (con M' s) \<noteq> STATE_CLOSED"
    using M'(1) by (simp_all add: opened_def)
  show "\<exists>M'. judged E s x reply (entered E s x M) = Some (0, M') \<and> cst (con M' s) \<noteq> STATE_ACCEPTING_WAIT_CONNECT_MSG_AUTH \<and>
      cst (con M' s) \<noteq> STATE_CLOSED \<and> (\<exists>g. opened s (resumes (con M s)) (psess (con M s)) x M' \<and>
    says (if resumes (con M s) then MSGR_MSGR_TAG_SEQ else MSGR_MSGR_TAG_READY) g (c_connect_seq x + 1) (con M' s) \<and>
    r_features (last (told (con M' s))) = features_supported (fst (get_policy E (host_type x))) \<and> peer_addr (con M' s) = peer_addr (con M s))"
    using j M' c by blast
qed

section \<open>Rounds\<close>

text \<open>
  What the two sides agree on when the negotiation is over: the connecting side waits for the other's own
  attempt, or both hold the same session number, features and loss policy, and the assertion of
  \<^verbatim>\<open>STATE_CONNECTING_READY\<close> holds.
\<close>

definition agree :: "addr \<Rightarrow> 'w peer_conn \<Rightarrow> nat \<Rightarrow> 'w messenger \<Rightarrow> bool" where
  "agree a c s M \<longleftrightarrow>
     cst c = STATE_WAIT \<and> (\<exists>j. j \<noteq> s \<and> conns M a = Some j \<and> keepalive_due (con M j)) \<or>
     conns M a = Some s \<and>
     (cst c, cst (con M s)) \<in> {(STATE_CONNECTING_WAIT_ACK_SEQ, STATE_ACCEPTING_WAIT_SEQ), (STATE_CONNECTING_READY, STATE_ACCEPTING_READY)} \<and>
     (case connecting_ready c of
        None \<Rightarrow> False
      | Some d \<Rightarrow> connect_seq d = connect_seq (con M s) \<and> conn_features d = conn_features (con M s) \<and>
          lossy (psess d) = lossy (psess (con M s)) \<and> peer_global_seq (con M s) = global_seq d)"

text \<open>The session goes on: nothing of it is lost on either side.\<close>

definition resumed :: "session \<Rightarrow> session \<Rightarrow> 'w peer_conn \<Rightarrow> 'w peer_conn \<Rightarrow> bool" where
  "resumed ss ps c d \<longleftrightarrow> cst c = STATE_CONNECTING_WAIT_ACK_SEQ \<and> bare (psess c) = bare ss \<and> outcoming_bl (psess c) = [] \<and>
     bare (psess d) = bare ps"

definition settled :: "('w peer_conn \<Rightarrow> 'w peer_conn \<Rightarrow> bool) \<Rightarrow> nat \<Rightarrow> 'w menv \<Rightarrow> 'w menv \<Rightarrow> addr \<Rightarrow> nat \<Rightarrow> nat \<Rightarrow> 'w messenger \<Rightarrow> 'w messenger \<Rightarrow> bool" where
  "settled Q m Ec Es a k s Mc Ms \<longleftrightarrow>
     (case negotiate m Ec Es k s Mc Ms of None \<Rightarrow> False | Some (s, Mc, Ms) \<Rightarrow> agree a (con Mc k) s Ms \<and> Q (con Mc k) (con Ms s))"

definition carries :: "'w menv \<Rightarrow> policy \<Rightarrow> u32 \<Rightarrow> u32 \<Rightarrow> msgr_msg_connect \<Rightarrow> bool" where
  "carries Ec p g n x \<longleftrightarrow> c_features x = features_supported p \<and> host_type x = my_type Ec \<and> c_global_seq x = g \<and> c_connect_seq x = n"

lemma round:
  assumes W: "willing Ec Es p t" and c: "client_at p t g n ss (con Mc k)"
    and ans: "\<And>x auth. fits Es x \<Longrightarrow> carries Ec p g n x \<Longrightarrow> \<exists>Ms'. server_answers Es s x auth Ms = Some (s', Ms') \<and> Q x Ms'"
  shows "\<exists>x Mc' Ms'. Q x Ms' \<and> carries Ec p g n x \<and> client_at p t g n ss (con Mc' k) \<and> connect_msg (con Mc' k) = x \<and>
    msgr_global_seq Mc' = msgr_global_seq Mc \<and>
    negotiate (Suc m) Ec Es k s Mc Ms =
      (case client_hears Ec k (last (told (con Ms' s'))) Mc' of
         None \<Rightarrow> None
       | Some Mc \<Rightarrow> (if cst (con Mc k) = STATE_CONNECTING_SEND_CONNECT_MSG then negotiate m Ec Es k s' Mc Ms' else Some (s', Mc, Ms')))"
proof -
  have "writable Ec" using W by (simp add: willing_def)
  then obtain x auth Mc' where x: "client_says Ec k Mc = Some (x, auth, Mc')" "c_features x = features_supported p" "host_type x = my_type Ec"
      "c_global_seq x = g" "c_connect_seq x = n" "c_protocol_version x = get_proto_version Ec t True"
    and c': "client_at p t g n ss (con Mc' k)" "connect_msg (con Mc' k) = x" "msgr_global_seq Mc' = msgr_global_seq Mc"
    using client_says_ok [OF _ c] by blast
  have "fits Es x" using W x by (simp add: fits_def willing_def)
  moreover have cx: "carries Ec p g n x" using x by (simp add: carries_def)
  ultimately obtain Ms' where "server_answers Es s x auth Ms = Some (s', Ms')" "Q x Ms'" using ans by blast
  then show ?thesis using x(1) cx c' by (intro exI [of _ x] exI [of _ Mc'] exI [of _ Ms']) simp
qed


declare negotiate.simps(2) [simp del]

lemma willing_hears: "willing Ec Es p t \<Longrightarrow> \<forall>a bs. verify_reply Ec a bs"
  unfolding willing_def by blast

lemma accepting_round:
  assumes W: "willing Ec Es p t" and c: "client_at p t g n ss (con Mc k)"
    and a: "peer_addr (con Ms s) = a" "conns Ms a \<in> {None, Some s}"
    and v: "\<And>x. carries Ec p g n x \<Longrightarrow> judge Es s x (entered Es s x Ms) = Open_new"
    and q: "\<And>c d. (resumes (con Ms s) \<longrightarrow> resumed ss (psess (con Ms s)) c d) \<Longrightarrow> Q c d"
  shows "settled Q (Suc m) Ec Es a k s Mc Ms"
proof -
  let ?r = "resumes (con Ms s)"
  have "\<exists>x Mc' Ms'. (\<exists>h. opened s ?r (psess (con Ms s)) x Ms' \<and>
      says (if ?r then MSGR_MSGR_TAG_SEQ else MSGR_MSGR_TAG_READY) h (c_connect_seq x + 1) (con Ms' s) \<and>
      r_features (last (told (con Ms' s))) = features_supported (fst (get_policy Es (host_type x))) \<and> peer_addr (con Ms' s) = peer_addr (con Ms s)) \<and>
    carries Ec p g n x \<and> client_at p t g n ss (con Mc' k) \<and> connect_msg (con Mc' k) = x \<and> msgr_global_seq Mc' = msgr_global_seq Mc \<and>
    negotiate (Suc m) Ec Es k s Mc Ms =
      (case client_hears Ec k (last (told (con Ms' s))) Mc' of
         None \<Rightarrow> None
       | Some Mc \<Rightarrow> (if cst (con Mc k) = STATE_CONNECTING_SEND_CONNECT_MSG then negotiate m Ec Es k s Mc Ms' else Some (s, Mc, Ms')))"
    by (rule round [OF W c]) (use answers_open v a in blast)
  then obtain x Mc' Ms' h where o: "opened s ?r (psess (con Ms s)) x Ms'"
      "says (if ?r then MSGR_MSGR_TAG_SEQ else MSGR_MSGR_TAG_READY) h (c_connect_seq x + 1) (con Ms' s)"
      "r_features (last (told (con Ms' s))) = features_supported (fst (get_policy Es (host_type x)))" "peer_addr (con Ms' s) = peer_addr (con Ms s)"
    and x: "carries Ec p g n x" and c': "client_at p t g n ss (con Mc' k)" "connect_msg (con Mc' k) = x"
    and n: "negotiate (Suc m) Ec Es k s Mc Ms =
      (case client_hears Ec k (last (told (con Ms' s))) Mc' of
         None \<Rightarrow> None
       | Some Mc \<Rightarrow> (if cst (con Mc k) = STATE_CONNECTING_SEND_CONNECT_MSG then negotiate m Ec Es k s Mc Ms' else Some (s, Mc, Ms')))" by blast
  let ?y = "last (told (con Ms' s))"
  have y: "r_authorizer_len ?y \<le> 4096" "r_tag ?y = (if ?r then MSGR_MSGR_TAG_SEQ else MSGR_MSGR_TAG_READY)"
      "r_connect_seq ?y = n + 1" "features_required p AND NOT (r_features ?y) = 0"
    using o x W unfolding says_def carries_def willing_def by simp_all
  obtain Mc'' where hears: "client_hears Ec k ?y Mc' = Some Mc''"
    and now: "client_now k (if ?r then STATE_CONNECTING_WAIT_ACK_SEQ else STATE_CONNECTING_READY) ?y p t g n ss Mc''"
    and msg: "connect_msg (con Mc'' k) = x"
    using hears_open [OF willing_hears [OF W] y(1) c'(1) y(2) y(4)] c'(2) by blast
  have neg: "negotiate (Suc m) Ec Es k s Mc Ms = Some (s, Mc'', Ms')" using n hears now by (simp add: client_now_def)
  have "agree a (con Mc'' k) s Ms'"
    using now msg o(1,4) x a(1) y(3)
    by (simp add: agree_def client_now_def client_at_def opened_def carries_def connecting_ready_def Let_def)
  moreover have "Q (con Mc'' k) (con Ms' s)"
    by (rule q) (use now o(1) in \<open>simp add: resumed_def client_now_def client_at_def opened_def\<close>)
  ultimately show ?thesis unfolding settled_def neg by simp
qed


text \<open>The existing connection \<open>j\<close> of the peer at \<open>a\<close>, next to the one that accepts.\<close>

definition beside :: "addr \<Rightarrow> nat \<Rightarrow> nat \<Rightarrow> 'w peer_conn \<Rightarrow> 'w messenger \<Rightarrow> bool" where
  "beside a s j e M \<longleftrightarrow> peer_addr (con M s) = a \<and> conns M a = Some j \<and> j \<noteq> s \<and> con M j = e \<and> peer_addr e = a \<and> replaceable e"

lemma beside_same: "beside a s j e M \<Longrightarrow> same_but s M M' \<Longrightarrow> beside a s j e M'"
  by (auto simp: beside_def same_but_def)

lemma round_wait:
  assumes W: "willing Ec Es p t" and c: "client_at p t g n ss (con Mc k)" and b: "beside a s j e Ms"
    and v: "\<And>x. carries Ec p g n x \<Longrightarrow> judge Es s x (entered Es s x Ms) = Keep_ours"
  shows "settled (\<lambda>_ _. True) (Suc m) Ec Es a k s Mc Ms"
proof -
  have jj: "conns Ms (peer_addr (con Ms s)) = Some j" "j \<noteq> s" "replaceable (con Ms j)" using b by (auto simp: beside_def)
  have "\<exists>x Mc' Ms'. (says MSGR_MSGR_TAG_WAIT 0 0 (con Ms' s) \<and> conns Ms' = conns Ms \<and> keepalive_due (con Ms' j)) \<and>
    carries Ec p g n x \<and> client_at p t g n ss (con Mc' k) \<and> connect_msg (con Mc' k) = x \<and> msgr_global_seq Mc' = msgr_global_seq Mc \<and>
    negotiate (Suc m) Ec Es k s Mc Ms =
      (case client_hears Ec k (last (told (con Ms' s))) Mc' of
         None \<Rightarrow> None
       | Some Mc \<Rightarrow> (if cst (con Mc k) = STATE_CONNECTING_SEND_CONNECT_MSG then negotiate m Ec Es k s Mc Ms' else Some (s, Mc, Ms')))"
    by (rule round [OF W c]) (use answers_keep [OF _ _ jj] v in blast)
  then obtain Mc' Ms' where o: "says MSGR_MSGR_TAG_WAIT 0 0 (con Ms' s)" "conns Ms' = conns Ms" "keepalive_due (con Ms' j)" and c': "client_at p t g n ss (con Mc' k)"
    and n: "negotiate (Suc m) Ec Es k s Mc Ms =
      (case client_hears Ec k (last (told (con Ms' s))) Mc' of
         None \<Rightarrow> None
       | Some Mc \<Rightarrow> (if cst (con Mc k) = STATE_CONNECTING_SEND_CONNECT_MSG then negotiate m Ec Es k s Mc Ms' else Some (s, Mc, Ms')))" by blast
  let ?y = "last (told (con Ms' s))"
  have y: "r_authorizer_len ?y \<le> 4096" "r_tag ?y = MSGR_MSGR_TAG_WAIT" using o(1) by (simp_all add: says_def)
  obtain Mc'' where "client_hears Ec k ?y Mc' = Some Mc''" "client_now k STATE_WAIT ?y p t g n ss Mc''"
    using hears_wait [OF willing_hears [OF W] y(1) c' y(2)] by blast
  then show ?thesis using o(2,3) b unfolding settled_def n by (auto simp: client_now_def agree_def beside_def)
qed

lemma round_spoken:
  assumes W: "willing Ec Es p t" and c: "client_at p t g n ss (con Mc k)"
    and v: "\<And>x. carries Ec p g n x \<Longrightarrow> spoken (judge Es s x (entered Es s x Ms)) = Some (tag, h, n')"
  shows "\<exists>Mc' Ms'. same_but s Ms Ms' \<and> says tag h n' (con Ms' s) \<and> client_at p t g n ss (con Mc' k) \<and>
    msgr_global_seq Mc' = msgr_global_seq Mc \<and>
    negotiate (Suc m) Ec Es k s Mc Ms =
      (case client_hears Ec k (last (told (con Ms' s))) Mc' of
         None \<Rightarrow> None
       | Some Mc \<Rightarrow> (if cst (con Mc k) = STATE_CONNECTING_SEND_CONNECT_MSG then negotiate m Ec Es k s Mc Ms' else Some (s, Mc, Ms')))"
proof -
  have "\<exists>x Mc' Ms'. (same_but s Ms Ms' \<and> says tag h n' (con Ms' s)) \<and>
    carries Ec p g n x \<and> client_at p t g n ss (con Mc' k) \<and> connect_msg (con Mc' k) = x \<and> msgr_global_seq Mc' = msgr_global_seq Mc \<and>
    negotiate (Suc m) Ec Es k s Mc Ms =
      (case client_hears Ec k (last (told (con Ms' s))) Mc' of
         None \<Rightarrow> None
       | Some Mc \<Rightarrow> (if cst (con Mc k) = STATE_CONNECTING_SEND_CONNECT_MSG then negotiate m Ec Es k s Mc Ms' else Some (s, Mc, Ms')))"
    by (rule round [OF W c]) (use answers_spoken v in blast)
  then show ?thesis by blast
qed

text \<open>A retry: the same question again with other numbers.\<close>

definition retries :: "nat \<Rightarrow> 'w menv \<Rightarrow> 'w menv \<Rightarrow> nat \<Rightarrow> nat \<Rightarrow> 'w messenger \<Rightarrow> 'w messenger \<Rightarrow> 'w messenger \<Rightarrow> 'w messenger \<Rightarrow> bool" where
  "retries m Ec Es k s Mc Ms Mc' Ms' \<longleftrightarrow> same_but s Ms Ms' \<and> negotiate (Suc m) Ec Es k s Mc Ms = negotiate m Ec Es k s Mc' Ms'"

lemma settled_retry: "retries m Ec Es k s Mc Ms Mc' Ms' \<Longrightarrow> settled Q m Ec Es a k s Mc' Ms' \<Longrightarrow> settled Q (Suc m) Ec Es a k s Mc Ms"
  unfolding settled_def retries_def by simp

lemma round_retry_session:
  assumes W: "willing Ec Es p t" and c: "client_at p t g n ss (con Mc k)" and n: "n < n'"
    and v: "\<And>x. carries Ec p g n x \<Longrightarrow> judge Es s x (entered Es s x Ms) = Retry_session n'"
  shows "\<exists>Mc' Ms'. retries m Ec Es k s Mc Ms Mc' Ms' \<and> client_at p t g n' ss (con Mc' k)"
proof -
  obtain Mc' Ms' where o: "same_but s Ms Ms'" "says MSGR_MSGR_TAG_RETRY_SESSION 0 n' (con Ms' s)" "client_at p t g n ss (con Mc' k)"
    and neg: "negotiate (Suc m) Ec Es k s Mc Ms =
      (case client_hears Ec k (last (told (con Ms' s))) Mc' of
         None \<Rightarrow> None
       | Some Mc \<Rightarrow> (if cst (con Mc k) = STATE_CONNECTING_SEND_CONNECT_MSG then negotiate m Ec Es k s Mc Ms' else Some (s, Mc, Ms')))"
    using round_spoken [OF W c, of s Ms MSGR_MSGR_TAG_RETRY_SESSION 0 n' m] v by fastforce
  have y: "r_authorizer_len (last (told (con Ms' s))) \<le> 4096" "r_tag (last (told (con Ms' s))) = MSGR_MSGR_TAG_RETRY_SESSION"
      "n < r_connect_seq (last (told (con Ms' s)))" "r_connect_seq (last (told (con Ms' s))) = n'"
    using o(2) n by (simp_all add: says_def)
  show ?thesis using hears_retry_session [OF willing_hears [OF W] y(1) o(3) y(2,3)] o(1) y(4)
    unfolding retries_def neg client_now_def by fastforce
qed

lemma round_retry_global:
  assumes W: "willing Ec Es p t" and c: "client_at p t g n ss (con Mc k)"
    and v: "\<And>x. carries Ec p g n x \<Longrightarrow> judge Es s x (entered Es s x Ms) = Retry_global h"
  shows "\<exists>Mc' Ms'. retries m Ec Es k s Mc Ms Mc' Ms' \<and> client_at p t (fst (get_global_seq h Mc)) n ss (con Mc' k)"
proof -
  obtain Mc' Ms' where o: "same_but s Ms Ms'" "says MSGR_MSGR_TAG_RETRY_GLOBAL h 0 (con Ms' s)" "client_at p t g n ss (con Mc' k)"
      "msgr_global_seq Mc' = msgr_global_seq Mc"
    and neg: "negotiate (Suc m) Ec Es k s Mc Ms =
      (case client_hears Ec k (last (told (con Ms' s))) Mc' of
         None \<Rightarrow> None
       | Some Mc \<Rightarrow> (if cst (con Mc k) = STATE_CONNECTING_SEND_CONNECT_MSG then negotiate m Ec Es k s Mc Ms' else Some (s, Mc, Ms')))"
    using round_spoken [OF W c, of s Ms MSGR_MSGR_TAG_RETRY_GLOBAL h 0 m] v by fastforce
  have y: "r_authorizer_len (last (told (con Ms' s))) \<le> 4096" "r_tag (last (told (con Ms' s))) = MSGR_MSGR_TAG_RETRY_GLOBAL"
      "r_global_seq (last (told (con Ms' s))) = h"
    using o(2) by (simp_all add: says_def)
  have g: "fst (get_global_seq h Mc') = fst (get_global_seq h Mc)" using o(4) by (simp add: get_global_seq_def Let_def)
  show ?thesis using hears_retry_global [OF willing_hears [OF W] y(1) o(3) y(2)] o(1) y(3) g
    unfolding retries_def neg client_now_def by fastforce
qed

lemma round_reset:
  assumes W: "willing Ec Es p t" and c: "client_at p t g n ss (con Mc k)"
    and v: "\<And>x. carries Ec p g n x \<Longrightarrow> judge Es s x (entered Es s x Ms) = Reset_session"
  shows "\<exists>Mc' Ms' ss'. retries m Ec Es k s Mc Ms Mc' Ms' \<and> client_at p t g 0 ss' (con Mc' k)"
proof -
  obtain Mc' Ms' where o: "same_but s Ms Ms'" "says MSGR_MSGR_TAG_RESETSESSION 0 0 (con Ms' s)" "client_at p t g n ss (con Mc' k)"
    and neg: "negotiate (Suc m) Ec Es k s Mc Ms =
      (case client_hears Ec k (last (told (con Ms' s))) Mc' of
         None \<Rightarrow> None
       | Some Mc \<Rightarrow> (if cst (con Mc k) = STATE_CONNECTING_SEND_CONNECT_MSG then negotiate m Ec Es k s Mc Ms' else Some (s, Mc, Ms')))"
    using round_spoken [OF W c, of s Ms MSGR_MSGR_TAG_RESETSESSION 0 0 m] v by fastforce
  have y: "r_authorizer_len (last (told (con Ms' s))) \<le> 4096" "r_tag (last (told (con Ms' s))) = MSGR_MSGR_TAG_RESETSESSION"
    using o(2) by (simp_all add: says_def)
  show ?thesis using hears_reset_session [OF willing_hears [OF W] y(1) o(3) y(2)] o(1)
    unfolding retries_def neg client_now_def by fastforce
qed


lemma judge_self: "conns M (peer_addr (con M s)) = Some s \<Longrightarrow> replacing (con M s) \<noteq> 0 \<Longrightarrow> judge E s x (entered E s x M) = Open_new"
  by (simp add: judge_def lookup_conn_def)

lemma judge_none: "conns M (peer_addr (con M s)) = None \<Longrightarrow>
    judge E s x (entered E s x M) = (if replacing (con M s) = 0 \<and> c_connect_seq x > 0 then Reset_session else Open_new)"
  by (simp add: judge_def lookup_conn_def)

lemma judge_other: "conns M (peer_addr (con M s)) = Some j \<Longrightarrow> j \<noteq> s \<Longrightarrow>
    judge E s x (entered E s x M) = judge_existing E (entry E x (con M s)) x (con M j)"
  by (simp add: judge_def lookup_conn_def)

lemma round_take_over:
  assumes W: "willing Ec Es p t" and c: "client_at p t g n ss (con Mc k)" and b: "beside a s j e Ms" and n: "n < n + 1"
    and v: "\<And>x. carries Ec p g n x \<Longrightarrow> judge Es s x (entered Es s x Ms) = Take_over reset from_peer"
    and q: "\<And>c d. (\<not> reset \<and> \<not> from_peer \<longrightarrow> resumed ss (requeue_sent (psess e)) c d) \<Longrightarrow> Q c d"
  shows "settled Q (Suc (Suc m)) Ec Es a k s Mc Ms"
proof -
  have jj: "conns Ms (peer_addr (con Ms s)) = Some j" "j \<noteq> s" "replaceable (con Ms j)" using b by (auto simp: beside_def)
  have "\<exists>x Mc' Ms'. (\<exists>h. taking_over j reset from_peer Ms Ms' \<and> says MSGR_MSGR_TAG_RETRY_SESSION h (c_connect_seq x + 1) (con Ms' j)) \<and>
    carries Ec p g n x \<and> client_at p t g n ss (con Mc' k) \<and> connect_msg (con Mc' k) = x \<and> msgr_global_seq Mc' = msgr_global_seq Mc \<and>
    negotiate (Suc (Suc m)) Ec Es k s Mc Ms =
      (case client_hears Ec k (last (told (con Ms' j))) Mc' of
         None \<Rightarrow> None
       | Some Mc \<Rightarrow> (if cst (con Mc k) = STATE_CONNECTING_SEND_CONNECT_MSG then negotiate (Suc m) Ec Es k j Mc Ms' else Some (j, Mc, Ms')))"
    by (rule round [OF W c]) (use answers_take_over [OF _ v jj] in blast)
  then obtain x Mc' Ms' h where o: "taking_over j reset from_peer Ms Ms'" "says MSGR_MSGR_TAG_RETRY_SESSION h (c_connect_seq x + 1) (con Ms' j)"
      "carries Ec p g n x" "client_at p t g n ss (con Mc' k)"
    and neg: "negotiate (Suc (Suc m)) Ec Es k s Mc Ms =
      (case client_hears Ec k (last (told (con Ms' j))) Mc' of
         None \<Rightarrow> None
       | Some Mc \<Rightarrow> (if cst (con Mc k) = STATE_CONNECTING_SEND_CONNECT_MSG then negotiate (Suc m) Ec Es k j Mc Ms' else Some (j, Mc, Ms')))" by blast
  have y: "r_authorizer_len (last (told (con Ms' j))) \<le> 4096" "r_tag (last (told (con Ms' j))) = MSGR_MSGR_TAG_RETRY_SESSION"
      "n < r_connect_seq (last (told (con Ms' j)))" "r_connect_seq (last (told (con Ms' j))) = n + 1"
    using o(2,3) n by (simp_all add: says_def carries_def)
  obtain Mc'' where hears: "client_hears Ec k (last (told (con Ms' j))) Mc' = Some Mc''"
      "client_now k STATE_CONNECTING_SEND_CONNECT_MSG (last (told (con Ms' j))) p t g (n + 1) ss Mc''"
    using hears_retry_session [OF willing_hears [OF W] y(1) o(4) y(2,3)] y(4) by metis
  have at: "client_at p t g (n + 1) ss (con Mc'' k)" "cst (con Mc'' k) = STATE_CONNECTING_SEND_CONNECT_MSG"
    using hears(2) by (simp_all add: client_now_def)
  have j: "peer_addr (con Ms' j) = a" "conns Ms' a = Some j" "replacing (con Ms' j) \<noteq> 0"
    using o(1) b by (auto simp: taking_over_def beside_def)
  have "settled Q (Suc m) Ec Es a k j Mc'' Ms'"
  proof (rule accepting_round [OF W at(1) j(1)])
    show "conns Ms' a \<in> {None, Some j}" using j(2) by simp
    show "judge Es j x (entered Es j x Ms') = Open_new" for x using j judge_self [of Ms' j] by simp
    show "Q c d" if "resumes (con Ms' j) \<longrightarrow> resumed ss (psess (con Ms' j)) c d" for c d
      by (rule q) (use that o(1) b in \<open>auto simp: resumes_def taking_over_def resumed_def beside_def\<close>)
  qed
  then show ?thesis unfolding settled_def neg by (simp add: hears(1) at(2))
qed


section \<open>The comparison\<close>

text \<open>The comparison looks at two numbers of the connect message only.\<close>

definition weigh :: "'w menv \<Rightarrow> addr \<Rightarrow> bool \<Rightarrow> u32 \<Rightarrow> u32 \<Rightarrow> 'w peer_conn \<Rightarrow> verdict" where
  "weigh E a rc g n e =
     (if g < peer_global_seq e then Retry_global (peer_global_seq e)
      else if lossy (psess e) then Take_over True False
      else if n = 0 \<and> connect_seq e > 0 then Take_over rc True
      else if n < connect_seq e then Retry_session (connect_seq e + 1)
      else if n = connect_seq e
      then (if cst e = STATE_OPEN \<or> cst e = STATE_STANDBY
            then (if rc \<and> connect_seq e = 0 then Take_over False False else Retry_session (connect_seq e + 1))
            else if memcmp a (my_addr E) < 0 \<or> server_policy (pol e) then Take_over False False
            else if memcmp a (my_addr E) > 0 then Keep_ours else Assertion)
      else if rc \<and> connect_seq e = 0 then Reset_session
      else Take_over False False)"

lemma judge_weigh:
  "beside a s j e M \<Longrightarrow> carries Ec p g n x \<Longrightarrow>
   judge E s x (entered E s x M) = weigh E a (resetcheck (fst (get_policy E (my_type Ec)))) g n e"
  by (auto simp: beside_def carries_def judge_other judge_existing_def weigh_def)

definition decides :: "verdict \<Rightarrow> bool" where
  "decides v \<longleftrightarrow> v = Keep_ours \<or> (\<exists>r f. v = Take_over r f)"

lemma weigh_known:
  assumes "\<not> g < peer_global_seq e" and "memcmp a (my_addr E) \<noteq> 0"
  shows "decides (weigh E a rc g n e) \<or>
    weigh E a rc g n e = Retry_session (connect_seq e + 1) \<and> n \<le> connect_seq e \<and> \<not> (rc \<and> connect_seq e = 0) \<and> \<not> lossy (psess e) \<or>
    weigh E a rc g n e = Reset_session \<and> rc \<and> connect_seq e = 0 \<and> \<not> lossy (psess e)"
  using assms by (auto simp: weigh_def decides_def)

lemma weigh_raised:
  assumes "\<not> g < peer_global_seq e" and "\<not> (rc \<and> connect_seq e = 0)" and "\<not> lossy (psess e)" and "connect_seq e < connect_seq e + 1"
  shows "decides (weigh E a rc g (connect_seq e + 1) e)"
  using assms by (auto simp: weigh_def decides_def)

lemma weigh_reset:
  assumes "\<not> g < peer_global_seq e" and "rc" and "connect_seq e = 0" and "\<not> lossy (psess e)" and "memcmp a (my_addr E) \<noteq> 0"
  shows "decides (weigh E a rc g 0 e)"
  using assms by (auto simp: weigh_def decides_def)

lemma settle_decided:
  assumes W: "willing Ec Es p t" and c: "client_at p t g n ss (con Mc k)" and b: "beside a s j e Ms" and n: "n < n + 1"
    and v: "decides (weigh Es a (resetcheck (fst (get_policy Es (my_type Ec)))) g n e)"
  shows "settled (\<lambda>_ _. True) (Suc (Suc m)) Ec Es a k s Mc Ms"
proof -
  consider "weigh Es a (resetcheck (fst (get_policy Es (my_type Ec)))) g n e = Keep_ours"
    | r f where "weigh Es a (resetcheck (fst (get_policy Es (my_type Ec)))) g n e = Take_over r f"
    using v by (auto simp: decides_def)
  then show ?thesis
  proof cases
    case 1
    show ?thesis by (rule round_wait [OF W c b]) (simp add: judge_weigh [OF b] 1)
  next
    case 2
    show ?thesis by (rule round_take_over [OF W c b n, where reset = r and from_peer = f]) (simp_all add: judge_weigh [OF b] 2)
  qed
qed

lemma settle_known:
  assumes W: "willing Ec Es p t" and c: "client_at p t g n ss (con Mc k)" and b: "beside a s j e Ms" and n: "n < n + 1"
    and e: "\<not> g < peer_global_seq e" "memcmp a (my_addr Es) \<noteq> 0" "connect_seq e < connect_seq e + 1" "connect_seq e + 1 < connect_seq e + 1 + 1"
  shows "settled (\<lambda>_ _. True) (Suc (Suc (Suc m))) Ec Es a k s Mc Ms"
proof -
  let ?rc = "resetcheck (fst (get_policy Es (my_type Ec)))"
  consider "decides (weigh Es a ?rc g n e)"
    | "weigh Es a ?rc g n e = Retry_session (connect_seq e + 1)" "n \<le> connect_seq e" "\<not> (?rc \<and> connect_seq e = 0)" "\<not> lossy (psess e)"
    | "weigh Es a ?rc g n e = Reset_session" "?rc" "connect_seq e = 0" "\<not> lossy (psess e)"
    using weigh_known [OF e(1,2), of ?rc n] by blast
  then show ?thesis
  proof cases
    case 1
    then show ?thesis by (rule settle_decided [OF W c b n])
  next
    case 2
    have "n < connect_seq e + 1" using 2(2) e(3) by simp
    then obtain Mc' Ms' where r: "retries (Suc (Suc m)) Ec Es k s Mc Ms Mc' Ms'" "client_at p t g (connect_seq e + 1) ss (con Mc' k)"
      using round_retry_session [OF W c, of "connect_seq e + 1" s Ms "Suc (Suc m)"] judge_weigh [OF b] 2(1) by metis
    have "beside a s j e Ms'" using b r(1) by (auto intro: beside_same simp: retries_def)
    then show ?thesis
      by (rule settled_retry [OF r(1) settle_decided [OF W r(2) _ e(4) weigh_raised [OF e(1) 2(3,4) e(3)]]])
  next
    case 3
    obtain Mc' Ms' ss' where r: "retries (Suc (Suc m)) Ec Es k s Mc Ms Mc' Ms'" "client_at p t g 0 ss' (con Mc' k)"
      using round_reset [OF W c, of s Ms "Suc (Suc m)"] judge_weigh [OF b] 3(1) by metis
    have "beside a s j e Ms'" using b r(1) by (auto intro: beside_same simp: retries_def)
    then show ?thesis
      by (rule settled_retry [OF r(1) settle_decided [OF W r(2) _ _ weigh_reset [OF e(1) 3(2,3,4) e(2)]]]) simp
  qed
qed


section \<open>Convergence\<close>

text \<open>Numbers that do not wrap around.\<close>

lemma below_next: "(n :: u32) < 0xFFFFFFFF \<Longrightarrow> n < n + 1"
  by (simp add: word_less_nat_alt unat_word_ariths)

lemma get_global_seq_above:
  assumes "h < 0xFFFFFFFF" and "msgr_global_seq M < 0xFFFFFFFF"
  shows "\<not> fst (get_global_seq h M) < h"
  using below_next [OF assms(1)] below_next [OF assms(2)] by (auto simp: get_global_seq_def Let_def)


lemma below_next_twice: "(n :: u32) < 0xFFFFFFFE \<Longrightarrow> n < n + 1 \<and> n + 1 < n + 1 + 1"
  by (simp add: word_less_nat_alt unat_word_ariths)

lemma settle_new:
  assumes W: "willing Ec Es p t" and c: "client_at p t g n ss (con Mc k)" 
    and s: "peer_addr (con Ms s) = a" "conns Ms a = None" "replacing (con Ms s) = 0"
  shows "settled (\<lambda>_ _. True) (Suc (Suc m)) Ec Es a k s Mc Ms"
proof (cases "n = 0")
  case True
  have none: "conns Ms a \<in> {None, Some s}" using s by simp
  show ?thesis
    by (rule accepting_round [OF W c s(1) none]) (use s judge_none [of Ms s Es] True in \<open>auto simp: carries_def\<close>)
next
  case False
  then obtain Mc' Ms' ss' where r: "retries (Suc m) Ec Es k s Mc Ms Mc' Ms'" "client_at p t g 0 ss' (con Mc' k)"
    using round_reset [OF W c, of s Ms "Suc m"] s judge_none [of Ms s Es] by (metis carries_def word_neq_0_conv)
  have s': "peer_addr (con Ms' s) = a" "conns Ms' a = None"
    using r(1) s by (auto simp: retries_def same_but_def)
  then have none: "conns Ms' a \<in> {None, Some s}" by simp
  have "settled (\<lambda>_ _. True) (Suc m) Ec Es a k s Mc' Ms'"
    by (rule accepting_round [OF W r(2) s'(1) none]) (use s' judge_none [of Ms' s Es] in \<open>auto simp: carries_def\<close>)
  then show ?thesis by (rule settled_retry [OF r(1)])
qed

lemma settle_any:
  assumes W: "willing Ec Es p t" and c: "client_at p t g n ss (con Mc k)" and b: "beside a s j e Ms" and n: "n < 0xFFFFFFFF"
    and e: "memcmp a (my_addr Es) \<noteq> 0" "connect_seq e < 0xFFFFFFFE" "peer_global_seq e < 0xFFFFFFFF" "msgr_global_seq Mc < 0xFFFFFFFF"
  shows "settled (\<lambda>_ _. True) (Suc (Suc (Suc (Suc m)))) Ec Es a k s Mc Ms"
proof (cases "g < peer_global_seq e")
  case True
  then have v: "weigh Es a (resetcheck (fst (get_policy Es (my_type Ec)))) g n e = Retry_global (peer_global_seq e)" by (simp add: weigh_def)
  obtain Mc' Ms' where r: "retries (Suc (Suc (Suc m))) Ec Es k s Mc Ms Mc' Ms'"
      "client_at p t (fst (get_global_seq (peer_global_seq e) Mc)) n ss (con Mc' k)"
    using round_retry_global [OF W c, of s Ms "peer_global_seq e" "Suc (Suc (Suc m))"] judge_weigh [OF b] v by metis
  have "beside a s j e Ms'" using b r(1) by (auto intro: beside_same simp: retries_def)
  then have "settled (\<lambda>_ _. True) (Suc (Suc (Suc m))) Ec Es a k s Mc' Ms'"
    using settle_known [OF W r(2)] get_global_seq_above [OF e(3,4)] below_next [OF n] below_next_twice [OF e(2)] e(1) by blast
  then show ?thesis by (rule settled_retry [OF r(1)])
next
  case False
  then show ?thesis using settle_known [OF W c b] below_next [OF n] below_next_twice [OF e(2)] e(1) by blast
qed

definition well_known :: "addr \<Rightarrow> nat \<Rightarrow> 'w messenger \<Rightarrow> bool" where
  "well_known a s M \<longleftrightarrow>
     (case lookup_conn a M of
        None \<Rightarrow> True
      | Some j \<Rightarrow> j \<noteq> s \<and> peer_addr (con M j) = a \<and> replaceable (con M j) \<and> connect_seq (con M j) < 0xFFFFFFFE \<and>
          peer_global_seq (con M j) < 0xFFFFFFFF)"

text \<open>Two hosts that know each other: the existing connection has read one of the two messages the peer wrote.\<close>

definition sample_policy :: policy where
  "sample_policy = \<lparr>server_policy = False, standby = True, resetcheck = True, features_supported = MSGR_FEATURE_MSG_AUTH, features_required = 0\<rparr>"

definition sample_host :: "addr \<Rightarrow> unit menv" where
  "sample_host a = \<lparr>take_bytes = (\<lambda>q w. (Some (length q), w)), host_order = Little_endian, my_addr = a, my_type = MSGR_ENTITY_TYPE_OSD,
     cluster_protocol = 5, require_signatures = True, cluster_require_signatures = True, service_require_signatures = False,
     verify_authorizer = (\<lambda>_ _ _. (True, [])), get_authorizer = (\<lambda>_ _. Some (MSGR_AUTH_MSGRX, [7])), verify_reply = (\<lambda>_ _. True),
     get_policy = (\<lambda>_. (sample_policy, False)), random_seq = (0, 0), initial_backoff = 1, max_backoff = 15, junk_reply = zero_reply\<rparr>"

definition sample_peer :: "unit messenger" where
  "sample_peer = \<lparr>conns = [[1] \<mapsto> 0], accepting_conns = {}, msgr_global_seq = 3,
     con = (\<lambda>_. (new_conn ())\<lparr>peer_addr := [1], peer_type := MSGR_ENTITY_TYPE_OSD, pol := sample_policy, global_seq := 3, connect_seq := 2,
       psess := new_session\<lparr>out_q := [(255, [\<lparr>oid = 1, oprio = 255, oseq = 1\<rparr>, \<lparr>oid = 2, oprio = 255, oseq = 2\<rparr>])]\<rparr>\<rparr>)\<rparr>"

definition sample_server :: "unit messenger" where
  "sample_server = \<lparr>conns = [[2] \<mapsto> 1], accepting_conns = {0}, msgr_global_seq = 8,
     con = (\<lambda>i. if i = 0 then (new_conn ())\<lparr>peer_addr := [2], cst := STATE_ACCEPTING_WAIT_CONNECT_MSG\<rparr>
       else (new_conn ())\<lparr>peer_addr := [2], cst := STATE_OPEN, connect_seq := 4, peer_global_seq := 6,
              psess := new_session\<lparr>in_seq := 1, sent := [\<lparr>oid = 9, oprio = 1, oseq = 1\<rparr>], out_seq := 1\<rparr>\<rparr>)\<rparr>"

lemmas sample_defs = sample_policy_def sample_host_def sample_peer_def sample_server_def new_conn_def new_session_def

lemma sample_willing: "willing (sample_host [2]) (sample_host [1]) (pol (con sample_peer 0)) (peer_type (con sample_peer 0))"
  by (simp add: willing_def writable_def sample_defs get_proto_version_def MSGR_FEATURE_MSG_AUTH_def)

lemma sample_known: "well_known [2] 0 sample_server"
  by (simp add: well_known_def lookup_conn_def replaceable_def sample_defs)

text \<open>
  C4.  Two willing peers settle a connection within four rounds, whatever both remember of earlier connections: the
  connecting side waits for the other's own attempt, which is still registered and has been prodded, or
  both sides open with the same session number, features and loss policy, and no assertion fails.
\<close>

theorem negotiation_converges:
  assumes "willing Ec Es (pol (con Mc k)) (peer_type (con Mc k))"
    and "peer_addr (con Ms s) = a" and "replacing (con Ms s) = 0" and "well_known a s Ms" and "memcmp a (my_addr Es) \<noteq> 0"
    and "outcoming_bl (psess (con Mc k)) = []" and "connect_seq (con Mc k) < 0xFFFFFFFF" and "msgr_global_seq Mc < 0xFFFFFFFF"
  shows "\<exists>s' Mc' Ms'. negotiate 4 Ec Es k s Mc Ms = Some (s', Mc', Ms') \<and> agree a (con Mc' k) s' Ms'"
proof -
  have c: "client_at (pol (con Mc k)) (peer_type (con Mc k)) (global_seq (con Mc k)) (connect_seq (con Mc k)) (psess (con Mc k)) (con Mc k)"
    using assms(6) by (simp add: client_at_def)
  have "settled (\<lambda>_ _. True) 4 Ec Es a k s Mc Ms"
  proof (cases "conns Ms a")
    case None
    then show ?thesis using settle_new [OF assms(1) c assms(2) None assms(3), of "Suc (Suc 0)"] by (simp add: numeral_eq_Suc)
  next
    case (Some j)
    then have "beside a s j (con Ms j) Ms" "connect_seq (con Ms j) < 0xFFFFFFFE" "peer_global_seq (con Ms j) < 0xFFFFFFFF"
      using assms(2,4) by (auto simp: beside_def well_known_def lookup_conn_def)
    then show ?thesis using settle_any [OF assms(1) c _ assms(7,5) _ _ assms(8), of s j "con Ms j" Ms 0] by (simp add: numeral_eq_Suc)
  qed
  then show ?thesis by (auto simp: settled_def split: option.splits)
qed

theorem negotiation_converges_witness:
  "\<exists>s' Mc' Ms'. negotiate 4 (sample_host [2]) (sample_host [1]) 0 0 sample_peer sample_server = Some (s', Mc', Ms') \<and>
     agree [2] (con Mc' 0) s' Ms'"
proof (rule negotiation_converges [OF sample_willing _ _ sample_known])
  show "memcmp [2] (my_addr (sample_host [1])) \<noteq> 0" by (simp add: sample_host_def)
qed (simp_all add: sample_defs)

section \<open>Resuming a session\<close>

text \<open>The peer has a session to go on with, and so has the existing connection.\<close>

definition has_session :: "u32 \<Rightarrow> 'w peer_conn \<Rightarrow> bool" where
  "has_session n e \<longleftrightarrow> 0 < n \<and> 0 < connect_seq e \<and> \<not> lossy (psess e) \<and> (cst e = STATE_OPEN \<or> cst e = STATE_STANDBY)"

lemma weigh_session:
  assumes "has_session n e" and "\<not> g < peer_global_seq e"
  shows "weigh E a rc g n e = (if connect_seq e < n then Take_over False False else Retry_session (connect_seq e + 1))"
  using assms by (auto simp: weigh_def has_session_def)

lemma resume_raised:
  assumes W: "willing Ec Es p t" and c: "client_at p t g n ss (con Mc k)" and b: "beside a s j e Ms" and n: "n < n + 1"
    and h: "has_session n e" "\<not> g < peer_global_seq e" "connect_seq e < n"
  shows "settled (resumed ss (requeue_sent (psess e))) (Suc (Suc m)) Ec Es a k s Mc Ms"
  by (rule round_take_over [OF W c b n, where reset = False and from_peer = False])
    (simp_all add: judge_weigh [OF b] weigh_session [OF h(1,2)] h(3))

lemma resume_known:
  assumes W: "willing Ec Es p t" and c: "client_at p t g n ss (con Mc k)" and b: "beside a s j e Ms" and n: "n < n + 1"
    and h: "has_session n e" "\<not> g < peer_global_seq e" "connect_seq e < connect_seq e + 1" "connect_seq e + 1 < connect_seq e + 1 + 1"
  shows "settled (resumed ss (requeue_sent (psess e))) (Suc (Suc (Suc m))) Ec Es a k s Mc Ms"
proof (cases "connect_seq e < n")
  case True
  then show ?thesis by (rule resume_raised [OF W c b n h(1,2)])
next
  case False
  then have v: "weigh Es a (resetcheck (fst (get_policy Es (my_type Ec)))) g n e = Retry_session (connect_seq e + 1)"
    by (simp add: weigh_session [OF h(1,2)])
  have less: "n < connect_seq e + 1" using False h(3) by simp
  obtain Mc' Ms' where r: "retries (Suc (Suc m)) Ec Es k s Mc Ms Mc' Ms'" "client_at p t g (connect_seq e + 1) ss (con Mc' k)"
    using round_retry_session [OF W c less, of s Ms "Suc (Suc m)"] judge_weigh [OF b] v by metis
  have b': "beside a s j e Ms'" using b r(1) by (auto intro: beside_same simp: retries_def)
  have "has_session (connect_seq e + 1) e" using h(1,3) by (auto simp: has_session_def)
  then show ?thesis by (rule settled_retry [OF r(1) resume_raised [OF W r(2) b' h(4) _ h(2,3)]])
qed

lemma resume_any:
  assumes W: "willing Ec Es p t" and c: "client_at p t g n ss (con Mc k)" and b: "beside a s j e Ms" and n: "n < 0xFFFFFFFF"
    and h: "has_session n e"
    and e: "connect_seq e < 0xFFFFFFFE" "peer_global_seq e < 0xFFFFFFFF" "msgr_global_seq Mc < 0xFFFFFFFF"
  shows "settled (resumed ss (requeue_sent (psess e))) (Suc (Suc (Suc (Suc m)))) Ec Es a k s Mc Ms"
proof (cases "g < peer_global_seq e")
  case True
  then have v: "weigh Es a (resetcheck (fst (get_policy Es (my_type Ec)))) g n e = Retry_global (peer_global_seq e)" by (simp add: weigh_def)
  obtain Mc' Ms' where r: "retries (Suc (Suc (Suc m))) Ec Es k s Mc Ms Mc' Ms'"
      "client_at p t (fst (get_global_seq (peer_global_seq e) Mc)) n ss (con Mc' k)"
    using round_retry_global [OF W c, of s Ms "peer_global_seq e" "Suc (Suc (Suc m))"] judge_weigh [OF b] v by metis
  have "beside a s j e Ms'" using b r(1) by (auto intro: beside_same simp: retries_def)
  then have "settled (resumed ss (requeue_sent (psess e))) (Suc (Suc (Suc m))) Ec Es a k s Mc' Ms'"
    using resume_known [OF W r(2) _ _ h] get_global_seq_above [OF e(2,3)] below_next [OF n] below_next_twice [OF e(1)] by blast
  then show ?thesis by (rule settled_retry [OF r(1)])
next
  case False
  then show ?thesis using resume_known [OF W c b _ h] below_next [OF n] below_next_twice [OF e(1)] by blast
qed

text \<open>The numbers are exchanged: each side says what it has received.\<close>

lemma exchange_numbers:
  assumes "writable E" and "resumed ss (requeue_sent ps) c d"
  shows "\<exists>c'. got_ack_seq E (in_seq (psess d)) c = (0, c') \<and> cst c' = STATE_CONNECTING_READY \<and>
    cst (got_accept_seq (in_seq (psess c)) d) = STATE_ACCEPTING_READY \<and>
    bare (psess c') = discard_requeued_up_to (in_seq ps) (bare ss) \<and>
    bare (psess (got_accept_seq (in_seq (psess c)) d)) = discard_requeued_up_to (in_seq ss) (requeue_sent (bare ps))"
proof -
  have q: "in_seq (requeue_sent s) = in_seq s" for s :: session by (simp add: requeue_sent_def Let_def split: prod.split)
  have i: "in_seq (psess c) = in_seq ss" "in_seq (psess d) = in_seq ps"
    using assms(2) unfolding resumed_def by (metis bare_update(3), metis bare_update(3) q)
  show ?thesis using assms(2)
    by (simp add: got_ack_seq_def Let_def try_put_then [OF assms(1)] got_accept_seq_def i bare_discard resumed_def flip: bare_requeue)
qed

text \<open>
  C3.  A peer that comes back after a fault goes on with its session: the negotiation and the exchange of
  numbers leave both sessions as the events \<open>Fault\<close> and \<open>Reconnect\<close> of the session model leave them, in
  both directions.
\<close>

theorem reconnection_resumes_session:
  assumes "willing Ec Es (pol (con Mc k)) (peer_type (con Mc k))"
    and "peer_addr (con Ms s) = a" and "well_known a s Ms" and "lookup_conn a Ms = Some j" and "has_session (connect_seq (con Mc k)) (con Ms j)"
    and "outcoming_bl (psess (con Mc k)) = []" and "connect_seq (con Mc k) < 0xFFFFFFFF" and "msgr_global_seq Mc < 0xFFFFFFFF"
    and "link_event Reconnect l = Some l'" and "snd_s l = bare (psess (con Mc k))" and "rcv_s l = bare (psess (con Ms j))"
    and "link_run [Fault, Reconnect] b = Some b'" and "snd_s b = bare (psess (con Ms j))" and "rcv_s b = bare (psess (con Mc k))"
  shows "\<exists>s' Mc' Ms' c. negotiate 4 Ec Es k s Mc Ms = Some (s', Mc', Ms') \<and>
    got_ack_seq Ec (in_seq (psess (con Ms' s'))) (con Mc' k) = (0, c) \<and> bare (psess c) = snd_s l' \<and>
    bare (psess (got_accept_seq (in_seq (psess (con Mc' k))) (con Ms' s'))) = snd_s b'"
proof -
  have c: "client_at (pol (con Mc k)) (peer_type (con Mc k)) (global_seq (con Mc k)) (connect_seq (con Mc k)) (psess (con Mc k)) (con Mc k)"
    using assms(6) by (simp add: client_at_def)
  have "beside a s j (con Ms j) Ms" "connect_seq (con Ms j) < 0xFFFFFFFE" "peer_global_seq (con Ms j) < 0xFFFFFFFF"
    using assms(2-4) by (auto simp: beside_def well_known_def lookup_conn_def)
  then have "settled (resumed (psess (con Mc k)) (requeue_sent (psess (con Ms j)))) 4 Ec Es a k s Mc Ms"
    using resume_any [OF assms(1) c _ assms(7,5) _ _ assms(8), of a s j Ms 0] by (simp add: numeral_eq_Suc)
  then obtain s' Mc' Ms' where n: "negotiate 4 Ec Es k s Mc Ms = Some (s', Mc', Ms')"
    and r: "resumed (psess (con Mc k)) (requeue_sent (psess (con Ms j))) (con Mc' k) (con Ms' s')"
    by (auto simp: settled_def split: option.splits)
  have "writable Ec" using assms(1) by (simp add: willing_def)
  then obtain c' where "got_ack_seq Ec (in_seq (psess (con Ms' s'))) (con Mc' k) = (0, c')"
      "bare (psess c') = discard_requeued_up_to (in_seq (psess (con Ms j))) (bare (psess (con Mc k)))"
      "bare (psess (got_accept_seq (in_seq (psess (con Mc' k))) (con Ms' s'))) =
        discard_requeued_up_to (in_seq (psess (con Mc k))) (requeue_sent (bare (psess (con Ms j))))"
    using exchange_numbers [OF _ r] by blast
  moreover have "snd_s l' = discard_requeued_up_to (in_seq (psess (con Ms j))) (bare (psess (con Mc k)))"
      "snd_s b' = discard_requeued_up_to (in_seq (psess (con Mc k))) (requeue_sent (bare (psess (con Ms j))))"
    using assms(9-14) by (auto split: if_splits)
  ultimately show ?thesis using n by metis
qed

theorem reconnection_resumes_session_witness:
  "\<exists>s' Mc' Ms' c. negotiate 4 (sample_host [2]) (sample_host [1]) 0 0 sample_peer sample_server = Some (s', Mc', Ms') \<and>
     got_ack_seq (sample_host [2]) (in_seq (psess (con Ms' s'))) (con Mc' 0) = (0, c) \<and>
     bare (psess c) = new_session\<lparr>out_q := [(255, [\<lparr>oid = 2, oprio = 255, oseq = 2\<rparr>])], out_seq := 1\<rparr> \<and>
     bare (psess (got_accept_seq (in_seq (psess (con Mc' 0))) (con Ms' s'))) =
       new_session\<lparr>in_seq := 1, out_q := [(255, [\<lparr>oid = 9, oprio = 1, oseq = 1\<rparr>])]\<rparr>"
proof -
  let ?l = "new_link\<lparr>up := False, snd_s := bare (psess (con sample_peer 0)), rcv_s := bare (psess (con sample_server 1))\<rparr>"
  let ?b = "new_link\<lparr>snd_s := bare (psess (con sample_server 1)), rcv_s := bare (psess (con sample_peer 0))\<rparr>"
  have l: "link_event Reconnect ?l = Some (?l\<lparr>snd_s := new_session\<lparr>out_q := [(255, [\<lparr>oid = 2, oprio = 255, oseq = 2\<rparr>])], out_seq := 1\<rparr>,
      chan := [], acks := [], up := True\<rparr>)"
    by (simp add: bare_def sample_defs discard_requeued_up_to_def MSGR_MSG_PRIO_HIGHEST_def)
  have b: "link_run [Fault, Reconnect] ?b = Some (?b\<lparr>snd_s := new_session\<lparr>in_seq := 1, out_q := [(255, [\<lparr>oid = 9, oprio = 1, oseq = 1\<rparr>])]\<rparr>\<rparr>)"
    by (simp add: bare_def sample_defs new_link_def discard_requeued_up_to_def requeue_sent_def MSGR_MSG_PRIO_HIGHEST_def queue_at_def)
  have h: "has_session (connect_seq (con sample_peer 0)) (con sample_server 1)" by (simp add: has_session_def sample_defs)
  show ?thesis
    using reconnection_resumes_session [OF sample_willing _ sample_known _ h _ _ _ l _ _ b] by (simp add: sample_defs lookup_conn_def)
qed

end
