(* ===== verification/Text_Utils.thy ===== *)
theory Text_Utils
  imports Msgr_Prelude
begin

text \<open>
  Text: the conversions of \<^verbatim>\<open>src/src/strtol.cc\<close> and the token lists of \<^verbatim>\<open>src/src/str_list.cc\<close>, on top of
  \<^verbatim>\<open>strtoll\<close> and \<^verbatim>\<open>atoi\<close> of the C library.  A C string is the list of its characters up to the terminating
  null character; the end of the list stands for that character.
\<close>

section \<open>The C library\<close>

definition isspace :: "char \<Rightarrow> bool" where
  "isspace c \<longleftrightarrow> c \<in> set [CHR '' '', CHR 0x09, CHR 0x0A, CHR 0x0B, CHR 0x0C, CHR 0x0D]"

definition isdigit :: "char \<Rightarrow> bool" where
  "isdigit c \<longleftrightarrow> 48 \<le> (of_char c :: nat) \<and> (of_char c :: nat) \<le> 57"

text \<open>The value of a digit in a base up to 36; 36 for any other character.\<close>

definition digit_value :: "char \<Rightarrow> nat" where
  "digit_value c =
     (let k = of_char c :: nat
      in if 48 \<le> k \<and> k \<le> 57 then k - 48 else if 97 \<le> k \<and> k \<le> 122 then k - 87 else if 65 \<le> k \<and> k \<le> 90 then k - 55 else 36)"

definition numeral_value :: "nat \<Rightarrow> string \<Rightarrow> nat" where
  "numeral_value b ds = foldl (\<lambda>v c. v * b + digit_value c) 0 ds"

text \<open>An optional sign, and the prefix \<^verbatim>\<open>0x\<close> or \<^verbatim>\<open>0\<close> that selects the base.\<close>

definition split_sign :: "string \<Rightarrow> bool \<times> string" where
  "split_sign s =
     (case s of c # t \<Rightarrow> (if c = CHR ''-'' then (True, t) else if c = CHR ''+'' then (False, t) else (False, s)) | [] \<Rightarrow> (False, []))"

definition split_base :: "nat \<Rightarrow> string \<Rightarrow> nat \<times> string" where
  "split_base b s =
     (let hex = (case s of z # x # d # _ \<Rightarrow> z = CHR ''0'' \<and> (x = CHR ''x'' \<or> x = CHR ''X'') \<and> digit_value d < 16 | _ \<Rightarrow> False)
      in if (b = 0 \<or> b = 16) \<and> hex then (16, drop 2 s)
         else if b = 0 then (case s of z # _ \<Rightarrow> (if z = CHR ''0'' then 8 else 10) | [] \<Rightarrow> 10, s)
         else (b, s))"

definition LLONG_MAX :: int where "LLONG_MAX = 2 ^ 63 - 1"
definition LLONG_MIN :: int where "LLONG_MIN = - (2 ^ 63)"
definition INT_MAX :: int where "INT_MAX = 2 ^ 31 - 1"
definition INT_MIN :: int where "INT_MIN = - (2 ^ 31)"

datatype errno = No_error | ERANGE | EINVAL

text \<open>The result, \<^verbatim>\<open>errno\<close>, and the text at \<^verbatim>\<open>endptr\<close>.\<close>

definition strtoll :: "string \<Rightarrow> nat \<Rightarrow> int \<times> errno \<times> string" where
  "strtoll s b =
     (if b = 1 \<or> b > 36 then (0, EINVAL, s)
      else
        (let (neg, t) = split_sign (dropWhile isspace s); (b, t) = split_base b t;
             ds = takeWhile (\<lambda>c. digit_value c < b) t; rest = dropWhile (\<lambda>c. digit_value c < b) t;
             v = (if neg then - int (numeral_value b ds) else int (numeral_value b ds))
         in if ds = [] then (0, No_error, s)
            else if v > LLONG_MAX then (LLONG_MAX, ERANGE, rest)
            else if v < LLONG_MIN then (LLONG_MIN, ERANGE, rest)
            else (v, No_error, rest)))"

text \<open>\<^verbatim>\<open>(int)strtol(s, NULL, 10)\<close>.\<close>

definition to_int :: "int \<Rightarrow> int" where
  "to_int v = (v + 2 ^ 31) mod 2 ^ 32 - 2 ^ 31"

definition atoi :: "string \<Rightarrow> int" where
  "atoi s = to_int (fst (strtoll s 10))"

section \<open>Strict conversions\<close>

text \<open>The message left in \<^verbatim>\<open>err\<close>; each one quotes the text.\<close>

datatype num_error = Out_of_range | Expected_integer | Garbage_at_end | Integer_underflow | Integer_overflow
  | Not_specified | Negative_value | Too_large

definition strict_strtoll :: "string \<Rightarrow> nat \<Rightarrow> int \<times> num_error option" where
  "strict_strtoll str base =
     (let (ret, err, endptr) = strtoll str base
      in if err = ERANGE \<and> (ret = LLONG_MAX \<or> ret = LLONG_MIN) \<or> err \<noteq> No_error \<and> ret = 0 then (0, Some Out_of_range)
         else if endptr = str then (0, Some Expected_integer)
         else if endptr \<noteq> [] then (0, Some Garbage_at_end)
         else (ret, None))"

definition strict_strtol :: "string \<Rightarrow> nat \<Rightarrow> int \<times> num_error option" where
  "strict_strtol str base =
     (let (ret, err) = strict_strtoll str base
      in if err \<noteq> None then (0, err)
         else if ret \<le> INT_MIN then (0, Some Integer_underflow)
         else if ret \<ge> INT_MAX then (0, Some Integer_overflow)
         else (ret, None))"

definition unit_shift :: "char \<Rightarrow> int" where
  "unit_shift u =
     (if u = CHR ''B'' then 0 else if u = CHR ''K'' then 10 else if u = CHR ''M'' then 20 else if u = CHR ''G'' then 30
      else if u = CHR ''T'' then 40 else if u = CHR ''P'' then 50 else if u = CHR ''E'' then 60 else -1)"

definition strict_sistrtoll :: "string \<Rightarrow> u64 \<times> num_error option" where
  "strict_sistrtoll s =
     (if s = [] then (0, Some Not_specified)
      else
        (let m = unit_shift (last s); v = (if m \<ge> 0 then butlast s else s); (r_ll, err) = strict_strtoll v 10
         in if r_ll < 0 then (0, Some Negative_value)
            else
              (let r = of_int r_ll :: u64
               in if err = None \<and> m > 0
                  then (if r > drop_bit (nat m) (-1) then (0, Some Too_large) else (push_bit (nat m) r, None))
                  else (r, err))))"

section \<open>Token lists\<close>

text \<open>A \<^verbatim>\<open>size_t\<close> position stored in an \<^verbatim>\<open>int\<close>; \<open>None\<close> is \<^verbatim>\<open>npos\<close>.\<close>

definition int_pos :: "nat option \<Rightarrow> int" where
  "int_pos p = (case p of None \<Rightarrow> -1 | Some n \<Rightarrow> to_int (int n))"

definition find_from :: "(char \<Rightarrow> bool) \<Rightarrow> string \<Rightarrow> nat \<Rightarrow> nat option" where
  "find_from P s pos =
     (let n = length (takeWhile (\<lambda>c. \<not> P c) (drop pos s)) in if pos + n < length s then Some (pos + n) else None)"

definition get_next_token :: "string \<Rightarrow> nat \<Rightarrow> string \<Rightarrow> string option \<times> nat" where
  "get_next_token s pos delims =
     (let start = int_pos (find_from (\<lambda>c. c \<notin> set delims) s pos)
      in if start < 0 then (None, length s)
         else
           (let e = int_pos (find_from (\<lambda>c. c \<in> set delims) s (nat start));
                (pos, e) = (if e \<ge> 0 then (nat e + 1, nat e) else (length s, length s))
            in (Some (take (e - nat start) (drop (nat start) s)), pos)))"

text \<open>The loop of \<^verbatim>\<open>get_str_list\<close>, \<^verbatim>\<open>get_str_vec\<close> and \<^verbatim>\<open>get_str_set\<close>.\<close>

partial_function (option) token_loop :: "string \<Rightarrow> string \<Rightarrow> nat \<Rightarrow> string list \<Rightarrow> string list option" where
  "token_loop str delims pos acc =
     (if pos < length str
      then
        (case get_next_token str pos delims of
           (None, pos) \<Rightarrow> token_loop str delims pos acc
         | (Some token, pos) \<Rightarrow> token_loop str delims pos (if token \<noteq> [] then acc @ [token] else acc))
      else Some acc)"

definition get_str_list :: "string \<Rightarrow> string \<Rightarrow> string list option" where
  "get_str_list str delims = token_loop str delims 0 []"

definition get_str_vec :: "string \<Rightarrow> string \<Rightarrow> string list option" where
  "get_str_vec str delims = token_loop str delims 0 []"

definition get_str_set :: "string \<Rightarrow> string \<Rightarrow> string set option" where
  "get_str_set str delims = map_option set (token_loop str delims 0 [])"

definition default_delims :: string where
  "default_delims = '';,= '' @ [CHR 0x09]"


section \<open>Printed numbers\<close>

text \<open>What a stream prints for an integer.\<close>

definition digit_char :: "nat \<Rightarrow> char" where
  "digit_char d = char_of (48 + d)"

fun dec :: "nat \<Rightarrow> string" where
  "dec n = (if n < 10 then [digit_char n] else dec (n div 10) @ [digit_char (n mod 10)])"

declare dec.simps [simp del]

definition show_int :: "int \<Rightarrow> string" where
  "show_int n = (if n < 0 then CHR ''-'' # dec (nat (- n)) else dec (nat n))"

lemma of_digit_char [simp]: "d < 10 \<Longrightarrow> of_char (digit_char d) = 48 + d"
  by (simp add: digit_char_def)

lemma digit_value_char [simp]: "d < 10 \<Longrightarrow> digit_value (digit_char d) = d"
  by (simp add: digit_value_def Let_def)

lemma isdigit_value: "isdigit c \<longleftrightarrow> digit_value c < 10"
  by (auto simp: isdigit_def digit_value_def Let_def)

lemma isdigit_char: "d < 10 \<Longrightarrow> isdigit (digit_char d)"
  by (simp add: isdigit_def)

lemma digit_not_special:
  assumes "isdigit c"
  shows "\<not> isspace c" "c \<noteq> CHR ''-''" "c \<noteq> CHR ''+''"
  using assms by (auto simp: isdigit_def isspace_def)

lemma dec_digits: "c \<in> set (dec n) \<Longrightarrow> isdigit c"
  by (induction n rule: dec.induct) (subst (asm) (2) dec.simps, auto simp: isdigit_char split: if_splits)

lemma dec_not_empty [simp]: "dec n \<noteq> []"
  by (subst dec.simps) simp

lemma numeral_value_snoc: "numeral_value b (ds @ [c]) = numeral_value b ds * b + digit_value c"
  by (simp add: numeral_value_def)

lemma dec_value [simp]: "numeral_value 10 (dec n) = n"
proof (induction n rule: dec.induct)
  case (1 n)
  show ?case
  proof (cases "n < 10")
    case True
    then show ?thesis by (subst dec.simps) (simp add: numeral_value_def)
  next
    case False
    then show ?thesis using "1.IH" by (subst dec.simps) (simp add: numeral_value_snoc)
  qed
qed

lemma dec_prefix:
  assumes "t = [] \<or> \<not> isdigit (hd t)"
  shows "takeWhile (\<lambda>c. digit_value c < 10) (dec n @ t) = dec n" "dropWhile (\<lambda>c. digit_value c < 10) (dec n @ t) = t"
proof -
  have d: "\<forall>c \<in> set (dec n). digit_value c < 10" using dec_digits isdigit_value by blast
  have t: "takeWhile (\<lambda>c. digit_value c < 10) t = []" "dropWhile (\<lambda>c. digit_value c < 10) t = t"
    using assms by (cases t; simp add: isdigit_value)+
  show "takeWhile (\<lambda>c. digit_value c < 10) (dec n @ t) = dec n" using d t(1) by simp
  show "dropWhile (\<lambda>c. digit_value c < 10) (dec n @ t) = t" using d t(2) by simp
qed

lemma dec_head: "\<exists>c ds. dec n = c # ds \<and> isdigit c"
  using dec_digits [of _ n] dec_not_empty [of n] by (cases "dec n") auto

lemma sign_dec: "dropWhile isspace (dec n @ t) = dec n @ t" "split_sign (dec n @ t) = (False, dec n @ t)"
  using dec_head [of n] digit_not_special by (auto simp: split_sign_def)

lemma split_base_10 [simp]: "split_base 10 t = (10, t)"
  by (simp add: split_base_def)

definition clamp :: "int \<Rightarrow> int \<times> errno" where
  "clamp v = (if v > LLONG_MAX then (LLONG_MAX, ERANGE) else if v < LLONG_MIN then (LLONG_MIN, ERANGE) else (v, No_error))"

text \<open>\<^verbatim>\<open>strtoll\<close> reads a printed number up to what follows it.\<close>

lemma strtoll_show:
  assumes "t = [] \<or> \<not> isdigit (hd t)"
  shows "strtoll (show_int n @ t) 10 = (fst (clamp n), snd (clamp n), t)"
proof (cases "n < 0")
  case True
  then have "split_sign (dropWhile isspace (show_int n @ t)) = (True, dec (nat (- n)) @ t)"
    by (simp add: show_int_def split_sign_def isspace_def)
  then show ?thesis using True by (simp add: strtoll_def dec_prefix [OF assms] clamp_def LLONG_MAX_def)
next
  case False
  then have "split_sign (dropWhile isspace (show_int n @ t)) = (False, dec (nat n) @ t)"
    by (simp add: show_int_def sign_dec)
  then show ?thesis using False by (simp add: strtoll_def dec_prefix [OF assms] clamp_def)
qed

text \<open>A run of digits, possibly empty or with leading zeros.\<close>

lemma strtoll_digits:
  assumes "\<forall>c \<in> set ds. isdigit c" and "int (numeral_value 10 ds) \<le> LLONG_MAX"
  shows "strtoll ds 10 = (int (numeral_value 10 ds), No_error, [])"
proof (cases ds)
  case Nil
  then show ?thesis by (simp add: strtoll_def split_sign_def numeral_value_def)
next
  case (Cons c cs)
  have "isdigit c" using assms(1) Cons by simp
  then have "split_sign (dropWhile isspace ds) = (False, ds)" using digit_not_special Cons by (simp add: split_sign_def)
  moreover have "\<forall>c \<in> set ds. digit_value c < 10" using assms(1) isdigit_value by blast
  then have "takeWhile (\<lambda>c. digit_value c < 10) ds = ds" "dropWhile (\<lambda>c. digit_value c < 10) ds = []" by simp_all
  ultimately show ?thesis using assms(2) Cons by (simp add: strtoll_def LLONG_MIN_def)
qed

lemma numeral_value_Cons: "numeral_value b (c # ds) = digit_value c * b ^ length ds + numeral_value b ds"
proof -
  have "foldl (\<lambda>v c. v * b + digit_value c) a ds = a * b ^ length ds + foldl (\<lambda>v c. v * b + digit_value c) 0 ds" for a
    by (induction ds rule: rev_induct) (simp_all add: algebra_simps)
  from this [of "digit_value c"] show ?thesis by (simp add: numeral_value_def)
qed

lemma dec_short: "n < 10 ^ k \<Longrightarrow> 0 < k \<Longrightarrow> length (dec n) \<le> k"
proof (induction n arbitrary: k rule: dec.induct)
  case (1 n)
  show ?case
  proof (cases "n < 10")
    case True
    then show ?thesis using "1.prems" by (subst dec.simps) simp
  next
    case False
    then obtain j where j: "k = Suc j" "0 < j" using "1.prems" by (cases k; cases "k - 1") auto
    have "n div 10 < 10 ^ j" using "1.prems"(1) j by (simp add: div_less_iff_less_mult)
    then show ?thesis using "1.IH" [OF False _ j(2)] False j by (subst dec.simps) simp
  qed
qed

lemma show_int_not_empty [simp]: "show_int n \<noteq> []" "[] \<noteq> show_int n"
  by (simp_all add: show_int_def) (metis dec_not_empty)

lemma strict_strtoll_show: "strict_strtoll (show_int n) 10 = (if LLONG_MIN \<le> n \<and> n \<le> LLONG_MAX then (n, None) else (0, Some Out_of_range))"
  using strtoll_show [of "[]" n] by (auto simp: strict_strtoll_def clamp_def LLONG_MAX_def LLONG_MIN_def)


lemma show_int_nat: "show_int (int n) = dec n"
  by (simp add: show_int_def)

lemma strict_sistrtoll_unit:
  assumes "unit_shift u = int m" and "m \<le> 60"
  shows "strict_sistrtoll (dec n @ [u]) =
    (if int n > LLONG_MAX then (0, Some Out_of_range)
     else if n * 2 ^ m < 2 ^ 64 then (of_nat (n * 2 ^ m), None) else (0, Some Too_large))"
proof (cases "int n > LLONG_MAX")
  case True
  then have "strict_strtoll (dec n) 10 = (0, Some Out_of_range)"
    using strict_strtoll_show [of "int n"] by (simp add: show_int_nat)
  then show ?thesis using True assms(1) by (simp add: strict_sistrtoll_def Let_def)
next
  case False
  then have r: "strict_strtoll (dec n) 10 = (int n, None)"
    using strict_strtoll_show [of "int n"] by (simp add: show_int_nat LLONG_MIN_def LLONG_MAX_def)
  have n: "n < 2 ^ 63" using False by (simp add: LLONG_MAX_def)
  have u: "unat (of_nat n :: u64) = n" using n by (simp add: unat_of_nat)
  have lim: "(of_nat n :: u64) > drop_bit m (- 1) \<longleftrightarrow> \<not> n * 2 ^ m < 2 ^ 64"
  proof -
    have "unat (drop_bit m (- 1 :: u64)) = (2 ^ 64 - 1) div 2 ^ m" by (subst unat_drop_bit_eq) (simp add: drop_bit_eq_div unsigned_minus_1_eq_mask mask_eq_exp_minus_1)
    moreover have "(2 ^ 64 - 1) div 2 ^ m < n \<longleftrightarrow> 2 ^ 64 - 1 < n * 2 ^ m"
      using div_less_iff_less_mult [of "2 ^ m" "2 ^ 64 - 1 :: nat" n] by simp
    ultimately show ?thesis by (auto simp: word_less_nat_alt u)
  qed
  have shift: "push_bit m (of_nat n :: u64) = of_nat (n * 2 ^ m)" by (simp add: push_bit_eq_mult)
  show ?thesis
  proof (cases "m = 0")
    case True
    then show ?thesis using False r n assms(1) by (simp add: strict_sistrtoll_def Let_def)
  next
    case m: False
    then show ?thesis using False r assms(1) lim shift by (simp add: strict_sistrtoll_def Let_def)
  qed
qed

section \<open>Tokens\<close>

text \<open>The reference: the text cut at every delimiter.\<close>

fun split_at :: "string \<Rightarrow> string \<Rightarrow> string list" where
  "split_at d [] = [[]]"
| "split_at d (c # s) = (if c \<in> set d then [] # split_at d s else (c # hd (split_at d s)) # tl (split_at d s))"

definition tokens :: "string \<Rightarrow> string \<Rightarrow> string list" where
  "tokens d s = filter (\<lambda>t. t \<noteq> []) (split_at d s)"

lemma split_at_not_empty [simp]: "split_at d s \<noteq> []"
  by (cases s) auto

lemma tokens_skip: "tokens d (dropWhile (\<lambda>c. c \<in> set d) s) = tokens d s"
  by (induction s) (auto simp: tokens_def)

lemma split_at_run:
  "split_at d s = takeWhile (\<lambda>c. c \<notin> set d) s # (case dropWhile (\<lambda>c. c \<notin> set d) s of [] \<Rightarrow> [] | c # t \<Rightarrow> split_at d t)"
  by (induction s) (auto split: list.splits)

lemma tokens_none: "\<forall>c \<in> set s. c \<in> set d \<Longrightarrow> tokens d s = []"
  by (induction s) (auto simp: tokens_def)

lemma to_int_small [simp]: "0 \<le> v \<Longrightarrow> v < 2 ^ 31 \<Longrightarrow> to_int v = v"
  by (simp add: to_int_def)

lemma find_from_Some:
  assumes "find_from P s pos = Some n"
  shows "n < length s" "pos \<le> n" "drop n s = dropWhile (\<lambda>c. \<not> P c) (drop pos s)"
    "take (n - pos) (drop pos s) = takeWhile (\<lambda>c. \<not> P c) (drop pos s)"
proof -
  let ?k = "length (takeWhile (\<lambda>c. \<not> P c) (drop pos s))"
  have n: "n = pos + ?k" "pos + ?k < length s" using assms by (auto simp: find_from_def Let_def split: if_splits)
  then show "n < length s" "pos \<le> n" by auto
  have "drop n s = drop ?k (drop pos s)" using n(1) by (metis add.commute drop_drop)
  then show "drop n s = dropWhile (\<lambda>c. \<not> P c) (drop pos s)" by (metis dropWhile_eq_drop)
  show "take (n - pos) (drop pos s) = takeWhile (\<lambda>c. \<not> P c) (drop pos s)" using n(1) by (metis add_diff_cancel_left' takeWhile_eq_take)
qed

lemma find_from_None:
  assumes "find_from P s pos = None" and "pos < length s"
  shows "\<forall>c \<in> set (drop pos s). \<not> P c"
proof -
  have "length (takeWhile (\<lambda>c. \<not> P c) (drop pos s)) = length (drop pos s)"
    using assms length_takeWhile_le [of "\<lambda>c. \<not> P c" "drop pos s"] by (auto simp: find_from_def Let_def split: if_splits)
  then have "takeWhile (\<lambda>c. \<not> P c) (drop pos s) = drop pos s" by (metis take_all_iff order_refl takeWhile_eq_take)
  then show ?thesis by (metis set_takeWhileD)
qed

lemma int_pos_small [simp]: "n < 2 ^ 31 \<Longrightarrow> int_pos (Some n) = int n" "int_pos None = - 1"
  by (simp_all add: int_pos_def)

text \<open>One step of the loop.\<close>

lemma get_next_token_step:
  assumes "length s < 2 ^ 31" and "pos < length s" and "get_next_token s pos d = (t, pos')"
  shows "pos < pos' \<and> tokens d (drop pos s) = (case t of None \<Rightarrow> [] | Some w \<Rightarrow> [w]) @ tokens d (drop pos' s) \<and> t \<noteq> Some []"
proof (cases "find_from (\<lambda>c. c \<notin> set d) s pos")
  case None
  then have "t = None" "pos' = length s" using assms(3) by (auto simp: get_next_token_def Let_def)
  moreover have "tokens d (drop pos s) = []" using find_from_None [OF None assms(2)] by (simp add: tokens_none)
  ultimately show ?thesis using assms(2) by (simp add: tokens_def)
next
  case (Some b)
  note b = find_from_Some [OF Some]
  have start: "int_pos (find_from (\<lambda>c. c \<notin> set d) s pos) = int b" using Some b(1) assms(1) by simp
  have skip: "tokens d (drop pos s) = tokens d (drop b s)" using b(3) tokens_skip [of d "drop pos s"] by simp
  have head: "\<exists>c u. drop b s = c # u \<and> c \<notin> set d"
    using b(1,3) by (metis drop_eq_Nil2 hd_dropWhile leD list.collapse not_less)
  show ?thesis
  proof (cases "find_from (\<lambda>c. c \<in> set d) s b")
    case None
    then have r: "t = Some (drop b s)" "pos' = length s" using assms(3) start by (auto simp: get_next_token_def Let_def)
    have "takeWhile (\<lambda>c. c \<notin> set d) (drop b s) = drop b s" "dropWhile (\<lambda>c. c \<notin> set d) (drop b s) = []"
      using find_from_None [OF None b(1)] by (simp_all add: takeWhile_eq_all_conv)
    then have "split_at d (drop b s) = [drop b s]" by (simp only: split_at_run [of d "drop b s"] list.case)
    then show ?thesis using r head skip b(1) assms(2) by (auto simp: tokens_def)
  next
    case (Some e)
    note e = find_from_Some [OF Some]
    have r: "t = Some (take (e - b) (drop b s))" "pos' = e + 1"
      using assms(1,3) start Some e(1) by (auto simp: get_next_token_def Let_def)
    have w: "take (e - b) (drop b s) = takeWhile (\<lambda>c. c \<notin> set d) (drop b s)" using e(4) by simp
    obtain c where "drop e s = c # drop (e + 1) s" using e(1) by (metis Cons_nth_drop_Suc Suc_eq_plus1)
    then have "split_at d (drop b s) = take (e - b) (drop b s) # split_at d (drop (e + 1) s)"
      using split_at_run [of d "drop b s"] e(3) w by simp
    moreover have "take (e - b) (drop b s) \<noteq> []" using head w by auto
    ultimately show ?thesis using r skip b(2) e(2) by (simp add: tokens_def)
  qed
qed

lemma token_loop_tokens:
  assumes "length s < 2 ^ 31"
  shows "token_loop s d pos acc = Some (acc @ tokens d (drop pos s))"
proof (induction "length s - pos" arbitrary: pos acc rule: less_induct)
  case less
  show ?case
  proof (cases "pos < length s")
    case True
    obtain t p where g: "get_next_token s pos d = (t, p)" by (metis surj_pair)
    note step = get_next_token_step [OF assms True g]
    have "length s - p < length s - pos" using conjunct1 [OF step] True by simp
    then show ?thesis using less.hyps [of p] step True
      by (subst token_loop.simps) (auto simp: g split: option.splits)
  next
    case False
    then show ?thesis by (subst token_loop.simps) (simp add: tokens_def)
  qed
qed


section \<open>Properties\<close>

text \<open>
  A printed integer is read back exactly if it fits 64 bits and refused otherwise; the 32-bit conversion
  refuses the two ends of its range, too.
\<close>

theorem strict_conversions_read_printed:
  "strict_strtoll (show_int n) 10 = (if LLONG_MIN \<le> n \<and> n \<le> LLONG_MAX then (n, None) else (0, Some Out_of_range)) \<and>
   strict_strtol (show_int n) 10 =
     (if n < LLONG_MIN \<or> LLONG_MAX < n then (0, Some Out_of_range)
      else if n \<le> INT_MIN then (0, Some Integer_underflow) else if INT_MAX \<le> n then (0, Some Integer_overflow) else (n, None))"
  by (auto simp: strict_strtol_def strict_strtoll_show)

text \<open>
  C31. A size with a unit is the number times the power of two of the unit, or an error when that does
  not fit 64 bits; no wrapped value is returned.
\<close>

theorem strict_sistrtoll_scales:
  assumes "(u, m) \<in> set [(CHR ''B'', 0), (CHR ''K'', 10), (CHR ''M'', 20), (CHR ''G'', 30), (CHR ''T'', 40), (CHR ''P'', 50), (CHR ''E'', 60)]"
  shows "strict_sistrtoll (dec n @ [u]) =
    (if int n > LLONG_MAX then (0, Some Out_of_range)
     else if n * 2 ^ m < 2 ^ 64 then (of_nat (n * 2 ^ m), None) else (0, Some Too_large))"
  using assms by (intro strict_sistrtoll_unit) (auto simp: unit_shift_def)

theorem strict_sistrtoll_scales_witness:
  "strict_sistrtoll (dec 3 @ ''M'') = (3 * 2 ^ 20, None) \<and> strict_sistrtoll (dec 16 @ ''E'') = (0, Some Too_large)"
  using strict_sistrtoll_scales [of "CHR ''M''" 20 3] strict_sistrtoll_scales [of "CHR ''E''" 60 16] by (simp add: LLONG_MAX_def)

text \<open>
  The token functions return, and return the non-empty pieces between delimiters in their order.
\<close>

theorem token_functions_split:
  assumes "length s < 2 ^ 31"
  shows "get_str_list s d = Some (tokens d s) \<and> get_str_vec s d = Some (tokens d s) \<and> get_str_set s d = Some (set (tokens d s))"
  using token_loop_tokens [OF assms] by (simp add: get_str_list_def get_str_vec_def get_str_set_def)

theorem token_functions_split_witness: "get_str_list ''a,,b=c'' default_delims = Some [''a'', ''b'', ''c'']"
  using token_functions_split [of "''a,,b=c''" default_delims] by (simp add: tokens_def default_delims_def)

end
