(* ===== verification/Time.thy ===== *)
theory Time
  imports Encoding_Laws "HOL-Library.Signed_Division"
begin

text \<open>
  Points in time, \<^verbatim>\<open>src/include/msgr/utime.h\<close>: seconds and nanoseconds of 32 bits each.  A value is normalized when
  its nanoseconds stay below one second; \<open>nsecs\<close> is the number it stands for.
\<close>

section \<open>Operations\<close>

record utime =
  tv_sec :: u32
  tv_nsec :: u32

definition is_zero :: "utime \<Rightarrow> bool" where
  "is_zero t \<longleftrightarrow> tv_sec t = 0 \<and> tv_nsec t = 0"

definition normalize :: "utime \<Rightarrow> utime" where
  "normalize t =
     (if tv_nsec t > 1000000000 then \<lparr>tv_sec = tv_sec t + tv_nsec t div 1000000000, tv_nsec = tv_nsec t mod 1000000000\<rparr> else t)"

text \<open>\<^verbatim>\<open>utime_t(time_t s, int n)\<close>.\<close>

definition utime_of :: "int \<Rightarrow> int \<Rightarrow> utime" where
  "utime_of s n = normalize \<lparr>tv_sec = of_int s, tv_nsec = of_int n\<rparr>"

definition sec :: "utime \<Rightarrow> int" where
  "sec t = uint (tv_sec t)"

text \<open>\<^verbatim>\<open>nsec()\<close> returns an \<^verbatim>\<open>int\<close>.\<close>

definition nsec :: "utime \<Rightarrow> int" where
  "nsec t = sint (tv_nsec t)"

definition usec :: "utime \<Rightarrow> int" where
  "usec t = uint (tv_nsec t) div 1000"

definition to_nsec :: "utime \<Rightarrow> u64" where
  "to_nsec t = ucast (tv_nsec t) + ucast (tv_sec t) * 1000000000"

definition to_msec :: "utime \<Rightarrow> u64" where
  "to_msec t = ucast (tv_nsec t) div 1000000 + ucast (tv_sec t) * 1000"

definition set_from_timeval :: "int \<Rightarrow> int \<Rightarrow> utime" where
  "set_from_timeval s us = \<lparr>tv_sec = of_int s, tv_nsec = of_int (us * 1000)\<rparr>"

definition copy_to_timeval :: "utime \<Rightarrow> int \<times> int" where
  "copy_to_timeval t = (uint (tv_sec t), uint (tv_nsec t) div 1000)"

definition encode_utime :: "endian \<Rightarrow> utime encoder" where
  "encode_utime e t bl h =
     (case encode_u32 e (tv_sec t) bl h of Inl err \<Rightarrow> Inl err | Inr (bl, h) \<Rightarrow> encode_u32 e (tv_nsec t) bl h)"

definition decode_utime :: "endian \<Rightarrow> utime decoder" where
  "decode_utime e h bl p =
     (case decode_u32 e h bl p of
        Inl err \<Rightarrow> Inl err
      | Inr (s, p) \<Rightarrow>
          (case decode_u32 e h bl p of
             Inl err \<Rightarrow> Inl err
           | Inr (n, p) \<Rightarrow> Inr (\<lparr>tv_sec = s, tv_nsec = n\<rparr>, p)))"

text \<open>The arithmetic: \<^verbatim>\<open>+\<close>, \<^verbatim>\<open>+=\<close>, \<^verbatim>\<open>-\<close> and \<^verbatim>\<open>-=\<close>, with C's division truncating towards zero.\<close>

definition ut_add :: "utime \<Rightarrow> utime \<Rightarrow> utime" where
  "ut_add l r = utime_of (sec l + sec r + (nsec l + nsec r) sdiv 1000000000) ((nsec l + nsec r) smod 1000000000)"

definition ut_add_to :: "utime \<Rightarrow> utime \<Rightarrow> utime" where
  "ut_add_to l r =
     (let s = tv_sec l + of_int (sec r + (nsec l + nsec r) sdiv 1000000000); n = tv_nsec l + of_int (nsec r)
      in \<lparr>tv_sec = s, tv_nsec = n mod 1000000000\<rparr>)"

definition ut_sub :: "utime \<Rightarrow> utime \<Rightarrow> utime" where
  "ut_sub l r =
     utime_of (sec l - sec r - (if nsec l < nsec r then 1 else 0)) (nsec l - nsec r + (if nsec l < nsec r then 1000000000 else 0))"

definition ut_sub_from :: "utime \<Rightarrow> utime \<Rightarrow> utime" where
  "ut_sub_from l r =
     (let s = tv_sec l - of_int (sec r)
      in if nsec l \<ge> nsec r then \<lparr>tv_sec = s, tv_nsec = tv_nsec l - of_int (nsec r)\<rparr>
         else \<lparr>tv_sec = s - 1, tv_nsec = tv_nsec l + of_int (1000000000 - nsec r)\<rparr>)"

text \<open>\<^verbatim>\<open>+=\<close> and \<^verbatim>\<open>-=\<close> with a \<^verbatim>\<open>double\<close>, which is cut into whole seconds and nanoseconds first.\<close>

definition ut_add_double :: "utime \<Rightarrow> int \<Rightarrow> int \<Rightarrow> utime" where
  "ut_add_double l fs ns = normalize \<lparr>tv_sec = tv_sec l + of_int fs, tv_nsec = tv_nsec l + of_int ns\<rparr>"

definition ut_sub_double :: "utime \<Rightarrow> int \<Rightarrow> int \<Rightarrow> utime" where
  "ut_sub_double l fs nsl =
     (let l = l\<lparr>tv_sec := tv_sec l - of_int fs\<rparr>
      in normalize (if nsl \<noteq> 0 then \<lparr>tv_sec = tv_sec l - 1, tv_nsec = of_int (1000000000 + uint (tv_nsec l) - nsl)\<rparr> else l))"

definition ut_less :: "utime \<Rightarrow> utime \<Rightarrow> bool" where
  "ut_less a b \<longleftrightarrow> sec a < sec b \<or> sec a = sec b \<and> nsec a < nsec b"

definition ut_greater :: "utime \<Rightarrow> utime \<Rightarrow> bool" where
  "ut_greater a b \<longleftrightarrow> sec a > sec b \<or> sec a = sec b \<and> nsec a > nsec b"

definition ut_eq :: "utime \<Rightarrow> utime \<Rightarrow> bool" where
  "ut_eq a b \<longleftrightarrow> sec a = sec b \<and> nsec a = nsec b"

section \<open>Laws\<close>

definition normal :: "utime \<Rightarrow> bool" where
  "normal t \<longleftrightarrow> tv_nsec t < 1000000000"

definition nsecs :: "utime \<Rightarrow> int" where
  "nsecs t = uint (tv_sec t) * 1000000000 + uint (tv_nsec t)"


lemma normal_uint: "normal t \<longleftrightarrow> uint (tv_nsec t) < 1000000000"
  by (simp add: normal_def word_less_def)

lemma nsec_normal: "normal t \<Longrightarrow> nsec t = uint (tv_nsec t)"
  by (simp add: normal_uint nsec_def sint_uint signed_take_bit_eq_take_bit_minus take_bit_eq_mod bit_iff_odd) 

lemma sdiv_nonneg: "0 \<le> a \<Longrightarrow> 0 < b \<Longrightarrow> a sdiv b = a div b" "0 \<le> a \<Longrightarrow> 0 < b \<Longrightarrow> a smod b = a mod (b :: int)"
  by (simp_all add: signed_divide_int_def signed_modulo_int_def minus_div_mult_eq_mod sgn_if)

lemma uint_of_int_small: "0 \<le> v \<Longrightarrow> v < 2 ^ 32 \<Longrightarrow> uint (of_int v :: u32) = v"
  by (simp add: uint_word_of_int)

lemma normalize_normal [simp]: "normal t \<Longrightarrow> normalize t = t"
  by (simp add: normalize_def normal_def not_less)

lemma utime_of_nsec:
  assumes "0 \<le> n" and "n < 1000000000"
  shows "utime_of s n = \<lparr>tv_sec = of_int s, tv_nsec = of_int n\<rparr>" "normal (utime_of s n)"
proof -
  have "normal \<lparr>tv_sec = of_int s, tv_nsec = of_int n\<rparr>" using assms by (simp add: normal_uint uint_of_int_small)
  then show "utime_of s n = \<lparr>tv_sec = of_int s, tv_nsec = of_int n\<rparr>" "normal (utime_of s n)" by (simp_all add: utime_of_def)
qed

lemma utime_of_exact:
  assumes "0 \<le> s" and "s < 2 ^ 32" and "0 \<le> n" and "n < 1000000000"
  shows "nsecs (utime_of s n) = s * 1000000000 + n"
  using assms by (simp add: utime_of_nsec nsecs_def uint_of_int_small)

lemma nsecs_parts: "normal t \<Longrightarrow> uint (tv_nsec t) = nsecs t mod 1000000000" "normal t \<Longrightarrow> uint (tv_sec t) = nsecs t div 1000000000"
  by (simp_all add: normal_uint nsecs_def)

lemma nsecs_inj:
  assumes "normal a" and "normal b" and "nsecs a = nsecs b"
  shows "a = b"
proof -
  have "tv_nsec a = tv_nsec b" "tv_sec a = tv_sec b"
    using nsecs_parts [OF assms(1)] nsecs_parts [OF assms(2)] assms(3) by (simp_all add: word_uint_eq_iff)
  then show ?thesis by (cases a; cases b) simp
qed

lemma uint_bounds: "0 \<le> uint (w :: u32)" "uint (w :: u32) < 4294967296"
  using uint_bounded [of w] by simp_all

text \<open>Sum and difference, exact whenever the result is a time.\<close>

lemma ut_add_parts:
  assumes "normal l" and "normal r"
  shows "ut_add l r = utime_of (sec l + sec r + (nsec l + nsec r) div 1000000000) ((nsec l + nsec r) mod 1000000000)"
  by (simp add: ut_add_def nsec_normal assms sdiv_nonneg)

lemma ut_add_exact:
  assumes "normal l" and "normal r" and "nsecs l + nsecs r < 2 ^ 32 * 1000000000"
  shows "normal (ut_add l r)" "nsecs (ut_add l r) = nsecs l + nsecs r"
proof -
  obtain n where n: "n = nsec l + nsec r" by simp
  obtain s where s: "s = sec l + sec r" by simp
  have total: "nsecs l + nsecs r = (s + n div 1000000000) * 1000000000 + n mod 1000000000"
    by (simp add: nsecs_def s n sec_def nsec_normal assms algebra_simps)
  have "0 \<le> n mod 1000000000" by simp
  then have "s + n div 1000000000 < 4294967296" using assms(3) total by simp
  moreover have "0 \<le> s" "0 \<le> n" by (simp_all add: s n sec_def nsec_normal assms)
  then have "0 \<le> s + n div 1000000000" by (simp add: pos_imp_zdiv_nonneg_iff)
  ultimately show "nsecs (ut_add l r) = nsecs l + nsecs r"
    unfolding ut_add_parts [OF assms(1,2)] n [symmetric] s [symmetric] total by (intro utime_of_exact) simp_all
  show "normal (ut_add l r)" unfolding ut_add_parts [OF assms(1,2)] by (rule utime_of_nsec) simp_all
qed

lemma ut_sub_borrow:
  assumes "normal l" and "normal r"
  shows "0 \<le> nsec l - nsec r + (if nsec l < nsec r then 1000000000 else 0)"
    "nsec l - nsec r + (if nsec l < nsec r then 1000000000 else 0) < 1000000000"
  using assms uint_bounds [of "tv_nsec l"] uint_bounds [of "tv_nsec r"] unfolding normal_uint nsec_normal [OF assms(1)] nsec_normal [OF assms(2)]
  by (cases "uint (tv_nsec l) < uint (tv_nsec r)"; simp only: if_True if_False; linarith)+

lemma ut_sub_exact:
  assumes "normal l" and "normal r" and "nsecs r \<le> nsecs l"
  shows "normal (ut_sub l r)" "nsecs (ut_sub l r) = nsecs l - nsecs r"
proof -
  obtain s where s: "s = sec l - sec r - (if nsec l < nsec r then 1 else 0)" by simp
  obtain n where n: "n = nsec l - nsec r + (if nsec l < nsec r then 1000000000 else 0)" by simp
  note b = ut_sub_borrow [OF assms(1,2), folded n]
  have total: "nsecs l - nsecs r = s * 1000000000 + n" by (simp add: nsecs_def s n sec_def nsec_normal assms algebra_simps)
  then have "0 \<le> s" using assms(3) b(2) by linarith
  moreover have "s < 4294967296" using uint_bounds(2) [of "tv_sec l"] uint_bounds(1) [of "tv_sec r"] unfolding s sec_def 
    by (cases "nsec l < nsec r"; simp only: if_True if_False; linarith)
  ultimately show "nsecs (ut_sub l r) = nsecs l - nsecs r"
    unfolding ut_sub_def n [symmetric] s [symmetric] total using b by (intro utime_of_exact) simp_all
  show "normal (ut_sub l r)" unfolding ut_sub_def by (rule utime_of_nsec(2) [OF ut_sub_borrow [OF assms(1,2)]])
qed

text \<open>The assigning operators compute the same.\<close>

lemma word_of_nsec: "normal t \<Longrightarrow> tv_nsec t = of_int (nsec t)" "tv_sec t = of_int (sec t)"
  by (simp_all add: nsec_normal sec_def)

lemma ut_sub_from_eq:
  assumes "normal l" and "normal r"
  shows "ut_sub_from l r = ut_sub l r"
  unfolding ut_sub_def ut_sub_from_def Let_def utime_of_nsec(1) [OF ut_sub_borrow [OF assms]] word_of_nsec [of l]
  by (simp add: word_of_nsec(1) [OF assms(1)] word_of_nsec(2) [of l] algebra_simps)

lemma ut_add_to_eq:
  assumes "normal l" and "normal r"
  shows "ut_add_to l r = ut_add l r"
proof -
  obtain n where n: "n = nsec l + nsec r" by simp
  have n': "0 \<le> n" "n < 2 ^ 32" using assms by (simp_all add: n nsec_normal normal_uint)
  have w: "tv_nsec l + of_int (nsec r) = (of_int n :: u32)" by (simp add: n word_of_nsec(1) [OF assms(1)])
  have "uint ((of_int n :: u32) mod 1000000000) = n mod 1000000000"
    by (simp only: uint_mod_distrib uint_of_int_small [OF n']) simp
  then have "(of_int n :: u32) mod 1000000000 = of_int (n mod 1000000000)" by (metis word_of_int_uint)
  then show ?thesis
    unfolding ut_add_to_def Let_def ut_add_parts [OF assms] w n [symmetric]
    using n' by (simp add: utime_of_nsec word_of_nsec(2) [of l] sdiv_nonneg)
qed

lemma lexicographic:
  fixes a b x y :: int
  assumes "0 \<le> x" and "x < 1000000000" and "0 \<le> y" and "y < 1000000000"
  shows "a < b \<or> a = b \<and> x < y \<longleftrightarrow> a * 1000000000 + x < b * 1000000000 + y"
  using assms by (cases a b rule: linorder_cases) auto

lemma ut_order:
  assumes "normal a" and "normal b"
  shows "ut_less a b \<longleftrightarrow> nsecs a < nsecs b"
  using assms lexicographic [OF uint_nonnegative _ uint_nonnegative, of "tv_nsec a" "tv_nsec b"]
  unfolding normal_uint ut_less_def sec_def nsecs_def nsec_normal [OF assms(1)] nsec_normal [OF assms(2)] by blast

lemma to_nsec_exact: "uint (to_nsec t) = nsecs t"
proof -
  have "nsecs t < 2 ^ 64" "0 \<le> nsecs t" using uint_bounds [of "tv_sec t"] uint_bounds [of "tv_nsec t"] by (simp_all add: nsecs_def)
  moreover have "to_nsec t = of_int (nsecs t)" by (simp add: to_nsec_def nsecs_def)
  ultimately show ?thesis by (simp add: uint_word_of_int)
qed


section \<open>Codec\<close>

context codec
begin

text \<open>A structure with as much information as the values of a codec.\<close>

lemma iso_codec:
  assumes "\<And>v. g (f v) = v"
  shows "codec (\<lambda>v. enc (f v)) (\<lambda>h bl it. map_sum (\<lambda>e. e) (\<lambda>(x, it). (g x, it)) (dec h bl it)) (\<lambda>v. rep (f v)) (\<lambda>v. dom (f v))"
proof
  fix h bl and v :: 'b
  assume "ready h bl" "dom (f v)" "room bl (length (rep (f v)))"
  then show "\<exists>bl' h'. enc (f v) bl h = Inr (bl', h') \<and> grows h bl (rep (f v)) h' bl'" by (rule enc_grows)
next
  fix h bl it v ys
  assume "cursor h bl it" "dom (f v)" "remains h bl it = rep (f v) @ ys"
  then show "\<exists>it'. map_sum (\<lambda>e. e) (\<lambda>(x, it). (g x, it)) (dec h bl it) = Inr (v, it') \<and> cursor h bl it' \<and> remains h bl it' = ys"
    using dec_reads [of h bl it "f v" ys] assms by auto
qed

end

interpretation utime_codec: codec "encode_utime e" "decode_utime e'" "\<lambda>t. le_bytes (tv_sec t) @ le_bytes (tv_nsec t)" "\<lambda>_. True" for e e'
proof -
  have p: "codec_pair (encode_u32 e) (decode_u32 e') le_bytes (\<lambda>_. True) (encode_u32 e) (decode_u32 e') le_bytes (\<lambda>_. True)"
    by (simp add: codec_pair_def u32_codec.codec_axioms)
  have enc: "encode_pair (encode_u32 e) (encode_u32 e) (tv_sec t, tv_nsec t) = encode_utime e t" for t
    by (auto simp: fun_eq_iff encode_pair_def encode_utime_def split: sum.split)
  have dec: "(\<lambda>h bl it. map_sum (\<lambda>e. e) (\<lambda>(x, it). ((case x of (s, n) \<Rightarrow> \<lparr>tv_sec = s, tv_nsec = n\<rparr>), it)) (decode_pair (decode_u32 e') (decode_u32 e') h bl it)) = decode_utime e'"
    by (auto simp: fun_eq_iff decode_pair_def decode_utime_def split: sum.split)
  show "codec (encode_utime e) (decode_utime e') (\<lambda>t. le_bytes (tv_sec t) @ le_bytes (tv_nsec t)) (\<lambda>_. True)"
    using codec.iso_codec [OF codec_pair.pair_codec [OF p], of "\<lambda>(s, n). \<lparr>tv_sec = s, tv_nsec = n\<rparr>" "\<lambda>t. (tv_sec t, tv_nsec t)"]
    by (simp add: enc dec)
qed

text \<open>
  Times add, subtract and compare as the numbers of nanoseconds they stand for, by either form of the operators,
  and the conversion to nanoseconds does not overflow.
\<close>

theorem utime_arithmetic_exact:
  assumes "normal a" and "normal b"
  shows "(nsecs a + nsecs b < 4294967296 * 1000000000 \<longrightarrow> normal (ut_add a b) \<and> nsecs (ut_add a b) = nsecs a + nsecs b) \<and>
    (nsecs b \<le> nsecs a \<longrightarrow> normal (ut_sub a b) \<and> nsecs (ut_sub a b) = nsecs a - nsecs b) \<and>
    ut_add_to a b = ut_add a b \<and> ut_sub_from a b = ut_sub a b \<and>
    (ut_less a b \<longleftrightarrow> nsecs a < nsecs b) \<and> (nsecs a = nsecs b \<longrightarrow> a = b) \<and> uint (to_nsec a) = nsecs a"
  using ut_add_exact [OF assms] ut_sub_exact [OF assms] ut_add_to_eq [OF assms] ut_sub_from_eq [OF assms] ut_order [OF assms]
    nsecs_inj [OF assms] to_nsec_exact by auto

theorem utime_arithmetic_exact_witness:
  "nsecs (ut_add \<lparr>tv_sec = 1, tv_nsec = 600000000\<rparr> \<lparr>tv_sec = 2, tv_nsec = 700000000\<rparr>) = 4300000000 \<and>
   ut_sub_from \<lparr>tv_sec = 3, tv_nsec = 0\<rparr> \<lparr>tv_sec = 0, tv_nsec = 1\<rparr> = ut_sub \<lparr>tv_sec = 3, tv_nsec = 0\<rparr> \<lparr>tv_sec = 0, tv_nsec = 1\<rparr>"
  using utime_arithmetic_exact [of "\<lparr>tv_sec = 1, tv_nsec = 600000000\<rparr>" "\<lparr>tv_sec = 2, tv_nsec = 700000000\<rparr>"]
    utime_arithmetic_exact [of "\<lparr>tv_sec = 3, tv_nsec = 0\<rparr>" "\<lparr>tv_sec = 0, tv_nsec = 1\<rparr>"]
  by (simp add: normal_def nsecs_def)

text \<open>
  Subtracting a \<^verbatim>\<open>double\<close> always borrows a second, and \<^verbatim>\<open>normalize\<close> leaves a full second of nanoseconds alone: taking a time's
  own fraction away gives a value that is not normalized and differs from the one with no fraction.
\<close>

lemma sub_double_not_normalized:
  assumes "0 < uint (tv_nsec t)" and "normal t"
  shows "ut_sub_double t 0 (uint (tv_nsec t)) = \<lparr>tv_sec = tv_sec t - 1, tv_nsec = 1000000000\<rparr>"
  using assms by (simp add: ut_sub_double_def Let_def normalize_def)

end
