(* ===== verification/Entity.thy ===== *)
theory Entity
  imports Text_Utils Time
begin

text \<open>
  Names and addresses of entities (\<^verbatim>\<open>src/include/msgr/msg_types.h\<close>, \<^verbatim>\<open>src/src/msg_types.cc\<close>,
  \<^verbatim>\<open>src/src/msgr_strings.cc\<close>): their text and wire forms, ports, blank addresses and comparisons.
\<close>

section \<open>Names\<close>

record entity_name =
  name_type :: byte
  name_num :: "64 word"

definition TYPE_MON :: byte where "TYPE_MON = 1"
definition TYPE_MDS :: byte where "TYPE_MDS = 2"
definition TYPE_OSD :: byte where "TYPE_OSD = 4"
definition TYPE_CLIENT :: byte where "TYPE_CLIENT = 8"
definition TYPE_AUTH :: byte where "TYPE_AUTH = 32"

definition entity_type_name :: "byte \<Rightarrow> string" where
  "entity_type_name t =
     (if t = TYPE_MDS then ''mds'' else if t = TYPE_OSD then ''osd'' else if t = TYPE_MON then ''mon''
      else if t = TYPE_CLIENT then ''client'' else if t = TYPE_AUTH then ''auth'' else ''unknown'')"

definition is_new :: "entity_name \<Rightarrow> bool" where
  "is_new n \<longleftrightarrow> sint (name_num n) < 0"

definition show_name :: "entity_name \<Rightarrow> string" where
  "show_name n =
     (if is_new n \<or> sint (name_num n) < 0 then entity_type_name (name_type n) @ ''.?''
      else entity_type_name (name_type n) @ ''.'' @ show_int (sint (name_num n)))"

text \<open>
  \<^verbatim>\<open>parse(start, &end)\<close>: the outcome, the name as it is left, and the text at \<^verbatim>\<open>end\<close>; \<open>None\<close> when the
  pointer is moved past the terminating null character.
\<close>

definition parse_prefix :: "string \<Rightarrow> (byte \<times> nat) option" where
  "parse_prefix s =
     (if take 4 s = ''mon.'' then Some (TYPE_MON, 4)
      else if take 4 s = ''osd.'' then Some (TYPE_OSD, 5)
      else if take 7 s = ''client.'' then Some (TYPE_CLIENT, 7)
      else None)"

definition parse_name :: "string \<Rightarrow> entity_name \<Rightarrow> (bool \<times> entity_name \<times> string) option" where
  "parse_name s n =
     (case parse_prefix s of
        None \<Rightarrow> Some (False, n, s)
      | Some (t, k) \<Rightarrow>
          (if length s < k then None
           else
             (let n = n\<lparr>name_type := t\<rparr>; start = drop k s
              in if start \<noteq> [] \<and> isspace (hd start) then Some (False, n, start)
                 else
                   (let (v, _, e) = strtoll start 10
                    in Some (e \<noteq> start, n\<lparr>name_num := of_int v\<rparr>, e)))))"

definition parse_whole_name :: "string \<Rightarrow> entity_name \<Rightarrow> (bool \<times> entity_name) option" where
  "parse_whole_name s n =
     (case parse_name s n of None \<Rightarrow> None | Some (got, n, e) \<Rightarrow> Some (got \<and> e = [], n))"

definition name_less :: "entity_name \<Rightarrow> entity_name \<Rightarrow> bool" where
  "name_less l r \<longleftrightarrow> name_type l < name_type r \<or> name_type l = name_type r \<and> sint (name_num l) < sint (name_num r)"

definition encode_name :: "endian \<Rightarrow> entity_name encoder" where
  "encode_name e n bl h =
     (case encode_u8 (name_type n) bl h of Inl err \<Rightarrow> Inl err | Inr (bl, h) \<Rightarrow> encode_u64 e (name_num n) bl h)"

definition decode_name :: "endian \<Rightarrow> entity_name decoder" where
  "decode_name e h bl p =
     (case decode_u8 h bl p of
        Inl err \<Rightarrow> Inl err
      | Inr (t, p) \<Rightarrow>
          (case decode_u64 e h bl p of
             Inl err \<Rightarrow> Inl err
           | Inr (v, p) \<Rightarrow> Inr (\<lparr>name_type = t, name_num = v\<rparr>, p)))"

section \<open>Addresses\<close>

text \<open>
  A \<^verbatim>\<open>sockaddr_storage\<close>: the family and the 126 bytes behind it.  The union gives the port as the first two of them
  in network order; the address follows the port, or the flow label behind it for \<^verbatim>\<open>AF_INET6\<close>.
\<close>

record sockaddr_storage =
  ss_family :: u16
  ss_data :: "byte list"

record entity_addr =
  addr_type :: u32
  addr_nonce :: u32
  addr_ss :: sockaddr_storage

definition AF_INET :: u16 where "AF_INET = 2"
definition AF_INET6 :: u16 where "AF_INET6 = 10"

definition blank_addr :: entity_addr where
  "blank_addr = \<lparr>addr_type = 0, addr_nonce = 0, addr_ss = \<lparr>ss_family = 0, ss_data = replicate 126 0\<rparr>\<rparr>"

definition addr_ok :: "entity_addr \<Rightarrow> bool" where
  "addr_ok a \<longleftrightarrow> length (ss_data (addr_ss a)) = 126"

definition family :: "entity_addr \<Rightarrow> u16" where
  "family a = ss_family (addr_ss a)"

definition sin_addr :: "entity_addr \<Rightarrow> byte list" where
  "sin_addr a = take 4 (drop 2 (ss_data (addr_ss a)))"

definition sin6_addr :: "entity_addr \<Rightarrow> byte list" where
  "sin6_addr a = take 16 (drop 6 (ss_data (addr_ss a)))"

text \<open>Network order: the more significant byte first.\<close>

definition net16 :: "u16 \<Rightarrow> byte list" where
  "net16 w = rev (le_bytes w)"

definition net16_val :: "byte list \<Rightarrow> u16" where
  "net16_val bs = of_le_bytes (rev bs)"

definition patch :: "nat \<Rightarrow> byte list \<Rightarrow> entity_addr \<Rightarrow> entity_addr" where
  "patch k bs a = a\<lparr>addr_ss := (addr_ss a)\<lparr>ss_data := take k (ss_data (addr_ss a)) @ bs @ drop (k + length bs) (ss_data (addr_ss a))\<rparr>\<rparr>"

text \<open>\<open>None\<close> is the assertion on the family.\<close>

definition set_port :: "int \<Rightarrow> entity_addr \<Rightarrow> entity_addr option" where
  "set_port port a =
     (if family a = AF_INET \<or> family a = AF_INET6 then Some (patch 0 (net16 (of_int port)) a) else None)"

definition get_port :: "entity_addr \<Rightarrow> int" where
  "get_port a =
     (if family a = AF_INET \<or> family a = AF_INET6 then uint (net16_val (take 2 (ss_data (addr_ss a)))) else 0)"

definition is_blank_ip :: "entity_addr \<Rightarrow> bool" where
  "is_blank_ip a \<longleftrightarrow>
     (if family a = AF_INET then sin_addr a = replicate 4 0
      else if family a = AF_INET6 then sin6_addr a = replicate 16 0 else True)"

definition is_ip :: "entity_addr \<Rightarrow> bool" where
  "is_ip a \<longleftrightarrow> family a = AF_INET \<or> family a = AF_INET6"

definition addr_size :: "entity_addr \<Rightarrow> nat" where
  "addr_size a = (if family a = AF_INET then 16 else if family a = AF_INET6 then 28 else 128)"

text \<open>The memory of an address on a host, which the operators compare.\<close>

definition ss_mem :: "endian \<Rightarrow> sockaddr_storage \<Rightarrow> byte list" where
  "ss_mem e s = mem_bytes e (ss_family s) @ ss_data s"

definition addr_mem :: "endian \<Rightarrow> entity_addr \<Rightarrow> byte list" where
  "addr_mem e a = mem_bytes e (addr_type a) @ mem_bytes e (addr_nonce a) @ ss_mem e (addr_ss a)"

definition addr_less :: "endian \<Rightarrow> entity_addr \<Rightarrow> entity_addr \<Rightarrow> bool" where
  "addr_less e a b \<longleftrightarrow> memcmp (addr_mem e a) (addr_mem e b) < 0"

definition probably_equals :: "endian \<Rightarrow> entity_addr \<Rightarrow> entity_addr \<Rightarrow> bool" where
  "probably_equals e a b \<longleftrightarrow>
     (if get_port a \<noteq> get_port b then False
      else if addr_nonce a \<noteq> addr_nonce b then False
      else if is_blank_ip a \<or> is_blank_ip b then True
      else memcmp (ss_mem e (addr_ss a)) (ss_mem e (addr_ss b)) = 0)"

definition is_same_host :: "entity_addr \<Rightarrow> entity_addr \<Rightarrow> bool" where
  "is_same_host a b \<longleftrightarrow>
     (if family a \<noteq> family b then False
      else if family a = AF_INET then sin_addr a = sin_addr b
      else if family a = AF_INET6 then sin6_addr a = sin6_addr b else False)"

subsection \<open>Wire form\<close>

text \<open>The family is sent in network order.\<close>

definition htons :: "endian \<Rightarrow> u16 \<Rightarrow> u16" where
  "htons e w = (case e of Little_endian \<Rightarrow> swab16 w | Big_endian \<Rightarrow> w)"

definition encode_ss :: "endian \<Rightarrow> sockaddr_storage encoder" where
  "encode_ss e a = encode_raw (ss_mem e (a\<lparr>ss_family := htons e (ss_family a)\<rparr>))"

definition decode_ss :: "endian \<Rightarrow> sockaddr_storage decoder" where
  "decode_ss e h bl p =
     map_sum (\<lambda>e. e) (\<lambda>(bs, p). (\<lparr>ss_family = htons e (mem_word e (take 2 bs)), ss_data = drop 2 bs\<rparr>, p)) (decode_raw 128 h bl p)"

definition encode_addr :: "endian \<Rightarrow> entity_addr encoder" where
  "encode_addr e a bl h =
     (case encode_u32 e (addr_type a) bl h of
        Inl err \<Rightarrow> Inl err
      | Inr (bl, h) \<Rightarrow>
          (case encode_u32 e (addr_nonce a) bl h of
             Inl err \<Rightarrow> Inl err
           | Inr (bl, h) \<Rightarrow> encode_ss e (addr_ss a) bl h))"

definition decode_addr :: "endian \<Rightarrow> entity_addr decoder" where
  "decode_addr e h bl p =
     (case decode_u32 e h bl p of
        Inl err \<Rightarrow> Inl err
      | Inr (t, p) \<Rightarrow>
          (case decode_u32 e h bl p of
             Inl err \<Rightarrow> Inl err
           | Inr (n, p) \<Rightarrow>
               (case decode_ss e h bl p of
                  Inl err \<Rightarrow> Inl err
                | Inr (s, p) \<Rightarrow> Inr (\<lparr>addr_type = t, addr_nonce = n, addr_ss = s\<rparr>, p))))"

record entity_inst =
  inst_name :: entity_name
  inst_addr :: entity_addr

definition encode_inst :: "endian \<Rightarrow> entity_inst encoder" where
  "encode_inst e i bl h =
     (case encode_name e (inst_name i) bl h of Inl err \<Rightarrow> Inl err | Inr (bl, h) \<Rightarrow> encode_addr e (inst_addr i) bl h)"

definition decode_inst :: "endian \<Rightarrow> entity_inst decoder" where
  "decode_inst e h bl p =
     (case decode_name e h bl p of
        Inl err \<Rightarrow> Inl err
      | Inr (n, p) \<Rightarrow>
          (case decode_addr e h bl p of
             Inl err \<Rightarrow> Inl err
           | Inr (a, p) \<Rightarrow> Inr (\<lparr>inst_name = n, inst_addr = a\<rparr>, p)))"

subsection \<open>Text form\<close>

text \<open>
  \<^verbatim>\<open>inet_pton\<close> is a parameter: the bytes of the address for a text of the family.  A copy loop that fills its
  buffer leaves no room for the null character that is stored behind it: \<open>Inl ()\<close>.
\<close>

definition copy_chars :: "nat \<Rightarrow> (char \<Rightarrow> bool) \<Rightarrow> string \<Rightarrow> unit + string" where
  "copy_chars cap P s =
     (let o' = take cap (takeWhile P s) in if length o' < cap then Inr o' else Inl ())"

definition is_v4_char :: "char \<Rightarrow> bool" where
  "is_v4_char c \<longleftrightarrow> c = CHR ''.'' \<or> isdigit c"

definition is_v6_char :: "char \<Rightarrow> bool" where
  "is_v6_char c \<longleftrightarrow> c = CHR '':'' \<or> digit_value c < 16"

definition expect_number :: "char \<Rightarrow> string \<Rightarrow> (int \<times> string) option" where
  "expect_number c p =
     (case p of d # q \<Rightarrow> (if d = c then Some (atoi q, dropWhile isdigit q) else None) | [] \<Rightarrow> None)"

text \<open>The port and the nonce behind the address.\<close>

definition parse_port_nonce :: "string \<Rightarrow> entity_addr \<Rightarrow> (entity_addr \<times> string) option" where
  "parse_port_nonce p a =
     (case (case expect_number (CHR '':'') p of
              None \<Rightarrow> Some (a, p)
            | Some (port, p) \<Rightarrow> map_option (\<lambda>a. (a, p)) (set_port port a)) of
        None \<Rightarrow> None
      | Some (a, p) \<Rightarrow>
          Some (case expect_number (CHR ''/'') p of
                  None \<Rightarrow> (a, p)
                | Some (non, p) \<Rightarrow> (a\<lparr>addr_nonce := of_int non\<rparr>, p)))"

datatype parse_outcome = Overrun | Refused entity_addr | Port_assertion | Parsed entity_addr string

definition parse_addr :: "(string \<Rightarrow> byte list option) \<Rightarrow> (string \<Rightarrow> byte list option) \<Rightarrow> string \<Rightarrow> parse_outcome" where
  "parse_addr pton4 pton6 s =
     (let brackets = (s \<noteq> [] \<and> hd s = CHR ''[''); start = (if brackets then tl s else s)
      in case (copy_chars 39 is_v4_char start, copy_chars 64 is_v6_char start) of
           (Inr buf4, Inr buf6) \<Rightarrow>
             (case (case pton4 buf4 of
                      Some quad \<Rightarrow> Some (patch 2 quad (blank_addr\<lparr>addr_ss := (addr_ss blank_addr)\<lparr>ss_family := AF_INET\<rparr>\<rparr>), drop (length buf4) start)
                    | None \<Rightarrow>
                        (case pton6 buf6 of
                           Some quad \<Rightarrow> Some (patch 6 quad (blank_addr\<lparr>addr_ss := (addr_ss blank_addr)\<lparr>ss_family := AF_INET6\<rparr>\<rparr>), drop (length buf6) start)
                         | None \<Rightarrow> None)) of
                None \<Rightarrow> Refused blank_addr
              | Some (a, p) \<Rightarrow>
                  (if brackets \<and> (p = [] \<or> hd p \<noteq> CHR '']'') then Refused a
                   else
                     (case parse_port_nonce (if brackets then tl p else p) a of
                        None \<Rightarrow> Port_assertion
                      | Some (a, p) \<Rightarrow> Parsed a p)))
         | _ \<Rightarrow> Overrun)"


section \<open>Codecs\<close>

lemma net16_length [simp]: "length (net16 w) = 2"
  by (simp add: net16_def)

lemma net16_round [simp]: "net16_val (net16 w) = w"
  by (simp add: net16_def net16_val_def of_le_bytes_le_bytes)

lemma mem_htons: "mem_bytes e (htons e w) = net16 w"
  by (cases e) (simp_all add: mem_bytes_def htons_def net16_def le_bytes_swab16)

lemma htons_mem: "htons e (mem_word e (net16 w)) = w"
  by (cases e) (simp_all add: mem_word_def htons_def net16_def of_le_bytes_le_bytes flip: le_bytes_swab16)

lemma decode_raw_reads_map:
  assumes "cursor h bl it" and "remains h bl it = xs @ ys" and "length xs = n" and "f xs = v"
  shows "\<exists>it'. map_sum (\<lambda>e. e) (\<lambda>(bs, p). (f bs, p)) (decode_raw n h bl it) = Inr (v, it') \<and> cursor h bl it' \<and> remains h bl it' = ys"
  using decode_raw_map [OF assms(1-3), of f] assms(4) by simp

interpretation ss_codec: codec "encode_ss e" "decode_ss e'" "\<lambda>s. net16 (ss_family s) @ ss_data s" "\<lambda>s. length (ss_data s) = 126" for e e'
proof
  fix h bl and s :: sockaddr_storage
  assume "ready h bl" "length (ss_data s) = 126" "room bl (length (net16 (ss_family s) @ ss_data s))"
  then show "\<exists>bl' h'. encode_ss e s bl h = Inr (bl', h') \<and> grows h bl (net16 (ss_family s) @ ss_data s) h' bl'"
    by (simp add: encode_ss_def ss_mem_def mem_htons encode_raw_grows)
next
  fix h bl it and s :: sockaddr_storage and ys
  assume "cursor h bl it" "length (ss_data s) = 126" "remains h bl it = (net16 (ss_family s) @ ss_data s) @ ys"
  then show "\<exists>it'. decode_ss e' h bl it = Inr (s, it') \<and> cursor h bl it' \<and> remains h bl it' = ys"
    unfolding decode_ss_def by (intro decode_raw_reads_map [where xs = "net16 (ss_family s) @ ss_data s"]) (simp_all add: htons_mem)
qed

interpretation name_codec: codec "encode_name e" "decode_name e'" "\<lambda>n. name_type n # le_bytes (name_num n)" "\<lambda>_. True" for e e'
proof -
  have p: "codec_pair encode_u8 decode_u8 (\<lambda>v. [v]) (\<lambda>_. True) (encode_u64 e) (decode_u64 e') le_bytes (\<lambda>_. True)"
    by (simp add: codec_pair_def u8_codec.codec_axioms u64_codec.codec_axioms)
  have enc: "encode_pair encode_u8 (encode_u64 e) (name_type v, name_num v) = encode_name e v" for v
    by (auto simp: fun_eq_iff encode_pair_def encode_name_def split: sum.split)
  have dec: "(\<lambda>h bl it. map_sum (\<lambda>e. e) (\<lambda>(x, it). ((case x of (t, v) \<Rightarrow> \<lparr>name_type = t, name_num = v\<rparr>), it)) (decode_pair decode_u8 (decode_u64 e') h bl it)) = decode_name e'"
    by (auto simp: fun_eq_iff decode_pair_def decode_name_def split: sum.split)
  show "codec (encode_name e) (decode_name e') (\<lambda>n. name_type n # le_bytes (name_num n)) (\<lambda>_. True)"
    using codec.iso_codec [OF codec_pair.pair_codec [OF p], of "\<lambda>(t, v). \<lparr>name_type = t, name_num = v\<rparr>" "\<lambda>n. (name_type n, name_num n)"]
    by (simp add: enc dec)
qed


interpretation addr_codec: codec "encode_addr e" "decode_addr e'"
    "\<lambda>a. le_bytes (addr_type a) @ le_bytes (addr_nonce a) @ net16 (family a) @ ss_data (addr_ss a)" addr_ok for e e'
proof -
  have p: "codec_pair (encode_u32 e) (decode_u32 e') le_bytes (\<lambda>_. True) (encode_ss e) (decode_ss e')
      (\<lambda>s. net16 (ss_family s) @ ss_data s) (\<lambda>s. length (ss_data s) = 126)"
    by (simp add: codec_pair_def u32_codec.codec_axioms ss_codec.codec_axioms)
  have q: "codec_pair (encode_u32 e) (decode_u32 e') le_bytes (\<lambda>_. True) (encode_pair (encode_u32 e) (encode_ss e))
      (decode_pair (decode_u32 e') (decode_ss e')) (\<lambda>(x, y). le_bytes x @ net16 (ss_family y) @ ss_data y) (\<lambda>(x, y). True \<and> length (ss_data y) = 126)"
    using codec_pair.pair_codec [OF p] by (simp add: codec_pair_def u32_codec.codec_axioms)
  have enc: "encode_pair (encode_u32 e) (encode_pair (encode_u32 e) (encode_ss e)) (addr_type v, addr_nonce v, addr_ss v) = encode_addr e v" for v
    by (auto simp: fun_eq_iff encode_pair_def encode_addr_def split: sum.split)
  have dec: "(\<lambda>h bl it. map_sum (\<lambda>e. e) (\<lambda>(x, it). ((case x of (t, n, s) \<Rightarrow> \<lparr>addr_type = t, addr_nonce = n, addr_ss = s\<rparr>), it))
      (decode_pair (decode_u32 e') (decode_pair (decode_u32 e') (decode_ss e')) h bl it)) = decode_addr e'"
    by (auto simp: fun_eq_iff decode_pair_def decode_addr_def split: sum.split)
  show "codec (encode_addr e) (decode_addr e') (\<lambda>a. le_bytes (addr_type a) @ le_bytes (addr_nonce a) @ net16 (family a) @ ss_data (addr_ss a)) addr_ok"
    using codec.iso_codec [OF codec_pair.pair_codec [OF q],
        of "\<lambda>(t, n, s). \<lparr>addr_type = t, addr_nonce = n, addr_ss = s\<rparr>" "\<lambda>a. (addr_type a, addr_nonce a, addr_ss a)"]
    by (simp add: enc dec family_def addr_ok_def [abs_def])
qed

interpretation inst_codec: codec "encode_inst e" "decode_inst e'"
    "\<lambda>i. (name_type (inst_name i) # le_bytes (name_num (inst_name i))) @
       le_bytes (addr_type (inst_addr i)) @ le_bytes (addr_nonce (inst_addr i)) @ net16 (family (inst_addr i)) @ ss_data (addr_ss (inst_addr i))"
    "\<lambda>i. addr_ok (inst_addr i)" for e e'
proof -
  have p: "codec_pair (encode_name e) (decode_name e') (\<lambda>n. name_type n # le_bytes (name_num n)) (\<lambda>_. True) (encode_addr e) (decode_addr e')
      (\<lambda>a. le_bytes (addr_type a) @ le_bytes (addr_nonce a) @ net16 (family a) @ ss_data (addr_ss a)) addr_ok"
    by (simp add: codec_pair_def name_codec.codec_axioms addr_codec.codec_axioms)
  have enc: "encode_pair (encode_name e) (encode_addr e) (inst_name v, inst_addr v) = encode_inst e v" for v
    by (auto simp: fun_eq_iff encode_pair_def encode_inst_def split: sum.split)
  have dec: "(\<lambda>h bl it. map_sum (\<lambda>e. e) (\<lambda>(x, it). ((case x of (n, a) \<Rightarrow> \<lparr>inst_name = n, inst_addr = a\<rparr>), it))
      (decode_pair (decode_name e') (decode_addr e') h bl it)) = decode_inst e'"
    by (auto simp: fun_eq_iff decode_pair_def decode_inst_def split: sum.split)
  show "codec (encode_inst e) (decode_inst e') (\<lambda>i. (name_type (inst_name i) # le_bytes (name_num (inst_name i))) @
       le_bytes (addr_type (inst_addr i)) @ le_bytes (addr_nonce (inst_addr i)) @ net16 (family (inst_addr i)) @ ss_data (addr_ss (inst_addr i)))
      (\<lambda>i. addr_ok (inst_addr i))"
    using codec.iso_codec [OF codec_pair.pair_codec [OF p], of "\<lambda>(n, a). \<lparr>inst_name = n, inst_addr = a\<rparr>" "\<lambda>i. (inst_name i, inst_addr i)"]
    by (simp add: enc dec)
qed

section \<open>Ports\<close>

lemma addr_patch_ok: "addr_ok a \<Longrightarrow> k + length bs \<le> 126 \<Longrightarrow> addr_ok (patch k bs a)"
  by (simp add: addr_ok_def patch_def)

lemma patch_simps [simp]:
  "family (patch k bs a) = family a" "addr_nonce (patch k bs a) = addr_nonce a" "addr_type (patch k bs a) = addr_type a"
  by (simp_all add: patch_def family_def)

lemma patch_port:
  assumes "addr_ok a" and "length bs = 2"
  shows "take 2 (ss_data (addr_ss (patch 0 bs a))) = bs" "drop 2 (ss_data (addr_ss (patch 0 bs a))) = drop 2 (ss_data (addr_ss a))"
  using assms by (simp_all add: patch_def numeral_2_eq_2)

lemma patch_sin_addr: "addr_ok a \<Longrightarrow> length quad = 4 \<Longrightarrow> sin_addr (patch 2 quad a) = quad"
  by (simp add: sin_addr_def patch_def addr_ok_def)

lemma blank_family_ok: "addr_ok (blank_addr\<lparr>addr_ss := (addr_ss blank_addr)\<lparr>ss_family := f\<rparr>\<rparr>)"
  by (simp add: addr_ok_def blank_addr_def)

lemma set_port_effect:
  assumes "addr_ok a" and "set_port p a = Some b"
  shows "addr_ok b \<and> get_port b = p mod 2 ^ 16 \<and> family b = family a \<and> addr_nonce b = addr_nonce a \<and> addr_type b = addr_type a \<and>
    drop 2 (ss_data (addr_ss b)) = drop 2 (ss_data (addr_ss a))"
proof -
  have b: "b = patch 0 (net16 (of_int p)) a" and f: "family a = AF_INET \<or> family a = AF_INET6"
    using assms(2) by (auto simp: set_port_def split: if_splits)
  have "get_port b = uint (of_int p :: u16)" using f by (simp add: b get_port_def patch_port [OF assms(1)])
  then show ?thesis using patch_port [OF assms(1), of "net16 (of_int p)"] addr_patch_ok [OF assms(1), of 0 "net16 (of_int p)"]
    by (simp add: b uint_word_of_int)
qed

lemma sin_addr_rest: "sin_addr a = take 4 (drop 2 (ss_data (addr_ss a)))" "sin6_addr a = take 16 (drop 4 (drop 2 (ss_data (addr_ss a))))"
  by (simp_all add: sin_addr_def sin6_addr_def)

lemma set_port_keeps_host:
  assumes "addr_ok a" and "set_port p a = Some b"
  shows "is_blank_ip b = is_blank_ip a" "is_same_host a b"
  using set_port_effect [OF assms] assms(2) by (auto simp: is_blank_ip_def is_same_host_def sin_addr_rest set_port_def split: if_splits)


section \<open>Text of names\<close>

lemma sint_of_int_back: "of_int (sint w) = (w :: u64)"
  by simp

lemma parse_printed:
  assumes "parse_prefix (t @ dec k) = Some (ty, length t)" and "int k \<le> LLONG_MAX"
  shows "parse_whole_name (t @ dec k) n = Some (True, \<lparr>name_type = ty, name_num = of_nat k\<rparr>)"
proof -
  have "strtoll (dec k) 10 = (int k, No_error, [])"
    using strtoll_digits [of "dec k"] dec_digits assms(2) by simp
  moreover obtain c ds where "dec k = c # ds" "\<not> isspace c" using dec_head digit_not_special(1) by metis
  ultimately show ?thesis using assms(1) by (simp add: parse_whole_name_def parse_name_def Let_def)
qed

lemma parse_prefix_names [simp]:
  "parse_prefix (''mon.'' @ s) = Some (TYPE_MON, 4)" "parse_prefix (''osd.'' @ s) = Some (TYPE_OSD, 5)"
  "parse_prefix (''client.'' @ s) = Some (TYPE_CLIENT, 7)"
  by (simp_all add: parse_prefix_def numeral_eq_Suc)

lemma show_name_nonneg:
  "0 \<le> sint (name_num n) \<Longrightarrow> show_name n = entity_type_name (name_type n) @ ''.'' @ dec (nat (sint (name_num n)))"
  by (simp add: show_name_def is_new_def show_int_def)

lemma nat_sint_bound: "int (nat (sint (w :: u64))) \<le> LLONG_MAX"
  using sint_lt [of w] by (simp add: LLONG_MAX_def)

lemma entity_type_names [simp]: "entity_type_name TYPE_MON = ''mon''" "entity_type_name TYPE_CLIENT = ''client''" "entity_type_name TYPE_OSD = ''osd''"
  by (simp_all add: entity_type_name_def TYPE_MON_def TYPE_CLIENT_def TYPE_MDS_def TYPE_OSD_def)

lemma of_nat_nat_sint: "0 \<le> sint w \<Longrightarrow> of_nat (nat (sint w)) = (w :: u64)"
proof -
  assume "0 \<le> sint w"
  then have "int (nat (sint w)) = sint w" by simp
  then have "of_int (int (nat (sint w))) = (of_int (sint w) :: u64)" by (rule arg_cong)
  then show ?thesis by (simp only: of_int_of_nat_eq of_int_sint) simp
qed

lemma name_eq: "name_type n = t \<Longrightarrow> name_num n = v \<Longrightarrow> n = \<lparr>name_type = t, name_num = v\<rparr>"
  by (cases n) simp

text \<open>
  The printed name of a monitor or a client is read back as the same name.
\<close>

theorem printed_name_read_back:
  assumes "name_type n = TYPE_MON \<or> name_type n = TYPE_CLIENT" and "0 \<le> sint (name_num n)"
  shows "parse_whole_name (show_name n) m = Some (True, n)"
  using assms(1)
proof
  let ?k = "nat (sint (name_num n))"
  note k = of_nat_nat_sint [OF assms(2)]
  {
    assume t: "name_type n = TYPE_MON"
    have "parse_whole_name (''mon.'' @ dec ?k) m = Some (True, \<lparr>name_type = TYPE_MON, name_num = of_nat ?k\<rparr>)"
      by (rule parse_printed [OF _ nat_sint_bound]) (simp only: parse_prefix_names, simp)
    then show ?thesis using show_name_nonneg [OF assms(2)] t by (simp add: k flip: name_eq [OF t refl])
  next
    assume t: "name_type n = TYPE_CLIENT"
    have "parse_whole_name (''client.'' @ dec ?k) m = Some (True, \<lparr>name_type = TYPE_CLIENT, name_num = of_nat ?k\<rparr>)"
      by (rule parse_printed [OF _ nat_sint_bound]) (simp only: parse_prefix_names, simp)
    then show ?thesis using show_name_nonneg [OF assms(2)] t by (simp add: k flip: name_eq [OF t refl])
  }
qed

theorem printed_name_read_back_witness:
  "parse_whole_name (show_name \<lparr>name_type = TYPE_CLIENT, name_num = 42\<rparr>) \<lparr>name_type = 0, name_num = 0\<rparr> =
     Some (True, \<lparr>name_type = TYPE_CLIENT, name_num = 42\<rparr>)"
  by (rule printed_name_read_back) simp_all

text \<open>
  The printed name of an \<^verbatim>\<open>osd\<close> is not: the first digit of its number is skipped, and a name with one digit
  is refused.
\<close>

theorem printed_osd_name_loses_digit:
  assumes "name_type n = TYPE_OSD" and "0 \<le> sint (name_num n)" and "dec (nat (sint (name_num n))) = d # ds"
  shows "parse_whole_name (show_name n) m = Some (ds \<noteq> [], \<lparr>name_type = TYPE_OSD, name_num = of_nat (numeral_value 10 ds)\<rparr>)"
proof -
  let ?k = "nat (sint (name_num n))"
  have s: "show_name n = ''osd.'' @ d # ds" using show_name_nonneg [OF assms(2)] assms(1,3) by simp
  have digits: "\<forall>c \<in> set ds. isdigit c" using dec_digits [of _ ?k] assms(3) by simp
  have "numeral_value 10 ds \<le> numeral_value 10 (dec ?k)" using assms(3) by (simp add: numeral_value_Cons)
  then have "int (numeral_value 10 ds) \<le> int ?k" by (simp only: dec_value zle_int)
  then have "int (numeral_value 10 ds) \<le> LLONG_MAX" using nat_sint_bound by (rule order_trans)
  then have "strtoll ds 10 = (int (numeral_value 10 ds), No_error, [])" by (rule strtoll_digits [OF digits])
  moreover have "ds \<noteq> [] \<Longrightarrow> \<not> isspace (hd ds)" using digits digit_not_special(1) by (cases ds) auto
  ultimately show ?thesis using s by (cases ds) (simp_all add: parse_whole_name_def parse_name_def Let_def parse_prefix_def)
qed

theorem printed_osd_name_loses_digit_witness:
  "parse_whole_name (show_name \<lparr>name_type = TYPE_OSD, name_num = 7\<rparr>) \<lparr>name_type = 0, name_num = 0\<rparr> =
     Some (False, \<lparr>name_type = TYPE_OSD, name_num = 0\<rparr>)"
  using printed_osd_name_loses_digit [of "\<lparr>name_type = TYPE_OSD, name_num = 7\<rparr>" "digit_char 7" "[]"]
  by (simp add: dec.simps numeral_value_def)


section \<open>Text of addresses\<close>

lemma to_int_word: "of_int (to_int v) = (of_int v :: u32)"
proof -
  have "((v + 2 ^ 31) mod 2 ^ 32 - 2 ^ 31) mod 2 ^ 32 = (v :: int) mod 2 ^ 32" unfolding mod_diff_left_eq by simp
  then show ?thesis unfolding to_int_def word_of_int_eq_iff by (simp only: take_bit_eq_mod) simp
qed

lemma atoi_dec:
  assumes "t = [] \<or> \<not> isdigit (hd t)" and "int k \<le> LLONG_MAX"
  shows "atoi (dec k @ t) = to_int (int k)"
  using strtoll_show [OF assms(1), of "int k"] assms(2)
  by (simp add: atoi_def show_int_nat clamp_def LLONG_MIN_def)

lemma expect_number_dec:
  assumes "t = [] \<or> \<not> isdigit (hd t)" and "int k \<le> LLONG_MAX"
  shows "expect_number c (c # dec k @ t) = Some (to_int (int k), t)"
proof -
  have "dropWhile isdigit (dec k @ t) = t" using dec_prefix(2) [OF assms(1)] by (simp add: isdigit_value cong: dropWhile_cong)
  then show ?thesis by (simp add: expect_number_def atoi_dec [OF assms])
qed


text \<open>The text a stream prints for an address, with the host part of \<^verbatim>\<open>getnameinfo\<close>.\<close>

definition show_addr :: "string \<Rightarrow> nat \<Rightarrow> nat \<Rightarrow> string" where
  "show_addr host port nonce = host @ '':'' @ dec port @ ''/'' @ dec nonce"

lemma copy_chars_small:
  assumes "length (takeWhile P s) < cap"
  shows "copy_chars cap P s = Inr (takeWhile P s)"
  using assms by (simp add: copy_chars_def Let_def)

lemma not_v4 [simp]: "\<not> is_v4_char (CHR '':'')" "\<not> is_v6_char (CHR ''/'')" "\<not> isdigit (CHR ''/'')"
  by (simp_all add: is_v4_char_def is_v6_char_def isdigit_def digit_value_def)

lemma takeWhile_upto: "\<not> P c \<Longrightarrow> length (takeWhile P (xs @ c # ys)) \<le> length xs"
  by (induction xs) auto

text \<open>
  C30. A printed IPv4 address is parsed back: host, port and nonce, with nothing left over.
\<close>

theorem printed_address_read_back:
  assumes "pton4 host = Some quad" and "length quad = 4" and "list_all is_v4_char host" and "length host < 39"
    and "port < 2 ^ 16" and "nonce < 2 ^ 32"
  shows "\<exists>a. parse_addr pton4 pton6 (show_addr host port nonce) = Parsed a [] \<and> addr_ok a \<and> family a = AF_INET \<and>
    sin_addr a = quad \<and> get_port a = int port \<and> addr_nonce a = of_nat nonce \<and> addr_type a = 0"
proof -
  let ?s = "show_addr host port nonce" and ?rest = "CHR '':'' # dec port @ CHR ''/'' # dec nonce"
  let ?a = "patch 2 quad (blank_addr\<lparr>addr_ss := (addr_ss blank_addr)\<lparr>ss_family := AF_INET\<rparr>\<rparr>)"
  have s: "?s = host @ ?rest" by (simp add: show_addr_def)
  have bracket: "\<not> (?s \<noteq> [] \<and> hd ?s = CHR ''['')"
    using assms(3) by (cases host) (auto simp: show_addr_def is_v4_char_def isdigit_def)
  have "takeWhile is_v4_char ?s = host" using assms(3) by (simp add: s list_all_iff)
  then have 4: "copy_chars 39 is_v4_char ?s = Inr host" using copy_chars_small [of is_v4_char ?s 39] assms(4) by simp
  have "length (dec port) \<le> 5" using assms(5) by (intro dec_short) auto
  moreover have "length (takeWhile is_v6_char ((host @ CHR '':'' # dec port) @ CHR ''/'' # dec nonce)) \<le> length (host @ CHR '':'' # dec port)"
    by (rule takeWhile_upto) simp
  ultimately have "length (takeWhile is_v6_char ?s) < 64" using assms(4) by (simp add: s)
  then have 6: "copy_chars 64 is_v6_char ?s = Inr (takeWhile is_v6_char ?s)" by (rule copy_chars_small)
  have ok: "addr_ok ?a" by (rule addr_patch_ok [OF blank_family_ok]) (simp add: assms(2))
  have fam: "family ?a = AF_INET" by (simp add: family_def patch_def)
  obtain b where b: "set_port (to_int (int port)) ?a = Some b" using fam by (simp add: set_port_def)
  note eff = set_port_effect [OF ok b]
  have port: "expect_number (CHR '':'') ?rest = Some (to_int (int port), CHR ''/'' # dec nonce)"
    using expect_number_dec [of "CHR ''/'' # dec nonce" port] assms(5) by (simp add: LLONG_MAX_def)
  have non: "expect_number (CHR ''/'') (CHR ''/'' # dec nonce) = Some (to_int (int nonce), [])"
    using expect_number_dec [of "[]" nonce] assms(6) by (simp add: LLONG_MAX_def)
  have "parse_port_nonce ?rest ?a = Some (b\<lparr>addr_nonce := of_nat nonce\<rparr>, [])"
    by (simp add: parse_port_nonce_def port non b to_int_word)
  then have "parse_addr pton4 pton6 ?s = Parsed (b\<lparr>addr_nonce := of_nat nonce\<rparr>) []"
    using bracket assms(1) by (simp add: parse_addr_def Let_def 4 6) (simp add: s)
  moreover have "sin_addr b = quad"
    using eff patch_sin_addr [OF blank_family_ok assms(2)] by (simp add: sin_addr_rest)
  moreover have "get_port b = int port" using eff assms(5) by (simp add: to_int_def)
  moreover have "addr_type b = 0" using eff by (simp add: blank_addr_def patch_simps)
  ultimately show ?thesis using eff fam
    by (intro exI [of _ "b\<lparr>addr_nonce := of_nat nonce\<rparr>"]) (simp add: addr_ok_def family_def sin_addr_def get_port_def)
qed


theorem printed_address_read_back_witness:
  "\<exists>a. parse_addr (\<lambda>s. if s = ''1.2.3.4'' then Some [1, 2, 3, 4] else None) (\<lambda>_. None) (show_addr ''1.2.3.4'' 6800 77) = Parsed a [] \<and>
     addr_ok a \<and> family a = AF_INET \<and> sin_addr a = [1, 2, 3, 4] \<and> get_port a = int 6800 \<and> addr_nonce a = of_nat 77 \<and> addr_type a = 0"
  by (rule printed_address_read_back) (simp_all add: is_v4_char_def isdigit_def)

text \<open>
  C29. An instance (name and address) encoded on one host is decoded to the same instance on any other, of
  either byte order.
\<close>

theorem instance_round_trip:
  assumes "heap_ok h" and "addr_ok (inst_addr i)"
  shows "\<exists>bl h'. encode_inst e i bl_new h = Inr (bl, h') \<and> decode_full (decode_inst e') h' bl = Inr i"
proof (rule inst_codec.full_round_trip [OF assms])
  show "length ((name_type (inst_name i) # le_bytes (name_num (inst_name i))) @ le_bytes (addr_type (inst_addr i)) @
      le_bytes (addr_nonce (inst_addr i)) @ net16 (family (inst_addr i)) @ ss_data (addr_ss (inst_addr i))) \<le> 2 ^ 32 - MSGR_PAGE_SIZE"
    using assms(2) by (simp add: addr_ok_def MSGR_PAGE_SIZE_def)
qed

theorem instance_round_trip_witness:
  "\<exists>bl h'. encode_inst Little_endian \<lparr>inst_name = \<lparr>name_type = TYPE_OSD, name_num = 3\<rparr>, inst_addr = blank_addr\<lparr>addr_nonce := 9\<rparr>\<rparr> bl_new sample_heap = Inr (bl, h') \<and>
     decode_full (decode_inst Big_endian) h' bl = Inr \<lparr>inst_name = \<lparr>name_type = TYPE_OSD, name_num = 3\<rparr>, inst_addr = blank_addr\<lparr>addr_nonce := 9\<rparr>\<rparr>"
proof (rule instance_round_trip)
  show "heap_ok sample_heap" using sample_list_ok by (simp add: list_ok_def)
qed (simp add: addr_ok_def blank_addr_def)

text \<open>
  A text that starts with 39 characters of an IPv4 address makes \<^verbatim>\<open>parse\<close> write behind its buffer: the loop
  may fill all 39 bytes and the terminating null character goes to the byte after them.
\<close>

lemma long_text_overruns:
  assumes "39 \<le> length (takeWhile is_v4_char s)" and "s \<noteq> []" and "hd s \<noteq> CHR ''[''"
  shows "parse_addr pton4 pton6 s = Overrun"
  using assms by (simp add: parse_addr_def Let_def copy_chars_def)

text \<open>
  The order of addresses is the order of their memory, so that it depends on the byte order of the host:
  the nonces 1 and 256 are ordered differently on the two kinds.
\<close>

lemma address_order_depends_on_host:
  defines "a \<equiv> blank_addr\<lparr>addr_nonce := 1\<rparr>" and "b \<equiv> blank_addr\<lparr>addr_nonce := 256\<rparr>"
  shows "addr_less Little_endian b a \<and> addr_less Big_endian a b"
  by (simp add: a_def b_def addr_less_def addr_mem_def mem_bytes_def blank_addr_def le_bytes_expand)

text \<open>On one host the order is a strict total order on well-formed addresses.\<close>

lemma memcmp_zero: "length xs = length ys \<Longrightarrow> memcmp xs ys = 0 \<longleftrightarrow> xs = ys"
  by (induction xs ys rule: memcmp.induct) (auto split: if_splits)

lemma memcmp_swap: "memcmp ys xs = - memcmp xs ys"
  by (induction xs ys rule: memcmp.induct) (auto simp: not_less)

end
