(* ===== verification/Identify.thy ===== *)
theory Identify
  imports Handshake_Live Entity
begin

text \<open>
  The first bytes of a connection (\<^verbatim>\<open>src/src/async/AsyncConnection.cc\<close>): banners, the addresses the two sides
  claim to have, the address a host learns from its peer (\<^verbatim>\<open>src/src/async/AsyncMessenger.cc\<close>), and the resolution of
  a race by the order of the addresses.
\<close>

section \<open>Addresses as bytes\<close>

text \<open>The wire form is the one of the codec of addresses; the memory form is the one the registry is keyed by.\<close>

definition addr_wire :: "entity_addr \<Rightarrow> byte list" where
  "addr_wire a = le_bytes (addr_type a) @ le_bytes (addr_nonce a) @ net16 (family a) @ ss_data (addr_ss a)"

definition addr_of_wire :: "byte list \<Rightarrow> entity_addr" where
  "addr_of_wire bs = \<lparr>addr_type = of_le_bytes (field 0 4 bs), addr_nonce = of_le_bytes (field 4 4 bs),
     addr_ss = \<lparr>ss_family = net16_val (field 8 2 bs), ss_data = field 10 126 bs\<rparr>\<rparr>"

definition addr_of_mem :: "endian \<Rightarrow> byte list \<Rightarrow> entity_addr" where
  "addr_of_mem e bs = \<lparr>addr_type = mem_word e (field 0 4 bs), addr_nonce = mem_word e (field 4 4 bs),
     addr_ss = \<lparr>ss_family = mem_word e (field 8 2 bs), ss_data = field 10 126 bs\<rparr>\<rparr>"

definition MSGR_BANNER :: "byte list" where
  "MSGR_BANNER = map of_char ''msgr v001''"

section \<open>The messenger's own address\<close>

record identity =
  need_addr :: bool
  my_inst_addr :: entity_addr

text \<open>\<open>None\<close>: the assertion of \<^verbatim>\<open>set_port\<close>.\<close>

definition learned_addr :: "entity_addr \<Rightarrow> identity \<Rightarrow> identity option" where
  "learned_addr peer_addr_for_me I =
     (if \<not> need_addr I then Some I
      else
        (case set_port (get_port (my_inst_addr I)) peer_addr_for_me of
           None \<Rightarrow> None
         | Some t \<Rightarrow> Some (I\<lparr>need_addr := False, my_inst_addr := (my_inst_addr I)\<lparr>addr_ss := addr_ss t\<rparr>\<rparr>)))"

definition set_addr_unknowns :: "entity_addr \<Rightarrow> identity \<Rightarrow> identity option" where
  "set_addr_unknowns a I =
     (if is_blank_ip (my_inst_addr I)
      then map_option (\<lambda>t. I\<lparr>my_inst_addr := t\<rparr>)
             (set_port (get_port (my_inst_addr I)) ((my_inst_addr I)\<lparr>addr_ss := addr_ss a\<rparr>))
      else Some I)"

section \<open>The connecting side\<close>

text \<open>\<^verbatim>\<open>STATE_CONNECTING\<close>; the socket is the result of \<^verbatim>\<open>nonblock_connect\<close>, \<open>None\<close> the assertion on the policy.\<close>

definition start_connecting :: "'w option \<Rightarrow> nat \<Rightarrow> 'w messenger \<Rightarrow> (bool \<times> 'w messenger) option" where
  "start_connecting sock i M =
     (if server_policy (pol (con M i)) then None
      else
        (let (g, M) = get_global_seq 0 M;
             c = (con M i)\<lparr>got_bad_auth := False, authorizer := None, connect_msg := zero_connect, connect_reply := zero_reply,
                    global_seq := g, has_sd := False\<rparr>
         in case sock of
              None \<Rightarrow> Some (False, upd_con i c M)
            | Some w \<Rightarrow> Some (True, upd_con i (c\<lparr>wire := w, has_sd := True, cst := STATE_CONNECTING_WAIT_BANNER\<rparr>) M)))"

text \<open>\<^verbatim>\<open>STATE_CONNECTING_WAIT_BANNER\<close> behind \<^verbatim>\<open>read_until\<close>.\<close>

definition got_banner :: "'w menv \<Rightarrow> byte list \<Rightarrow> 'w peer_conn \<Rightarrow> int \<times> 'w peer_conn" where
  "got_banner E bs c =
     (if memcmp bs MSGR_BANNER \<noteq> 0 then (-1, c) else then_state STATE_CONNECTING_WAIT_IDENTIFY_PEER (try_put E bs c))"

text \<open>\<^verbatim>\<open>STATE_CONNECTING_WAIT_IDENTIFY_PEER\<close> behind \<^verbatim>\<open>read_until\<close>.\<close>

definition got_identity :: "'w menv \<Rightarrow> byte list \<Rightarrow> identity \<Rightarrow> 'w peer_conn \<Rightarrow> (int \<times> identity \<times> 'w peer_conn) option" where
  "got_identity E bs I c =
     (let paddr = addr_of_wire (take 136 bs); peer_addr_for_me = addr_of_wire (drop 136 bs);
          mine = addr_of_mem (host_order E) (peer_addr c)
      in if peer_addr c \<noteq> addr_mem (host_order E) paddr \<and>
            \<not> (is_blank_ip paddr \<and> get_port mine = get_port paddr \<and> addr_nonce mine = addr_nonce paddr)
         then Some (-1, I, c)
         else
           (case learned_addr peer_addr_for_me I of
              None \<Rightarrow> None
            | Some I \<Rightarrow>
                (let (r, c) = then_state STATE_CONNECTING_SEND_CONNECT_MSG (try_put E (addr_wire (my_inst_addr I)) c)
                 in Some (r, I, c))))"

section \<open>The accepting side\<close>

text \<open>
  \<^verbatim>\<open>STATE_ACCEPTING\<close>: the bytes of \<^verbatim>\<open>getpeername\<close> are stored in \<^verbatim>\<open>socket_addr\<close>; \<open>None\<close> is an error of the
  socket calls.
\<close>

definition start_accepting ::
    "'w menv \<Rightarrow> identity \<Rightarrow> sockaddr_storage option \<Rightarrow> entity_addr \<Rightarrow> 'w peer_conn \<Rightarrow> int \<times> entity_addr \<times> 'w peer_conn" where
  "start_accepting E I sockname socket_addr c =
     (case sockname of
        None \<Rightarrow> (-1, socket_addr, c)
      | Some ss \<Rightarrow>
          (let socket_addr = socket_addr\<lparr>addr_ss := ss\<rparr>;
               (r, c) = then_state STATE_ACCEPTING_WAIT_BANNER_ADDR
                          (try_put E (MSGR_BANNER @ addr_wire (my_inst_addr I) @ addr_wire socket_addr) c)
           in (r, socket_addr, c)))"

text \<open>\<^verbatim>\<open>STATE_ACCEPTING_WAIT_BANNER_ADDR\<close> behind \<^verbatim>\<open>read_until\<close>; \<open>None\<close> is the assertion of \<^verbatim>\<open>set_port\<close>.\<close>

definition got_banner_addr :: "'w menv \<Rightarrow> entity_addr \<Rightarrow> byte list \<Rightarrow> 'w peer_conn \<Rightarrow> (int \<times> 'w peer_conn) option" where
  "got_banner_addr E socket_addr bs c =
     (if memcmp (take 9 bs) MSGR_BANNER \<noteq> 0 then Some (-1, c)
      else
        (let a = addr_of_wire (drop 9 bs)
         in case (if is_blank_ip a then set_port (get_port a) (a\<lparr>addr_ss := addr_ss socket_addr\<rparr>) else Some a) of
              None \<Rightarrow> None
            | Some a \<Rightarrow> Some (0, c\<lparr>peer_addr := addr_mem (host_order E) a, cst := STATE_ACCEPTING_WAIT_CONNECT_MSG\<rparr>)))"

section \<open>Laws\<close>

lemma length_banner [simp]: "length MSGR_BANNER = 9"
  by (simp add: MSGR_BANNER_def)

lemma length_addr_wire [simp]: "addr_ok a \<Longrightarrow> length (addr_wire a) = 136"
  by (simp add: addr_wire_def addr_ok_def)

lemma addr_of_wire_prefix:
  assumes "addr_ok a"
  shows "addr_of_wire (addr_wire a) = a"
  using assms by (cases a; cases "addr_ss a")
    (simp add: addr_of_wire_def addr_wire_def field_def addr_ok_def family_def of_le_bytes_le_bytes)

lemma addr_of_mem_mem:
  assumes "addr_ok a"
  shows "addr_of_mem e (addr_mem e a) = a"
  using assms by (cases a; cases "addr_ss a"; cases e)
    (simp_all add: addr_of_mem_def addr_mem_def ss_mem_def mem_bytes_def mem_word_def field_def addr_ok_def of_le_bytes_le_bytes)

lemma addr_mem_inj: "addr_ok a \<Longrightarrow> addr_ok b \<Longrightarrow> addr_mem e a = addr_mem e b \<Longrightarrow> a = b"
  by (metis addr_of_mem_mem)


lemma memcmp_refl [simp]: "memcmp xs xs = 0"
  by (simp add: memcmp_zero)

text \<open>A socket that takes everything and shows the peer what was written.\<close>

definition records :: "byte list menv \<Rightarrow> bool" where
  "records E \<longleftrightarrow> (\<forall>q w. take_bytes E q w = (Some (length q), w @ q))"

lemma try_put_records:
  assumes "records E"
  shows "then_state st (try_put E bs c) =
    (0, c\<lparr>psess := (psess c)\<lparr>outcoming_bl := []\<rparr>, wire := wire c @ outcoming_bl (psess c) @ bs, cst := st\<rparr>)"
  using assms by (simp add: records_def try_put_def then_state_def Let_def)

lemma addr_ss_only [simp]:
  "family (x\<lparr>addr_ss := addr_ss t\<rparr>) = family t" "sin_addr (x\<lparr>addr_ss := addr_ss t\<rparr>) = sin_addr t"
  "sin6_addr (x\<lparr>addr_ss := addr_ss t\<rparr>) = sin6_addr t" "addr_ok (x\<lparr>addr_ss := addr_ss t\<rparr>) = addr_ok t"
  by (simp_all add: family_def sin_addr_def sin6_addr_def addr_ok_def)

lemma host_ss_only [simp]:
  "is_same_host a (x\<lparr>addr_ss := addr_ss t\<rparr>) = is_same_host a t" "get_port (x\<lparr>addr_ss := addr_ss t\<rparr>) = get_port t"
  by (simp_all add: is_same_host_def get_port_def)

lemma learned_addr_ok:
  assumes "learned_addr a I = Some I'" and "addr_ok a" and "addr_ok (my_inst_addr I)"
  shows "addr_ok (my_inst_addr I') \<and> addr_nonce (my_inst_addr I') = addr_nonce (my_inst_addr I) \<and>
    (need_addr I \<longrightarrow> is_same_host a (my_inst_addr I') \<and> get_port (my_inst_addr I') = get_port (my_inst_addr I))"
proof (cases "need_addr I")
  case True
  then obtain t where t: "set_port (get_port (my_inst_addr I)) a = Some t"
    and I': "my_inst_addr I' = (my_inst_addr I)\<lparr>addr_ss := addr_ss t\<rparr>"
    using assms(1) by (auto simp: learned_addr_def split: option.splits)
  have "get_port (my_inst_addr I) mod 2 ^ 16 = get_port (my_inst_addr I)"
    using uint_bounded [of "net16_val (take 2 (ss_data (addr_ss (my_inst_addr I))))"] by (auto simp: get_port_def)
  then show ?thesis using set_port_effect [OF assms(2) t] set_port_keeps_host [OF assms(2) t] I'
    by simp
next
  case False
  then show ?thesis using assms by (simp add: learned_addr_def)
qed

lemma learned_addr_some:
  assumes "is_ip a"
  shows "\<exists>I'. learned_addr a I = Some I'"
  using assms by (auto simp: learned_addr_def set_port_def is_ip_def)

lemma received_banner [simp]: "take 9 (MSGR_BANNER @ xs) = MSGR_BANNER" "drop 9 (MSGR_BANNER @ xs) = xs"
  by (simp_all del: length_banner add: length_banner [symmetric])

section \<open>Identification\<close>

lemma got_identity_peer:
  assumes E: "records E" and a: "addr_ok (my_inst_addr Is)" "addr_ok sock" "is_ip sock" "addr_ok (my_inst_addr Ic)"
    and c: "peer_addr c = addr_mem (host_order E) (my_inst_addr Is)"
  shows "\<exists>Ic' c'. got_identity E (addr_wire (my_inst_addr Is) @ addr_wire sock) Ic c = Some (0, Ic', c') \<and>
    learned_addr sock Ic = Some Ic' \<and> cst c' = STATE_CONNECTING_SEND_CONNECT_MSG \<and>
    wire c' = wire c @ outcoming_bl (psess c) @ addr_wire (my_inst_addr Ic')"
proof -
  have "addr_of_wire (take 136 (addr_wire (my_inst_addr Is) @ addr_wire sock)) = my_inst_addr Is"
      "addr_of_wire (drop 136 (addr_wire (my_inst_addr Is) @ addr_wire sock)) = sock"
    using a by (simp_all add: addr_of_wire_prefix)
  moreover obtain Ic' where "learned_addr sock Ic = Some Ic'" using learned_addr_some [OF a(3)] by blast
  ultimately show ?thesis using c by (simp add: got_identity_def Let_def try_put_records [OF E])
qed

lemma got_banner_addr_known:
  assumes "addr_ok a" and "\<not> is_blank_ip a"
  shows "got_banner_addr E sock (MSGR_BANNER @ addr_wire a) c =
    Some (0, c\<lparr>peer_addr := addr_mem (host_order E) a, cst := STATE_ACCEPTING_WAIT_CONNECT_MSG\<rparr>)"
  using assms by (simp add: got_banner_addr_def Let_def addr_of_wire_prefix)

text \<open>
  C6. When a host dials the address its peer has, both sides pass the identification; the accepting side
  knows the connecting one by the address that one goes on to use, with the port and the nonce it has, and,
  if it had to be learned, the host part the socket shows.
\<close>

theorem identification_agrees:
  assumes "records Ec" and "records Es"
    and "addr_ok (my_inst_addr Ic)" and "addr_ok (my_inst_addr Is)"
    and "addr_ok sock" and "is_ip sock" and "\<not> is_blank_ip sock"
    and "need_addr Ic \<or> \<not> is_blank_ip (my_inst_addr Ic)"
    and "peer_addr c = addr_mem (host_order Ec) (my_inst_addr Is)"
    and "wire c = []" and "outcoming_bl (psess c) = []" and "wire s = []" and "outcoming_bl (psess s) = []"
  shows "\<exists>sock' s1 c1 Ic' c2 s2. start_accepting Es Is (Some (addr_ss sock)) (sock\<lparr>addr_ss := ss\<rparr>) s = (0, sock', s1) \<and>
    got_banner Ec (take 9 (wire s1)) c = (0, c1) \<and> got_identity Ec (drop 9 (wire s1)) Ic c1 = Some (0, Ic', c2) \<and>
    got_banner_addr Es sock' (wire c2) s1 = Some (0, s2) \<and>
    cst c2 = STATE_CONNECTING_SEND_CONNECT_MSG \<and> cst s2 = STATE_ACCEPTING_WAIT_CONNECT_MSG \<and>
    peer_addr s2 = addr_mem (host_order Es) (my_inst_addr Ic') \<and>
    addr_nonce (my_inst_addr Ic') = addr_nonce (my_inst_addr Ic) \<and>
    (need_addr Ic \<longrightarrow> is_same_host sock (my_inst_addr Ic') \<and> get_port (my_inst_addr Ic') = get_port (my_inst_addr Ic))"
proof -
  let ?b = "MSGR_BANNER @ addr_wire (my_inst_addr Is) @ addr_wire sock"
  obtain s1 where s1: "start_accepting Es Is (Some (addr_ss sock)) (sock\<lparr>addr_ss := ss\<rparr>) s = (0, sock, s1)" "wire s1 = ?b"
    using assms(12,13) by (simp add: start_accepting_def Let_def try_put_records [OF assms(2)])
  obtain c1 where c1: "got_banner Ec (take 9 (wire s1)) c = (0, c1)" "wire c1 = MSGR_BANNER" "outcoming_bl (psess c1) = []"
      "peer_addr c1 = peer_addr c"
    using assms(10,11) by (simp add: got_banner_def s1(2) try_put_records [OF assms(1)])
  obtain Ic' c2 where c2: "got_identity Ec (drop 9 (wire s1)) Ic c1 = Some (0, Ic', c2)" "learned_addr sock Ic = Some Ic'"
      "cst c2 = STATE_CONNECTING_SEND_CONNECT_MSG" "wire c2 = MSGR_BANNER @ addr_wire (my_inst_addr Ic')"
    using got_identity_peer [OF assms(1,4-6,3), of c1] assms(9) c1(2-4) s1(2) by auto
  note l = learned_addr_ok [OF c2(2) assms(5,3)]
  have "\<not> is_blank_ip (my_inst_addr Ic')"
    using assms(6-8) l c2(2) by (auto simp: is_blank_ip_def is_same_host_def is_ip_def learned_addr_def split: if_splits)
  then have "got_banner_addr Es sock (wire c2) s1 = Some (0, s1\<lparr>peer_addr := addr_mem (host_order Es) (my_inst_addr Ic'),
      cst := STATE_ACCEPTING_WAIT_CONNECT_MSG\<rparr>)"
    by (simp add: c2(4) got_banner_addr_known [OF conjunct1 [OF l]])
  then show ?thesis using s1(1) c1(1) c2(1,3) l
    by (intro exI [of _ sock] exI [of _ s1] exI [of _ c1] exI [of _ Ic'] exI [of _ c2]
        exI [of _ "s1\<lparr>peer_addr := addr_mem (host_order Es) (my_inst_addr Ic'), cst := STATE_ACCEPTING_WAIT_CONNECT_MSG\<rparr>"]) simp
qed


definition sample_ip :: "byte \<Rightarrow> int \<Rightarrow> u32 \<Rightarrow> entity_addr" where
  "sample_ip k p n = \<lparr>addr_type = 0, addr_nonce = n, addr_ss = \<lparr>ss_family = AF_INET, ss_data = net16 (of_int p) @ [10, 0, 0, k] @ replicate 120 0\<rparr>\<rparr>"

definition sample_dialer :: "byte list menv" where
  "sample_dialer = \<lparr>take_bytes = (\<lambda>q w. (Some (length q), w @ q)), host_order = Little_endian, my_addr = [], my_type = MSGR_ENTITY_TYPE_OSD,
     cluster_protocol = 5, require_signatures = False, cluster_require_signatures = False, service_require_signatures = False,
     verify_authorizer = (\<lambda>_ _ _. (True, [])), get_authorizer = (\<lambda>_ _. None), verify_reply = (\<lambda>_ _. True),
     get_policy = (\<lambda>_. (sample_policy, False)), random_seq = (0, 0), initial_backoff = 1, max_backoff = 15, junk_reply = zero_reply\<rparr>"

lemma sample_ip_ok: "addr_ok (sample_ip k p n)"
  by (simp add: addr_ok_def sample_ip_def)

lemma replicate_4: "replicate 4 x = [x, x, x, x]"
  by (simp add: numeral_eq_Suc)

lemma sample_ip_facts: "is_ip (sample_ip k p n)" "\<not> is_blank_ip (sample_ip k p n)"
  by (simp_all add: sample_ip_def is_ip_def is_blank_ip_def family_def AF_INET_def sin_addr_def replicate_4)

theorem identification_agrees_witness:
  "\<exists>sock' s1 c1 Ic' c2 s2. start_accepting sample_dialer \<lparr>need_addr = False, my_inst_addr = sample_ip 1 6800 11\<rparr>
      (Some (addr_ss (sample_ip 2 50000 0))) ((sample_ip 2 50000 0)\<lparr>addr_ss := addr_ss blank_addr\<rparr>) (new_conn []) = (0, sock', s1) \<and>
    got_banner sample_dialer (take 9 (wire s1)) ((new_conn [])\<lparr>peer_addr := addr_mem Little_endian (sample_ip 1 6800 11)\<rparr>) = (0, c1) \<and>
    got_identity sample_dialer (drop 9 (wire s1)) \<lparr>need_addr = True, my_inst_addr = blank_addr\<lparr>addr_nonce := 22\<rparr>\<rparr> c1 = Some (0, Ic', c2) \<and>
    got_banner_addr sample_dialer sock' (wire c2) s1 = Some (0, s2) \<and>
    cst c2 = STATE_CONNECTING_SEND_CONNECT_MSG \<and> cst s2 = STATE_ACCEPTING_WAIT_CONNECT_MSG \<and>
    peer_addr s2 = addr_mem Little_endian (my_inst_addr Ic') \<and> addr_nonce (my_inst_addr Ic') = 22 \<and>
    is_same_host (sample_ip 2 50000 0) (my_inst_addr Ic') \<and> get_port (my_inst_addr Ic') = 0"
proof -
  let ?Is = "\<lparr>need_addr = False, my_inst_addr = sample_ip 1 6800 11\<rparr>" and ?Ic = "\<lparr>need_addr = True, my_inst_addr = blank_addr\<lparr>addr_nonce := 22\<rparr>\<rparr>"
  have r: "records sample_dialer" by (simp add: records_def sample_dialer_def)
  have o: "host_order sample_dialer = Little_endian" by (simp add: sample_dialer_def)
  have "addr_ok (my_inst_addr ?Ic)" "get_port (my_inst_addr ?Ic) = 0"
    by (simp_all add: addr_ok_def blank_addr_def get_port_def family_def AF_INET_def AF_INET6_def)
  then show ?thesis
    using identification_agrees [of sample_dialer sample_dialer ?Ic ?Is "sample_ip 2 50000 0" "(new_conn [])\<lparr>peer_addr := addr_mem Little_endian (sample_ip 1 6800 11)\<rparr>" "new_conn []" "addr_ss blank_addr"]
    by (simp add: r o sample_ip_ok sample_ip_facts new_conn_def new_session_def)
qed

section \<open>Races\<close>

text \<open>Two hosts that dial each other at the same time: what the one judges about the other's attempt.\<close>

definition racing :: "'w peer_conn \<Rightarrow> msgr_msg_connect \<Rightarrow> bool" where
  "racing e x \<longleftrightarrow> \<not> lossy (psess e) \<and> cst e \<noteq> STATE_OPEN \<and> cst e \<noteq> STATE_STANDBY \<and> \<not> server_policy (pol e) \<and>
     connect_seq e = c_connect_seq x \<and> \<not> c_global_seq x < peer_global_seq e"

lemma judge_racing:
  assumes "racing e x"
  shows "judge_existing E c x e =
    (if memcmp (peer_addr c) (my_addr E) < 0 then Take_over False False
     else if memcmp (peer_addr c) (my_addr E) > 0 then Keep_ours else Assertion)"
  using assms by (auto simp: judge_existing_def racing_def)

text \<open>
  C5. When two hosts of the same byte order dial each other at the same time, exactly one attempt survives:
  one host gives way to the attempt of the other, which keeps its own.
\<close>

theorem race_has_one_winner:
  assumes "addr_ok a" and "addr_ok b" and "a \<noteq> b" and "racing ea xb" and "racing eb xa"
    and "my_addr Ea = addr_mem e a" and "peer_addr ca = addr_mem e b" and "my_addr Eb = addr_mem e b" and "peer_addr cb = addr_mem e a"
  shows "{judge_existing Ea ca xb ea, judge_existing Eb cb xa eb} = {Take_over False False, Keep_ours}"
proof -
  have "length (addr_mem e a) = length (addr_mem e b)"
    using assms(1,2) by (cases e) (simp_all add: addr_mem_def ss_mem_def mem_bytes_def addr_ok_def)
  then have "memcmp (addr_mem e a) (addr_mem e b) \<noteq> 0"
    using memcmp_zero addr_mem_inj [OF assms(1,2)] assms(3) by blast
  moreover have "memcmp (addr_mem e b) (addr_mem e a) = - memcmp (addr_mem e a) (addr_mem e b)" by (rule memcmp_swap)
  ultimately show ?thesis by (auto simp: judge_racing [OF assms(4)] judge_racing [OF assms(5)] assms(6-9))
qed


definition sample_attempt :: "entity_addr \<Rightarrow> endian \<Rightarrow> unit peer_conn" where
  "sample_attempt a e = (new_conn ())\<lparr>peer_addr := addr_mem e a, pol := sample_policy, cst := STATE_CONNECTING_WAIT_CONNECT_REPLY, psess := new_session\<rparr>"

lemma sample_racing: "racing (sample_attempt a e) zero_connect"
  by (simp add: racing_def sample_attempt_def sample_policy_def new_conn_def new_session_def zero_connect_def)

theorem race_has_one_winner_witness:
  "{judge_existing (sample_host (addr_mem Little_endian (sample_ip 1 6800 11))) (sample_attempt (sample_ip 2 6800 22) Little_endian) zero_connect
      (sample_attempt (sample_ip 2 6800 22) Little_endian),
    judge_existing (sample_host (addr_mem Little_endian (sample_ip 2 6800 22))) (sample_attempt (sample_ip 1 6800 11) Little_endian) zero_connect
      (sample_attempt (sample_ip 1 6800 11) Little_endian)} = {Take_over False False, Keep_ours}"
proof (rule race_has_one_winner [OF sample_ip_ok sample_ip_ok _ sample_racing sample_racing])
  show "sample_ip 1 6800 11 \<noteq> sample_ip 2 6800 22" by (simp add: sample_ip_def)
qed (simp_all add: sample_host_def sample_attempt_def)

text \<open>
  Hosts of different byte order compare differently: here both keep their own attempt and tell the other to
  wait for it.
\<close>

lemma mixed_race_both_wait:
  "judge_existing (sample_host (addr_mem Little_endian (sample_ip 1 6800 256))) (sample_attempt (sample_ip 2 6800 1) Little_endian) zero_connect
     (sample_attempt (sample_ip 2 6800 1) Little_endian) = Keep_ours \<and>
   judge_existing (sample_host (addr_mem Big_endian (sample_ip 2 6800 1))) (sample_attempt (sample_ip 1 6800 256) Big_endian) zero_connect
     (sample_attempt (sample_ip 1 6800 256) Big_endian) = Keep_ours"
  by (simp add: judge_racing sample_racing)
    (simp add: sample_host_def sample_attempt_def sample_ip_def addr_mem_def mem_bytes_def le_bytes_expand word_less_nat_alt)

end
