(* ===== verification/Messenger_Core.thy ===== *)
theory Messenger_Core
  imports Handshake
begin

text \<open>
  The base class of messengers (\<^verbatim>\<open>src/include/msgr/Messenger.h\<close>): the kinds of policies, the policies per peer type
  (\<^verbatim>\<open>src/include/msgr/SimplePolicyMessenger.h\<close>), and the chains of dispatchers, which are given by their answers
  (\<^verbatim>\<open>src/include/msgr/Dispatcher.h\<close>).
\<close>

section \<open>Policies\<close>

text \<open>A policy with its flag \<^verbatim>\<open>lossy\<close>.\<close>

definition make_policy :: "bool \<Rightarrow> bool \<Rightarrow> bool \<Rightarrow> bool \<Rightarrow> u64 \<Rightarrow> u64 \<Rightarrow> policy \<times> bool" where
  "make_policy l s st r supp req =
     (\<lparr>server_policy = s, standby = st, resetcheck = r, features_supported = supp OR MSGR_FEATURE_MSG_AUTH, features_required = req\<rparr>, l)"

definition stateful_server :: "u64 \<Rightarrow> u64 \<Rightarrow> policy \<times> bool" where "stateful_server = make_policy False True True True"
definition stateless_server :: "u64 \<Rightarrow> u64 \<Rightarrow> policy \<times> bool" where "stateless_server = make_policy True True False False"
definition lossless_peer :: "u64 \<Rightarrow> u64 \<Rightarrow> policy \<times> bool" where "lossless_peer = make_policy False False True False"
definition lossless_peer_reuse :: "u64 \<Rightarrow> u64 \<Rightarrow> policy \<times> bool" where "lossless_peer_reuse = make_policy False False True True"
definition lossy_client :: "u64 \<Rightarrow> u64 \<Rightarrow> policy \<times> bool" where "lossy_client = make_policy True False False False"
definition lossless_client :: "u64 \<Rightarrow> u64 \<Rightarrow> policy \<times> bool" where "lossless_client = make_policy False False False True"

record policies =
  policy_map :: "u32 \<rightharpoonup> policy \<times> bool"
  default_policy :: "policy \<times> bool"

definition policy_for :: "u32 \<Rightarrow> policies \<Rightarrow> policy \<times> bool" where
  "policy_for t P = (case policy_map P t of Some p \<Rightarrow> p | None \<Rightarrow> default_policy P)"

definition set_policy :: "u32 \<Rightarrow> policy \<times> bool \<Rightarrow> policies \<Rightarrow> policies" where
  "set_policy t p P = P\<lparr>policy_map := (policy_map P)(t \<mapsto> p)\<rparr>"

definition set_default_policy :: "policy \<times> bool \<Rightarrow> policies \<Rightarrow> policies" where
  "set_default_policy p P = P\<lparr>default_policy := p\<rparr>"

section \<open>Dispatchers\<close>

text \<open>
  A dispatcher is its answers; the calls it receives are recorded in a log, with the identity of the dispatcher.
\<close>

record 'm dispatcher =
  d_id :: nat
  can_fast_any :: bool
  can_fast :: "'m \<Rightarrow> bool"
  handles :: "'m \<Rightarrow> bool"
  handles_reset :: "nat \<Rightarrow> bool"
  gives_authorizer :: "u32 \<Rightarrow> bool \<Rightarrow> (u32 \<times> byte list) option option"

datatype 'm d_call = Fast_dispatch 'm | Fast_preprocess 'm | Dispatch 'm | Handle_connect nat | Handle_fast_connect nat
  | Handle_accept nat | Handle_fast_accept nat | Handle_reset nat | Handle_remote_reset nat | Put 'm

record 'm chains =
  dispatchers :: "'m dispatcher list"
  fast_dispatchers :: "'m dispatcher list"
  ready_calls :: nat

definition add_dispatcher_head :: "'m dispatcher \<Rightarrow> 'm chains \<Rightarrow> 'm chains" where
  "add_dispatcher_head d C =
     C\<lparr>dispatchers := d # dispatchers C, fast_dispatchers := (if can_fast_any d then d # fast_dispatchers C else fast_dispatchers C),
       ready_calls := (if dispatchers C = [] then ready_calls C + 1 else ready_calls C)\<rparr>"

definition add_dispatcher_tail :: "'m dispatcher \<Rightarrow> 'm chains \<Rightarrow> 'm chains" where
  "add_dispatcher_tail d C =
     C\<lparr>dispatchers := dispatchers C @ [d], fast_dispatchers := (if can_fast_any d then fast_dispatchers C @ [d] else fast_dispatchers C),
       ready_calls := (if dispatchers C = [] then ready_calls C + 1 else ready_calls C)\<rparr>"

fun ms_can_fast_dispatch :: "'m dispatcher list \<Rightarrow> 'm \<Rightarrow> bool" where
  "ms_can_fast_dispatch [] m = False"
| "ms_can_fast_dispatch (p # ps) m = (if can_fast p m then True else ms_can_fast_dispatch ps m)"

text \<open>\<open>None\<close> is the assertion behind the loop.\<close>

fun ms_fast_dispatch :: "'m dispatcher list \<Rightarrow> 'm \<Rightarrow> (nat \<times> 'm d_call) list option" where
  "ms_fast_dispatch [] m = None"
| "ms_fast_dispatch (p # ps) m = (if can_fast p m then Some [(d_id p, Fast_dispatch m)] else ms_fast_dispatch ps m)"

definition ms_fast_preprocess :: "'m dispatcher list \<Rightarrow> 'm \<Rightarrow> (nat \<times> 'm d_call) list" where
  "ms_fast_preprocess ps m = map (\<lambda>p. (d_id p, Fast_preprocess m)) ps"

text \<open>\<open>die\<close> is \<^verbatim>\<open>ms_die_on_unhandled_msg\<close>; a message nobody handles is released, by the messenger (0).\<close>

fun ms_deliver_dispatch :: "bool \<Rightarrow> 'm dispatcher list \<Rightarrow> 'm \<Rightarrow> (nat \<times> 'm d_call) list option" where
  "ms_deliver_dispatch die [] m = (if die then None else Some [(0, Put m)])"
| "ms_deliver_dispatch die (p # ps) m =
     (if handles p m then Some [(d_id p, Dispatch m)]
      else map_option (\<lambda>log. (d_id p, Dispatch m) # log) (ms_deliver_dispatch die ps m))"

definition ms_deliver_handle_connect :: "'m dispatcher list \<Rightarrow> nat \<Rightarrow> (nat \<times> 'm d_call) list" where
  "ms_deliver_handle_connect ps c = map (\<lambda>p. (d_id p, Handle_connect c)) ps"

definition ms_deliver_handle_fast_connect :: "'m dispatcher list \<Rightarrow> nat \<Rightarrow> (nat \<times> 'm d_call) list" where
  "ms_deliver_handle_fast_connect ps c = map (\<lambda>p. (d_id p, Handle_fast_connect c)) ps"

definition ms_deliver_handle_accept :: "'m dispatcher list \<Rightarrow> nat \<Rightarrow> (nat \<times> 'm d_call) list" where
  "ms_deliver_handle_accept ps c = map (\<lambda>p. (d_id p, Handle_accept c)) ps"

definition ms_deliver_handle_fast_accept :: "'m dispatcher list \<Rightarrow> nat \<Rightarrow> (nat \<times> 'm d_call) list" where
  "ms_deliver_handle_fast_accept ps c = map (\<lambda>p. (d_id p, Handle_fast_accept c)) ps"

fun ms_deliver_handle_reset :: "'m dispatcher list \<Rightarrow> nat \<Rightarrow> (nat \<times> 'm d_call) list" where
  "ms_deliver_handle_reset [] c = []"
| "ms_deliver_handle_reset (p # ps) c =
     (d_id p, Handle_reset c) # (if handles_reset p c then [] else ms_deliver_handle_reset ps c)"

definition ms_deliver_handle_remote_reset :: "'m dispatcher list \<Rightarrow> nat \<Rightarrow> (nat \<times> 'm d_call) list" where
  "ms_deliver_handle_remote_reset ps c = map (\<lambda>p. (d_id p, Handle_remote_reset c)) ps"

text \<open>The outer option says whether a dispatcher answers at all.\<close>

fun ms_deliver_get_authorizer :: "'m dispatcher list \<Rightarrow> u32 \<Rightarrow> bool \<Rightarrow> (u32 \<times> byte list) option" where
  "ms_deliver_get_authorizer [] t force = None"
| "ms_deliver_get_authorizer (p # ps) t force =
     (case gives_authorizer p t force of Some a \<Rightarrow> a | None \<Rightarrow> ms_deliver_get_authorizer ps t force)"

section \<open>Laws\<close>

text \<open>The chains a program can build.\<close>

inductive built :: "'m chains \<Rightarrow> bool" where
  "built \<lparr>dispatchers = [], fast_dispatchers = [], ready_calls = 0\<rparr>"
| "built C \<Longrightarrow> built (add_dispatcher_head d C)"
| "built C \<Longrightarrow> built (add_dispatcher_tail d C)"

lemma built_fast: "built C \<Longrightarrow> fast_dispatchers C = filter can_fast_any (dispatchers C)"
  by (induction rule: built.induct) (simp_all add: add_dispatcher_head_def add_dispatcher_tail_def)

lemma built_ready: "built C \<Longrightarrow> ready_calls C = (if dispatchers C = [] then 0 else 1)"
  by (induction rule: built.induct) (simp_all add: add_dispatcher_head_def add_dispatcher_tail_def)

lemma fast_dispatch_asserts: "ms_fast_dispatch ps m = None \<longleftrightarrow> \<not> ms_can_fast_dispatch ps m"
  by (induction ps) auto

lemma can_fast_dispatch_ex: "ms_can_fast_dispatch ps m \<longleftrightarrow> (\<exists>p \<in> set ps. can_fast p m)"
  by (induction ps) auto

lemma deliver_dispatch_first:
  "ms_deliver_dispatch die ps m =
     (case dropWhile (\<lambda>p. \<not> handles p m) ps of
        p # _ \<Rightarrow> Some (map (\<lambda>p. (d_id p, Dispatch m)) (takeWhile (\<lambda>p. \<not> handles p m) ps @ [p]))
      | [] \<Rightarrow> (if die then None else Some (map (\<lambda>p. (d_id p, Dispatch m)) ps @ [(0, Put m)])))"
  by (induction ps) (auto split: list.splits simp del: dropWhile_eq_Nil_conv)

text \<open>
  C33. However the chains were built, \<^verbatim>\<open>ready()\<close> was called exactly once when there is a dispatcher; a message that
  \<^verbatim>\<open>ms_can_fast_dispatch\<close> accepts does not reach the assertion of \<^verbatim>\<open>ms_fast_dispatch\<close>; and \<^verbatim>\<open>ms_deliver_dispatch\<close> offers a message to the
  dispatchers in order up to the first that handles it, and releases it if there is none.
\<close>

theorem dispatcher_chains_work:
  assumes "built C"
  shows "ready_calls C = (if dispatchers C = [] then 0 else 1) \<and>
    (ms_can_fast_dispatch (fast_dispatchers C) m \<longleftrightarrow> (\<exists>p \<in> set (dispatchers C). can_fast_any p \<and> can_fast p m)) \<and>
    (ms_can_fast_dispatch (fast_dispatchers C) m \<longrightarrow> ms_fast_dispatch (fast_dispatchers C) m \<noteq> None) \<and>
    ms_deliver_dispatch False (dispatchers C) m =
      (case dropWhile (\<lambda>p. \<not> handles p m) (dispatchers C) of
         p # _ \<Rightarrow> Some (map (\<lambda>p. (d_id p, Dispatch m)) (takeWhile (\<lambda>p. \<not> handles p m) (dispatchers C) @ [p]))
       | [] \<Rightarrow> Some (map (\<lambda>p. (d_id p, Dispatch m)) (dispatchers C) @ [(0, Put m)]))"
  using built_ready [OF assms] built_fast [OF assms] deliver_dispatch_first [of False "dispatchers C" m]
  by (auto simp: can_fast_dispatch_ex fast_dispatch_asserts)

definition sample_dispatcher :: "nat \<Rightarrow> nat dispatcher" where
  "sample_dispatcher k = \<lparr>d_id = k, can_fast_any = False, can_fast = (\<lambda>_. False), handles = (\<lambda>m. m = k), handles_reset = (\<lambda>_. False),
     gives_authorizer = (\<lambda>_ _. None)\<rparr>"

theorem dispatcher_chains_work_witness:
  "ms_deliver_dispatch False (dispatchers (add_dispatcher_tail (sample_dispatcher 2) (add_dispatcher_head (sample_dispatcher 1)
     \<lparr>dispatchers = [], fast_dispatchers = [], ready_calls = 0\<rparr>))) 2 = Some [(1, Dispatch 2), (2, Dispatch 2)]"
proof -
  have "built (add_dispatcher_tail (sample_dispatcher 2) (add_dispatcher_head (sample_dispatcher 1) \<lparr>dispatchers = [], fast_dispatchers = [], ready_calls = 0\<rparr>))"
    by (intro built.intros)
  from dispatcher_chains_work [OF this, of 2] show ?thesis
    by (simp add: add_dispatcher_tail_def add_dispatcher_head_def sample_dispatcher_def)
qed

end
