(* ===== verification/Listener.thy ===== *)
theory Listener
  imports Entity
begin

text \<open>
  The listening socket of a messenger (\<^verbatim>\<open>Processor\<close> in \<^verbatim>\<open>src/src/async/AsyncMessenger.cc\<close>): how \<^verbatim>\<open>Processor::bind\<close>
  chooses an address and a port, and the loop of \<^verbatim>\<open>Processor::accept\<close>.  The system calls are given by their results, a
  failing call by its error number; \<^verbatim>\<open>errno\<close> is threaded through, because the code reads it in places where no
  call may have failed.
\<close>

section \<open>Binding\<close>

record bind_conf =
  ms_bind_ipv6 :: bool
  ms_bind_retry_count :: int
  ms_bind_port_min :: int
  ms_bind_port_max :: int

text \<open>\<open>os_bind\<close> and \<open>os_reuse\<close> depend on the number of the attempt.\<close>

record bind_os =
  os_socket :: "u16 \<Rightarrow> int + int"
  os_nonblock :: "int \<Rightarrow> int option"
  os_reuse :: "nat \<Rightarrow> int option"
  os_bind :: "nat \<Rightarrow> sockaddr_storage \<Rightarrow> int option"
  os_getsockname :: "sockaddr_storage \<Rightarrow> int + sockaddr_storage"
  os_listen :: "int option"

definition listen_family :: "bind_conf \<Rightarrow> entity_addr \<Rightarrow> u16" where
  "listen_family c a =
     (if family a = AF_INET \<or> family a = AF_INET6 then family a else if ms_bind_ipv6 c then AF_INET6 else AF_INET)"

definition set_family :: "u16 \<Rightarrow> entity_addr \<Rightarrow> entity_addr" where
  "set_family f a = a\<lparr>addr_ss := (addr_ss a)\<lparr>ss_family := f\<rparr>\<rparr>"

text \<open>
  The loop over the ports, from \<^verbatim>\<open>rc\<close>, \<^verbatim>\<open>errno\<close> and \<^verbatim>\<open>listen_addr\<close> to their values behind it; \<open>None\<close> is the assertion
  of \<^verbatim>\<open>set_port\<close>.
\<close>

fun try_ports :: "bind_os \<Rightarrow> nat \<Rightarrow> int set \<Rightarrow> int list \<Rightarrow> int \<Rightarrow> int \<Rightarrow> entity_addr \<Rightarrow> (int \<times> int \<times> entity_addr) option" where
  "try_ports os i avoid [] rc err a = Some (rc, err, a)"
| "try_ports os i avoid (port # ports) rc err a =
     (if port \<in> avoid then try_ports os i avoid ports rc err a
      else
        (case set_port port a of
           None \<Rightarrow> None
         | Some a \<Rightarrow>
             (case os_bind os i (addr_ss a) of
                None \<Rightarrow> Some (0, err, a)
              | Some e \<Rightarrow> try_ports os i avoid ports (-1) e a)))"

text \<open>The loop over the attempts: \<open>n\<close> are left, \<open>i\<close> is the next.\<close>

fun bind_attempts ::
  "bind_conf \<Rightarrow> bind_os \<Rightarrow> int set \<Rightarrow> nat \<Rightarrow> nat \<Rightarrow> int \<Rightarrow> int \<Rightarrow> int \<Rightarrow> entity_addr \<Rightarrow> (int \<times> int \<times> int \<times> entity_addr) option"
where
  "bind_attempts c os avoid 0 i rc r err a = Some (rc, r, err, a)"
| "bind_attempts c os avoid (Suc n) i rc r err a =
     (if get_port a \<noteq> 0
      then
        (case os_reuse os i of
           Some e \<Rightarrow> bind_attempts c os avoid n (i + 1) (-1) (- e) e a
         | None \<Rightarrow>
             (case os_bind os i (addr_ss a) of
                Some e \<Rightarrow> bind_attempts c os avoid n (i + 1) (-1) (- e) e a
              | None \<Rightarrow> Some (0, r, err, a)))
      else
        (case try_ports os i avoid [ms_bind_port_min c..ms_bind_port_max c] rc err a of
           None \<Rightarrow> None
         | Some (rc, err, a) \<Rightarrow>
             if rc < 0
             then
               (case set_port 0 a of
                  None \<Rightarrow> None
                | Some a \<Rightarrow> bind_attempts c os avoid n (i + 1) rc (- err) err a)
             else Some (rc, r, err, a)))"

text \<open>The result of \<^verbatim>\<open>Processor::bind\<close> as far as the socket goes: a return code and the sockets closed, or the socket and its address.\<close>

datatype bind_result = Not_bound int "int list" | Bound int entity_addr

definition listen_on :: "bind_conf \<Rightarrow> bind_os \<Rightarrow> int \<Rightarrow> int set \<Rightarrow> entity_addr \<Rightarrow> bind_result option" where
  "listen_on c os err avoid bind_addr =
     (let f = listen_family c bind_addr
      in case os_socket os f of
           Inl e \<Rightarrow> Some (Not_bound (- e) [])
         | Inr sd \<Rightarrow>
             (case os_nonblock os sd of
                Some e \<Rightarrow> Some (Not_bound (- e) [sd])
              | None \<Rightarrow>
                  (case bind_attempts c os avoid (nat (ms_bind_retry_count c)) 0 (-1) (-1) err (set_family f bind_addr) of
                     None \<Rightarrow> None
                   | Some (rc, r, err, a) \<Rightarrow>
                       if rc < 0 then Some (Not_bound r [sd])
                       else
                         (case os_getsockname os (addr_ss a) of
                            Inl e \<Rightarrow> Some (Not_bound (- e) [sd])
                          | Inr ss \<Rightarrow>
                              (case os_listen os of
                                 Some e \<Rightarrow> Some (Not_bound (- e) [sd])
                               | None \<Rightarrow> Some (Bound sd (a\<lparr>addr_ss := ss\<rparr>)))))))"

section \<open>Accepting\<close>

datatype accept_result = Accepted int | Interrupted | Would_block | Accept_error

text \<open>The sockets given to \<^verbatim>\<open>add_accept\<close>; the loop ends at \<^verbatim>\<open>EAGAIN\<close> or at the fourth error in a row.  \<open>None\<close>: the answers are used up.\<close>

fun accept_loop :: "nat \<Rightarrow> accept_result list \<Rightarrow> (int list \<times> accept_result list) option" where
  "accept_loop errors rs =
     (if errors < 4
      then
        (case rs of
           [] \<Rightarrow> None
         | Accepted sd # rs \<Rightarrow> map_option (apfst (Cons sd)) (accept_loop 0 rs)
         | Interrupted # rs \<Rightarrow> accept_loop errors rs
         | Would_block # rs \<Rightarrow> Some ([], rs)
         | Accept_error # rs \<Rightarrow> accept_loop (errors + 1) rs)
      else Some ([], rs))"

declare accept_loop.simps [simp del]

section \<open>What binding searches\<close>

definition at_port :: "int \<Rightarrow> entity_addr \<Rightarrow> entity_addr" where
  "at_port p a = patch 0 (net16 (of_int p)) a"

text \<open>The addresses an attempt tries, in order, and which of them the system accepts at attempt \<open>i\<close>.\<close>

definition candidates :: "bind_conf \<Rightarrow> int set \<Rightarrow> entity_addr \<Rightarrow> entity_addr list" where
  "candidates c avoid a =
     (if get_port a \<noteq> 0 then [a]
      else map (\<lambda>p. at_port p a) (filter (\<lambda>p. p \<notin> avoid) [ms_bind_port_min c..ms_bind_port_max c]))"

definition accepts :: "bind_os \<Rightarrow> entity_addr \<Rightarrow> nat \<Rightarrow> entity_addr \<Rightarrow> bool" where
  "accepts os a i x \<longleftrightarrow> (get_port a = 0 \<or> os_reuse os i = None) \<and> os_bind os i (addr_ss x) = None"

text \<open>Everything that would be accepted, in the order of the attempts.\<close>

definition acceptable :: "bind_conf \<Rightarrow> bind_os \<Rightarrow> int set \<Rightarrow> entity_addr \<Rightarrow> nat list \<Rightarrow> entity_addr list" where
  "acceptable c os avoid a is = concat (map (\<lambda>i. filter (accepts os a i) (candidates c avoid a)) is)"

text \<open>What the manual pages say of the calls: error numbers are positive, descriptors are not negative.\<close>

definition os_ok :: "bind_os \<Rightarrow> bool" where
  "os_ok os \<longleftrightarrow> (\<forall>i e. os_reuse os i = Some e \<longrightarrow> e > 0) \<and> (\<forall>i x e. os_bind os i x = Some e \<longrightarrow> e > 0)"

definition ip_family :: "entity_addr \<Rightarrow> bool" where
  "ip_family a \<longleftrightarrow> family a = AF_INET \<or> family a = AF_INET6"

lemma at_port_simps [simp]: "ip_family (at_port p a) = ip_family a"
  by (simp_all add: at_port_def ip_family_def)

lemma at_port_ok [simp]: "addr_ok a \<Longrightarrow> addr_ok (at_port p a)"
  by (simp add: at_port_def addr_patch_ok)

lemma set_port_at: "ip_family a \<Longrightarrow> set_port p a = Some (at_port p a)"
  by (simp add: set_port_def at_port_def ip_family_def)

lemma at_port_twice: "addr_ok a \<Longrightarrow> at_port q (at_port p a) = at_port q a"
  by (simp add: at_port_def patch_def)

lemma net16_val_back:
  assumes "length bs = 2"
  shows "net16 (net16_val bs) = bs"
proof -
  obtain x y where bs: "bs = [x, y]" using assms by (auto simp: numeral_2_eq_2 length_Suc_conv)
  have "ucast (ucast y OR push_bit 8 (ucast x) :: u16) = y" "ucast (drop_bit 8 (ucast y OR push_bit 8 (ucast x) :: u16)) = x"
    by (rule bit_word_eqI; auto simp: bit_simps dest: bit_imp_le_length)+
  then show ?thesis by (simp add: bs net16_def net16_val_def le_bytes_expand)
qed

lemma at_port_zero:
  assumes "addr_ok a" and "ip_family a" and "get_port a = 0"
  shows "at_port 0 a = a"
proof -
  let ?d = "ss_data (addr_ss a)"
  have "net16_val (take 2 ?d) = 0" using assms(2,3) by (auto simp: get_port_def ip_family_def uint_0_iff split: if_splits)
  then have "take 2 ?d = net16 0" using net16_val_back [of "take 2 ?d"] assms(1) by (simp add: addr_ok_def)
  then have "net16 0 @ drop 2 ?d = ?d" by (metis append_take_drop_id)
  then show ?thesis by (simp add: at_port_def patch_def flip: numeral_2_eq_2)
qed

lemma try_ports_finds:
  assumes "ip_family a" and "addr_ok a"
    and "filter (\<lambda>x. os_bind os i (addr_ss x) = None) (map (\<lambda>p. at_port p a) (filter (\<lambda>p. p \<notin> avoid) ps)) = x # xs"
  shows "\<exists>err'. try_ports os i avoid ps rc err a = Some (0, err', x)"
  using assms
proof (induction os i avoid ps rc err a arbitrary: x xs rule: try_ports.induct)
  case (2 os i avoid port ports rc err a)
  show ?case
  proof (cases "port \<in> avoid \<or> os_bind os i (addr_ss (at_port port a)) = None")
    case True
    then show ?thesis using 2 by (auto simp: set_port_at)
  next
    case False
    then obtain e where "os_bind os i (addr_ss (at_port port a)) = Some e" by auto
    then show ?thesis using False 2(2) [of "at_port port a" e x xs] 2(3-) by (simp add: set_port_at at_port_twice)
  qed
qed simp

lemma try_ports_fails:
  assumes "ip_family a" and "addr_ok a" and "cs = map (\<lambda>p. at_port p a) (filter (\<lambda>p. p \<notin> avoid) ps)"
    and "filter (\<lambda>x. os_bind os i (addr_ss x) = None) cs = []"
  shows "try_ports os i avoid ps rc err a =
    Some (if cs = [] then (rc, err, a) else (-1, the (os_bind os i (addr_ss (last cs))), last cs))"
  using assms
proof (induction os i avoid ps rc err a arbitrary: cs rule: try_ports.induct)
  case (2 os i avoid port ports rc err a)
  show ?case
  proof (cases "port \<in> avoid")
    case True
    then show ?thesis using 2 by simp
  next
    case False
    then obtain e where "os_bind os i (addr_ss (at_port port a)) = Some e" using 2(5,6) by (auto split: if_splits)
    then show ?thesis using False 2(2) [of "at_port port a" e, OF _ _ _ _ _ refl] 2(3-) by (simp add: set_port_at at_port_twice)
  qed
qed simp

lemma candidates_range:
  "get_port a = 0 \<Longrightarrow> candidates c avoid a = map (\<lambda>p. at_port p a) (filter (\<lambda>p. p \<notin> avoid) [ms_bind_port_min c..ms_bind_port_max c])"
  by (simp add: candidates_def)

lemma range_fails:
  assumes "ip_family a" and "addr_ok a" and "get_port a = 0" and "filter (accepts os a i) (candidates c avoid a) = []"
  shows "\<exists>rc' err' b. try_ports os i avoid [ms_bind_port_min c..ms_bind_port_max c] rc err a = Some (rc', err', b) \<and>
    set_port 0 b = Some a \<and> (rc < 0 \<longrightarrow> rc' < 0) \<and> (candidates c avoid a = [] \<longrightarrow> err' = err) \<and>
    (candidates c avoid a \<noteq> [] \<and> os_ok os \<longrightarrow> 0 < err')"
proof -
  let ?cs = "candidates c avoid a"
  have none: "\<forall>x \<in> set ?cs. os_bind os i (addr_ss x) \<noteq> None" using assms(3,4) by (auto simp: accepts_def filter_empty_conv)
  have eq: "try_ports os i avoid [ms_bind_port_min c..ms_bind_port_max c] rc err a =
      Some (if ?cs = [] then (rc, err, a) else (-1, the (os_bind os i (addr_ss (last ?cs))), last ?cs))"
    by (rule try_ports_fails [OF assms(1,2) candidates_range [OF assms(3)]]) (use none in \<open>simp add: filter_empty_conv\<close>)
  show ?thesis
  proof (cases "?cs = []")
    case True
    then show ?thesis using eq assms(1-3) by (simp add: set_port_at at_port_zero)
  next
    case False
    then obtain p where p: "last ?cs = at_port p a" using last_in_set [OF False] by (auto simp: candidates_range [OF assms(3)])
    obtain e where e: "os_bind os i (addr_ss (last ?cs)) = Some e" using none last_in_set [OF False] by blast
    then have "os_ok os \<longrightarrow> 0 < e" by (auto simp: os_ok_def)
    then show ?thesis using eq False e assms(1-3) by (simp add: p set_port_at at_port_twice at_port_zero)
  qed
qed

lemma acceptable_step:
  "acceptable c os avoid a [i..<i + Suc n] = filter (accepts os a i) (candidates c avoid a) @ acceptable c os avoid a [i + 1..<i + 1 + n]"
proof -
  have "[i..<i + Suc n] = i # [i + 1..<i + 1 + n]" by (simp add: upt_rec)
  then show ?thesis by (simp only: acceptable_def list.map concat.simps)
qed

lemma bind_attempts_finds:
  assumes "ip_family a" and "addr_ok a" and "acceptable c os avoid a [i..<i + n] = x # xs" and "rc < 0"
  shows "\<exists>r' err'. bind_attempts c os avoid n i rc r err a = Some (0, r', err', x)"
  using assms
proof (induction n arbitrary: i rc r err)
  case (Suc n)
  note acc = Suc.prems(3) [unfolded acceptable_step]
  show ?case
  proof (cases "filter (accepts os a i) (candidates c avoid a) = []")
    case True
    then have IH: "\<exists>r' err'. bind_attempts c os avoid n (i + 1) rc r err a = Some (0, r', err', x)" if "rc < 0" for rc r err
      using Suc.IH [of "i + 1" rc] Suc.prems(1,2) acc that by (simp only: append_Nil)
    show ?thesis
    proof (cases "get_port a = 0")
      case zero: True
      from range_fails [OF Suc.prems(1,2) zero True, of rc err] zero IH Suc.prems(4) show ?thesis by fastforce
    next
      case False
      then show ?thesis using True IH by (auto simp: candidates_def accepts_def split: option.splits if_splits)
    qed
  next
    case False
    then obtain xs' where x: "filter (accepts os a i) (candidates c avoid a) = x # xs'"
      using acc by (cases "filter (accepts os a i) (candidates c avoid a)") (auto simp del: upt_Suc)
    show ?thesis
    proof (cases "get_port a = 0")
      case True
      then have "filter (\<lambda>x. os_bind os i (addr_ss x) = None) (candidates c avoid a) = x # xs'" using x by (simp add: accepts_def [abs_def])
      from try_ports_finds [OF Suc.prems(1,2) this [unfolded candidates_range [OF True]], of rc err] True show ?thesis by auto
    next
      case False
      then show ?thesis using x by (auto simp: candidates_def accepts_def split: if_splits)
    qed
  qed
qed (simp add: acceptable_def)

lemma bind_attempts_fails:
  assumes "ip_family a" and "addr_ok a" and "acceptable c os avoid a [i..<i + n] = []" and "rc < 0" and "os_ok os"
  shows "\<exists>rc' r' err'. bind_attempts c os avoid n i rc r err a = Some (rc', r', err', a) \<and> rc' < 0 \<and>
    (candidates c avoid a = [] \<longrightarrow> err' = err \<and> r' = (if n = 0 then r else - err)) \<and>
    (candidates c avoid a \<noteq> [] \<longrightarrow> r' = r \<and> n = 0 \<or> r' < 0)"
  using assms
proof (induction n arbitrary: i rc r err)
  case (Suc n)
  have none: "filter (accepts os a i) (candidates c avoid a) = []" and rest: "acceptable c os avoid a [i + 1..<i + 1 + n] = []"
    using Suc.prems(3) [unfolded acceptable_step] by (simp_all only: append_is_Nil_conv)
  have IH: "\<exists>rc' r' err'. bind_attempts c os avoid n (i + 1) rc r err a = Some (rc', r', err', a) \<and> rc' < 0 \<and>
    (candidates c avoid a = [] \<longrightarrow> err' = err \<and> r' = (if n = 0 then r else - err)) \<and>
    (candidates c avoid a \<noteq> [] \<longrightarrow> r' = r \<and> n = 0 \<or> r' < 0)" if "rc < 0" for rc r err
    using Suc.IH [OF Suc.prems(1,2) rest that Suc.prems(5)] .
  show ?case
  proof (cases "get_port a = 0")
    case True
    then obtain rc' err' b where t: "try_ports os i avoid [ms_bind_port_min c..ms_bind_port_max c] rc err a = Some (rc', err', b)"
      "set_port 0 b = Some a" "rc' < 0" "candidates c avoid a = [] \<longrightarrow> err' = err" "candidates c avoid a \<noteq> [] \<longrightarrow> 0 < err'"
      using range_fails [OF Suc.prems(1,2) True none, of rc err] Suc.prems(4,5) by blast
    show ?thesis using IH [OF t(3), of "- err'" err'] t True by (auto split: if_splits)
  next
    case False
    then have "os_reuse os i \<noteq> None \<or> os_bind os i (addr_ss a) \<noteq> None" using none by (auto simp: candidates_def accepts_def split: if_splits)
    then obtain e where e: "0 < e" "bind_attempts c os avoid (Suc n) i rc r err a = bind_attempts c os avoid n (i + 1) (-1) (- e) e a"
      using False Suc.prems(5) unfolding os_ok_def
      by (cases "os_reuse os i"; cases "os_bind os i (addr_ss a)") (simp_all, blast+)
    have "candidates c avoid a \<noteq> []" using False by (simp add: candidates_def)
    then show ?thesis using IH [of "-1" "- e" e] e by auto
  qed
qed simp

text \<open>What \<^verbatim>\<open>bind\<close> does with the socket once an address is found.\<close>

definition finish_listen :: "bind_os \<Rightarrow> int \<Rightarrow> entity_addr \<Rightarrow> bind_result" where
  "finish_listen os sd x =
     (case os_getsockname os (addr_ss x) of
        Inl e \<Rightarrow> Not_bound (- e) [sd]
      | Inr ss \<Rightarrow> (case os_listen os of Some e \<Rightarrow> Not_bound (- e) [sd] | None \<Rightarrow> Bound sd (x\<lparr>addr_ss := ss\<rparr>)))"

lemma listen_family_ip: "ip_family (set_family (listen_family c a) a)" "addr_ok a \<Longrightarrow> addr_ok (set_family f a)"
  by (simp_all add: ip_family_def set_family_def family_def listen_family_def addr_ok_def)

text \<open>
  C35. \<^verbatim>\<open>Processor::bind\<close> takes the first address the system accepts: over the attempts in order, and in each attempt the
  given port or the ports of the configured range without those to avoid.  If nothing is acceptable the socket is closed
  and the result is an error \<^emph>\<open>provided there was a port to try\<close>; if every port of the range is to be avoided, the result is
  the negated \<^verbatim>\<open>errno\<close> from before the call.  No assertion fails.
\<close>

theorem listener_takes_first_acceptable:
  fixes err :: int and avoid :: "int set"
  assumes "os_ok os" and "addr_ok bind_addr" and "os_socket os (listen_family c bind_addr) = Inr sd" and "os_nonblock os sd = None"
    and "a = set_family (listen_family c bind_addr) bind_addr" and "n = nat (ms_bind_retry_count c)"
  shows "(case acceptable c os avoid a [0..<n] of
      x # _ \<Rightarrow> listen_on c os err avoid bind_addr = Some (finish_listen os sd x)
    | [] \<Rightarrow> (\<exists>r. listen_on c os err avoid bind_addr = Some (Not_bound r [sd]) \<and>
              (candidates c avoid a \<noteq> [] \<or> n = 0 \<longrightarrow> r < 0) \<and> (candidates c avoid a = [] \<and> n \<noteq> 0 \<longrightarrow> r = - err)))"
proof -
  have a: "ip_family a" "addr_ok a" using assms(2) by (simp_all add: assms(5) listen_family_ip)
  show ?thesis
  proof (cases "acceptable c os avoid a [0..<n]")
    case Nil
    obtain rc' r' err' where b: "bind_attempts c os avoid n 0 (-1) (-1) err a = Some (rc', r', err', a)" "rc' < 0"
      "candidates c avoid a = [] \<longrightarrow> r' = (if n = 0 then -1 else - err)" "candidates c avoid a \<noteq> [] \<longrightarrow> r' = -1 \<and> n = 0 \<or> r' < 0"
      using bind_attempts_fails [OF a _ _ assms(1), of c avoid 0 n "-1" "-1" err] Nil by auto
    then have "listen_on c os err avoid bind_addr = Some (Not_bound r' [sd])"
      using assms(3,4) by (simp add: listen_on_def Let_def assms(5,6))
    then show ?thesis using b(3,4) Nil by auto
  next
    case (Cons x xs)
    obtain r' err' where "bind_attempts c os avoid n 0 (-1) (-1) err a = Some (0, r', err', x)"
      using bind_attempts_finds [OF a, of c os avoid 0 n x xs "-1" "-1" err] Cons by auto
    then show ?thesis using Cons assms(3,4)
      by (simp add: listen_on_def Let_def assms(5,6) finish_listen_def split: sum.splits option.splits)
  qed
qed

definition sample_os :: bind_os where
  "sample_os = \<lparr>os_socket = (\<lambda>_. Inr 7), os_nonblock = (\<lambda>_. None), os_reuse = (\<lambda>_. None),
     os_bind = (\<lambda>i ss. if i = 1 \<and> take 2 (ss_data ss) = net16 6801 then None else Some 98), os_getsockname = Inr, os_listen = None\<rparr>"

definition sample_bind_conf :: bind_conf where
  "sample_bind_conf = \<lparr>ms_bind_ipv6 = False, ms_bind_retry_count = 3, ms_bind_port_min = 6800, ms_bind_port_max = 6802\<rparr>"

theorem listener_takes_first_acceptable_witness:
  "listen_on sample_bind_conf sample_os 0 {6800} blank_addr = Some (Bound 7 (at_port 6801 (set_family AF_INET blank_addr)))"
proof -
  let ?a = "set_family AF_INET blank_addr"
  have f: "listen_family sample_bind_conf blank_addr = AF_INET"
    by (simp add: listen_family_def sample_bind_conf_def family_def blank_addr_def AF_INET_def AF_INET6_def)
  have acc: "acceptable sample_bind_conf sample_os {6800} ?a [0..<nat 3] = [at_port 6801 ?a]" by code_simp
  have ok: "os_ok sample_os" "addr_ok blank_addr" "os_socket sample_os AF_INET = Inr 7" "os_nonblock sample_os 7 = None"
    "nat 3 = nat (ms_bind_retry_count sample_bind_conf)"
    by (auto simp: os_ok_def sample_os_def addr_ok_def blank_addr_def sample_bind_conf_def split: if_splits)
  have "finish_listen sample_os 7 (at_port 6801 ?a) = Bound 7 (at_port 6801 ?a)" by (simp add: finish_listen_def sample_os_def)
  then show ?thesis
    using listener_takes_first_acceptable [OF ok(1,2) _ ok(4) _ ok(5), of ?a 0 "{6800}"] acc by (simp only: f ok(3) list.case)
qed

text \<open>When every port of the range is to be avoided and no call of the thread has failed before, the failure is reported as success.\<close>

lemma no_port_reported_as_success:
  "listen_on sample_bind_conf sample_os 0 {6800, 6801, 6802} blank_addr = Some (Not_bound 0 [7])"
  by code_simp

section \<open>What accepting takes\<close>

text \<open>No four errors in a row before the queue is empty, \<open>k\<close> already seen.\<close>

fun few_errors :: "nat \<Rightarrow> accept_result list \<Rightarrow> bool" where
  "few_errors k [] = (k < 4)"
| "few_errors k (Accepted _ # rs) = (k < 4 \<and> few_errors 0 rs)"
| "few_errors k (Interrupted # rs) = (k < 4 \<and> few_errors k rs)"
| "few_errors k (Would_block # rs) = (k < 4)"
| "few_errors k (Accept_error # rs) = (k < 4 \<and> few_errors (k + 1) rs)"

text \<open>
  The accept loop hands every waiting connection to \<^verbatim>\<open>add_accept\<close>, in order, however the calls are interrupted, as long as
  no four of them fail in a row.
\<close>

theorem accept_takes_all_waiting:
  assumes "few_errors k rs" and "Would_block \<notin> set rs"
  shows "accept_loop k (rs @ Would_block # rest) = Some (List.map_filter (\<lambda>r. case r of Accepted sd \<Rightarrow> Some sd | _ \<Rightarrow> None) rs, rest)"
  using assms
proof (induction k rs rule: few_errors.induct)
  case (1 k)
  then show ?case by (simp add: accept_loop.simps List.map_filter_simps)
qed (simp_all add: accept_loop.simps [of _ "_ # _"] List.map_filter_simps)

theorem accept_takes_all_waiting_witness:
  "accept_loop 0 [Accepted 5, Interrupted, Accept_error, Accept_error, Accepted 6, Would_block] = Some ([5, 6], [])"
  using accept_takes_all_waiting [of 0 "[Accepted 5, Interrupted, Accept_error, Accept_error, Accepted 6]" "[]"]
  by (simp add: List.map_filter_simps)

end
