(* ===== verification/Async_Messenger.thy ===== *)
theory Async_Messenger
  imports Messenger_Core Listener Dispatch_Queue
begin

text \<open>
  \<^verbatim>\<open>AsyncMessenger\<close> as a whole (\<^verbatim>\<open>src/src/async/AsyncMessenger.cc\<close>): the listening socket, the pool of workers with the
  events of their loops, the loopback connection (\<^verbatim>\<open>src/src/async/LocalConnection.cc\<close>), the dispatch queue with its
  threads and the registered connections, through binding, starting, shutting down and waiting.  A call that joins a
  thread or waits for the workers lets them run until they are done; \<open>None\<close> is a failing assertion.
\<close>

section \<open>State\<close>

datatype loop_event = C_stop nat | C_release nat

text \<open>
  \<open>lis_sd\<close>, \<open>lis_nonce\<close> and \<open>lis_worker\<close> are the \<^verbatim>\<open>Processor\<close>; \<open>open_sds\<close> are the listening sockets that have not been closed.  The
  fields \<open>loop_\<close> are the \<^verbatim>\<open>LocalConnection\<close>, \<open>loop_announced\<close> counts the calls of \<^verbatim>\<open>ms_deliver_handle_fast_connect\<close> for it.  \<open>in_q\<close> is
  the dispatch queue.  Connection \<open>i\<close> runs on worker \<open>conn_worker i\<close> and has the id \<open>conn_id i\<close> in the queue.
\<close>

record 'w async_msgr =
  my_address :: entity_addr
  my_name_type :: u32
  need_addr :: bool
  did_bind :: bool
  is_started :: bool
  shutdown_called :: bool
  am_nonce :: u64
  default_send_priority :: int
  lis_sd :: int
  lis_nonce :: u64
  lis_worker :: "nat option"
  open_sds :: "int set"
  pool_seq :: u32
  n_workers :: nat
  external_events :: "nat \<Rightarrow> loop_event list"
  loop_addr :: entity_addr
  loop_type :: u32
  loop_id :: u64
  loop_shutdown :: bool
  loop_announced :: nat
  in_q :: dq_state
  peers :: "'w messenger"
  conn_worker :: "nat \<Rightarrow> nat"
  conn_id :: "nat \<Rightarrow> u64"

text \<open>The loopback connection is the object 1.\<close>

definition loopback :: ptr where "loopback = 1"

section \<open>Workers\<close>

definition get_worker :: "'w async_msgr \<Rightarrow> nat \<times> 'w async_msgr" where
  "get_worker M = (unat (pool_seq M + 1) mod n_workers M, M\<lparr>pool_seq := pool_seq M + 1\<rparr>)"

text \<open>The processors of \<^verbatim>\<open>ms_async_affinity_cores\<close>; what does not parse is left out.\<close>

definition affinity_cores :: "string \<Rightarrow> int list" where
  "affinity_cores str =
     (case get_str_vec str default_delims of
        None \<Rightarrow> []
      | Some corestrs \<Rightarrow> map fst (filter (\<lambda>(coreid, err). err = None) (map (\<lambda>it. strict_strtol it 10) corestrs)))"

definition get_cpuid :: "int list \<Rightarrow> nat \<Rightarrow> int" where
  "get_cpuid coreids i = (if coreids = [] then -1 else coreids ! (i mod length coreids))"

definition dispatch_event_external :: "nat \<Rightarrow> loop_event \<Rightarrow> 'w async_msgr \<Rightarrow> 'w async_msgr" where
  "dispatch_event_external w e M = M\<lparr>external_events := (external_events M)(w := external_events M w @ [e])\<rparr>"

text \<open>
  \<^verbatim>\<open>do_request\<close> of an event.  \<^verbatim>\<open>_stop\<close> is \<open>stop_conn\<close> with its calls on the dispatch queue; \<^verbatim>\<open>_release\<close> asserts that the
  connection is closed.
\<close>

definition do_request :: "loop_event \<Rightarrow> 'w async_msgr \<Rightarrow> 'w async_msgr option" where
  "do_request e M =
     (case e of
        C_stop i \<Rightarrow>
          (let c = con (peers M) i
           in if cst c = STATE_CLOSED then Some M
              else
                (case discard_queue (conn_id M i) (in_q M) of
                   None \<Rightarrow> None
                 | Some q \<Rightarrow>
                     Some (dispatch_event_external (conn_worker M i) (C_release i)
                       (M\<lparr>peers := stop_conn i (peers M),
                          in_q := (if Handshake.queue_reset c then Dispatch_Queue.queue_reset (i + 2) q else q)\<rparr>))))
      | C_release i \<Rightarrow>
          (let c = con (peers M) i in if cst c = STATE_CLOSED \<and> \<not> has_sd c then Some M else None))"

fun do_requests :: "loop_event list \<Rightarrow> 'w async_msgr \<Rightarrow> 'w async_msgr option" where
  "do_requests [] M = Some M"
| "do_requests (e # es) M = Option.bind (do_request e M) (do_requests es)"

text \<open>
  \<^verbatim>\<open>barrier\<close>: each worker handles the events that were queued before the barrier's own; what they queue in turn stays
  behind it.
\<close>

definition run_to_barrier :: "nat \<Rightarrow> 'w async_msgr \<Rightarrow> 'w async_msgr option" where
  "run_to_barrier w M = do_requests (external_events M w) (M\<lparr>external_events := (external_events M)(w := [])\<rparr>)"

fun barrier_loop :: "nat list \<Rightarrow> 'w async_msgr \<Rightarrow> 'w async_msgr option" where
  "barrier_loop [] M = Some M"
| "barrier_loop (w # ws) M = Option.bind (run_to_barrier w M) (barrier_loop ws)"

definition barrier :: "'w async_msgr \<Rightarrow> 'w async_msgr option" where
  "barrier M = barrier_loop [0..<n_workers M] M"

section \<open>Connections\<close>

text \<open>\<^verbatim>\<open>AsyncConnection::stop\<close>.\<close>

definition stop_request :: "nat \<Rightarrow> 'w async_msgr \<Rightarrow> 'w async_msgr" where
  "stop_request i M =
     (let c = con (peers M) i; M = M\<lparr>peers := upd_con i (c\<lparr>conn_stopping := True\<rparr>) (peers M)\<rparr>
      in if cst c = STATE_CLOSED then M else dispatch_event_external (conn_worker M i) (C_stop i) M)"

text \<open>The containers are walked in an order of their own: \<open>acc\<close> lists the accepting connections, \<open>reg\<close> the registered ones.\<close>

definition mark_down_all :: "nat list \<Rightarrow> nat list \<Rightarrow> 'w async_msgr \<Rightarrow> 'w async_msgr" where
  "mark_down_all acc reg M = fold stop_request reg (fold stop_request acc M)"

definition lists_all :: "nat list \<Rightarrow> nat list \<Rightarrow> 'w messenger \<Rightarrow> bool" where
  "lists_all acc reg P \<longleftrightarrow> set acc = accepting_conns P \<and> set reg = ran (conns P)"

definition am_get_connection ::
  "endian \<Rightarrow> 'w menv \<Rightarrow> nat \<Rightarrow> 'w \<Rightarrow> entity_addr \<Rightarrow> u32 \<Rightarrow> 'w async_msgr \<Rightarrow> ((unit + nat) \<times> 'w async_msgr) option"
where
  "am_get_connection e E i w dest t M =
     (case get_connection (E\<lparr>my_addr := addr_mem e (my_address M)\<rparr>) i w (addr_mem e dest) t (peers M) of
        None \<Rightarrow> None
      | Some (Inl u, P) \<Rightarrow> Some (Inl u, M)
      | Some (Inr j, P) \<Rightarrow>
          if lookup_conn (addr_mem e dest) (peers M) = None
          then (let (k, M) = get_worker M; (n, q) = get_id (in_q M)
                in Some (Inr j, M\<lparr>peers := P, in_q := q, conn_worker := (conn_worker M)(i := k), conn_id := (conn_id M)(i := n)\<rparr>))
          else Some (Inr j, M))"

definition am_add_accept :: "nat \<Rightarrow> 'w \<Rightarrow> 'w async_msgr \<Rightarrow> 'w async_msgr" where
  "am_add_accept i w M =
     (let (k, M) = get_worker M; (n, q) = get_id (in_q M)
      in M\<lparr>peers := add_accept i w (peers M), in_q := q, conn_worker := (conn_worker M)(i := k), conn_id := (conn_id M)(i := n)\<rparr>)"

section \<open>The loopback connection\<close>

definition init_local_connection :: "'w async_msgr \<Rightarrow> 'w async_msgr" where
  "init_local_connection M =
     M\<lparr>loop_addr := my_address M, loop_type := my_name_type M, loop_shutdown := False, loop_announced := loop_announced M + 1\<rparr>"

text \<open>\<^verbatim>\<open>LocalConnection::send_message\<close>; \<open>prio\<close> is the priority of the message.  A dropped message is released.\<close>

definition local_send :: "rat \<Rightarrow> ptr \<Rightarrow> int \<Rightarrow> 'w async_msgr \<Rightarrow> 'w async_msgr" where
  "local_send now m prio M =
     (if loop_shutdown M then M\<lparr>in_q := msg_ref (-1) m (in_q M)\<rparr>
      else M\<lparr>in_q := local_delivery loopback now m (if prio = 0 then default_send_priority M else prio) (in_q M)\<rparr>)"

definition local_stop :: "'w async_msgr \<Rightarrow> 'w async_msgr option" where
  "local_stop M =
     (if loop_shutdown M then Some M
      else
        (case discard_queue (loop_id M) (in_q M) of
           None \<Rightarrow> None
         | Some q \<Rightarrow> Some (M\<lparr>loop_shutdown := True, in_q := Dispatch_Queue.queue_reset loopback q\<rparr>)))"

section \<open>Addresses\<close>

definition am_learned_addr :: "entity_addr \<Rightarrow> 'w async_msgr \<Rightarrow> 'w async_msgr option" where
  "am_learned_addr peer_addr_for_me M =
     (if \<not> need_addr M then Some M
      else
        (case set_port (get_port (my_address M)) peer_addr_for_me of
           None \<Rightarrow> None
         | Some t \<Rightarrow> Some (init_local_connection (M\<lparr>need_addr := False, my_address := (my_address M)\<lparr>addr_ss := addr_ss t\<rparr>\<rparr>))))"

definition am_set_addr_unknowns :: "entity_addr \<Rightarrow> 'w async_msgr \<Rightarrow> 'w async_msgr option" where
  "am_set_addr_unknowns a M =
     (if is_blank_ip (my_address M)
      then
        (case set_port (get_port (my_address M)) ((my_address M)\<lparr>addr_ss := addr_ss a\<rparr>) of
           None \<Rightarrow> None
         | Some t \<Rightarrow> Some (init_local_connection (M\<lparr>my_address := t\<rparr>)))
      else Some M)"

section \<open>The listener\<close>

definition processor_bind ::
  "bind_conf \<Rightarrow> bind_os \<Rightarrow> int \<Rightarrow> int set \<Rightarrow> entity_addr \<Rightarrow> 'w async_msgr \<Rightarrow> (int \<times> 'w async_msgr) option"
where
  "processor_bind c os err avoid bind_addr M =
     (case listen_on c os err avoid bind_addr of
        None \<Rightarrow> None
      | Some (Not_bound r gone) \<Rightarrow> Some (r, M\<lparr>lis_sd := -1, open_sds := open_sds M - set gone\<rparr>)
      | Some (Bound sd listen_addr) \<Rightarrow>
          (let M = M\<lparr>lis_sd := sd, open_sds := insert sd (open_sds M), my_address := bind_addr\<rparr>
           in case (if bind_addr \<noteq> blank_addr then am_learned_addr bind_addr M else if need_addr M then Some M else None) of
                None \<Rightarrow> None
              | Some M \<Rightarrow>
                  (let M = (if get_port (my_address M) = 0 then M\<lparr>my_address := listen_addr\<rparr> else M)
                   in Some (0, init_local_connection (M\<lparr>my_address := (my_address M)\<lparr>addr_nonce := ucast (lis_nonce M)\<rparr>\<rparr>)))))"

definition processor_rebind :: "bind_conf \<Rightarrow> bind_os \<Rightarrow> int \<Rightarrow> int set \<Rightarrow> 'w async_msgr \<Rightarrow> (int \<times> 'w async_msgr) option" where
  "processor_rebind c os err avoid M =
     (case set_port 0 (my_address M) of
        None \<Rightarrow> None
      | Some addr \<Rightarrow>
          (let n = lis_nonce M + 1000000
           in processor_bind c os err (insert (get_port (my_address M)) avoid) addr
                (M\<lparr>lis_nonce := n, my_address := (my_address M)\<lparr>addr_nonce := ucast n\<rparr>\<rparr>)))"

definition processor_start :: "nat \<Rightarrow> 'w async_msgr \<Rightarrow> 'w async_msgr" where
  "processor_start w M = (if lis_sd M > 0 \<and> lis_worker M = None then M\<lparr>lis_worker := Some w\<rparr> else M)"

definition processor_stop :: "'w async_msgr \<Rightarrow> 'w async_msgr" where
  "processor_stop M =
     (if lis_sd M \<ge> 0 then M\<lparr>lis_worker := None, open_sds := open_sds M - {lis_sd M}, lis_sd := -1\<rparr> else M)"

section \<open>Life of a messenger\<close>

definition am_bind :: "bind_conf \<Rightarrow> bind_os \<Rightarrow> int \<Rightarrow> entity_addr \<Rightarrow> 'w async_msgr \<Rightarrow> (int \<times> 'w async_msgr) option" where
  "am_bind c os err bind_addr M =
     (if is_started M then Some (-1, M)
      else map_option (\<lambda>(r, M). (r, if r \<ge> 0 then M\<lparr>did_bind := True\<rparr> else M)) (processor_bind c os err {} bind_addr M))"

definition am_rebind ::
  "bind_conf \<Rightarrow> bind_os \<Rightarrow> int \<Rightarrow> nat list \<Rightarrow> nat list \<Rightarrow> int set \<Rightarrow> 'w async_msgr \<Rightarrow> (int \<times> 'w async_msgr) option"
where
  "am_rebind c os err acc reg avoid M =
     (if \<not> did_bind M then None
      else
        (case processor_rebind c os err avoid (mark_down_all acc reg (processor_stop M)) of
           None \<Rightarrow> None
         | Some (r, M) \<Rightarrow> Some (if r = 0 then (let (w, M) = get_worker M in (r, processor_start w M)) else (r, M))))"

definition am_unbind :: "'w async_msgr \<Rightarrow> 'w async_msgr" where
  "am_unbind M = (if did_bind M then processor_stop M else M)\<lparr>did_bind := False\<rparr>"

definition am_start :: "'w async_msgr \<Rightarrow> int \<times> 'w async_msgr" where
  "am_start M =
     (if is_started M then (-1, M)
      else
        (let M = M\<lparr>is_started := True\<rparr>
         in (0, if did_bind M then M
                else init_local_connection (M\<lparr>my_address := (my_address M)\<lparr>addr_nonce := ucast (am_nonce M)\<rparr>\<rparr>))))"

definition am_ready :: "'w async_msgr \<Rightarrow> 'w async_msgr option" where
  "am_ready M =
     (case dq_start (in_q M) of
        None \<Rightarrow> None
      | Some q \<Rightarrow>
          (let M = M\<lparr>in_q := q\<rparr> in Some (if did_bind M then (let (w, M) = get_worker M in processor_start w M) else M)))"

text \<open>The local-delivery thread running alone, up to \<open>n\<close> critical sections.\<close>

fun run_local :: "(ptr \<Rightarrow> bool) \<Rightarrow> nat \<Rightarrow> dq_state \<Rightarrow> dq_state" where
  "run_local fastp 0 s = s"
| "run_local fastp (Suc n) s =
     (case local_delivery_thread s of
        At_loop \<Rightarrow> run_local fastp n (run_local_delivery_locked s)
      | In_hand mp \<Rightarrow> run_local fastp n (run_local_delivery_unlocked fastp mp s)
      | _ \<Rightarrow> s)"

text \<open>
  \<^verbatim>\<open>DispatchQueue::shutdown\<close> and \<^verbatim>\<open>DispatchQueue::wait\<close>.  Joining a thread that was never started is an assertion of
  \<^verbatim>\<open>Thread::join\<close>; a thread that does not end blocks the caller (\<open>Some None\<close>).
\<close>

definition dq_shutdown :: "(ptr \<Rightarrow> bool) \<Rightarrow> nat \<Rightarrow> dq_state \<Rightarrow> dq_state option option" where
  "dq_shutdown fastp fuel s =
     (if local_delivery_thread s = Not_started then None
      else
        (let s = run_local fastp fuel (shutdown_local s)
         in Some (if local_delivery_thread s = Exited then Some (shutdown_dispatch s) else None)))"

definition dq_join :: "nat \<Rightarrow> dq_state \<Rightarrow> dq_state option option" where
  "dq_join fuel s =
     (if dispatch_thread s = Not_started then None
      else
        (case run_dispatch fuel s of
           None \<Rightarrow> None
         | Some s \<Rightarrow> Some (if dispatch_thread s = Exited then Some (dq_wait s) else None)))"

text \<open>\<open>fuel\<close> bounds the steps of the threads that are joined.\<close>

definition am_shutdown ::
  "(ptr \<Rightarrow> bool) \<Rightarrow> nat \<Rightarrow> nat list \<Rightarrow> nat list \<Rightarrow> 'w async_msgr \<Rightarrow> (int \<times> 'w async_msgr) option option"
where
  "am_shutdown fastp fuel acc reg M =
     (if \<not> is_started M then Some (Some (-1, M))
      else if shutdown_called M then Some (Some (0, M))
      else
        (case Option.bind (barrier (mark_down_all acc reg ((processor_stop (M\<lparr>shutdown_called := True\<rparr>))\<lparr>did_bind := False\<rparr>))) local_stop of
           None \<Rightarrow> None
         | Some M \<Rightarrow> map_option (map_option (\<lambda>q. (0, M\<lparr>in_q := q\<rparr>))) (dq_shutdown fastp fuel (in_q M))))"

definition am_wait :: "nat \<Rightarrow> 'w async_msgr \<Rightarrow> 'w async_msgr option option" where
  "am_wait fuel M =
     (if \<not> is_started M then Some (Some M)
      else if did_bind M then None
      else
        map_option (map_option (\<lambda>q. M\<lparr>in_q := q, shutdown_called := False, is_started := False\<rparr>))
          (if dispatch_thread (in_q M) \<noteq> Not_started then dq_join fuel (in_q M) else Some (Some (in_q M))))"

text \<open>The constructor, for a pool of \<open>n\<close> workers.\<close>

definition am_new :: "nat \<Rightarrow> u64 \<Rightarrow> u32 \<Rightarrow> (ptr \<Rightarrow> dmessage) \<Rightarrow> 'w messenger \<Rightarrow> 'w async_msgr" where
  "am_new n nonce t ms P =
     (let (k, q) = get_id (dq_new ms)
      in init_local_connection
           \<lparr>my_address = blank_addr, my_name_type = t, need_addr = True, did_bind = False, is_started = False, shutdown_called = False,
            am_nonce = nonce, default_send_priority = 127, lis_sd = -1, lis_nonce = nonce, lis_worker = None, open_sds = {},
            pool_seq = 0, n_workers = n, external_events = (\<lambda>_. []), loop_addr = blank_addr, loop_type = t, loop_id = k,
            loop_shutdown = False, loop_announced = 0, in_q = q, peers = P, conn_worker = (\<lambda>_. 0), conn_id = (\<lambda>_. 0)\<rparr>)"

end
