(* ===== verification/Messenger_Life.thy ===== *)
theory Messenger_Life
  imports Async_Messenger
begin

text \<open>
  What shutting a messenger down achieves: the threads of the dispatch queue end, every registered connection is closed
  by its worker before the barrier returns, and the listening socket is gone.  The invariant \<open>am_ok\<close> that this rests on is
  kept by every operation of the messenger and by its threads.
\<close>

section \<open>Joining the threads\<close>

definition alive :: "'i thread \<Rightarrow> bool" where
  "alive th \<longleftrightarrow> th \<noteq> Not_started \<and> th \<noteq> Exited"

lemma alive_wake [simp]: "alive (wake th) = alive th"
  by (cases th) (simp_all add: alive_def wake_def)

text \<open>The messages handed to the dispatchers directly.\<close>

definition fast_dispatched :: "mcall list \<Rightarrow> ptr list" where
  "fast_dispatched cs = List.map_filter (\<lambda>c. case c of Ms_fast_dispatch m \<Rightarrow> Some m | _ \<Rightarrow> None) cs"

lemma fast_dispatched_append [simp]: "fast_dispatched (cs @ ds) = fast_dispatched cs @ fast_dispatched ds"
  by (simp add: fast_dispatched_def List.map_filter_def)

lemma fast_dispatched_simps [simp]: "fast_dispatched [] = []"
  "fast_dispatched (c # cs) = (case c of Ms_fast_dispatch m \<Rightarrow> [m] | _ \<Rightarrow> []) @ fast_dispatched cs"
  by (simp_all add: fast_dispatched_def List.map_filter_simps split: mcall.splits)

lemma unlocked_effect:
  assumes "fifo_ok (mqueue s)"
  shows "local_messages (run_local_delivery_unlocked fastp mp s) = local_messages s"
    "local_delivery_thread (run_local_delivery_unlocked fastp mp s) = At_loop"
    "stop (run_local_delivery_unlocked fastp mp s) = stop s"
    "stop_local_delivery (run_local_delivery_unlocked fastp mp s) = stop_local_delivery s"
    "alive (dispatch_thread (run_local_delivery_unlocked fastp mp s)) = alive (dispatch_thread s)"
    "fast_dispatched (calls (run_local_delivery_unlocked fastp mp s)) =
       fast_dispatched (calls s) @ (if fastp (fst mp) then [fst mp] else [])"
    "mset (queued (run_local_delivery_unlocked fastp mp s)) = (if fastp (fst mp) then mset (queued s) else add_mset (fst mp) (mset (queued s)))"
proof -
  let ?s0 = "call (Ms_fast_preprocess (fst mp)) s"
  have q: "queued (run_local_delivery_unlocked fastp mp s) = queued (if fastp (fst mp) then s else enqueue (fst mp) (snd mp) 0 ?s0)"
    by (rule queued_cong) (simp add: run_local_delivery_unlocked_def Let_def fast_dispatch_def pre_dispatch_def post_dispatch_def)
  have "queued ?s0 = queued s" by (rule queued_cong) simp
  then show "mset (queued (run_local_delivery_unlocked fastp mp s)) = (if fastp (fst mp) then mset (queued s) else add_mset (fst mp) (mset (queued s)))"
    using enqueue_queued(1) [of ?s0 "fst mp" "snd mp" 0] assms by (simp add: q)
qed (simp_all add: run_local_delivery_unlocked_def Let_def fast_dispatch_def pre_dispatch_def post_dispatch_def enqueue_fields call_def)

text \<open>What the local-delivery thread still has to do, and for how long.\<close>

definition local_work :: "dq_state \<Rightarrow> ptr list" where
  "local_work s = local_hand s @ map fst (local_messages s)"

definition local_done :: "(ptr \<Rightarrow> bool) \<Rightarrow> dq_state \<Rightarrow> dq_state \<Rightarrow> bool" where
  "local_done fastp s s' \<longleftrightarrow> dq_inv s' \<and> local_delivery_thread s' = Exited \<and> local_messages s' = [] \<and> stop s' = stop s \<and>
    alive (dispatch_thread s') \<and> fast_dispatched (calls s') = fast_dispatched (calls s) @ filter fastp (local_work s) \<and>
    mset (queued s') = mset (queued s) + mset (filter (\<lambda>m. \<not> fastp m) (local_work s))"

lemma local_done_step:
  assumes "dq_inv s" and "local_delivery_thread s = In_hand mp"
    and "local_done fastp (run_local_delivery_unlocked fastp mp s) s'"
  shows "local_done fastp s s'"
proof -
  have "fifo_ok (mqueue s)" using assms(1) by (simp add: dq_inv_def)
  note e = unlocked_effect [OF this, of fastp mp]
  have "local_work s = fst mp # local_work (run_local_delivery_unlocked fastp mp s)"
    using assms(2) e by (simp add: local_work_def local_hand_def)
  then show ?thesis using assms(3) e by (simp add: local_done_def)
qed

lemma run_local_from_loop:
  assumes "dq_inv s" and "stop_local_delivery s" and "local_delivery_thread s = At_loop" and "alive (dispatch_thread s)"
    and "2 * length (local_messages s) + 1 \<le> n"
  shows "local_done fastp s (run_local fastp n s)"
  using assms
proof (induction "local_messages s" arbitrary: s n)
  case Nil
  then have r: "run_local_delivery_locked s = s\<lparr>local_delivery_thread := Exited\<rparr>" by (simp add: run_local_delivery_locked_def)
  obtain k where "n = Suc k" using Nil.prems(5) by (cases n) simp_all
  then have n: "run_local fastp n s = run_local_delivery_locked s" using Nil.prems(3) r by (cases k) simp_all
  have "queued (run_local_delivery_locked s) = queued s" by (rule queued_cong) (simp add: r)
  then show ?case using local_locked_inv [OF Nil.prems(1,3)] Nil by (simp add: n r local_done_def local_work_def local_hand_def)
next
  case (Cons mp mps)
  note lm = Cons.hyps(2) [symmetric]
  define v where "v = run_local_delivery_locked s"
  define x where "x = run_local_delivery_unlocked fastp mp v"
  have v: "dq_inv v" "local_delivery_thread v = In_hand mp" "local_messages v = mps" "calls v = calls s" "stop v = stop s"
    "stop_local_delivery v" "dispatch_thread v = dispatch_thread s" "queued v = queued s"
    using local_locked_inv [OF Cons.prems(1,3)] Cons.prems(2) lm queued_cong [of v s]
    by (simp_all add: v_def run_local_delivery_locked_def)
  have vok: "fifo_ok (mqueue v)" using v(1) by (simp add: dq_inv_def)
  note e = unlocked_effect [OF vok, of fastp mp, folded x_def]
  have "n = Suc (Suc (n - 2))" "2 * length mps + 1 \<le> n - 2" using Cons.prems(5) lm by simp_all
  then obtain k where k: "n = Suc (Suc k)" "2 * length mps + 1 \<le> k" by blast
  have "mps = local_messages x" by (simp add: e v)
  moreover have "dq_inv x" unfolding x_def by (rule local_unlocked_inv [OF v(1,2)])
  ultimately have "local_done fastp x (run_local fastp k x)" using Cons.hyps(1) [of x k] e v Cons.prems(4) k(2) by simp
  then have "local_done fastp v (run_local fastp k x)" unfolding x_def by (rule local_done_step [OF v(1,2)])
  moreover have "local_work v = local_work s" using lm Cons.prems(3) v(2,3) by (simp add: local_work_def local_hand_def)
  moreover have "run_local fastp n s = run_local fastp k x" using Cons.prems(3) v(2) by (simp add: k(1) x_def v_def)
  ultimately show ?case using v by (simp add: local_done_def)
qed

lemma run_local_exits:
  assumes "dq_inv s" and "stop_local_delivery s" and "alive (local_delivery_thread s)" and "alive (dispatch_thread s)"
    and "2 * length (local_messages s) + 2 \<le> n"
  shows "local_done fastp s (run_local fastp n s)"
proof (cases "local_delivery_thread s")
  case At_loop
  then show ?thesis using run_local_from_loop [OF assms(1,2) _ assms(4), of n fastp] assms(5) by simp
next
  case (In_hand mp)
  define x where "x = run_local_delivery_unlocked fastp mp s"
  have ok: "fifo_ok (mqueue s)" using assms(1) by (simp add: dq_inv_def)
  note e = unlocked_effect [OF ok, of fastp mp, folded x_def]
  obtain k where k: "n = Suc k" "2 * length (local_messages s) + 1 \<le> k" using assms(5) by (cases n) simp_all
  have "dq_inv x" unfolding x_def by (rule local_unlocked_inv [OF assms(1) In_hand])
  then have "local_done fastp x (run_local fastp k x)" using run_local_from_loop [of x k fastp] e assms(2,4) k(2) by simp
  then show ?thesis using local_done_step [OF assms(1) In_hand] In_hand by (simp add: k(1) x_def)
next
  case Waiting
  then show ?thesis using dq_inv_threads [OF assms(1)] assms(2) by (simp add: threads_ok_def)
qed (use assms(3) in \<open>simp_all add: alive_def\<close>)

text \<open>\<^verbatim>\<open>DispatchQueue::shutdown\<close> returns: the local messages have been dispatched directly or queued.\<close>

lemma dq_shutdown_returns:
  assumes "dq_inv s" and "alive (local_delivery_thread s)" and "alive (dispatch_thread s)" and "2 * length (local_messages s) + 2 \<le> n"
  shows "\<exists>s'. dq_shutdown fastp n s = Some (Some s') \<and> dq_inv s' \<and> stop s' \<and> local_delivery_thread s' = Not_started \<and>
    local_messages s' = [] \<and> alive (dispatch_thread s') \<and>
    fast_dispatched (calls s') = fast_dispatched (calls s) @ filter fastp (local_work s) \<and>
    mset (queued s') = mset (queued s) + mset (filter (\<lambda>m. \<not> fastp m) (local_work s))"
proof -
  define u where "u = shutdown_local s"
  have u: "dq_inv u" "stop_local_delivery u" "alive (local_delivery_thread u)" "alive (dispatch_thread u)" "local_messages u = local_messages s"
    "local_work u = local_work s" "calls u = calls s" "queued u = queued s"
    using wake_control_inv(3) [OF assms(1)] assms(2,3) queued_cong [of u s]
    by (simp_all add: u_def shutdown_local_def local_work_def local_hand_def wake_def alive_def split: thread.splits)
  have d: "local_done fastp u (run_local fastp n u)" using run_local_exits [OF u(1-4)] assms(4) u(5) by simp
  let ?s' = "shutdown_dispatch (run_local fastp n u)"
  have "dq_inv ?s'" using wake_control_inv(5) d by (simp add: local_done_def)
  moreover have "queued ?s' = queued (run_local fastp n u)" by (rule queued_cong) (simp add: shutdown_dispatch_def)
  moreover have "dq_shutdown fastp n s = Some (Some ?s')"
    using d assms(2) by (simp add: dq_shutdown_def Let_def u_def local_done_def alive_def)
  ultimately show ?thesis using d u(6-8) by (simp add: local_done_def shutdown_dispatch_def)
qed

lemma run_dispatch_done:
  "run_dispatch m s = Some s' \<Longrightarrow> dispatch_thread s' = Exited \<Longrightarrow> run_dispatch (m + k) s = Some s'"
proof (induction m s rule: run_dispatch.induct)
  case (1 s)
  then show ?case by (cases k) simp_all
next
  case (2 m s)
  then show ?case by (auto split: thread.splits Option.bind_splits)
qed

lemma dispatch_sections_keep:
  "entry_locked s = Some s' \<Longrightarrow> local_delivery_thread s' = local_delivery_thread s \<and> local_messages s' = local_messages s \<and>
     stop s' = stop s \<and> stop_local_delivery s' = stop_local_delivery s"
  "entry_unlocked qi s = Some s' \<Longrightarrow> local_delivery_thread s' = local_delivery_thread s \<and> local_messages s' = local_messages s \<and>
     stop s' = stop s \<and> stop_local_delivery s' = stop_local_delivery s"
  by (auto simp: entry_locked_def entry_unlocked_def Let_def remove_arrival_def pre_dispatch_def post_dispatch_def
      split: if_splits option.splits prod.splits)

lemma run_dispatch_keeps:
  "run_dispatch n s = Some s' \<Longrightarrow> dq_inv s \<Longrightarrow> dq_inv s' \<and> local_delivery_thread s' = local_delivery_thread s \<and>
     local_messages s' = local_messages s \<and> stop s' = stop s \<and> stop_local_delivery s' = stop_local_delivery s"
proof (induction n s rule: run_dispatch.induct)
  case (2 n s)
  show ?case
  proof (cases "dispatch_thread s")
    case At_loop
    then obtain u where "entry_locked s = Some u" "run_dispatch n u = Some s'" using 2(3) by (auto split: Option.bind_splits)
    then show ?thesis using 2(1) [OF At_loop] 2(4) entry_locked_inv [OF 2(4)] dispatch_sections_keep(1) [of s u] by fastforce
  next
    case (In_hand qi)
    then obtain u where "entry_unlocked qi s = Some u" "run_dispatch n u = Some s'" using 2(3) by (auto split: Option.bind_splits)
    then show ?thesis using 2(2) [OF In_hand] 2(4) entry_unlocked_inv [OF 2(4) In_hand] dispatch_sections_keep(2) [of qi s u] by fastforce
  qed (use 2(3,4) in simp_all)
qed simp

lemma unlocked_next:
  assumes "dq_inv s" and "dispatch_thread s = In_hand qi"
  shows "\<exists>u. entry_unlocked qi s = Some u \<and> dq_inv u \<and> dispatch_thread u = At_loop \<and> mqueue u = mqueue s \<and> stop u = stop s"
proof -
  obtain u where u: "entry_unlocked qi s = Some u" "dq_inv u" using entry_unlocked_inv [OF assms] by blast
  have "dispatch_thread u = At_loop" "mqueue u = mqueue s"
    using u(1) by (auto simp: entry_unlocked_def Let_def pre_dispatch_def post_dispatch_def split: if_splits option.splits)
  then show ?thesis using u dispatch_sections_keep(2) [OF u(1)] by simp
qed

lemma stopped_dispatch_exits:
  assumes "dq_inv s" and "stop s" and "alive (dispatch_thread s)" and "2 * length (fifo_contents (mqueue s)) + 2 \<le> n"
  shows "\<exists>s'. run_dispatch n s = Some s' \<and> dispatch_thread s' = Exited \<and> fifo_contents (mqueue s') = []"
proof -
  have loop: "\<exists>s'. run_dispatch k u = Some s' \<and> dispatch_thread s' = Exited \<and> fifo_contents (mqueue s') = []"
    if a: "dq_inv u" "dispatch_thread u = At_loop" "stop u" "2 * length (fifo_contents (mqueue u)) + 1 \<le> k" for u k
  proof -
    let ?m = "2 * length (fifo_contents (mqueue u)) + 1"
    obtain s' where "run_dispatch ?m u = Some s'" "dispatch_thread s' = Exited" "fifo_contents (mqueue s') = []"
      using run_dispatch_drains [OF a(1,2)] a(3) by auto
    then show ?thesis using run_dispatch_done [of ?m u s' "k - ?m"] a(4) by auto
  qed
  show ?thesis
  proof (cases "dispatch_thread s")
    case At_loop
    then show ?thesis using loop [of s n] assms by simp
  next
    case (In_hand qi)
    obtain u where u: "entry_unlocked qi s = Some u" "dq_inv u" "dispatch_thread u = At_loop" "mqueue u = mqueue s" "stop u"
      using unlocked_next [OF assms(1) In_hand] assms(2) by blast
    obtain k where k: "n = Suc k" "2 * length (fifo_contents (mqueue u)) + 1 \<le> k" using assms(4) u(4) by (cases n) simp_all
    then show ?thesis using loop [OF u(2,3,5) k(2)] In_hand u(1) by simp
  next
    case Waiting
    then show ?thesis using dq_inv_threads [OF assms(1)] assms(2) by (simp add: threads_ok_def)
  qed (use assms(3) in \<open>simp_all add: alive_def\<close>)
qed

text \<open>\<^verbatim>\<open>DispatchQueue::wait\<close> returns after \<^verbatim>\<open>shutdown\<close>, with the queue empty.\<close>

lemma dq_join_returns:
  assumes "dq_inv s" and "stop s" and "alive (dispatch_thread s)" and "2 * length (fifo_contents (mqueue s)) + 2 \<le> n"
  shows "\<exists>s'. dq_join n s = Some (Some s') \<and> dq_inv s' \<and> fifo_contents (mqueue s') = [] \<and> dispatch_thread s' = Not_started \<and>
    \<not> stop s' \<and> local_delivery_thread s' = local_delivery_thread s \<and> local_messages s' = local_messages s"
proof -
  obtain u where u: "run_dispatch n s = Some u" "dispatch_thread u = Exited" "fifo_contents (mqueue u) = []"
    using stopped_dispatch_exits [OF assms] by blast
  have "dq_inv (dq_wait u)" using wake_control_inv(6) run_dispatch_keeps [OF u(1) assms(1)] u(2) by blast
  then show ?thesis using u run_dispatch_keeps [OF u(1) assms(1)] assms(3) by (simp add: dq_join_def alive_def dq_wait_def)
qed

section \<open>Closing the connections\<close>

text \<open>What the calls of connections on the queue leave alone.\<close>

definition same_threads :: "dq_state \<Rightarrow> dq_state \<Rightarrow> bool" where
  "same_threads s s' \<longleftrightarrow> local_delivery_thread s' = local_delivery_thread s \<and> local_messages s' = local_messages s \<and> stop s' = stop s \<and>
     stop_local_delivery s' = stop_local_delivery s \<and> alive (dispatch_thread s') = alive (dispatch_thread s) \<and>
     (dispatch_thread s' = Not_started \<longleftrightarrow> dispatch_thread s = Not_started) \<and> fast_dispatched (calls s') = fast_dispatched (calls s)"

lemma same_threads_refl [simp]: "same_threads s s" by (simp add: same_threads_def)

lemma same_threads_trans: "same_threads s t \<Longrightarrow> same_threads t u \<Longrightarrow> same_threads s u"
  by (simp add: same_threads_def)

lemma discard_loop_keeps: "discard_loop qs s = Some s' \<Longrightarrow> same_threads s s'"
proof (induction qs s rule: discard_loop.induct)
  case (2 qi qs s)
  then obtain m u where m: "get_message qi = Some m" "remove_arrival m s = Some u"
    "discard_loop qs (msg_ref (-1) m (call (Dispatch_throttle_release (dispatch_throttle_size (msgs u m))) u)) = Some s'"
    by (auto split: option.splits)
  have "same_threads s (msg_ref (-1) m (call (Dispatch_throttle_release (dispatch_throttle_size (msgs u m))) u))"
    using m(2) by (auto simp: same_threads_def remove_arrival_def call_def split: option.splits)
  then show ?case using 2(1) [OF m(1,2)] m(3) same_threads_trans by blast
qed simp

lemma fold_msg_ref_threads: "same_threads s (fold (msg_ref d) ms s)"
proof (induction ms arbitrary: s)
  case (Cons m ms)
  have "same_threads s (msg_ref d m s)" by (simp add: same_threads_def)
  then show ?case using Cons [of "msg_ref d m s"] same_threads_trans by simp
qed simp

lemma discard_queue_keeps:
  assumes "discard_queue k s = Some s'"
  shows "same_threads s s'"
proof -
  obtain q rs u where u: "discard_loop rs (s\<lparr>mqueue := q\<rparr>) = Some u" "s' = fold (msg_ref (-1)) (map qi_m rs) u"
    using assms by (auto simp: discard_queue_def Let_def split: prod.splits)
  have "same_threads s (s\<lparr>mqueue := q\<rparr>)" by (simp add: same_threads_def)
  then show ?thesis using discard_loop_keeps [OF u(1)] fold_msg_ref_threads [of u "-1" "map qi_m rs"] same_threads_trans u(2) by blast
qed

lemma wake_not_started: "wake th = Not_started \<longleftrightarrow> th = Not_started"
  by (cases th) (simp_all add: wake_def)

lemma queue_code_keeps: "same_threads s (queue_code k c s)"
  by (simp add: same_threads_def queue_code_def wake_not_started)

lemma connection_discards:
  assumes "dq_inv s" and "k \<noteq> 0"
  shows "\<exists>q. discard_queue k s = Some q \<and> dq_inv q \<and> same_threads s q"
  using discard_queue_inv [OF assms] discard_queue_keeps by blast

lemma queue_reset_ok: "dq_inv s \<Longrightarrow> dq_inv (Dispatch_Queue.queue_reset c s) \<and> same_threads s (Dispatch_Queue.queue_reset c s)"
  by (simp add: Dispatch_Queue.queue_reset_def queue_code_inv queue_code_keeps)

definition reg_ok :: "'w messenger \<Rightarrow> bool" where
  "reg_ok P \<longleftrightarrow> (\<forall>a i. conns P a = Some i \<longrightarrow> peer_addr (con P i) = a)"

definition shut :: "nat \<Rightarrow> 'w messenger \<Rightarrow> bool" where
  "shut i P \<longleftrightarrow> cst (con P i) = STATE_CLOSED \<and> \<not> has_sd (con P i)"

definition unlisted :: "nat \<Rightarrow> 'w messenger \<Rightarrow> bool" where
  "unlisted i P \<longleftrightarrow> i \<notin> accepting_conns P \<and> i \<notin> ran (conns P)"

lemma stop_conn_con:
  "con (stop_conn j P) i =
     (if i = j \<and> cst (con P i) \<noteq> STATE_CLOSED
      then con (stop_conn i P) i else con P i)"
  "peer_addr (con (stop_conn j P) i) = peer_addr (con P i)" "cst (con (stop_conn j P) j) = STATE_CLOSED"
  "cst (con P j) \<noteq> STATE_CLOSED \<Longrightarrow> \<not> has_sd (con (stop_conn j P) j)"
  by (simp_all add: stop_conn_def Let_def unregister_conn_def upd_con_def)

lemma stop_conn_lists:
  "conns (stop_conn j P) \<subseteq>\<^sub>m conns P" "accepting_conns (stop_conn j P) \<subseteq> accepting_conns P"
  by (auto simp: stop_conn_def Let_def unregister_conn_def upd_con_def map_le_def dom_def split: if_splits)

lemma stop_conn_reg: "reg_ok P \<Longrightarrow> reg_ok (stop_conn j P)"
  using stop_conn_lists(1) [of j P] unfolding reg_ok_def map_le_def dom_def by (auto simp: stop_conn_con(2))

lemma stop_conn_shut: "shut i P \<Longrightarrow> shut i (stop_conn j P)"
  by (simp add: shut_def stop_conn_con(1))

lemma stop_conn_unlisted: "unlisted i P \<Longrightarrow> unlisted i (stop_conn j P)"
  using stop_conn_lists [of j P] unfolding unlisted_def map_le_def dom_def ran_def by auto

lemma stop_conn_open:
  assumes "cst (con P i) \<noteq> STATE_CLOSED"
  shows "conns (stop_conn i P) =
      (if conns P (peer_addr (con P i)) = Some i then (conns P)(peer_addr (con P i) := None) else conns P)"
    and "accepting_conns (stop_conn i P) = accepting_conns P - {i}"
  using assms by (simp_all add: stop_conn_def Let_def unregister_conn_def upd_con_def)

lemma stop_conn_closes:
  assumes "reg_ok P" and "cst (con P i) \<noteq> STATE_CLOSED"
  shows "shut i (stop_conn i P)" and "unlisted i (stop_conn i P)"
proof -
  show "shut i (stop_conn i P)" using stop_conn_con(3) stop_conn_con(4) [OF assms(2)] by (simp add: shut_def)
  have "conns (stop_conn i P) b \<noteq> Some i" for b
  proof
    assume b: "conns (stop_conn i P) b = Some i"
    then have "conns P b = Some i" using stop_conn_lists(1) [of i P] by (auto simp: map_le_def dom_def)
    then have "b = peer_addr (con P i)" using assms(1) by (auto simp: reg_ok_def)
    then show False using b \<open>conns P b = Some i\<close> by (simp add: stop_conn_open(1) [OF assms(2)])
  qed
  then show "unlisted i (stop_conn i P)" by (auto simp: unlisted_def stop_conn_open(2) [OF assms(2)] ran_def)
qed

definition event_ok :: "'w async_msgr \<Rightarrow> loop_event \<Rightarrow> bool" where
  "event_ok M e \<longleftrightarrow> (case e of C_stop i \<Rightarrow> conn_id M i \<noteq> 0 | C_release i \<Rightarrow> shut i (peers M))"

definition events_ok :: "'w async_msgr \<Rightarrow> bool" where
  "events_ok M \<longleftrightarrow> (\<forall>w. \<forall>e \<in> set (external_events M w). event_ok M e)"

text \<open>Only the connections, the queue and the events differ.\<close>

definition am_framed :: "'w async_msgr \<Rightarrow> 'w async_msgr \<Rightarrow> bool" where
  "am_framed M M' \<longleftrightarrow> M' = M\<lparr>peers := peers M', in_q := in_q M', external_events := external_events M'\<rparr>"

lemma am_framed_refl [simp]: "am_framed M M"
  by (simp add: am_framed_def)

lemma am_framed_trans:
  assumes "am_framed M M'" and "am_framed M' M''"
  shows "am_framed M M''"
proof -
  have "M'' = M'\<lparr>peers := peers M'', in_q := in_q M'', external_events := external_events M''\<rparr>" using assms(2) by (simp only: am_framed_def)
  also have "\<dots> = M\<lparr>peers := peers M'', in_q := in_q M'', external_events := external_events M''\<rparr>"
    by (subst assms(1) [unfolded am_framed_def]) simp
  finally show ?thesis by (simp only: am_framed_def)
qed

lemma am_framed_fields:
  assumes "am_framed M M'"
  shows "conn_id M' = conn_id M" "conn_worker M' = conn_worker M" "n_workers M' = n_workers M" "lis_sd M' = lis_sd M"
    "loop_id M' = loop_id M" "lis_worker M' = lis_worker M" "open_sds M' = open_sds M" "did_bind M' = did_bind M"
    "is_started M' = is_started M" "loop_shutdown M' = loop_shutdown M"
  by (subst assms [unfolded am_framed_def], simp)+

text \<open>
  What handling events does: the connections listed are stopped, the queue is only told, and new events are behind the
  old ones.  The rest of the messenger is left alone.
\<close>

definition handled :: "nat list \<Rightarrow> 'w async_msgr \<Rightarrow> 'w async_msgr \<Rightarrow> bool" where
  "handled js M M' \<longleftrightarrow> dq_inv (in_q M') \<and> same_threads (in_q M) (in_q M') \<and> peers M' = fold stop_conn js (peers M) \<and>
     (\<forall>w. \<exists>es. external_events M' w = external_events M w @ es \<and> (\<forall>e \<in> set es. event_ok M' e)) \<and>
     am_framed M M'"

lemma handled_fields:
  assumes "handled js M M'"
  shows "conn_id M' = conn_id M" "peers M' = fold stop_conn js (peers M)" "dq_inv (in_q M')"
  using assms am_framed_fields by (auto simp: handled_def)

lemma fold_stop_shut: "shut i P \<Longrightarrow> shut i (fold stop_conn js P)"
  by (induction js arbitrary: P) (simp_all add: stop_conn_shut)

lemma fold_stop_unlisted: "unlisted i P \<Longrightarrow> unlisted i (fold stop_conn js P)"
  by (induction js arbitrary: P) (simp_all add: stop_conn_unlisted)

lemma fold_stop_reg: "reg_ok P \<Longrightarrow> reg_ok (fold stop_conn js P)"
  by (induction js arbitrary: P) (simp_all add: stop_conn_reg)

lemma fold_stop_closes:
  "reg_ok P \<Longrightarrow> i \<in> set js \<Longrightarrow> cst (con P i) \<noteq> STATE_CLOSED \<Longrightarrow> shut i (fold stop_conn js P) \<and> unlisted i (fold stop_conn js P)"
proof (induction js arbitrary: P)
  case (Cons j js)
  show ?case
  proof (cases "i = j")
    case True
    then show ?thesis using stop_conn_closes [OF Cons.prems(1)] Cons.prems(3) fold_stop_shut fold_stop_unlisted by fastforce
  next
    case False
    then have "con (stop_conn j P) i = con P i" by (simp add: stop_conn_con(1))
    then show ?thesis using Cons.IH [of "stop_conn j P"] Cons.prems stop_conn_reg False by fastforce
  qed
qed simp

lemma event_ok_mono: "event_ok M e \<Longrightarrow> handled js M M' \<Longrightarrow> event_ok M' e"
  by (auto simp: event_ok_def handled_fields fold_stop_shut split: loop_event.splits)

lemma handled_trans:
  assumes "handled js M M'" and "handled ks M' M''"
  shows "handled (js @ ks) M M''"
proof -
  have "\<exists>es. external_events M'' w = external_events M w @ es \<and> (\<forall>e \<in> set es. event_ok M'' e)" for w
  proof -
    obtain es fs where "external_events M' w = external_events M w @ es" "\<forall>e \<in> set es. event_ok M' e"
      "external_events M'' w = external_events M' w @ fs" "\<forall>e \<in> set fs. event_ok M'' e"
      using assms unfolding handled_def by metis
    then show ?thesis using event_ok_mono [OF _ assms(2)] by auto
  qed
  then show ?thesis
    using assms same_threads_trans [of "in_q M" "in_q M'" "in_q M''"] am_framed_trans [of M M' M''] by (simp add: handled_def)
qed

definition stops :: "loop_event list \<Rightarrow> nat list" where
  "stops es = List.map_filter (\<lambda>e. case e of C_stop i \<Rightarrow> Some i | C_release i \<Rightarrow> None) es"

lemma do_request_handles:
  assumes "dq_inv (in_q M)" and "event_ok M e"
  shows "\<exists>M'. do_request e M = Some M' \<and> handled (stops [e]) M M'"
proof (cases e)
  case (C_release i)
  then show ?thesis using assms by (simp add: do_request_def handled_def stops_def List.map_filter_simps event_ok_def shut_def)
next
  case (C_stop i)
  show ?thesis
  proof (cases "cst (con (peers M) i) = STATE_CLOSED")
    case True
    then have "stop_conn i (peers M) = peers M" by (simp add: stop_conn_def)
    then show ?thesis using C_stop True assms by (simp add: do_request_def handled_def stops_def List.map_filter_simps)
  next
    case False
    obtain q where q: "discard_queue (conn_id M i) (in_q M) = Some q" "dq_inv q" "same_threads (in_q M) q"
      using connection_discards [OF assms(1)] assms(2) C_stop by (auto simp: event_ok_def)
    define q' where "q' = (if Handshake.queue_reset (con (peers M) i) then Dispatch_Queue.queue_reset (i + 2) q else q)"
    define M' where "M' = dispatch_event_external (conn_worker M i) (C_release i) (M\<lparr>peers := stop_conn i (peers M), in_q := q'\<rparr>)"
    have q': "dq_inv q'" "same_threads (in_q M) q'"
      using q queue_reset_ok [OF q(2)] same_threads_trans by (auto simp: q'_def)
    have "shut i (stop_conn i (peers M))" using stop_conn_con(3) stop_conn_con(4) [OF False] by (simp add: shut_def)
    then have "handled (stops [e]) M M'"
      using q' C_stop by (simp add: handled_def M'_def dispatch_event_external_def stops_def List.map_filter_simps event_ok_def am_framed_def)
    then show ?thesis using C_stop False q(1) by (simp add: do_request_def Let_def M'_def q'_def)
  qed
qed

lemma stops_Cons: "stops (e # es) = stops [e] @ stops es"
  by (simp add: stops_def List.map_filter_def)

lemma do_requests_handle:
  "dq_inv (in_q M) \<Longrightarrow> \<forall>e \<in> set es. event_ok M e \<Longrightarrow> \<exists>M'. do_requests es M = Some M' \<and> handled (stops es) M M'"
proof (induction es arbitrary: M)
  case Nil
  then show ?case by (simp add: handled_def stops_def List.map_filter_simps)
next
  case (Cons e es)
  obtain M1 where M1: "do_request e M = Some M1" "handled (stops [e]) M M1" using do_request_handles [of M e] Cons.prems by auto
  obtain M2 where M2: "do_requests es M1 = Some M2" "handled (stops es) M1 M2"
    using Cons.IH [of M1] event_ok_mono [OF _ M1(2)] Cons.prems handled_fields(3) [OF M1(2)] by auto
  then show ?case using M1 handled_trans [OF M1(2) M2(2)] by (simp add: stops_Cons [of e es])
qed

lemma run_to_barrier_handles:
  assumes "dq_inv (in_q M)" and "events_ok M"
  shows "\<exists>M'. run_to_barrier w M = Some M' \<and> handled (stops (external_events M w)) (M\<lparr>external_events := (external_events M)(w := [])\<rparr>) M'"
  using do_requests_handle [of "M\<lparr>external_events := (external_events M)(w := [])\<rparr>" "external_events M w"] assms
  by (auto simp: run_to_barrier_def events_ok_def event_ok_def split: loop_event.splits)

text \<open>Between workers: the stopped connections add up, no other event is lost.\<close>

definition worked :: "nat list \<Rightarrow> nat set \<Rightarrow> 'w async_msgr \<Rightarrow> 'w async_msgr \<Rightarrow> bool" where
  "worked js ws M M' \<longleftrightarrow> dq_inv (in_q M') \<and> events_ok M' \<and> same_threads (in_q M) (in_q M') \<and> peers M' = fold stop_conn js (peers M) \<and>
     (\<forall>w \<in> ws. set (stops (external_events M w)) \<subseteq> set js) \<and>
     (\<forall>w. w \<notin> ws \<longrightarrow> set (external_events M w) \<subseteq> set (external_events M' w)) \<and>
     am_framed M M'"

lemma worker_worked:
  assumes "dq_inv (in_q M)" and "events_ok M"
  shows "\<exists>M'. run_to_barrier w M = Some M' \<and> worked (stops (external_events M w)) {w} M M'"
proof -
  let ?M = "M\<lparr>external_events := (external_events M)(w := [])\<rparr>"
  obtain M' where M': "run_to_barrier w M = Some M'" and h: "handled (stops (external_events M w)) ?M M'"
    using run_to_barrier_handles [OF assms] by blast
  have ev: "\<exists>es. external_events M' v = external_events ?M v @ es \<and> (\<forall>e \<in> set es. event_ok M' e)" for v
    using h unfolding handled_def by blast
  have old: "event_ok M' e" if "e \<in> set (external_events ?M v)" for e v
  proof (rule event_ok_mono [OF _ h])
    show "event_ok ?M e" using that assms(2) by (auto simp: events_ok_def event_ok_def split: if_splits loop_event.splits)
  qed
  have "events_ok M'" unfolding events_ok_def using ev old by (metis Un_iff set_append)
  moreover have "set (external_events M v) \<subseteq> set (external_events M' v)" if "v \<noteq> w" for v
    using ev [of v] that by auto
  moreover have "am_framed M M'"
    by (rule am_framed_trans [of _ ?M]) (use h in \<open>simp_all add: handled_def am_framed_def [of M]\<close>)
  ultimately show ?thesis using M' h by (simp add: worked_def handled_def)
qed

lemma stops_mono: "set es \<subseteq> set fs \<Longrightarrow> set (stops es) \<subseteq> set (stops fs)"
  by (auto simp: stops_def List.map_filter_def)

lemma worked_trans:
  assumes "worked js ws M M'" and "worked ks vs M' M''"
  shows "worked (js @ ks) (ws \<union> vs) M M''"
proof -
  have "set (stops (external_events M w)) \<subseteq> set (js @ ks)" if "w \<in> ws \<union> vs" for w
  proof (cases "w \<in> ws")
    case True
    then show ?thesis using assms(1) by (auto simp: worked_def)
  next
    case False
    then have "set (stops (external_events M w)) \<subseteq> set (stops (external_events M' w))"
      using assms(1) by (intro stops_mono) (simp add: worked_def)
    moreover have "set (stops (external_events M' w)) \<subseteq> set ks" using assms(2) that False by (simp add: worked_def)
    ultimately show ?thesis by auto
  qed
  moreover have "set (external_events M w) \<subseteq> set (external_events M'' w)" if "w \<notin> ws \<union> vs" for w
    using assms that unfolding worked_def by (meson UnI1 UnI2 subset_trans)
  ultimately show ?thesis
    using assms same_threads_trans [of "in_q M" "in_q M'" "in_q M''"] am_framed_trans [of M M' M''] by (simp add: worked_def)
qed

lemma barrier_loop_works:
  "dq_inv (in_q M) \<Longrightarrow> events_ok M \<Longrightarrow> \<exists>js M'. barrier_loop ws M = Some M' \<and> worked js (set ws) M M'"
proof (induction ws arbitrary: M)
  case Nil
  then show ?case by (intro exI [of _ "[]"]) (simp add: worked_def)
next
  case (Cons w ws)
  obtain M1 where M1: "run_to_barrier w M = Some M1" "worked (stops (external_events M w)) {w} M M1"
    using worker_worked [OF Cons.prems] by blast
  then obtain js M2 where M2: "barrier_loop ws M1 = Some M2" "worked js (set ws) M1 M2"
    using Cons.IH [of M1] unfolding worked_def by blast
  then show ?case using M1 worked_trans [OF M1(2) M2(2)] by auto
qed

text \<open>\<^verbatim>\<open>mark_down_all\<close> asks every connection that is not closed to stop.\<close>

definition same_conns :: "'w messenger \<Rightarrow> 'w messenger \<Rightarrow> bool" where
  "same_conns P P' \<longleftrightarrow> conns P' = conns P \<and> accepting_conns P' = accepting_conns P \<and>
     (\<forall>i. cst (con P' i) = cst (con P i) \<and> has_sd (con P' i) = has_sd (con P i) \<and> peer_addr (con P' i) = peer_addr (con P i))"

lemma same_conns_refl [simp]: "same_conns P P" by (simp add: same_conns_def)

lemma same_conns_keep: "same_conns P P' \<Longrightarrow> shut i P' = shut i P" "same_conns P P' \<Longrightarrow> reg_ok P' = reg_ok P"
  by (simp_all add: same_conns_def shut_def reg_ok_def)

lemma stop_request_asks:
  assumes "events_ok M" and "conn_id M i \<noteq> 0"
  shows "am_framed M (stop_request i M)" "in_q (stop_request i M) = in_q M" "same_conns (peers M) (peers (stop_request i M))"
    "events_ok (stop_request i M)" "set (external_events M w) \<subseteq> set (external_events (stop_request i M) w)"
    "cst (con (peers M) i) \<noteq> STATE_CLOSED \<Longrightarrow> C_stop i \<in> set (external_events (stop_request i M) (conn_worker M i))"
proof -
  show c: "same_conns (peers M) (peers (stop_request i M))"
    by (simp add: stop_request_def Let_def same_conns_def upd_con_def dispatch_event_external_def)
  show f: "am_framed M (stop_request i M)" by (simp add: stop_request_def Let_def am_framed_def dispatch_event_external_def)
  have "event_ok (stop_request i M) e = event_ok M e" for e
    using same_conns_keep(1) [OF c] by (simp add: event_ok_def am_framed_fields [OF f] split: loop_event.splits)
  then show "events_ok (stop_request i M)"
    using assms by (auto simp: events_ok_def stop_request_def Let_def dispatch_event_external_def event_ok_def [of M "C_stop i"] split: if_splits)
qed (auto simp: stop_request_def Let_def dispatch_event_external_def)

lemma same_conns_trans: "same_conns P Q \<Longrightarrow> same_conns Q S \<Longrightarrow> same_conns P S"
  by (simp add: same_conns_def)

lemma stop_requests_ask:
  assumes "events_ok M" and "\<forall>i \<in> set is. conn_id M i \<noteq> 0"
  defines "M' \<equiv> fold stop_request is M"
  shows "am_framed M M' \<and> in_q M' = in_q M \<and> same_conns (peers M) (peers M') \<and> events_ok M' \<and>
    (\<forall>w. set (external_events M w) \<subseteq> set (external_events M' w)) \<and>
    (\<forall>i \<in> set is. cst (con (peers M) i) \<noteq> STATE_CLOSED \<longrightarrow> C_stop i \<in> set (external_events M' (conn_worker M i)))"
  unfolding M'_def using assms(1,2)
proof (induction "is" arbitrary: M)
  case (Cons i "is")
  define N where "N = stop_request i M"
  have "conn_id M i \<noteq> 0" using Cons.prems(2) by simp
  note n = stop_request_asks [OF Cons.prems(1) this, folded N_def]
  have same: "conn_id N = conn_id M" "conn_worker N = conn_worker M" "cst (con (peers N) j) = cst (con (peers M) j)" for j
    using am_framed_fields [OF n(1)] n(3) by (simp_all add: same_conns_def)
  have IH: "am_framed N (fold stop_request is N) \<and> in_q (fold stop_request is N) = in_q N \<and> same_conns (peers N) (peers (fold stop_request is N)) \<and>
      events_ok (fold stop_request is N) \<and> (\<forall>w. set (external_events N w) \<subseteq> set (external_events (fold stop_request is N) w)) \<and>
      (\<forall>j \<in> set is. cst (con (peers N) j) \<noteq> STATE_CLOSED \<longrightarrow> C_stop j \<in> set (external_events (fold stop_request is N) (conn_worker N j)))"
    using Cons.IH [OF n(4)] Cons.prems(2) same(1) by simp
  show ?case
    using IH n am_framed_trans [OF n(1)] same_conns_trans [OF n(3)] unfolding fold_simps N_def [symmetric] same
    by (simp add: subset_eq)
qed simp

section \<open>The invariant of a messenger\<close>

text \<open>
  There is at most one listening socket, and it belongs to a bound messenger; a registered connection is found under its
  peer's address, has an id of its own and one of the workers; what is waiting at the workers can be handled.
\<close>

definition listener_ok :: "'w async_msgr \<Rightarrow> bool" where
  "listener_ok M \<longleftrightarrow> (lis_worker M \<noteq> None \<longrightarrow> lis_sd M > 0) \<and> open_sds M = (if lis_sd M \<ge> 0 then {lis_sd M} else {}) \<and>
     (lis_sd M \<ge> 0 \<longrightarrow> did_bind M)"

definition conns_ok :: "'w async_msgr \<Rightarrow> bool" where
  "conns_ok M \<longleftrightarrow> reg_ok (peers M) \<and> (\<forall>i. \<not> unlisted i (peers M) \<longrightarrow> conn_id M i \<noteq> 0 \<and> conn_worker M i < n_workers M)"

definition am_ok :: "'w async_msgr \<Rightarrow> bool" where
  "am_ok M \<longleftrightarrow> dq_inv (in_q M) \<and> loop_id M \<noteq> 0 \<and> events_ok M \<and> conns_ok M \<and> listener_ok M"

lemma fold_stop_closed: "cst (con P i) = STATE_CLOSED \<Longrightarrow> cst (con (fold stop_conn js P) i) = STATE_CLOSED"
  by (induction js arbitrary: P) (simp_all add: stop_conn_con(1))

lemma processor_stop_listener:
  "listener_ok M \<Longrightarrow> lis_sd (processor_stop M) < 0 \<and> open_sds (processor_stop M) = {} \<and> lis_worker (processor_stop M) = None"
  by (cases "lis_worker M") (auto simp: processor_stop_def listener_ok_def)

lemma processor_stop_keeps:
  "in_q (processor_stop M) = in_q M" "peers (processor_stop M) = peers M" "external_events (processor_stop M) = external_events M"
  "conn_id (processor_stop M) = conn_id M" "conn_worker (processor_stop M) = conn_worker M" "n_workers (processor_stop M) = n_workers M"
  "loop_id (processor_stop M) = loop_id M" "is_started (processor_stop M) = is_started M" "loop_shutdown (processor_stop M) = loop_shutdown M"
  by (simp_all add: processor_stop_def)

text \<open>Marking down and waiting for the workers closes what was registered.\<close>

lemma mark_down_and_barrier:
  assumes "dq_inv (in_q M)" and "events_ok M" and "conns_ok M" and "lists_all acc reg (peers M)"
  shows "\<exists>M'. barrier (mark_down_all acc reg M) = Some M' \<and> am_framed M M' \<and> dq_inv (in_q M') \<and> events_ok M' \<and> conns_ok M' \<and>
    same_threads (in_q M) (in_q M') \<and> (\<forall>i. \<not> unlisted i (peers M) \<longrightarrow> cst (con (peers M') i) = STATE_CLOSED) \<and>
    (\<forall>i. unlisted i (peers M') \<or> cst (con (peers M) i) = STATE_CLOSED)"
proof -
  let ?is = "acc @ reg"
  define N where "N = mark_down_all acc reg M"
  have N: "N = fold stop_request ?is M" by (simp add: N_def mark_down_all_def)
  have listed: "i \<in> set ?is \<longleftrightarrow> \<not> unlisted i (peers M)" for i using assms(4) by (auto simp: lists_all_def unlisted_def)
  then have ids: "\<forall>i \<in> set ?is. conn_id M i \<noteq> 0" using assms(3) by (auto simp: conns_ok_def)
  note n = stop_requests_ask [OF assms(2) ids, folded N]
  have fN: "am_framed M N" and cN: "same_conns (peers M) (peers N)" and eN: "events_ok N" and qN: "in_q N = in_q M" using n by blast+
  obtain js M' where b: "barrier N = Some M'" and w: "worked js (set [0..<n_workers M]) N M'"
    using barrier_loop_works [of N "[0..<n_workers M]"] qN eN assms(1) am_framed_fields(3) [OF fN] by (auto simp: barrier_def)
  have P': "peers M' = fold stop_conn js (peers N)" and fM': "am_framed M M'" using w am_framed_trans [OF fN] by (simp_all add: worked_def)
  have reg: "reg_ok (peers N)" using assms(3) same_conns_keep(2) [OF cN] by (simp add: conns_ok_def)
  have js: "i \<in> set js" if "\<not> unlisted i (peers M)" "cst (con (peers M) i) \<noteq> STATE_CLOSED" for i
  proof -
    have "C_stop i \<in> set (external_events N (conn_worker M i))" using n that listed by blast
    then have "i \<in> set (stops (external_events N (conn_worker M i)))" by (force simp: stops_def List.map_filter_def)
    moreover have "conn_worker M i < n_workers M" using assms(3) that(1) by (simp add: conns_ok_def)
    ultimately show ?thesis using w by (auto simp: worked_def)
  qed
  have shutN: "shut i (peers M') \<and> unlisted i (peers M')" if "\<not> unlisted i (peers M)" "cst (con (peers M) i) \<noteq> STATE_CLOSED" for i
    unfolding P' using fold_stop_closes [OF reg js [OF that]] that(2) cN by (simp add: same_conns_def)
  have un: "unlisted i (peers M')" if "unlisted i (peers M)" for i
    unfolding P' by (rule fold_stop_unlisted) (use that cN in \<open>simp add: unlisted_def same_conns_def\<close>)
  have "cst (con (peers M') i) = STATE_CLOSED" if "\<not> unlisted i (peers M)" for i
  proof (cases "cst (con (peers M) i) = STATE_CLOSED")
    case True
    then show ?thesis unfolding P' using fold_stop_closed cN by (metis same_conns_def)
  qed (use shutN [OF that] in \<open>simp add: shut_def\<close>)
  moreover have "conns_ok M'"
    using assms(3) un fold_stop_reg [OF reg] am_framed_fields [OF fM'] by (auto simp: conns_ok_def P')
  ultimately show ?thesis using b w fM' qN shutN un unfolding worked_def N_def by fastforce
qed

section \<open>Shutting down\<close>

lemma local_stop_returns:
  assumes "dq_inv (in_q M)" and "loop_id M \<noteq> 0"
  shows "\<exists>q. local_stop M = Some (M\<lparr>loop_shutdown := True, in_q := q\<rparr>) \<and> dq_inv q \<and> same_threads (in_q M) q"
proof (cases "loop_shutdown M")
  case True
  then have "M\<lparr>loop_shutdown := True, in_q := in_q M\<rparr> = M" by simp
  moreover have "local_stop M = Some M" using True by (simp add: local_stop_def)
  ultimately show ?thesis using assms(1) same_threads_refl by metis
next
  case False
  obtain q where q: "discard_queue (loop_id M) (in_q M) = Some q" "dq_inv q" "same_threads (in_q M) q"
    using connection_discards [OF assms] by blast
  then have "local_stop M = Some (M\<lparr>loop_shutdown := True, in_q := Dispatch_Queue.queue_reset loopback q\<rparr>)"
    using False by (simp add: local_stop_def)
  then show ?thesis using queue_reset_ok [OF q(2)] same_threads_trans [OF q(3)] by blast
qed

lemma event_ok_cong: "peers M' = peers M \<Longrightarrow> conn_id M' = conn_id M \<Longrightarrow> event_ok M' = event_ok M"
  by (auto simp: event_ok_def fun_eq_iff split: loop_event.splits)

lemma shutdown_steps:
  assumes ok: "am_ok M" and "is_started M" and "\<not> shutdown_called M" and "lists_all acc reg (peers M)"
    and "alive (local_delivery_thread (in_q M))" and "alive (dispatch_thread (in_q M))" and "2 * length (local_messages (in_q M)) + 2 \<le> fuel"
  shows "\<exists>M'. am_shutdown fastp fuel acc reg M = Some (Some (0, M')) \<and> am_ok M' \<and> is_started M' \<and> \<not> did_bind M' \<and> open_sds M' = {} \<and>
    loop_shutdown M' \<and> (\<forall>i. \<not> unlisted i (peers M) \<longrightarrow> cst (con (peers M') i) = STATE_CLOSED) \<and>
    (\<forall>i. unlisted i (peers M') \<or> cst (con (peers M) i) = STATE_CLOSED) \<and>
    stop (in_q M') \<and> alive (dispatch_thread (in_q M')) \<and> local_delivery_thread (in_q M') = Not_started \<and> local_messages (in_q M') = [] \<and>
    fast_dispatched (calls (in_q M')) = fast_dispatched (calls (in_q M)) @ filter fastp (local_work (in_q M))"
proof -
  define M0 where "M0 = (processor_stop (M\<lparr>shutdown_called := True\<rparr>))\<lparr>did_bind := False\<rparr>"
  have lo: "listener_ok (M\<lparr>shutdown_called := True\<rparr>)" using ok by (simp add: am_ok_def listener_ok_def)
  have M0: "in_q M0 = in_q M" "peers M0 = peers M" "external_events M0 = external_events M" "conn_id M0 = conn_id M"
    "conn_worker M0 = conn_worker M" "n_workers M0 = n_workers M" "loop_id M0 = loop_id M" "is_started M0" "\<not> did_bind M0"
    "open_sds M0 = {}" "lis_sd M0 < 0" "lis_worker M0 = None"
    using processor_stop_listener [OF lo] assms(2) by (simp_all add: M0_def processor_stop_keeps)
  have pre: "dq_inv (in_q M0)" "events_ok M0" "conns_ok M0" "lists_all acc reg (peers M0)"
    using ok assms(4) event_ok_cong [OF M0(2,4)] by (simp_all add: am_ok_def M0 events_ok_def conns_ok_def)
  obtain M1 where M1: "barrier (mark_down_all acc reg M0) = Some M1" "am_framed M0 M1" "dq_inv (in_q M1)" "events_ok M1" "conns_ok M1"
    "same_threads (in_q M0) (in_q M1)" "\<forall>i. \<not> unlisted i (peers M0) \<longrightarrow> cst (con (peers M1) i) = STATE_CLOSED"
    "\<forall>i. unlisted i (peers M1) \<or> cst (con (peers M0) i) = STATE_CLOSED"
    using mark_down_and_barrier [OF pre] by blast
  note f1 = am_framed_fields [OF M1(2)]
  have lid: "loop_id M1 \<noteq> 0" using f1 M0(7) ok by (simp add: am_ok_def)
  obtain q where q: "local_stop M1 = Some (M1\<lparr>loop_shutdown := True, in_q := q\<rparr>)" "dq_inv q" "same_threads (in_q M1) q"
    using local_stop_returns [OF M1(3) lid] by blast
  have t: "same_threads (in_q M) q" using same_threads_trans [OF M1(6) q(3)] M0(1) by simp
  have work: "local_work q = local_work (in_q M)" using t by (simp add: same_threads_def local_work_def local_hand_def)
  obtain q' where q': "dq_shutdown fastp fuel q = Some (Some q')" "dq_inv q'" "stop q'" "local_delivery_thread q' = Not_started"
    "local_messages q' = []" "alive (dispatch_thread q')" "fast_dispatched (calls q') = fast_dispatched (calls q) @ filter fastp (local_work q)"
    using dq_shutdown_returns [OF q(2), of fuel fastp] t assms(5-7) by (auto simp: same_threads_def)
  let ?M' = "M1\<lparr>loop_shutdown := True, in_q := q'\<rparr>"
  have "am_shutdown fastp fuel acc reg M = Some (Some (0, ?M'))"
    using assms(2,3) M1(1) q(1) q'(1) by (simp add: am_shutdown_def M0_def)
  moreover have "am_ok ?M'"
    using q'(2) lid M1(4,5) event_ok_cong [of ?M' M1] f1 M0(10-12) by (simp add: am_ok_def events_ok_def conns_ok_def listener_ok_def)
  ultimately show ?thesis using q' M1(7,8) M0 f1 t work by (simp add: same_threads_def)
qed

lemma wait_steps:
  assumes "am_ok M" and "is_started M" and "\<not> did_bind M" and "stop (in_q M)" and "alive (dispatch_thread (in_q M))"
    and "2 * length (fifo_contents (mqueue (in_q M))) + 2 \<le> fuel"
  shows "\<exists>M'. am_wait fuel M = Some (Some M') \<and> am_ok M' \<and> \<not> is_started M' \<and> \<not> shutdown_called M' \<and> did_bind M' = did_bind M \<and>
    fifo_contents (mqueue (in_q M')) = [] \<and> dispatch_thread (in_q M') = Not_started \<and> \<not> stop (in_q M') \<and>
    local_delivery_thread (in_q M') = local_delivery_thread (in_q M) \<and> peers M' = peers M"
proof -
  have inv: "dq_inv (in_q M)" using assms(1) by (simp add: am_ok_def)
  obtain q where q: "dq_join fuel (in_q M) = Some (Some q)" "dq_inv q" "fifo_contents (mqueue q) = []" "dispatch_thread q = Not_started"
    "\<not> stop q" "local_delivery_thread q = local_delivery_thread (in_q M)"
    using dq_join_returns [OF inv assms(4-6)] by blast
  let ?M' = "M\<lparr>in_q := q, shutdown_called := False, is_started := False\<rparr>"
  have "am_ok ?M'"
    using assms(1) q(2) event_ok_cong [of ?M' M] by (simp add: am_ok_def events_ok_def conns_ok_def listener_ok_def)
  then show ?thesis using q assms(2,3,5) by (simp add: am_wait_def alive_def)
qed

end
