(* ===== verification/Messenger_Reach.thy ===== *)
theory Messenger_Reach
  imports Messenger_Life
begin

text \<open>
  The life of a messenger as a step relation: what its users call, what its connections and workers do and what the
  threads of the dispatch queue do, in any order.  The invariant \<open>am_ok\<close> holds throughout; so a shutdown and the wait behind it
  return, and what they leave is stated at the end, together with what goes wrong when a messenger is used again.
\<close>

section \<open>Every operation keeps the invariant\<close>

definition same_core :: "'w async_msgr \<Rightarrow> 'w async_msgr \<Rightarrow> bool" where
  "same_core M M' \<longleftrightarrow> in_q M' = in_q M \<and> peers M' = peers M \<and> external_events M' = external_events M \<and> conn_id M' = conn_id M \<and>
     conn_worker M' = conn_worker M \<and> n_workers M' = n_workers M \<and> loop_id M' = loop_id M"

definition same_listener :: "'w async_msgr \<Rightarrow> 'w async_msgr \<Rightarrow> bool" where
  "same_listener M M' \<longleftrightarrow> lis_sd M' = lis_sd M \<and> lis_worker M' = lis_worker M \<and> open_sds M' = open_sds M \<and> did_bind M' = did_bind M"

lemma same_core_trans: "same_core M N \<Longrightarrow> same_core N K \<Longrightarrow> same_core M K"
  by (simp add: same_core_def)

lemma same_listener_ok: "same_listener M M' \<Longrightarrow> listener_ok M' = listener_ok M"
  by (simp add: same_listener_def listener_ok_def)

lemma am_ok_core:
  assumes "am_ok M" and "same_core M M'" and "listener_ok M'"
  shows "am_ok M'"
  using assms event_ok_cong [of M' M] by (simp add: am_ok_def same_core_def events_ok_def conns_ok_def)

lemma init_local_same: "same_core M (init_local_connection M)" "same_listener M (init_local_connection M)"
  by (simp_all add: init_local_connection_def same_core_def same_listener_def)

lemma am_learned_addr_same: "am_learned_addr a M = Some M' \<Longrightarrow> same_core M M' \<and> same_listener M M'"
  by (auto simp: am_learned_addr_def init_local_connection_def same_core_def same_listener_def split: if_splits option.splits)

lemma set_addr_unknowns_same: "am_set_addr_unknowns a M = Some M' \<Longrightarrow> same_core M M' \<and> same_listener M M'"
  by (auto simp: am_set_addr_unknowns_def init_local_connection_def same_core_def same_listener_def split: if_splits option.splits)

definition fds_ok :: "bind_os \<Rightarrow> bool" where
  "fds_ok os \<longleftrightarrow> (\<forall>f sd. os_socket os f = Inr sd \<longrightarrow> 0 \<le> sd)"

lemma bound_socket: "listen_on c os err avoid a = Some (Bound sd b) \<Longrightarrow> os_socket os (listen_family c a) = Inr sd"
  by (auto simp: listen_on_def Let_def split: sum.splits option.splits if_splits)

lemma processor_bind_effect:
  assumes "processor_bind c os err avoid a M = Some (r, M')" and "fds_ok os" and "open_sds M = {}" and "lis_worker M = None"
  shows "same_core M M' \<and> lis_worker M' = None \<and> did_bind M' = did_bind M \<and> open_sds M' = (if lis_sd M' \<ge> 0 then {lis_sd M'} else {}) \<and>
    (lis_sd M' \<ge> 0 \<longrightarrow> r = 0)"
proof (cases "listen_on c os err avoid a")
  case None
  then show ?thesis using assms(1) by (simp add: processor_bind_def)
next
  case (Some res)
  show ?thesis
  proof (cases res)
    case (Not_bound n gone)
    then show ?thesis using assms Some by (auto simp: processor_bind_def same_core_def)
  next
    case (Bound sd b)
    let ?M = "M\<lparr>lis_sd := sd, open_sds := insert sd (open_sds M), my_address := a\<rparr>"
    obtain N where N: "(if a \<noteq> blank_addr then am_learned_addr a ?M else if need_addr ?M then Some ?M else None) = Some N"
      using assms(1) Some Bound by (auto simp: processor_bind_def Let_def split: option.splits)
    have "same_core ?M N \<and> same_listener ?M N"
      using N am_learned_addr_same [of a ?M N] by (auto simp: same_core_def same_listener_def split: if_splits)
    moreover have "r = 0 \<and> same_core N M' \<and> same_listener N M'"
      using assms(1) Some Bound N
      by (auto simp: processor_bind_def Let_def init_local_connection_def same_core_def same_listener_def split: if_splits)
    moreover have "0 \<le> sd" using assms(2) bound_socket [of c os err avoid a sd b] Some Bound by (simp add: fds_ok_def)
    ultimately show ?thesis using assms(3,4) by (auto simp: same_core_def same_listener_def)
  qed
qed

lemma am_bind_ok:
  assumes "am_bind c os err a M = Some (r, M')" and "am_ok M" and "fds_ok os" and "\<not> did_bind M"
  shows "am_ok M'"
proof (cases "is_started M")
  case True
  then show ?thesis using assms(1,2) by (simp add: am_bind_def)
next
  case False
  then obtain N where N: "processor_bind c os err {} a M = Some (r, N)" "M' = (if r \<ge> 0 then N\<lparr>did_bind := True\<rparr> else N)"
    using assms(1) by (auto simp: am_bind_def)
  have l: "open_sds M = {}" "lis_worker M = None"
    using assms(2,4) by (cases "lis_worker M"; auto simp: am_ok_def listener_ok_def)+
  note e = processor_bind_effect [OF N(1) assms(3) l]
  show ?thesis by (rule am_ok_core [OF assms(2)]) (use e N(2) in \<open>auto simp: same_core_def listener_ok_def\<close>)
qed

lemma mark_down_all_ok:
  assumes "am_ok M" and "lists_all acc reg (peers M)"
  shows "am_ok (mark_down_all acc reg M)" "am_framed M (mark_down_all acc reg M)"
proof -
  have N: "mark_down_all acc reg M = fold stop_request (acc @ reg) M" by (simp add: mark_down_all_def)
  have ids: "\<forall>i \<in> set (acc @ reg). conn_id M i \<noteq> 0"
    using assms by (auto simp: am_ok_def conns_ok_def lists_all_def unlisted_def)
  have e: "events_ok M" using assms(1) by (simp add: am_ok_def)
  note n = stop_requests_ask [OF e ids, folded N]
  show f: "am_framed M (mark_down_all acc reg M)" using n by blast
  define K where "K = mark_down_all acc reg M"
  have K: "same_conns (peers M) (peers K)" "in_q K = in_q M" "events_ok K" using n unfolding K_def by blast+
  note fK = am_framed_fields [OF f, folded K_def]
  have "unlisted i (peers K) = unlisted i (peers M)" for i using K(1) by (simp add: unlisted_def same_conns_def)
  then have "conns_ok K = conns_ok M" by (simp add: conns_ok_def fK(1-3) same_conns_keep(2) [OF K(1)])
  moreover have "listener_ok K = listener_ok M" by (simp add: listener_ok_def fK(4,6-8))
  ultimately show "am_ok (mark_down_all acc reg M)" using assms(1) K(2,3) fK(5) by (simp add: am_ok_def flip: K_def)
qed

lemma get_worker_same: "get_worker M = (w, M') \<Longrightarrow> same_core M M' \<and> same_listener M M'"
  by (auto simp: get_worker_def same_core_def same_listener_def)

lemma processor_start_ok: "listener_ok M \<Longrightarrow> listener_ok (processor_start w M)" "same_core M (processor_start w M)"
  by (auto simp: processor_start_def listener_ok_def same_core_def)

lemma am_rebind_ok:
  assumes "am_rebind c os err acc reg avoid M = Some (r, M')" and "am_ok M" and "fds_ok os" and "lists_all acc reg (peers M)"
  shows "am_ok M'"
proof -
  have l: "listener_ok M" using assms(2) by (simp add: am_ok_def)
  note st = processor_stop_listener [OF l]
  have "am_ok (processor_stop M)"
    by (rule am_ok_core [OF assms(2)]) (use st in \<open>simp_all add: same_core_def processor_stop_keeps listener_ok_def\<close>)
  define N where "N = mark_down_all acc reg (processor_stop M)"
  have N: "am_ok N" "am_framed (processor_stop M) N"
    using mark_down_all_ok [OF \<open>am_ok (processor_stop M)\<close>] assms(4) by (simp_all add: N_def processor_stop_keeps)
  note f = am_framed_fields [OF N(2)]
  have bound: "did_bind M" using assms(1) by (simp add: am_rebind_def split: if_splits)
  obtain K where K: "processor_rebind c os err avoid N = Some (r, K)"
    "M' = (if r = 0 then processor_start (fst (get_worker K)) (snd (get_worker K)) else K)"
    using assms(1) bound by (auto simp: am_rebind_def N_def Let_def split: option.splits prod.splits if_splits)
  obtain a n where "processor_bind c os err (insert (get_port (my_address N)) avoid) a (N\<lparr>lis_nonce := n, my_address := (my_address N)\<lparr>addr_nonce := ucast n\<rparr>\<rparr>) = Some (r, K)"
    using K(1) by (auto simp: processor_rebind_def Let_def split: option.splits)
  note e = processor_bind_effect [OF this assms(3)]
  have lk: "same_core N K" "listener_ok K"
    using e st f bound by (auto simp: same_core_def listener_ok_def processor_stop_def)
  have gw: "same_core K (snd (get_worker K))" "same_listener K (snd (get_worker K))"
    using get_worker_same [of K "fst (get_worker K)" "snd (get_worker K)"] by simp_all
  have "am_ok K" by (rule am_ok_core [OF N(1) lk])
  moreover have "am_ok (processor_start (fst (get_worker K)) (snd (get_worker K)))"
    by (rule am_ok_core [OF N(1)])
      (use gw lk processor_start_ok same_listener_ok [OF gw(2)] same_core_trans in blast)+
  ultimately show ?thesis by (simp add: K(2))
qed

text \<open>A new connection has an identity that nothing refers to, and the ids have not run out.\<close>

definition fresh_conn :: "nat \<Rightarrow> 'w async_msgr \<Rightarrow> bool" where
  "fresh_conn i M \<longleftrightarrow> unlisted i (peers M) \<and> (\<forall>w. C_stop i \<notin> set (external_events M w) \<and> C_release i \<notin> set (external_events M w)) \<and>
     next_pipe_id (in_q M) \<noteq> 0 \<and> 0 < n_workers M"

lemma new_connection_ok:
  assumes ok: "am_ok M" and fresh: "fresh_conn i M" and "get_worker M = (k, N)" and "get_id (in_q N) = (n, q)"
    and con: "\<And>j. j \<noteq> i \<Longrightarrow> con P j = con (peers M) j" and reg: "reg_ok P" and list: "\<And>j. j \<noteq> i \<Longrightarrow> unlisted j P = unlisted j (peers M)"
  shows "am_ok (N\<lparr>peers := P, in_q := q, conn_worker := (conn_worker N)(i := k), conn_id := (conn_id N)(i := n)\<rparr>)" (is "am_ok ?K")
proof -
  have N: "same_core M N" "same_listener M N" and k: "k < n_workers M"
    using get_worker_same [OF assms(3)] assms(3) fresh by (auto simp: get_worker_def fresh_conn_def)
  have "dq_inv q" using wake_control_inv(4) [of "in_q N"] ok N assms(4) by (auto simp: am_ok_def same_core_def)
  moreover have "n \<noteq> 0" using assms(4) fresh N by (auto simp: get_id_def fresh_conn_def same_core_def)
  moreover have "event_ok ?K e" if e: "e \<in> set (external_events M w)" for e w
  proof -
    have "event_ok M e" using ok e by (auto simp: am_ok_def events_ok_def)
    moreover have "e \<noteq> C_stop i" "e \<noteq> C_release i" using fresh e by (auto simp: fresh_conn_def)
    ultimately show ?thesis using con N by (cases e) (auto simp: event_ok_def shut_def same_core_def)
  qed
  moreover have "conn_id ?K j \<noteq> 0 \<and> conn_worker ?K j < n_workers ?K" if "\<not> unlisted j (peers ?K)" for j
    using ok that list [of j] N k \<open>n \<noteq> 0\<close> by (cases "j = i") (auto simp: am_ok_def conns_ok_def same_core_def)
  then have "conns_ok ?K" unfolding conns_ok_def using reg by simp
  moreover have "listener_ok ?K" using ok N(2) by (simp add: am_ok_def listener_ok_def same_listener_def)
  ultimately show ?thesis using ok N(1) by (simp add: am_ok_def events_ok_def same_core_def)
qed

lemma am_get_connection_ok:
  assumes "am_get_connection e E i w d t M = Some (r, M')" and ok: "am_ok M" and fresh: "fresh_conn i M"
  shows "am_ok M'"
proof (cases "M' = M")
  case False
  let ?E = "E\<lparr>my_addr := addr_mem e (my_address M)\<rparr>" and ?a = "addr_mem e d"
  obtain P where P: "create_connect ?E i w ?a t (peers M) = Some P" and none: "conns (peers M) ?a = None"
    and M': "M' = (let (k, M) = get_worker M; (n, q) = get_id (in_q M)
                in M\<lparr>peers := P, in_q := q, conn_worker := (conn_worker M)(i := k), conn_id := (conn_id M)(i := n)\<rparr>)"
    using assms(1) False
    by (auto simp: am_get_connection_def get_connection_def lookup_conn_def Let_def split: option.splits sum.splits if_splits prod.splits)
  obtain k N where kN: "get_worker M = (k, N)" by force
  obtain n q where nq: "get_id (in_q N) = (n, q)" by force
  have P': "P = upd_con i (conn_connect ?E ?a t (new_conn w)) ((peers M)\<lparr>conns := (conns (peers M))(?a \<mapsto> i)\<rparr>)"
    using P by (auto simp: create_connect_def split: if_splits)
  have "reg_ok P"
    using ok fresh by (auto simp: P' reg_ok_def upd_con_def conn_connect_def connect_now_def am_ok_def conns_ok_def fresh_conn_def unlisted_def ran_def)
  moreover have "unlisted j P = unlisted j (peers M)" if "j \<noteq> i" for j
    using that none by (simp add: P' unlisted_def upd_con_def ran_map_upd)
  moreover have "con P j = con (peers M) j" if "j \<noteq> i" for j using that by (simp add: P' upd_con_def)
  ultimately show ?thesis using new_connection_ok [OF ok fresh kN nq, of P] by (simp add: M' kN nq)
qed (use ok in simp)

lemma am_add_accept_ok:
  assumes ok: "am_ok M" and fresh: "fresh_conn i M"
  shows "am_ok (am_add_accept i w M)"
proof -
  obtain k N where kN: "get_worker M = (k, N)" by force
  obtain n q where nq: "get_id (in_q N) = (n, q)" by force
  let ?P = "add_accept i w (peers M)"
  have "conns (peers M) a \<noteq> Some i" for a using fresh by (auto simp: fresh_conn_def unlisted_def ran_def)
  then have "reg_ok ?P" using ok by (auto simp: add_accept_def upd_con_def reg_ok_def am_ok_def conns_ok_def)
  moreover have "unlisted j ?P = unlisted j (peers M)" if "j \<noteq> i" for j
    using that by (simp add: add_accept_def upd_con_def unlisted_def)
  moreover have "con ?P j = con (peers M) j" if "j \<noteq> i" for j using that by (simp add: add_accept_def upd_con_def)
  moreover have "peers N = peers M" using get_worker_same [OF kN] by (simp add: same_core_def)
  ultimately show ?thesis using new_connection_ok [OF ok fresh kN nq, of ?P] by (simp add: am_add_accept_def kN nq)
qed

text \<open>What a connection does on its own.\<close>

lemma peers_update_ok:
  assumes ok: "am_ok M" and reg: "reg_ok P" and "\<And>i. shut i (peers M) \<Longrightarrow> shut i P" and "\<And>i. unlisted i (peers M) \<Longrightarrow> unlisted i P"
  shows "am_ok (M\<lparr>peers := P\<rparr>)"
proof -
  have "event_ok (M\<lparr>peers := P\<rparr>) e" if "event_ok M e" for e
    using that assms(3) by (auto simp: event_ok_def split: loop_event.splits)
  moreover have "conns_ok (M\<lparr>peers := P\<rparr>)"
    unfolding conns_ok_def using ok reg assms(4) by (simp add: am_ok_def conns_ok_def) blast
  ultimately show ?thesis using ok by (simp add: am_ok_def events_ok_def listener_ok_def)
qed

lemma run_local_inv: "dq_inv s \<Longrightarrow> dq_inv (run_local fastp n s)"
proof (induction fastp n s rule: run_local.induct)
  case (2 fastp n s)
  then show ?case using local_locked_inv [OF 2(3)] local_unlocked_inv [OF 2(3)] by (auto split: thread.splits)
qed simp

lemma am_ok_queue: "am_ok M \<Longrightarrow> dq_inv q \<Longrightarrow> am_ok (M\<lparr>in_q := q\<rparr>)"
  using event_ok_cong [of "M\<lparr>in_q := q\<rparr>" M] by (simp add: am_ok_def events_ok_def conns_ok_def listener_ok_def)

lemma am_shutdown_ok:
  assumes "am_shutdown fastp fuel acc reg M = Some (Some (r, M'))" and ok: "am_ok M" and "lists_all acc reg (peers M)"
  shows "am_ok M'"
proof (cases "is_started M \<and> \<not> shutdown_called M")
  case False
  then show ?thesis using assms(1) ok by (auto simp: am_shutdown_def split: if_splits)
next
  case True
  define M0 where "M0 = (processor_stop (M\<lparr>shutdown_called := True\<rparr>))\<lparr>did_bind := False\<rparr>"
  have lo: "listener_ok (M\<lparr>shutdown_called := True\<rparr>)" using ok by (simp add: am_ok_def listener_ok_def)
  have "am_ok M0"
    by (rule am_ok_core [OF ok])
      (use processor_stop_listener [OF lo] in \<open>simp_all add: same_core_def M0_def processor_stop_keeps listener_ok_def\<close>)
  then obtain M1 where M1: "barrier (mark_down_all acc reg M0) = Some M1" "am_framed M0 M1" "dq_inv (in_q M1)" "events_ok M1" "conns_ok M1"
    using mark_down_and_barrier [of M0 acc reg] assms(3) by (auto simp: am_ok_def M0_def processor_stop_keeps)
  note f = am_framed_fields [OF M1(2)]
  have ok1: "am_ok M1" using \<open>am_ok M0\<close> M1(3-5) f by (simp add: am_ok_def listener_ok_def)
  then obtain q where q: "local_stop M1 = Some (M1\<lparr>loop_shutdown := True, in_q := q\<rparr>)" "dq_inv q"
    using local_stop_returns [of M1] by (auto simp: am_ok_def)
  obtain q' where q': "dq_shutdown fastp fuel q = Some (Some q')" "M' = M1\<lparr>loop_shutdown := True, in_q := q'\<rparr>"
    using assms(1) True M1(1) q(1) by (auto simp: am_shutdown_def M0_def)
  have "dq_inv q'"
    using q'(1) run_local_inv [OF wake_control_inv(3) [OF q(2)], of fastp fuel] wake_control_inv(5)
    by (auto simp: dq_shutdown_def Let_def split: if_splits)
  then show ?thesis
    unfolding q'(2) using ok1 event_ok_cong [of "M1\<lparr>loop_shutdown := True, in_q := q'\<rparr>" M1]
    by (simp add: am_ok_def events_ok_def conns_ok_def listener_ok_def)
qed

lemma am_wait_ok:
  assumes "am_wait fuel M = Some (Some M')" and ok: "am_ok M"
  shows "am_ok M'"
proof (cases "is_started M")
  case True
  then obtain q where M': "M' = M\<lparr>in_q := q, shutdown_called := False, is_started := False\<rparr>"
    and q: "(if dispatch_thread (in_q M) \<noteq> Not_started then dq_join fuel (in_q M) else Some (Some (in_q M))) = Some (Some q)"
    using assms(1) by (auto simp: am_wait_def split: if_splits)
  have inv: "dq_inv (in_q M)" using ok by (simp add: am_ok_def)
  have "dq_inv q"
    using q inv run_dispatch_keeps [OF _ inv] wake_control_inv(6) by (auto simp: dq_join_def split: if_splits option.splits)
  then show ?thesis
    using ok event_ok_cong [of M' M] by (simp add: M' am_ok_def events_ok_def conns_ok_def listener_ok_def)
qed (use assms in \<open>simp add: am_wait_def\<close>)

lemma run_to_barrier_ok:
  assumes "run_to_barrier w M = Some M'" and ok: "am_ok M"
  shows "am_ok M'"
proof -
  have pre: "dq_inv (in_q M)" "events_ok M" "reg_ok (peers M)" using ok by (simp_all add: am_ok_def conns_ok_def)
  obtain js where w: "worked js {w} M M'" using worker_worked [OF pre(1,2), of w] assms(1) by auto
  then have f: "am_framed M M'" and P: "peers M' = fold stop_conn js (peers M)" by (simp_all add: worked_def)
  have "conns_ok M'"
    using ok fold_stop_reg [OF pre(3)] fold_stop_unlisted am_framed_fields [OF f] unfolding am_ok_def conns_ok_def P by metis
  then show ?thesis using w ok am_framed_fields [OF f] by (simp add: am_ok_def worked_def listener_ok_def)
qed

lemma local_send_ok:
  assumes "am_ok M" and "m \<notin> set (pending (in_q M))"
  shows "am_ok (local_send now m prio M)"
proof -
  have inv: "dq_inv (in_q M)" using assms(1) by (simp add: am_ok_def)
  have "dq_inv (msg_ref (-1) m (in_q M))"
    by (rule control_inv [OF inv])
      (use dq_inv_threads [OF inv] dq_inv_hand [OF inv] in \<open>simp_all add: local_hand_def threads_ok_def hand_ok_def\<close>)
  then show ?thesis using am_ok_queue [OF assms(1)] local_delivery_inv [OF inv assms(2)] by (simp add: local_send_def)
qed

lemma am_ready_ok:
  assumes "am_ready M = Some M'" and ok: "am_ok M" and "local_delivery_thread (in_q M) = Not_started"
  shows "am_ok M'"
proof -
  obtain q where q: "dq_start (in_q M) = Some q" using assms(1) by (auto simp: am_ready_def split: option.splits)
  have "dq_inv q" using wake_control_inv(7) [of "in_q M"] q assms(3) ok by (simp add: am_ok_def)
  then have N: "am_ok (M\<lparr>in_q := q\<rparr>)" (is "am_ok ?N") using am_ok_queue ok by blast
  obtain w K where K: "get_worker ?N = (w, K)" by force
  have k: "same_core ?N K" "listener_ok K" using get_worker_same [OF K] N same_listener_ok by (auto simp: am_ok_def)
  have "am_ok (processor_start w K)"
    by (rule am_ok_core [OF N]) (use k processor_start_ok same_core_trans in blast)+
  then show ?thesis using assms(1) q K N by (auto simp: am_ready_def Let_def split: if_splits)
qed

section \<open>The life of a messenger\<close>

text \<open>
  The callers bind a messenger that is not bound, hand over messages that are not pending already and make a messenger
  ready whose local-delivery thread is not running.  \<open>progress\<close> stands for whatever a connection does by itself (the
  theories of the connection): once registered it keeps its peer's address, and a closed connection stays closed.
\<close>

inductive am_step :: "(ptr \<Rightarrow> bool) \<Rightarrow> 'w async_msgr \<Rightarrow> 'w async_msgr \<Rightarrow> bool" for fastp where
  queue: "dq_step fastp (in_q M) q \<Longrightarrow> am_step fastp M (M\<lparr>in_q := q\<rparr>)"
| events: "run_to_barrier w M = Some M' \<Longrightarrow> am_step fastp M M'"
| connect: "fresh_conn i M \<Longrightarrow> am_get_connection e E i w d t M = Some (r, M') \<Longrightarrow> am_step fastp M M'"
| accept: "fresh_conn i M \<Longrightarrow> am_step fastp M (am_add_accept i w M)"
| register: "i \<in> accepting_conns (peers M) \<Longrightarrow> am_step fastp M (M\<lparr>peers := snd (accept_conn i (peers M))\<rparr>)"
| progress: "(i \<in> ran (conns (peers M)) \<Longrightarrow> peer_addr c = peer_addr (con (peers M) i)) \<Longrightarrow>
    (shut i (peers M) \<Longrightarrow> cst c = STATE_CLOSED \<and> \<not> has_sd c) \<Longrightarrow> am_step fastp M (M\<lparr>peers := upd_con i c (peers M)\<rparr>)"
| send: "m \<notin> set (pending (in_q M)) \<Longrightarrow> am_step fastp M (local_send now m prio M)"
| learn: "am_learned_addr a M = Some M' \<Longrightarrow> am_step fastp M M'"
| unknowns: "am_set_addr_unknowns a M = Some M' \<Longrightarrow> am_step fastp M M'"
| bind: "\<not> did_bind M \<Longrightarrow> fds_ok os \<Longrightarrow> am_bind c os err a M = Some (r, M') \<Longrightarrow> am_step fastp M M'"
| rebind: "fds_ok os \<Longrightarrow> lists_all acc reg (peers M) \<Longrightarrow> am_rebind c os err acc reg avoid M = Some (r, M') \<Longrightarrow> am_step fastp M M'"
| unbind: "am_step fastp M (am_unbind M)"
| start: "am_step fastp M (snd (am_start M))"
| ready: "local_delivery_thread (in_q M) = Not_started \<Longrightarrow> am_ready M = Some M' \<Longrightarrow> am_step fastp M M'"
| shutdown: "lists_all acc reg (peers M) \<Longrightarrow> am_shutdown fastp fuel acc reg M = Some (Some (r, M')) \<Longrightarrow> am_step fastp M M'"
| wait: "am_wait fuel M = Some (Some M') \<Longrightarrow> am_step fastp M M'"

inductive am_reachable :: "(ptr \<Rightarrow> bool) \<Rightarrow> 'w async_msgr \<Rightarrow> bool" for fastp where
  init: "conns P = Map.empty \<Longrightarrow> accepting_conns P = {} \<Longrightarrow> am_reachable fastp (am_new n nonce t ms P)"
| step: "am_reachable fastp M \<Longrightarrow> am_step fastp M M' \<Longrightarrow> am_reachable fastp M'"

lemma am_new_ok:
  assumes "conns P = Map.empty" and "accepting_conns P = {}"
  shows "am_ok (am_new n nonce t ms P)"
proof -
  have "dq_inv (snd (get_id (dq_new ms)))" by (rule wake_control_inv(4) [OF dq_inv_new])
  then show ?thesis
    using assms by (simp add: am_new_def am_ok_def events_ok_def conns_ok_def listener_ok_def init_local_connection_def get_id_def
        reg_ok_def unlisted_def) (simp add: dq_new_def)
qed

lemma register_ok:
  assumes ok: "am_ok M" and i: "i \<in> accepting_conns (peers M)"
  shows "am_ok (M\<lparr>peers := snd (accept_conn i (peers M))\<rparr>)"
proof -
  let ?P = "peers M" and ?a = "peer_addr (con (peers M) i)"
  show ?thesis
  proof (cases "conns ?P ?a \<noteq> None \<and> conns ?P ?a \<noteq> Some i")
    case True
    then show ?thesis using ok by (simp add: accept_conn_def Let_def)
  next
    case False
    then have P: "snd (accept_conn i ?P) = ?P\<lparr>conns := (conns ?P)(?a \<mapsto> i), accepting_conns := accepting_conns ?P - {i}\<rparr>"
      by (auto simp: accept_conn_def Let_def)
    have "unlisted j (snd (accept_conn i ?P))" if "unlisted j ?P" for j
    proof -
      have "j \<noteq> i" "j \<notin> accepting_conns ?P" "\<And>b. conns ?P b \<noteq> Some j" using that i by (auto simp: unlisted_def ran_def)
      then show ?thesis by (auto simp: P unlisted_def ran_def split: if_splits)
    qed
    moreover have "reg_ok (snd (accept_conn i ?P))" using ok by (simp add: P am_ok_def conns_ok_def reg_ok_def)
    moreover have "shut j (snd (accept_conn i ?P)) = shut j ?P" for j by (simp add: P shut_def)
    ultimately show ?thesis by (intro peers_update_ok [OF ok]) simp_all
  qed
qed

lemma progress_ok:
  assumes ok: "am_ok M" and "i \<in> ran (conns (peers M)) \<Longrightarrow> peer_addr c = peer_addr (con (peers M) i)"
    and "shut i (peers M) \<Longrightarrow> cst c = STATE_CLOSED \<and> \<not> has_sd c"
  shows "am_ok (M\<lparr>peers := upd_con i c (peers M)\<rparr>)"
proof (rule peers_update_ok [OF ok])
  show "reg_ok (upd_con i c (peers M))"
    using ok assms(2) by (auto simp: am_ok_def conns_ok_def reg_ok_def upd_con_def ran_def)
qed (use assms(3) in \<open>auto simp: shut_def unlisted_def upd_con_def\<close>)

lemma am_unbind_ok:
  assumes ok: "am_ok M"
  shows "am_ok (am_unbind M)"
proof -
  have l: "listener_ok M" using ok by (simp add: am_ok_def)
  show ?thesis
    by (rule am_ok_core [OF ok])
      (use processor_stop_listener [OF l] l in \<open>auto simp: am_unbind_def same_core_def processor_stop_keeps listener_ok_def\<close>)
qed

lemma am_start_ok:
  assumes ok: "am_ok M"
  shows "am_ok (snd (am_start M))"
proof -
  have "listener_ok M" using ok by (simp add: am_ok_def)
  then show ?thesis
    by (intro am_ok_core [OF ok]) (auto simp: am_start_def Let_def init_local_connection_def same_core_def listener_ok_def)
qed

lemma same_ok: "am_ok M \<Longrightarrow> same_core M M' \<and> same_listener M M' \<Longrightarrow> am_ok M'"
  using am_ok_core same_listener_ok unfolding am_ok_def by blast

lemma am_step_ok:
  assumes "am_step fastp M M'" and ok: "am_ok M"
  shows "am_ok M'"
  using assms(1)
proof cases
  case (queue q)
  have "dq_inv q" using dq_step_inv [OF queue(2)] ok by (simp add: am_ok_def)
  then show ?thesis using am_ok_queue [OF ok] queue(1) by simp
next
  case (events w)
  then show ?thesis by (rule run_to_barrier_ok [OF _ ok])
next
  case connect
  then show ?thesis using am_get_connection_ok [OF _ ok] by blast
next
  case accept
  then show ?thesis using am_add_accept_ok [OF ok] by simp
next
  case register
  then show ?thesis using register_ok [OF ok] by simp
next
  case (progress i c)
  then show ?thesis using progress_ok [OF ok, of i c] by simp
next
  case send
  then show ?thesis using local_send_ok [OF ok] by simp
next
  case (learn a)
  then show ?thesis using same_ok [OF ok am_learned_addr_same] by blast
next
  case (unknowns a)
  then show ?thesis using same_ok [OF ok set_addr_unknowns_same] by blast
next
  case bind
  then show ?thesis using am_bind_ok [OF _ ok] by blast
next
  case rebind
  then show ?thesis using am_rebind_ok [OF _ ok] by blast
next
  case unbind
  then show ?thesis using am_unbind_ok [OF ok] by simp
next
  case start
  then show ?thesis using am_start_ok [OF ok] by simp
next
  case ready
  then show ?thesis using am_ready_ok [OF _ ok] by blast
next
  case shutdown
  then show ?thesis using am_shutdown_ok [OF _ ok] by blast
next
  case wait
  then show ?thesis using am_wait_ok [OF _ ok] by blast
qed

lemma am_reachable_ok: "am_reachable fastp M \<Longrightarrow> am_ok M"
  by (induction rule: am_reachable.induct) (simp_all add: am_new_ok am_step_ok)

section \<open>Properties\<close>



text \<open>
  C34. A messenger whose dispatch threads do not run (it has no dispatcher yet, or it has been shut down and waited for) can be
  started but not shut down again: \<^verbatim>\<open>start()\<close> returns 0, but the threads are only started by the first \<^verbatim>\<open>add_dispatcher_\<close> call, and
  \<^verbatim>\<open>shutdown()\<close> fails the assertion of \<^verbatim>\<open>Thread::join\<close> on a thread that was never started.
\<close>

theorem restarted_messenger_aborts:
  assumes "am_reachable fastp M" and "\<not> is_started M" and "\<not> shutdown_called M" and "lists_all acc reg (peers M)"
    and "local_delivery_thread (in_q M) = Not_started"
  shows "fst (am_start M) = 0 \<and> am_shutdown fastp fuel acc reg (snd (am_start M)) = None"
proof -
  define N where "N = snd (am_start M)"
  have N: "is_started N" "\<not> shutdown_called N" "in_q N = in_q M" "peers N = peers M"
    using assms(2,3) by (simp_all add: N_def am_start_def Let_def init_local_connection_def)
  have ok: "am_ok N" unfolding N_def by (rule am_start_ok [OF am_reachable_ok [OF assms(1)]])
  define N0 where "N0 = (processor_stop (N\<lparr>shutdown_called := True\<rparr>))\<lparr>did_bind := False\<rparr>"
  have N0: "dq_inv (in_q N0)" "events_ok N0" "conns_ok N0" "lists_all acc reg (peers N0)" "loop_id N0 \<noteq> 0" "in_q N0 = in_q N"
    using ok assms(4) event_ok_cong [of N0 N] N(4) by (simp_all add: am_ok_def N0_def processor_stop_keeps events_ok_def conns_ok_def)
  obtain N1 where N1: "barrier (mark_down_all acc reg N0) = Some N1" "am_framed N0 N1" "dq_inv (in_q N1)" "same_threads (in_q N0) (in_q N1)"
    using mark_down_and_barrier [OF N0(1-4)] by blast
  have "loop_id N1 \<noteq> 0" using am_framed_fields(5) [OF N1(2)] N0(5) by simp
  then obtain q where q: "local_stop N1 = Some (N1\<lparr>loop_shutdown := True, in_q := q\<rparr>)" "same_threads (in_q N1) q"
    using local_stop_returns [OF N1(3)] by blast
  have "local_delivery_thread q = Not_started"
    using same_threads_trans [OF N1(4) q(2)] N0(6) N(3) assms(5) by (simp add: same_threads_def)
  then have "am_shutdown fastp fuel acc reg N = None" using N(1,2) N1(1) q(1) by (simp add: am_shutdown_def N0_def dq_shutdown_def)
  then show ?thesis using assms(2) by (simp add: am_start_def Let_def N_def)
qed

lemma stop_requests_address:
  "my_address (fold stop_request is M) = my_address M" "lis_nonce (fold stop_request is M) = lis_nonce M"
  by (induction "is" arbitrary: M) (simp_all add: stop_request_def Let_def dispatch_event_external_def)

lemma processor_bind_nonce:
  assumes "processor_bind c os err avoid a M = Some (r, M')" and "addr_nonce (my_address M) = ucast (lis_nonce M)"
  shows "lis_nonce M' = lis_nonce M" "addr_nonce (my_address M') = ucast (lis_nonce M)"
proof -
  have "lis_nonce N = lis_nonce K" if "am_learned_addr a K = Some N" for K N :: "'a async_msgr"
    using that by (auto simp: am_learned_addr_def init_local_connection_def split: if_splits option.splits)
  then show "lis_nonce M' = lis_nonce M" "addr_nonce (my_address M') = ucast (lis_nonce M)"
    using assms by (fastforce simp: processor_bind_def Let_def init_local_connection_def split: option.splits bind_result.splits if_splits)+
qed

lemma get_worker_start_address:
  "my_address (processor_start (fst (get_worker K)) (snd (get_worker K))) = my_address K"
  "lis_nonce (processor_start (fst (get_worker K)) (snd (get_worker K))) = lis_nonce K"
  by (simp_all add: processor_start_def get_worker_def)

lemma ucast_add_million: "(ucast (n + 1000000 :: u64) :: u32) = ucast n + 1000000"
proof -
  have "take_bit 32 (take_bit 64 k + 1000000) = (take_bit 32 (k + 1000000) :: int)" for k
  proof -
    have "take_bit 32 (take_bit 64 k + 1000000) = (take_bit 32 (take_bit 32 (take_bit 64 k) + take_bit 32 1000000) :: int)"
      by (simp only: take_bit_add)
    also have "\<dots> = take_bit 32 (take_bit 32 k + take_bit 32 1000000)" by simp
    finally show ?thesis by (simp only: take_bit_add)
  qed
  then show ?thesis by transfer simp
qed

text \<open>
  \<^verbatim>\<open>rebind()\<close> gives the messenger another address than before, whether it listens afterwards or not: the nonce grows by
  1000000.
\<close>

theorem rebind_changes_address:
  assumes "am_rebind c os err acc reg avoid M = Some (r, M')" and "addr_nonce (my_address M) = ucast (lis_nonce M)"
  shows "addr_nonce (my_address M') = addr_nonce (my_address M) + 1000000 \<and> my_address M' \<noteq> my_address M \<and>
    addr_nonce (my_address M') = ucast (lis_nonce M')"
proof -
  define N where "N = mark_down_all acc reg (processor_stop M)"
  have N: "my_address N = my_address M" "lis_nonce N = lis_nonce M"
    by (simp_all add: N_def mark_down_all_def stop_requests_address processor_stop_def)
  obtain K where K: "processor_rebind c os err avoid N = Some (r, K)"
    "M' = (if r = 0 then processor_start (fst (get_worker K)) (snd (get_worker K)) else K)"
    using assms(1) by (auto simp: am_rebind_def N_def Let_def split: option.splits prod.splits if_splits)
  obtain a where b: "processor_bind c os err (insert (get_port (my_address N)) avoid) a
      (N\<lparr>lis_nonce := lis_nonce N + 1000000, my_address := (my_address N)\<lparr>addr_nonce := ucast (lis_nonce N + 1000000)\<rparr>\<rparr>) = Some (r, K)"
    using K(1) by (auto simp: processor_rebind_def Let_def split: option.splits)
  have "lis_nonce M' = lis_nonce M + 1000000" "addr_nonce (my_address M') = ucast (lis_nonce M + 1000000)"
    using processor_bind_nonce [OF b] N by (auto simp: K(2) get_worker_start_address)
  moreover have "my_address M' \<noteq> my_address M"
  proof
    assume "my_address M' = my_address M"
    then have "(1000000 :: u32) = 0" using calculation(2) assms(2) by (simp only: ucast_add_million) simp
    then show False by simp
  qed
  ultimately show ?thesis using assms(2) by (simp add: ucast_add_million)
qed

section \<open>A messenger at work\<close>

definition sample_P :: "unit messenger" where
  "sample_P = \<lparr>conns = Map.empty, accepting_conns = {}, msgr_global_seq = 0, con = (\<lambda>_. new_conn ())\<rparr>"

definition sample_new :: "unit async_msgr" where "sample_new = am_new 2 7 8 (\<lambda>_. sample_msg) sample_P"

definition sample_bound :: "unit async_msgr" where
  "sample_bound = snd (the (am_bind sample_bind_conf sample_os 0 blank_addr sample_new))"

definition sample_running :: "unit async_msgr" where
  "sample_running = local_send 0 9 0 (am_add_accept 0 () (snd (am_start (the (am_ready sample_bound)))))"

lemma sample_bind: "am_bind sample_bind_conf sample_os 0 blank_addr sample_new = Some (0, sample_bound)"
proof -
  have "map_option fst (am_bind sample_bind_conf sample_os 0 blank_addr sample_new) = Some 0" by code_simp
  then show ?thesis by (auto simp: sample_bound_def)
qed

lemma sample_ready: "am_ready sample_bound = Some (the (am_ready sample_bound))"
proof -
  have "am_ready sample_bound = None \<longleftrightarrow> False" by code_simp
  then show ?thesis by simp
qed

lemma ready_keeps:
  "am_ready M = Some N \<Longrightarrow> peers N = peers M \<and> external_events N = external_events M \<and> n_workers N = n_workers M"
  by (auto simp: am_ready_def Let_def processor_start_def get_worker_def split: option.splits if_splits)

lemma start_keeps:
  "peers (snd (am_start M)) = peers M" "external_events (snd (am_start M)) = external_events M" "n_workers (snd (am_start M)) = n_workers M"
  by (simp_all add: am_start_def Let_def init_local_connection_def)

lemma sample_bound_core: "peers sample_bound = sample_P" "external_events sample_bound = (\<lambda>_. [])" "n_workers sample_bound = 2"
proof -
  have os: "fds_ok sample_os" by (simp add: fds_ok_def sample_os_def)
  obtain N where N: "processor_bind sample_bind_conf sample_os 0 {} blank_addr sample_new = Some (0, N)" and sb: "sample_bound = N\<lparr>did_bind := True\<rparr>"
    using sample_bind by (auto simp: am_bind_def split: if_splits)
  have "open_sds sample_new = {}" "lis_worker sample_new = None" by (simp_all add: sample_new_def am_new_def init_local_connection_def get_id_def)
  from processor_bind_effect [OF N os this] have "same_core sample_new sample_bound" unfolding sb by (simp add: same_core_def)
  then show "peers sample_bound = sample_P" "external_events sample_bound = (\<lambda>_. [])" "n_workers sample_bound = 2"
    by (simp_all add: same_core_def sample_new_def am_new_def init_local_connection_def get_id_def)
qed

definition sample_idle_msgr :: "unit async_msgr" where "sample_idle_msgr = snd (am_start (the (am_ready sample_bound)))"

lemma sample_idle_fresh: "fresh_conn 0 sample_idle_msgr"
proof -
  have "next_pipe_id (in_q sample_idle_msgr) = 2" by code_simp
  then show ?thesis
    using ready_keeps [OF sample_ready] sample_bound_core
    by (simp add: fresh_conn_def sample_idle_msgr_def start_keeps unlisted_def sample_P_def)
qed

lemma sample_running_reachable: "am_reachable fastp sample_running"
proof -
  have 0: "am_reachable fastp sample_new" unfolding sample_new_def by (rule am_reachable.init) (simp_all add: sample_P_def)
  have 1: "am_reachable fastp sample_bound"
  proof (rule am_reachable.step [OF 0 am_step.bind [OF _ _ sample_bind]])
    show "\<not> did_bind sample_new" by code_simp
    show "fds_ok sample_os" by (simp add: fds_ok_def sample_os_def)
  qed
  have "local_delivery_thread (in_q sample_bound) = Not_started" by code_simp
  then have 2: "am_reachable fastp (the (am_ready sample_bound))" by (rule am_reachable.step [OF 1 am_step.ready [OF _ sample_ready]])
  have 3: "am_reachable fastp (snd (am_start (the (am_ready sample_bound))))" by (rule am_reachable.step [OF 2 am_step.start])
  have 4: "am_reachable fastp (am_add_accept 0 () (snd (am_start (the (am_ready sample_bound)))))"
    by (rule am_reachable.step [OF 3 am_step.accept [OF sample_idle_fresh [unfolded sample_idle_msgr_def]]])
  have "9 \<notin> set (pending (in_q (am_add_accept 0 () (snd (am_start (the (am_ready sample_bound)))))))" by code_simp
  then show ?thesis unfolding sample_running_def by (rule am_reachable.step [OF 4 am_step.send])
qed


lemma sample_running_lists: "lists_all [0] [] (peers sample_running)"
  using ready_keeps [OF sample_ready] sample_bound_core
  by (simp add: sample_running_def local_send_def am_add_accept_def get_worker_def get_id_def add_accept_def upd_con_def lists_all_def
      start_keeps sample_P_def)

lemma sample_running_state:
  "is_started sample_running" "\<not> shutdown_called sample_running" "alive (local_delivery_thread (in_q sample_running))"
  "alive (dispatch_thread (in_q sample_running))" "2 * length (local_messages (in_q sample_running)) + 2 \<le> 4"
  "local_work (in_q sample_running) = [9]" "fast_dispatched (calls (in_q sample_running)) = []"
  by code_simp+


theorem restarted_messenger_aborts_witness:
  "fst (am_start sample_new) = 0 \<and> am_shutdown (\<lambda>_. True) 9 [] [] (snd (am_start sample_new)) = None"
proof (rule restarted_messenger_aborts)
  show "am_reachable (\<lambda>_. True) sample_new" unfolding sample_new_def by (rule am_reachable.init) (simp_all add: sample_P_def)
  show "lists_all [] [] (peers sample_new)"
    by (simp add: lists_all_def sample_new_def am_new_def init_local_connection_def get_id_def sample_P_def)
qed (simp_all add: sample_new_def am_new_def init_local_connection_def get_id_def dq_new_def)

theorem rebind_changes_address_witness:
  "\<exists>r M'. am_rebind sample_bind_conf sample_os 0 [0] [] {} sample_running = Some (r, M') \<and> my_address M' \<noteq> my_address sample_running"
proof -
  have "am_rebind sample_bind_conf sample_os 0 [0] [] {} sample_running = None \<longleftrightarrow> False" by code_simp
  then obtain r M' where "am_rebind sample_bind_conf sample_os 0 [0] [] {} sample_running = Some (r, M')" by auto
  moreover have "addr_nonce (my_address sample_running) = ucast (lis_nonce sample_running)" by code_simp
  ultimately show ?thesis using rebind_changes_address by blast
qed

text \<open>What the loopback connection queued is filed under id 0, so that stopping it takes none of it out of the queue.\<close>

lemma stopping_loopback_discards_nothing_queued:
  assumes "am_ok M" and "\<not> loop_shutdown M"
  shows "\<exists>M'. local_stop M = Some M' \<and> (\<forall>e \<in> set (fifo_contents (mqueue (in_q M))). fst (snd e) = 0 \<longrightarrow> e \<in> set (fifo_contents (mqueue (in_q M'))))"
proof -
  have inv: "dq_inv (in_q M)" and "loop_id M \<noteq> 0" using assms(1) by (simp_all add: am_ok_def)
  then obtain q where q: "discard_queue (loop_id M) (in_q M) = Some q" "dq_inv q"
    "fifo_contents (mqueue q) = filter (\<lambda>e. fst (snd e) \<noteq> loop_id M) (fifo_contents (mqueue (in_q M)))"
    using discard_queue_inv by blast
  have "fifo_ok (mqueue q)" using q(2) by (simp add: dq_inv_def)
  moreover have "set (insert_strict p k t es) = insert (Some p, k, t) (set es)" for p k t and es :: "(u64, queue_item) mentry list"
    using arg_cong [OF mset_insert_strict, of set_mset] by simp
  ultimately have "set (fifo_contents (mqueue q)) \<subseteq> set (fifo_contents (mqueue (Dispatch_Queue.queue_reset loopback q)))"
    by (auto simp: Dispatch_Queue.queue_reset_def queue_code_def fifo.strict_contents)
  then show ?thesis using assms(2) q(1,3) \<open>loop_id M \<noteq> 0\<close> by (auto simp: local_stop_def)
qed

end
