(* ===== verification/Mark_Down.thy ===== *)
theory Mark_Down
  imports Messenger_Reach
begin

text \<open>
  Closing one connection (\<^verbatim>\<open>AsyncConnection::mark_down\<close> and \<^verbatim>\<open>mark_disposable\<close> in \<^verbatim>\<open>src/src/async/AsyncConnection.cc\<close>).  Called on the
  thread of the connection's worker, \<^verbatim>\<open>mark_down\<close> only leaves an event; on any other thread it waits until the worker has closed the
  connection.
\<close>

section \<open>Operations\<close>

definition quiet_stop :: "nat \<Rightarrow> 'w async_msgr \<Rightarrow> 'w async_msgr" where
  "quiet_stop i M =
     dispatch_event_external (conn_worker M i) (C_stop i)
       (M\<lparr>peers := upd_con i ((con (peers M) i)\<lparr>conn_stopping := True, Handshake.queue_reset := False\<rparr>) (peers M)\<rparr>)"

definition mark_down_own :: "nat \<Rightarrow> 'w async_msgr \<Rightarrow> 'w async_msgr" where
  "mark_down_own i M = (if conn_stopping (con (peers M) i) then M else quiet_stop i M)"

text \<open>
  The loop of the other branch.  While it waits the worker handles what is queued for it; \<open>Some None\<close> is a caller that is
  still waiting after \<open>n\<close> rounds, \<open>None\<close> a failing assertion.
\<close>

fun mark_down_loop :: "nat \<Rightarrow> nat \<Rightarrow> 'w async_msgr \<Rightarrow> 'w async_msgr option option" where
  "mark_down_loop 0 i M = (if cst (con (peers M) i) = STATE_CLOSED then Some (Some M) else Some None)"
| "mark_down_loop (Suc n) i M =
     (if cst (con (peers M) i) = STATE_CLOSED then Some (Some M)
      else
        (case run_to_barrier (conn_worker M i) (quiet_stop i M) of
           None \<Rightarrow> None
         | Some M \<Rightarrow> mark_down_loop n i M))"

definition mark_down :: "nat \<Rightarrow> nat \<Rightarrow> 'w async_msgr \<Rightarrow> 'w async_msgr option option" where
  "mark_down n i M = mark_down_loop n i (M\<lparr>peers := upd_con i ((con (peers M) i)\<lparr>conn_stopping := True\<rparr>) (peers M)\<rparr>)"

text \<open>\<^verbatim>\<open>_stop\<close> is what handling \<open>C_stop\<close> does.\<close>

definition mark_disposable :: "nat \<Rightarrow> 'w async_msgr \<Rightarrow> 'w async_msgr option" where
  "mark_disposable i M =
     (let c = con (peers M) i; M = M\<lparr>peers := upd_con i (c\<lparr>psess := (psess c)\<lparr>lossy := True\<rparr>\<rparr>) (peers M)\<rparr>
      in if cst c = STATE_STANDBY then do_request (C_stop i) M else Some M)"

section \<open>One round is enough\<close>

lemma stop_conn_calls:
  "cst (con P i) \<noteq> STATE_CLOSED \<Longrightarrow> \<not> Handshake.queue_reset (con P i) \<Longrightarrow> dq_calls (con (stop_conn i P) i) = dq_calls (con P i) @ [Discard_queue]"
  by (simp add: stop_conn_def Let_def unregister_conn_def upd_con_def)

lemma fold_stop_same: "cst (con P i) = STATE_CLOSED \<Longrightarrow> con (fold stop_conn js P) i = con P i"
  by (induction js arbitrary: P) (simp_all add: stop_conn_con(1))

lemma fold_stop_calls:
  "i \<in> set js \<Longrightarrow> cst (con P i) \<noteq> STATE_CLOSED \<Longrightarrow> \<not> Handshake.queue_reset (con P i) \<Longrightarrow>
   dq_calls (con (fold stop_conn js P) i) = dq_calls (con P i) @ [Discard_queue]"
proof (induction js arbitrary: P)
  case (Cons j js)
  show ?case
  proof (cases "i = j")
    case True
    then show ?thesis
      using fold_stop_same [of "stop_conn i P" i js] stop_conn_calls [OF Cons.prems(2,3)] by (simp add: stop_conn_con(3))
  next
    case False
    then have "con (stop_conn j P) i = con P i" by (simp add: stop_conn_con(1))
    then show ?thesis using Cons.IH [of "stop_conn j P"] Cons.prems False by simp
  qed
qed simp

lemma flagged_ok:
  assumes ok: "am_ok M" and c: "cst c = cst (con (peers M) i)" "has_sd c = has_sd (con (peers M) i)" "peer_addr c = peer_addr (con (peers M) i)"
  shows "am_ok (M\<lparr>peers := upd_con i c (peers M)\<rparr>)"
  by (rule progress_ok [OF ok]) (use c in \<open>simp_all add: shut_def\<close>)

lemma quiet_stop_ok:
  assumes ok: "am_ok M" and id: "conn_id M i \<noteq> 0"
  shows "am_ok (quiet_stop i M)"
proof -
  let ?N = "M\<lparr>peers := upd_con i ((con (peers M) i)\<lparr>conn_stopping := True, Handshake.queue_reset := False\<rparr>) (peers M)\<rparr>"
  have N: "am_ok ?N" by (rule flagged_ok [OF ok]) simp_all
  have "event_ok (quiet_stop i M) e = event_ok ?N e" for e
    by (simp add: event_ok_def quiet_stop_def dispatch_event_external_def split: loop_event.splits)
  then have "events_ok (quiet_stop i M)"
    using N id by (auto simp: events_ok_def am_ok_def quiet_stop_def dispatch_event_external_def event_ok_def [of _ "C_stop i"])
  then show ?thesis
    using N by (simp add: am_ok_def conns_ok_def listener_ok_def quiet_stop_def dispatch_event_external_def)
qed

section \<open>Properties\<close>

text \<open>
  C38. \<^verbatim>\<open>mark_down\<close> of a registered connection, called on another thread than its worker's, returns after one round of waiting: the connection
  is then closed, no longer registered and its received messages are discarded, but its dispatchers are not told of a
  reset.
\<close>

theorem mark_down_closes:
  assumes "am_reachable fastp M" and "i \<in> accepting_conns (peers M) \<union> ran (conns (peers M))" and "cst (con (peers M) i) \<noteq> STATE_CLOSED"
  shows "\<exists>M'. mark_down 1 i M = Some (Some M') \<and> cst (con (peers M') i) = STATE_CLOSED \<and>
    i \<notin> accepting_conns (peers M') \<union> ran (conns (peers M')) \<and> dq_calls (con (peers M') i) = dq_calls (con (peers M) i) @ [Discard_queue] \<and>
    am_ok M'"
proof -
  have ok: "am_ok M" by (rule am_reachable_ok [OF assms(1)])
  define N where "N = M\<lparr>peers := upd_con i ((con (peers M) i)\<lparr>conn_stopping := True\<rparr>) (peers M)\<rparr>"
  define Q where "Q = quiet_stop i N"
  have N: "am_ok N" "conn_id N = conn_id M" "conn_worker N = conn_worker M" "cst (con (peers N) i) = cst (con (peers M) i)"
    using flagged_ok [OF ok, of "(con (peers M) i)\<lparr>conn_stopping := True\<rparr>" i] by (simp_all add: N_def upd_con_def)
  have "conn_id M i \<noteq> 0" using ok assms(2) by (auto simp: am_ok_def conns_ok_def unlisted_def)
  then have Q: "am_ok Q" using quiet_stop_ok [OF N(1)] N(2) by (simp add: Q_def)
  then have pre: "dq_inv (in_q Q)" "events_ok Q" "reg_ok (peers Q)" by (simp_all add: am_ok_def conns_ok_def)
  have con: "cst (con (peers Q) i) \<noteq> STATE_CLOSED" "\<not> Handshake.queue_reset (con (peers Q) i)" "dq_calls (con (peers Q) i) = dq_calls (con (peers M) i)"
    using assms(3) by (simp_all add: Q_def N_def quiet_stop_def dispatch_event_external_def upd_con_def)
  obtain M' where M': "run_to_barrier (conn_worker N i) Q = Some M'"
    and w: "worked (stops (external_events Q (conn_worker N i))) {conn_worker N i} Q M'"
    using worker_worked [OF pre(1,2)] by blast
  let ?js = "stops (external_events Q (conn_worker N i))"
  have P: "peers M' = fold stop_conn ?js (peers Q)" using w by (simp add: worked_def)
  have "i \<in> set ?js"
    by (simp add: Q_def quiet_stop_def dispatch_event_external_def stops_def List.map_filter_def)
  then have c: "shut i (peers M')" "unlisted i (peers M')" "dq_calls (con (peers M') i) = dq_calls (con (peers M) i) @ [Discard_queue]"
    using fold_stop_closes [OF pre(3) _ con(1)] fold_stop_calls [OF _ con(1,2)] con(3) by (simp_all add: P)
  have "mark_down 1 i M = Some (Some M')"
    using M' c(1) N(4) assms(3) by (simp add: mark_down_def shut_def flip: N_def Q_def)
  then show ?thesis using c run_to_barrier_ok [OF M' Q] by (auto simp: shut_def unlisted_def)
qed

theorem mark_down_closes_witness:
  "\<exists>M'. mark_down 1 0 sample_running = Some (Some M') \<and> cst (con (peers M') 0) = STATE_CLOSED \<and> 0 \<notin> accepting_conns (peers M')"
proof -
  have "0 \<in> accepting_conns (peers sample_running)" using sample_running_lists by (auto simp: lists_all_def)
  moreover have "cst (con (peers sample_running) 0) \<noteq> STATE_CLOSED" by code_simp
  ultimately show ?thesis using mark_down_closes [OF sample_running_reachable] by blast
qed

text \<open>On the worker's own thread the call leaves the event and returns; the connection is closed when the worker comes to it.\<close>

lemma mark_down_own_asks:
  assumes "am_ok M" and "conn_id M i \<noteq> 0" and "\<not> conn_stopping (con (peers M) i)"
  shows "am_ok (mark_down_own i M) \<and> C_stop i \<in> set (external_events (mark_down_own i M) (conn_worker M i))"
  using quiet_stop_ok [OF assms(1,2)] assms(3) by (simp add: mark_down_own_def) (simp add: quiet_stop_def dispatch_event_external_def)

text \<open>A connection on standby is closed at once when nobody needs it any more; any other becomes lossy and goes with its next fault.\<close>

lemma mark_disposable_closes_standby:
  assumes "am_ok M" and "conn_id M i \<noteq> 0"
  shows "\<exists>M'. mark_disposable i M = Some M' \<and>
    (if cst (con (peers M) i) = STATE_STANDBY then cst (con (peers M') i) = STATE_CLOSED
     else cst (con (peers M') i) = cst (con (peers M) i) \<and> lossy (psess (con (peers M') i)))"
proof (cases "cst (con (peers M) i) = STATE_STANDBY")
  case True
  let ?N = "M\<lparr>peers := upd_con i ((con (peers M) i)\<lparr>psess := (psess (con (peers M) i))\<lparr>lossy := True\<rparr>\<rparr>) (peers M)\<rparr>"
  obtain M' where "do_request (C_stop i) ?N = Some M'" "handled (stops [C_stop i]) ?N M'"
    using do_request_handles [of ?N "C_stop i"] assms by (auto simp: am_ok_def event_ok_def)
  then show ?thesis
    using True by (auto simp: mark_disposable_def handled_def stops_def List.map_filter_simps stop_conn_con(3))
next
  case False
  then show ?thesis by (simp add: mark_disposable_def Let_def upd_con_def)
qed

end
