(* ===== verification/Buffer_Align.thy ===== *)
theory Buffer_Align
  imports Buffer_Write
begin

text \<open>
  Aligned and contiguous buffer lists (\<^verbatim>\<open>src/src/buffer.cc\<close>): the alignment tests, \<^verbatim>\<open>rebuild_aligned_size_and_memory\<close>, which prepares a
  list for direct I/O, \<^verbatim>\<open>get_contiguous\<close> and \<^verbatim>\<open>zero\<close>.  As for the checksums, \<open>addr\<close> is where the blocks are in memory; the only thing
  known of it is what \<^verbatim>\<open>posix_memalign\<close> promises (\<open>memory_aligned\<close>).
\<close>

section \<open>Operations\<close>

definition ptr_is_aligned :: "(nat \<Rightarrow> u64) \<Rightarrow> nat \<Rightarrow> bptr \<Rightarrow> bool" where
  "ptr_is_aligned addr align p \<longleftrightarrow> (addr (the (praw p)) + of_nat (poff p)) AND ucast (of_nat align - 1 :: u32) = 0"

definition ptr_is_n_align_sized :: "nat \<Rightarrow> bptr \<Rightarrow> bool" where
  "ptr_is_n_align_sized align p \<longleftrightarrow> plen p mod align = 0"

definition bl_is_aligned :: "(nat \<Rightarrow> u64) \<Rightarrow> nat \<Rightarrow> blist \<Rightarrow> bool" where
  "bl_is_aligned addr align bl = list_all (ptr_is_aligned addr align) (buffers bl)"

definition bl_is_n_align_sized :: "nat \<Rightarrow> blist \<Rightarrow> bool" where
  "bl_is_n_align_sized align bl = list_all (ptr_is_n_align_sized align) (buffers bl)"

text \<open>The addresses of the first and the last window are the same; on an empty list both are the list's own anchor.\<close>

definition is_contiguous :: "blist \<Rightarrow> bool" where
  "is_contiguous bl \<longleftrightarrow> length (buffers bl) \<le> 1"

text \<open>
  The inner loop of \<^verbatim>\<open>rebuild_aligned_size_and_memory\<close> behind its first round: windows are moved to \<^verbatim>\<open>unaligned\<close> until one is aligned and sized
  (\<open>fine\<close>) at an offset that is a multiple of the size.
\<close>

fun gather :: "(bptr \<Rightarrow> bool) \<Rightarrow> nat \<Rightarrow> nat \<Rightarrow> blist \<Rightarrow> bptr list \<Rightarrow> blist \<times> bptr list" where
  "gather fine align_size offset unaligned [] = (unaligned, [])"
| "gather fine align_size offset unaligned (p # ps) =
     (if fine p \<and> offset mod align_size = 0 then (unaligned, p # ps)
      else gather fine align_size (w32 (offset + plen p)) (push_back p unaligned) ps)"

lemma gather_length: "length (snd (gather fine n offset u ps)) \<le> length ps"
  by (induction fine n offset u ps rule: gather.induct) auto

text \<open>\<^verbatim>\<open>unaligned\<close> becomes one aligned window; \<open>mc\<close> is \<^verbatim>\<open>_memcopy_count\<close>.  The window \<^verbatim>\<open>front()\<close> of an empty list does not exist.\<close>

definition consolidate :: "(nat \<Rightarrow> u64) \<Rightarrow> nat \<Rightarrow> blist \<Rightarrow> nat \<Rightarrow> heap \<Rightarrow> buf_error + bptr \<times> nat \<times> heap" where
  "consolidate addr align_memory u mc h =
     (if buffers u = [] then Inl Assertion_failed
      else if is_contiguous u \<and> ptr_is_aligned addr align_memory (hd (buffers u)) then Inr (hd (buffers u), mc, h)
      else
        (case create_aligned (blen u) align_memory h of
           Inl e \<Rightarrow> Inl e
         | Inr (a, h) \<Rightarrow>
             (case rebuild_into (ptr_of_raw a h) u h of
                Inl e \<Rightarrow> Inl e
              | Inr (u, h) \<Rightarrow> if buffers u = [] then Inl Assertion_failed else Inr (hd (buffers u), w32 (mc + blen u), h))))"

function realign :: "(nat \<Rightarrow> u64) \<Rightarrow> nat \<Rightarrow> nat \<Rightarrow> bptr list \<Rightarrow> nat \<Rightarrow> heap \<Rightarrow> buf_error + bptr list \<times> nat \<times> heap" where
  "realign addr sz al [] mc h = Inr ([], mc, h)"
| "realign addr sz al (p # ps) mc h =
     (let fine = (\<lambda>p. ptr_is_aligned addr al p \<and> ptr_is_n_align_sized sz p)
      in if fine p
         then map_sum (\<lambda>e. e) (apfst (Cons p)) (realign addr sz al ps mc h)
         else
           (let (u, rest) = gather fine sz (plen p) (push_back p bl_new) ps
            in case consolidate addr al u mc h of
                 Inl e \<Rightarrow> Inl e
               | Inr (q, mc, h) \<Rightarrow> map_sum (\<lambda>e. e) (apfst (Cons q)) (realign addr sz al rest mc h)))"
  by pat_completeness auto
termination
proof (relation "measure (\<lambda>(addr, sz, al, ps, mc, h). length ps)", goal_cases)
  case (3 addr sz al p ps mc h fine u u' rest)
  then show ?case using gather_length [of fine sz "plen p" "push_back p bl_new" ps] by (metis (no_types, lifting) case_prod_conv in_measure
      le_imp_less_Suc length_Cons snd_conv)
qed auto

definition rebuild_aligned_size_and_memory :: "(nat \<Rightarrow> u64) \<Rightarrow> nat \<Rightarrow> nat \<Rightarrow> blist \<Rightarrow> heap \<Rightarrow> buf_error + blist \<times> heap" where
  "rebuild_aligned_size_and_memory addr align_size align_memory bl h =
     map_sum (\<lambda>e. e) (\<lambda>(ps, mc, h). (bl\<lparr>buffers := ps, memcopy_count := mc\<rparr>, h))
       (realign addr align_size align_memory (buffers bl) (memcopy_count bl) h)"

definition rebuild_aligned :: "(nat \<Rightarrow> u64) \<Rightarrow> nat \<Rightarrow> blist \<Rightarrow> heap \<Rightarrow> buf_error + blist \<times> heap" where
  "rebuild_aligned addr align bl h = rebuild_aligned_size_and_memory addr align align bl h"

definition rebuild_page_aligned :: "(nat \<Rightarrow> u64) \<Rightarrow> blist \<Rightarrow> heap \<Rightarrow> buf_error + blist \<times> heap" where
  "rebuild_page_aligned addr bl h = rebuild_aligned addr MSGR_PAGE_SIZE bl h"

text \<open>The pointer that \<^verbatim>\<open>get_contiguous\<close> returns is given by the bytes behind it; null is \<open>[]\<close>.\<close>

definition get_contiguous :: "nat \<Rightarrow> nat \<Rightarrow> blist \<Rightarrow> heap \<Rightarrow> buf_error + byte list \<times> blist \<times> heap" where
  "get_contiguous orig_off len bl h =
     (if w32 (orig_off + len) > blen bl then Inl End_of_buffer
      else if len = 0 then Inr ([], bl, h)
      else
        (case skip_segs orig_off (buffers bl) of
           (off, []) \<Rightarrow> Inl Assertion_failed
         | (off, p # _) \<Rightarrow>
             if w32 (off + len) > plen p
             then
               (case rebuild bl h of
                  Inl e \<Rightarrow> Inl e
                | Inr (bl, h) \<Rightarrow> map_sum (\<lambda>e. e) (apfst (drop orig_off)) (bl_c_str bl h))
             else Inr (drop off (ptr_c_str h p), bl, h)))"

text \<open>\<^verbatim>\<open>zero()\<close>, and the loop of \<^verbatim>\<open>zero(o, l)\<close>; \<open>p\<close> is the position of the window and \<open>e\<close> is \<^verbatim>\<open>o+l\<close>.\<close>

definition ptr_zero_all :: "bptr \<Rightarrow> heap \<Rightarrow> buf_error + heap" where
  "ptr_zero_all p h =
     (case praw p of None \<Rightarrow> Inl Assertion_failed | Some a \<Rightarrow> Inr (poke a (poff p) (replicate (plen p) 0) h))"

fun zero_all_loop :: "bptr list \<Rightarrow> heap \<Rightarrow> buf_error + heap" where
  "zero_all_loop [] h = Inr h"
| "zero_all_loop (p # ps) h = (case ptr_zero_all p h of Inl e \<Rightarrow> Inl e | Inr h \<Rightarrow> zero_all_loop ps h)"

definition bl_zero :: "blist \<Rightarrow> heap \<Rightarrow> buf_error + heap" where
  "bl_zero bl h = zero_all_loop (buffers bl) h"

fun zero_loop :: "nat \<Rightarrow> nat \<Rightarrow> nat \<Rightarrow> nat \<Rightarrow> bptr list \<Rightarrow> heap \<Rightarrow> buf_error + heap" where
  "zero_loop ofs l e p [] h = Inr h"
| "zero_loop ofs l e p (it # its) h =
     (let p' = w32 (p + plen it)
      in case (if p' > ofs
               then
                 (if p \<ge> ofs \<and> p' \<le> e then ptr_zero_all it h
                  else if p \<ge> ofs then ptr_zero it 0 (w32 (e + 2 ^ 32 - p)) h
                  else if p' \<le> e then ptr_zero it (ofs - p) (w32 (plen it + 2 ^ 32 - (ofs - p))) h
                  else ptr_zero it (ofs - p) l h)
               else Inr h) of
           Inl err \<Rightarrow> Inl err
         | Inr h \<Rightarrow> if e \<le> p' then Inr h else zero_loop ofs l e p' its h)"

definition bl_zero_range :: "nat \<Rightarrow> nat \<Rightarrow> blist \<Rightarrow> heap \<Rightarrow> buf_error + heap" where
  "bl_zero_range ofs l bl h =
     (let e = w32 (ofs + l) in if e \<le> blen bl then zero_loop ofs l e 0 (buffers bl) h else Inl Assertion_failed)"

definition bl_swap :: "blist \<Rightarrow> blist \<Rightarrow> blist \<times> blist" where
  "bl_swap bl other =
     (bl\<lparr>blen := blen other, memcopy_count := memcopy_count other, buffers := buffers other, append_buffer := append_buffer other\<rparr>,
      other\<lparr>blen := blen bl, memcopy_count := memcopy_count bl, buffers := buffers bl, append_buffer := append_buffer bl\<rparr>)"

section \<open>Consolidating\<close>

text \<open>What \<^verbatim>\<open>posix_memalign\<close> promises.\<close>

definition memory_aligned :: "(nat \<Rightarrow> u64) \<Rightarrow> heap \<Rightarrow> bool" where
  "memory_aligned addr h \<longleftrightarrow> (\<forall>a al. a < length (raws h) \<and> rkind (raws h ! a) = Raw_posix_aligned al \<longrightarrow> al dvd unat (addr a))"

text \<open>New blocks at the end, and no window of before sees a difference.\<close>

definition extends :: "heap \<Rightarrow> heap \<Rightarrow> bool" where
  "extends h h' \<longleftrightarrow> heap_ok h' \<and> (\<forall>p. ptr_ok h p \<longrightarrow> ptr_ok h' p \<and> bytes h' p = bytes h p) \<and>
     (\<exists>ks. map rkind (raws h') = map rkind (raws h) @ ks)"

lemma extends_refl: "heap_ok h \<Longrightarrow> extends h h"
  by (simp add: extends_def)

lemma extends_trans: "extends h h1 \<Longrightarrow> extends h1 h2 \<Longrightarrow> extends h h2"
  by (fastforce simp: extends_def)

lemma extends_length: "extends h h' \<Longrightarrow> length (raws h) \<le> length (raws h')"
  unfolding extends_def by (metis length_append length_map le_add1)

lemma extends_kind:
  assumes "extends h h'" and "a < length (raws h)"
  shows "rkind (raws h' ! a) = rkind (raws h ! a)"
proof -
  obtain ks where ks: "map rkind (raws h') = map rkind (raws h) @ ks" using assms(1) by (auto simp: extends_def)
  have "rkind (raws h' ! a) = map rkind (raws h') ! a" using assms extends_length [OF assms(1)] by simp
  then show ?thesis using ks assms(2) by (simp add: nth_append)
qed

lemma extends_aligned: "extends h h' \<Longrightarrow> memory_aligned addr h' \<Longrightarrow> memory_aligned addr h"
  using extends_length extends_kind unfolding memory_aligned_def by (metis order_less_le_trans)

lemma extends_segs:
  assumes "extends h h'" and "segs_ok h ps"
  shows "segs_ok h' ps" and "concat (map (bytes h') ps) = concat (map (bytes h) ps)"
  using assms concat_bytes_cong [of ps h' h] by (auto simp: extends_def segs_ok_def)

lemma rkind_poke: "map rkind (raws (poke a off bs h)) = map rkind (raws h)"
  by (cases "a < length (raws h)") (auto simp: poke_def Let_def map_update list_update_same_conv list_update_beyond)

lemma rebuild_loop_kinds: "rebuild_loop ps nb pos h = Inr (n, h') \<Longrightarrow> map rkind (raws h') = map rkind (raws h)"
proof (induction ps arbitrary: pos h)
  case (Cons p ps)
  then obtain h1 where h1: "ptr_copy_in nb pos (bytes h p) h = Inr h1" "rebuild_loop ps nb (pos + plen p) h1 = Inr (n, h')"
    by (auto split: sum.splits)
  then have "map rkind (raws h1) = map rkind (raws h)" by (auto simp: ptr_copy_in_def rkind_poke split: option.splits if_splits)
  then show ?case using Cons.IH [OF h1(2)] by simp
qed simp

subsection \<open>Alignments\<close>

lemma power_align:
  assumes "k < 32"
  shows "(of_nat (2 ^ k) - 1 :: u32) = mask k" and "(of_nat (2 ^ k) :: u32) AND (of_nat (2 ^ k) - 1) = 0"
    and "(ucast (mask k :: u32) :: u64) = mask k"
proof -
  show m: "(of_nat (2 ^ k) - 1 :: u32) = mask k" by (simp add: mask_eq_exp_minus_1)
  show "(of_nat (2 ^ k) :: u32) AND (of_nat (2 ^ k) - 1) = 0"
    unfolding m by (rule bit_word_eqI) (auto simp: bit_simps)
  show "(ucast (mask k :: u32) :: u64) = mask k"
    using assms by (intro bit_word_eqI) (auto simp: bit_simps)
qed

lemma create_power_aligned:
  "3 \<le> k \<Longrightarrow> k < 32 \<Longrightarrow> create_aligned n (2 ^ k) h = Inr (new_raw (Raw_posix_aligned (2 ^ k)) (map (junk h) [0..<n]) h)"
  using power_increasing [of 3 k "2::nat"] power_align(2) [of k] by (simp add: create_aligned_def)

lemma aligned_block:
  assumes "k < 32" and "2 ^ k dvd unat (addr a)" and "praw q = Some a" and "poff q = 0"
  shows "ptr_is_aligned addr (2 ^ k) q"
proof -
  have "addr a AND mask k = 0"
  proof -
    have "unat (addr a AND mask k) = unat (addr a) mod 2 ^ k" unfolding take_bit_eq_mask [symmetric] unsigned_take_bit_eq by (simp add: take_bit_eq_mod)
    then have "unat (addr a AND mask k) = 0" using assms(2) by auto
    then show ?thesis by (simp add: unsigned_eq_0_iff)
  qed
  then show ?thesis using assms power_align [OF assms(1)] by (simp add: ptr_is_aligned_def)
qed

subsection \<open>The loops\<close>

lemma gather_ok:
  assumes "gather fine sz (blen u) u ps = (u', rest)" and "blen u + total_len ps < 2 ^ 32" and "\<forall>p \<in> set ps. 0 < plen p"
  shows "\<exists>ms. ps = ms @ rest \<and> buffers u' = buffers u @ ms \<and> blen u' = blen u + total_len ms \<and>
    (rest \<noteq> [] \<longrightarrow> fine (hd rest) \<and> blen u' mod sz = 0)"
  using assms
proof (induction ps arbitrary: u)
  case (Cons p ps)
  show ?case
  proof (cases "fine p \<and> blen u mod sz = 0")
    case True
    then show ?thesis using Cons.prems by auto
  next
    case False
    let ?v = "push_back p u"
    have v: "buffers ?v = buffers u @ [p]" "blen ?v = blen u + plen p" "w32 (blen u + plen p) = blen ?v"
      using Cons.prems(2,3) by (auto simp: push_back_def)
    have g: "gather fine sz (blen ?v) ?v ps = (u', rest)" using Cons.prems(1) False v(3) by auto
    have "blen ?v + total_len ps < 2 ^ 32" "\<forall>p \<in> set ps. 0 < plen p" using Cons.prems(2,3) v(2) by simp_all
    from Cons.IH [OF g this] show ?thesis using v by (metis append.assoc append_Cons append_Nil add.assoc total_len_simps(2))
  qed
qed auto

lemma consolidate_ok:
  assumes hok: "heap_ok h" and segs: "segs_ok h (buffers u)" and u: "buffers u \<noteq> []" "blen u = total_len (buffers u)" "blen u < 2 ^ 32"
    and k: "3 \<le> k" "k < 32"
  shows "\<exists>q mc' h'. consolidate addr (2 ^ k) u mc h = Inr (q, mc', h') \<and> extends h h' \<and> ptr_ok h' q \<and> plen q = blen u \<and>
    bytes h' q = concat (map (bytes h) (buffers u)) \<and> (memory_aligned addr h' \<longrightarrow> ptr_is_aligned addr (2 ^ k) q) \<and>
    (q \<in> set (buffers u) \<or> praw q = Some (length (raws h)))"
proof (cases "is_contiguous u \<and> ptr_is_aligned addr (2 ^ k) (hd (buffers u))")
  case True
  then obtain p where "buffers u = [p]" using u(1) by (cases "buffers u") (auto simp: is_contiguous_def)
  then show ?thesis using True segs u extends_refl [OF hok] by (simp add: consolidate_def)
next
  case False
  obtain a h1 where new: "new_raw (Raw_posix_aligned (2 ^ k)) (map (junk h) [0..<blen u]) h = (a, h1)" by (metis surj_pair)
  note nk = new_raw_keeps [OF new] and nf = new_raw_facts [OF new]
  have h1: "heap_ok h1" "raw_len h1 a = blen u" "a < length (raws h1)"
    using new_raw_ok [OF new hok] u(3) by simp_all
  let ?nb = "\<lparr>praw = Some a, poff = 0, plen = blen u\<rparr>"
  have nb: "ptr_of_raw a h1 = ?nb" "ptr_ok h1 ?nb" "0 < blen u"
    using h1 u segs by (auto simp: ptr_of_raw_def ptr_ok_def neq_Nil_conv)
  have segs1: "segs_ok h1 (buffers u)" "\<forall>p \<in> set (buffers u). praw p \<noteq> Some a"
    using segs nk(1,3) by (auto simp: segs_ok_def)
  obtain h' where h': "rebuild_loop (buffers u) ?nb 0 h1 = Inr (blen u, h')" "heap_ok h'"
    "\<forall>q. ptr_ok h1 q \<longrightarrow> ptr_ok h' q \<and> (praw q \<noteq> Some a \<longrightarrow> bytes h' q = bytes h1 q)"
    "bytes h' ?nb = concat (map (bytes h1) (buffers u)) @ drop (blen u) (bytes h1 ?nb)"
    using rebuild_loop_ok [OF h1(1) segs1 _ nb(2), of 0] u(2) by auto
  have run: "consolidate addr (2 ^ k) u mc h = Inr (?nb, w32 (mc + blen u), h')"
    using False u(1) nb(1,3) h'(1) new by (auto simp: consolidate_def create_power_aligned [OF k] rebuild_into_def)
  have kinds: "map rkind (raws h') = map rkind (raws h) @ [Raw_posix_aligned (2 ^ k)]"
    using rebuild_loop_kinds [OF h'(1)] nf by simp
  then have ext: "extends h h'" using h'(2,3) nk by (auto simp: extends_def)
  have "concat (map (bytes h1) (buffers u)) = concat (map (bytes h) (buffers u))"
    using segs nk(2) by (intro concat_bytes_cong) (auto simp: segs_ok_def)
  then have con: "bytes h' ?nb = concat (map (bytes h) (buffers u))"
    using h'(4) length_bytes [OF nb(2)] by simp
  have "ptr_is_aligned addr (2 ^ k) ?nb" if "memory_aligned addr h'"
  proof -
    have "a < length (raws h')" "rkind (raws h' ! a) = Raw_posix_aligned (2 ^ k)"
      using kinds nf(1) by (metis length_append_singleton length_map lessI, metis length_append_singleton length_map lessI nth_append_length nth_map)
    then have "2 ^ k dvd unat (addr a)" using that by (simp add: memory_aligned_def)
    then show ?thesis using aligned_block [OF k(2)] by simp
  qed
  then show ?thesis using run ext con h'(3) nb(2) nf(1) by auto
qed

text \<open>The windows of the result: at aligned addresses, all but the last of aligned size, and either from before or new.\<close>

definition realigned :: "(nat \<Rightarrow> u64) \<Rightarrow> nat \<Rightarrow> nat \<Rightarrow> bptr list \<Rightarrow> heap \<Rightarrow> bptr list \<Rightarrow> heap \<Rightarrow> bool" where
  "realigned addr sz al ps h qs h' \<longleftrightarrow> extends h h' \<and> segs_ok h' qs \<and> concat (map (bytes h') qs) = concat (map (bytes h) ps) \<and>
     total_len qs = total_len ps \<and> (memory_aligned addr h' \<longrightarrow> list_all (ptr_is_aligned addr al) qs) \<and>
     list_all (ptr_is_n_align_sized sz) (butlast qs) \<and> (\<forall>q \<in> set qs. q \<in> set ps \<or> (\<exists>a \<ge> length (raws h). praw q = Some a))"

lemma realigned_Cons:
  assumes tail: "realigned addr sz al rest h1 qs h'" and "extends h h1" and "segs_ok h ms" and "segs_ok h rest" and "ptr_ok h1 q"
    and "0 < plen q" and "bytes h1 q = concat (map (bytes h) ms)" and "plen q = total_len ms"
    and "memory_aligned addr h1 \<Longrightarrow> ptr_is_aligned addr al q" and "rest \<noteq> [] \<Longrightarrow> ptr_is_n_align_sized sz q"
    and "q \<in> set ms \<or> praw q = Some (length (raws h))"
  shows "realigned addr sz al (ms @ rest) h (q # qs) h'"
proof -
  have ext: "extends h1 h'" and len: "total_len qs = total_len rest" "segs_ok h' qs" using tail by (simp_all add: realigned_def)
  have q: "ptr_ok h' q" "bytes h' q = bytes h1 q" using ext assms(5) by (simp_all add: extends_def)
  have "concat (map (bytes h1) rest) = concat (map (bytes h) rest)" using extends_segs(2) [OF assms(2,4)] .
  moreover have "qs = [] \<longleftrightarrow> rest = []"
  proof
    assume "rest = []"
    then show "qs = []" using len by (cases qs) auto
  next
    assume "qs = []"
    then show "rest = []" using len(1) assms(4) by (cases rest) auto
  qed
  moreover have "length (raws h) \<le> length (raws h1)" using extends_length [OF assms(2)] .
  ultimately show ?thesis
    using tail assms(6-11) q extends_trans [OF assms(2) ext] extends_aligned [OF ext]
    unfolding realigned_def by (auto intro: order_trans)
qed

lemma realign_ok:
  assumes "heap_ok h" and "segs_ok h ps" and "total_len ps < 2 ^ 32" and k: "3 \<le> k" "k < 32"
  shows "\<exists>qs mc' h'. realign addr sz (2 ^ k) ps mc h = Inr (qs, mc', h') \<and> realigned addr sz (2 ^ k) ps h qs h'"
  using assms(1-3)
proof (induction "length ps" arbitrary: ps mc h rule: less_induct)
  case less
  show ?case
  proof (cases ps)
    case Nil
    then show ?thesis using extends_refl [OF less.prems(1)] by (simp add: realigned_def)
  next
    case (Cons p qs)
    have p: "ptr_ok h p" "0 < plen p" "segs_ok h qs" using less.prems(2) Cons by simp_all
    let ?fine = "\<lambda>p. ptr_is_aligned addr (2 ^ k) p \<and> ptr_is_n_align_sized sz p"
    show ?thesis
    proof (cases "?fine p")
      case True
      obtain rs mc' h' where r: "realign addr sz (2 ^ k) qs mc h = Inr (rs, mc', h')" "realigned addr sz (2 ^ k) qs h rs h'"
        using less.hyps [of qs h mc] less.prems Cons by auto
      have "realigned addr sz (2 ^ k) ([p] @ qs) h (p # rs) h'"
        using r(2) extends_refl [OF less.prems(1)] p True by (intro realigned_Cons) auto
      then show ?thesis using r(1) True Cons by simp
    next
      case False
      obtain u rest where g: "gather ?fine sz (plen p) (push_back p bl_new) qs = (u, rest)" by (metis surj_pair)
      have v: "buffers (push_back p bl_new) = [p]" "blen (push_back p bl_new) = plen p"
        using p(2) less.prems(3) Cons by (simp_all add: push_back_def bl_new_def)
      obtain ms where ms: "qs = ms @ rest" "buffers u = p # ms" "blen u = plen p + total_len ms"
        "rest \<noteq> [] \<longrightarrow> blen u mod sz = 0"
        using gather_ok [of ?fine sz "push_back p bl_new" qs u rest] g v less.prems(3) Cons p(3) by (auto simp: segs_ok_def)
      have segs: "segs_ok h (buffers u)" "segs_ok h rest" "blen u = total_len (buffers u)" "blen u < 2 ^ 32"
        using p ms less.prems(3) Cons by simp_all
      obtain q mc1 h1 where q: "consolidate addr (2 ^ k) u mc h = Inr (q, mc1, h1)" "extends h h1" "ptr_ok h1 q" "plen q = blen u"
        "bytes h1 q = concat (map (bytes h) (buffers u))" "memory_aligned addr h1 \<longrightarrow> ptr_is_aligned addr (2 ^ k) q"
        "q \<in> set (buffers u) \<or> praw q = Some (length (raws h))"
        using consolidate_ok [OF less.prems(1) segs(1) _ segs(3,4) k, of addr mc] ms(2) by auto
      have "segs_ok h1 rest" "heap_ok h1" using extends_segs(1) [OF q(2) segs(2)] q(2) by (simp_all add: extends_def)
      then obtain rs mc' h' where r: "realign addr sz (2 ^ k) rest mc1 h1 = Inr (rs, mc', h')" "realigned addr sz (2 ^ k) rest h1 rs h'"
        using less.hyps [of rest h1 mc1] less.prems(3) Cons ms(1) by auto
      have "realigned addr sz (2 ^ k) (buffers u @ rest) h (q # rs) h'"
        using r(2) q segs ms p(2) by (intro realigned_Cons) (auto simp: ptr_is_n_align_sized_def)
      then show ?thesis using r(1) q(1) g False Cons ms(1,2) by (auto simp: Let_def)
    qed
  qed
qed

section \<open>Zeroing\<close>

text \<open>Zeros over a range of a list of bytes, and in a window of it.\<close>

definition zeroed :: "nat \<Rightarrow> nat \<Rightarrow> byte list \<Rightarrow> byte list" where
  "zeroed i j c = take i c @ replicate (j - i) 0 @ drop j c"

lemma zeroed_append:
  assumes "i \<le> j" and "j \<le> length c + length d"
  shows "zeroed i j (c @ d) = zeroed (min i (length c)) (min j (length c)) c @ zeroed (i - length c) (j - length c) d"
proof (cases "i \<le> length c")
  case True
  then have "replicate (j - i) (0 :: byte) = replicate (min j (length c) - i) 0 @ replicate (j - length c) 0"
    using assms(1) by (simp add: min_def flip: replicate_add)
  then show ?thesis using True assms by (auto simp: zeroed_def min_def)
next
  case False
  then show ?thesis using assms by (simp add: zeroed_def)
qed

lemma w32_diff:
  assumes "q \<le> n" and "n - q < 2 ^ 32"
  shows "w32 (n + 2 ^ 32 - q) = n - q"
proof -
  have "n + 2 ^ 32 - q = n - q + 2 ^ 32" using assms(1) by simp
  then show ?thesis using assms(2) by (simp only: w32_def mod_add_self2 mod_less)
qed

lemma zero_window:
  assumes hok: "heap_ok h" and p: "ptr_ok h p" "0 < plen p" and r: "i \<le> j" "j \<le> plen p"
    and run: "g = ptr_zero p i (j - i) h \<or> i = 0 \<and> j = plen p \<and> g = ptr_zero_all p h"
  shows "\<exists>h'. g = Inr h' \<and> heap_ok h' \<and> same_shape h h' \<and> bytes h' p = zeroed i j (bytes h p) \<and>
    (\<forall>q. ptr_ok h q \<and> disjoint_windows p q \<longrightarrow> bytes h' q = bytes h q)"
proof -
  obtain a where a: "praw p = Some a" using segs_raw [OF p] by auto
  let ?z = "replicate (j - i) 0" and ?h' = "poke a (poff p + i) (replicate (j - i) 0) h"
  have small: "j < 2 ^ 32" using ptr_ok_bound [OF hok p(1)] r(2) by simp
  have g: "g = Inr ?h'" using run a r small by (auto simp: ptr_zero_def ptr_zero_all_def)
  have room: "poff p + i + length ?z \<le> raw_len h a" "a < length (raws h)" using p(1) a r by (auto simp: ptr_ok_def)
  have "bytes ?h' p = zeroed i j (bytes h p)"
    using bytes_poke_inside [OF a p(1), of i ?z] r by (simp add: zeroed_def)
  moreover have "bytes ?h' q = bytes h q" if "ptr_ok h q" "disjoint_windows p q" for q
    using bytes_poke_disjoint [OF room that(1)] that(2) a r by (auto simp: disjoint_windows_def)
  ultimately show ?thesis using g poke_ok(1) [OF room hok] raw_len_poke [OF room] by (simp add: same_shape_def)
qed

lemma zero_loop_ok:
  assumes "heap_ok h" and "segs_ok h its" and "separate its" and "p + total_len its < 2 ^ 32" and "ofs + l \<le> p + total_len its"
    and "p \<le> ofs + l"
  shows "\<exists>h'. zero_loop ofs l (ofs + l) p its h = Inr h' \<and> heap_ok h' \<and> same_shape h h' \<and>
    concat (map (bytes h') its) = zeroed (ofs - p) (ofs + l - p) (concat (map (bytes h) its)) \<and>
    (\<forall>q. ptr_ok h q \<and> (\<forall>w \<in> set its. disjoint_windows w q) \<longrightarrow> bytes h' q = bytes h q)"
  using assms
proof (induction its arbitrary: p h)
  case Nil
  then show ?case by (simp add: zeroed_def)
next
  case (Cons w its)
  have w: "ptr_ok h w" "0 < plen w" "segs_ok h its" and sep: "\<forall>q \<in> set its. disjoint_windows w q" "separate its"
    using Cons.prems(2,3) by auto
  define p' where "p' = p + plen w"
  define i j where "i = min (ofs - p) (plen w)" and "j = min (ofs + l - p) (plen w)"
  have p': "w32 (p + plen w) = p'" using Cons.prems(4) by (simp add: p'_def)
  have lw: "length (bytes h w) = plen w" using w(1) by (rule length_bytes)
  define g where "g = (if p' > ofs
      then if p \<ge> ofs \<and> p' \<le> ofs + l then ptr_zero_all w h
        else if p \<ge> ofs then ptr_zero w 0 (w32 (ofs + l + 2 ^ 32 - p)) h
        else if p' \<le> ofs + l then ptr_zero w (ofs - p) (w32 (plen w + 2 ^ 32 - (ofs - p))) h
        else ptr_zero w (ofs - p) l h
      else Inr h)"
  have wrap: "w32 (ofs + l + 2 ^ 32 - p) = ofs + l - p"
    using w32_diff [OF Cons.prems(6)] Cons.prems(4,5) by simp
  have "\<exists>h1. g = Inr h1 \<and> heap_ok h1 \<and> same_shape h h1 \<and> bytes h1 w = zeroed i j (bytes h w) \<and>
      (\<forall>q. ptr_ok h q \<and> disjoint_windows w q \<longrightarrow> bytes h1 q = bytes h q)"
  proof (cases "p' > ofs")
    case False
    then have "i = plen w" "j = plen w" by (auto simp: i_def j_def p'_def)
    then show ?thesis using False Cons.prems(1) lw by (simp add: g_def zeroed_def)
  next
    case True
    have "g = ptr_zero w i (j - i) h \<or> i = 0 \<and> j = plen w \<and> g = ptr_zero_all w h"
    proof (cases "p \<ge> ofs")
      case ge: True
      show ?thesis
      proof (cases "p' \<le> ofs + l")
        case True
        then have "i = 0" "j = plen w" using ge by (simp_all add: i_def j_def p'_def)
        then show ?thesis using ge True \<open>p' > ofs\<close> by (simp add: g_def)
      next
        case False
        then have "i = 0" "j = ofs + l - p" using ge by (simp_all add: i_def j_def p'_def)
        then show ?thesis using ge False True wrap by (simp add: g_def)
      qed
    next
      case lt: False
      have i: "i = ofs - p" using lt True by (simp add: i_def p'_def)
      have "w32 (plen w + 2 ^ 32 - (ofs - p)) = plen w - (ofs - p)"
        using w32_diff [of "ofs - p" "plen w"] lt True Cons.prems(4) by (simp add: p'_def)
      moreover have "j - i = (if p' \<le> ofs + l then plen w - (ofs - p) else l)"
        using lt True i by (auto simp: j_def p'_def min_def)
      ultimately show ?thesis using lt True i by (simp add: g_def)
    qed
    then show ?thesis by (intro zero_window [OF Cons.prems(1) w(1,2)]) (auto simp: i_def j_def)
  qed
  then obtain h1 where h1: "g = Inr h1" "heap_ok h1" "same_shape h h1" "bytes h1 w = zeroed i j (bytes h w)"
      "\<forall>q. ptr_ok h q \<and> disjoint_windows w q \<longrightarrow> bytes h1 q = bytes h q" by blast
  let ?r = "concat (map (bytes h) its)"
  have rest: "segs_ok h1 its" "concat (map (bytes h1) its) = ?r"
    using same_shape_ok(2) [OF h1(3)] w(3) h1(5) sep(1) concat_bytes_cong [of its h1 h] by (auto simp: segs_ok_def)
  have z: "zeroed (ofs - p) (ofs + l - p) (bytes h w @ ?r) = zeroed i j (bytes h w) @ zeroed (ofs - p') (ofs + l - p') ?r"
    using zeroed_append [of "ofs - p" "ofs + l - p" "bytes h w" ?r] lw Cons.prems(5) length_concat_bytes [OF w(3)]
    by (simp add: i_def j_def p'_def)
  show ?case
  proof (cases "ofs + l \<le> p'")
    case True
    then have "zero_loop ofs l (ofs + l) p (w # its) h = Inr h1" using h1(1) p' by (simp add: g_def Let_def)
    moreover have "zeroed (ofs - p') (ofs + l - p') ?r = ?r" using True by (simp add: zeroed_def)
    ultimately show ?thesis using h1 rest z by auto
  next
    case False
    then have run: "zero_loop ofs l (ofs + l) p (w # its) h = zero_loop ofs l (ofs + l) p' its h1"
      using h1(1) p' by (simp add: g_def Let_def)
    obtain h2 where h2: "zero_loop ofs l (ofs + l) p' its h1 = Inr h2" "heap_ok h2" "same_shape h1 h2"
      "concat (map (bytes h2) its) = zeroed (ofs - p') (ofs + l - p') ?r"
      "\<forall>q. ptr_ok h1 q \<and> (\<forall>w \<in> set its. disjoint_windows w q) \<longrightarrow> bytes h2 q = bytes h1 q"
      using Cons.IH [OF h1(2) rest(1) sep(2), of p'] rest(2) False Cons.prems(4,5) by (auto simp: p'_def)
    have ok1: "ptr_ok h1 q = ptr_ok h q" for q using same_shape_ok(1) [OF h1(3)] .
    have "bytes h2 w = bytes h1 w" using h2(5) ok1 w(1) sep(1) disjoint_windows_sym by blast
    moreover have "bytes h2 q = bytes h q" if "ptr_ok h q" "\<forall>x \<in> set (w # its). disjoint_windows x q" for q
      using h1(5) h2(5) ok1 that by simp
    ultimately show ?thesis using run h2 h1(4) z same_shape_trans [OF h1(3) h2(3)] by simp
  qed
qed

section \<open>Contiguous bytes\<close>

lemma get_contiguous_ok:
  assumes ok: "list_ok h bl" and fits: "off + len \<le> blen bl" and len: "0 < len"
  shows "\<exists>src bl' h'. get_contiguous off len bl h = Inr (src, bl', h') \<and> take len src = take len (drop off (contents h bl)) \<and>
    list_ok h' bl' \<and> contents h' bl' = contents h bl"
proof -
  have l: "heap_ok h" "segs_ok h (buffers bl)" "blen bl = total_len (buffers bl)" "blen bl < 2 ^ 32"
    using ok by (simp_all add: list_ok_def)
  obtain off' cur where sk: "skip_segs off (buffers bl) = (off', cur)" by (metis surj_pair)
  obtain pre where pre: "buffers bl = pre @ cur" "off = total_len pre + off'" "cur \<noteq> [] \<longrightarrow> off' < plen (hd cur)" "cur = [] \<longrightarrow> off' = 0"
    using skip_segs_ok [OF l(2) _ sk] fits l(3) by auto
  obtain p ps where p: "cur = p # ps" using pre fits len l(3) by (cases cur) auto
  have segs: "segs_ok h pre" "ptr_ok h p" using l(2) pre(1) p by simp_all
  have small: "w32 (off + len) = off + len" "w32 (off' + len) = off' + len" using fits l(4) pre(2) by simp_all
  show ?thesis
  proof (cases "off' + len > plen p")
    case True
    obtain bl1 h1 where r: "rebuild bl h = Inr (bl1, h1)" "list_ok h1 bl1" "contents h1 bl1 = contents h bl" "blen bl1 = blen bl"
      using rebuild_ok [OF ok] by blast
    obtain src bl2 h2 where c: "bl_c_str bl1 h1 = Inr (src, bl2, h2)" "take (blen bl2) src = contents h1 bl1" "list_ok h2 bl2"
      "contents h2 bl2 = contents h1 bl1" "blen bl2 = blen bl1"
      using bl_c_str_ok [OF r(2)] by blast
    have "take len (drop off src) = take len (drop off (take (blen bl2) src))" using fits r(4) c(5) by (simp add: drop_take min_def)
    then have "take len (drop off src) = take len (drop off (contents h bl))" using c(2) r(3) by simp
    then show ?thesis using r c True fits len small sk p by (simp add: get_contiguous_def)
  next
    case False
    have "contents h bl = concat (map (bytes h) pre) @ bytes h p @ concat (map (bytes h) ps)" using pre(1) p by (simp add: contents_def)
    then have "drop off (contents h bl) = drop off' (bytes h p) @ concat (map (bytes h) ps)"
      using length_concat_bytes [OF segs(1)] length_bytes [OF segs(2)] False pre(2) by simp
    then have "take len (drop off (contents h bl)) = take len (drop off' (bytes h p))"
      using length_bytes [OF segs(2)] False by simp
    also have "\<dots> = take len (drop off' (ptr_c_str h p))" using False by (simp add: bytes_def drop_take min_def)
    finally show ?thesis using ok False fits len small sk p by (simp add: get_contiguous_def)
  qed
qed

section \<open>Properties\<close>

text \<open>
  \<^verbatim>\<open>zero(o, l)\<close> clears exactly the \<open>l\<close> bytes from \<open>o\<close> on and no others, through whatever windows they are spread.
\<close>

theorem zero_range_clears:
  assumes "list_ok h bl" and "separate (buffers bl)" and "ofs + l \<le> blen bl"
  shows "\<exists>h'. bl_zero_range ofs l bl h = Inr h' \<and> list_ok h' bl \<and>
    contents h' bl = take ofs (contents h bl) @ replicate l 0 @ drop (ofs + l) (contents h bl) \<and>
    (\<forall>q. ptr_ok h q \<and> (\<forall>w \<in> set (buffers bl). disjoint_windows w q) \<longrightarrow> bytes h' q = bytes h q)"
proof -
  have l: "heap_ok h" "segs_ok h (buffers bl)" "blen bl = total_len (buffers bl)" "blen bl < 2 ^ 32"
    using assms(1) by (simp_all add: list_ok_def)
  obtain h' where h': "zero_loop ofs l (ofs + l) 0 (buffers bl) h = Inr h'" "heap_ok h'" "same_shape h h'"
    "concat (map (bytes h') (buffers bl)) = zeroed ofs (ofs + l) (concat (map (bytes h) (buffers bl)))"
    "\<forall>q. ptr_ok h q \<and> (\<forall>w \<in> set (buffers bl). disjoint_windows w q) \<longrightarrow> bytes h' q = bytes h q"
    using zero_loop_ok [OF l(1,2) assms(2), of 0 ofs l] l(3,4) assms(3) by auto
  have "bl_zero_range ofs l bl h = Inr h'" using h'(1) l(4) assms(3) by (simp add: bl_zero_range_def)
  moreover have "list_ok h' bl" using assms(1) h'(2) same_shape_ok [OF h'(3)] by (simp add: list_ok_def)
  ultimately show ?thesis using h'(4,5) by (simp add: contents_def zeroed_def)
qed

theorem zero_range_clears_witness:
  "\<exists>h'. bl_zero_range 2 2 sample_list sample_heap = Inr h' \<and> contents h' sample_list = [11, 12, 0, 0, 21]"
proof -
  have "separate (buffers sample_list)" by (simp add: sample_list_def disjoint_windows_def)
  from zero_range_clears [OF sample_list_ok this, of 2 2] show ?thesis
    by (auto simp: sample_list_blen sample_list_contents numeral_eq_Suc)
qed

text \<open>
  C40. \<^verbatim>\<open>rebuild_aligned_size_and_memory\<close> returns and leaves the same bytes in windows that all start at an aligned address and, but for the
  last, have an aligned size; blocks that others look at keep their bytes, and a list that is aligned already is not
  touched.
\<close>

theorem rebuild_aligned_aligns:
  assumes "list_ok h bl" and "3 \<le> k" and "k < 32"
  shows "\<exists>bl' h'. rebuild_aligned_size_and_memory addr sz (2 ^ k) bl h = Inr (bl', h') \<and> list_ok h' bl' \<and> contents h' bl' = contents h bl \<and>
    (memory_aligned addr h' \<longrightarrow> bl_is_aligned addr (2 ^ k) bl') \<and> list_all (ptr_is_n_align_sized sz) (butlast (buffers bl')) \<and>
    (\<forall>q. ptr_ok h q \<longrightarrow> ptr_ok h' q \<and> bytes h' q = bytes h q) \<and>
    (bl_is_aligned addr (2 ^ k) bl \<and> bl_is_n_align_sized sz bl \<longrightarrow> bl' = bl \<and> h' = h)"
proof -
  have l: "heap_ok h" "segs_ok h (buffers bl)" "blen bl = total_len (buffers bl)" "blen bl < 2 ^ 32" "tail_ok h bl"
    using assms(1) by (simp_all add: list_ok_def)
  obtain qs mc' h' where r: "realign addr sz (2 ^ k) (buffers bl) (memcopy_count bl) h = Inr (qs, mc', h')"
    "realigned addr sz (2 ^ k) (buffers bl) h qs h'"
    using realign_ok [OF l(1,2) _ assms(2,3)] l(3,4) by metis
  have ext: "extends h h'" and q: "\<forall>q \<in> set qs. q \<in> set (buffers bl) \<or> (\<exists>a \<ge> length (raws h). praw q = Some a)"
    using r(2) by (simp_all add: realigned_def)
  let ?bl' = "bl\<lparr>buffers := qs, memcopy_count := mc'\<rparr>"
  have "praw (append_buffer bl) \<noteq> Some a" if "a \<ge> length (raws h)" for a
    using l(5) that by (auto simp: tail_ok_def ptr_ok_def)
  then have "tail_ok h' ?bl'" using l(5) q ext unfolding tail_ok_def extends_def by fastforce
  then have "list_ok h' ?bl'" using r(2) l ext by (simp add: list_ok_def realigned_def extends_def)
  moreover have "realign addr sz (2 ^ k) ps mc h = Inr (ps, mc, h)"
    if "list_all (ptr_is_aligned addr (2 ^ k)) ps" "list_all (ptr_is_n_align_sized sz) ps" for ps mc
    using that by (induction ps) auto
  from this [of "buffers bl" "memcopy_count bl"]
  have "bl_is_aligned addr (2 ^ k) bl \<and> bl_is_n_align_sized sz bl \<longrightarrow> ?bl' = bl \<and> h' = h"
    using r(1) by (cases bl) (auto simp: bl_is_aligned_def bl_is_n_align_sized_def)
  ultimately show ?thesis
    using r ext unfolding rebuild_aligned_size_and_memory_def realigned_def extends_def contents_def bl_is_aligned_def by simp
qed

text \<open>Blocks at 1000 and 2003, and the new one at 4096: the two windows end up in the new block, which is aligned.\<close>

definition sample_addr :: "nat \<Rightarrow> u64" where
  "sample_addr a = (if a = 0 then 1000 else if a = 1 then 2003 else 4096)"

definition sample_realigned :: "blist \<times> heap" where
  "sample_realigned = projr (rebuild_aligned_size_and_memory sample_addr 8 (2 ^ 3) sample_list sample_heap)"

lemmas sample_realigned_eval = sample_realigned_def rebuild_aligned_size_and_memory_def sample_buffer_defs sample_addr_def
  ptr_is_aligned_def ptr_is_n_align_sized_def push_back_def bl_new_def consolidate_def is_contiguous_def create_aligned_def new_raw_def
  ptr_of_raw_def raw_len_def rebuild_into_def ptr_copy_in_def bytes_def ptr_c_str_def poke_def Let_def

lemma sample_realigned_windows: "buffers (fst sample_realigned) = [\<lparr>praw = Some 2, poff = 0, plen = 5\<rparr>]"
  by (simp add: sample_realigned_eval)

lemma sample_realigned_blocks: "map rkind (raws (snd sample_realigned)) = [Raw_char, Raw_malloc, Raw_posix_aligned 8]"
  by (simp add: sample_realigned_eval)

theorem rebuild_aligned_aligns_witness:
  "contents (snd sample_realigned) (fst sample_realigned) = [11, 12, 13, 20, 21] \<and> bl_is_aligned sample_addr (2 ^ 3) (fst sample_realigned)"
proof -
  obtain bl' h' where r: "sample_realigned = (bl', h')" "contents h' bl' = [11, 12, 13, 20, 21]"
    "memory_aligned sample_addr h' \<longrightarrow> bl_is_aligned sample_addr (2 ^ 3) bl'"
    using rebuild_aligned_aligns [OF sample_list_ok, of 3 sample_addr 8] by (auto simp: sample_realigned_def sample_list_contents)
  have "map rkind (raws h') = [Raw_char, Raw_malloc, Raw_posix_aligned 8]" using sample_realigned_blocks unfolding r(1) by simp
  then have "memory_aligned sample_addr h'"
    by (auto simp: memory_aligned_def sample_addr_def map_eq_Cons_conv nth_Cons' split: if_splits)
  then show ?thesis using r(2,3) unfolding r(1) by simp
qed

end
