(* ===== verification/Safe_IO.thy ===== *)
theory Safe_IO
  imports Msgr_Prelude
begin

text \<open>
  The retrying wrappers of \<^verbatim>\<open>src/src/safe_io.cc\<close> around \<^verbatim>\<open>read\<close>, \<^verbatim>\<open>write\<close>, \<^verbatim>\<open>pread\<close>, \<^verbatim>\<open>pwrite\<close> and \<^verbatim>\<open>splice\<close>, and the functions
  on small files built from them.  The kernel is the list of results of the system calls to come; a loop whose
  results run out has not returned (\<open>None\<close>).  An error number is a positive integer.
\<close>

section \<open>Operations\<close>

datatype read_result = Got "byte list" | Eof | Read_fails nat
datatype write_result = Wrote nat | Write_fails nat

definition EINTR :: nat where "EINTR = 4"
definition EAGAIN :: nat where "EAGAIN = 11"
definition EDOM :: nat where "EDOM = 33"

text \<open>\<^verbatim>\<open>cnt\<close> is the number of bytes stored so far; the result comes with these bytes and the results left.\<close>

fun read_loop :: "read_result list \<Rightarrow> nat \<Rightarrow> byte list \<Rightarrow> (int \<times> byte list \<times> read_result list) option" where
  "read_loop [] count buf = (if length buf < count then None else Some (int (length buf), buf, []))"
| "read_loop (r # rs) count buf =
     (if length buf < count
      then
        (case r of
           Got bs \<Rightarrow> read_loop rs count (buf @ bs)
         | Eof \<Rightarrow> Some (int (length buf), buf, rs)
         | Read_fails e \<Rightarrow>
             (if e = EINTR then read_loop rs count buf
              else if e = EAGAIN \<and> length buf > 0 then Some (int (length buf), buf, rs)
              else Some (- int e, buf, rs)))
      else Some (int (length buf), buf, r # rs))"

definition safe_read :: "read_result list \<Rightarrow> nat \<Rightarrow> (int \<times> byte list \<times> read_result list) option" where
  "safe_read rs count = read_loop rs count []"

definition exact :: "nat \<Rightarrow> (int \<times> byte list \<times> read_result list) option \<Rightarrow> (int \<times> byte list \<times> read_result list) option" where
  "exact count r =
     (case r of
        None \<Rightarrow> None
      | Some (ret, buf, rs) \<Rightarrow>
          Some (if ret < 0 then ret else if ret \<noteq> int count then - int EDOM else 0, buf, rs))"

definition safe_read_exact :: "read_result list \<Rightarrow> nat \<Rightarrow> (int \<times> byte list \<times> read_result list) option" where
  "safe_read_exact rs count = exact count (safe_read rs count)"

text \<open>\<^verbatim>\<open>pread\<close> and \<^verbatim>\<open>splice\<close> run the same loop; the offset moves with \<^verbatim>\<open>cnt\<close>.\<close>

definition safe_pread :: "read_result list \<Rightarrow> nat \<Rightarrow> (int \<times> byte list \<times> read_result list) option" where
  "safe_pread rs count = read_loop rs count []"

definition safe_pread_exact :: "read_result list \<Rightarrow> nat \<Rightarrow> (int \<times> byte list \<times> read_result list) option" where
  "safe_pread_exact rs count = exact count (safe_pread rs count)"

definition safe_splice :: "read_result list \<Rightarrow> nat \<Rightarrow> (int \<times> byte list \<times> read_result list) option" where
  "safe_splice rs len = read_loop rs len []"

definition safe_splice_exact :: "read_result list \<Rightarrow> nat \<Rightarrow> (int \<times> byte list \<times> read_result list) option" where
  "safe_splice_exact rs len = exact len (safe_splice rs len)"

text \<open>
  The write loops: the result, the bytes the kernel has taken, and the results left.  \<open>counts\<close> tells whether the
  loop adds to \<^verbatim>\<open>cnt\<close>; the one of \<^verbatim>\<open>safe_pwrite\<close> does not.
\<close>

fun write_loop :: "bool \<Rightarrow> write_result list \<Rightarrow> byte list \<Rightarrow> nat \<Rightarrow> byte list \<Rightarrow> (int \<times> byte list \<times> write_result list) option" where
  "write_loop counts [] buf cnt out = (if buf \<noteq> [] then None else Some (int cnt, out, []))"
| "write_loop counts (r # rs) buf cnt out =
     (if buf \<noteq> []
      then
        (case r of
           Wrote n \<Rightarrow> write_loop counts rs (drop n buf) (if counts then cnt + n else cnt) (out @ take n buf)
         | Write_fails e \<Rightarrow>
             (if e = EINTR then write_loop counts rs buf cnt out
              else if e = EAGAIN \<and> cnt > 0 then Some (int cnt, out, rs)
              else Some (- int e, out, rs)))
      else Some (int cnt, out, r # rs))"

definition safe_write :: "write_result list \<Rightarrow> byte list \<Rightarrow> (int \<times> byte list \<times> write_result list) option" where
  "safe_write rs buf = write_loop True rs buf 0 []"

definition safe_pwrite :: "write_result list \<Rightarrow> byte list \<Rightarrow> (int \<times> byte list \<times> write_result list) option" where
  "safe_pwrite rs buf = write_loop False rs buf 0 []"

subsection \<open>Files\<close>

text \<open>
  A directory maps names to contents.  Each call that can fail has its error number, or \<open>None\<close>; \<open>reads\<close> and \<open>writes\<close> are
  the results of the calls on the open file, of which reading sees the content of the file.
\<close>

type_synonym files = "string \<rightharpoonup> byte list"

record fs_calls =
  open_read :: "nat option"
  reads :: "read_result list"
  open_tmp :: "nat option"
  writes :: "write_result list"
  fsync_tmp :: "nat option"
  rename_tmp :: "nat option"
  open_base :: "nat option"
  fsync_base :: "nat option"

definition safe_read_file :: "fs_calls \<Rightarrow> nat \<Rightarrow> (int \<times> byte list) option" where
  "safe_read_file K vallen =
     (case open_read K of
        Some e \<Rightarrow> Some (- int e, [])
      | None \<Rightarrow> map_option (\<lambda>(r, buf, _). (r, buf)) (safe_read (reads K) vallen))"

definition safe_write_file :: "fs_calls \<Rightarrow> string \<Rightarrow> byte list \<Rightarrow> files \<Rightarrow> (int \<times> files) option" where
  "safe_write_file K file val fs =
     (case safe_read_file K 80 of
        None \<Rightarrow> None
      | Some (ret, oldval) \<Rightarrow>
          (if ret = int (length val) \<and> oldval = val then Some (0, fs)
           else
             (case open_tmp K of
                Some e \<Rightarrow> Some (- int e, fs)
              | None \<Rightarrow>
                  (case safe_write (writes K) val of
                     None \<Rightarrow> None
                   | Some (ret, out, _) \<Rightarrow>
                       (let tmp = file @ ''.tmp''; fs = fs(tmp \<mapsto> out)
                        in if ret \<noteq> 0 then Some (ret, fs)
                           else
                             (case fsync_tmp K of
                                Some e \<Rightarrow> Some (- int e, fs(tmp := None))
                              | None \<Rightarrow>
                                  (case rename_tmp K of
                                     Some e \<Rightarrow> Some (- int e, fs(tmp := None))
                                   | None \<Rightarrow>
                                       (let fs = fs(file \<mapsto> out, tmp := None)
                                        in case open_base K of
                                             Some e \<Rightarrow> Some (- int e, fs)
                                           | None \<Rightarrow> Some (case fsync_base K of Some e \<Rightarrow> - int e | None \<Rightarrow> 0, fs)))))))))"

section \<open>Laws\<close>

text \<open>A kernel never delivers more than was asked for, nor nothing without saying so.\<close>

fun reads_ok :: "read_result list \<Rightarrow> nat \<Rightarrow> bool" where
  "reads_ok [] n = True"
| "reads_ok (Got bs # rs) n = (bs \<noteq> [] \<and> (0 < n \<longrightarrow> length bs \<le> n) \<and> reads_ok rs (n - length bs))"
| "reads_ok (Eof # rs) n = reads_ok rs n"
| "reads_ok (Read_fails e # rs) n = (0 < e \<and> reads_ok rs n)"

primrec stream :: "read_result list \<Rightarrow> byte list" where
  "stream [] = []"
| "stream (r # rs) = (case r of Got bs \<Rightarrow> bs @ stream rs | _ \<Rightarrow> stream rs)"


text \<open>Interrupted calls and pieces only.\<close>

fun only_pieces :: "read_result list \<Rightarrow> bool" where
  "only_pieces [] = True"
| "only_pieces (Got bs # rs) = only_pieces rs"
| "only_pieces (Eof # rs) = False"
| "only_pieces (Read_fails e # rs) = (e = EINTR \<and> only_pieces rs)"

lemma read_loop_full: "count \<le> length buf \<Longrightarrow> read_loop rs count buf = Some (int (length buf), buf, rs)"
  by (cases rs) auto

lemma read_loop_prefix:
  assumes "read_loop rs count buf = Some (r, buf', rs')" and "reads_ok rs (count - length buf)" and "length buf \<le> count"
  shows "\<exists>ms ys. buf' = buf @ ms \<and> stream rs = ms @ ys \<and> length buf' \<le> count \<and> (0 \<le> r \<longrightarrow> r = int (length buf'))"
  using assms
proof (induction rs arbitrary: buf)
  case Nil
  then show ?case by (auto split: if_splits)
next
  case (Cons x rs)
  show ?case
  proof (cases "length buf < count")
    case False
    then show ?thesis using Cons.prems by auto
  next
    case True
    show ?thesis
    proof (cases x)
      case (Got bs)
      have "length (buf @ bs) \<le> count" "reads_ok rs (count - length (buf @ bs))"
        using Cons.prems(2,3) True Got by auto
      then show ?thesis using Cons.IH [of "buf @ bs"] Cons.prems(1) True Got by auto
    next
      case Eof
      then show ?thesis using Cons.prems True by auto
    next
      case (Read_fails e)
      then show ?thesis using Cons.IH [of buf] Cons.prems True by (auto split: if_splits)
    qed
  qed
qed

lemma read_loop_completes:
  assumes "only_pieces rs" and "reads_ok rs (count - length buf)" and "length buf \<le> count" and "count \<le> length (buf @ stream rs)"
  shows "\<exists>rs'. read_loop rs count buf = Some (int count, take count (buf @ stream rs), rs')"
  using assms
proof (induction rs arbitrary: buf)
  case Nil
  then show ?case by auto
next
  case (Cons x rs)
  show ?case
  proof (cases "length buf < count")
    case False
    then show ?thesis using Cons.prems(3) by simp
  next
    case True
    then show ?thesis
    proof (cases x)
      case (Got bs)
      then show ?thesis using Cons.IH [of "buf @ bs"] Cons.prems True by auto
    next
      case (Read_fails e)
      then show ?thesis using Cons.IH [of buf] Cons.prems True by auto
    qed (use Cons.prems in auto)
  qed
qed

fun writes_ok :: "write_result list \<Rightarrow> nat \<Rightarrow> bool" where
  "writes_ok [] n = (n = 0)"
| "writes_ok (Wrote k # rs) n = (n = 0 \<or> k \<le> n \<and> writes_ok rs (n - k))"
| "writes_ok (Write_fails e # rs) n = (n = 0 \<or> e = EINTR \<and> writes_ok rs n)"

lemma write_loop_completes:
  assumes "writes_ok rs (length buf)"
  shows "\<exists>rs'. write_loop counts rs buf cnt out = Some (int (if counts then cnt + length buf else cnt), out @ buf, rs')"
  using assms
proof (induction rs "length buf" arbitrary: buf cnt out rule: writes_ok.induct)
  case 1
  then show ?case by simp
next
  case (2 k rs)
  show ?case
  proof (cases "buf = []")
    case False
    then have "k \<le> length buf" "writes_ok rs (length (drop k buf))" using "2.prems" by auto
    then show ?thesis using "2.hyps" [of "drop k buf" "if counts then cnt + k else cnt" "out @ take k buf"] False by auto
  qed simp
next
  case (3 e rs)
  show ?case
  proof (cases "buf = []")
    case False
    then show ?thesis using "3.hyps" [of buf cnt out] "3.prems" by auto
  qed simp
qed

section \<open>Properties\<close>

text \<open>
  However the transfer is cut into pieces and interrupted, \<^verbatim>\<open>safe_read\<close> returns exactly the bytes asked for
  and \<^verbatim>\<open>safe_write\<close> writes all of them; when \<^verbatim>\<open>safe_read\<close> returns for another reason, what it has stored is the beginning of
  the stream and its result says how much.
\<close>

theorem safe_transfers_complete:
  assumes "reads_ok rs count" and "writes_ok ws (length out)"
  shows "(only_pieces rs \<and> count \<le> length (stream rs) \<longrightarrow>
      (\<exists>rs'. safe_read rs count = Some (int count, take count (stream rs), rs') \<and> safe_read_exact rs count = Some (0, take count (stream rs), rs'))) \<and>
    (\<forall>r buf rs'. safe_read rs count = Some (r, buf, rs') \<longrightarrow>
      (\<exists>ys. stream rs = buf @ ys) \<and> length buf \<le> count \<and> (0 \<le> r \<longrightarrow> r = int (length buf))) \<and>
    (\<exists>ws'. safe_write ws out = Some (int (length out), out, ws'))"
proof (intro conjI impI allI)
  assume "only_pieces rs \<and> count \<le> length (stream rs)"
  then show "\<exists>rs'. safe_read rs count = Some (int count, take count (stream rs), rs') \<and> safe_read_exact rs count = Some (0, take count (stream rs), rs')"
    using read_loop_completes [of rs count "[]"] assms(1) by (auto simp: safe_read_def safe_read_exact_def exact_def)
next
  fix r buf rs' assume r: "safe_read rs count = Some (r, buf, rs')"
  show "\<exists>ys. stream rs = buf @ ys" "length buf \<le> count"
    using read_loop_prefix [of rs count "[]" r buf rs'] assms(1) r by (auto simp: safe_read_def)
  show "r = int (length buf)" if "0 \<le> r"
    using read_loop_prefix [of rs count "[]" r buf rs'] assms(1) r that by (auto simp: safe_read_def)
next
  show "\<exists>ws'. safe_write ws out = Some (int (length out), out, ws')"
    using write_loop_completes [OF assms(2), of True 0 "[]"] by (auto simp: safe_write_def)
qed

theorem safe_transfers_complete_witness:
  "\<exists>rs' ws'. safe_read [Got [1, 2], Read_fails EINTR, Got [3]] 3 = Some (3, [1, 2, 3], rs') \<and>
     safe_write [Wrote 1, Write_fails EINTR, Wrote 2] [7, 8, 9] = Some (3, [7, 8, 9], ws')"
  using safe_transfers_complete [of "[Got [1, 2], Read_fails EINTR, Got [3]]" 3 "[Wrote 1, Write_fails EINTR, Wrote 2]" "[7, 8, 9]"]
  by (auto simp: numeral_eq_Suc EINTR_def)



text \<open>\<^verbatim>\<open>safe_pwrite\<close> writes everything and returns 0.\<close>

lemma safe_pwrite_returns_zero:
  assumes "writes_ok ws (length buf)"
  shows "\<exists>ws'. safe_pwrite ws buf = Some (0, buf, ws')"
  using write_loop_completes [OF assms, of False 0 "[]"] by (auto simp: safe_pwrite_def)

end
