(* ===== verification/Buffer_File.thy ===== *)
theory Buffer_File
  imports Buffer_Ops Safe_IO
begin

text \<open>
  Buffer lists and files (\<^verbatim>\<open>src/src/buffer.cc\<close>): \<^verbatim>\<open>write_fd\<close> with its batches of \<^verbatim>\<open>writev\<close> calls and the recovery from partial
  writes, \<^verbatim>\<open>write_file\<close>, \<^verbatim>\<open>read_fd\<close>, \<^verbatim>\<open>read_file\<close> and \<^verbatim>\<open>write_stream\<close>.  As in \<^verbatim>\<open>Safe_IO\<close> the kernel is the list of the results of the calls to
  come, and a loop whose results run out has not returned (\<open>None\<close>).  A result \<open>Wrote n\<close> says that the kernel took up to \<open>n\<close> of the bytes it
  was offered.  The blocks of the model are none that can be moved without copying, so that \<^verbatim>\<open>can_zero_copy\<close> holds of the empty
  list alone.
\<close>

section \<open>Writing\<close>

definition IOV_MAX :: nat where "IOV_MAX = 1024"
definition ESPIPE :: nat where "ESPIPE = 29"

text \<open>\<^verbatim>\<open>while ((size_t)wrote >= start[0].iov_len)\<close>, and the first vector that is left is cut.\<close>

fun trim_iov :: "nat \<Rightarrow> byte list list \<Rightarrow> byte list list" where
  "trim_iov wrote [] = []"
| "trim_iov wrote (v # vs) = (if wrote \<ge> length v then trim_iov (wrote - length v) vs else drop wrote v # vs)"

text \<open>One batch: \<open>Inl\<close> is a return from \<^verbatim>\<open>write_fd\<close>, \<open>Inr\<close> the new \<^verbatim>\<open>total\<close>; \<open>out\<close> are the bytes the kernel has taken.\<close>

fun writev_loop ::
  "write_result list \<Rightarrow> byte list list \<Rightarrow> nat \<Rightarrow> byte list \<Rightarrow> ((int + nat) \<times> byte list \<times> write_result list) option"
where
  "writev_loop [] iov so_far out = None"
| "writev_loop (r # rs) iov so_far out =
     (case r of
        Write_fails e \<Rightarrow>
          (if e = EINTR then writev_loop rs iov so_far out
           else if e = EAGAIN \<and> so_far > 0 then Some (Inl (int so_far), out, rs)
           else Some (Inl (- int e), out, rs))
      | Wrote n \<Rightarrow>
          (let offered = concat iov; wrote = min n (length offered); so_far = so_far + wrote; out = out @ take wrote offered
           in if wrote < length offered then writev_loop rs (trim_iov wrote iov) so_far out else Some (Inr so_far, out, rs)))"

fun write_segs :: "heap \<Rightarrow> write_result list \<Rightarrow> bptr list \<Rightarrow> byte list list \<Rightarrow> nat \<Rightarrow> byte list \<Rightarrow> (int \<times> byte list \<times> write_result list) option" where
  "write_segs h rs [] iov so_far out = Some (int so_far, out, rs)"
| "write_segs h rs (p # ps) iov so_far out =
     (let iov = (if plen p > 0 then iov @ [bytes h p] else iov)
      in if length iov = IOV_MAX - 1 \<or> ps = []
         then
           (case writev_loop rs iov so_far out of
              None \<Rightarrow> None
            | Some (Inl r, out, rs) \<Rightarrow> Some (r, out, rs)
            | Some (Inr so_far, out, rs) \<Rightarrow> write_segs h rs ps [] so_far out)
         else write_segs h rs ps iov so_far out)"

definition bl_can_zero_copy :: "blist \<Rightarrow> bool" where
  "bl_can_zero_copy bl \<longleftrightarrow> buffers bl = []"

text \<open>On an empty list nothing is left but the call of \<^verbatim>\<open>lseek\<close>.\<close>

definition write_fd_zero_copy :: "nat option \<Rightarrow> int" where
  "write_fd_zero_copy lseek = (case lseek of Some e \<Rightarrow> if e \<noteq> ESPIPE then - int e else 0 | None \<Rightarrow> 0)"

definition write_fd :: "nat option \<Rightarrow> write_result list \<Rightarrow> heap \<Rightarrow> blist \<Rightarrow> (int \<times> byte list \<times> write_result list) option" where
  "write_fd lseek rs h bl =
     (if bl_can_zero_copy bl then Some (write_fd_zero_copy lseek, [], rs) else write_segs h rs (buffers bl) [] 0 [])"

text \<open>The result of \<^verbatim>\<open>write_file\<close> and what the file contains afterwards; \<open>opn\<close> and \<open>cls\<close> are the errors of \<^verbatim>\<open>open\<close> and \<^verbatim>\<open>close\<close>.\<close>

definition write_file ::
  "nat option \<Rightarrow> nat option \<Rightarrow> nat option \<Rightarrow> write_result list \<Rightarrow> heap \<Rightarrow> blist \<Rightarrow> byte list option \<Rightarrow> (int \<times> byte list option) option"
where
  "write_file opn cls lseek rs h bl old =
     (case opn of
        Some e \<Rightarrow> Some (- int e, old)
      | None \<Rightarrow>
          (case write_fd lseek rs h bl of
             None \<Rightarrow> None
           | Some (ret, out, _) \<Rightarrow>
               Some (if ret \<noteq> 0 then ret else case cls of Some e \<Rightarrow> - int e | None \<Rightarrow> 0, Some out)))"

definition write_stream :: "heap \<Rightarrow> blist \<Rightarrow> byte list" where
  "write_stream h bl = fold (\<lambda>p out. if plen p > 0 then out @ bytes h p else out) (buffers bl) []"

section \<open>Reading\<close>

definition round_up :: "nat \<Rightarrow> nat \<Rightarrow> nat" where
  "round_up n d = (if n mod d \<noteq> 0 then n + (d - n mod d) else n)"

definition read_fd :: "read_result list \<Rightarrow> nat \<Rightarrow> blist \<Rightarrow> heap \<Rightarrow> (buf_error + int \<times> blist \<times> heap) option" where
  "read_fd rs len bl h =
     (case create_page_aligned (w32 (round_up len MSGR_PAGE_SIZE)) h of
        Inl e \<Rightarrow> Some (Inl e)
      | Inr (a, h) \<Rightarrow>
          (case safe_read rs len of
             None \<Rightarrow> None
           | Some (ret, buf, _) \<Rightarrow>
               (let h = poke a 0 buf h; bp = (ptr_of_raw a h)\<lparr>plen := w32 (nat ret)\<rparr>
                in Some (Inr (ret, if ret \<ge> 0 then append_ptr bp bl else bl, h)))))"

text \<open>\<open>st_size\<close> is 0 when \<^verbatim>\<open>fstat\<close> fails.  A file that ends early is not an error.\<close>

definition read_file :: "nat option \<Rightarrow> nat \<Rightarrow> read_result list \<Rightarrow> blist \<Rightarrow> heap \<Rightarrow> (buf_error + int \<times> blist \<times> heap) option" where
  "read_file opn st_size rs bl h =
     (case opn of
        Some e \<Rightarrow> Some (Inr (- int e, bl, h))
      | None \<Rightarrow>
          map_option (map_sum (\<lambda>e. e) (\<lambda>(ret, bl, h). (if ret < 0 then ret else 0, bl, h))) (read_fd rs st_size bl h))"

section \<open>What is written\<close>

lemma concat_trim [simp]: "concat (trim_iov n iov) = drop n (concat iov)"
  by (induction n iov rule: trim_iov.induct) simp_all

text \<open>Whatever the kernel answers, it is given the bytes in order and the result counts them.\<close>

lemma writev_loop_prefix:
  assumes "writev_loop rs iov t out = Some (x, out', rs')" and "Write_fails 0 \<notin> set rs"
  shows "\<exists>ys zs. out' = out @ ys \<and> concat iov = ys @ zs \<and> set rs' \<subseteq> set rs \<and>
    (\<forall>t'. x = Inr t' \<longrightarrow> t' = t + length ys \<and> zs = []) \<and> (\<forall>r. x = Inl r \<and> r \<ge> 0 \<longrightarrow> r = int (t + length ys))"
  using assms
proof (induction rs arbitrary: iov t out)
  case (Cons r rs)
  have pos: "Write_fails 0 \<notin> set rs" using Cons.prems(2) by auto
  show ?case
  proof (cases r)
    case (Write_fails e)
    have "e \<noteq> 0" using Cons.prems(2) Write_fails by auto
    then consider "e = EINTR" | "x = Inl (int t) \<or> x = Inl (- int e)" "out' = out" "rs' = rs" "x = Inl (int t) \<or> - int e < 0"
      using Cons.prems(1) Write_fails by (cases "e = EINTR"; cases "e = EAGAIN \<and> t > 0") auto
    then show ?thesis
    proof cases
      case 1
      then have "writev_loop rs iov t out = Some (x, out', rs')" using Cons.prems(1) Write_fails by simp
      from Cons.IH [OF this pos] show ?thesis by fastforce
    next
      case 2
      then show ?thesis by (intro exI [of _ "[]"] exI [of _ "concat iov"]) auto
    qed
  next
    case (Wrote n)
    define c where "c = concat iov"
    show ?thesis
    proof (cases "n < length c")
      case True
      then have "writev_loop rs (trim_iov n iov) (t + n) (out @ take n c) = Some (x, out', rs')"
        using Cons.prems(1) Wrote by (simp add: Let_def c_def min_def)
      from Cons.IH [OF this pos] obtain ys zs where "out' = (out @ take n c) @ ys" "drop n c = ys @ zs" "set rs' \<subseteq> set rs"
        "\<forall>t'. x = Inr t' \<longrightarrow> t' = t + n + length ys \<and> zs = []" "\<forall>r. x = Inl r \<and> r \<ge> 0 \<longrightarrow> r = int (t + n + length ys)"
        by (auto simp: c_def)
      moreover from this(2) have "c = (take n c @ ys) @ zs" by (metis append.assoc append_take_drop_id)
      ultimately show ?thesis using True unfolding c_def [symmetric] by (intro exI [of _ "take n c @ ys"] exI [of _ zs]) auto
    next
      case False
      then have m: "min n (length c) = length c" by simp
      have "x = Inr (t + length c)" "out' = out @ c" "rs' = rs"
        using Cons.prems(1) Wrote by (simp_all add: Let_def m flip: c_def)
      then show ?thesis by (auto simp flip: c_def)
    qed
  qed
qed simp

lemma write_segs_prefix:
  assumes "write_segs h rs ps iov t out = Some (r, out', rs')" and "Write_fails 0 \<notin> set rs" and "ps = [] \<longrightarrow> iov = []"
  shows "\<exists>ys zs. out' = out @ ys \<and> concat iov @ concat (map (bytes h) ps) = ys @ zs \<and> (r \<ge> 0 \<longrightarrow> r = int (t + length ys))"
  using assms
proof (induction ps arbitrary: rs iov t out)
  case (Cons p ps)
  let ?iov = "if plen p > 0 then iov @ [bytes h p] else iov"
  have c: "concat ?iov = concat iov @ bytes h p" by (simp add: bytes_def)
  show ?case
  proof (cases "length ?iov = IOV_MAX - 1 \<or> ps = []")
    case False
    then have "write_segs h rs ps ?iov t out = Some (r, out', rs')" "ps = [] \<longrightarrow> ?iov = []" using Cons.prems(1) by (auto simp: Let_def)
    from Cons.IH [OF this(1) Cons.prems(2) this(2)] show ?thesis using c by simp
  next
    case True
    then obtain x out1 rs1 where w: "writev_loop rs ?iov t out = Some (x, out1, rs1)"
      and k: "(case x of Inl r \<Rightarrow> Some (r, out1, rs1) | Inr t \<Rightarrow> write_segs h rs1 ps [] t out1) = Some (r, out', rs')"
      using Cons.prems(1) by (cases "writev_loop rs ?iov t out") (auto simp: Let_def split: sum.splits)
    obtain ys zs where y: "out1 = out @ ys" "concat iov @ bytes h p = ys @ zs" "set rs1 \<subseteq> set rs"
      "\<forall>t'. x = Inr t' \<longrightarrow> t' = t + length ys \<and> zs = []" "\<forall>r. x = Inl r \<and> r \<ge> 0 \<longrightarrow> r = int (t + length ys)"
      using writev_loop_prefix [OF w Cons.prems(2)] unfolding c by blast
    show ?thesis
    proof (cases x)
      case (Inl q)
      then show ?thesis using k y by (intro exI [of _ ys] exI [of _ "zs @ concat (map (bytes h) ps)"]) auto
    next
      case (Inr t')
      have "write_segs h rs1 ps [] t' out1 = Some (r, out', rs')" "Write_fails 0 \<notin> set rs1"
        using k Inr y(3) Cons.prems(2) by auto
      from Cons.IH [OF this] obtain us vs where "out' = out1 @ us" "concat (map (bytes h) ps) = us @ vs" "r \<ge> 0 \<longrightarrow> r = int (t' + length us)"
        by auto
      then show ?thesis using y Inr by (intro exI [of _ "ys @ us"] exI [of _ vs]) auto
    qed
  qed
qed auto

text \<open>A kernel that is interrupted now and then but takes something at each other call.\<close>

definition willing :: "write_result list \<Rightarrow> bool" where
  "willing rs \<longleftrightarrow> (\<forall>r \<in> set rs. case r of Wrote n \<Rightarrow> n > 0 | Write_fails e \<Rightarrow> e = EINTR)"

definition accepts_n :: "write_result list \<Rightarrow> nat" where
  "accepts_n rs = length (filter (\<lambda>r. r \<noteq> Write_fails EINTR) rs)"

lemma writev_loop_completes:
  assumes "willing rs" and "concat iov \<noteq> []" and "length (concat iov) \<le> accepts_n rs"
  shows "\<exists>rs'. writev_loop rs iov t out = Some (Inr (t + length (concat iov)), out @ concat iov, rs') \<and> willing rs' \<and>
    accepts_n rs \<le> accepts_n rs' + length (concat iov)"
  using assms
proof (induction rs arbitrary: iov t out)
  case (Cons r rs)
  have w: "willing rs" using Cons.prems(1) by (simp add: willing_def)
  show ?case
  proof (cases r)
    case (Write_fails e)
    then have e: "r = Write_fails EINTR" using Cons.prems(1) by (simp add: willing_def)
    then show ?thesis using Cons.IH [OF w Cons.prems(2)] Cons.prems(3) by (simp add: accepts_n_def)
  next
    case (Wrote n)
    define c where "c = concat iov"
    have n: "n > 0" "accepts_n (r # rs) = Suc (accepts_n rs)" using Cons.prems(1) Wrote by (simp_all add: willing_def accepts_n_def)
    have c: "0 < length c" "length c \<le> Suc (accepts_n rs)" using Cons.prems(2,3) n(2) unfolding c_def [symmetric] by simp_all
    show ?thesis
    proof (cases "n < length c")
      case True
      have "concat (trim_iov n iov) \<noteq> []" "length (concat (trim_iov n iov)) \<le> accepts_n rs"
        using True n c by (simp_all flip: c_def)
      from Cons.IH [OF w this, of "t + n" "out @ take n c"] obtain rs' where
        "writev_loop rs (trim_iov n iov) (t + n) (out @ take n c) = Some (Inr (t + length c), out @ c, rs')"
        "willing rs'" "accepts_n rs \<le> accepts_n rs' + (length c - n)"
        using True by (auto simp flip: c_def)
      then show ?thesis using True Wrote n unfolding c_def [symmetric] by (auto simp: Let_def min_def simp flip: c_def)
    next
      case False
      then have m: "min n (length c) = length c" by simp
      have "accepts_n (r # rs) \<le> accepts_n rs + length c" using n(2) c(1) by linarith
      then show ?thesis using Wrote w unfolding c_def [symmetric] by (simp add: Let_def m flip: c_def)
    qed
  qed
qed (auto simp: accepts_n_def)

lemma write_segs_completes:
  assumes "segs_ok h ps" and "willing rs" and "length (concat iov) + total_len ps \<le> accepts_n rs" and "ps = [] \<longrightarrow> iov = []"
  shows "\<exists>rs'. write_segs h rs ps iov t out =
    Some (int (t + length (concat iov) + total_len ps), out @ concat iov @ concat (map (bytes h) ps), rs')"
  using assms
proof (induction ps arbitrary: rs iov t out)
  case (Cons p ps)
  have p: "plen p > 0" "length (bytes h p) = plen p" "segs_ok h ps" using Cons.prems(1) length_bytes by auto
  let ?iov = "iov @ [bytes h p]"
  show ?case
  proof (cases "length ?iov = IOV_MAX - 1 \<or> ps = []")
    case False
    then have run: "write_segs h rs (p # ps) iov t out = write_segs h rs ps ?iov t out" using p(1) by (simp add: Let_def)
    have "length (concat ?iov) + total_len ps \<le> accepts_n rs" "ps = [] \<longrightarrow> ?iov = []" using Cons.prems(3) p False by auto
    from Cons.IH [OF p(3) Cons.prems(2) this] show ?thesis unfolding run using p(2) by (simp add: add.assoc)
  next
    case True
    have "concat ?iov \<noteq> []" "length (concat ?iov) \<le> accepts_n rs" using p Cons.prems(3) by auto
    from writev_loop_completes [OF Cons.prems(2) this, of t out] obtain rs1 where
      r: "writev_loop rs ?iov t out = Some (Inr (t + length (concat ?iov)), out @ concat ?iov, rs1)" "willing rs1"
        "accepts_n rs \<le> accepts_n rs1 + length (concat ?iov)" by blast
    have "length (concat []) + total_len ps \<le> accepts_n rs1" using r(3) Cons.prems(3) p(2) by simp
    from Cons.IH [OF p(3) r(2) this, of "t + length (concat ?iov)" "out @ concat ?iov"] obtain rs' where
      "write_segs h rs1 ps [] (t + length (concat ?iov)) (out @ concat ?iov) =
         Some (int (t + length (concat ?iov) + total_len ps), out @ concat ?iov @ concat (map (bytes h) ps), rs')" by auto
    then show ?thesis using True r(1) p by (simp add: Let_def add.assoc)
  qed
qed auto

section \<open>What is read\<close>

lemma round_up_bounds:
  assumes "0 < d"
  shows "n \<le> round_up n d" and "round_up n d < n + d"
proof -
  have "n mod d < d" using assms by simp
  then show "n \<le> round_up n d" "round_up n d < n + d" unfolding round_up_def using assms by (auto simp del: mod_less_divisor)
qed

lemma read_fd_ok:
  assumes ok: "list_ok h bl" and rs: "reads_ok rs len" "only_pieces rs" "len \<le> length (stream rs)"
    and small: "blen bl + len < 2 ^ 32" "len \<le> 2 ^ 32 - MSGR_PAGE_SIZE"
  shows "\<exists>bl' h'. read_fd rs len bl h = Some (Inr (int len, bl', h')) \<and> list_ok h' bl' \<and>
    contents h' bl' = contents h bl @ take len (stream rs) \<and> (\<forall>q. ptr_ok h q \<longrightarrow> bytes h' q = bytes h q)"
proof -
  let ?s = "round_up len MSGR_PAGE_SIZE"
  have l: "heap_ok h" "segs_ok h (buffers bl)" "blen bl = total_len (buffers bl)" "tail_ok h bl"
    using ok by (simp_all add: list_ok_def)
  have s: "len \<le> ?s" "?s < 2 ^ 32" "w32 ?s = ?s"
    using round_up_bounds [of MSGR_PAGE_SIZE len] small(2) by (auto simp: MSGR_PAGE_SIZE_def)
  obtain a h1 where new: "new_raw (Raw_posix_aligned MSGR_PAGE_SIZE) (map (junk h) [0..<?s]) h = (a, h1)" by (metis surj_pair)
  note nk = new_raw_keeps [OF new]
  have h1: "heap_ok h1" "raw_len h1 a = ?s" "a < length (raws h1)" using new_raw_ok [OF new l(1)] s(2) by simp_all
  define buf where "buf = take len (stream rs)"
  have lb: "length buf = len" using rs(3) by (simp add: buf_def)
  obtain rs' where rd: "safe_read rs len = Some (int len, buf, rs')"
    using read_loop_completes [of rs len "[]"] rs by (auto simp: safe_read_def buf_def)
  define h2 where "h2 = poke a 0 buf h1"
  have room: "0 + length buf \<le> raw_len h1 a" using h1(2) lb s(1) by simp
  let ?bp = "\<lparr>praw = Some a, poff = 0, plen = len\<rparr>"
  have h2: "heap_ok h2" "\<And>q. ptr_ok h1 q \<Longrightarrow> ptr_ok h2 q" using poke_ok [OF room h1(3)] h1(1) by (simp_all add: h2_def)
  have bp: "(ptr_of_raw a h2)\<lparr>plen := w32 (nat (int len))\<rparr> = ?bp" "ptr_ok h2 ?bp"
    using small(1) h2(2) [of ?bp] h1 s(1) by (simp_all add: ptr_of_raw_def ptr_ok_def)
  have keep: "ptr_ok h2 q \<and> bytes h2 q = bytes h q" if "ptr_ok h q" for q
    using nk [OF that] h2(2) bytes_poke_disjoint [OF room h1(3), of q] by (simp add: h2_def)
  have cb: "bytes h2 ?bp = buf"
    using bytes_poke_inside [of ?bp a h1 0 buf] h1 s(1) lb length_bytes [of h1 ?bp] by (simp add: h2_def ptr_ok_def)
  have run: "read_fd rs len bl h = Some (Inr (int len, append_ptr ?bp bl, h2))"
    using new rd s(3) bp(1) page_align_mask
    by (simp add: read_fd_def create_page_aligned_def create_aligned_def MSGR_PAGE_SIZE_def h2_def Let_def)
  have bl': "buffers (append_ptr ?bp bl) = buffers bl @ (if len = 0 then [] else [?bp])" "blen (append_ptr ?bp bl) = blen bl + len"
    "append_buffer (append_ptr ?bp bl) = append_buffer bl"
    using small(1) by (simp_all add: append_ptr_def push_back_def)
  have segs: "segs_ok h2 (buffers bl)" "concat (map (bytes h2) (buffers bl)) = contents h bl"
    using l(2) keep concat_bytes_cong [of "buffers bl" h2 h] by (auto simp: segs_ok_def contents_def)
  have "praw (append_buffer bl) \<noteq> Some a" using nk(3) l(4) by (simp add: tail_ok_def)
  then have "list_ok h2 (append_ptr ?bp bl)"
    using l h2(1) segs(1) bl' bp(2) small(1) keep by (auto simp: list_ok_def tail_ok_def)
  moreover have "contents h2 (append_ptr ?bp bl) = contents h bl @ buf"
    using segs(2) bl'(1) cb lb by (auto simp: contents_def)
  ultimately show ?thesis using run keep buf_def by blast
qed

section \<open>Properties\<close>

lemma write_stream_contents: "list_ok h bl \<Longrightarrow> write_stream h bl = contents h bl"
proof -
  have "fold (\<lambda>p out. if plen p > 0 then out @ bytes h p else out) ps out = out @ concat (map (bytes h) ps)" for ps out
    by (induction ps arbitrary: out) (simp_all add: bytes_def)
  then show ?thesis by (simp add: write_stream_def contents_def)
qed

text \<open>
  C39. \<^verbatim>\<open>write_fd\<close> gives the bytes of the list to the kernel in order, in batches of vectors, through interruptions and partial writes
  of any size: when the kernel takes something at each call it returns their number with all bytes written, and when it
  returns for another reason what was written is the beginning of the contents, which a result that is no error counts.
\<close>

theorem write_fd_writes_contents:
  assumes "list_ok h bl" and "buffers bl \<noteq> []"
  shows "(willing rs \<and> blen bl \<le> accepts_n rs \<longrightarrow> (\<exists>rs'. write_fd lseek rs h bl = Some (int (blen bl), contents h bl, rs'))) \<and>
    (\<forall>r out rs'. Write_fails 0 \<notin> set rs \<and> write_fd lseek rs h bl = Some (r, out, rs') \<longrightarrow>
       (\<exists>zs. contents h bl = out @ zs) \<and> (r \<ge> 0 \<longrightarrow> r = int (length out)))"
proof (intro conjI impI allI)
  assume "willing rs \<and> blen bl \<le> accepts_n rs"
  then show "\<exists>rs'. write_fd lseek rs h bl = Some (int (blen bl), contents h bl, rs')"
    using write_segs_completes [of h "buffers bl" rs "[]" 0 "[]"] assms
    by (auto simp: write_fd_def bl_can_zero_copy_def contents_def list_ok_def)
next
  fix r out rs' assume "Write_fails 0 \<notin> set rs \<and> write_fd lseek rs h bl = Some (r, out, rs')"
  then obtain ys zs where "out = ys" "contents h bl = ys @ zs" "r \<ge> 0 \<longrightarrow> r = int (length ys)"
    using write_segs_prefix [of h rs "buffers bl" "[]" 0 "[]" r out rs'] assms(2)
    by (auto simp: write_fd_def bl_can_zero_copy_def contents_def)
  then show "\<exists>zs. contents h bl = out @ zs" "r \<ge> 0 \<Longrightarrow> r = int (length out)" by auto
qed

theorem write_fd_writes_contents_witness:
  "\<exists>rs'. write_fd None [Wrote 4, Write_fails EINTR, Wrote 1, Wrote 1, Wrote 1, Wrote 1] sample_heap sample_list = Some (5, [11, 12, 13, 20, 21], rs')"
proof -
  have "willing [Wrote 4, Write_fails EINTR, Wrote 1, Wrote 1, Wrote 1, Wrote 1]"
    "accepts_n [Wrote 4, Write_fails EINTR, Wrote 1, Wrote 1, Wrote 1, Wrote 1] = 5" "buffers sample_list \<noteq> []"
    by (simp_all add: willing_def accepts_n_def sample_list_def)
  then show ?thesis using write_fd_writes_contents [OF sample_list_ok] by (simp add: sample_list_blen sample_list_contents)
qed

text \<open>
  \<^verbatim>\<open>write_file\<close> takes the number of bytes written for an error: when everything works it returns this number instead of 0.  The file
  is complete all the same, and reading it back gives the bytes that were written.
\<close>

theorem file_round_trip:
  assumes "list_ok h bl" and "buffers bl \<noteq> []" and "willing ws" and "blen bl \<le> accepts_n ws"
    and "list_ok h to" and "reads_ok rs (blen bl)" and "only_pieces rs" and "stream rs = the (snd (the (write_file None cls lseek ws h bl old)))"
    and "blen to + blen bl < 2 ^ 32" and "blen bl \<le> 2 ^ 32 - MSGR_PAGE_SIZE"
  shows "write_file None cls lseek ws h bl old = Some (int (blen bl), Some (contents h bl)) \<and>
    (\<exists>to' h'. read_file None (blen bl) rs to h = Some (Inr (0, to', h')) \<and> list_ok h' to' \<and> contents h' to' = contents h to @ contents h bl)"
proof -
  have pos: "blen bl \<noteq> 0" using assms(1,2) by (cases "buffers bl") (auto simp: list_ok_def)
  obtain ws' where "write_fd lseek ws h bl = Some (int (blen bl), contents h bl, ws')"
    using write_segs_completes [of h "buffers bl" ws "[]" 0 "[]"] assms(1-4)
    by (auto simp: write_fd_def bl_can_zero_copy_def contents_def list_ok_def)
  then have w: "write_file None cls lseek ws h bl old = Some (int (blen bl), Some (contents h bl))" using pos by (simp add: write_file_def)
  then have st: "stream rs = contents h bl" "blen bl \<le> length (stream rs)" using assms(8) length_contents [OF assms(1)] by simp_all
  from read_fd_ok [OF assms(5-7) st(2) assms(9,10)] show ?thesis
    using w st length_contents [OF assms(1)] by (auto simp: read_file_def)
qed

theorem file_round_trip_witness:
  "write_file None None None (replicate 5 (Wrote 1)) sample_heap sample_list None = Some (5, Some [11, 12, 13, 20, 21])"
proof -
  let ?rs = "[Got [11, 12, 13, 20, 21]]"
  have w: "willing (replicate 5 (Wrote 1))" "accepts_n (replicate 5 (Wrote 1)) = 5" "buffers sample_list \<noteq> []"
    by (simp_all add: willing_def accepts_n_def sample_list_def)
  have "stream ?rs = the (snd (the (write_file None None None (replicate 5 (Wrote 1)) sample_heap sample_list None)))"
    by (simp add: numeral_eq_Suc write_file_def write_fd_def bl_can_zero_copy_def sample_buffer_defs bytes_def ptr_c_str_def Let_def IOV_MAX_def)
  moreover have "blen sample_list + blen sample_list < 2 ^ 32" "blen sample_list \<le> 2 ^ 32 - MSGR_PAGE_SIZE" "reads_ok ?rs (blen sample_list)"
    by (simp_all add: sample_list_blen MSGR_PAGE_SIZE_def)
  ultimately show ?thesis
    using file_round_trip [OF sample_list_ok w(3,1) _ sample_list_ok, of ?rs] w(2) by (simp add: sample_list_blen sample_list_contents)
qed

end
