(* ===== verification/Encoding_More.thy ===== *)
theory Encoding_More
  imports Encoding_Laws
begin

text \<open>
  The remaining encodings of \<^verbatim>\<open>src/include/msgr/encoding.h\<close>: multimaps and unordered containers, vectors of shared pointers, forms
  without a count, C strings and single windows.  The contract is again \<open>codec\<close>; an unordered container has no order of its own, so
  that its encoder takes the entries in whatever order it walks them and its decoder returns the set or map they form.
\<close>

section \<open>Operations\<close>

text \<open>\<^verbatim>\<open>std::multimap::insert\<close>, at the upper bound of the key.\<close>

fun multimap_insert :: "'k::linorder \<times> 'v \<Rightarrow> ('k \<times> 'v) list \<Rightarrow> ('k \<times> 'v) list" where
  "multimap_insert e [] = [e]"
| "multimap_insert e (f # m) = (if fst e < fst f then e # f # m else f # multimap_insert e m)"

definition encode_multimap :: "endian \<Rightarrow> 'k encoder \<Rightarrow> 'v encoder \<Rightarrow> ('k \<times> 'v) list encoder" where
  "encode_multimap e enck encv m bl h =
     (case encode_u32 e (of_nat (length m)) bl h of
        Inl err \<Rightarrow> Inl err
      | Inr (bl, h) \<Rightarrow> encode_array_nohead (encode_pair enck encv) m bl h)"

definition decode_multimap :: "endian \<Rightarrow> 'k::linorder decoder \<Rightarrow> 'v decoder \<Rightarrow> ('k \<times> 'v) list decoder" where
  "decode_multimap e deck decv h bl p =
     (case decode_u32 e h bl p of
        Inl err \<Rightarrow> Inl err
      | Inr (n, p) \<Rightarrow> decode_insert_loop multimap_insert (decode_pair deck decv) (unat n) [] h bl p)"

definition encode_unordered_map :: "endian \<Rightarrow> 'k encoder \<Rightarrow> 'v encoder \<Rightarrow> ('k \<times> 'v) list encoder" where
  "encode_unordered_map e enck encv m bl h =
     (case encode_u32 e (of_nat (length m)) bl h of
        Inl err \<Rightarrow> Inl err
      | Inr (bl, h) \<Rightarrow> encode_array_nohead (encode_pair enck encv) m bl h)"

definition decode_unordered_map :: "endian \<Rightarrow> 'k decoder \<Rightarrow> 'v decoder \<Rightarrow> ('k \<rightharpoonup> 'v) decoder" where
  "decode_unordered_map e deck decv h bl p =
     (case decode_u32 e h bl p of
        Inl err \<Rightarrow> Inl err
      | Inr (n, p) \<Rightarrow> decode_insert_loop (\<lambda>(k, v) m. m(k \<mapsto> v)) (decode_pair deck decv) (unat n) Map.empty h bl p)"

definition encode_unordered_set :: "endian \<Rightarrow> 'a encoder \<Rightarrow> 'a list encoder" where
  "encode_unordered_set e enc m bl h =
     (case encode_u32 e (of_nat (length m)) bl h of
        Inl err \<Rightarrow> Inl err
      | Inr (bl, h) \<Rightarrow> encode_array_nohead enc m bl h)"

definition decode_unordered_set :: "endian \<Rightarrow> 'a decoder \<Rightarrow> 'a set decoder" where
  "decode_unordered_set e dec h bl p =
     (case decode_u32 e h bl p of
        Inl err \<Rightarrow> Inl err
      | Inr (n, p) \<Rightarrow> decode_insert_loop insert dec (unat n) {} h bl p)"

text \<open>A vector of shared pointers: a null pointer is written as the default value \<open>t\<close> and comes back as a pointer to it.\<close>

fun encode_shared_loop :: "'a encoder \<Rightarrow> 'a \<Rightarrow> 'a option list encoder" where
  "encode_shared_loop enc t [] bl h = Inr (bl, h)"
| "encode_shared_loop enc t (p # ps) bl h =
     (case (case p of Some x \<Rightarrow> enc x bl h | None \<Rightarrow> enc t bl h) of
        Inl err \<Rightarrow> Inl err
      | Inr (bl, h) \<Rightarrow> encode_shared_loop enc t ps bl h)"

definition encode_shared_vector :: "endian \<Rightarrow> 'a encoder \<Rightarrow> 'a \<Rightarrow> 'a option list encoder" where
  "encode_shared_vector e enc t v bl h =
     (case encode_u32 e (of_nat (length v)) bl h of
        Inl err \<Rightarrow> Inl err
      | Inr (bl, h) \<Rightarrow> encode_shared_loop enc t v bl h)"

definition decode_shared_vector :: "endian \<Rightarrow> 'a decoder \<Rightarrow> 'a option list decoder" where
  "decode_shared_vector e dec h bl p = map_sum (\<lambda>e. e) (apfst (map Some)) (decode_vector e dec h bl p)"

text \<open>Forms without a count; the reader knows it from elsewhere.\<close>

definition encode_string_nohead :: "byte list encoder" where
  "encode_string_nohead s = encode_raw s"

definition decode_string_nohead :: "nat \<Rightarrow> byte list decoder" where
  "decode_string_nohead len = copy_string len"

definition encode_map_nohead :: "'k encoder \<Rightarrow> 'v encoder \<Rightarrow> ('k, 'v) omap encoder" where
  "encode_map_nohead enck encv m = encode_array_nohead (encode_pair enck encv) m"

definition decode_map_nohead :: "'k::linorder decoder \<Rightarrow> 'v decoder \<Rightarrow> nat \<Rightarrow> ('k, 'v) omap decoder" where
  "decode_map_nohead deck decv n = decode_insert_loop (\<lambda>(k, v). omap_put k v) (decode_pair deck decv) n []"

text \<open>A C string is the bytes in front of the first zero.\<close>

definition strlen :: "byte list \<Rightarrow> nat" where
  "strlen s = length (takeWhile (\<lambda>c. c \<noteq> 0) s)"

definition encode_c_string :: "endian \<Rightarrow> byte list encoder" where
  "encode_c_string e s bl h =
     (let len = of_nat (strlen s) :: u32
      in case encode_u32 e len bl h of
           Inl err \<Rightarrow> Inl err
         | Inr (bl, h) \<Rightarrow> encode_raw (take (unat len) s) bl h)"

text \<open>
  A single window is appended without copying.  The reader gets a window of the list it reads from when the bytes lie in
  one, and a copy otherwise; with no bytes it keeps what it had (\<open>bp\<close>).
\<close>

definition encode_bufferptr :: "endian \<Rightarrow> bptr encoder" where
  "encode_bufferptr e bp bl h =
     (case encode_u32 e (of_nat (plen bp)) bl h of
        Inl err \<Rightarrow> Inl err
      | Inr (bl, h) \<Rightarrow> Inr (if plen bp \<noteq> 0 then append_ptr bp bl else bl, h))"

definition decode_bufferptr :: "endian \<Rightarrow> bptr \<Rightarrow> heap \<Rightarrow> blist \<Rightarrow> iter \<Rightarrow> buf_error + bptr \<times> iter \<times> heap" where
  "decode_bufferptr e bp h bl p =
     (case decode_u32 e h bl p of
        Inl err \<Rightarrow> Inl err
      | Inr (len, p) \<Rightarrow>
          (case copy_list (unat len) bl_new bl p of
             Inl err \<Rightarrow> Inl err
           | Inr (s, p) \<Rightarrow>
               if len = 0 then Inr (bp, p, h)
               else if length (buffers s) = 1 then Inr (hd (buffers s), p, h)
               else
                 (case bl_c_str s h of
                    Inl err \<Rightarrow> Inl err
                  | Inr (src, s, h) \<Rightarrow> (let (a, h) = copy_raw (take (blen s) src) h in Inr (ptr_of_raw a h, p, h)))))"

section \<open>Containers\<close>

lemma multimap_insert_last: "\<forall>f \<in> set m. fst f \<le> fst e \<Longrightarrow> multimap_insert e m = m @ [e]"
  by (induction m) auto

lemma fold_multimap_insert: "sorted (map fst (m @ m')) \<Longrightarrow> fold multimap_insert m' m = m @ m'"
proof (induction m' arbitrary: m)
  case (Cons e m')
  then have "multimap_insert e m = m @ [e]" by (intro multimap_insert_last) (auto simp: sorted_append)
  then show ?case using Cons.IH [of "m @ [e]"] Cons.prems by simp
qed simp

lemma fold_map_upd: "distinct (map fst m) \<Longrightarrow> fold (\<lambda>(k, v) f. f(k \<mapsto> v)) m g = g ++ map_of m"
proof (induction m arbitrary: g)
  case (Cons e m)
  obtain k v where e: "e = (k, v)" by (cases e)
  have "k \<notin> dom (map_of m)" using Cons.prems e by (simp add: dom_map_of_conv_image_fst)
  then have "g(k \<mapsto> v) ++ map_of m = (g ++ map_of m)(k \<mapsto> v)" by (rule map_add_upd_left)
  moreover have "fold (\<lambda>(k, v) f. f(k \<mapsto> v)) (e # m) g = fold (\<lambda>(k, v) f. f(k \<mapsto> v)) m (g(k \<mapsto> v))"
    unfolding e by (simp only: fold_simps prod.case)
  moreover have "g ++ map_of (e # m) = (g ++ map_of m)(k \<mapsto> v)" unfolding e by (simp only: map_of.simps fst_conv snd_conv map_add_upd)
  ultimately show ?case using Cons.IH [of "g(k \<mapsto> v)"] Cons.prems by (simp only: list.map distinct.simps)
qed simp

lemma fold_insert_set: "fold insert xs A = A \<union> set xs"
  by (induction xs arbitrary: A) auto

context map_codec
begin

lemma multimap_codec:
  "codec (encode_multimap e enck encv) (decode_multimap e' deck decv) (counted (\<lambda>(k, v). repk k @ repv v))
    (\<lambda>m. list_all (\<lambda>(k, v). domk k \<and> domv v) m \<and> length m < 2 ^ 32 \<and> sorted (map fst m))"
proof -
  note c = codec.counted_grows [OF pair_codec] codec.counted_reads [OF pair_codec]
  show ?thesis
    by unfold_locales
      (auto simp: encode_multimap_def decode_multimap_def fold_multimap_insert [of "[]", simplified] intro!: c)
qed

lemma map_nohead_reads:
  assumes "cursor h bl it" and "list_all (\<lambda>(k, v). domk k \<and> domv v) m" and "omap_sorted m"
    and "remains h bl it = concat (map (\<lambda>(k, v). repk k @ repv v) m) @ ys"
  shows "\<exists>it'. decode_map_nohead deck decv (length m) h bl it = Inr (m, it') \<and> cursor h bl it' \<and> remains h bl it' = ys"
  using codec.insert_reads [OF pair_codec assms(1,2,4), of "\<lambda>(k, v). omap_put k v" "[]"] fold_omap_put [of "[]" m] assms(3)
  by (simp add: decode_map_nohead_def)

end

context codec_pair
begin

lemma unordered_map_reads:
  assumes "cursor h bl it" and "list_all (\<lambda>(x, y). doma x \<and> domb y) m" and "length m < 2 ^ 32" and "distinct (map fst m)"
    and "remains h bl it = counted (\<lambda>(x, y). repa x @ repb y) m @ ys"
  shows "\<exists>it'. decode_unordered_map e deca decb h bl it = Inr (map_of m, it') \<and> cursor h bl it' \<and> remains h bl it' = ys"
  using codec.counted_reads [OF pair_codec assms(1-3) fold_map_upd [OF assms(4), of Map.empty] assms(5)]
  by (simp add: decode_unordered_map_def)

end

context codec
begin

lemma unordered_set_reads:
  assumes "cursor h bl it" and "list_all dom vs" and "length vs < 2 ^ 32" and "remains h bl it = counted rep vs @ ys"
  shows "\<exists>it'. decode_unordered_set e dec h bl it = Inr (set vs, it') \<and> cursor h bl it' \<and> remains h bl it' = ys"
  using counted_reads [OF assms(1-3) fold_insert_set [of vs "{}"] assms(4)] by (simp add: decode_unordered_set_def)

lemma shared_loop_eq: "encode_shared_loop enc t ps bl h = encode_array_nohead enc (map (case_option t id) ps) bl h"
  by (induction ps arbitrary: bl h) (simp_all split: option.splits sum.splits prod.splits)

text \<open>Null pointers become pointers to the default value; all others come back as they were.\<close>

lemma shared_vector_round_trip:
  assumes "heap_ok h" and "list_all (case_option True dom) ps" and "dom t" and "length ps < 2 ^ 32"
    and "length (counted rep (map (case_option t id) ps)) \<le> 2 ^ 32 - MSGR_PAGE_SIZE"
  shows "\<exists>bl h'. encode_shared_vector e enc t ps bl_new h = Inr (bl, h') \<and>
    decode_full (decode_shared_vector e' dec) h' bl = Inr (map (\<lambda>p. Some (case p of Some x \<Rightarrow> x | None \<Rightarrow> t)) ps)"
proof -
  let ?vs = "map (case_option t id) ps"
  have "list_all dom ?vs \<and> length ?vs < 2 ^ 32" using assms(2-4) by (auto simp: list_all_iff split: option.splits)
  from codec.full_round_trip [OF vector_codec assms(1) this assms(5)] obtain bl h' where
    r: "encode_vector e enc ?vs bl_new h = Inr (bl, h')" "decode_full (decode_vector e' dec) h' bl = Inr ?vs"
    by blast
  have "encode_shared_vector e enc t ps bl_new h = Inr (bl, h')"
    using r(1) by (auto simp: encode_shared_vector_def encode_vector_def shared_loop_eq split: sum.splits)
  moreover have "decode_full (decode_shared_vector e' dec) h' bl = Inr (map Some ?vs)"
    using r(2) by (auto simp: decode_full_def decode_shared_vector_def split: sum.splits if_splits)
  moreover have "map Some ?vs = map (\<lambda>p. Some (case p of Some x \<Rightarrow> x | None \<Rightarrow> t)) ps" by (auto split: option.splits)
  ultimately show ?thesis by auto
qed

end

interpretation u32_string: map_codec "encode_u32 e" "decode_u32 e'" le_bytes "\<lambda>_. True" "encode_string e" "decode_string e'" string_bytes
  "\<lambda>s. length s < 2 ^ 32" for e e' ..

section \<open>Strings and windows\<close>

lemma string_nohead_reads:
  assumes "cursor h bl it" and "remains h bl it = s @ ys"
  shows "\<exists>it'. decode_string_nohead (length s) h bl it = Inr (s, it') \<and> cursor h bl it' \<and> remains h bl it' = ys"
  using decode_raw_reads [OF assms] copy_string_eq [OF assms(1)] by (simp add: decode_string_nohead_def)

text \<open>A C string reads back as the string in front of its first zero.\<close>

lemma encode_c_string_eq:
  assumes "strlen s < 2 ^ 32"
  shows "encode_c_string e s bl h = encode_string e (takeWhile (\<lambda>c. c \<noteq> 0) s) bl h"
proof -
  define t where "t = takeWhile (\<lambda>c. c \<noteq> 0) s"
  have len: "strlen s = length t" by (simp add: strlen_def t_def)
  have "take (length t) s = t" using takeWhile_eq_take [of "\<lambda>c. c \<noteq> 0" s] by (simp add: t_def)
  moreover have "unat (of_nat (length t) :: u32) = length t" using assms len by (simp add: unat_of_nat)
  ultimately show ?thesis unfolding t_def [symmetric] by (simp add: encode_c_string_def encode_string_def len Let_def split: sum.split)
qed

text \<open>A window is written like the list of it alone.\<close>

definition list_of :: "bptr \<Rightarrow> blist" where
  "list_of bp = bl_new\<lparr>buffers := (if plen bp = 0 then [] else [bp]), blen := plen bp\<rparr>"

lemma list_of_ok:
  assumes "heap_ok h" and "ptr_ok h bp"
  shows "list_ok h (list_of bp)" and "contents h (list_of bp) = bytes h bp" and "blen (list_of bp) = plen bp"
  using assms ptr_ok_bound [OF assms] by (auto simp: list_of_def list_ok_def tail_ok_def bl_new_def null_ptr_def ptr_ok_def contents_def bytes_def)

lemma encode_bufferptr_eq:
  assumes "ready h bl" and "room bl 4" and "plen bp < 2 ^ 32"
  shows "encode_bufferptr e bp bl h = encode_bufferlist e (list_of bp) bl h"
proof -
  obtain bl1 h1 where 1: "encode_u32 e (of_nat (plen bp)) bl h = Inr (bl1, h1)" "grows h bl (le_bytes (of_nat (plen bp) :: u32)) h1 bl1"
    using u32_codec.enc_grows [OF assms(1) TrueI, of "of_nat (plen bp)" e] assms(2) by auto
  have "blen bl1 < 2 ^ 32" using grows_ready [OF 1(2)] by (simp add: ready_def list_ok_def)
  then have "(if plen bp \<noteq> 0 then append_ptr bp bl1 else bl1) = append_list (list_of bp) bl1"
    using assms(3) by (auto simp: append_ptr_def push_back_def append_list_def list_of_def)
  then show ?thesis using 1(1) by (simp add: encode_bufferptr_def encode_bufferlist_def list_of_def)
qed

section \<open>Properties\<close>

text \<open>
  Unordered containers come back as the set or map they stand for, in whatever order they were written, multimaps in their own order
  with the entries of a key as they were inserted.
\<close>

theorem unordered_round_trip:
  assumes "heap_ok h" and "list_all (\<lambda>(k, s). length s < 2 ^ 32) m" and "length m < 2 ^ 32" and "distinct (map fst m)"
    and "length (counted (\<lambda>(k, s). le_bytes (k :: u32) @ string_bytes s) m) \<le> 2 ^ 32 - MSGR_PAGE_SIZE"
  shows "\<exists>bl h'. encode_unordered_map e (encode_u32 e) (encode_string e) m bl_new h = Inr (bl, h') \<and>
    decode_full (decode_unordered_map e' (decode_u32 e') (decode_string e')) h' bl = Inr (map_of m)"
proof -
  have "ready h bl_new" "room bl_new (length (counted (\<lambda>(k, s). le_bytes (k :: u32) @ string_bytes s) m))"
    using bl_new_ok(1) [OF assms(1)] assms(5) by (simp_all add: ready_def room_def bl_new_def)
  from codec.counted_grows [where e = e, OF u32_string.pair_codec [where e = e] this(1) _ this(2)] assms(2)
  obtain bl h' where e: "encode_unordered_map e (encode_u32 e) (encode_string e) m bl_new h = Inr (bl, h')"
    "grows h bl_new (counted (\<lambda>(k, s). le_bytes (k :: u32) @ string_bytes s) m) h' bl"
    unfolding encode_unordered_map_def by auto
  then have ok: "list_ok h' bl" "contents h' bl = counted (\<lambda>(k, s). le_bytes (k :: u32) @ string_bytes s) m @ []"
    by (simp_all add: grows_def ready_def contents_def bl_new_def)
  then obtain it where "decode_unordered_map e' (decode_u32 e') (decode_string e') h' bl iter_begin = Inr (map_of m, it)"
    "cursor h' bl it" "remains h' bl it = []"
    using u32_string.unordered_map_reads [OF cursor_begin(1) [OF ok(1)] _ assms(3,4)] assms(2) cursor_begin(2) by fastforce
  then show ?thesis using e(1) cursor_end by (auto simp: decode_full_def)
qed

theorem unordered_round_trip_witness:
  "\<exists>bl h'. encode_unordered_map Little_endian (encode_u32 Little_endian) (encode_string Little_endian) [(7, [1]), (3, [])] bl_new sample_heap = Inr (bl, h') \<and>
    decode_full (decode_unordered_map Big_endian (decode_u32 Big_endian) (decode_string Big_endian)) h' bl = Inr (map_of [(7, [1]), (3, [])])"
  using unordered_round_trip [of sample_heap "[(7, [1]), (3, [])]" Little_endian Big_endian] sample_list_ok
  by (simp add: list_ok_def counted_def string_bytes_def MSGR_PAGE_SIZE_def)

text \<open>A single window comes back with the same bytes, as a window of what was received or as a copy.\<close>

theorem bufferptr_round_trip:
  assumes "heap_ok h" and "ptr_ok h bp" and "plen bp + 4 < 2 ^ 32"
  shows "\<exists>bl h' q p h''. encode_bufferptr e bp bl_new h = Inr (bl, h') \<and> decode_bufferptr e' null_ptr h' bl iter_begin = Inr (q, p, h'') \<and>
    bytes h'' q = bytes h bp \<and> iter_end (buffers bl) p"
proof -
  obtain bl h' t p where r: "encode_bufferlist e (list_of bp) bl_new h = Inr (bl, h')" "decode_bufferlist e' bl_new h' bl iter_begin = Inr (t, p)"
    "list_ok h' t" "contents h' t = bytes h bp" "iter_end (buffers bl) p"
    using bufferlist_round_trip [OF list_of_ok(1) [OF assms(1,2)]] list_of_ok [OF assms(1,2)] assms(3) by (metis (no_types, lifting))
  have "bl_clear bl_new = bl_new" by (simp add: bl_clear_def bl_new_def)
  then obtain len p1 where d: "decode_u32 e' h' bl iter_begin = Inr (len, p1)" "copy_list (unat len) bl_new bl p1 = Inr (t, p)"
    using r(2) by (auto simp: decode_bufferlist_def split: sum.splits)
  have "ready h bl_new" "room bl_new 4" using bl_new_ok(1) [OF assms(1)] by (simp_all add: ready_def room_def bl_new_def MSGR_PAGE_SIZE_def)
  then have enc: "encode_bufferptr e bp bl_new h = Inr (bl, h')" using encode_bufferptr_eq assms(3) r(1) by simp
  consider "len = 0" | "len \<noteq> 0" "length (buffers t) = 1" | "len \<noteq> 0" "length (buffers t) \<noteq> 1" by blast
  then show ?thesis
  proof cases
    case 1
    then have "iter_end (buffers bl) p1 \<longrightarrow> t = bl_new" "t = bl_new" using d(2)
      by (auto simp: copy_list_def copy_list_loop.simps split: sum.splits if_splits)
    then have "bytes h bp = []" using r(4) by (simp add: contents_def bl_new_def)
    then show ?thesis using enc d 1 r(5) by (auto simp: decode_bufferptr_def bytes_def null_ptr_def ptr_c_str_def)
  next
    case 2
    then obtain q where q: "buffers t = [q]" by (auto simp: length_Suc_conv)
    then show ?thesis using enc d 2 r(4,5) by (auto simp: decode_bufferptr_def contents_def)
  next
    case 3
    obtain src t' h1 where c: "bl_c_str t h' = Inr (src, t', h1)" "take (blen t') src = contents h' t" using bl_c_str_ok [OF r(3)] by blast
    obtain a h2 where n: "copy_raw (take (blen t') src) h1 = (a, h2)" by (metis surj_pair)
    have "bytes h2 (ptr_of_raw a h2) = take (blen t') src"
      using new_raw_facts [OF n [unfolded copy_raw_def]] by (simp add: bytes_def ptr_of_raw_def ptr_c_str_def raw_len_def min_def)
    then show ?thesis using enc d 3 r(4,5) c n by (auto simp: decode_bufferptr_def)
  qed
qed

theorem bufferptr_round_trip_witness:
  "\<exists>bl h' q p h''. encode_bufferptr Little_endian \<lparr>praw = Some 0, poff = 1, plen = 3\<rparr> bl_new sample_heap = Inr (bl, h') \<and>
     decode_bufferptr Big_endian null_ptr h' bl iter_begin = Inr (q, p, h'') \<and> bytes h'' q = [11, 12, 13]"
proof -
  let ?bp = "\<lparr>praw = Some 0, poff = 1, plen = 3\<rparr>"
  have "heap_ok sample_heap" "ptr_ok sample_heap ?bp" "bytes sample_heap ?bp = [11, 12, 13]"
    by (simp_all add: sample_heap_def heap_ok_def ptr_ok_def raw_len_def bytes_def ptr_c_str_def)
  with bufferptr_round_trip [of sample_heap ?bp Little_endian Big_endian] show ?thesis by (simp add: bptr.simps) blast
qed

end
