(* ===== verification/Hashing.thy ===== *)
theory Hashing
  imports Entity
begin

text \<open>
  The hash functions of the unordered containers: Robert Jenkins' mixing of one word (\<^verbatim>\<open>src/include/msgr/hash.h\<close>), the hash of a
  block of memory (\<^verbatim>\<open>src/include/msgr/blobhash.h\<close>), and the hashes of names, addresses and instances
  (\<^verbatim>\<open>src/include/msgr/msg_types.h\<close>).  The two mixing functions are permutations: all collisions come from what is mixed.
\<close>

section \<open>Definitions\<close>

definition rjhash64 :: "u64 \<Rightarrow> u64" where
  "rjhash64 key =
     (let key = NOT key + push_bit 21 key;
          key = key XOR drop_bit 24 key;
          key = (key + push_bit 3 key) + push_bit 8 key;
          key = key XOR drop_bit 14 key;
          key = (key + push_bit 2 key) + push_bit 4 key;
          key = key XOR drop_bit 28 key
      in key + push_bit 31 key)"

definition rjhash32 :: "u32 \<Rightarrow> u32" where
  "rjhash32 a =
     (let a = (a + 0x7ed55d16) + push_bit 12 a;
          a = (a XOR 0xc761c23c) XOR drop_bit 19 a;
          a = (a + 0x165667b1) + push_bit 5 a;
          a = (a + 0xd3a2646c) XOR push_bit 9 a;
          a = (a + 0xfd7046c5) + push_bit 3 a
      in (a XOR 0xb55a4f09) XOR drop_bit 16 a)"

text \<open>The bytes behind the last whole word are \<^verbatim>\<open>char\<close>s, which are signed.\<close>

fun blob_tail :: "nat \<Rightarrow> u32 \<Rightarrow> byte list \<Rightarrow> u32" where
  "blob_tail sh acc [] = acc"
| "blob_tail sh acc (b # p) = blob_tail (sh + 8) (acc XOR push_bit sh (scast b)) p"

function blob_acc :: "endian \<Rightarrow> u32 \<Rightarrow> byte list \<Rightarrow> u32" where
  "blob_acc e acc p = (if 4 \<le> length p then blob_acc e (acc XOR mem_word e (take 4 p)) (drop 4 p) else blob_tail 0 acc p)"
  by auto
termination by (relation "measure (\<lambda>(e, acc, p). length p)") auto

declare blob_acc.simps [simp del]

definition blobhash :: "endian \<Rightarrow> byte list \<Rightarrow> u32" where
  "blobhash e p = rjhash32 (blob_acc e 0 p)"

definition hash_addr :: "endian \<Rightarrow> entity_addr \<Rightarrow> u64" where
  "hash_addr e a = ucast (blobhash e (addr_mem e a))"

definition hash_name :: "entity_name \<Rightarrow> u64" where
  "hash_name m = ucast (rjhash32 (ucast (ucast (name_type m) XOR name_num m)))"

definition hash_inst :: "endian \<Rightarrow> entity_inst \<Rightarrow> u64" where
  "hash_inst e x = hash_name (inst_name x) XOR hash_addr e (inst_addr x)"

section \<open>Steps that lose nothing\<close>

lemma inj_xor_shift_down:
  assumes "0 < k"
  shows "inj (\<lambda>x :: 'a::len word. x XOR drop_bit k x)"
proof (rule injI)
  fix x y :: "'a word"
  assume eq: "x XOR drop_bit k x = y XOR drop_bit k y"
  have "bit x n = bit y n" for n
  proof (induction "LENGTH('a) - n" arbitrary: n rule: less_induct)
    case less
    show ?case
    proof (cases "n < LENGTH('a)")
      case True
      then have "bit x (k + n) = bit y (k + n)" using less assms by simp
      moreover have "bit (x XOR drop_bit k x) n = bit (y XOR drop_bit k y) n" by (simp only: eq)
      ultimately show ?thesis by (auto simp: bit_simps ac_simps)
    qed (auto dest: bit_imp_le_length)
  qed
  then show "x = y" by (simp add: bit_word_eqI)
qed

lemma inj_times:
  fixes c d :: "'a::len word"
  assumes "c * d = 1"
  shows "inj (\<lambda>x. x * c + b)"
proof (rule injI)
  fix x y :: "'a word"
  assume "x * c + b = y * c + b"
  then have "x * c * d = y * c * d" by simp
  then show "x = y" by (simp only: mult.assoc assms mult_1_right)
qed

lemma inj_xor_const: "inj (\<lambda>x :: 'a::len word. x XOR c)"
  by (rule injI) (simp add: xor_cancel_word)

lemma take_bit_add_cong:
  fixes u v w :: "'a::len word"
  assumes "take_bit m u = take_bit m w"
  shows "take_bit m (u + v) = take_bit m (w + v)"
proof -
  let ?k = "min m LENGTH('a)"
  have sum: "uint (take_bit m (a + v)) = take_bit ?k (take_bit ?k (uint a) + take_bit ?k (uint v))" for a :: "'a word"
    by (simp add: unsigned_take_bit_eq uint_word_arith_bintrs(1) take_bit_add min.commute)
  have "take_bit m (uint u) = take_bit m (uint w)" using arg_cong [OF assms, of uint] by (simp add: unsigned_take_bit_eq)
  from arg_cong [OF this, of "take_bit LENGTH('a)"] have "take_bit ?k (uint u) = take_bit ?k (uint w)" by (simp add: min.commute)
  then have "uint (take_bit m (u + v)) = uint (take_bit m (w + v))" by (simp only: sum)
  then show ?thesis by (simp only: word_uint_eq_iff)
qed

lemma take_bit_Suc_cong:
  fixes u w :: "'a::len word"
  assumes "take_bit n u = take_bit n w" and "bit u n = bit w n"
  shows "take_bit (Suc n) u = take_bit (Suc n) w"
proof (rule bit_word_eqI)
  fix m
  have "m < n \<Longrightarrow> bit u m = bit w m" using arg_cong [OF assms(1), of "\<lambda>w. bit w m"] by (simp add: bit_take_bit_iff)
  then show "bit (take_bit (Suc n) u) m = bit (take_bit (Suc n) w) m" using assms(2) by (auto simp: bit_take_bit_iff less_Suc_eq)
qed

lemma inj_add_xor_shift_up:
  assumes "0 < k"
  shows "inj (\<lambda>x :: 'a::len word. (x + c) XOR push_bit k x)"
proof (rule injI)
  fix x y :: "'a word"
  assume eq: "(x + c) XOR push_bit k x = (y + c) XOR push_bit k y"
  have "take_bit n x = take_bit n y" for n
  proof (induction n)
    case (Suc n)
    have low: "bit x m = bit y m" if "m < n" for m using arg_cong [OF Suc, of "\<lambda>w. bit w m"] that by (simp add: bit_take_bit_iff)
    have "bit ((x + c) XOR push_bit k x) n = bit ((y + c) XOR push_bit k y) n" by (simp only: eq)
    then have top: "bit (x + c) n = bit (y + c) n" using low [of "n - k"] assms by (auto simp: bit_simps dest: bit_imp_le_length)
    have "take_bit (Suc n) (x + c) = take_bit (Suc n) (y + c)" using take_bit_Suc_cong [OF take_bit_add_cong [OF Suc] top] .
    then have "take_bit (Suc n) ((x + c) + (- c)) = take_bit (Suc n) ((y + c) + (- c))" by (rule take_bit_add_cong)
    then show ?case by simp
  qed simp
  from this [of "LENGTH('a)"] show "x = y" by simp
qed

lemma inj_comp: "inj f \<Longrightarrow> inj g \<Longrightarrow> inj (\<lambda>x. f (g x))"
  by (auto simp: inj_def)

text \<open>The sums of shifted copies are products, as the comments of the code say.\<close>

lemma rjhash64_products:
  fixes key :: u64
  shows "NOT key + push_bit 21 key = push_bit 21 key - key - 1" "(key + push_bit 3 key) + push_bit 8 key = key * 265"
    "(key + push_bit 2 key) + push_bit 4 key = key * 21" "key + push_bit 31 key = key * 0x80000001"
  by (simp_all add: not_eq_complement push_bit_eq_mult algebra_simps)

lemma inj_rjhash64: "inj rjhash64"
proof -
  have inv: "(0x1FFFFF :: u64) * 9223367638806167551 = 1" "(265 :: u64) * 15244667743933553977 = 1" "(21 :: u64) * 14933078535860113213 = 1"
    "(0x80000001 :: u64) * 4611686016279904257 = 1" by code_simp+
  have "NOT key + push_bit 21 key = key * 0x1FFFFF + (-1)" for key :: u64 by (simp add: not_eq_complement push_bit_eq_mult algebra_simps)
  then have s1: "inj (\<lambda>key :: u64. NOT key + push_bit 21 key)" using inj_times [OF inv(1), of "-1"] by simp
  have s3: "inj (\<lambda>key :: u64. (key + push_bit 3 key) + push_bit 8 key)"
    using inj_times [OF inv(2), of 0] by (simp add: rjhash64_products)
  have s5: "inj (\<lambda>key :: u64. (key + push_bit 2 key) + push_bit 4 key)"
    using inj_times [OF inv(3), of 0] by (simp add: rjhash64_products)
  have s7: "inj (\<lambda>key :: u64. key + push_bit 31 key)"
    using inj_times [OF inv(4), of 0] by (simp add: rjhash64_products)
  have x: "inj (\<lambda>x :: u64. x XOR drop_bit 24 x)" "inj (\<lambda>x :: u64. x XOR drop_bit 14 x)" "inj (\<lambda>x :: u64. x XOR drop_bit 28 x)"
    by (rule inj_xor_shift_down, simp)+
  have "inj (\<lambda>key. rjhash64 key)" unfolding rjhash64_def Let_def
    by (rule inj_comp [OF s7 inj_comp [OF x(3) inj_comp [OF s5 inj_comp [OF x(2) inj_comp [OF s3 inj_comp [OF x(1) s1]]]]]])
  then show ?thesis by simp
qed

lemma inj_rjhash32: "inj rjhash32"
proof -
  have inv: "(4097 :: u32) * 16773121 = 1" "(33 :: u32) * 1041204193 = 1" "(9 :: u32) * 954437177 = 1" by code_simp+
  have s1: "inj (\<lambda>a :: u32. (a + 0x7ed55d16) + push_bit 12 a)"
    using inj_times [OF inv(1), of "0x7ed55d16"] by (simp add: push_bit_eq_mult algebra_simps)
  have s3: "inj (\<lambda>a :: u32. (a + 0x165667b1) + push_bit 5 a)"
    using inj_times [OF inv(2), of "0x165667b1"] by (simp add: push_bit_eq_mult algebra_simps)
  have s5: "inj (\<lambda>a :: u32. (a + 0xfd7046c5) + push_bit 3 a)"
    using inj_times [OF inv(3), of "0xfd7046c5"] by (simp add: push_bit_eq_mult algebra_simps)
  have s4: "inj (\<lambda>a :: u32. (a + 0xd3a2646c) XOR push_bit 9 a)" by (rule inj_add_xor_shift_up) simp
  have x: "inj (\<lambda>a :: u32. (a XOR 0xc761c23c) XOR drop_bit 19 a)" "inj (\<lambda>a :: u32. (a XOR 0xb55a4f09) XOR drop_bit 16 a)"
    using inj_comp [OF inj_xor_const inj_xor_shift_down, of 19 "0xc761c23c :: u32"]
      inj_comp [OF inj_xor_const inj_xor_shift_down, of 16 "0xb55a4f09 :: u32"] by (simp_all add: ac_simps)
  have "inj (\<lambda>a. rjhash32 a)" unfolding rjhash32_def Let_def
    by (rule inj_comp [OF x(2) inj_comp [OF s5 inj_comp [OF s4 inj_comp [OF s3 inj_comp [OF x(1) s1]]]]])
  then show ?thesis by simp
qed

section \<open>Hashes of addresses\<close>

lemma blob_tail_acc: "blob_tail sh acc p = acc XOR blob_tail sh 0 p"
proof (induction p arbitrary: sh acc)
  case (Cons b p)
  show ?case
    using Cons [of "sh + 8" "acc XOR push_bit sh (scast b)"] Cons [of "sh + 8" "push_bit sh (scast b)"] by (simp add: xor.assoc)
qed simp

lemma blob_acc_acc: "blob_acc e acc p = acc XOR blob_acc e 0 p"
proof (induction "length p" arbitrary: acc p rule: less_induct)
  case less
  show ?case
  proof (cases "4 \<le> length p")
    case True
    then have "length (drop 4 p) < length p" by simp
    note ih = less [OF this]
    show ?thesis
      using True ih [of "acc XOR mem_word e (take 4 p)"] ih [of "mem_word e (take 4 p)"] by (simp add: blob_acc.simps [of e _ p] xor.assoc)
  next
    case False
    then show ?thesis using blob_tail_acc [of 0 acc p] by (simp add: blob_acc.simps [of e _ p])
  qed
qed

lemma blob_acc_word: "blob_acc e acc (mem_bytes e (w :: u32) @ p) = blob_acc e (acc XOR w) p"
  by (subst blob_acc.simps) (simp add: mem_bytes_def mem_word_def of_le_bytes_le_bytes split: endian.splits)

lemma blob_acc_addr:
  "blob_acc e 0 (addr_mem e a) = addr_type a XOR (addr_nonce a XOR blob_acc e 0 (ss_mem e (addr_ss a)))"
  by (simp add: addr_mem_def blob_acc_word blob_acc_acc [of e "_ XOR _"] xor.assoc)

text \<open>
  C37. \<^verbatim>\<open>rjhash32\<close> and \<^verbatim>\<open>rjhash64\<close> are permutations of the words; so the hash of an address is determined by the exclusive or of
  its words and by nothing less, and two addresses that differ in the nonce alone, as those before and after a rebind to
  the same host and port do, never share a hash.
\<close>

theorem hashes_are_permutations:
  "bij rjhash32 \<and> bij rjhash64 \<and> (hash_addr e a = hash_addr e b \<longleftrightarrow> blob_acc e 0 (addr_mem e a) = blob_acc e 0 (addr_mem e b)) \<and>
   (hash_addr e (a\<lparr>addr_nonce := n\<rparr>) = hash_addr e a \<longleftrightarrow> n = addr_nonce a)"
proof -
  have inj32: "rjhash32 x = rjhash32 y \<longleftrightarrow> x = y" for x y using inj_rjhash32 by (simp add: inj_eq)
  have up: "(ucast (x :: u32) :: u64) = ucast y \<longleftrightarrow> x = y" for x y
  proof
    have down: "(ucast (ucast z :: u64) :: u32) = z" for z :: u32 by (rule bit_word_eqI) (simp add: bit_simps)
    assume "(ucast x :: u64) = ucast y"
    then have "(ucast (ucast x :: u64) :: u32) = ucast (ucast y :: u64)" by simp
    then show "x = y" by (simp only: down)
  qed simp
  have h: "hash_addr e x = hash_addr e y \<longleftrightarrow> blob_acc e 0 (addr_mem e x) = blob_acc e 0 (addr_mem e y)" for x y
    by (simp add: hash_addr_def blobhash_def inj32 up)
  have "hash_addr e (a\<lparr>addr_nonce := n\<rparr>) = hash_addr e a \<longleftrightarrow> n = addr_nonce a"
    by (simp add: h blob_acc_addr) (metis xor_cancel_word xor.commute)
  then show ?thesis using h inj_rjhash32 inj_rjhash64 by (simp add: bij_def finite_UNIV_inj_surj)
qed

end
