(* ===== verification/Ref_Counting.thy ===== *)
theory Ref_Counting
  imports Main
begin

text \<open>
  Reference counting: \<^verbatim>\<open>RefCountedObject\<close> (\<^verbatim>\<open>src/include/msgr/RefCountedObj.h\<close>), the smart pointer \<^verbatim>\<open>intrusive_ptr\<close>
  (\<^verbatim>\<open>src/include/msgr/intrusive_ptr.h\<close>) and the private object of a \<^verbatim>\<open>Connection\<close> (\<^verbatim>\<open>src/include/msgr/Connection.h\<close>).  An object is a
  number other than 0, the null pointer; a variable is the address of an \<^verbatim>\<open>intrusive_ptr\<close>.  \<open>None\<close> is the use of an object that does
  not exist (any more).
\<close>

section \<open>State\<close>

text \<open>
  \<open>nref_of\<close> is the count of each object that exists, \<open>m_ptr\<close> what each constructed variable points to, and \<open>destroyed\<close> lists the
  objects deleted.  \<open>owned\<close> says how many references the program holds in plain pointers; the code does not keep it.
\<close>

record rc_heap =
  nref_of :: "nat \<rightharpoonup> int"
  m_ptr :: "nat \<rightharpoonup> nat"
  owned :: "nat \<Rightarrow> nat"
  destroyed :: "nat list"

section \<open>Objects\<close>

definition new_object :: "nat \<Rightarrow> nat \<Rightarrow> rc_heap \<Rightarrow> rc_heap" where
  "new_object q n H = H\<lparr>nref_of := (nref_of H)(q \<mapsto> int n), owned := (owned H)(q := n)\<rparr>"

definition obj_get :: "nat \<Rightarrow> rc_heap \<Rightarrow> rc_heap option" where
  "obj_get q H =
     (case nref_of H q of
        None \<Rightarrow> None
      | Some v \<Rightarrow> Some (H\<lparr>nref_of := (nref_of H)(q \<mapsto> v + 1), owned := (owned H)(q := owned H q + 1)\<rparr>))"

definition obj_put :: "nat \<Rightarrow> rc_heap \<Rightarrow> rc_heap option" where
  "obj_put q H =
     (case nref_of H q of
        None \<Rightarrow> None
      | Some v \<Rightarrow>
          (let H = H\<lparr>owned := (owned H)(q := owned H q - 1)\<rparr>
           in Some (if v - 1 = 0 then H\<lparr>nref_of := (nref_of H)(q := None), destroyed := destroyed H @ [q]\<rparr>
                    else H\<lparr>nref_of := (nref_of H)(q \<mapsto> v - 1)\<rparr>)))"

section \<open>Pointers\<close>

text \<open>A variable takes over a reference held in a plain pointer.\<close>

definition store_ptr :: "nat \<Rightarrow> nat \<Rightarrow> rc_heap \<Rightarrow> rc_heap" where
  "store_ptr x q H = H\<lparr>m_ptr := (m_ptr H)(x \<mapsto> q), owned := (if q = 0 then owned H else (owned H)(q := owned H q - 1))\<rparr>"

definition pointee :: "nat \<Rightarrow> rc_heap \<Rightarrow> nat" where
  "pointee x H = (case m_ptr H x of Some q \<Rightarrow> q | None \<Rightarrow> 0)"

text \<open>The constructors.\<close>

definition ptr_null :: "nat \<Rightarrow> rc_heap \<Rightarrow> rc_heap" where
  "ptr_null x H = store_ptr x 0 H"

definition ptr_raw :: "nat \<Rightarrow> nat \<Rightarrow> bool \<Rightarrow> rc_heap \<Rightarrow> rc_heap option" where
  "ptr_raw x q add_ref H =
     (if q \<noteq> 0 \<and> add_ref then map_option (store_ptr x q) (obj_get q H) else Some (store_ptr x q H))"

definition ptr_copy :: "nat \<Rightarrow> nat \<Rightarrow> rc_heap \<Rightarrow> rc_heap option" where
  "ptr_copy x y H = ptr_raw x (pointee y H) True H"

definition detach_to :: "nat option \<Rightarrow> nat \<Rightarrow> rc_heap \<Rightarrow> rc_heap" where
  "detach_to v x H =
     (let q = pointee x H
      in H\<lparr>m_ptr := (m_ptr H)(x := v), owned := (if q = 0 then owned H else (owned H)(q := owned H q + 1))\<rparr>)"

definition ptr_detach :: "nat \<Rightarrow> rc_heap \<Rightarrow> nat \<times> rc_heap" where
  "ptr_detach x H = (pointee x H, detach_to (Some 0) x H)"

definition put_unless_null :: "nat \<Rightarrow> rc_heap \<Rightarrow> rc_heap option" where
  "put_unless_null q H = (if q \<noteq> 0 then obj_put q H else Some H)"

definition ptr_destroy :: "nat \<Rightarrow> rc_heap \<Rightarrow> rc_heap option" where
  "ptr_destroy x H = put_unless_null (pointee x H) (detach_to None x H)"

definition ptr_reset :: "nat \<Rightarrow> rc_heap \<Rightarrow> rc_heap option" where
  "ptr_reset x H = put_unless_null (pointee x H) (detach_to (Some 0) x H)"

definition ptr_swap :: "nat \<Rightarrow> nat \<Rightarrow> rc_heap \<Rightarrow> rc_heap" where
  "ptr_swap x y H = H\<lparr>m_ptr := (m_ptr H)(x := m_ptr H y, y := m_ptr H x)\<rparr>"

text \<open>The assignments and \<^verbatim>\<open>reset\<close>: a temporary \<open>t\<close> is constructed, swapped and destroyed.\<close>

definition ptr_assign :: "nat \<Rightarrow> nat \<Rightarrow> nat \<Rightarrow> rc_heap \<Rightarrow> rc_heap option" where
  "ptr_assign t x y H = Option.bind (ptr_copy t y H) (\<lambda>H. ptr_destroy t (ptr_swap t x H))"

definition ptr_reset_raw :: "nat \<Rightarrow> nat \<Rightarrow> nat \<Rightarrow> bool \<Rightarrow> rc_heap \<Rightarrow> rc_heap option" where
  "ptr_reset_raw t x q add_ref H = Option.bind (ptr_raw t q add_ref H) (\<lambda>H. ptr_destroy t (ptr_swap t x H))"

text \<open>The private object of a connection is held like by a pointer that takes over the caller's reference.\<close>

definition set_priv :: "nat \<Rightarrow> nat \<Rightarrow> rc_heap \<Rightarrow> rc_heap option" where
  "set_priv c q H = (let old = pointee c H in put_unless_null old (store_ptr c q (detach_to (Some 0) c H)))"

definition get_priv :: "nat \<Rightarrow> rc_heap \<Rightarrow> (nat \<times> rc_heap) option" where
  "get_priv c H = (let q = pointee c H in if q \<noteq> 0 then map_option (Pair q) (obj_get q H) else Some (0, H))"

section \<open>The invariant\<close>

definition refs_to :: "nat \<Rightarrow> rc_heap \<Rightarrow> nat" where
  "refs_to q H = card {x. m_ptr H x = Some q}"

definition rc_ok :: "rc_heap \<Rightarrow> bool" where
  "rc_ok H \<longleftrightarrow> finite (dom (m_ptr H)) \<and> nref_of H 0 = None \<and> owned H 0 = 0 \<and>
     (\<forall>q. nref_of H q = None \<longrightarrow> owned H q = 0 \<and> (q \<noteq> 0 \<longrightarrow> refs_to q H = 0)) \<and>
     (\<forall>q v. nref_of H q = Some v \<longrightarrow> v = int (refs_to q H + owned H q))"

lemma finite_refs: "finite (dom (m_ptr H)) \<Longrightarrow> finite {x. m_ptr H x = Some q}"
  by (rule finite_subset [of _ "dom (m_ptr H)"]) auto

lemma rc_ok_count: "rc_ok H \<Longrightarrow> nref_of H q = Some v \<Longrightarrow> v = int (refs_to q H + owned H q)"
  by (simp add: rc_ok_def)

lemma rc_ok_missing: "rc_ok H \<Longrightarrow> nref_of H q = None \<Longrightarrow> owned H q = 0 \<and> (q \<noteq> 0 \<longrightarrow> refs_to q H = 0)"
  by (simp add: rc_ok_def)

lemma refs_to_cong: "m_ptr H' = m_ptr H \<Longrightarrow> refs_to q H' = refs_to q H"
  by (simp add: refs_to_def)

text \<open>Changing one variable moves one reference.\<close>

lemma refs_to_update:
  assumes "finite (dom (m_ptr H))"
  shows "int (refs_to q (H\<lparr>m_ptr := (m_ptr H)(x := v), owned := w\<rparr>)) =
    int (refs_to q H) - (if m_ptr H x = Some q then 1 else 0) + (if v = Some q then 1 else 0)"
proof -
  let ?S = "{y. m_ptr H y = Some q}"
  have "{y. ((m_ptr H)(x := v)) y = Some q} = (if v = Some q then insert x (?S - {x}) else ?S - {x})" by auto
  then have "refs_to q (H\<lparr>m_ptr := (m_ptr H)(x := v), owned := w\<rparr>) = card (?S - {x}) + (if v = Some q then 1 else 0)"
    using finite_refs [OF assms, of q] card_insert_disjoint [of "?S - {x}" x] by (simp add: refs_to_def del: insert_Diff_single)
  moreover have "0 < card ?S" if "m_ptr H x = Some q" using that finite_refs [OF assms, of q] by (auto simp: card_gt_0_iff)
  then have "int (card (?S - {x})) = int (card ?S) - (if m_ptr H x = Some q then 1 else 0)"
    using finite_refs [OF assms, of q] by (auto simp: card_Diff_singleton_if)
  ultimately show ?thesis by (simp add: refs_to_def)
qed

lemma new_object_ok:
  assumes "rc_ok H" and "nref_of H q = None" and "q \<noteq> 0"
  shows "rc_ok (new_object q n H)"
proof -
  have r: "refs_to p (new_object q n H) = refs_to p H" for p by (rule refs_to_cong) (simp add: new_object_def)
  show ?thesis using assms rc_ok_missing [OF assms(1,2)] by (auto simp: rc_ok_def r) (auto simp: new_object_def split: if_splits)
qed

lemma obj_get_ok:
  assumes "rc_ok H" and "nref_of H q = Some v"
  shows "\<exists>H'. obj_get q H = Some H' \<and> rc_ok H' \<and> owned H' q = owned H q + 1 \<and> m_ptr H' = m_ptr H \<and> nref_of H' q = Some (v + 1) \<and>
    destroyed H' = destroyed H \<and> (\<forall>p. p \<noteq> q \<longrightarrow> owned H' p = owned H p)"
proof -
  let ?H = "H\<lparr>nref_of := (nref_of H)(q \<mapsto> v + 1), owned := (owned H)(q := owned H q + 1)\<rparr>"
  have r: "refs_to p ?H = refs_to p H" for p by (rule refs_to_cong) simp
  have "q \<noteq> 0" using assms by (cases "q = 0") (auto simp: rc_ok_def)
  then have "rc_ok ?H" using assms unfolding rc_ok_def r by (auto split: if_splits)
  then show ?thesis using assms(2) by (simp add: obj_get_def)
qed

lemma obj_put_ok:
  assumes "rc_ok H" and "0 < owned H q"
  shows "\<exists>H'. obj_put q H = Some H' \<and> rc_ok H' \<and> m_ptr H' = m_ptr H \<and> owned H' = (owned H)(q := owned H q - 1) \<and>
    (nref_of H' q = None \<longleftrightarrow> refs_to q H + owned H q = 1) \<and> (\<forall>p. p \<noteq> q \<longrightarrow> nref_of H' p = nref_of H p) \<and>
    destroyed H' = destroyed H @ (if refs_to q H + owned H q = 1 then [q] else [])"
proof -
  obtain v where v: "nref_of H q = Some v" using rc_ok_missing [OF assms(1), of q] assms(2) by (cases "nref_of H q") auto
  have n: "v = int (refs_to q H + owned H q)" by (rule rc_ok_count [OF assms(1) v])
  have q: "q \<noteq> 0" using assms v by (cases "q = 0") (auto simp: rc_ok_def)
  define H' where "H' = the (obj_put q H)"
  have H': "obj_put q H = Some H'" and m: "m_ptr H' = m_ptr H" and o: "owned H' = (owned H)(q := owned H q - 1)"
    and nr: "nref_of H' = (if v = 1 then (nref_of H)(q := None) else (nref_of H)(q \<mapsto> v - 1))"
    and d: "destroyed H' = destroyed H @ (if v = 1 then [q] else [])"
    using v by (simp_all add: obj_put_def Let_def H'_def)
  have r: "refs_to p H' = refs_to p H" for p by (rule refs_to_cong [OF m])
  have "rc_ok H'" using assms n q unfolding rc_ok_def r m o nr by (auto split: if_splits simp: of_nat_diff)
  then show ?thesis using H' m o nr d n by auto
qed

text \<open>A pointer takes a reference over, or gives it up.\<close>

lemma rc_ok_exists:
  assumes "rc_ok H" and "m_ptr H x = Some q" and "q \<noteq> 0"
  shows "\<exists>v. nref_of H q = Some v"
proof (rule ccontr)
  assume "\<nexists>v. nref_of H q = Some v"
  then have "refs_to q H = 0" using rc_ok_missing [OF assms(1), of q] assms(3) by auto
  moreover have "finite {y. m_ptr H y = Some q}" by (rule finite_refs) (use assms(1) in \<open>simp add: rc_ok_def\<close>)
  ultimately show False using assms(2) by (auto simp: refs_to_def)
qed

lemma store_ptr_ok:
  assumes ok: "rc_ok H" and x: "m_ptr H x = None \<or> m_ptr H x = Some 0" and q: "q = 0 \<or> 0 < owned H q"
  shows "rc_ok (store_ptr x q H)"
proof -
  have fin: "finite (dom (m_ptr H))" using ok by (simp add: rc_ok_def)
  let ?w = "if q = 0 then owned H else (owned H)(q := owned H q - 1)"
  have r: "int (refs_to p (store_ptr x q H)) = int (refs_to p H) - (if m_ptr H x = Some p then 1 else 0) + (if q = p then 1 else 0)" for p
    using refs_to_update [OF fin, where q = p and x = x and v = "Some q" and w = ?w] by (simp add: store_ptr_def)
  have f: "finite (dom (m_ptr (store_ptr x q H)))" "nref_of (store_ptr x q H) = nref_of H" "owned (store_ptr x q H) = ?w"
    using fin by (simp_all add: store_ptr_def)
  have "v = int (refs_to p (store_ptr x q H) + owned (store_ptr x q H) p)" if "nref_of H p = Some v" for p v
  proof -
    have "p \<noteq> 0" using ok that by (cases "p = 0") (auto simp: rc_ok_def)
    then show ?thesis using rc_ok_count [OF ok that] x q r [of p] by (auto simp: f of_nat_diff)
  qed
  moreover have "owned (store_ptr x q H) p = 0 \<and> (p \<noteq> 0 \<longrightarrow> refs_to p (store_ptr x q H) = 0)" if "nref_of H p = None" for p
  proof -
    have "owned H p = 0" "p \<noteq> 0 \<longrightarrow> refs_to p H = 0" using rc_ok_missing [OF ok that] by auto
    moreover have "q \<noteq> p \<or> p = 0" using q \<open>owned H p = 0\<close> by auto
    ultimately show ?thesis using r [of p] x by (auto simp: f)
  qed
  moreover have "owned (store_ptr x q H) 0 = 0" using ok by (auto simp: f rc_ok_def)
  ultimately show ?thesis using f ok by (simp add: rc_ok_def)
qed

lemma detach_to_ok:
  assumes ok: "rc_ok H" and v: "v = None \<or> v = Some 0"
  shows "rc_ok (detach_to v x H)" "m_ptr (detach_to v x H) = (m_ptr H)(x := v)"
    "pointee x H \<noteq> 0 \<Longrightarrow> 0 < owned (detach_to v x H) (pointee x H)" "\<And>p. owned H p \<le> owned (detach_to v x H) p"
    "pointee x H \<noteq> 0 \<Longrightarrow> refs_to (pointee x H) (detach_to v x H) + owned (detach_to v x H) (pointee x H) =
       refs_to (pointee x H) H + owned H (pointee x H)"
    "nref_of (detach_to v x H) = nref_of H" "destroyed (detach_to v x H) = destroyed H"
proof -
  let ?q = "pointee x H"
  let ?w = "if ?q = 0 then owned H else (owned H)(?q := owned H ?q + 1)"
  have fin: "finite (dom (m_ptr H))" using ok by (simp add: rc_ok_def)
  have r: "int (refs_to p (detach_to v x H)) = int (refs_to p H) - (if m_ptr H x = Some p then 1 else 0) + (if v = Some p then 1 else 0)" for p
    using refs_to_update [OF fin, where q = p and x = x and v = v and w = ?w] by (simp add: detach_to_def Let_def)
  have f: "finite (dom (m_ptr (detach_to v x H)))" "nref_of (detach_to v x H) = nref_of H" "owned (detach_to v x H) = ?w"
    using fin by (simp_all add: detach_to_def Let_def)
  have px: "m_ptr H x = Some p \<longleftrightarrow> ?q = p" if "p \<noteq> 0" for p using that by (auto simp: pointee_def split: option.splits)
  have move: "int (refs_to p (detach_to v x H)) + int (owned (detach_to v x H) p) = int (refs_to p H) + int (owned H p)" if "p \<noteq> 0" for p
    using r [of p] px [OF that] v that by (auto simp: f)
  have "w = int (refs_to p (detach_to v x H) + owned (detach_to v x H) p)" if "nref_of H p = Some w" for p w
  proof -
    have "p \<noteq> 0" using ok that by (cases "p = 0") (auto simp: rc_ok_def)
    then show ?thesis using rc_ok_count [OF ok that] move by simp
  qed
  moreover have "owned (detach_to v x H) p = 0 \<and> (p \<noteq> 0 \<longrightarrow> refs_to p (detach_to v x H) = 0)" if "nref_of H p = None" for p
  proof -
    have "owned H p = 0" "p \<noteq> 0 \<longrightarrow> refs_to p H = 0" using rc_ok_missing [OF ok that] by auto
    then show ?thesis using move [of p] by (cases "p = 0") (auto simp: f)
  qed
  moreover have "owned (detach_to v x H) 0 = 0" using ok by (auto simp: f rc_ok_def)
  ultimately show "rc_ok (detach_to v x H)" using f ok by (simp add: rc_ok_def)
  show "?q \<noteq> 0 \<Longrightarrow> refs_to ?q (detach_to v x H) + owned (detach_to v x H) ?q = refs_to ?q H + owned H ?q" using move [of ?q] by linarith
qed (simp_all add: detach_to_def Let_def)

text \<open>Every operation returns and keeps the invariant.\<close>

lemma ptr_raw_ok:
  assumes ok: "rc_ok H" and x: "m_ptr H x = None" and q: "q = 0 \<or> (if add_ref then nref_of H q \<noteq> None else 0 < owned H q)"
  shows "\<exists>H'. ptr_raw x q add_ref H = Some H' \<and> rc_ok H' \<and> m_ptr H' = (m_ptr H)(x \<mapsto> q)"
proof (cases "q \<noteq> 0 \<and> add_ref")
  case True
  then obtain v where "nref_of H q = Some v" using q by auto
  then obtain G where G: "obj_get q H = Some G" "rc_ok G" "owned G q = owned H q + 1" "m_ptr G = m_ptr H" using obj_get_ok [OF ok] by blast
  then show ?thesis using True store_ptr_ok [OF G(2), of x q] x by (simp add: ptr_raw_def) (simp add: store_ptr_def)
next
  case False
  then have "q = 0 \<or> 0 < owned H q" using q by auto
  then show ?thesis using False store_ptr_ok [OF ok, of x q] x by (auto simp: ptr_raw_def) (auto simp: store_ptr_def)
qed

lemma put_unless_null_ok:
  assumes "rc_ok H" and "q = 0 \<or> 0 < owned H q"
  shows "\<exists>H'. put_unless_null q H = Some H' \<and> rc_ok H' \<and> m_ptr H' = m_ptr H \<and>
    (q \<noteq> 0 \<longrightarrow> (nref_of H' q = None \<longleftrightarrow> refs_to q H + owned H q = 1))"
  using assms obj_put_ok [OF assms(1), of q] by (auto simp: put_unless_null_def)

lemma give_up_ok:
  assumes ok: "rc_ok H" and v: "v = None \<or> v = Some 0"
  shows "\<exists>H'. put_unless_null (pointee x H) (detach_to v x H) = Some H' \<and> rc_ok H' \<and> m_ptr H' = (m_ptr H)(x := v) \<and>
    (pointee x H \<noteq> 0 \<longrightarrow> (nref_of H' (pointee x H) = None \<longleftrightarrow> refs_to (pointee x H) H + owned H (pointee x H) = 1))"
proof -
  note d = detach_to_ok [OF ok v, where x = x]
  have "pointee x H = 0 \<or> 0 < owned (detach_to v x H) (pointee x H)" using d(3) by (cases "pointee x H = 0") simp_all
  from put_unless_null_ok [OF d(1) this] show ?thesis using d(2,5) by auto
qed

lemma ptr_swap_ok:
  assumes ok: "rc_ok H"
  shows "rc_ok (ptr_swap x y H)"
proof -
  have fin: "finite (dom (m_ptr H))" using ok by (simp add: rc_ok_def)
  let ?G = "H\<lparr>m_ptr := (m_ptr H)(x := m_ptr H y), owned := owned H\<rparr>"
  have sub: "dom ((m_ptr H)(x := m_ptr H y)) \<subseteq> insert x (dom (m_ptr H))" "dom ((m_ptr H)(x := m_ptr H y, y := m_ptr H x)) \<subseteq> insert x (insert y (dom (m_ptr H)))"
    by (auto simp: dom_def split: if_splits)
  then have finG: "finite (dom (m_ptr ?G))" and finS: "finite (dom (m_ptr (ptr_swap x y H)))"
    using fin by (auto simp: ptr_swap_def intro: finite_subset)
  have "refs_to q (ptr_swap x y H) = refs_to q (?G\<lparr>m_ptr := (m_ptr ?G)(y := m_ptr H x), owned := owned H\<rparr>)" for q
    by (rule refs_to_cong) (simp add: ptr_swap_def)
  then have "int (refs_to q (ptr_swap x y H)) = int (refs_to q H)" for q
    using refs_to_update [OF fin, where q = q and x = x and v = "m_ptr H y" and w = "owned H"]
      refs_to_update [OF finG, where q = q and x = y and v = "m_ptr H x" and w = "owned H"]
    by (cases "x = y") (simp_all only: fun_upd_apply rc_heap.simps, simp_all)
  then have "refs_to q (ptr_swap x y H) = refs_to q H" for q by simp
  then show ?thesis using ok finS by (simp add: rc_ok_def ptr_swap_def)
qed

lemma replace_ok:
  assumes ok: "rc_ok G" and t: "m_ptr G t = Some q" and x: "m_ptr G x = Some p" and "t \<noteq> x"
  shows "\<exists>H'. ptr_destroy t (ptr_swap t x G) = Some H' \<and> rc_ok H' \<and> m_ptr H' = (m_ptr G)(x \<mapsto> q, t := None)"
proof -
  obtain H' where H': "put_unless_null (pointee t (ptr_swap t x G)) (detach_to None t (ptr_swap t x G)) = Some H'" "rc_ok H'"
    "m_ptr H' = (m_ptr (ptr_swap t x G))(t := None)"
    using give_up_ok [OF ptr_swap_ok [OF ok], where v = None and x = t] by blast
  then show ?thesis using t x assms(4) by (simp add: ptr_destroy_def ptr_swap_def fun_upd_twist)
qed

lemma ptr_assign_ok:
  assumes ok: "rc_ok H" and t: "m_ptr H t = None" and x: "m_ptr H x = Some p" and y: "m_ptr H y = Some q"
  shows "\<exists>H'. ptr_assign t x y H = Some H' \<and> rc_ok H' \<and> m_ptr H' = (m_ptr H)(x \<mapsto> q)"
proof -
  have q: "pointee y H = q" using y by (simp add: pointee_def)
  have "q = 0 \<or> nref_of H q \<noteq> None" using rc_ok_exists [OF ok y] by auto
  then obtain G where G: "ptr_copy t y H = Some G" "rc_ok G" "m_ptr G = (m_ptr H)(t \<mapsto> q)"
    using ptr_raw_ok [OF ok t, of q True] by (auto simp: ptr_copy_def q)
  have tx: "t \<noteq> x" using t x by auto
  then obtain H' where "ptr_destroy t (ptr_swap t x G) = Some H'" "rc_ok H'" "m_ptr H' = (m_ptr G)(x \<mapsto> q, t := None)"
    using replace_ok [OF G(2), of t q x p] G(3) x by auto
  moreover have "(m_ptr G)(x \<mapsto> q, t := None) = (m_ptr H)(x \<mapsto> q)" using G(3) t tx by (auto simp: fun_eq_iff)
  ultimately show ?thesis using G(1) by (auto simp: ptr_assign_def)
qed

lemma ptr_reset_raw_ok:
  assumes ok: "rc_ok H" and t: "m_ptr H t = None" and x: "m_ptr H x = Some p"
    and q: "q = 0 \<or> (if add_ref then nref_of H q \<noteq> None else 0 < owned H q)"
  shows "\<exists>H'. ptr_reset_raw t x q add_ref H = Some H' \<and> rc_ok H' \<and> m_ptr H' = (m_ptr H)(x \<mapsto> q)"
proof -
  obtain G where G: "ptr_raw t q add_ref H = Some G" "rc_ok G" "m_ptr G = (m_ptr H)(t \<mapsto> q)" using ptr_raw_ok [OF ok t q] by blast
  have tx: "t \<noteq> x" using t x by auto
  then obtain H' where "ptr_destroy t (ptr_swap t x G) = Some H'" "rc_ok H'" "m_ptr H' = (m_ptr G)(x \<mapsto> q, t := None)"
    using replace_ok [OF G(2), of t q x p] G(3) x by auto
  moreover have "(m_ptr G)(x \<mapsto> q, t := None) = (m_ptr H)(x \<mapsto> q)" using G(3) t tx by (auto simp: fun_eq_iff)
  ultimately show ?thesis using G(1) by (auto simp: ptr_reset_raw_def)
qed

lemma set_priv_ok:
  assumes ok: "rc_ok H" and q: "q = 0 \<or> 0 < owned H q"
  shows "\<exists>H'. set_priv c q H = Some H' \<and> rc_ok H' \<and> m_ptr H' = (m_ptr H)(c \<mapsto> q)"
proof -
  let ?p = "pointee c H"
  define G where "G = detach_to (Some 0) c H"
  note d = detach_to_ok [OF ok, where v = "Some 0" and x = c, simplified, folded G_def]
  have "q = 0 \<or> 0 < owned G q" using q d(4) [of q] by auto
  then have S: "rc_ok (store_ptr c q G)" using store_ptr_ok [OF d(1), of c q] d(2) by simp
  have "?p = 0 \<or> 0 < owned (store_ptr c q G) ?p"
  proof (cases "q = ?p")
    case True
    have "owned G ?p = owned H ?p + 1" if "?p \<noteq> 0" using that by (simp add: G_def detach_to_def Let_def)
    then show ?thesis using True q by (auto simp: store_ptr_def)
  next
    case False
    then show ?thesis using d(3) by (cases "?p = 0") (simp_all add: store_ptr_def)
  qed
  from put_unless_null_ok [OF S this] show ?thesis using d(2) by (auto simp: set_priv_def Let_def G_def store_ptr_def)
qed

section \<open>Programs\<close>

text \<open>
  What a program may do: it constructs variables at fresh addresses, uses constructed ones, hands over plain pointers that
  carry a reference, and puts what it has got.
\<close>

inductive rc_step :: "rc_heap \<Rightarrow> rc_heap \<Rightarrow> bool" where
  new_obj: "nref_of H q = None \<Longrightarrow> q \<noteq> 0 \<Longrightarrow> rc_step H (new_object q n H)"
| get: "nref_of H q \<noteq> None \<Longrightarrow> obj_get q H = Some H' \<Longrightarrow> rc_step H H'"
| put: "0 < owned H q \<Longrightarrow> obj_put q H = Some H' \<Longrightarrow> rc_step H H'"
| null: "m_ptr H x = None \<Longrightarrow> rc_step H (ptr_null x H)"
| raw: "m_ptr H x = None \<Longrightarrow> q = 0 \<or> (if add_ref then nref_of H q \<noteq> None else 0 < owned H q) \<Longrightarrow> ptr_raw x q add_ref H = Some H' \<Longrightarrow> rc_step H H'"
| copy: "m_ptr H x = None \<Longrightarrow> m_ptr H y \<noteq> None \<Longrightarrow> ptr_copy x y H = Some H' \<Longrightarrow> rc_step H H'"
| destroy: "m_ptr H x \<noteq> None \<Longrightarrow> ptr_destroy x H = Some H' \<Longrightarrow> rc_step H H'"
| reset: "m_ptr H x \<noteq> None \<Longrightarrow> ptr_reset x H = Some H' \<Longrightarrow> rc_step H H'"
| detach: "m_ptr H x \<noteq> None \<Longrightarrow> rc_step H (snd (ptr_detach x H))"
| swap: "m_ptr H x \<noteq> None \<Longrightarrow> m_ptr H y \<noteq> None \<Longrightarrow> rc_step H (ptr_swap x y H)"
| assign: "m_ptr H t = None \<Longrightarrow> m_ptr H x \<noteq> None \<Longrightarrow> m_ptr H y \<noteq> None \<Longrightarrow> ptr_assign t x y H = Some H' \<Longrightarrow> rc_step H H'"
| assign_raw: "m_ptr H t = None \<Longrightarrow> m_ptr H x \<noteq> None \<Longrightarrow> q = 0 \<or> (if add_ref then nref_of H q \<noteq> None else 0 < owned H q) \<Longrightarrow>
    ptr_reset_raw t x q add_ref H = Some H' \<Longrightarrow> rc_step H H'"
| set_priv: "m_ptr H c \<noteq> None \<Longrightarrow> q = 0 \<or> 0 < owned H q \<Longrightarrow> set_priv c q H = Some H' \<Longrightarrow> rc_step H H'"
| get_priv: "m_ptr H c \<noteq> None \<Longrightarrow> get_priv c H = Some (q, H') \<Longrightarrow> rc_step H H'"

inductive rc_reachable :: "rc_heap \<Rightarrow> bool" where
  init: "rc_reachable \<lparr>nref_of = Map.empty, m_ptr = Map.empty, owned = (\<lambda>_. 0), destroyed = []\<rparr>"
| step: "rc_reachable H \<Longrightarrow> rc_step H H' \<Longrightarrow> rc_reachable H'"

lemma rc_step_ok:
  assumes "rc_step H H'" and ok: "rc_ok H"
  shows "rc_ok H'"
  using assms(1)
proof cases
  case new_obj
  then show ?thesis using new_object_ok [OF ok] by simp
next
  case (get q)
  then obtain v where "nref_of H q = Some v" by auto
  from obj_get_ok [OF ok this] show ?thesis using get(2) by auto
next
  case (put q)
  then show ?thesis using obj_put_ok [OF ok put(1)] by auto
next
  case (null x)
  then show ?thesis using store_ptr_ok [OF ok, of x 0] by (simp add: ptr_null_def)
next
  case (raw x q add_ref)
  then show ?thesis using ptr_raw_ok [OF ok raw(1,2)] by auto
next
  case (copy x y)
  then obtain q where y: "m_ptr H y = Some q" by auto
  have "q = 0 \<or> nref_of H q \<noteq> None" using rc_ok_exists [OF ok y] by auto
  then show ?thesis using ptr_raw_ok [OF ok copy(1), of q True] copy(3) y by (auto simp: ptr_copy_def pointee_def)
next
  case (destroy x)
  then show ?thesis using give_up_ok [OF ok, where v = None and x = x] by (auto simp: ptr_destroy_def)
next
  case (reset x)
  then show ?thesis using give_up_ok [OF ok, where v = "Some 0" and x = x] by (auto simp: ptr_reset_def)
next
  case (detach x)
  then show ?thesis using detach_to_ok(1) [OF ok, where v = "Some 0" and x = x] by (simp add: ptr_detach_def)
next
  case swap
  then show ?thesis using ptr_swap_ok [OF ok] by simp
next
  case (assign t x y)
  then obtain p q where pq: "m_ptr H x = Some p" "m_ptr H y = Some q" by auto
  from ptr_assign_ok [OF ok assign(1) pq] show ?thesis using assign(4) by auto
next
  case (assign_raw t x q add_ref)
  then obtain p where p: "m_ptr H x = Some p" by auto
  from ptr_reset_raw_ok [OF ok assign_raw(1) p assign_raw(3)] show ?thesis using assign_raw(4) by auto
next
  case (set_priv c q)
  then show ?thesis using set_priv_ok [OF ok set_priv(2), of c] by auto
next
  case (get_priv c q)
  show ?thesis
  proof (cases "pointee c H = 0")
    case False
    then have "m_ptr H c = Some (pointee c H)" using get_priv(1) by (auto simp: pointee_def)
    then obtain v where "nref_of H (pointee c H) = Some v" using rc_ok_exists [OF ok _ False] by blast
    from obj_get_ok [OF ok this] show ?thesis using False get_priv(2) by (auto simp: get_priv_def Let_def)
  qed (use get_priv(2) ok in \<open>simp add: get_priv_def\<close>)
qed

lemma rc_reachable_ok: "rc_reachable H \<Longrightarrow> rc_ok H"
  by (induction rule: rc_reachable.induct) (simp_all add: rc_ok_def [of "\<lparr>nref_of = _, m_ptr = _, owned = _, destroyed = _\<rparr>"] refs_to_def rc_step_ok)

text \<open>
  C36. However pointers are copied, assigned (also to themselves), swapped, detached and destroyed: the count of an object is the number of
  pointers to it plus the references the program holds itself; no pointer is left to a deleted object; an assignment returns and
  makes the pointers equal; and destroying a pointer deletes the object exactly when that was the last reference.
\<close>

theorem references_counted:
  assumes "rc_reachable H" and "m_ptr H x = Some p" and "m_ptr H y = Some q" and "m_ptr H t = None"
  shows "(\<forall>v. nref_of H q = Some v \<longrightarrow> v = int (refs_to q H + owned H q)) \<and> (q \<noteq> 0 \<longrightarrow> nref_of H q \<noteq> None) \<and>
    (\<exists>H'. ptr_assign t x y H = Some H' \<and> m_ptr H' = (m_ptr H)(x \<mapsto> q)) \<and>
    (\<exists>H'. ptr_destroy y H = Some H' \<and> (q \<noteq> 0 \<longrightarrow> (nref_of H' q = None \<longleftrightarrow> refs_to q H + owned H q = 1)))"
proof -
  have ok: "rc_ok H" by (rule rc_reachable_ok [OF assms(1)])
  have "pointee y H = q" using assms(3) by (simp add: pointee_def)
  then have "\<exists>H'. ptr_destroy y H = Some H' \<and> (q \<noteq> 0 \<longrightarrow> (nref_of H' q = None \<longleftrightarrow> refs_to q H + owned H q = 1))"
    using give_up_ok [OF ok, where v = None and x = y] by (auto simp: ptr_destroy_def)
  then show ?thesis using rc_ok_count [OF ok] rc_ok_exists [OF ok assms(3)] ptr_assign_ok [OF ok assms(4,2,3)] by blast
qed

definition sample_rc :: rc_heap where
  "sample_rc = \<lparr>nref_of = [7 \<mapsto> 1], m_ptr = [1 \<mapsto> 7, 2 \<mapsto> 0], owned = (\<lambda>_. 0), destroyed = []\<rparr>"

lemma sample_rc_reachable: "rc_reachable sample_rc"
proof -
  let ?H0 = "\<lparr>nref_of = Map.empty, m_ptr = Map.empty, owned = (\<lambda>_. 0), destroyed = []\<rparr>"
  have 1: "rc_reachable (new_object 7 0 ?H0)" by (rule rc_reachable.step [OF rc_reachable.init rc_step.new_obj]) simp_all
  let ?H2 = "\<lparr>nref_of = [7 \<mapsto> 1], m_ptr = [1 \<mapsto> 7], owned = (\<lambda>_. 0), destroyed = []\<rparr>"
  have "ptr_raw 1 7 True (new_object 7 0 ?H0) = Some ?H2"
    by (simp add: ptr_raw_def obj_get_def new_object_def store_ptr_def fun_eq_iff)
  then have 2: "rc_reachable ?H2" by (intro rc_reachable.step [OF 1 rc_step.raw [of _ 1 7 True]]) (simp_all add: new_object_def)
  have "ptr_null 2 ?H2 = sample_rc" by (simp add: ptr_null_def store_ptr_def sample_rc_def)
  moreover have "rc_reachable (ptr_null 2 ?H2)" by (rule rc_reachable.step [OF 2 rc_step.null]) simp
  ultimately show ?thesis by simp
qed

theorem references_counted_witness:
  "(\<exists>H'. ptr_assign 9 2 1 sample_rc = Some H' \<and> m_ptr H' 2 = Some 7) \<and> (\<exists>H'. ptr_destroy 1 sample_rc = Some H' \<and> nref_of H' 7 = None)"
proof -
  have "{x. x = 1} = {1 :: nat}" by auto
  then have "refs_to 7 sample_rc + owned sample_rc 7 = 1" by (simp add: refs_to_def sample_rc_def)
  then show ?thesis
    using references_counted [OF sample_rc_reachable, of 2 0 1 7 9] by (auto simp: sample_rc_def)
qed

end
