(* ===== verification/Net_Handler.thy ===== *)
theory Net_Handler
  imports Main
begin

text \<open>
  Opening sockets (\<^verbatim>\<open>src/src/async/net_handler.cc\<close>).  The system calls are given by their results, \<open>None\<close> or an error number; the state is the
  set of open descriptors.  A \<^verbatim>\<open>close\<close> that succeeds leaves \<^verbatim>\<open>errno\<close> alone.  The socket options set at the end cannot fail the call and are
  left out.
\<close>

section \<open>Operations\<close>

definition EINPROGRESS :: int where "EINPROGRESS = 115"

record net_calls =
  nc_socket :: "int \<Rightarrow> int + int"
  nc_reuse :: "int \<Rightarrow> int option"
  nc_getfl :: "int \<Rightarrow> int option"
  nc_setfl :: "int \<Rightarrow> int option"
  nc_connect :: "int \<Rightarrow> int option"

definition create_socket :: "net_calls \<Rightarrow> int \<Rightarrow> bool \<Rightarrow> int set \<Rightarrow> int \<times> int set" where
  "create_socket K domain reuse_addr S =
     (case nc_socket K domain of
        Inl e \<Rightarrow> (- e, S)
      | Inr s \<Rightarrow>
          (let S = insert s S
           in if reuse_addr then (case nc_reuse K s of Some e \<Rightarrow> (- e, S - {s}) | None \<Rightarrow> (s, S)) else (s, S)))"

definition set_nonblock :: "net_calls \<Rightarrow> int \<Rightarrow> int" where
  "set_nonblock K sd =
     (case nc_getfl K sd of
        Some e \<Rightarrow> - e
      | None \<Rightarrow> (case nc_setfl K sd of Some e \<Rightarrow> - e | None \<Rightarrow> 0))"

definition generic_connect :: "net_calls \<Rightarrow> int \<Rightarrow> bool \<Rightarrow> int set \<Rightarrow> int \<times> int set" where
  "generic_connect K domain nonblock S =
     (let (s, S) = create_socket K domain False S
      in if s < 0 then (s, S)
         else
           (let ret = (if nonblock then set_nonblock K s else 0)
            in if ret < 0 then (ret, S - {s})
               else
                 (case nc_connect K s of
                    Some e \<Rightarrow> if e = EINPROGRESS \<and> nonblock then (s, S) else (- e, S - {s})
                  | None \<Rightarrow> (s, S))))"

definition net_connect :: "net_calls \<Rightarrow> int \<Rightarrow> int set \<Rightarrow> int \<times> int set" where
  "net_connect K domain S = generic_connect K domain False S"

definition nonblock_connect :: "net_calls \<Rightarrow> int \<Rightarrow> int set \<Rightarrow> int \<times> int set" where
  "nonblock_connect K domain S = generic_connect K domain True S"

section \<open>No socket is lost\<close>

text \<open>Error numbers are positive, and a new descriptor is neither negative nor in use.\<close>

definition net_ok :: "net_calls \<Rightarrow> int set \<Rightarrow> bool" where
  "net_ok K S \<longleftrightarrow> (\<forall>d. case nc_socket K d of Inl e \<Rightarrow> e > 0 | Inr s \<Rightarrow> s \<ge> 0 \<and> s \<notin> S) \<and>
     (\<forall>s e. nc_reuse K s = Some e \<or> nc_getfl K s = Some e \<or> nc_setfl K s = Some e \<or> nc_connect K s = Some e \<longrightarrow> e > 0)"

lemma create_socket_result:
  assumes "net_ok K S" and "create_socket K d reuse S = (s, S')"
  shows "if s < 0 then S' = S else s \<notin> S \<and> S' = insert s S"
proof -
  have "case nc_socket K d of Inl e \<Rightarrow> e > 0 | Inr s \<Rightarrow> s \<ge> 0 \<and> s \<notin> S" "nc_reuse K s = Some e \<Longrightarrow> e > 0" for s e
    using assms(1) by (simp_all add: net_ok_def)
  then show ?thesis
    using assms(2) by (fastforce simp: create_socket_def Let_def split: sum.splits if_splits option.splits)
qed

lemma set_nonblock_result: "net_ok K S \<Longrightarrow> set_nonblock K s \<le> 0"
  by (fastforce simp: set_nonblock_def net_ok_def intro: less_imp_le split: option.splits)

text \<open>
  A connect either returns a descriptor that is open and was not before, or an error with all sockets as they were; without
  blocking a connection that is still being established counts as success.
\<close>

theorem connect_loses_no_socket:
  assumes ok: "net_ok K S" and run: "generic_connect K d nonblock S = (s, S')"
  shows "(if s < 0 then S' = S else s \<notin> S \<and> S' = insert s S) \<and>
    (s \<ge> 0 \<longrightarrow> nc_connect K s = None \<or> nonblock \<and> nc_connect K s = Some EINPROGRESS)"
proof -
  obtain s1 S1 where c: "create_socket K d False S = (s1, S1)" by (metis surj_pair)
  note r = create_socket_result [OF ok c]
  show ?thesis
  proof (cases "s1 < 0 \<or> (if nonblock then set_nonblock K s1 else 0) < 0")
    case True
    then show ?thesis using run c r by (auto simp: generic_connect_def Let_def split: if_splits)
  next
    case False
    have pos: "nc_connect K s1 = Some e \<Longrightarrow> e > 0" for e using ok by (simp add: net_ok_def)
    show ?thesis
      using run c r False pos by (cases "nc_connect K s1") (auto simp: generic_connect_def Let_def EINPROGRESS_def split: if_splits)
  qed
qed

theorem connect_loses_no_socket_witness:
  "generic_connect \<lparr>nc_socket = (\<lambda>_. Inr 5), nc_reuse = (\<lambda>_. None), nc_getfl = (\<lambda>_. None), nc_setfl = (\<lambda>_. None),
     nc_connect = (\<lambda>_. Some EINPROGRESS)\<rparr> 2 True {3} = (5, {3, 5}) \<and> (5 :: int) \<notin> {3}"
proof -
  let ?K = "\<lparr>nc_socket = (\<lambda>_. Inr 5), nc_reuse = (\<lambda>_. None), nc_getfl = (\<lambda>_. None), nc_setfl = (\<lambda>_. None), nc_connect = (\<lambda>_. Some EINPROGRESS)\<rparr>"
  have ok: "net_ok ?K {3}" by (simp add: net_ok_def EINPROGRESS_def)
  have run: "generic_connect ?K 2 True {3} = (5, insert 5 {3})"
    by (simp add: generic_connect_def create_socket_def set_nonblock_def EINPROGRESS_def)
  from connect_loses_no_socket [OF ok run] show ?thesis using run by auto
qed

end
