(* ===== verification/Spec2Isabelle.thy ===== *)
theory Spec2Isabelle
  imports Conn_Wire Identify Mark_Down Buffer_Align Buffer_File Encoding_More Hashing Ref_Counting Net_Handler
begin

text \<open>
  \<^bold>\<open>Verification of the msgr messenger library.\<close>

  msgr is the asynchronous messaging layer of a distributed system: applications hand messages to
  connections, which write them to TCP sockets, keep them until the peer has acknowledged them, reconnect
  after faults, and hand incoming messages to dispatchers through a queue.  This development models the
  library's own logic in HOL, function by function, and proves what the parts promise to each other.

  \<^bold>\<open>Parts and theories.\<close>  The paths are relative to \<^verbatim>\<open>src/src\<close> and \<^verbatim>\<open>src/include/msgr\<close>.

  \<^item> \<^bold>\<open>Foundations.\<close>  \<^verbatim>\<open>Msgr_Prelude\<close>: words, 32-bit wrap-around, list lemmas.  \<^verbatim>\<open>Ordered_Map\<close>: \<^verbatim>\<open>std::map\<close> as a sorted association
    list behind the locale \<open>map_interface\<close>.  \<^verbatim>\<open>Byte_Order\<close>: \<^verbatim>\<open>byteorder.h\<close>, on hosts of either byte order.  \<^verbatim>\<open>Text_Utils\<close>:
    \<^verbatim>\<open>strtol.cc\<close> and \<^verbatim>\<open>str_list.cc\<close>.  \<^verbatim>\<open>Time\<close>: \<^verbatim>\<open>utime.h\<close>.  \<^verbatim>\<open>Safe_IO\<close>: \<^verbatim>\<open>safe_io.cc\<close>.  \<^verbatim>\<open>Ref_Counting\<close>: \<^verbatim>\<open>RefCountedObj.h\<close>,
    \<^verbatim>\<open>intrusive_ptr.h\<close> and the private object of a connection.  \<^verbatim>\<open>Hashing\<close>: \<^verbatim>\<open>hash.h\<close>, \<^verbatim>\<open>blobhash.h\<close> and the hashes of addresses.
  \<^item> \<^bold>\<open>Checksums and armor.\<close>  \<^verbatim>\<open>Crc32c\<close>: the table-driven routines of \<^verbatim>\<open>sctp_crc32.c\<close> and \<^verbatim>\<open>crc32c_intel_baseline.c\<close>, both
    interpretations of the locale \<open>crc32c_impl\<close> over the bitwise definition.  \<^verbatim>\<open>Armor\<close>: base64 of \<^verbatim>\<open>armor.c\<close>.
  \<^item> \<^bold>\<open>Buffers\<close> (\<^verbatim>\<open>buffer.cc\<close>, \<^verbatim>\<open>buffer.h\<close>).  \<^verbatim>\<open>Buffer\<close>: raw memory in a heap, and windows on it; \<^verbatim>\<open>Buffer_List\<close>,
    \<^verbatim>\<open>Buffer_Ops\<close>: lists of windows with append, substr, splice, comparison, checksum and base64;
    \<^verbatim>\<open>Buffer_Iter\<close>: reading, behind the locale \<open>byte_source\<close>; \<^verbatim>\<open>Buffer_Write\<close>: writing in place; \<^verbatim>\<open>Buffer_Align\<close>: zeroing,
    contiguous and aligned lists; \<^verbatim>\<open>Buffer_File\<close>: writing lists to files and reading them back.  Aliasing is explicit:
    several windows may share memory, and the theorems say what an operation leaves alone.
  \<^item> \<^bold>\<open>Wire encoding\<close> (\<^verbatim>\<open>encoding.h\<close>).  \<^verbatim>\<open>Encoding\<close>: encoders and decoders of integers, strings, containers and versioned
    structures.  \<^verbatim>\<open>Encoding_Laws\<close>: the locale \<open>codec\<close>, its combinators and interpretations; \<^verbatim>\<open>Encoding_More\<close>: the remaining
    containers.  \<^verbatim>\<open>Entity\<close>: names and
    addresses of \<^verbatim>\<open>msg_types.h\<close> and \<^verbatim>\<open>msg_types.cc\<close>.
  \<^item> \<^bold>\<open>Queues.\<close>  \<^verbatim>\<open>Fifo_Queue\<close>: \<^verbatim>\<open>FIFOQueue.h\<close>, an interpretation of the locale \<open>mqueue\<close> that the dispatch queue relies on.
    \<^verbatim>\<open>Dispatch_Queue\<close>: \<^verbatim>\<open>DispatchQueue.cc\<close> with its two threads as an interleaving of atomic steps.  \<^verbatim>\<open>Throttle\<close>: \<^verbatim>\<open>Throttle.cc\<close>,
    likewise.  \<^verbatim>\<open>Messenger_Core\<close>: policies and dispatcher chains of \<^verbatim>\<open>Messenger.h\<close>.
  \<^item> \<^bold>\<open>Messages.\<close>  \<^verbatim>\<open>Message\<close>: header, footer, checksums, encoding and decoding of \<^verbatim>\<open>Message.cc\<close>.
  \<^item> \<^bold>\<open>Connections\<close> (\<^verbatim>\<open>async/AsyncConnection.cc\<close>).  \<^verbatim>\<open>Session\<close>: sequence numbers, outgoing queues, acknowledgements, and two
    sessions with the network between them as a system of events.  \<^verbatim>\<open>Socket_IO\<close>: \<^verbatim>\<open>read_until\<close> and \<^verbatim>\<open>_try_send\<close> over
    locales of sockets.  \<^verbatim>\<open>Conn_State\<close>, \<^verbatim>\<open>Conn_Open\<close>, \<^verbatim>\<open>Conn_Frame\<close>, \<^verbatim>\<open>Conn_Live\<close>, \<^verbatim>\<open>Conn_Process\<close>: the state machine of \<^verbatim>\<open>do_process\<close> in
    its open states.  \<^verbatim>\<open>Conn_Write\<close>, \<^verbatim>\<open>Conn_Wire\<close>: \<^verbatim>\<open>_send\<close>, \<^verbatim>\<open>handle_write\<close>, and the path of a message through the wire.
    \<^verbatim>\<open>Handshake\<close>: connect message and reply, replacing an existing connection, \<^verbatim>\<open>fault\<close>, \<^verbatim>\<open>_stop\<close> and the registry of
    \<^verbatim>\<open>async/AsyncMessenger.h\<close>; \<^verbatim>\<open>Handshake_Live\<close>: negotiations of two peers.  \<^verbatim>\<open>Identify\<close>: banners, addresses and races.
  \<^item> \<^bold>\<open>The messenger\<close> (\<^verbatim>\<open>async/AsyncMessenger.cc\<close>).  \<^verbatim>\<open>Listener\<close>: the search for a port in \<^verbatim>\<open>Processor::bind\<close> and the loop of
    \<^verbatim>\<open>Processor::accept\<close>.  \<^verbatim>\<open>Async_Messenger\<close>: the messenger with its listener, worker pool, loopback connection, dispatch queue
    and registered connections, from construction through bind, start, rebind and shutdown to wait.  \<^verbatim>\<open>Messenger_Life\<close>: what
    joining the threads and the barrier of the workers achieve.  \<^verbatim>\<open>Messenger_Reach\<close>: the operations as a step relation.
    \<^verbatim>\<open>Mark_Down\<close>: closing one connection.  \<^verbatim>\<open>Net_Handler\<close>: opening sockets, of \<^verbatim>\<open>async/net_handler.cc\<close>.

  \<^bold>\<open>How the models correspond to the code.\<close>  A structure is a record with the fields of the source, an enumeration a
  datatype, an integer a word of its width, or a natural number with the reduction written out; a function
  that throws returns a sum with the exception on the left, a failed assertion is \<open>None\<close> or a constructor of its
  own.  A step of a thread between taking and releasing a lock is one function; the interleavings of such steps
  are inductive relations, and the invariants are proved by induction over them.  System calls, the
  application's callbacks, authorizers, random numbers and \<^verbatim>\<open>inet_pton\<close> are parameters.

  \<^bold>\<open>What is proved.\<close>  Each property stands behind a text that names its number.
  \<^item> \<^emph>\<open>Sessions\<close> deliver each message once, in order, and lose none, through any sequence of faults and
    reconnections of lossless sessions; the limit of this, a message with a priority above 255, is a theorem as well.
  \<^item> \<^emph>\<open>Negotiations\<close> end within four rounds in agreement, resume the session exactly as the session model says, and
    of two crossing attempts one survives; the addresses that decide this are the ones the identification settles.
  \<^item> \<^emph>\<open>Open connections\<close> keep a well-formed state whatever bytes arrive, each call returns, and the bytes of an
    encoded message reach the dispatch queue as that message however they are cut.
  \<^item> \<^emph>\<open>The dispatch queue\<close> never loses a wake-up, fails no assertion and delivers everything in the order of the
    priority queue, which refines a list; throttles respect their limits and serve the head of the line.
  \<^item> \<^emph>\<open>A messenger\<close> owns at most one listening socket, found at the first acceptable address; shutting it down and
    waiting for it returns with every connection closed and nothing left in the queue, and closing one connection returns
    with it closed; started a second time it cannot be shut down again, which is a theorem as well.  References are counted exactly.
  \<^item> \<^emph>\<open>Buffers, encodings, checksums and text\<close> compute what their reference definitions say: contents, round trips
    across byte orders and versions, the bitwise CRC-32C, scaled numbers, tokens.

  \<^bold>\<open>Bounds and fuel.\<close>  Loops whose end is not evident are functions with a termination proof or partial functions in
  the option type, with theorems that they return.  \<open>append_loop\<close> has fuel 3 because the second round allocates a
  buffer that holds the rest; \<open>run_dispatch\<close> runs 2n+1 steps for n queued items, one locked and one unlocked step each
  and a last one that finds the queue empty; \<open>negotiate\<close> is run for 4 rounds: a new global number, a new session
  number or a reset, the replacement, the opening; repeated reads are bounded by the number of times the
  socket makes them wait; \<open>am_shutdown\<close> lets the local-delivery thread take two steps for each message it still has
  and two more.  Each bound is part of a theorem that it is enough.

  \<^bold>\<open>Not modelled.\<close>  The libev loop, socket options, threads, locks, logging and configuration are wrappers around system
  libraries or have no effect that is observed here; of the event loop the list of external events is part of
  \<^verbatim>\<open>Async_Messenger\<close>.  The worker pool is taken as running.  Left out are of \<^verbatim>\<open>utime.h\<close> printing and date parsing; of
  \<^verbatim>\<open>strtol.cc\<close> the conversions to floating point; of \<^verbatim>\<open>encoding.h\<close> and \<^verbatim>\<open>buffer.cc\<close> the parts listed with the components.  The
  checksum routines in assembler are outside the logic of the sources modelled.  The handshake is modelled
  from the point where a structure has been read: \<^verbatim>\<open>read_until\<close> is the one of \<^verbatim>\<open>Socket_IO\<close>.
\<close>

end
